(* ===== verification/Prelude.thy ===== *)
theory Prelude
  imports Main "HOL-Library.Monad_Syntax"
begin

text \<open>
  Shared notions of the development: pointers, the allocator, C strings in a block of
  memory, the character classes the JSON code switches on, and the generic lemmas the
  components use.

  Convention.  A function of the model whose result type is an \<open>option\<close> returns \<open>None\<close>
  exactly when the C code leaves defined behaviour: a failed \<open>assert\<close>, a null or dangling
  pointer that is dereferenced, a read or a write outside its block.  Error codes of the
  program are ordinary values of the result.
\<close>

named_theorems alloc_simps "what each call of the allocator leaves unchanged"
named_theorems char_simps "unfolding of the character classes"

section \<open>Pointers\<close>

datatype ptr = NULL | Ptr (addr: nat)

section \<open>The allocator\<close>

text \<open>
  The C library's allocator is not part of the program.  It appears as a record of unknown
  functions: \<open>grants n\<close> says whether the \<open>n\<close>-th request of the run succeeds, \<open>junk n i\<close>
  is the unspecified content of cell \<open>i\<close> of memory handed out by request \<open>n\<close>.  Every
  theorem quantifies over it, so every pattern of failures is covered.
\<close>

record allocator =
  grants :: "nat \<Rightarrow> bool"
  junk :: "nat \<Rightarrow> nat \<Rightarrow> char"
  requests :: nat

definition request :: "allocator \<Rightarrow> bool \<times> allocator" where
  "request m = (grants m (requests m), m\<lparr>requests := Suc (requests m)\<rparr>)"

definition generous :: "allocator \<Rightarrow> bool" where
  "generous m \<longleftrightarrow> grants m = (\<lambda>_. True)"

definition plenty :: allocator where
  "plenty = \<lparr>grants = (\<lambda>_. True), junk = (\<lambda>_ _. CHR 0x00), requests = 0\<rparr>"

definition exhausted :: allocator where
  "exhausted = \<lparr>grants = (\<lambda>_. False), junk = (\<lambda>_ _. CHR 0x00), requests = 0\<rparr>"

lemma generous_plenty [simp]: "generous plenty"
  by (simp add: generous_def plenty_def)

lemma request_generous [alloc_simps]:
  "generous m \<Longrightarrow> request m = (True, m\<lparr>requests := Suc (requests m)\<rparr>)"
  by (simp add: generous_def request_def)

lemma not_generousI [intro]: "\<not> grants m n \<Longrightarrow> \<not> generous m"
  by (auto simp: generous_def)

lemma generous_cong: "grants m = grants m' \<Longrightarrow> generous m = generous m'"
  by (simp add: generous_def)

lemma generous_requests [simp]: "generous (m\<lparr>requests := n\<rparr>) = generous m"
  by (simp add: generous_def)

section \<open>C strings in memory\<close>

abbreviation NUL :: char where
  "NUL \<equiv> CHR 0x00"

text \<open>The string a block holds: the characters before the first NUL.\<close>

definition c_string :: "char list \<Rightarrow> string" where
  "c_string buf = takeWhile (\<lambda>c. c \<noteq> NUL) buf"

text \<open>\<open>strlen\<close> reads past the block when no NUL stops it.\<close>

definition c_strlen :: "char list \<Rightarrow> nat option" where
  "c_strlen buf = (if NUL \<in> set buf then Some (length (c_string buf)) else None)"

text \<open>Writing \<open>xs\<close> at offset \<open>i\<close>; outside the block the behaviour is undefined.\<close>

definition poke :: "'a list \<Rightarrow> nat \<Rightarrow> 'a list \<Rightarrow> 'a list option" where
  "poke buf i xs =
     (if i + length xs \<le> length buf
      then Some (take i buf @ xs @ drop (i + length xs) buf) else None)"

text \<open>The bytes \<open>strncpy\<close> stores: the source, cut or padded with NUL to \<open>n\<close> bytes.\<close>

definition strncpy_bytes :: "string \<Rightarrow> nat \<Rightarrow> char list" where
  "strncpy_bytes src n = take n src @ replicate (n - length src) NUL"

lemma length_poke: "poke buf i xs = Some buf' \<Longrightarrow> length buf' = length buf"
  by (auto simp: poke_def split: if_splits)

lemma length_strncpy_bytes [simp]: "length (strncpy_bytes src n) = n"
  by (simp add: strncpy_bytes_def)

lemma strncpy_bytes_exact [simp]: "strncpy_bytes src (length src) = src"
  by (simp add: strncpy_bytes_def)

lemma c_string_length_less: "NUL \<in> set buf \<Longrightarrow> length (c_string buf) < length buf"
  unfolding c_string_def by (induction buf) auto

lemma take_c_string: "take (length (c_string buf)) buf = c_string buf"
  by (simp add: c_string_def takeWhile_eq_take [symmetric])

lemma c_string_append:
  "NUL \<notin> set xs \<Longrightarrow> c_string (xs @ ys) = xs @ c_string ys"
  by (auto simp: c_string_def takeWhile_append)

lemma c_string_NUL [simp]: "c_string (NUL # ys) = []" "c_string [] = []"
  by (simp_all add: c_string_def)

lemma NUL_notin_c_string [simp]: "NUL \<notin> set (c_string buf)"
  by (auto simp: c_string_def dest: set_takeWhileD)

lemma c_string_id: "NUL \<notin> set xs \<Longrightarrow> c_string xs = xs"
  using c_string_append [of xs "[]"] by simp

lemma c_string_split:
  assumes "NUL \<in> set buf"
  obtains rest where "buf = c_string buf @ NUL # rest"
proof -
  from assms have "\<exists>rest. buf = c_string buf @ NUL # rest"
    by (induction buf) (auto simp: c_string_def)
  then show ?thesis using that by blast
qed

text \<open>The character a position in a text points at: NUL at its end.\<close>

definition peek :: "string \<Rightarrow> char" where
  "peek cs = (case cs of [] \<Rightarrow> NUL | c # _ \<Rightarrow> c)"

lemma peek_simps [simp]: "peek [] = NUL" "peek (c # cs) = c"
  by (simp_all add: peek_def)

lemma tl_Nil_length: "tl xs = [] \<longleftrightarrow> length xs \<le> 1"
  by (cases xs) auto

section \<open>Character classes\<close>

text \<open>The case labels \<open>'\x20'\<close>, \<open>'\x09'\<close>, \<open>'\x0A'\<close>, \<open>'\x0D'\<close>.\<close>

definition is_ws :: "char \<Rightarrow> bool" where
  [char_simps]: "is_ws c \<longleftrightarrow> c \<in> {CHR 0x20, CHR 0x09, CHR 0x0A, CHR 0x0D}"

definition is_digit19 :: "char \<Rightarrow> bool" where
  [char_simps]: "is_digit19 c \<longleftrightarrow> c \<in> set ''123456789''"

definition is_digit :: "char \<Rightarrow> bool" where
  [char_simps]: "is_digit c \<longleftrightarrow> c \<in> set ''0123456789''"

definition is_hex :: "char \<Rightarrow> bool" where
  [char_simps]: "is_hex c \<longleftrightarrow> c \<in> set ''0123456789abcdefABCDEF''"

text \<open>The characters that may follow a backslash, \<open>u\<close> apart.\<close>

abbreviation QUOTE :: char where "QUOTE \<equiv> CHR 0x22"
abbreviation BACKSLASH :: char where "BACKSLASH \<equiv> CHR 0x5C"

definition is_escape :: "char \<Rightarrow> bool" where
  [char_simps]: "is_escape c \<longleftrightarrow> c \<in> {BACKSLASH, QUOTE, CHR ''/'', CHR ''b'', CHR ''f'',
     CHR ''n'', CHR ''r'', CHR ''t''}"

end
