(* ===== verification/Rcstring.thy ===== *)
theory Rcstring
  imports Prelude
begin

text \<open>
  The growing string of \<open>net_libs/libbase/src/json.c\<close> (struct \<open>rui_cstring\<close>, functions
  \<open>rcs_*\<close>): a heap block with a capacity that is enlarged on demand.  A pointer to such a
  struct is null, live or dangling: \<open>rcs_resize\<close> frees the struct of its caller when
  \<open>realloc\<close> fails.  It does not free the block of the text, which leaks: that block is no part of
  the model once its struct is gone, so \<open>RcsDangling\<close> says of the pointer that it dangles and of
  the block nothing.  Sizes are natural numbers (no wrap-around of \<open>size_t\<close>).
\<close>

section \<open>Data\<close>

record rcstring =
  rcs_text :: "char list"
  rcs_max :: nat

datatype rstring_code = RS_MEMORY | RS_OK | RS_UNKNOWN

datatype rcs_ptr = RcsNull | Rcs rcstring | RcsDangling

definition RSTRING_INCSTEP :: nat where
  "RSTRING_INCSTEP = 3"

section \<open>Operations\<close>

definition rcs_create :: "nat \<Rightarrow> allocator \<Rightarrow> rcs_ptr \<times> allocator" where
  "rcs_create len m =
     (let (ok, m) = request m in
      if \<not> ok then (RcsNull, m)
      else let (ok, m) = request m in
        if \<not> ok then (RcsNull, m)
        else (Rcs \<lparr>rcs_text = replicate (len + 1) NUL, rcs_max = len\<rparr>, m))"

definition rcs_free :: "rcs_ptr \<Rightarrow> rcs_ptr option" where
  "rcs_free p = (case p of RcsNull \<Rightarrow> Some RcsNull | Rcs r \<Rightarrow> Some RcsNull | RcsDangling \<Rightarrow> None)"

definition rcs_resize ::
    "rcs_ptr \<Rightarrow> nat \<Rightarrow> allocator \<Rightarrow> (rstring_code \<times> rcs_ptr \<times> allocator) option" where
  "rcs_resize p len m =
     (case p of
        Rcs r \<Rightarrow>
          (let (ok, m') = request m in
           if \<not> ok then Some (RS_MEMORY, RcsDangling, m')
           else do {
             let cells = take (len + 1) (rcs_text r) @
                         map (junk m (requests m)) [length (rcs_text r)..<len + 1];
             buf \<leftarrow> poke cells len [NUL];
             Some (RS_OK, Rcs (r\<lparr>rcs_text := buf, rcs_max := len\<rparr>), m')
           })
      | _ \<Rightarrow> None)"

definition rcs_catcs ::
    "rcs_ptr \<Rightarrow> string \<Rightarrow> nat \<Rightarrow> allocator \<Rightarrow> (rstring_code \<times> rcs_ptr \<times> allocator) option" where
  "rcs_catcs p pos len m =
     (case p of
        Rcs r \<Rightarrow> do {
          pre_length \<leftarrow> c_strlen (rcs_text r);
          (code, p, m) \<leftarrow> (if rcs_max r < pre_length + len
                           then rcs_resize (Rcs r) (pre_length + len + 5) m
                           else Some (RS_OK, Rcs r, m));
          if code \<noteq> RS_OK then Some (RS_MEMORY, p, m)
          else (case p of
             Rcs r \<Rightarrow> do {
               buf \<leftarrow> poke (rcs_text r) pre_length (strncpy_bytes pos len);
               buf \<leftarrow> poke buf (pre_length + len) [NUL];
               Some (RS_OK, Rcs (r\<lparr>rcs_text := buf\<rparr>), m)
             }
           | _ \<Rightarrow> None)
        }
      | _ \<Rightarrow> None)"

definition rcs_catc ::
    "rcs_ptr \<Rightarrow> char \<Rightarrow> allocator \<Rightarrow> (rstring_code \<times> rcs_ptr \<times> allocator) option" where
  "rcs_catc p c m =
     (case p of
        Rcs r \<Rightarrow> do {
          pre_length \<leftarrow> c_strlen (rcs_text r);
          (code, p, m) \<leftarrow> (if rcs_max r \<le> pre_length
                           then let r = r\<lparr>rcs_max := rcs_max r + RSTRING_INCSTEP\<rparr>
                                in rcs_resize (Rcs r) (rcs_max r) m
                           else Some (RS_OK, Rcs r, m));
          if code \<noteq> RS_OK then Some (RS_MEMORY, p, m)
          else (case p of
             Rcs r \<Rightarrow> do {
               buf \<leftarrow> poke (rcs_text r) pre_length [c];
               buf \<leftarrow> poke buf (pre_length + 1) [NUL];
               Some (RS_OK, Rcs (r\<lparr>rcs_text := buf\<rparr>), m)
             }
           | _ \<Rightarrow> None)
        }
      | _ \<Rightarrow> None)"

text \<open>
  The result is the C string handed to the caller, \<open>None\<close> for a null pointer
  (\<open>realloc\<close> failed; the old block is then leaked).  The struct itself is freed.
\<close>

definition rcs_unwrap :: "rcs_ptr \<Rightarrow> allocator \<Rightarrow> (string option \<times> allocator) option" where
  "rcs_unwrap p m =
     (case p of
        Rcs r \<Rightarrow> do {
          len \<leftarrow> c_strlen (rcs_text r);
          let (ok, m) = request m;
          Some (if ok then Some (take len (rcs_text r)) else None, m)
        }
      | _ \<Rightarrow> None)"

definition rcs_length :: "rcs_ptr \<Rightarrow> nat option" where
  "rcs_length p = (case p of Rcs r \<Rightarrow> c_strlen (rcs_text r) | _ \<Rightarrow> None)"

section \<open>What a live string holds\<close>

text \<open>
  A live string is well formed when its block has room for \<open>rcs_max\<close> characters and the
  terminator, and holds a terminator.  \<open>rcs_holds p s\<close>: the pointer is live, the string
  well formed, and its content is \<open>s\<close>.
\<close>

definition rcs_ok :: "rcstring \<Rightarrow> bool" where
  "rcs_ok r \<longleftrightarrow> length (rcs_text r) = rcs_max r + 1 \<and> NUL \<in> set (rcs_text r)"

definition rcs_holds :: "rcs_ptr \<Rightarrow> string \<Rightarrow> bool" where
  "rcs_holds p s \<longleftrightarrow>
     (case p of Rcs r \<Rightarrow> rcs_ok r \<and> c_string (rcs_text r) = s | _ \<Rightarrow> False)"

lemma rcs_holdsE:
  assumes "rcs_holds p s"
  obtains r where "p = Rcs r" "rcs_ok r" "c_string (rcs_text r) = s"
  using assms by (auto simp: rcs_holds_def split: rcs_ptr.splits)

lemma rcs_holds_Rcs [simp]:
  "rcs_holds (Rcs r) s \<longleftrightarrow> rcs_ok r \<and> c_string (rcs_text r) = s"
  by (simp add: rcs_holds_def)

lemma rcs_holds_no_NUL: "rcs_holds p s \<Longrightarrow> NUL \<notin> set s"
  by (auto elim!: rcs_holdsE)

lemma rcs_holds_unique: "rcs_holds p s \<Longrightarrow> rcs_holds p t \<Longrightarrow> s = t"
  by (auto elim!: rcs_holdsE)

lemma not_rcs_holds [simp]: "\<not> rcs_holds RcsNull s" "\<not> rcs_holds RcsDangling s"
  by (simp_all add: rcs_holds_def)

section \<open>Writing behind the content\<close>

lemma append_cells:
  assumes "NUL \<in> set buf" and "length (c_string buf) + length xs < length buf"
  obtains b1 b2 where "poke buf (length (c_string buf)) xs = Some b1"
    "poke b1 (length (c_string buf) + length xs) [NUL] = Some b2"
    "length b2 = length buf" "NUL \<in> set b2" "c_string b2 = c_string buf @ c_string xs"
proof -
  let ?n = "length (c_string buf)"
  let ?b1 = "c_string buf @ xs @ drop (?n + length xs) buf"
  let ?b2 = "c_string buf @ xs @ NUL # drop (?n + length xs + 1) buf"
  have b1: "poke buf ?n xs = Some ?b1"
    using assms(2) by (simp add: poke_def take_c_string)
  have b2: "poke ?b1 (?n + length xs) [NUL] = Some ?b2"
    using assms(2) by (simp add: poke_def)
  have "c_string ?b2 = c_string buf @ c_string xs"
  proof -
    have "c_string (xs @ NUL # ys) = c_string xs" for ys
      by (induction xs) (auto simp: c_string_def)
    then show ?thesis by (simp add: c_string_append)
  qed
  then show ?thesis using that [OF b1 b2] assms(2) by simp
qed

lemma rcs_resize_spec:
  assumes "NUL \<in> set (rcs_text r)" and "length (rcs_text r) \<le> n + 1"
    and "length (c_string (rcs_text r)) < n"
  obtains (ok) r' m' where "rcs_resize (Rcs r) n m = Some (RS_OK, Rcs r', m')" "rcs_ok r'"
      "rcs_max r' = n" "c_string (rcs_text r') = c_string (rcs_text r)" "grants m' = grants m"
  | (oom) m' where "rcs_resize (Rcs r) n m = Some (RS_MEMORY, RcsDangling, m')"
      "\<not> generous m" "grants m' = grants m"
proof (cases "grants m (requests m)")
  case False
  then show ?thesis
    by (intro oom [of "m\<lparr>requests := Suc (requests m)\<rparr>"])
      (auto simp: rcs_resize_def request_def generous_def)
next
  case True
  let ?cells = "take (n + 1) (rcs_text r) @
    map (junk m (requests m)) [length (rcs_text r)..<n + 1]"
  let ?buf = "take n ?cells @ [NUL]"
  from assms(2) have len: "length ?cells = n + 1"
    by simp
  then have poke: "poke ?cells n [NUL] = Some ?buf"
    by (simp add: poke_def)
  let ?r = "r\<lparr>rcs_text := ?buf, rcs_max := n\<rparr>"
  from len have "rcs_ok ?r"
    by (simp add: rcs_ok_def)
  moreover have "c_string ?buf = c_string (rcs_text r)"
  proof -
    obtain w rest where cells: "rcs_text r = w @ NUL # rest" and w: "c_string (rcs_text r) = w"
      using assms(1) by (metis c_string_split)
    with assms(3) have less: "length w < n" by simp
    from w have no_NUL: "NUL \<notin> set w" by auto
    have "?cells = w @ NUL # rest @ map (junk m (requests m)) [length (rcs_text r)..<n + 1]"
      using assms(2) cells by simp
    then have "?buf = w @ NUL # take (n - length w - 1)
        (rest @ map (junk m (requests m)) [length (rcs_text r)..<n + 1]) @ [NUL]"
      using less by (simp add: take_Cons' del: take_append) (simp add: take_append take_Cons')
    then show ?thesis
      using w no_NUL by (simp add: c_string_append)
  qed
  moreover have "rcs_resize (Rcs r) n m =
      Some (RS_OK, Rcs ?r, m\<lparr>requests := Suc (requests m)\<rparr>)"
    using True poke by (simp add: rcs_resize_def request_def)
  ultimately show ?thesis
    using ok [of ?r "m\<lparr>requests := Suc (requests m)\<rparr>"] by (simp del: upt_Suc take_append)
qed

section \<open>The operations on a well-formed string\<close>

text \<open>
  Whatever the allocator does, appending to a live string never leaves defined behaviour:
  either the text is appended, or \<open>RS_MEMORY\<close> is returned and the struct is gone.
\<close>

lemma rcs_catc_spec:
  assumes "rcs_holds p s"
  obtains (ok) p' m' where "rcs_catc p c m = Some (RS_OK, p', m')"
      "rcs_holds p' (s @ c_string [c])" "grants m' = grants m"
  | (oom) m' where "rcs_catc p c m = Some (RS_MEMORY, RcsDangling, m')"
      "\<not> generous m" "grants m' = grants m"
proof -
  from assms obtain r where p: "p = Rcs r" and r: "rcs_ok r" "c_string (rcs_text r) = s"
    by (rule rcs_holdsE)
  from r have nul: "NUL \<in> set (rcs_text r)" and len: "length (rcs_text r) = rcs_max r + 1"
    by (auto simp: rcs_ok_def)
  have less: "length s < length (rcs_text r)"
    using c_string_length_less [OF nul] r by simp
  let ?r = "r\<lparr>rcs_max := rcs_max r + RSTRING_INCSTEP\<rparr>"
  show ?thesis
  proof (cases "rcs_max r \<le> length s")
    case False
    obtain b1 b2 where "poke (rcs_text r) (length s) [c] = Some b1"
      "poke b1 (length s + 1) [NUL] = Some b2" "length b2 = length (rcs_text r)"
      "NUL \<in> set b2" "c_string b2 = s @ c_string [c]"
      using append_cells [OF nul, of "[c]"] False len r(2) by auto
    then show ?thesis
      using False nul r len
      by (intro ok [of "Rcs (r\<lparr>rcs_text := b2\<rparr>)" m])
        (auto simp: rcs_catc_def p c_strlen_def rcs_ok_def)
  next
    case True
    have bound: "length (rcs_text ?r) \<le> rcs_max ?r + 1"
      "length (c_string (rcs_text ?r)) < rcs_max ?r"
      using r less len by (auto simp: RSTRING_INCSTEP_def)
    from nul have nul': "NUL \<in> set (rcs_text ?r)" by simp
    show ?thesis
    proof (rule rcs_resize_spec [OF nul' bound, of m])
      fix m' assume "rcs_resize (Rcs ?r) (rcs_max ?r) m = Some (RS_MEMORY, RcsDangling, m')"
        "\<not> generous m" "grants m' = grants m"
      then show ?thesis
        using True nul r by (intro oom [of m']) (auto simp: rcs_catc_def p c_strlen_def Let_def)
    next
      fix r' m' assume resize: "rcs_resize (Rcs ?r) (rcs_max ?r) m = Some (RS_OK, Rcs r', m')"
        and r': "rcs_ok r'" "rcs_max r' = rcs_max ?r"
          "c_string (rcs_text r') = c_string (rcs_text ?r)" "grants m' = grants m"
      have "NUL \<in> set (rcs_text r')" "length (c_string (rcs_text r')) + 1 < length (rcs_text r')"
        using r' bound by (auto simp: rcs_ok_def)
      then obtain b1 b2 where "poke (rcs_text r') (length s) [c] = Some b1"
        "poke b1 (length s + 1) [NUL] = Some b2" "length b2 = length (rcs_text r')"
        "NUL \<in> set b2" "c_string b2 = s @ c_string [c]"
        using append_cells [of "rcs_text r'" "[c]"] r' r(2) by auto
      then show ?thesis
        using True nul r r' resize
        by (intro ok [of "Rcs (r'\<lparr>rcs_text := b2\<rparr>)" m'])
          (auto simp: rcs_catc_def p c_strlen_def rcs_ok_def Let_def)
    qed
  qed
qed

lemma rcs_catcs_spec:
  assumes "rcs_holds p s" and "length pos = n"
  obtains (ok) p' m' where "rcs_catcs p pos n m = Some (RS_OK, p', m')"
      "rcs_holds p' (s @ c_string pos)" "grants m' = grants m"
  | (oom) m' where "rcs_catcs p pos n m = Some (RS_MEMORY, RcsDangling, m')"
      "\<not> generous m" "grants m' = grants m"
proof -
  from assms obtain r where p: "p = Rcs r" and r: "rcs_ok r" "c_string (rcs_text r) = s"
    by (auto elim: rcs_holdsE)
  from r have nul: "NUL \<in> set (rcs_text r)" and len: "length (rcs_text r) = rcs_max r + 1"
    by (auto simp: rcs_ok_def)
  have src: "strncpy_bytes pos n = pos"
    using assms(2) by auto
  show ?thesis
  proof (cases "rcs_max r < length s + n")
    case False
    obtain b1 b2 where "poke (rcs_text r) (length s) pos = Some b1"
      "poke b1 (length s + n) [NUL] = Some b2" "length b2 = length (rcs_text r)"
      "NUL \<in> set b2" "c_string b2 = s @ c_string pos"
      using append_cells [OF nul, of pos] False len r(2) assms(2) by auto
    then show ?thesis
      using False nul r len src
      by (intro ok [of "Rcs (r\<lparr>rcs_text := b2\<rparr>)" m])
        (auto simp: rcs_catcs_def p c_strlen_def rcs_ok_def)
  next
    case True
    let ?n = "length s + n + 5"
    have bound: "length (rcs_text r) \<le> ?n + 1" "length (c_string (rcs_text r)) < ?n"
      using True r len by auto
    show ?thesis
    proof (rule rcs_resize_spec [OF nul bound, of m])
      fix m' assume "rcs_resize (Rcs r) ?n m = Some (RS_MEMORY, RcsDangling, m')"
        "\<not> generous m" "grants m' = grants m"
      then show ?thesis
        using True nul r by (intro oom [of m']) (auto simp: rcs_catcs_def p c_strlen_def Let_def)
    next
      fix r' m' assume resize: "rcs_resize (Rcs r) ?n m = Some (RS_OK, Rcs r', m')"
        and r': "rcs_ok r'" "rcs_max r' = ?n"
          "c_string (rcs_text r') = c_string (rcs_text r)" "grants m' = grants m"
      have "NUL \<in> set (rcs_text r')" "length (c_string (rcs_text r')) + n < length (rcs_text r')"
        using r' r(2) by (auto simp: rcs_ok_def)
      then obtain b1 b2 where "poke (rcs_text r') (length s) pos = Some b1"
        "poke b1 (length s + n) [NUL] = Some b2" "length b2 = length (rcs_text r')"
        "NUL \<in> set b2" "c_string b2 = s @ c_string pos"
        using append_cells [of "rcs_text r'" pos] r' r(2) assms(2) by auto
      then show ?thesis
        using True nul r r' resize src
        by (intro ok [of "Rcs (r'\<lparr>rcs_text := b2\<rparr>)" m'])
          (auto simp: rcs_catcs_def p c_strlen_def rcs_ok_def Let_def)
    qed
  qed
qed

lemma rcs_create_spec:
  obtains (ok) p m' where "rcs_create n m = (p, m')" "rcs_holds p []" "grants m' = grants m"
  | (oom) m' where "rcs_create n m = (RcsNull, m')" "\<not> generous m" "grants m' = grants m"
proof (cases "grants m (requests m) \<and> grants m (Suc (requests m))")
  case True
  then show ?thesis
    by (intro ok [of "Rcs \<lparr>rcs_text = replicate (n + 1) NUL, rcs_max = n\<rparr>"
          "m\<lparr>requests := Suc (Suc (requests m))\<rparr>"])
      (auto simp: rcs_create_def request_def rcs_ok_def)
next
  case False
  then have "\<exists>k. rcs_create n m = (RcsNull, m\<lparr>requests := k\<rparr>)" "\<not> generous m"
    by (auto simp: rcs_create_def request_def generous_def)
  then show ?thesis by (auto intro: oom)
qed

lemma rcs_unwrap_spec:
  assumes "rcs_holds p s"
  obtains (ok) m' where "rcs_unwrap p m = Some (Some s, m')" "grants m' = grants m"
  | (oom) m' where "rcs_unwrap p m = Some (None, m')" "\<not> generous m" "grants m' = grants m"
proof -
  let ?m' = "m\<lparr>requests := Suc (requests m)\<rparr>"
  have "rcs_unwrap p m = Some (if grants m (requests m) then Some s else None, ?m')"
    using assms
    by (auto elim!: rcs_holdsE simp: rcs_unwrap_def rcs_ok_def c_strlen_def take_c_string request_def)
  then show ?thesis
    using ok [of ?m'] oom [of ?m'] not_generousI [of m "requests m"]
    by (cases "grants m (requests m)") simp_all
qed

lemma rcs_length_spec: "rcs_holds p s \<Longrightarrow> rcs_length p = Some (length s)"
  by (auto elim!: rcs_holdsE simp: rcs_length_def rcs_ok_def c_strlen_def)

end
