(* ===== verification/JsonLexer.thy ===== *)
theory JsonLexer
  imports Rcstring
begin

text \<open>
  The JSON lexer of \<open>net_libs/libbase/src/json.c\<close> (function \<open>lexer\<close>): a character-driven
  state machine that can be left in any state at the end of a buffer and resumed with the
  next one.  The read pointer \<open>*p\<close> is the rest of the buffer it points into, \<open>None\<close> for a
  null pointer; the NUL that ends the buffer is the end of the list.  One definition per
  group of states, in the order of the \<open>switch\<close>.
\<close>

section \<open>Data\<close>

datatype lex_value = LEX_MORE | LEX_INVALID_CHARACTER | LEX_TRUE | LEX_FALSE | LEX_NULL
  | LEX_BEGIN_OBJECT | LEX_END_OBJECT | LEX_BEGIN_ARRAY | LEX_END_ARRAY | LEX_NAME_SEPARATOR
  | LEX_VALUE_SEPARATOR | LEX_STRING | LEX_NUMBER | LEX_ERROR | LEX_MEMORY

text \<open>The cells behind the pointer arguments \<open>p\<close>, \<open>state\<close>, \<open>text\<close>, and the allocator.\<close>

record lexer_st =
  lx_p :: "string option"
  lx_state :: nat
  lx_text :: rcs_ptr
  lx_mem :: allocator

text \<open>One turn of the \<open>while\<close> loop either goes on or returns a token.\<close>

datatype lex_outcome = Lexing lexer_st | Token lex_value lexer_st

section \<open>Recurring fragments\<close>

text \<open>\<open>if (rcs_catc (*text, c) != RS_OK) return LEX_MEMORY;\<close>\<close>

definition lex_catc :: "char \<Rightarrow> (lexer_st \<Rightarrow> lex_outcome option) \<Rightarrow> lexer_st \<Rightarrow> lex_outcome option"
where
  "lex_catc c k s = do {
     (code, t, m) \<leftarrow> rcs_catc (lx_text s) c (lx_mem s);
     let s = s\<lparr>lx_text := t, lx_mem := m\<rparr>;
     if code \<noteq> RS_OK then Some (Token LEX_MEMORY s) else k s
   }"

text \<open>\<open>*text = rcs_create (5); if (*text == NULL) return LEX_MEMORY;\<close>\<close>

definition lex_create :: "(lexer_st \<Rightarrow> lex_outcome option) \<Rightarrow> lexer_st \<Rightarrow> lex_outcome option" where
  "lex_create k s =
     (let (t, m) = rcs_create 5 (lx_mem s); s = s\<lparr>lx_text := t, lx_mem := m\<rparr> in
      if t = RcsNull then Some (Token LEX_MEMORY s) else k s)"

text \<open>\<open>assert (*text != NULL);\<close>\<close>

definition lex_assert_text ::
    "(lexer_st \<Rightarrow> lex_outcome option) \<Rightarrow> lexer_st \<Rightarrow> lex_outcome option" where
  "lex_assert_text k s = (if lx_text s = RcsNull then None else k s)"

text \<open>\<open>*state = n; ++*p;\<close> and leave the \<open>switch\<close>.\<close>

definition lex_goto :: "nat \<Rightarrow> string \<Rightarrow> lexer_st \<Rightarrow> lex_outcome option" where
  "lex_goto n cs s = Some (Lexing (s\<lparr>lx_state := n, lx_p := Some cs\<rparr>))"

section \<open>Root document (state 0)\<close>

definition lex_root :: "char \<Rightarrow> string \<Rightarrow> lexer_st \<Rightarrow> lex_outcome option" where
  "lex_root c cs s =
     (let s = s\<lparr>lx_p := Some cs\<rparr> in
      if is_ws c then Some (Lexing s)
      else if c = CHR ''{'' then Some (Token LEX_BEGIN_OBJECT s)
      else if c = CHR ''}'' then Some (Token LEX_END_OBJECT s)
      else if c = CHR ''['' then Some (Token LEX_BEGIN_ARRAY s)
      else if c = CHR '']'' then Some (Token LEX_END_ARRAY s)
      else if c = CHR '':'' then Some (Token LEX_NAME_SEPARATOR s)
      else if c = CHR '','' then Some (Token LEX_VALUE_SEPARATOR s)
      else if c = QUOTE then lex_create (lex_goto 1 cs) s
      else if c = CHR ''t'' then lex_goto 7 cs s
      else if c = CHR ''f'' then lex_goto 10 cs s
      else if c = CHR ''n'' then lex_goto 14 cs s
      else if c = CHR ''-'' then lex_create (lex_catc (CHR ''-'') (lex_goto 17 cs)) s
      else if c = CHR ''0'' then lex_create (lex_catc (CHR ''0'') (lex_goto 18 cs)) s
      else if is_digit19 c then lex_create (lex_catc c (lex_goto 19 cs)) s
      else if c = CHR ''/'' then lex_goto 60 cs s
      else Some (Token LEX_INVALID_CHARACTER s))"

section \<open>Strings (states 1 to 6)\<close>

definition lex_string :: "char \<Rightarrow> string \<Rightarrow> lexer_st \<Rightarrow> lex_outcome option" where
  "lex_string c cs = lex_assert_text (\<lambda>s.
     if c = QUOTE then Some (Token LEX_STRING (s\<lparr>lx_state := 0, lx_p := Some cs\<rparr>))
     else if c = BACKSLASH then lex_catc BACKSLASH (lex_goto 2 cs) s
     else lex_catc c (\<lambda>s. Some (Lexing (s\<lparr>lx_p := Some cs\<rparr>))) s)"

definition lex_escape :: "char \<Rightarrow> string \<Rightarrow> lexer_st \<Rightarrow> lex_outcome option" where
  "lex_escape c cs = lex_assert_text (\<lambda>s.
     if is_escape c then lex_catc c (lex_goto 1 cs) s
     else if c = CHR ''u'' then lex_catc c (lex_goto 3 cs) s
     else Some (Token LEX_INVALID_CHARACTER s))"

definition lex_unicode1 :: "char \<Rightarrow> string \<Rightarrow> lexer_st \<Rightarrow> lex_outcome option" where
  "lex_unicode1 c cs = lex_assert_text (\<lambda>s.
     if is_hex c then lex_catc c (lex_goto 4 cs) s
     else Some (Token LEX_INVALID_CHARACTER s))"

definition lex_unicode3 :: "char \<Rightarrow> string \<Rightarrow> lexer_st \<Rightarrow> lex_outcome option" where
  "lex_unicode3 c cs = lex_assert_text (\<lambda>s.
     if is_hex c then lex_catc c (lex_goto 6 cs) s
     else Some (Token LEX_INVALID_CHARACTER s))"

text \<open>
  The \<open>case 4\<close> block has no \<open>break\<close>: after it has consumed its digit the block of \<open>case 5\<close>
  runs on the next character, which is NUL when the buffer ends there.
\<close>

definition lex_unicode2 :: "char \<Rightarrow> string \<Rightarrow> lexer_st \<Rightarrow> lex_outcome option" where
  "lex_unicode2 c cs = lex_assert_text (\<lambda>s.
     if is_hex c
     then lex_catc c (\<lambda>s.
            let s = s\<lparr>lx_state := 5, lx_p := Some cs\<rparr>
            in lex_unicode3 (peek cs) (tl cs) s) s
     else Some (Token LEX_INVALID_CHARACTER s))"

definition lex_unicode4 :: "char \<Rightarrow> string \<Rightarrow> lexer_st \<Rightarrow> lex_outcome option" where
  "lex_unicode4 c cs = lex_assert_text (\<lambda>s.
     if is_hex c then lex_catc c (lex_goto 1 cs) s
     else Some (Token LEX_INVALID_CHARACTER s))"

section \<open>Literals (states 7 to 16)\<close>

text \<open>\<open>switch (*(*p)++)\<close> with one expected character: the pointer moves in every case.\<close>

definition lex_expect ::
    "char \<Rightarrow> (lexer_st \<Rightarrow> lex_outcome option) \<Rightarrow> char \<Rightarrow> string \<Rightarrow> lexer_st \<Rightarrow> lex_outcome option"
where
  "lex_expect e k c cs s =
     (let s = s\<lparr>lx_p := Some cs\<rparr>
      in if c = e then k s else Some (Token LEX_INVALID_CHARACTER s))"

definition lex_word_end :: "lex_value \<Rightarrow> lexer_st \<Rightarrow> lex_outcome option" where
  "lex_word_end v s = Some (Token v (s\<lparr>lx_state := 0\<rparr>))"

definition lex_literal :: "nat \<Rightarrow> char \<Rightarrow> string \<Rightarrow> lexer_st \<Rightarrow> lex_outcome option" where
  "lex_literal q c cs =
     (if q = 7 then lex_expect (CHR ''r'') (lex_goto 8 cs) c cs
      else if q = 8 then lex_expect (CHR ''u'') (lex_goto 9 cs) c cs
      else if q = 9 then lex_expect (CHR ''e'') (lex_word_end LEX_TRUE) c cs
      else if q = 10 then lex_expect (CHR ''a'') (lex_goto 11 cs) c cs
      else if q = 11 then lex_expect (CHR ''l'') (lex_goto 12 cs) c cs
      else if q = 12 then lex_expect (CHR ''s'') (lex_goto 13 cs) c cs
      else if q = 13 then lex_expect (CHR ''e'') (lex_word_end LEX_FALSE) c cs
      else if q = 14 then lex_expect (CHR ''u'') (lex_goto 15 cs) c cs
      else if q = 15 then lex_expect (CHR ''l'') (lex_goto 16 cs) c cs
      else lex_expect (CHR ''l'') (lex_word_end LEX_NULL) c cs)"

section \<open>Numbers (states 17 to 24)\<close>

text \<open>
  The common end of a number: white space is consumed, a closing bracket or a comma is left
  for the next call.
\<close>

definition ends_number :: "char \<Rightarrow> bool" where
  [char_simps]: "ends_number c \<longleftrightarrow> is_ws c \<or> c \<in> {CHR '']'', CHR ''}'', CHR '',''}"

definition lex_number_end :: "char \<Rightarrow> string \<Rightarrow> lexer_st \<Rightarrow> lex_outcome option" where
  "lex_number_end c cs s =
     (let s = (if is_ws c then s\<lparr>lx_p := Some cs\<rparr> else s)
      in Some (Token LEX_NUMBER (s\<lparr>lx_state := 0\<rparr>)))"

definition is_exp :: "char \<Rightarrow> bool" where
  [char_simps]: "is_exp c \<longleftrightarrow> c = CHR ''e'' \<or> c = CHR ''E''"

definition lex_minus :: "char \<Rightarrow> string \<Rightarrow> lexer_st \<Rightarrow> lex_outcome option" where
  "lex_minus c cs = lex_assert_text (\<lambda>s.
     if c = CHR ''0'' then lex_catc c (lex_goto 18 cs) s
     else if is_digit19 c then lex_catc c (lex_goto 19 cs) s
     else Some (Token LEX_INVALID_CHARACTER s))"

definition lex_zero :: "char \<Rightarrow> string \<Rightarrow> lexer_st \<Rightarrow> lex_outcome option" where
  "lex_zero c cs = lex_assert_text (\<lambda>s.
     if ends_number c then lex_number_end c cs s
     else if c = CHR ''.'' then lex_catc c (lex_goto 20 cs) s
     else if is_exp c then lex_catc c (lex_goto 22 cs) s
     else Some (Token LEX_INVALID_CHARACTER s))"

definition lex_int :: "char \<Rightarrow> string \<Rightarrow> lexer_st \<Rightarrow> lex_outcome option" where
  "lex_int c cs = lex_assert_text (\<lambda>s.
     if ends_number c then lex_number_end c cs s
     else if c = CHR ''.'' then lex_catc c (lex_goto 20 cs) s
     else if is_exp c then lex_catc c (lex_goto 22 cs) s
     else if is_digit c then lex_catc c (\<lambda>s. Some (Lexing (s\<lparr>lx_p := Some cs\<rparr>))) s
     else Some (Token LEX_INVALID_CHARACTER s))"

definition lex_frac_start :: "char \<Rightarrow> string \<Rightarrow> lexer_st \<Rightarrow> lex_outcome option" where
  "lex_frac_start c cs = lex_assert_text (\<lambda>s.
     if is_digit c then lex_catc c (lex_goto 21 cs) s
     else Some (Token LEX_INVALID_CHARACTER s))"

definition lex_frac :: "char \<Rightarrow> string \<Rightarrow> lexer_st \<Rightarrow> lex_outcome option" where
  "lex_frac c cs = lex_assert_text (\<lambda>s.
     if ends_number c then lex_number_end c cs s
     else if is_exp c then lex_catc c (lex_goto 22 cs) s
     else if is_digit c then lex_catc c (\<lambda>s. Some (Lexing (s\<lparr>lx_p := Some cs\<rparr>))) s
     else Some (Token LEX_INVALID_CHARACTER s))"

definition lex_exp_start :: "char \<Rightarrow> string \<Rightarrow> lexer_st \<Rightarrow> lex_outcome option" where
  "lex_exp_start c cs = lex_assert_text (\<lambda>s.
     if c = CHR ''-'' \<or> c = CHR ''+'' then lex_catc c (lex_goto 23 cs) s
     else if is_digit c then lex_catc c (lex_goto 24 cs) s
     else Some (Token LEX_INVALID_CHARACTER s))"

definition lex_exp_sign :: "char \<Rightarrow> string \<Rightarrow> lexer_st \<Rightarrow> lex_outcome option" where
  "lex_exp_sign c cs = lex_assert_text (\<lambda>s.
     if is_digit c then lex_catc c (lex_goto 24 cs) s
     else Some (Token LEX_INVALID_CHARACTER s))"

definition lex_exp :: "char \<Rightarrow> string \<Rightarrow> lexer_st \<Rightarrow> lex_outcome option" where
  "lex_exp c cs = lex_assert_text (\<lambda>s.
     if ends_number c then lex_number_end c cs s
     else if is_digit c then lex_catc c (\<lambda>s. Some (Lexing (s\<lparr>lx_p := Some cs\<rparr>))) s
     else Some (Token LEX_INVALID_CHARACTER s))"

section \<open>Comments (states 60 to 63)\<close>

definition lex_comment :: "nat \<Rightarrow> char \<Rightarrow> string \<Rightarrow> lexer_st \<Rightarrow> lex_outcome option" where
  "lex_comment q c cs s =
     (if q = 60 then
        (if c = CHR ''/'' then lex_goto 61 cs s
         else if c = CHR ''*'' then lex_goto 62 cs s
         else Some (Token LEX_INVALID_CHARACTER s))
      else if q = 61 then
        lex_goto (if c = CHR 0x0A \<or> c = CHR 0x0D then 0 else 61) cs s
      else if q = 62 then lex_goto (if c = CHR ''*'' then 63 else 62) cs s
      else lex_goto (if c = CHR ''/'' then 0 else 62) cs s)"

section \<open>The lexer\<close>

definition lex_step :: "char \<Rightarrow> string \<Rightarrow> lexer_st \<Rightarrow> lex_outcome option" where
  "lex_step c cs s =
     (let q = lx_state s in
      if q = 0 then lex_root c cs s
      else if q = 1 then lex_string c cs s
      else if q = 2 then lex_escape c cs s
      else if q = 3 then lex_unicode1 c cs s
      else if q = 4 then lex_unicode2 c cs s
      else if q = 5 then lex_unicode3 c cs s
      else if q = 6 then lex_unicode4 c cs s
      else if 7 \<le> q \<and> q \<le> 16 then lex_literal q c cs s
      else if q = 17 then lex_minus c cs s
      else if q = 18 then lex_zero c cs s
      else if q = 19 then lex_int c cs s
      else if q = 20 then lex_frac_start c cs s
      else if q = 21 then lex_frac c cs s
      else if q = 22 then lex_exp_start c cs s
      else if q = 23 then lex_exp_sign c cs s
      else if q = 24 then lex_exp c cs s
      else if 60 \<le> q \<and> q \<le> 63 then lex_comment q c cs s
      else Some (Token LEX_INVALID_CHARACTER s))"

lemmas lex_state_defs = lex_root_def lex_string_def lex_escape_def lex_unicode1_def
  lex_unicode2_def lex_unicode3_def lex_unicode4_def lex_literal_def lex_minus_def lex_zero_def
  lex_int_def lex_frac_start_def lex_frac_def lex_exp_start_def lex_exp_sign_def lex_exp_def
  lex_comment_def

lemmas lex_idiom_defs = lex_catc_def lex_create_def lex_assert_text_def lex_goto_def
  lex_expect_def lex_word_end_def lex_number_end_def Let_def

text \<open>A turn of the loop that does not return has moved the pointer past its character.\<close>

lemma lex_step_advances:
  assumes "lex_step c cs s = Some (Lexing s')"
  shows "\<exists>cs'. lx_p s' = Some cs' \<and> length cs' \<le> length cs"
  using assms
  by (auto simp: lex_step_def lex_state_defs lex_idiom_defs bind_eq_Some_conv
      split: if_splits prod.splits)

function lexer_loop :: "lexer_st \<Rightarrow> (lex_value \<times> lexer_st) option" where
  "lexer_loop s =
     (case lx_p s of
        None \<Rightarrow> None
      | Some cs \<Rightarrow>
          if peek cs = NUL then Some (LEX_MORE, s\<lparr>lx_p := None\<rparr>)
          else (case lex_step (peek cs) (tl cs) s of
                  None \<Rightarrow> None
                | Some (Token v s') \<Rightarrow> Some (v, s')
                | Some (Lexing s') \<Rightarrow> lexer_loop s'))"
  by pat_completeness auto
termination
proof (relation "measure (\<lambda>s. length (the (lx_p s)))", simp)
  fix s cs out s'
  assume "lx_p s = Some cs" "peek cs \<noteq> NUL"
    and step: "lex_step (peek cs) (tl cs) s = Some out" "out = Lexing s'"
  then obtain c rest where "cs = c # rest"
    by (cases cs) (auto simp: peek_def)
  moreover obtain cs' where "lx_p s' = Some cs'" "length cs' \<le> length (tl cs)"
    using lex_step_advances step by blast
  ultimately show "(s', s) \<in> measure (\<lambda>s. length (the (lx_p s)))"
    using \<open>lx_p s = Some cs\<close> by simp
qed

declare lexer_loop.simps [simp del]

text \<open>The entry: a null pointer is set to the start of the buffer.\<close>

definition lexer :: "string \<Rightarrow> lexer_st \<Rightarrow> (lex_value \<times> lexer_st) option" where
  "lexer buffer s = lexer_loop (if lx_p s = None then s\<lparr>lx_p := Some buffer\<rparr> else s)"

lemma lexer_loop_Nil [simp]:
  "lx_p s = Some [] \<Longrightarrow> lexer_loop s = Some (LEX_MORE, s\<lparr>lx_p := None\<rparr>)"
  by (simp add: lexer_loop.simps)

lemma lexer_loop_Cons:
  "lx_p s = Some (c # cs) \<Longrightarrow> c \<noteq> NUL \<Longrightarrow>
   lexer_loop s = (case lex_step c cs s of
       None \<Rightarrow> None
     | Some (Token v s') \<Rightarrow> Some (v, s')
     | Some (Lexing s') \<Rightarrow> lexer_loop s')"
  by (simp add: lexer_loop.simps [of s])

text \<open>
  Induction over a run of the lexer: the property is closed under one turn of the loop that
  goes on, and holds where a turn ends the call.
\<close>

lemma lexer_loop_induct [consumes 1, case_names more token turn]:
  assumes ret: "lexer_loop s = Some (v, s')"
    and more: "\<And>s cs. lx_p s = Some cs \<Longrightarrow> peek cs = NUL \<Longrightarrow> P s LEX_MORE (s\<lparr>lx_p := None\<rparr>)"
    and token: "\<And>s c cs v s'. lx_p s = Some (c # cs) \<Longrightarrow> c \<noteq> NUL \<Longrightarrow>
      lex_step c cs s = Some (Token v s') \<Longrightarrow> P s v s'"
    and turn: "\<And>s c cs s1 v s'. lx_p s = Some (c # cs) \<Longrightarrow> c \<noteq> NUL \<Longrightarrow>
      lex_step c cs s = Some (Lexing s1) \<Longrightarrow> lexer_loop s1 = Some (v, s') \<Longrightarrow> P s1 v s' \<Longrightarrow> P s v s'"
  shows "P s v s'"
  using ret
proof (induction s rule: lexer_loop.induct)
  case (1 s)
  then obtain cs where cs: "lx_p s = Some cs"
    by (auto simp: lexer_loop.simps [of s] split: option.splits)
  show ?case
  proof (cases "peek cs = NUL")
    case True
    with "1.prems" cs show ?thesis
      by (auto simp: lexer_loop.simps [of s] intro: more)
  next
    case False
    then obtain c rest where rest: "cs = c # rest" "c \<noteq> NUL"
      by (cases cs) auto
    with "1.prems" cs obtain out where out: "lex_step c rest s = Some out"
      by (auto simp: lexer_loop_Cons split: option.splits)
    show ?thesis
    proof (cases out)
      case (Token w s2)
      with "1.prems" cs rest out show ?thesis
        by (auto simp: lexer_loop_Cons intro: token)
    next
      case (Lexing s1)
      with "1.prems" cs rest out have "lexer_loop s1 = Some (v, s')"
        by (simp add: lexer_loop_Cons)
      moreover from this have "P s1 v s'"
        using "1.IH" [OF cs False, of out s1] out rest Lexing by simp
      ultimately show ?thesis
        using turn cs rest out Lexing by blast
    qed
  qed
qed

text \<open>The values that stand for a token; the others end the parse.\<close>

definition is_token :: "lex_value \<Rightarrow> bool" where
  "is_token v \<longleftrightarrow> v \<notin> {LEX_MORE, LEX_INVALID_CHARACTER, LEX_ERROR, LEX_MEMORY}"

lemma lex_step_token:
  assumes "lex_step c cs s = Some (Token v s')" and "lx_p s = Some (c # cs)" and "is_token v"
  shows "lx_state s' = 0 \<and>
    (lx_p s' = Some cs \<or> lx_p s' = Some (c # cs) \<and> lx_state s \<noteq> 0)"
  using assms
  by (auto simp: lex_step_def lex_state_defs lex_idiom_defs bind_eq_Some_conv is_token_def
      split: if_splits prod.splits)

text \<open>
  A token leaves the lexer in state 0, and consumes input unless it is a number that was begun
  in an earlier buffer.
\<close>

lemma lexer_loop_token:
  assumes "lexer_loop s = Some (v, s')" and "is_token v" and "lx_p s = Some ds"
  shows "lx_state s' = 0 \<and> (\<exists>cs'. lx_p s' = Some cs' \<and>
    (length cs' < length ds \<or> length cs' = length ds \<and> lx_state s \<noteq> 0))"
  using assms
proof (induction arbitrary: ds rule: lexer_loop_induct)
  case more
  then show ?case by (simp add: is_token_def)
next
  case token
  then show ?case by (auto dest: lex_step_token)
next
  case (turn s c cs s1 v s')
  obtain cs1 where "lx_p s1 = Some cs1" "length cs1 \<le> length cs"
    using lex_step_advances turn.hyps(3) by blast
  with turn.IH [of cs1] turn.prems turn.hyps(1) show ?case by fastforce
qed

end
