(* ===== verification/JsonText.thy ===== *)
theory JsonText
  imports Rcstring "HOL-Library.Word"
begin

text \<open>
  The functions of \<open>net_libs/libbase/src/json.c\<close> that rewrite a text: \<open>json_escape\<close>,
  \<open>json_unescape\<close>, \<open>json_format_string\<close> (they build a new string in an \<open>rcstring\<close>) and
  \<open>json_strip_white_spaces\<close> (it overwrites its argument).  A position in the argument of the
  first three is the rest of the text from there on.
\<close>

section \<open>The output string as a sink\<close>

text \<open>
  The three functions ignore the result of \<open>rcs_catc\<close> and \<open>rcs_catcs\<close>; the string they
  append to and the allocator are the state they thread.
\<close>

type_synonym sink = "rcs_ptr \<times> allocator"

definition put_c :: "char \<Rightarrow> sink \<Rightarrow> sink option" where
  "put_c c out = do { (code, p, m) \<leftarrow> rcs_catc (fst out) c (snd out); Some (p, m) }"

definition put_s :: "string \<Rightarrow> sink \<Rightarrow> sink option" where
  "put_s x out = do { (code, p, m) \<leftarrow> rcs_catcs (fst out) x (length x) (snd out); Some (p, m) }"

definition sink_holds :: "sink \<Rightarrow> string \<Rightarrow> bool" where
  "sink_holds out w \<longleftrightarrow> rcs_holds (fst out) w \<and> generous (snd out)"

section \<open>The interface the text functions rely on\<close>

text \<open>
  What a client of the output string needs: characters and strings written to a sink come
  behind what it holds, and the write does not fail.  A \<open>put\<close> of NUL writes nothing.
\<close>

locale text_sink =
  fixes put :: "char \<Rightarrow> 's \<Rightarrow> 's option"
    and puts :: "string \<Rightarrow> 's \<Rightarrow> 's option"
    and holds :: "'s \<Rightarrow> string \<Rightarrow> bool"
  assumes put_holds: "holds s w \<Longrightarrow> \<exists>s'. put c s = Some s' \<and> holds s' (w @ c_string [c])"
    and puts_holds: "holds s w \<Longrightarrow> \<exists>s'. puts x s = Some s' \<and> holds s' (w @ c_string x)"
begin

lemma put_bind:
  assumes "holds s w"
    and "\<And>s'. holds s' (w @ c_string [c]) \<Longrightarrow> \<exists>r. k s' = Some r \<and> P r"
  shows "\<exists>r. Option.bind (put c s) k = Some r \<and> P r"
proof -
  obtain s' where "put c s = Some s'" "holds s' (w @ c_string [c])"
    using put_holds [OF assms(1)] by blast
  then show ?thesis using assms(2) by auto
qed

lemma puts_bind:
  assumes "holds s w"
    and "\<And>s'. holds s' (w @ c_string x) \<Longrightarrow> \<exists>r. k s' = Some r \<and> P r"
  shows "\<exists>r. Option.bind (puts x s) k = Some r \<and> P r"
proof -
  obtain s' where "puts x s = Some s'" "holds s' (w @ c_string x)"
    using puts_holds [OF assms(1)] by blast
  then show ?thesis using assms(2) by auto
qed

end

lemma sink_put_holds:
  assumes "sink_holds out w"
  shows "\<exists>out'. put_c c out = Some out' \<and> sink_holds out' (w @ c_string [c])"
proof -
  from assms have "rcs_holds (fst out) w" "generous (snd out)"
    by (auto simp: sink_holds_def)
  then show ?thesis
    by (cases rule: rcs_catc_spec [where c = c and m = "snd out"])
      (auto simp: put_c_def sink_holds_def cong: generous_cong)
qed

lemma sink_puts_holds:
  assumes "sink_holds out w"
  shows "\<exists>out'. put_s x out = Some out' \<and> sink_holds out' (w @ c_string x)"
proof -
  from assms have h: "rcs_holds (fst out) w" and "generous (snd out)"
    by (auto simp: sink_holds_def)
  then show ?thesis
    by (cases rule: rcs_catcs_spec [OF h refl, where pos = x and m = "snd out"])
      (auto simp: put_s_def sink_holds_def cong: generous_cong)
qed

interpretation sink: text_sink put_c put_s sink_holds
  by unfold_locales (rule sink_put_holds, assumption, rule sink_puts_holds, assumption)

section \<open>Escaping\<close>

fun escape_loop :: "string \<Rightarrow> sink \<Rightarrow> sink option" where
  "escape_loop [] out = Some out"
| "escape_loop (c # cs) out = do {
     out \<leftarrow> (if c = BACKSLASH then put_s [BACKSLASH, BACKSLASH] out
            else if c = QUOTE then put_s [BACKSLASH, QUOTE] out
            else if c = CHR ''/'' then put_s [BACKSLASH, CHR ''/''] out
            else if c = CHR 0x08 then put_s [BACKSLASH, CHR ''b''] out
            else if c = CHR 0x0C then put_s [BACKSLASH, CHR ''f''] out
            else if c = CHR 0x0A then put_s [BACKSLASH, CHR ''n''] out
            else if c = CHR 0x0D then put_s [BACKSLASH, CHR ''r''] out
            else if c = CHR 0x09 then put_s [BACKSLASH, CHR ''t''] out
            else put_c c out);
     escape_loop cs out
   }"

definition json_escape :: "string \<Rightarrow> allocator \<Rightarrow> (string option \<times> allocator) option" where
  "json_escape src m =
     (let (out, m) = rcs_create (length src) m in
      if out = RcsNull then Some (None, m)
      else do { (out, m) \<leftarrow> escape_loop src (out, m); rcs_unwrap out m })"

section \<open>Unescaping\<close>

text \<open>A backslash at the end of the text is followed by the terminating NUL.\<close>

fun unescape_loop :: "string \<Rightarrow> sink \<Rightarrow> sink option" where
  "unescape_loop [] out = Some out"
| "unescape_loop (c # cs) out =
     (if c = BACKSLASH then
        (case cs of
           [] \<Rightarrow> do { out \<leftarrow> put_c BACKSLASH out; put_c NUL out }
         | e # cs' \<Rightarrow> do {
             out \<leftarrow> (if e = QUOTE then put_c QUOTE out
                    else if e = BACKSLASH then put_c BACKSLASH out
                    else if e = CHR ''/'' then put_c (CHR ''/'') out
                    else if e = CHR ''b'' then put_c (CHR 0x08) out
                    else if e = CHR ''f'' then put_c (CHR 0x0C) out
                    else if e = CHR ''n'' then put_c (CHR 0x0A) out
                    else if e = CHR ''r'' then put_c (CHR 0x0D) out
                    else if e = CHR ''t'' then put_c (CHR 0x09) out
                    else do { out \<leftarrow> put_c BACKSLASH out; put_c e out });
             unescape_loop cs' out
           })
      else do { out \<leftarrow> put_c c out; unescape_loop cs out })"

definition json_unescape :: "string \<Rightarrow> allocator \<Rightarrow> (string option \<times> allocator) option" where
  "json_unescape src m =
     (let (out, m) = rcs_create (length src) m in
      if out = RcsNull then Some (None, m)
      else do { (out, m) \<leftarrow> unescape_loop src (out, m); rcs_unwrap out m })"

section \<open>Formatting\<close>

text \<open>\<open>for (i = 0; i < indentation; i++) rcs_catc (output, '\t');\<close>\<close>

fun put_tabs :: "nat \<Rightarrow> sink \<Rightarrow> sink option" where
  "put_tabs 0 out = Some out"
| "put_tabs (Suc n) out = do { out \<leftarrow> put_c (CHR 0x09) out; put_tabs n out }"

text \<open>
  The inner loop over a string literal: the text from \<open>pos\<close> on, which may be empty
  (\<open>text[pos]\<close> is then NUL); the result is the rest where the loop stops.
\<close>

function format_literal :: "string \<Rightarrow> sink \<Rightarrow> (string \<times> sink) option" where
  "format_literal cs out = do {
     (closed, cs, out) \<leftarrow>
       (if peek cs = BACKSLASH then do {
          out \<leftarrow> put_c BACKSLASH out;
          if peek (tl cs) = QUOTE
          then do { out \<leftarrow> put_c QUOTE out; Some (False, tl (tl cs), out) }
          else Some (False, tl cs, out)
        }
        else Some (peek cs = QUOTE, cs, out));
     out \<leftarrow> put_c (peek cs) out;
     if closed \<or> tl cs = [] then Some (tl cs, out) else format_literal (tl cs) out
   }"
  by pat_completeness auto
termination
  by (relation "measure (\<lambda>(cs, out). length cs)")
    (auto simp: bind_eq_Some_conv tl_Nil_length split: if_splits)

declare format_literal.simps [simp del]

lemma format_literal_length:
  "format_literal cs out = Some (rest, out') \<Longrightarrow> length rest \<le> length cs"
proof (induction cs out rule: format_literal.induct)
  case (1 cs out)
  from "1.prems" show ?case
    by (subst (asm) format_literal.simps)
      (auto simp: bind_eq_Some_conv tl_Nil_length split: if_splits dest!: "1.IH" [rotated -1])
qed

text \<open>The indentation level is an \<open>unsigned int\<close>; the loop ends where \<open>pos\<close> reaches the end.\<close>

function format_loop :: "32 word \<Rightarrow> string \<Rightarrow> sink \<Rightarrow> sink option" where
  "format_loop ind cs out =
     (case cs of
        [] \<Rightarrow> Some out
      | c # rest \<Rightarrow>
          if is_ws c then format_loop ind rest out
          else if c = CHR ''{'' then do {
            out \<leftarrow> put_c (CHR ''{'') out;
            out \<leftarrow> put_tabs (unat (ind + 1)) out;
            format_loop (ind + 1) rest out
          }
          else if c = CHR ''}'' then do {
            out \<leftarrow> put_c (CHR 0x0A) out;
            out \<leftarrow> put_tabs (unat (ind - 1)) out;
            out \<leftarrow> put_c (CHR ''}'') out;
            format_loop (ind - 1) rest out
          }
          else if c = CHR '':'' then do {
            out \<leftarrow> put_s '': '' out;
            format_loop ind rest out
          }
          else if c = CHR '','' then do {
            out \<leftarrow> put_s [CHR '','', CHR 0x0A] out;
            out \<leftarrow> put_tabs (unat ind) out;
            format_loop ind rest out
          }
          else if c = QUOTE then do {
            out \<leftarrow> put_c c out;
            (rest, out) \<leftarrow> format_literal rest out;
            format_loop ind rest out
          }
          else do { out \<leftarrow> put_c c out; format_loop ind rest out })"
  by pat_completeness auto
termination
  by (relation "measure (\<lambda>(ind, cs, out). length cs)")
    (auto dest: format_literal_length)

declare format_loop.simps [simp del]

definition json_format_string :: "string \<Rightarrow> allocator \<Rightarrow> (string option \<times> allocator) option" where
  "json_format_string src m =
     (let (out, m) = rcs_create (length src) m
      in do { (out, m) \<leftarrow> format_loop 0 src (out, m); rcs_unwrap out m })"

section \<open>Stripping white space in place\<close>

function strip_loop ::
    "nat \<Rightarrow> nat \<Rightarrow> nat \<Rightarrow> nat \<Rightarrow> char list \<Rightarrow> (char list \<times> nat) option" where
  "strip_loop len inp out state buf =
     (if inp < len then
        (if length buf \<le> inp then None
         else let c = buf ! inp in
           if is_ws c then
             (if state = 1
              then do { buf \<leftarrow> poke buf out [c]; strip_loop len (inp + 1) (out + 1) state buf }
              else strip_loop len (inp + 1) out state buf)
           else if c = QUOTE then do {
             state \<leftarrow> (if state = 0 then Some 1
                      else if state = 1 then
                        (if inp = 0 then None
                         else if buf ! (inp - 1) \<noteq> BACKSLASH then Some 0 else Some 1)
                      else None);
             buf \<leftarrow> poke buf out [c];
             strip_loop len (inp + 1) (out + 1) state buf
           }
           else do { buf \<leftarrow> poke buf out [c]; strip_loop len (inp + 1) (out + 1) state buf })
      else Some (buf, out))"
  by pat_completeness auto
termination
  by (relation "measure (\<lambda>(len, inp, out, state, buf). len - inp)") auto

declare strip_loop.simps [simp del]

text \<open>The argument and the result are the whole block the text lives in.\<close>

definition json_strip_white_spaces :: "char list \<Rightarrow> char list option" where
  "json_strip_white_spaces buf = do {
     len \<leftarrow> c_strlen buf;
     (buf, out) \<leftarrow> strip_loop len 0 0 0 buf;
     poke buf out [NUL]
   }"

section \<open>Escaping and unescaping\<close>

text \<open>What the two loops compute, as functions on strings.\<close>

definition escape_char :: "char \<Rightarrow> string" where
  "escape_char c =
     (if c = BACKSLASH then [BACKSLASH, BACKSLASH]
      else if c = QUOTE then [BACKSLASH, QUOTE]
      else if c = CHR ''/'' then [BACKSLASH, CHR ''/'']
      else if c = CHR 0x08 then [BACKSLASH, CHR ''b'']
      else if c = CHR 0x0C then [BACKSLASH, CHR ''f'']
      else if c = CHR 0x0A then [BACKSLASH, CHR ''n'']
      else if c = CHR 0x0D then [BACKSLASH, CHR ''r'']
      else if c = CHR 0x09 then [BACKSLASH, CHR ''t'']
      else [c])"

definition escaped :: "string \<Rightarrow> string" where
  "escaped cs = concat (map escape_char cs)"

lemma escaped_simps [simp]: "escaped [] = []" "escaped (c # cs) = escape_char c @ escaped cs"
  by (simp_all add: escaped_def)

lemma NUL_escape_char [simp]: "NUL \<in> set (escape_char c) \<longleftrightarrow> NUL = c"
  by (auto simp: escape_char_def)

lemma NUL_escaped [simp]: "NUL \<in> set (escaped cs) \<longleftrightarrow> NUL \<in> set cs"
  by (induction cs) auto

lemma escape_loop_step:
  "escape_loop (c # cs) out =
     Option.bind (if escape_char c = [c] then put_c c out else put_s (escape_char c) out)
       (escape_loop cs)"
  by (simp add: escape_char_def)

lemma escape_loop_spec:
  "sink_holds out w \<Longrightarrow> NUL \<notin> set cs \<Longrightarrow>
   \<exists>out'. escape_loop cs out = Some out' \<and> sink_holds out' (w @ escaped cs)"
proof (induction cs arbitrary: out w)
  case Nil
  then show ?case by simp
next
  case (Cons c cs)
  have "\<exists>r. Option.bind (put_s (escape_char c) out) (escape_loop cs) = Some r \<and>
      sink_holds r (w @ escape_char c @ escaped cs)"
    by (rule sink.puts_bind [OF Cons.prems(1)])
      (use Cons.IH [of _ "w @ escape_char c"] Cons.prems in \<open>simp add: c_string_id\<close>)
  moreover have "\<exists>r. Option.bind (put_c c out) (escape_loop cs) = Some r \<and>
      sink_holds r (w @ [c] @ escaped cs)"
    by (rule sink.put_bind [OF Cons.prems(1)])
      (use Cons.IH [of _ "w @ [c]"] Cons.prems in \<open>simp add: c_string_id\<close>)
  ultimately show ?case
    by (cases "escape_char c = [c]") (simp_all add: escape_loop_step del: escape_loop.simps)
qed

text \<open>One escaped character is read back as one character.\<close>

lemma unescape_loop_escape_char:
  "unescape_loop (escape_char c @ cs) out = Option.bind (put_c c out) (unescape_loop cs)"
  by (simp add: escape_char_def)

lemma unescape_escaped_loop:
  "sink_holds out w \<Longrightarrow> NUL \<notin> set cs \<Longrightarrow>
   \<exists>out'. unescape_loop (escaped cs) out = Some out' \<and> sink_holds out' (w @ cs)"
proof (induction cs arbitrary: out w)
  case Nil
  then show ?case by simp
next
  case (Cons c cs)
  have "\<exists>r. Option.bind (put_c c out) (unescape_loop (escaped cs)) = Some r \<and>
      sink_holds r (w @ c # cs)"
    by (rule sink.put_bind [OF Cons.prems(1)])
      (use Cons.IH [of _ "w @ [c]"] Cons.prems in \<open>simp add: c_string_id\<close>)
  then show ?case
    by (simp add: unescape_loop_escape_char)
qed

lemma json_escape_spec:
  assumes "generous m" and "NUL \<notin> set src"
  obtains m' where "json_escape src m = Some (Some (escaped src), m')" "generous m'"
proof (rule rcs_create_spec [of "length src" m])
  fix p m'
  assume ok: "rcs_create (length src) m = (p, m')" "rcs_holds p []" "grants m' = grants m"
  then have h: "sink_holds (p, m') []" "p \<noteq> RcsNull"
    using assms(1) by (auto simp: sink_holds_def cong: generous_cong)
  then obtain p2 m2 where loop: "escape_loop src (p, m') = Some (p2, m2)"
    and h2: "sink_holds (p2, m2) (escaped src)"
    using escape_loop_spec [of "(p, m')" "[]" src] assms(2) by auto
  then have "rcs_holds p2 (escaped src)" "generous m2"
    by (auto simp: sink_holds_def)
  then obtain m3 where "rcs_unwrap p2 m2 = Some (Some (escaped src), m3)" "generous m3"
    by (cases rule: rcs_unwrap_spec [of p2 "escaped src" m2]) (auto cong: generous_cong)
  then show ?thesis
    using ok h(2) loop that by (simp add: json_escape_def)
qed (use assms in auto)

lemma json_unescape_spec:
  assumes "generous m" and "NUL \<notin> set src"
  obtains m' where "json_unescape (escaped src) m = Some (Some src, m')" "generous m'"
proof (rule rcs_create_spec [of "length (escaped src)" m])
  fix p m'
  assume ok: "rcs_create (length (escaped src)) m = (p, m')" "rcs_holds p []" "grants m' = grants m"
  then have h: "sink_holds (p, m') []" "p \<noteq> RcsNull"
    using assms(1) by (auto simp: sink_holds_def cong: generous_cong)
  then obtain p2 m2 where loop: "unescape_loop (escaped src) (p, m') = Some (p2, m2)"
    and h2: "sink_holds (p2, m2) src"
    using unescape_escaped_loop [of "(p, m')" "[]" src] assms(2) by auto
  then have "rcs_holds p2 src" "generous m2"
    by (auto simp: sink_holds_def)
  then obtain m3 where "rcs_unwrap p2 m2 = Some (Some src, m3)" "generous m3"
    by (cases rule: rcs_unwrap_spec [of p2 src m2]) (auto cong: generous_cong)
  then show ?thesis
    using ok h(2) loop that by (simp add: json_unescape_def)
qed (use assms in auto)

section \<open>Stripping: the in-place loop and the filter it computes\<close>

text \<open>
  The reference: white space outside string literals is dropped, everything else is kept.
  \<open>inside\<close> says whether the text is inside a literal, \<open>prev\<close> is the character before.
\<close>

fun stripped :: "bool \<Rightarrow> char \<Rightarrow> string \<Rightarrow> string" where
  "stripped inside prev [] = []"
| "stripped inside prev (c # cs) =
     (if is_ws c then (if inside then c # stripped inside c cs else stripped inside c cs)
      else if c = QUOTE then c # stripped (\<not> inside \<or> prev = BACKSLASH) c cs
      else c # stripped inside c cs)"

lemma stripped_outside_prev: "stripped False p cs = stripped False q cs"
  by (cases cs) auto

lemma not_ws [simp]: "\<not> is_ws QUOTE" "\<not> is_ws BACKSLASH" "\<not> is_ws NUL"
  by (simp_all add: is_ws_def)

lemma stripped_append_ws:
  "(\<And>c. c \<in> set x \<Longrightarrow> is_ws c) \<Longrightarrow> stripped False p (x @ y) = stripped False p y"
proof (induction x)
  case (Cons c x)
  then show ?case using stripped_outside_prev [of c "x @ y" p] by simp
qed simp

text \<open>Inside a literal nothing is dropped, so stripping twice changes nothing.\<close>

lemma stripped_idem:
  "(inside \<Longrightarrow> p = q) \<Longrightarrow> stripped inside q (stripped inside p cs) = stripped inside p cs"
proof (induction inside p cs arbitrary: q rule: stripped.induct)
  case (2 inside prev c cs)
  show ?case
    using "2.IH"(1) [of c] "2.IH"(2) [of q] "2.IH"(3) [of c] "2.IH"(4) [of c] "2.prems"
    by (cases "is_ws c"; cases inside; cases "c = QUOTE") simp_all
qed simp

text \<open>
  The invariant of the loop: \<open>out\<close> has not overtaken \<open>in\<close>, the cells from \<open>in\<close> on and
  the one before it are still those of the original text.
\<close>

lemma strip_loop_spec:
  assumes "buf ! (inp - 1) = p" "inp = 0 \<longrightarrow> \<not> inside"
    and "drop inp buf = cs @ rest" "len = inp + length cs" "out \<le> inp"
  shows "\<exists>buf'. strip_loop len inp out (if inside then 1 else 0) buf =
      Some (buf', out + length (stripped inside p cs)) \<and> length buf' = length buf \<and>
      take (out + length (stripped inside p cs)) buf' = take out buf @ stripped inside p cs"
  using assms
proof (induction cs arbitrary: inp out inside p buf)
  case Nil
  then show ?case by (simp add: strip_loop.simps)
next
  case (Cons c cs)
  have inp: "inp < length buf" "buf ! inp = c" "drop (Suc inp) buf = cs @ rest"
    using Cons.prems(3) by (metis drop_all linorder_not_le append_Cons list.distinct(1),
      metis append_Cons hd_drop_conv_nth drop_all linorder_not_le list.distinct(1) list.sel(1),
      metis append_Cons drop_Suc list.sel(3) tl_drop)
  have len: "inp < len" "len = (inp + 1) + length cs"
    using Cons.prems(4) by auto
  have skip: "\<exists>buf'. strip_loop len (inp + 1) out (if inside then 1 else 0) buf =
      Some (buf', out + length (stripped inside c cs)) \<and> length buf' = length buf \<and>
      take (out + length (stripped inside c cs)) buf' = take out buf @ stripped inside c cs"
    using Cons.IH [of buf "inp + 1" c inside out] inp len Cons.prems by simp
  obtain b where poke: "poke buf out [c] = Some b"
    and b: "b ! inp = c" "drop (inp + 1) b = cs @ rest" "length b = length buf"
      "take (out + 1) b = take out buf @ [c]"
  proof
    show "poke buf out [c] = Some (take out buf @ [c] @ drop (out + 1) buf)"
      using inp(1) Cons.prems(5) by (simp add: poke_def)
  qed (use inp Cons.prems(5) in \<open>auto simp: nth_append min_def nth_Cons' Suc_diff_le\<close>)
  have keep: "\<exists>buf'. strip_loop len (inp + 1) (out + 1) (if i then 1 else 0) b =
      Some (buf', out + 1 + length (stripped i c cs)) \<and> length buf' = length buf \<and>
      take (out + 1 + length (stripped i c cs)) buf' = take out buf @ c # stripped i c cs" for i
    using Cons.IH [of b "inp + 1" c i "out + 1"] b len Cons.prems(5) by (cases i) simp_all
  show ?case
    using skip keep [of inside] keep [of True] keep [of False] poke inp len Cons.prems(1,2)
    by (subst strip_loop.simps) (cases inside; auto simp: Let_def)
qed

lemma length_stripped: "length (stripped inside p cs) \<le> length cs"
  by (induction inside p cs rule: stripped.induct) auto

lemma set_stripped: "c \<in> set (stripped inside p cs) \<Longrightarrow> c \<in> set cs"
  by (induction inside p cs rule: stripped.induct) (auto split: if_splits)

lemma json_strip_white_spaces_spec:
  assumes "NUL \<notin> set src"
  obtains buf' where "json_strip_white_spaces (src @ NUL # rest) = Some buf'"
    "c_string buf' = stripped False NUL src" "length buf' = length (src @ NUL # rest)"
proof -
  let ?buf = "src @ NUL # rest"
  let ?n = "length (stripped False NUL src)"
  have c: "c_string ?buf = src"
    using assms by (simp add: c_string_append)
  obtain b where loop: "strip_loop (length src) 0 0 0 ?buf = Some (b, ?n)"
    and b: "length b = length ?buf" "take ?n b = stripped False NUL src"
    using strip_loop_spec [of ?buf 0 "?buf ! 0" False src "NUL # rest" "length src" 0]
    by (auto simp: stripped_outside_prev [of "?buf ! 0" src NUL])
  have le: "?n + 1 \<le> length b"
    using length_stripped [of False NUL src] b(1) by simp
  let ?r = "stripped False NUL src @ NUL # drop (?n + 1) b"
  have poke: "poke b ?n [NUL] = Some ?r"
    using le b by (simp add: poke_def)
  have no: "NUL \<notin> set (stripped False NUL src)"
    using assms set_stripped by blast
  show ?thesis
  proof
    show "json_strip_white_spaces ?buf = Some ?r"
      using c loop poke by (simp add: json_strip_white_spaces_def c_strlen_def)
    show "c_string ?r = stripped False NUL src"
      using no by (simp add: c_string_append)
    show "length ?r = length ?buf"
      using le b(1) by simp
  qed
qed

section \<open>Formatting only changes insignificant white space\<close>

text \<open>
  For a text without a backslash: the formatted text, stripped, is the stripped text.  The
  first lemma is about the loop that copies a string literal up to its closing quote.
\<close>

lemma format_literal_spec:
  assumes "sink_holds out w" and "BACKSLASH \<notin> set cs" and "NUL \<notin> set cs"
  shows "\<exists>x rest out'. format_literal cs out = Some (rest, out') \<and> sink_holds out' (w @ x) \<and>
    cs = x @ rest \<and>
    (rest = [] \<and> QUOTE \<notin> set x \<or> (\<exists>b. x = b @ [QUOTE] \<and> QUOTE \<notin> set b))"
  using assms
proof (induction cs arbitrary: out w)
  case Nil
  obtain out' where "put_c NUL out = Some out'" "sink_holds out' (w @ [])"
    using sink.put_holds [OF Nil.prems(1), of NUL] by auto
  then show ?case
    by (subst format_literal.simps) simp
next
  case (Cons c cs)
  have c: "c \<noteq> NUL" "c \<noteq> BACKSLASH"
    using Cons.prems by auto
  then obtain o1 where o1: "put_c c out = Some o1" "sink_holds o1 (w @ [c])"
    using sink.put_holds [OF Cons.prems(1), of c] by (auto simp: c_string_id)
  show ?case
  proof (cases "c = QUOTE \<or> cs = []")
    case True
    then have "format_literal (c # cs) out = Some (cs, o1)"
      using o1 c by (subst format_literal.simps) simp
    with True o1(2) show ?thesis
      by (intro exI [of _ "[c]"] exI [of _ cs] exI [of _ o1]) auto
  next
    case False
    have step: "format_literal (c # cs) out = format_literal cs o1"
      using False o1 c by (subst format_literal.simps) simp
    obtain x rest o2 where IH: "format_literal cs o1 = Some (rest, o2)"
      "sink_holds o2 ((w @ [c]) @ x)" "cs = x @ rest"
      "rest = [] \<and> QUOTE \<notin> set x \<or> (\<exists>b. x = b @ [QUOTE] \<and> QUOTE \<notin> set b)"
      using Cons.IH [OF o1(2)] Cons.prems(2,3) by (metis list.set_intros(2))
    have "rest = [] \<and> QUOTE \<notin> set (c # x) \<or> (\<exists>b. c # x = b @ [QUOTE] \<and> QUOTE \<notin> set b)"
      using IH(4) False by (metis append_Cons set_ConsD)
    then show ?thesis
      using IH step by (intro exI [of _ "c # x"] exI [of _ rest] exI [of _ o2]) simp
  qed
qed

lemma stripped_in_literal:
  "QUOTE \<notin> set b \<Longrightarrow> stripped True p b = b"
  by (induction b arbitrary: p) auto

lemma stripped_literal:
  "QUOTE \<notin> set b \<Longrightarrow> BACKSLASH \<notin> set b \<Longrightarrow> p \<noteq> BACKSLASH \<Longrightarrow>
   stripped True p (b @ QUOTE # y) = b @ QUOTE # stripped False NUL y"
proof (induction b arbitrary: p)
  case Nil
  then show ?case using stripped_outside_prev [of QUOTE y NUL] by simp
next
  case (Cons c b)
  from Cons.prems have c: "c \<noteq> QUOTE" "c \<noteq> BACKSLASH" by auto
  have "stripped True c (b @ QUOTE # y) = b @ QUOTE # stripped False NUL y"
    by (rule Cons.IH) (use Cons.prems c in simp_all)
  with c show ?case by simp
qed

text \<open>The output of the loop is a variant of the text: it strips to the same string.\<close>

definition same_stripped :: "string \<Rightarrow> string \<Rightarrow> bool" where
  "same_stripped x y \<longleftrightarrow> stripped False NUL x = stripped False NUL y"

lemma same_stripped_ws:
  "(\<And>c. c \<in> set u \<Longrightarrow> is_ws c) \<Longrightarrow> same_stripped (u @ x) y = same_stripped x y"
  by (simp add: same_stripped_def stripped_append_ws)

lemma same_stripped_Cons:
  "c \<noteq> QUOTE \<Longrightarrow> same_stripped x y \<Longrightarrow> same_stripped (c # x) (c # y)"
  by (simp add: same_stripped_def stripped_outside_prev [of c _ NUL])

lemma put_tabs_spec:
  "sink_holds out w \<Longrightarrow>
   \<exists>out'. put_tabs n out = Some out' \<and> sink_holds out' (w @ replicate n (CHR 0x09))"
proof (induction n arbitrary: out w)
  case (Suc n)
  then obtain o1 where "put_c (CHR 0x09) out = Some o1" "sink_holds o1 (w @ [CHR 0x09])"
    using sink.put_holds [of out w "CHR 0x09"] by (auto simp: c_string_id)
  with Suc.IH [of o1] show ?case by fastforce
qed simp

definition variant_of :: "string \<Rightarrow> string \<Rightarrow> sink \<Rightarrow> bool" where
  "variant_of w cs out \<longleftrightarrow>
     (\<exists>x. sink_holds out (w @ x) \<and> same_stripped x cs \<and> (cs = [] \<longrightarrow> x = []))"

lemma variant_of_emit:
  assumes "variant_of (w @ u) cs out"
    and "\<And>x. same_stripped x cs \<Longrightarrow> (cs = [] \<Longrightarrow> x = []) \<Longrightarrow> same_stripped (u @ x) ds"
    and "ds \<noteq> []"
  shows "variant_of w ds out"
proof -
  obtain x where "sink_holds out ((w @ u) @ x)" "same_stripped x cs" "cs = [] \<longrightarrow> x = []"
    using assms(1) unfolding variant_of_def by blast
  then show ?thesis
    using assms(2,3) unfolding variant_of_def by (intro exI [of _ "u @ x"]) simp
qed

lemma put_tabs_bind:
  assumes "sink_holds out w"
    and "\<And>out'. sink_holds out' (w @ replicate n (CHR 0x09)) \<Longrightarrow> \<exists>r. k out' = Some r \<and> P r"
  shows "\<exists>r. Option.bind (put_tabs n out) k = Some r \<and> P r"
  using put_tabs_spec [OF assms(1), of n] assms(2) by (metis bind.bind_lunit)

lemma same_stripped_token:
  assumes "same_stripped x rest" and "c \<noteq> QUOTE"
    and "\<And>d. d \<in> set u \<Longrightarrow> is_ws d" and "\<And>d. d \<in> set v \<Longrightarrow> is_ws d"
  shows "same_stripped (u @ c # v @ x) (c # rest)"
  using assms by (simp add: same_stripped_ws same_stripped_Cons)

lemma is_ws_layout [simp]: "is_ws (CHR 0x09)" "is_ws (CHR 0x0A)" "is_ws (CHR '' '')"
  by (simp_all add: is_ws_def)

lemma same_stripped_quoted:
  assumes "BACKSLASH \<notin> set y" "same_stripped x rest" "rest = [] \<Longrightarrow> x = []"
    and "rest = [] \<and> QUOTE \<notin> set y \<or> (\<exists>b. y = b @ [QUOTE] \<and> QUOTE \<notin> set b)"
  shows "same_stripped (QUOTE # y @ x) (QUOTE # y @ rest)"
  using assms(4)
proof (elim disjE conjE exE)
  assume "rest = []" "QUOTE \<notin> set y"
  then show ?thesis
    using assms(3) by (simp add: same_stripped_def stripped_in_literal)
next
  fix b assume "y = b @ [QUOTE]" "QUOTE \<notin> set b"
  then show ?thesis
    using assms(1,2) by (simp add: same_stripped_def stripped_literal)
qed

lemma format_loop_spec:
  "sink_holds out w \<Longrightarrow> BACKSLASH \<notin> set cs \<Longrightarrow> NUL \<notin> set cs \<Longrightarrow>
   \<exists>out'. format_loop ind cs out = Some out' \<and> variant_of w cs out'"
proof (induction cs arbitrary: ind out w rule: length_induct)
  case (1 cs)
  show ?case
  proof (cases cs)
    case Nil
    with "1.prems" show ?thesis
      by (auto simp: format_loop.simps [of ind "[]"] variant_of_def same_stripped_def
          intro!: exI [of _ "[]"])
  next
    case (Cons c rest)
    have IH: "\<exists>r. format_loop i ds o1 = Some r \<and> variant_of v ds r"
      if "sink_holds o1 v" "length ds \<le> length rest" "set ds \<subseteq> set rest" for i ds o1 v
    proof -
      have "length ds < length cs" "BACKSLASH \<notin> set ds" "NUL \<notin> set ds"
        using that "1.prems" Cons by auto
      with "1.IH" that(1) show ?thesis by blast
    qed
    have emit: "\<exists>r. format_loop i rest o1 = Some r \<and> variant_of w cs r"
      if h: "sink_holds o1 (w @ u @ [c] @ v)" "c \<noteq> QUOTE"
        "\<And>d. d \<in> set u \<Longrightarrow> is_ws d" "\<And>d. d \<in> set v \<Longrightarrow> is_ws d" for i o1 u v
    proof -
      obtain r where r: "format_loop i rest o1 = Some r" "variant_of (w @ u @ [c] @ v) rest r"
        using IH [OF h(1)] by blast
      have "same_stripped ((u @ [c] @ v) @ x) cs" if "same_stripped x rest" for x
        using same_stripped_token [OF that h(2), of u v] h(3,4) Cons by simp
      with r Cons show ?thesis
        using variant_of_emit [OF r(2), of cs] by blast
    qed
    have "?thesis" if "is_ws c"
      using IH [OF "1.prems"(1), of rest ind] that Cons
      by (subst format_loop.simps)
        (auto simp: variant_of_def same_stripped_def stripped_outside_prev [of c rest NUL])
    moreover have "?thesis" if "c = CHR ''{''"
      unfolding Cons that
      by (subst format_loop.simps, simp add: is_ws_def del: split_paired_Ex,
          rule sink.put_bind [OF "1.prems"(1)], rule put_tabs_bind, assumption,
          rule emit [of _ "[]" "replicate _ _", unfolded Cons that])
        (auto simp: that c_string_id)
    moreover have "?thesis" if "c = CHR ''}''"
      unfolding Cons that
      by (subst format_loop.simps, simp add: is_ws_def del: split_paired_Ex,
          rule sink.put_bind [OF "1.prems"(1)], rule put_tabs_bind, assumption,
          rule sink.put_bind, assumption,
          rule emit [of _ "CHR 0x0A # replicate _ _" "[]", unfolded Cons that])
        (auto simp: that c_string_id)
    moreover have "?thesis" if "c = CHR '':''"
      unfolding Cons that
      by (subst format_loop.simps, simp add: is_ws_def del: split_paired_Ex,
          rule sink.puts_bind [OF "1.prems"(1)],
          rule emit [of _ "[]" "'' ''", unfolded Cons that])
        (auto simp: that c_string_id)
    moreover have "?thesis" if "c = CHR '',''"
      unfolding Cons that
      by (subst format_loop.simps, simp add: is_ws_def del: split_paired_Ex,
          rule sink.puts_bind [OF "1.prems"(1)], rule put_tabs_bind, assumption,
          rule emit [of _ "[]" "CHR 0x0A # replicate _ _", unfolded Cons that])
        (auto simp: that c_string_id)
    moreover have "?thesis" if quote: "c = QUOTE"
    proof -
      obtain o1 where o1: "put_c c out = Some o1" "sink_holds o1 (w @ [c])"
        using sink.put_holds [OF "1.prems"(1), of c] quote by (auto simp: c_string_id)
      obtain x r o2 where lit: "format_literal rest o1 = Some (r, o2)"
        "sink_holds o2 ((w @ [c]) @ x)" "rest = x @ r"
        "r = [] \<and> QUOTE \<notin> set x \<or> (\<exists>b. x = b @ [QUOTE] \<and> QUOTE \<notin> set b)"
        using format_literal_spec [OF o1(2), of rest] "1.prems"(2,3) Cons
        by (metis list.set_intros(2))
      obtain o3 where o3: "format_loop ind r o2 = Some o3" "variant_of (w @ c # x) r o3"
        using IH [OF lit(2), of r ind] lit(3) by auto
      have "same_stripped ((c # x) @ y) cs" if "same_stripped y r" "r = [] \<Longrightarrow> y = []" for y
        using same_stripped_quoted [OF _ that lit(4)] lit(3) Cons "1.prems"(2) quote by simp
      then have "variant_of w cs o3"
        using variant_of_emit [OF o3(2)] Cons by blast
      with o1 lit o3 Cons quote show ?thesis
        by (subst format_loop.simps) (simp add: is_ws_def)
    qed
    moreover have "?thesis" if "\<not> is_ws c" "c \<noteq> CHR ''{''" "c \<noteq> CHR ''}''" "c \<noteq> CHR '':''"
      "c \<noteq> CHR '',''" "c \<noteq> QUOTE"
      using that unfolding Cons
      by (subst format_loop.simps, simp del: split_paired_Ex,
          intro sink.put_bind [OF "1.prems"(1)], intro emit [of _ "[]" "[]", unfolded Cons])
        (use "1.prems" Cons in \<open>auto simp: c_string_id\<close>)
    ultimately show ?thesis by blast
  qed
qed

lemma json_format_string_spec:
  assumes "generous m" and "NUL \<notin> set src" and "BACKSLASH \<notin> set src"
  obtains res m' where "json_format_string src m = Some (Some res, m')" "generous m'"
    "stripped False NUL res = stripped False NUL src"
proof (rule rcs_create_spec [of "length src" m])
  fix p m'
  assume ok: "rcs_create (length src) m = (p, m')" "rcs_holds p []" "grants m' = grants m"
  then have "sink_holds (p, m') []"
    using assms(1) by (auto simp: sink_holds_def cong: generous_cong)
  then obtain p2 m2 where loop: "format_loop 0 src (p, m') = Some (p2, m2)"
    and "variant_of [] src (p2, m2)"
    using format_loop_spec [of "(p, m')" "[]" src 0] assms by auto
  then obtain res where "rcs_holds p2 res" "generous m2" "same_stripped res src"
    by (auto simp: variant_of_def sink_holds_def)
  moreover from this obtain m3 where "rcs_unwrap p2 m2 = Some (Some res, m3)" "generous m3"
    by (cases rule: rcs_unwrap_spec [of p2 res m2]) (auto cong: generous_cong)
  ultimately show ?thesis
    using ok loop that by (simp add: json_format_string_def same_stripped_def)
qed (use assms in auto)

end
