(* ===== verification/JsonTree.thy ===== *)
theory JsonTree
  imports JsonText
begin

text \<open>
  The document tree of \<open>net_libs/libbase/src/json.c\<close>: nodes on the heap, linked to their
  parent, siblings and first and last child; the constructors, \<open>json_insert_child\<close>,
  \<open>json_insert_pair_into_object\<close>, \<open>json_free_value\<close> and the two label searches.
\<close>

section \<open>Data\<close>

datatype json_value_type = JSON_STRING | JSON_NUMBER | JSON_OBJECT | JSON_ARRAY | JSON_TRUE
  | JSON_FALSE | JSON_NULL

datatype json_error = JSON_OK | JSON_INCOMPLETE_DOCUMENT | JSON_WAITING_FOR_EOF
  | JSON_MALFORMED_DOCUMENT | JSON_INCOMPATIBLE_TYPE | JSON_MEMORY | JSON_ILLEGAL_CHARACTER
  | JSON_BAD_TREE_STRUCTURE | JSON_MAXIMUM_LENGTH | JSON_UNKNOWN_PROBLEM

text \<open>The \<open>text\<close> of a node is a block it owns; \<open>None\<close> is a null pointer.\<close>

record json_value =
  jv_type :: json_value_type
  jv_text :: "string option"
  jv_next :: ptr
  jv_previous :: ptr
  jv_parent :: ptr
  jv_child :: ptr
  jv_child_end :: ptr

text \<open>
  The heap of nodes: the live ones, and the next address to hand out (an address is never
  used twice, so a dangling pointer stays dangling).
\<close>

record store =
  nodes :: "nat \<Rightarrow> json_value option"
  fresh :: nat
  mem :: allocator

definition fetch :: "ptr \<Rightarrow> store \<Rightarrow> json_value option" where
  "fetch p st = (case p of NULL \<Rightarrow> None | Ptr a \<Rightarrow> nodes st a)"

definition modify :: "ptr \<Rightarrow> (json_value \<Rightarrow> json_value) \<Rightarrow> store \<Rightarrow> store option" where
  "modify p f st =
     (case p of
        NULL \<Rightarrow> None
      | Ptr a \<Rightarrow> (case nodes st a of
                    None \<Rightarrow> None
                  | Some v \<Rightarrow> Some (st\<lparr>nodes := (nodes st)(a \<mapsto> f v)\<rparr>)))"

section \<open>Constructors\<close>

definition blank_value :: "json_value_type \<Rightarrow> string option \<Rightarrow> json_value" where
  "blank_value ty s = \<lparr>jv_type = ty, jv_text = s, jv_next = NULL, jv_previous = NULL,
     jv_parent = NULL, jv_child = NULL, jv_child_end = NULL\<rparr>"

definition add_node :: "json_value \<Rightarrow> store \<Rightarrow> ptr \<times> store" where
  "add_node v st =
     (Ptr (fresh st), st\<lparr>nodes := (nodes st)(fresh st \<mapsto> v), fresh := Suc (fresh st)\<rparr>)"

definition json_new_value :: "json_value_type \<Rightarrow> store \<Rightarrow> ptr \<times> store" where
  "json_new_value ty st =
     (let (ok, m) = request (mem st); st = st\<lparr>mem := m\<rparr>
      in if \<not> ok then (NULL, st) else add_node (blank_value ty None) st)"

text \<open>The result of \<open>json_escape\<close> is stored without a check: the text may be null.\<close>

definition json_new_string :: "string \<Rightarrow> store \<Rightarrow> (ptr \<times> store) option" where
  "json_new_string s st =
     (let (ok, m) = request (mem st)
      in if \<not> ok then Some (NULL, st\<lparr>mem := m\<rparr>)
         else do {
           (e, m) \<leftarrow> json_escape s m;
           Some (add_node (blank_value JSON_STRING e) (st\<lparr>mem := m\<rparr>))
         })"

definition json_new_number :: "string \<Rightarrow> store \<Rightarrow> ptr \<times> store" where
  "json_new_number s st =
     (let (ok, m) = request (mem st)
      in if \<not> ok then (NULL, st\<lparr>mem := m\<rparr>)
         else let (ok, m) = request m
           in if \<not> ok then (NULL, st\<lparr>mem := m\<rparr>)
              else add_node (blank_value JSON_NUMBER (Some s)) (st\<lparr>mem := m\<rparr>))"

definition json_new_object :: "store \<Rightarrow> ptr \<times> store" where
  "json_new_object st = json_new_value JSON_OBJECT st"

definition json_new_array :: "store \<Rightarrow> ptr \<times> store" where
  "json_new_array st = json_new_value JSON_ARRAY st"

definition json_new_null :: "store \<Rightarrow> ptr \<times> store" where
  "json_new_null st = json_new_value JSON_NULL st"

definition json_new_true :: "store \<Rightarrow> ptr \<times> store" where
  "json_new_true st = json_new_value JSON_TRUE st"

definition json_new_false :: "store \<Rightarrow> ptr \<times> store" where
  "json_new_false st = json_new_value JSON_FALSE st"

section \<open>Insertion\<close>

text \<open>
  The structure check: what may become the child of a node of the parent's type.  An object
  takes strings (labels), an array and a label take any value; a leaf must have no child.
\<close>

definition may_insert :: "json_value \<Rightarrow> json_value \<Rightarrow> bool" where
  "may_insert parent child =
     (case jv_type parent of
        JSON_STRING \<Rightarrow>
          (case jv_type child of
             JSON_OBJECT \<Rightarrow> True
           | JSON_ARRAY \<Rightarrow> True
           | _ \<Rightarrow> jv_child child = NULL)
      | JSON_OBJECT \<Rightarrow> jv_type child = JSON_STRING
      | JSON_ARRAY \<Rightarrow>
          (case jv_type child of
             JSON_OBJECT \<Rightarrow> True
           | JSON_ARRAY \<Rightarrow> True
           | _ \<Rightarrow> jv_child child = NULL)
      | _ \<Rightarrow> False)"

definition json_insert_child :: "ptr \<Rightarrow> ptr \<Rightarrow> store \<Rightarrow> (json_error \<times> store) option" where
  "json_insert_child parent child st =
     (if parent = NULL \<or> child = NULL \<or> parent = child then None
      else do {
        p \<leftarrow> fetch parent st;
        c \<leftarrow> fetch child st;
        if \<not> may_insert p c then Some (JSON_BAD_TREE_STRUCTURE, st)
        else do {
          st \<leftarrow> modify child (\<lambda>v. v\<lparr>jv_parent := parent\<rparr>) st;
          st \<leftarrow> (if jv_child p \<noteq> NULL then do {
                   st \<leftarrow> modify child (\<lambda>v. v\<lparr>jv_previous := jv_child_end p\<rparr>) st;
                   st \<leftarrow> modify (jv_child_end p) (\<lambda>v. v\<lparr>jv_next := child\<rparr>) st;
                   modify parent (\<lambda>v. v\<lparr>jv_child_end := child\<rparr>) st
                 }
                 else modify parent (\<lambda>v. v\<lparr>jv_child := child, jv_child_end := child\<rparr>) st);
          st \<leftarrow> modify child (\<lambda>v. v\<lparr>jv_next := NULL\<rparr>) st;
          Some (JSON_OK, st)
        }
      })"

definition json_insert_pair_into_object ::
    "ptr \<Rightarrow> string \<Rightarrow> ptr \<Rightarrow> store \<Rightarrow> (json_error \<times> store) option" where
  "json_insert_pair_into_object parent text_label val st =
     (if parent = NULL \<or> val = NULL \<or> parent = val then None
      else do {
        p \<leftarrow> fetch parent st;
        if jv_type p \<noteq> JSON_OBJECT then None
        else do {
          (label, st) \<leftarrow> json_new_string text_label st;
          if label = NULL then Some (JSON_MEMORY, st)
          else do {
            (err, st) \<leftarrow> json_insert_child label val st;
            if err \<noteq> JSON_OK then Some (err, st)
            else do {
              (err, st) \<leftarrow> json_insert_child parent label st;
              if err \<noteq> JSON_OK then Some (err, st) else Some (JSON_OK, st)
            }
          }
        }
      })"

section \<open>Freeing\<close>

text \<open>The repair of the sibling links around a node that goes away.\<close>

definition unlink_siblings :: "json_value \<Rightarrow> store \<Rightarrow> store option" where
  "unlink_siblings v st =
     (if jv_previous v \<noteq> NULL \<and> jv_next v \<noteq> NULL then do {
        st \<leftarrow> modify (jv_previous v) (\<lambda>w. w\<lparr>jv_next := jv_next v\<rparr>) st;
        modify (jv_next v) (\<lambda>w. w\<lparr>jv_previous := jv_previous v\<rparr>) st
      }
      else do {
        st \<leftarrow> (if jv_previous v \<noteq> NULL
              then modify (jv_previous v) (\<lambda>w. w\<lparr>jv_next := NULL\<rparr>) st else Some st);
        if jv_next v \<noteq> NULL
        then modify (jv_next v) (\<lambda>w. w\<lparr>jv_previous := NULL\<rparr>) st else Some st
      })"

text \<open>
  The repair of the parent: only its \<open>child\<close> pointer is corrected, its \<open>child_end\<close> pointer
  is left alone.
\<close>

definition unlink_parent :: "ptr \<Rightarrow> json_value \<Rightarrow> store \<Rightarrow> store option" where
  "unlink_parent p v st =
     (if jv_parent v \<noteq> NULL then do {
        w \<leftarrow> fetch (jv_parent v) st;
        if jv_child w = p
        then (if jv_next v \<noteq> NULL
              then modify (jv_parent v) (\<lambda>w. w\<lparr>jv_child := jv_next v\<rparr>) st
              else modify (jv_parent v) (\<lambda>w. w\<lparr>jv_child := NULL\<rparr>) st)
        else Some st
      }
      else Some st)"

definition remove_node :: "ptr \<Rightarrow> store \<Rightarrow> store option" where
  "remove_node p st =
     (case p of NULL \<Rightarrow> None
      | Ptr a \<Rightarrow> (if nodes st a = None then None else Some (st\<lparr>nodes := (nodes st)(a := None)\<rparr>)))"

text \<open>
  \<open>json_free_value\<close> calls itself on the children, from the last to the first
  (\<open>json_free_children\<close> is its loop).  The recursion follows pointers, so it carries a fuel;
  \<open>free_tree\<close> below gives the fuel a tree needs.
\<close>

fun json_free_value :: "nat \<Rightarrow> ptr \<Rightarrow> store \<Rightarrow> store option"
and json_free_children :: "nat \<Rightarrow> ptr \<Rightarrow> store \<Rightarrow> store option" where
  "json_free_value 0 p st = None"
| "json_free_value (Suc fuel) p st =
     (if p = NULL then Some st
      else do {
        v \<leftarrow> fetch p st;
        st \<leftarrow> (if jv_child v \<noteq> NULL then json_free_children fuel (jv_child_end v) st
              else Some st);
        v \<leftarrow> fetch p st;
        st \<leftarrow> unlink_siblings v st;
        st \<leftarrow> unlink_parent p v st;
        remove_node p st
      })"
| "json_free_children 0 i st = None"
| "json_free_children (Suc fuel) i st =
     (if i = NULL then Some st
      else do {
        v \<leftarrow> fetch i st;
        st \<leftarrow> json_free_value fuel i st;
        json_free_children fuel (jv_previous v) st
      })"

section \<open>Searching a label\<close>

text \<open>\<open>strcasecmp\<close> compares up to the case of the ASCII letters.\<close>

definition lower_c :: "char \<Rightarrow> char" where
  "lower_c c = (if (of_char c :: nat) \<in> {65..90} then char_of ((of_char c :: nat) + 32) else c)"

text \<open>
  The loop over the siblings with the comparison as a parameter; the fuel bounds the number
  of siblings visited.  A child with a null \<open>text\<close> makes \<open>strlen\<close> undefined.
\<close>

fun find_label :: "(string \<Rightarrow> string \<Rightarrow> bool) \<Rightarrow> nat \<Rightarrow> ptr \<Rightarrow> string \<Rightarrow> store \<Rightarrow> ptr option" where
  "find_label eq 0 cursor lbl st = None"
| "find_label eq (Suc fuel) cursor lbl st =
     (if cursor = NULL then Some NULL
      else do {
        v \<leftarrow> fetch cursor st;
        s \<leftarrow> jv_text v;
        if length s = length lbl \<and> eq s lbl then Some cursor
        else find_label eq fuel (jv_next v) lbl st
      })"

definition json_find_first_label :: "nat \<Rightarrow> ptr \<Rightarrow> string option \<Rightarrow> store \<Rightarrow> ptr option" where
  "json_find_first_label fuel object text_label st =
     (case text_label of
        None \<Rightarrow> Some NULL
      | Some lbl \<Rightarrow>
          (if object = NULL then Some NULL
           else do {
             v \<leftarrow> fetch object st;
             if jv_type v \<noteq> JSON_OBJECT then None
             else if jv_child v = NULL then Some NULL
             else find_label (\<lambda>s l. s = l) fuel (jv_child v) lbl st
           }))"

definition json_find_first_label_ignore_case ::
    "nat \<Rightarrow> ptr \<Rightarrow> string option \<Rightarrow> store \<Rightarrow> ptr option" where
  "json_find_first_label_ignore_case fuel object text_label st =
     (case text_label of
        None \<Rightarrow> Some NULL
      | Some lbl \<Rightarrow>
          (if object = NULL then Some NULL
           else do {
             v \<leftarrow> fetch object st;
             if jv_type v \<noteq> JSON_OBJECT then None
             else if jv_child v = NULL then Some NULL
             else find_label (\<lambda>s l. map lower_c s = map lower_c l) fuel (jv_child v) lbl st
           }))"

end
