(* ===== verification/JsonParser.thy ===== *)
theory JsonParser
  imports JsonLexer JsonTree
begin

text \<open>
  The document parser of \<open>net_libs/libbase/src/json.c\<close>: \<open>json_jpi_init\<close>,
  \<open>json_parse_fragment\<close> (a state machine that pulls tokens from the lexer and can be resumed
  with the next fragment) and \<open>json_parse_document\<close>.  One definition per state of the
  \<open>switch\<close>.
\<close>

section \<open>Data\<close>

record json_parsing_info =
  pi_state :: nat
  pi_lex_state :: nat
  pi_lex_text :: rcs_ptr
  pi_p :: "string option"
  pi_cursor :: ptr
  pi_limit :: bool

definition json_jpi_init :: json_parsing_info where
  "json_jpi_init = \<lparr>pi_state = 0, pi_lex_state = 0, pi_lex_text = RcsNull, pi_p = None,
     pi_cursor = NULL, pi_limit = False\<rparr>"

type_synonym parse_st = "json_parsing_info \<times> store"

text \<open>One turn of the \<open>while\<close> loop goes on or returns.\<close>

datatype parse_outcome = Parsing parse_st | Parsed json_error parse_st

section \<open>Recurring fragments\<close>

text \<open>\<open>lexer (buffer, &info->p, &info->lex_state, (rcstring **) & info->lex_text)\<close>\<close>

definition run_lexer :: "string \<Rightarrow> parse_st \<Rightarrow> (lex_value \<times> parse_st) option" where
  "run_lexer buffer ps = (let (info, st) = ps in do {
     (v, s) \<leftarrow> lexer buffer \<lparr>lx_p = pi_p info, lx_state = pi_lex_state info,
                              lx_text = pi_lex_text info, lx_mem = mem st\<rparr>;
     Some (v, info\<lparr>pi_p := lx_p s, pi_lex_state := lx_state s, pi_lex_text := lx_text s\<rparr>,
           st\<lparr>mem := lx_mem s\<rparr>)
   })"

text \<open>\<open>info->state = n; break;\<close>\<close>

definition next_state :: "nat \<Rightarrow> parse_st \<Rightarrow> parse_outcome option" where
  "next_state n ps = Some (Parsing ((fst ps)\<lparr>pi_state := n\<rparr>, snd ps))"

definition set_cursor :: "ptr \<Rightarrow> parse_st \<Rightarrow> parse_st" where
  "set_cursor p ps = ((fst ps)\<lparr>pi_cursor := p\<rparr>, snd ps)"

text \<open>
  \<open>if ((temp = json_new_value (ty)) == NULL) return JSON_MEMORY;\<close> then the insertion of
  \<open>temp\<close> under the cursor, any error of which is \<open>JSON_UNKNOWN_PROBLEM\<close>.
\<close>

definition attach :: "ptr \<Rightarrow> (ptr \<Rightarrow> parse_st \<Rightarrow> parse_outcome option) \<Rightarrow> parse_st \<Rightarrow>
    parse_outcome option" where
  "attach temp k ps = do {
     (e, st) \<leftarrow> json_insert_child (pi_cursor (fst ps)) temp (snd ps);
     if e \<noteq> JSON_OK then Some (Parsed JSON_UNKNOWN_PROBLEM (fst ps, st)) else k temp (fst ps, st)
   }"

definition add_value :: "json_value_type \<Rightarrow> (ptr \<Rightarrow> parse_st \<Rightarrow> parse_outcome option) \<Rightarrow> parse_st \<Rightarrow>
    parse_outcome option" where
  "add_value ty k ps =
     (let (temp, st) = json_new_value ty (snd ps); ps = (fst ps, st) in
      if temp = NULL then Some (Parsed JSON_MEMORY ps) else attach temp k ps)"

text \<open>The same with \<open>temp->text = rcs_unwrap (info->lex_text), info->lex_text = NULL;\<close>\<close>

definition add_text :: "json_value_type \<Rightarrow> (ptr \<Rightarrow> parse_st \<Rightarrow> parse_outcome option) \<Rightarrow> parse_st \<Rightarrow>
    parse_outcome option" where
  "add_text ty k ps =
     (let (temp, st) = json_new_value ty (snd ps); ps = (fst ps, st) in
      if temp = NULL then Some (Parsed JSON_MEMORY ps)
      else do {
        (s, m) \<leftarrow> rcs_unwrap (pi_lex_text (fst ps)) (mem (snd ps));
        st \<leftarrow> modify temp (\<lambda>v. v\<lparr>jv_text := s\<rparr>) ((snd ps)\<lparr>mem := m\<rparr>);
        attach temp k ((fst ps)\<lparr>pi_lex_text := RcsNull\<rparr>, st)
      })"

text \<open>\<open>assert (info->cursor != NULL); assert (info->cursor->type == ty);\<close>\<close>

definition assert_cursor :: "json_value_type set \<Rightarrow> parse_st \<Rightarrow> unit option" where
  "assert_cursor tys ps = do {
     v \<leftarrow> fetch (pi_cursor (fst ps)) (snd ps);
     if jv_type v \<in> tys then Some () else None
   }"

definition malformed :: "parse_st \<Rightarrow> parse_outcome option" where
  "malformed ps = Some (Parsed JSON_MALFORMED_DOCUMENT ps)"

definition incomplete :: "parse_st \<Rightarrow> parse_outcome option" where
  "incomplete ps = Some (Parsed JSON_INCOMPLETE_DOCUMENT ps)"

section \<open>The states\<close>

definition parse_start :: "string \<Rightarrow> parse_st \<Rightarrow> parse_outcome option" where
  "parse_start buffer ps = do {
     (v, ps) \<leftarrow> run_lexer buffer ps;
     (case v of
        LEX_BEGIN_OBJECT \<Rightarrow> next_state 1 ps
      | LEX_BEGIN_ARRAY \<Rightarrow> next_state 7 ps
      | _ \<Rightarrow> malformed ps)
   }"

text \<open>States 1 and 7: a node of type \<open>ty\<close> becomes the root or a child of the cursor.\<close>

definition open_node :: "json_value_type \<Rightarrow> nat \<Rightarrow> parse_st \<Rightarrow> parse_outcome option" where
  "open_node ty n ps =
     (if pi_cursor (fst ps) = NULL then
        let (p, st) = json_new_value ty (snd ps); ps = set_cursor p (fst ps, st) in
        if p = NULL then Some (Parsed JSON_MEMORY ps) else next_state n ps
      else do {
        _ \<leftarrow> assert_cursor {JSON_STRING, JSON_ARRAY} ps;
        add_value ty (\<lambda>temp ps. next_state n (set_cursor temp ps)) ps
      })"

definition parse_open_object :: "parse_st \<Rightarrow> parse_outcome option" where
  "parse_open_object = open_node JSON_OBJECT 2"

definition parse_open_array :: "parse_st \<Rightarrow> parse_outcome option" where
  "parse_open_array = open_node JSON_ARRAY 8"

text \<open>The closing brace (states 2 and 3): back to the object or array that holds this one.\<close>

definition end_object :: "parse_st \<Rightarrow> parse_outcome option" where
  "end_object ps = do {
     c \<leftarrow> fetch (pi_cursor (fst ps)) (snd ps);
     if jv_parent c = NULL then next_state 99 ps
     else do {
       let ps = set_cursor (jv_parent c) ps;
       p \<leftarrow> fetch (jv_parent c) (snd ps);
       (case jv_type p of
          JSON_STRING \<Rightarrow>
            (if jv_parent p = NULL then None
             else do {
               let ps = set_cursor (jv_parent p) ps;
               g \<leftarrow> fetch (jv_parent p) (snd ps);
               if jv_type g \<noteq> JSON_OBJECT then Some (Parsed JSON_BAD_TREE_STRUCTURE ps)
               else next_state 3 ps
             })
        | JSON_ARRAY \<Rightarrow> next_state 9 ps
        | _ \<Rightarrow> Some (Parsed JSON_BAD_TREE_STRUCTURE ps))
     }
   }"

definition parse_in_object :: "string \<Rightarrow> parse_st \<Rightarrow> parse_outcome option" where
  "parse_in_object buffer ps = do {
     _ \<leftarrow> assert_cursor {JSON_OBJECT} ps;
     (v, ps) \<leftarrow> run_lexer buffer ps;
     (case v of
        LEX_STRING \<Rightarrow> add_text JSON_STRING (\<lambda>temp ps. next_state 5 (set_cursor temp ps)) ps
      | LEX_END_OBJECT \<Rightarrow> end_object ps
      | LEX_MORE \<Rightarrow> incomplete ps
      | _ \<Rightarrow> malformed ps)
   }"

definition parse_after_member :: "string \<Rightarrow> parse_st \<Rightarrow> parse_outcome option" where
  "parse_after_member buffer ps = do {
     _ \<leftarrow> assert_cursor {JSON_OBJECT} ps;
     (v, ps) \<leftarrow> run_lexer buffer ps;
     (case v of
        LEX_VALUE_SEPARATOR \<Rightarrow> next_state 4 ps
      | LEX_END_OBJECT \<Rightarrow> end_object ps
      | LEX_MORE \<Rightarrow> incomplete ps
      | _ \<Rightarrow> malformed ps)
   }"

definition parse_next_member :: "string \<Rightarrow> parse_st \<Rightarrow> parse_outcome option" where
  "parse_next_member buffer ps = do {
     _ \<leftarrow> assert_cursor {JSON_OBJECT} ps;
     (v, ps) \<leftarrow> run_lexer buffer ps;
     (case v of
        LEX_STRING \<Rightarrow> add_text JSON_STRING (\<lambda>temp ps. next_state 5 (set_cursor temp ps)) ps
      | LEX_MORE \<Rightarrow> incomplete ps
      | _ \<Rightarrow> malformed ps)
   }"

definition parse_colon :: "string \<Rightarrow> parse_st \<Rightarrow> parse_outcome option" where
  "parse_colon buffer ps = do {
     _ \<leftarrow> assert_cursor {JSON_STRING} ps;
     (v, ps) \<leftarrow> run_lexer buffer ps;
     (case v of
        LEX_NAME_SEPARATOR \<Rightarrow> next_state 6 ps
      | LEX_MORE \<Rightarrow> incomplete ps
      | _ \<Rightarrow> malformed ps)
   }"

text \<open>
  State 6: after a leaf has been added to the label, the cursor moves to the label's parent.
  The assignment of state 99 for a label without a parent is overwritten by state 3.
\<close>

definition member_done :: "ptr \<Rightarrow> parse_st \<Rightarrow> parse_outcome option" where
  "member_done temp ps = do {
     c \<leftarrow> fetch (pi_cursor (fst ps)) (snd ps);
     next_state 3 (if jv_parent c = NULL then ps else set_cursor (jv_parent c) ps)
   }"

definition parse_member_value :: "string \<Rightarrow> parse_st \<Rightarrow> parse_outcome option" where
  "parse_member_value buffer ps = do {
     _ \<leftarrow> assert_cursor {JSON_STRING} ps;
     (v, ps) \<leftarrow> run_lexer buffer ps;
     (case v of
        LEX_STRING \<Rightarrow> add_text JSON_STRING member_done ps
      | LEX_NUMBER \<Rightarrow> add_text JSON_NUMBER member_done ps
      | LEX_TRUE \<Rightarrow> add_value JSON_TRUE member_done ps
      | LEX_FALSE \<Rightarrow> add_value JSON_FALSE member_done ps
      | LEX_NULL \<Rightarrow> add_value JSON_NULL member_done ps
      | LEX_BEGIN_OBJECT \<Rightarrow> next_state 1 ps
      | LEX_BEGIN_ARRAY \<Rightarrow> next_state 7 ps
      | LEX_MORE \<Rightarrow> incomplete ps
      | LEX_MEMORY \<Rightarrow> Some (Parsed JSON_MEMORY ps)
      | _ \<Rightarrow> malformed ps)
   }"

text \<open>
  The closing bracket (states 8 and 9).  The two copies in the code differ in what they do
  with a label that has no parent: \<open>orphan\<close>.
\<close>

definition end_array ::
    "(parse_st \<Rightarrow> parse_outcome option) \<Rightarrow> parse_st \<Rightarrow> parse_outcome option" where
  "end_array orphan ps = do {
     c \<leftarrow> fetch (pi_cursor (fst ps)) (snd ps);
     if jv_parent c = NULL then next_state 99 ps
     else do {
       let ps = set_cursor (jv_parent c) ps;
       p \<leftarrow> fetch (jv_parent c) (snd ps);
       (case jv_type p of
          JSON_STRING \<Rightarrow>
            (if jv_parent p = NULL then orphan ps
             else do {
               let ps = set_cursor (jv_parent p) ps;
               g \<leftarrow> fetch (jv_parent p) (snd ps);
               if jv_type g \<noteq> JSON_OBJECT then Some (Parsed JSON_BAD_TREE_STRUCTURE ps)
               else next_state 3 ps
             })
        | JSON_ARRAY \<Rightarrow> next_state 9 ps
        | _ \<Rightarrow> Some (Parsed JSON_BAD_TREE_STRUCTURE ps))
     }
   }"

definition parse_in_array :: "string \<Rightarrow> parse_st \<Rightarrow> parse_outcome option" where
  "parse_in_array buffer ps = do {
     _ \<leftarrow> assert_cursor {JSON_ARRAY} ps;
     (v, ps) \<leftarrow> run_lexer buffer ps;
     (case v of
        LEX_STRING \<Rightarrow> add_text JSON_STRING (\<lambda>_. next_state 9) ps
      | LEX_NUMBER \<Rightarrow> add_text JSON_NUMBER (\<lambda>_. next_state 9) ps
      | LEX_TRUE \<Rightarrow> add_value JSON_TRUE (\<lambda>_. next_state 9) ps
      | LEX_FALSE \<Rightarrow> add_value JSON_FALSE (\<lambda>_. next_state 9) ps
      | LEX_NULL \<Rightarrow> add_value JSON_NULL (\<lambda>_. next_state 9) ps
      | LEX_BEGIN_ARRAY \<Rightarrow> next_state 7 ps
      | LEX_END_ARRAY \<Rightarrow> end_array (\<lambda>ps. Some (Parsed JSON_BAD_TREE_STRUCTURE ps)) ps
      | LEX_BEGIN_OBJECT \<Rightarrow> next_state 1 ps
      | LEX_MORE \<Rightarrow> incomplete ps
      | _ \<Rightarrow> malformed ps)
   }"

definition parse_after_element :: "string \<Rightarrow> parse_st \<Rightarrow> parse_outcome option" where
  "parse_after_element buffer ps =
     (if pi_cursor (fst ps) = NULL then None
      else do {
        (v, ps) \<leftarrow> run_lexer buffer ps;
        (case v of
           LEX_VALUE_SEPARATOR \<Rightarrow> next_state 8 ps
         | LEX_END_ARRAY \<Rightarrow> end_array (next_state 99) ps
         | LEX_MORE \<Rightarrow> incomplete ps
         | _ \<Rightarrow> malformed ps)
      })"

definition parse_finished :: "string \<Rightarrow> parse_st \<Rightarrow> parse_outcome option" where
  "parse_finished buffer ps = do {
     c \<leftarrow> fetch (pi_cursor (fst ps)) (snd ps);
     if jv_parent c \<noteq> NULL then None
     else do {
       (v, ps) \<leftarrow> run_lexer buffer ps;
       (case v of
          LEX_MORE \<Rightarrow> Some (Parsed JSON_WAITING_FOR_EOF ps)
        | LEX_MEMORY \<Rightarrow> Some (Parsed JSON_MEMORY ps)
        | _ \<Rightarrow> malformed ps)
     }
   }"

section \<open>The parser\<close>

definition parse_step :: "string \<Rightarrow> parse_st \<Rightarrow> parse_outcome option" where
  "parse_step buffer ps =
     (let q = pi_state (fst ps) in
      if q = 0 then parse_start buffer ps
      else if q = 1 then parse_open_object ps
      else if q = 2 then parse_in_object buffer ps
      else if q = 3 then parse_after_member buffer ps
      else if q = 4 then parse_next_member buffer ps
      else if q = 5 then parse_colon buffer ps
      else if q = 6 then parse_member_value buffer ps
      else if q = 7 then parse_open_array ps
      else if q = 8 then parse_in_array buffer ps
      else if q = 9 then parse_after_element buffer ps
      else if q = 99 then parse_finished buffer ps
      else Some (Parsed JSON_UNKNOWN_PROBLEM ps))"

lemmas parse_state_defs = parse_start_def parse_open_object_def parse_in_object_def
  parse_after_member_def parse_next_member_def parse_colon_def parse_member_value_def
  parse_open_array_def parse_in_array_def parse_after_element_def parse_finished_def

lemmas parse_idiom_defs = next_state_def set_cursor_def attach_def add_value_def add_text_def
  open_node_def member_done_def end_object_def end_array_def malformed_def incomplete_def Let_def

lemma run_lexer_token:
  assumes "run_lexer buffer ps = Some (v, ps')" and "pi_p (fst ps) = Some cs" and "is_token v"
  shows "pi_lex_state (fst ps') = 0 \<and> pi_state (fst ps') = pi_state (fst ps) \<and>
    (\<exists>cs'. pi_p (fst ps') = Some cs' \<and>
      (length cs' < length cs \<or> length cs' = length cs \<and> pi_lex_state (fst ps) \<noteq> 0))"
  using assms
  by (auto simp: run_lexer_def lexer_def bind_eq_Some_conv split: prod.splits
      dest!: lexer_loop_token)

text \<open>
  Termination of the loop: states 1 and 7 read nothing but lead to a state that does, and a
  token is read from the input or ends a number begun in the fragment before.
\<close>

definition parse_measure :: "parse_st \<Rightarrow> nat" where
  "parse_measure ps =
     4 * length (the (pi_p (fst ps))) + (if pi_lex_state (fst ps) = 0 then 0 else 2) +
     (if pi_state (fst ps) \<in> {1, 7} then 1 else 0)"

text \<open>What the states do after the lexer has returned leaves the lexer's cells alone.\<close>

definition keeps_lexer :: "parse_st \<Rightarrow> parse_st \<Rightarrow> bool" where
  "keeps_lexer ps ps' \<longleftrightarrow>
     pi_p (fst ps') = pi_p (fst ps) \<and> pi_lex_state (fst ps') = pi_lex_state (fst ps)"

definition keeping :: "(parse_st \<Rightarrow> parse_outcome option) \<Rightarrow> bool" where
  "keeping f \<longleftrightarrow> (\<forall>ps ps'. f ps = Some (Parsing ps') \<longrightarrow> keeps_lexer ps ps')"

lemma keeps_lexer_simps [simp]:
  "keeps_lexer (set_cursor p ps) ps' = keeps_lexer ps ps'"
  "keeps_lexer ps (set_cursor p ps') = keeps_lexer ps ps'"
  "keeps_lexer ps ps"
  by (simp_all add: keeps_lexer_def set_cursor_def)

lemma keepingI [intro]:
  "(\<And>ps ps'. f ps = Some (Parsing ps') \<Longrightarrow> keeps_lexer ps ps') \<Longrightarrow> keeping f"
  unfolding keeping_def by blast

lemma keepingD: "keeping f \<Longrightarrow> f ps = Some (Parsing ps') \<Longrightarrow> keeps_lexer ps ps'"
  unfolding keeping_def by blast

lemma keeping_next_state [simp]: "keeping (next_state n)"
  by (rule keepingI) (auto simp: next_state_def keeps_lexer_def)

lemma keeping_set_cursor [simp]: "keeping (\<lambda>ps. next_state n (set_cursor p ps))"
  by (rule keepingI) (auto dest: keepingD [OF keeping_next_state])

lemma keeping_Parsed [simp]:
  "keeping (\<lambda>ps. Some (Parsed e ps))" "keeping malformed" "keeping incomplete"
  by (auto simp: keeping_def malformed_def incomplete_def)

lemma keeping_ascend:
  assumes "Option.bind (fetch p st) (\<lambda>v. case jv_type v of JSON_STRING \<Rightarrow> f v
      | JSON_ARRAY \<Rightarrow> g v | _ \<Rightarrow> Some (Parsed e qs)) = Some (Parsing ps')"
    and "\<And>v. f v = Some (Parsing ps') \<Longrightarrow> keeps_lexer ps ps'"
    and "\<And>v. g v = Some (Parsing ps') \<Longrightarrow> keeps_lexer ps ps'"
  shows "keeps_lexer ps ps'"
proof -
  from assms(1) obtain v where "(case jv_type v of JSON_STRING \<Rightarrow> f v
      | JSON_ARRAY \<Rightarrow> g v | _ \<Rightarrow> Some (Parsed e qs)) = Some (Parsing ps')"
    by (auto simp: bind_eq_Some_conv)
  then show ?thesis
    using assms(2,3) by (cases "jv_type v") auto
qed

lemma keeping_end_object [simp]: "keeping end_object"
  by (rule keepingI)
    (auto simp: end_object_def Let_def bind_eq_Some_conv [of "fetch (pi_cursor _) _"]
      split: if_splits dest: keepingD [OF keeping_next_state] elim!: keeping_ascend,
      auto simp: bind_eq_Some_conv split: if_splits dest: keepingD [OF keeping_next_state])

lemma keeping_end_array [simp]:
  assumes "keeping orphan" shows "keeping (end_array orphan)"
  by (rule keepingI)
    (auto simp: end_array_def Let_def bind_eq_Some_conv [of "fetch (pi_cursor _) _"]
      split: if_splits dest: keepingD [OF keeping_next_state] elim!: keeping_ascend,
      auto simp: bind_eq_Some_conv split: if_splits
      dest: keepingD [OF keeping_next_state] keepingD [OF assms])

lemma keeping_attach:
  assumes "\<And>t. keeping (k t)" shows "keeping (attach temp k)"
  by (rule keepingI)
    (auto simp: attach_def bind_eq_Some_conv keeps_lexer_def split: if_splits prod.splits
      dest!: keepingD [OF assms])

lemma keeping_add_value [simp]:
  assumes "\<And>t. keeping (k t)" shows "keeping (add_value ty k)"
  by (rule keepingI)
    (auto simp: add_value_def Let_def keeps_lexer_def split: if_splits prod.splits
      dest!: keepingD [OF keeping_attach [OF assms]])

lemma keeping_add_text [simp]:
  assumes "\<And>t. keeping (k t)" shows "keeping (add_text ty k)"
  by (rule keepingI)
    (auto simp: add_text_def Let_def bind_eq_Some_conv keeps_lexer_def split: if_splits prod.splits
      dest!: keepingD [OF keeping_attach [OF assms]])

lemma keeping_member_done [simp]: "keeping (member_done t)"
  by (rule keepingI)
    (auto simp: member_done_def bind_eq_Some_conv split: if_splits
      dest: keepingD [OF keeping_next_state])

text \<open>A turn of a state that reads a token.\<close>

lemma reads_token:
  assumes "Option.bind (run_lexer buffer ps) (\<lambda>(v, qs). f v qs) = Some (Parsing ps')"
    and "\<And>v. keeping (f v)" and "\<And>qs v. \<not> is_token v \<Longrightarrow> f v qs \<noteq> Some (Parsing ps')"
  shows "\<exists>v qs. run_lexer buffer ps = Some (v, qs) \<and> is_token v \<and> keeps_lexer qs ps'"
proof -
  obtain v qs where "run_lexer buffer ps = Some (v, qs)" "f v qs = Some (Parsing ps')"
    using assms(1) by (auto simp: bind_eq_Some_conv)
  then show ?thesis using assms(2,3) keepingD by blast
qed

lemma reads_token_checked:
  assumes "Option.bind chk (\<lambda>x. if b x then None
      else Option.bind (run_lexer buffer ps) (\<lambda>(v, qs). f v qs)) = Some (Parsing ps')"
    and "\<And>v. keeping (f v)" and "\<And>qs v. \<not> is_token v \<Longrightarrow> f v qs \<noteq> Some (Parsing ps')"
  shows "\<exists>v qs. run_lexer buffer ps = Some (v, qs) \<and> is_token v \<and> keeps_lexer qs ps'"
proof -
  have "Option.bind (run_lexer buffer ps) (\<lambda>(v, qs). f v qs) = Some (Parsing ps')"
    using assms(1) by (auto simp: bind_eq_Some_conv [of chk] split: if_splits)
  then show ?thesis using assms(2,3) by (rule reads_token)
qed

lemmas reads_token_asserted = reads_token_checked [where b = "\<lambda>_. False", simplified if_False]

lemmas token_cases = is_token_def malformed_def incomplete_def

lemma parse_step_reads:
  assumes "parse_step buffer ps = Some (Parsing ps')" and "pi_state (fst ps) \<notin> {1, 7}"
  shows "\<exists>v qs. run_lexer buffer ps = Some (v, qs) \<and> is_token v \<and> keeps_lexer qs ps'"
proof -
  consider (start) "parse_start buffer ps = Some (Parsing ps')"
    | "parse_in_object buffer ps = Some (Parsing ps')"
    | "parse_after_member buffer ps = Some (Parsing ps')"
    | "parse_next_member buffer ps = Some (Parsing ps')"
    | "parse_colon buffer ps = Some (Parsing ps')"
    | "parse_member_value buffer ps = Some (Parsing ps')"
    | "parse_in_array buffer ps = Some (Parsing ps')"
    | "parse_after_element buffer ps = Some (Parsing ps')"
    | "parse_finished buffer ps = Some (Parsing ps')"
    using assms by (auto simp: parse_step_def Let_def split: if_splits)
  then show ?thesis
  proof cases
    case start
    then show ?thesis
      unfolding parse_start_def
      by (rule reads_token; rename_tac v, case_tac v)
        (simp_all add: token_cases)
  next
    case 2
    then show ?thesis
      unfolding parse_in_object_def
      by (rule reads_token_asserted; rename_tac v, case_tac v)
        (simp_all add: token_cases)
  next
    case 3
    then show ?thesis
      unfolding parse_after_member_def
      by (rule reads_token_asserted; rename_tac v, case_tac v)
        (simp_all add: token_cases)
  next
    case 4
    then show ?thesis
      unfolding parse_next_member_def
      by (rule reads_token_asserted; rename_tac v, case_tac v)
        (simp_all add: token_cases)
  next
    case 5
    then show ?thesis
      unfolding parse_colon_def
      by (rule reads_token_asserted; rename_tac v, case_tac v)
        (simp_all add: token_cases)
  next
    case 6
    then show ?thesis
      unfolding parse_member_value_def
      by (rule reads_token_asserted; rename_tac v, case_tac v)
        (simp_all add: token_cases)
  next
    case 7
    then show ?thesis
      unfolding parse_in_array_def
      by (rule reads_token_asserted; rename_tac v, case_tac v)
        (simp_all add: token_cases)
  next
    case 8
    then have "Option.bind (run_lexer buffer ps) (\<lambda>(v, qs). case v of
          LEX_VALUE_SEPARATOR \<Rightarrow> next_state 8 qs
        | LEX_END_ARRAY \<Rightarrow> end_array (next_state 99) qs
        | LEX_MORE \<Rightarrow> incomplete qs
        | _ \<Rightarrow> malformed qs) = Some (Parsing ps')"
      by (simp add: parse_after_element_def split: if_splits)
    then show ?thesis
      by (rule reads_token; rename_tac v, case_tac v)
        (simp_all add: token_cases)
  next
    case 9
    then show ?thesis
      unfolding parse_finished_def
      by (rule reads_token_checked; rename_tac v, case_tac v)
        (simp_all add: token_cases)
  qed
qed

lemma parse_step_opens:
  assumes "parse_step buffer ps = Some (Parsing ps')" and "pi_state (fst ps) \<in> {1, 7}"
  shows "keeps_lexer ps ps' \<and> pi_state (fst ps') \<notin> {1, 7}"
  using assms
  by (auto simp: parse_step_def parse_state_defs parse_idiom_defs keeps_lexer_def
      bind_eq_Some_conv split: if_splits prod.splits)

lemma parse_step_measure:
  assumes "parse_step buffer ps = Some (Parsing ps')" and "pi_p (fst ps) = Some cs"
  shows "parse_measure ps' < parse_measure ps"
proof (cases "pi_state (fst ps) \<in> {1, 7}")
  case True
  with parse_step_opens [OF assms(1)] show ?thesis
    by (simp add: parse_measure_def keeps_lexer_def)
next
  case False
  with assms(1) obtain v qs where lex: "run_lexer buffer ps = Some (v, qs)" "is_token v"
    and keeps: "keeps_lexer qs ps'"
    using parse_step_reads by blast
  show ?thesis
    using run_lexer_token [OF lex(1) assms(2) lex(2)] keeps False assms(2)
    by (auto simp: parse_measure_def keeps_lexer_def)
qed

text \<open>\<open>while (*info->p != '\0')\<close> and the two returns behind it.\<close>

function parse_loop :: "string \<Rightarrow> parse_st \<Rightarrow> (json_error \<times> parse_st) option" where
  "parse_loop buffer ps =
     (case pi_p (fst ps) of
        None \<Rightarrow> None
      | Some cs \<Rightarrow>
          if peek cs = NUL then
            Some (if pi_state (fst ps) = 99 then JSON_WAITING_FOR_EOF
                  else JSON_INCOMPLETE_DOCUMENT, ((fst ps)\<lparr>pi_p := None\<rparr>, snd ps))
          else (case parse_step buffer ps of
                  None \<Rightarrow> None
                | Some (Parsed e ps') \<Rightarrow> Some (e, ps')
                | Some (Parsing ps') \<Rightarrow> parse_loop buffer ps'))"
  by pat_completeness auto
termination
  by (relation "measure (\<lambda>(buffer, ps). parse_measure ps)") (auto dest: parse_step_measure)

declare parse_loop.simps [simp del]

definition json_parse_fragment ::
    "string \<Rightarrow> json_parsing_info \<Rightarrow> store \<Rightarrow> (json_error \<times> parse_st) option" where
  "json_parse_fragment buffer info st = parse_loop buffer (info\<lparr>pi_p := Some buffer\<rparr>, st)"

text \<open>
  The parsing structure is allocated and freed here; \<open>*root\<close>, null at the call, is set only
  when the document is complete.
\<close>

definition json_parse_document :: "string \<Rightarrow> store \<Rightarrow> (json_error \<times> ptr \<times> store) option" where
  "json_parse_document buffer st =
     (let (ok, m) = request (mem st); st = st\<lparr>mem := m\<rparr> in
      if \<not> ok then Some (JSON_MEMORY, NULL, st)
      else do {
        (e, info, st) \<leftarrow> json_parse_fragment buffer json_jpi_init st;
        if e = JSON_WAITING_FOR_EOF \<or> e = JSON_OK then Some (JSON_OK, pi_cursor info, st)
        else Some (e, NULL, st)
      })"

end
