(* ===== verification/JsonToken.thy ===== *)
theory JsonToken
  imports JsonLexer
begin

text \<open>
  What the lexer of \<open>JsonLexer\<close> recognises: the grammars of string literals and numbers, the
  automaton over the lexer's own state numbers that decides them, the invariant of a
  suspended lexer, and the token lemmas the parser proofs use.
\<close>

section \<open>The grammars\<close>

fun string_body :: "string \<Rightarrow> bool" where
  "string_body [] = True"
| "string_body (c # cs) =
     (if c = BACKSLASH then
        (case cs of
           [] \<Rightarrow> False
         | e # es \<Rightarrow>
             if is_escape e then string_body es
             else if e = CHR ''u'' then
               (case es of
                  h1 # h2 # h3 # h4 # r \<Rightarrow>
                    is_hex h1 \<and> is_hex h2 \<and> is_hex h3 \<and> is_hex h4 \<and> string_body r
                | _ \<Rightarrow> False)
             else False)
      else c \<noteq> QUOTE \<and> c \<noteq> NUL \<and> string_body cs)"

definition digits :: "string \<Rightarrow> bool" where
  "digits w \<longleftrightarrow> list_all is_digit w"

definition is_int_part :: "string \<Rightarrow> bool" where
  "is_int_part w \<longleftrightarrow> w = ''0'' \<or> (\<exists>d ds. w = d # ds \<and> is_digit19 d \<and> digits ds)"

definition is_frac_part :: "string \<Rightarrow> bool" where
  "is_frac_part w \<longleftrightarrow> w = [] \<or> (\<exists>ds. w = CHR ''.'' # ds \<and> ds \<noteq> [] \<and> digits ds)"

definition is_exp_part :: "string \<Rightarrow> bool" where
  "is_exp_part w \<longleftrightarrow> w = [] \<or>
     (\<exists>e sg ds. w = e # sg @ ds \<and> is_exp e \<and> sg \<in> {[], ''+'', ''-''} \<and> ds \<noteq> [] \<and> digits ds)"

definition is_number :: "string \<Rightarrow> bool" where
  "is_number w \<longleftrightarrow> (\<exists>sg i f e. w = sg @ i @ f @ e \<and> sg \<in> {[], ''-''} \<and>
     is_int_part i \<and> is_frac_part f \<and> is_exp_part e)"

section \<open>The automaton\<close>

text \<open>
  The state the lexer goes to when it appends a character to the text of a token; strings
  start in state 1, numbers in state 0.
\<close>

definition text_step :: "nat \<Rightarrow> char \<Rightarrow> nat option" where
  "text_step q c =
     (if q = 0 \<or> q = 17 then
        (if c = CHR ''-'' \<and> q = 0 then Some 17 else if c = CHR ''0'' then Some 18
         else if is_digit19 c then Some 19 else None)
      else if q = 1 then
        (if c = QUOTE then None else if c = BACKSLASH then Some 2 else Some 1)
      else if q = 2 then
        (if is_escape c then Some 1 else if c = CHR ''u'' then Some 3 else None)
      else if q = 3 then (if is_hex c then Some 4 else None)
      else if q = 4 then (if is_hex c then Some 5 else None)
      else if q = 5 then (if is_hex c then Some 6 else None)
      else if q = 6 then (if is_hex c then Some 1 else None)
      else if q = 18 \<or> q = 19 then
        (if c = CHR ''.'' then Some 20 else if is_exp c then Some 22
         else if q = 19 \<and> is_digit c then Some 19 else None)
      else if q = 20 then (if is_digit c then Some 21 else None)
      else if q = 21 then
        (if is_exp c then Some 22 else if is_digit c then Some 21 else None)
      else if q = 22 then
        (if c = CHR ''-'' \<or> c = CHR ''+'' then Some 23 else if is_digit c then Some 24 else None)
      else if q = 23 \<or> q = 24 then (if is_digit c then Some 24 else None)
      else None)"

lemma text_step_simps:
  "text_step 0 c = (if c = CHR ''-'' then Some 17 else if c = CHR ''0'' then Some 18
     else if is_digit19 c then Some 19 else None)"
  "text_step (Suc 0) c = (if c = QUOTE then None else if c = BACKSLASH then Some 2 else Some 1)"
  "text_step 2 c = (if is_escape c then Some 1 else if c = CHR ''u'' then Some 3 else None)"
  "text_step 3 c = (if is_hex c then Some 4 else None)"
  "text_step 4 c = (if is_hex c then Some 5 else None)"
  "text_step 5 c = (if is_hex c then Some 6 else None)"
  "text_step 6 c = (if is_hex c then Some 1 else None)"
  "text_step 17 c = (if c = CHR ''0'' then Some 18 else if is_digit19 c then Some 19 else None)"
  "text_step 18 c = (if c = CHR ''.'' then Some 20 else if is_exp c then Some 22 else None)"
  "text_step 19 c = (if c = CHR ''.'' then Some 20 else if is_exp c then Some 22
     else if is_digit c then Some 19 else None)"
  "text_step 20 c = (if is_digit c then Some 21 else None)"
  "text_step 21 c = (if is_exp c then Some 22 else if is_digit c then Some 21 else None)"
  "text_step 22 c = (if c = CHR ''-'' \<or> c = CHR ''+'' then Some 23
     else if is_digit c then Some 24 else None)"
  "text_step 23 c = (if is_digit c then Some 24 else None)"
  "text_step 24 c = (if is_digit c then Some 24 else None)"
  by (simp_all add: text_step_def)

fun text_run :: "nat \<Rightarrow> string \<Rightarrow> nat option" where
  "text_run q [] = Some q"
| "text_run q (c # cs) = Option.bind (text_step q c) (\<lambda>q. text_run q cs)"

lemma text_run_append:
  "text_run q (u @ v) = Option.bind (text_run q u) (\<lambda>q. text_run q v)"
  by (induction u arbitrary: q) (auto split: bind_split)

abbreviation number_end_states :: "nat set" where
  "number_end_states \<equiv> {18, 19, 21, 24}"

lemma string_body_run: "NUL \<notin> set u \<Longrightarrow> string_body u \<longleftrightarrow> text_run 1 u = Some 1"
proof (induction u rule: string_body.induct)
  case (2 c cs)
  show ?case
  proof (cases "c = BACKSLASH")
    case False
    with 2 show ?thesis by (auto simp: text_step_simps)
  next
    case True
    show ?thesis
    proof (cases cs)
      case (Cons e es)
      with True 2 show ?thesis
        by (cases "is_escape e"; cases "e = CHR ''u''") (auto simp: text_step_simps split: list.split)
    qed (simp add: True text_step_simps)
  qed
qed simp

lemma hex_escape_no_NUL [simp]: "\<not> is_hex NUL" "\<not> is_escape NUL"
  by (simp_all add: char_simps)

lemma string_body_no_NUL: "string_body u \<Longrightarrow> NUL \<notin> set u"
proof (induction u rule: string_body.induct)
  case (2 c cs)
  show ?case
  proof (cases "c = BACKSLASH")
    case False
    with 2 show ?thesis by (auto split: if_splits)
  next
    case True
    with "2.prems" obtain e es where cs: "cs = e # es"
      by (cases cs) auto
    show ?thesis
    proof (cases "is_escape e")
      case True
      with 2 \<open>c = BACKSLASH\<close> cs show ?thesis by auto
    next
      case False
      with "2.prems" \<open>c = BACKSLASH\<close> cs obtain h1 h2 h3 h4 r where r: "e = CHR ''u''"
        "es = h1 # h2 # h3 # h4 # r" "is_hex h1" "is_hex h2" "is_hex h3" "is_hex h4" "string_body r"
        by (auto split: if_splits list.splits)
      moreover have "NUL \<notin> set r"
        using "2.IH"(2) [OF True cs False r(1)] r by simp
      ultimately show ?thesis
        using True cs by auto
    qed
  qed
qed simp

subsection \<open>Numbers\<close>

definition accepts_number :: "nat \<Rightarrow> string \<Rightarrow> bool" where
  "accepts_number q w \<longleftrightarrow> (\<exists>p \<in> number_end_states. text_run q w = Some p)"

lemma accepts_number_Nil: "accepts_number q [] \<longleftrightarrow> q \<in> number_end_states"
  by (simp add: accepts_number_def)

lemma accepts_number_Cons:
  "accepts_number q (c # w) \<longleftrightarrow> (\<exists>p. text_step q c = Some p \<and> accepts_number p w)"
  by (auto simp: accepts_number_def bind_eq_Some_conv)

lemmas accepts_simps = accepts_number_Nil accepts_number_Cons text_step_simps

lemma digits_simps [simp]: "digits []" "digits (c # w) \<longleftrightarrow> is_digit c \<and> digits w"
  by (simp_all add: digits_def)

lemma accepts_24: "accepts_number 24 w \<longleftrightarrow> digits w"
  by (induction w) (simp_all add: accepts_simps)

lemma accepts_23: "accepts_number 23 w \<longleftrightarrow> w \<noteq> [] \<and> digits w"
  by (cases w) (simp_all add: accepts_simps accepts_24)

lemma sign_no_digit [simp]: "\<not> is_digit (CHR ''-'')" "\<not> is_digit (CHR ''+'')"
    "\<not> is_exp (CHR ''.'')" "\<not> is_digit (CHR ''.'')" "\<not> is_digit19 (CHR ''0'')"
    "\<not> is_digit19 (CHR ''-'')"
  by (simp_all add: char_simps)

lemma exp_no_digit: "is_exp c \<Longrightarrow> \<not> is_digit c" "is_exp c \<Longrightarrow> c \<noteq> CHR ''.''"
  by (auto simp: char_simps)

text \<open>Concatenation of two languages.\<close>

definition seq :: "(string \<Rightarrow> bool) \<Rightarrow> (string \<Rightarrow> bool) \<Rightarrow> string \<Rightarrow> bool" where
  "seq P Q w \<longleftrightarrow> (\<exists>u v. w = u @ v \<and> P u \<and> Q v)"

lemma seq_simps [simp]:
  "seq P Q [] \<longleftrightarrow> P [] \<and> Q []"
  "seq P Q (c # w) \<longleftrightarrow> P [] \<and> Q (c # w) \<or> seq (\<lambda>u. P (c # u)) Q w"
  "seq (\<lambda>u. b \<and> R u) Q w \<longleftrightarrow> b \<and> seq R Q w"
  "seq (\<lambda>u. R u \<or> S u) Q w \<longleftrightarrow> seq R Q w \<or> seq S Q w"
  "seq (\<lambda>u. u = []) Q w \<longleftrightarrow> Q w"
  "\<not> seq (\<lambda>u. False) Q w"
  by (auto simp: seq_def Cons_eq_append_conv)

definition digits1 :: "string \<Rightarrow> bool" where
  "digits1 w \<longleftrightarrow> w \<noteq> [] \<and> digits w"

lemma digits1_simps [simp]: "\<not> digits1 []" "digits1 (c # w) \<longleftrightarrow> is_digit c \<and> digits w"
  by (simp_all add: digits1_def)

definition is_sign :: "string \<Rightarrow> bool" where
  "is_sign w \<longleftrightarrow> w \<in> {[], ''+'', ''-''}"

lemma is_sign_simps [simp]: "is_sign []" "is_sign (c # w) \<longleftrightarrow> (c = CHR ''+'' \<or> c = CHR ''-'') \<and> w = []"
  by (auto simp: is_sign_def)

lemma accepts_22: "accepts_number 22 w \<longleftrightarrow> seq is_sign digits1 w"
  by (cases w) (auto simp: accepts_simps accepts_23 accepts_24 digits1_def)

lemma is_exp_part_simps [simp]:
  "is_exp_part []" "is_exp_part (c # w) \<longleftrightarrow> is_exp c \<and> accepts_number 22 w"
  by (auto simp: is_exp_part_def accepts_22 seq_def is_sign_def digits1_def)

lemma is_frac_part_simps [simp]:
  "is_frac_part []" "is_frac_part (c # w) \<longleftrightarrow> c = CHR ''.'' \<and> digits1 w"
  by (auto simp: is_frac_part_def digits1_def)

lemma is_int_part_simps [simp]:
  "\<not> is_int_part []"
  "is_int_part (c # w) \<longleftrightarrow> c = CHR ''0'' \<and> w = [] \<or> is_digit19 c \<and> digits w"
  by (auto simp: is_int_part_def)

lemma accepts_21: "accepts_number 21 w \<longleftrightarrow> seq digits is_exp_part w"
  by (induction w) (auto simp: accepts_simps dest: exp_no_digit)

lemma accepts_20: "accepts_number 20 w \<longleftrightarrow> seq digits1 is_exp_part w"
  by (cases w) (auto simp: accepts_simps accepts_21)

text \<open>A fraction and an exponent, both optional.\<close>

definition is_number_tail :: "string \<Rightarrow> bool" where
  "is_number_tail = seq is_frac_part is_exp_part"

lemma is_number_tail_simps [simp]:
  "is_number_tail []"
  "is_number_tail (c # w) \<longleftrightarrow>
     is_exp c \<and> accepts_number 22 w \<or> c = CHR ''.'' \<and> accepts_number 20 w"
  by (simp_all add: is_number_tail_def accepts_20)

lemma accepts_18: "accepts_number 18 w \<longleftrightarrow> is_number_tail w"
  by (cases w) (auto simp: accepts_simps)

lemma accepts_19: "accepts_number 19 w \<longleftrightarrow> seq digits is_number_tail w"
  by (induction w) (auto simp: accepts_simps dest: exp_no_digit)

lemma accepts_17: "accepts_number 17 w \<longleftrightarrow> seq is_int_part is_number_tail w"
  by (cases w) (auto simp: accepts_simps accepts_18 accepts_19)

lemma accepts_0: "accepts_number 0 w \<longleftrightarrow>
    accepts_number 17 w \<or> (\<exists>v. w = CHR ''-'' # v \<and> accepts_number 17 v)"
  by (cases w) (auto simp: accepts_simps)

text \<open>The automaton decides the grammar of numbers.\<close>

lemma number_run: "accepts_number 0 w \<longleftrightarrow> is_number w"
proof -
  have "is_number w \<longleftrightarrow> seq (\<lambda>s. s = [] \<or> s = ''-'') (accepts_number 17) w"
    unfolding is_number_def seq_def accepts_17 is_number_tail_def by blast
  also have "\<dots> \<longleftrightarrow> accepts_number 0 w"
    by (cases w) (auto simp: accepts_0 accepts_17)
  finally show ?thesis ..
qed

section \<open>The invariant of a suspended lexer\<close>

definition text_inv :: "nat \<Rightarrow> string \<Rightarrow> bool" where
  "text_inv q w \<longleftrightarrow> q \<in> {1..6} \<and> text_run 1 w = Some q \<or> q \<in> {17..24} \<and> text_run 0 w = Some q"

lemma text_inv_start [simp, intro]: "text_inv (Suc 0) []"
  by (simp add: text_inv_def)

lemma text_step_range:
  "text_step q c = Some q' \<Longrightarrow>
   (q \<in> {1..6} \<longrightarrow> q' \<in> {1..6}) \<and> (q = 0 \<or> q \<in> {17..24} \<longrightarrow> q' \<in> {17..24})"
  by (auto simp: text_step_def split: if_splits)

lemma text_inv_step:
  "text_inv q w \<Longrightarrow> text_step q c = Some q' \<Longrightarrow> text_inv q' (w @ [c])"
  using text_step_range [of q c q'] by (auto simp: text_inv_def text_run_append)

lemma text_inv_number: "text_step 0 c = Some q \<Longrightarrow> text_inv q [c]"
  using text_step_range [of 0 c q] by (auto simp: text_inv_def)

definition lex_inv :: "lexer_st \<Rightarrow> bool" where
  "lex_inv s \<longleftrightarrow> lx_state s = 0 \<or> lx_state s \<in> {7..16} \<or> lx_state s \<in> {60..63} \<or>
     (\<exists>w. rcs_holds (lx_text s) w \<and> text_inv (lx_state s) w)"

text \<open>What holds where a call returns \<open>v\<close> in the middle of the buffer.\<close>

definition token_ok :: "lex_value \<Rightarrow> lexer_st \<Rightarrow> bool" where
  "token_ok v s \<longleftrightarrow> v \<noteq> LEX_MORE \<and> v \<noteq> LEX_ERROR \<and> (is_token v \<longrightarrow> lx_state s = 0) \<and>
     (v = LEX_STRING \<longrightarrow> (\<exists>w. rcs_holds (lx_text s) w \<and> string_body w)) \<and>
     (v = LEX_NUMBER \<longrightarrow> (\<exists>w. rcs_holds (lx_text s) w \<and> is_number w)) \<and>
     (v = LEX_MEMORY \<longrightarrow> \<not> generous (lx_mem s))"

definition outcome_ok :: "lexer_st \<Rightarrow> lex_outcome \<Rightarrow> bool" where
  "outcome_ok s out =
     (case out of
        Lexing s' \<Rightarrow> lex_inv s' \<and> grants (lx_mem s') = grants (lx_mem s)
      | Token v s' \<Rightarrow> token_ok v s' \<and> grants (lx_mem s') = grants (lx_mem s))"

lemma outcome_ok_simps [simp]:
  "outcome_ok s (Lexing s') \<longleftrightarrow> lex_inv s' \<and> grants (lx_mem s') = grants (lx_mem s)"
  "outcome_ok s (Token v s') \<longleftrightarrow> token_ok v s' \<and> grants (lx_mem s') = grants (lx_mem s)"
  by (simp_all add: outcome_ok_def)

lemma outcome_ok_grants:
  "grants (lx_mem s) = grants (lx_mem s') \<Longrightarrow> outcome_ok s out = outcome_ok s' out"
  by (simp add: outcome_ok_def split: lex_outcome.split)

lemma token_ok_plain:
  "v \<notin> {LEX_MORE, LEX_ERROR, LEX_STRING, LEX_NUMBER, LEX_MEMORY} \<Longrightarrow>
   (is_token v \<Longrightarrow> lx_state s = 0) \<Longrightarrow> token_ok v s"
  by (auto simp: token_ok_def)

lemma token_ok_invalid [simp]: "token_ok LEX_INVALID_CHARACTER s"
  by (rule token_ok_plain) (simp_all add: is_token_def)

lemma lex_catc_step:
  assumes "rcs_holds (lx_text s) w" and "c \<noteq> NUL"
    and "\<And>t m. rcs_holds t (w @ [c]) \<Longrightarrow> grants m = grants (lx_mem s) \<Longrightarrow>
      \<exists>out. k (s\<lparr>lx_text := t, lx_mem := m\<rparr>) = Some out \<and> outcome_ok s out"
  shows "\<exists>out. lex_catc c k s = Some out \<and> outcome_ok s out"
  using assms(1)
  by (cases rule: rcs_catc_spec [where c = c and m = "lx_mem s"])
    (use assms(2,3) in \<open>auto simp: lex_catc_def c_string_id token_ok_def is_token_def generous_def\<close>)

lemma lex_create_step:
  assumes "\<And>t m. rcs_holds t [] \<Longrightarrow> grants m = grants (lx_mem s) \<Longrightarrow>
      \<exists>out. k (s\<lparr>lx_text := t, lx_mem := m\<rparr>) = Some out \<and> outcome_ok s out"
  shows "\<exists>out. lex_create k s = Some out \<and> outcome_ok s out"
  by (cases rule: rcs_create_spec [of 5 "lx_mem s"])
    (use assms in \<open>auto simp: lex_create_def Let_def token_ok_def is_token_def generous_def\<close>)

text \<open>The common shape of the states that collect a text.\<close>

lemma lex_collect:
  assumes "rcs_holds (lx_text s) w" and "text_inv (lx_state s) w" and "c \<noteq> NUL"
    and "text_step (lx_state s) c = Some q"
  shows "\<exists>out. lex_catc c (lex_goto q cs) s = Some out \<and> outcome_ok s out"
  by (rule lex_catc_step [OF assms(1,3)])
    (use text_inv_step [OF assms(2,4)] in \<open>auto simp: lex_goto_def lex_inv_def\<close>)

lemma lex_collect_same:
  assumes "rcs_holds (lx_text s) w" and "text_inv (lx_state s) w" and "c \<noteq> NUL"
    and "text_step (lx_state s) c = Some (lx_state s)"
  shows "\<exists>out. lex_catc c (\<lambda>s. Some (Lexing (s\<lparr>lx_p := Some cs\<rparr>))) s = Some out \<and> outcome_ok s out"
  by (rule lex_catc_step [OF assms(1,3)])
    (use text_inv_step [OF assms(2,4)] in \<open>auto simp: lex_inv_def\<close>)

lemma lex_number_end_ok:
  assumes "rcs_holds (lx_text s) w" and "text_inv (lx_state s) w" and "lx_state s \<in> number_end_states"
  shows "\<exists>out. lex_number_end c cs s = Some out \<and> outcome_ok s out"
proof -
  have "is_number w"
    using assms(2,3) number_run [of w] by (auto simp: text_inv_def accepts_number_def)
  with assms(1) show ?thesis
    by (auto simp: lex_number_end_def token_ok_def is_token_def)
qed

lemma ends_number_no_text:
  "text_step q c = Some p \<Longrightarrow> q \<in> number_end_states \<Longrightarrow> \<not> ends_number c"
  by (auto simp: text_step_def char_simps split: if_splits)

lemma rcs_holds_not_null: "rcs_holds t w \<Longrightarrow> t \<noteq> RcsNull"
  by auto

lemma lex_string_ok:
  assumes "rcs_holds (lx_text s) w" and "text_inv 1 w" and "lx_state s = 1" and "c \<noteq> NUL"
  shows "\<exists>out. lex_string c cs s = Some out \<and> outcome_ok s out"
proof -
  have "string_body w"
    using assms(1,2) rcs_holds_no_NUL string_body_run by (auto simp: text_inv_def)
  then have "token_ok LEX_STRING (s\<lparr>lx_state := 0, lx_p := Some cs\<rparr>)"
    using assms(1) by (auto simp: token_ok_def is_token_def)
  then show ?thesis
    using assms rcs_holds_not_null [OF assms(1)] lex_collect [OF assms(1), of c 2 cs]
      lex_collect_same [OF assms(1), of c cs]
    by (auto simp: lex_string_def lex_assert_text_def text_step_simps)
qed

lemma lex_unicode2_ok:
  assumes "rcs_holds (lx_text s) w" and "text_inv 4 w" and "lx_state s = 4" and "c \<noteq> NUL"
  shows "\<exists>out. lex_unicode2 c cs s = Some out \<and> outcome_ok s out"
proof -
  have "\<exists>out. lex_unicode3 (peek cs) (tl cs) (s\<lparr>lx_text := t, lx_mem := m, lx_state := 5,
      lx_p := Some cs\<rparr>) = Some out \<and> outcome_ok s out"
    if h: "is_hex c" "rcs_holds t (w @ [c])" "grants m = grants (lx_mem s)" for t m
  proof (cases "is_hex (peek cs)")
    case False
    then show ?thesis
      using h(3) rcs_holds_not_null [OF h(2)] by (auto simp: lex_unicode3_def lex_assert_text_def)
  next
    case True
    let ?s = "s\<lparr>lx_text := t, lx_mem := m, lx_state := 5, lx_p := Some cs\<rparr>"
    have "text_inv 5 (w @ [c])"
      using text_inv_step [OF assms(2), of c 5] h(1) by (simp add: text_step_simps)
    moreover have "peek cs \<noteq> NUL"
      using True by auto
    ultimately have "\<exists>out. lex_catc (peek cs) (lex_goto 6 (tl cs)) ?s = Some out \<and> outcome_ok ?s out"
      using lex_collect [of ?s "w @ [c]" "peek cs" 6 "tl cs"] h True by (simp add: text_step_simps)
    moreover have "outcome_ok ?s out = outcome_ok s out" for out
      using h(3) by (intro outcome_ok_grants) simp
    ultimately show ?thesis
      using True rcs_holds_not_null [OF h(2)] by (simp add: lex_unicode3_def lex_assert_text_def)
  qed
  then show ?thesis
    using rcs_holds_not_null [OF assms(1)]
    by (auto simp: lex_unicode2_def lex_assert_text_def Let_def intro!: lex_catc_step [OF assms(1,4)])
qed

lemma lex_step_text:
  assumes "rcs_holds (lx_text s) w" and "text_inv (lx_state s) w" and "c \<noteq> NUL"
  shows "\<exists>out. lex_step c cs s = Some out \<and> outcome_ok s out"
proof -
  note [simp] = rcs_holds_not_null [OF assms(1)] lex_step_def lex_assert_text_def text_step_simps
  note collect = lex_collect [OF assms] lex_collect_same [OF assms] lex_number_end_ok [OF assms(1,2)]
  consider "lx_state s = 1" | "lx_state s = 2" | "lx_state s = 3" | "lx_state s = 4"
    | "lx_state s = 5" | "lx_state s = 6" | "lx_state s = 17" | "lx_state s = 18"
    | "lx_state s = 19" | "lx_state s = 20" | "lx_state s = 21" | "lx_state s = 22"
    | "lx_state s = 23" | "lx_state s = 24"
    using assms(2) by (auto simp: text_inv_def atLeastAtMost_iff le_Suc_eq numeral_eq_Suc)
  then show ?thesis
  proof cases
    case 1
    then show ?thesis using lex_string_ok [OF assms(1) _ 1 assms(3), of cs] assms(2) by simp
  next
    case 2
    then show ?thesis using collect(1) [of 1 cs] collect(1) [of 3 cs] by (auto simp: lex_escape_def)
  next
    case 3
    then show ?thesis using collect(1) [of 4 cs] by (auto simp: lex_unicode1_def)
  next
    case 4
    then show ?thesis using lex_unicode2_ok [OF assms(1) _ 4 assms(3), of cs] assms(2) by simp
  next
    case 5
    then show ?thesis using collect(1) [of 6 cs] by (auto simp: lex_unicode3_def)
  next
    case 6
    then show ?thesis using collect(1) [of 1 cs] by (auto simp: lex_unicode4_def)
  next
    case 7
    then show ?thesis using collect(1) [of 18 cs] collect(1) [of 19 cs] by (auto simp: lex_minus_def)
  next
    case 8
    then show ?thesis
      using collect(1) [of 20 cs] collect(1) [of 22 cs] collect(3) [of c cs]
      by (auto simp: lex_zero_def)
  next
    case 9
    then show ?thesis
      using collect(1) [of 20 cs] collect(1) [of 22 cs] collect(2) [of cs] collect(3) [of c cs]
      by (auto simp: lex_int_def)
  next
    case 10
    then show ?thesis using collect(1) [of 21 cs] by (auto simp: lex_frac_start_def)
  next
    case 11
    then show ?thesis
      using collect(1) [of 22 cs] collect(2) [of cs] collect(3) [of c cs] by (auto simp: lex_frac_def)
  next
    case 12
    then show ?thesis using collect(1) [of 23 cs] collect(1) [of 24 cs] by (auto simp: lex_exp_start_def)
  next
    case 13
    then show ?thesis using collect(1) [of 24 cs] by (auto simp: lex_exp_sign_def)
  next
    case 14
    then show ?thesis using collect(2) [of cs] collect(3) [of c cs] by (auto simp: lex_exp_def)
  qed
qed

lemma lex_root_ok:
  assumes "lx_state s = 0" and "c \<noteq> NUL"
  shows "\<exists>out. lex_root c cs s = Some out \<and> outcome_ok s out"
proof -
  let ?s = "s\<lparr>lx_p := Some cs\<rparr>"
  have grants: "outcome_ok ?s out = outcome_ok s out" for out
    by (rule outcome_ok_grants) simp
  have number: "\<exists>out. lex_create (lex_catc c (lex_goto q cs)) ?s = Some out \<and> outcome_ok s out"
    if h: "text_step 0 c = Some q" for q
    unfolding grants [symmetric]
  proof (rule lex_create_step)
    fix t and m :: allocator
    assume t: "rcs_holds t []" "grants m = grants (lx_mem ?s)"
    let ?s1 = "?s\<lparr>lx_text := t, lx_mem := m\<rparr>"
    have "outcome_ok ?s out = outcome_ok ?s1 out" for out
      using t(2) by (intro outcome_ok_grants) simp
    moreover have "\<exists>out. lex_catc c (lex_goto q cs) ?s1 = Some out \<and> outcome_ok ?s1 out"
      by (rule lex_catc_step [of _ "[]"])
        (use t(1) assms(2) text_inv_number [OF h] in \<open>auto simp: lex_goto_def lex_inv_def\<close>)
    ultimately show "\<exists>out. lex_catc c (lex_goto q cs) ?s1 = Some out \<and> outcome_ok ?s out"
      by simp
  qed
  have quote: "\<exists>out. lex_create (lex_goto 1 cs) ?s = Some out \<and> outcome_ok s out"
    unfolding grants [symmetric]
    by (rule lex_create_step) (auto simp: lex_goto_def lex_inv_def intro: exI [of _ "[]"])
  have word: "\<exists>out. lex_goto q cs ?s = Some out \<and> outcome_ok s out" if "q \<in> {7, 10, 14, 60}" for q
    using that by (auto simp: lex_goto_def lex_inv_def)
  have sym: "outcome_ok s (Token v ?s)" if "v \<notin> {LEX_MORE, LEX_ERROR, LEX_STRING, LEX_NUMBER, LEX_MEMORY}" for v
    using token_ok_plain [OF that] assms(1) by simp
  have start: "c = CHR ''-'' \<Longrightarrow> text_step 0 c = Some 17" "c = CHR ''0'' \<Longrightarrow> text_step 0 c = Some 18"
    "is_digit19 c \<Longrightarrow> text_step 0 c = Some 19"
    by (auto simp: text_step_simps)
  show ?thesis
    using number [OF start(1)] number [OF start(2)] number [OF start(3)] quote word sym assms(1)
    by (cases "c = CHR ''-''"; cases "c = CHR ''0''") (simp_all add: lex_root_def lex_inv_def Let_def)
qed

lemma lex_word_ok:
  assumes "lx_state s \<in> {7..16}"
  shows "\<exists>out. lex_literal (lx_state s) c cs s = Some out \<and> outcome_ok s out"
proof -
  have expect: "\<exists>out. lex_expect e k c cs s = Some out \<and> outcome_ok s out"
    if "\<exists>out. k (s\<lparr>lx_p := Some cs\<rparr>) = Some out \<and> outcome_ok s out" for e k
    using that by (simp add: lex_expect_def Let_def)
  have goto: "\<exists>out. lex_goto q cs (s\<lparr>lx_p := Some cs\<rparr>) = Some out \<and> outcome_ok s out"
    if "q \<in> {7..16}" for q
    using that by (simp add: lex_goto_def lex_inv_def)
  have stop: "\<exists>out. lex_word_end v (s\<lparr>lx_p := Some cs\<rparr>) = Some out \<and> outcome_ok s out"
    if "v \<in> {LEX_TRUE, LEX_FALSE, LEX_NULL}" for v
    using that by (auto simp: lex_word_end_def intro!: token_ok_plain)
  show ?thesis
    unfolding lex_literal_def by (auto intro!: expect goto stop)
qed

lemma lex_comment_ok:
  assumes "lx_state s \<in> {60..63}"
  shows "\<exists>out. lex_comment (lx_state s) c cs s = Some out \<and> outcome_ok s out"
  by (simp add: lex_comment_def lex_goto_def lex_inv_def)

text \<open>A turn of the loop never fails, whatever the allocator does, and keeps the invariant.\<close>

lemma lex_step_ok:
  assumes "lex_inv s" and "c \<noteq> NUL"
  shows "\<exists>out. lex_step c cs s = Some out \<and> outcome_ok s out"
proof -
  consider "lx_state s = 0" | "lx_state s \<in> {7..16}" | "lx_state s \<in> {60..63}"
    | w where "rcs_holds (lx_text s) w" "text_inv (lx_state s) w"
    using assms(1) by (auto simp: lex_inv_def)
  then show ?thesis
  proof cases
    case 1
    then show ?thesis using lex_root_ok [OF 1 assms(2)] by (simp add: lex_step_def)
  next
    case 2
    then have "lex_step c cs s = lex_literal (lx_state s) c cs s"
      by (simp add: lex_step_def Let_def)
    then show ?thesis using lex_word_ok [OF 2] by simp
  next
    case 3
    then have "lex_step c cs s = lex_comment (lx_state s) c cs s"
      by (simp add: lex_step_def Let_def)
    then show ?thesis using lex_comment_ok [OF 3] by simp
  next
    case 4
    then show ?thesis using lex_step_text assms(2) by blast
  qed
qed

text \<open>Neither does a whole call; it returns, and a suspended lexer can be resumed.\<close>

definition call_ok :: "lexer_st \<Rightarrow> lex_value \<Rightarrow> lexer_st \<Rightarrow> bool" where
  "call_ok s v s' \<longleftrightarrow> grants (lx_mem s') = grants (lx_mem s) \<and>
     (if v = LEX_MORE then lex_inv s' \<and> lx_p s' = None else token_ok v s')"

lemma lexer_loop_ok:
  assumes "lex_inv s" and "lx_p s = Some cs"
  shows "\<exists>v s'. lexer_loop s = Some (v, s') \<and> call_ok s v s'"
  using assms
proof (induction s arbitrary: cs rule: lexer_loop.induct)
  case (1 s)
  show ?case
  proof (cases "peek cs = NUL")
    case True
    with "1.prems" show ?thesis
      by (simp add: lexer_loop.simps [of s] call_ok_def lex_inv_def)
  next
    case False
    then obtain c rest where cs: "cs = c # rest" "c \<noteq> NUL"
      by (cases cs) auto
    obtain out where out: "lex_step c rest s = Some out" "outcome_ok s out"
      using lex_step_ok [OF "1.prems"(1) cs(2)] by blast
    show ?thesis
    proof (cases out)
      case (Token v s')
      with out "1.prems" cs show ?thesis
        by (auto simp: lexer_loop_Cons call_ok_def token_ok_def)
    next
      case (Lexing s1)
      obtain cs1 where "lx_p s1 = Some cs1"
        using lex_step_advances out(1) Lexing by blast
      moreover have "lex_inv s1" "grants (lx_mem s1) = grants (lx_mem s)"
        using out(2) Lexing by simp_all
      ultimately obtain v s' where "lexer_loop s1 = Some (v, s')" "call_ok s1 v s'"
        using "1.IH" [OF "1.prems"(2) False, of out s1 cs1] out cs Lexing by auto
      then show ?thesis
        using out "1.prems" cs Lexing \<open>grants (lx_mem s1) = grants (lx_mem s)\<close>
        by (auto simp: lexer_loop_Cons call_ok_def)
    qed
  qed
qed

section \<open>Reading a token\<close>

text \<open>A lexer at work: pointer, state, the text collected so far, enough memory.\<close>

definition lexing :: "lexer_st \<Rightarrow> nat \<Rightarrow> string \<Rightarrow> string \<Rightarrow> bool" where
  "lexing s q w cs \<longleftrightarrow> lx_state s = q \<and> lx_p s = Some cs \<and> rcs_holds (lx_text s) w \<and> generous (lx_mem s)"

lemma rcs_catc_generous:
  assumes "rcs_holds p w" and "generous m" and "c \<noteq> NUL"
  obtains t m' where "rcs_catc p c m = Some (RS_OK, t, m')" "rcs_holds t (w @ [c])" "generous m'"
  using assms that
  by (cases rule: rcs_catc_spec [where c = c and m = m])
    (auto simp: c_string_id generous_def)

lemma lex_catc_lexing:
  assumes "lexing s q w cs" and "c \<noteq> NUL"
  obtains s' where "\<And>k. lex_catc c k s = k s'" "lexing s' q (w @ [c]) cs"
    "\<And>n. lx_state s' = n \<Longrightarrow> s'\<lparr>lx_state := n\<rparr> = s'"
proof -
  obtain t m' where "rcs_catc (lx_text s) c (lx_mem s) = Some (RS_OK, t, m')"
    "rcs_holds t (w @ [c])" "generous m'"
    using assms rcs_catc_generous by (metis lexing_def)
  then show ?thesis
    using assms(1)
    by (intro that [of "s\<lparr>lx_text := t, lx_mem := m'\<rparr>"]) (auto simp: lex_catc_def lexing_def)
qed

lemma lex_step_lexing:
  assumes s: "lexing s q w (c # cs)" and "c \<noteq> NUL" and "text_step q c = Some q'"
    and q: "q \<noteq> 0" "q \<noteq> 4"
  obtains s' where "lex_step c cs s = Some (Lexing s')" "lexing s' q' (w @ [c]) cs"
proof -
  obtain s1 where s1: "\<And>k. lex_catc c k s = k s1" "lexing s1 q (w @ [c]) (c # cs)"
    "\<And>n. lx_state s1 = n \<Longrightarrow> s1\<lparr>lx_state := n\<rparr> = s1"
    using lex_catc_lexing [OF s assms(2)] by blast
  let ?s' = "s1\<lparr>lx_state := q', lx_p := Some cs\<rparr>"
  have t: "lx_text s \<noteq> RcsNull" "lx_state s = q"
    using s by (auto simp: lexing_def)
  have same: "q' = q \<Longrightarrow> s1\<lparr>lx_p := Some cs\<rparr> = ?s'"
    using s1(2) by (simp add: lexing_def)
  have no_end: "q \<in> number_end_states \<Longrightarrow> \<not> ends_number c"
    using ends_number_no_text assms(3) by blast
  have "q \<in> {1, 2, 3, 5, 6, 17, 18, 19, 20, 21, 22, 23, 24}"
    using assms(3) q by (auto simp: text_step_def split: if_splits)
  then have "lex_step c cs s = Some (Lexing ?s')"
    using assms(3) t same no_end s1(1)
    by (elim insertE emptyE)
      (auto simp: lex_step_def lex_state_defs lex_assert_text_def lex_goto_def text_step_simps
        split: if_splits)
  moreover have "lexing ?s' q' (w @ [c]) cs"
    using s1(2) by (simp add: lexing_def)
  ultimately show ?thesis
    using that by blast
qed

lemma lex_step_lexing4:
  assumes s: "lexing s 4 w (c # d # cs)" and "is_hex c" and "is_hex d"
  obtains s' where "lex_step c (d # cs) s = Some (Lexing s')" "lexing s' 6 (w @ [c, d]) cs"
proof -
  have "c \<noteq> NUL" "d \<noteq> NUL"
    using assms(2,3) by auto
  obtain s1 where s1: "\<And>k. lex_catc c k s = k s1" "lexing s1 4 (w @ [c]) (c # d # cs)"
    using lex_catc_lexing [OF s \<open>c \<noteq> NUL\<close>] by metis
  let ?s1 = "s1\<lparr>lx_state := 5, lx_p := Some (d # cs)\<rparr>"
  have "lexing ?s1 5 (w @ [c]) (d # cs)"
    using s1(2) by (simp add: lexing_def)
  then obtain s2 where s2: "\<And>k. lex_catc d k ?s1 = k s2" "lexing s2 5 ((w @ [c]) @ [d]) (d # cs)"
    using lex_catc_lexing \<open>d \<noteq> NUL\<close> by metis
  have t: "lx_text s \<noteq> RcsNull" "lx_text s1 \<noteq> RcsNull" "lx_state s = 4"
    using s s1(2) by (auto simp: lexing_def)
  have "lex_step c (d # cs) s = Some (Lexing (s2\<lparr>lx_state := 6, lx_p := Some cs\<rparr>))"
    using t assms(2,3) s2(1)
    by (simp add: lex_step_def lex_unicode2_def lex_unicode3_def lex_assert_text_def s1(1) lex_goto_def Let_def)
  moreover have "lexing (s2\<lparr>lx_state := 6, lx_p := Some cs\<rparr>) 6 (w @ [c, d]) cs"
    using s2(2) by (simp add: lexing_def)
  ultimately show ?thesis
    using that by blast
qed

text \<open>
  The automaton's run is the lexer's.  It may not end in state 5: there the lexer looks one
  character ahead.
\<close>

lemma lexer_loop_run:
  assumes "text_run q u = Some q'" and "lexing s q w (u @ cs)" and "NUL \<notin> set u"
    and "q \<noteq> 0" and "q' \<noteq> 5"
  shows "\<exists>s'. lexer_loop s = lexer_loop s' \<and> lexing s' q' (w @ u) cs"
  using assms
proof (induction u arbitrary: q s w rule: length_induct)
  case (1 u)
  show ?case
  proof (cases u)
    case Nil
    with "1.prems" show ?thesis by auto
  next
    case (Cons c v)
    have c: "c \<noteq> NUL" "NUL \<notin> set v"
      using "1.prems"(3) Cons by auto
    obtain q1 where q1: "text_step q c = Some q1" "text_run q1 v = Some q'"
      using "1.prems"(1) Cons by (auto simp: bind_eq_Some_conv)
    have p: "lx_p s = Some (c # v @ cs)"
      using "1.prems"(2) Cons by (simp add: lexing_def)
    show ?thesis
    proof (cases "q = 4")
      case False
      obtain s1 where s1: "lex_step c (v @ cs) s = Some (Lexing s1)" "lexing s1 q1 (w @ [c]) (v @ cs)"
        using lex_step_lexing [of s q w c "v @ cs" q1] "1.prems"(2,4) Cons False c(1) q1(1) by auto
      have "q1 \<noteq> 0"
        using q1(1) by (auto simp: text_step_def split: if_splits)
      then obtain s' where "lexer_loop s1 = lexer_loop s'" "lexing s' q' ((w @ [c]) @ v) cs"
        using "1.IH" [rule_format, of v, OF _ q1(2) s1(2) c(2) _ "1.prems"(5)] Cons by auto
      then show ?thesis
        using lexer_loop_Cons [OF p c(1)] s1(1) Cons by auto
    next
      case True
      then have hex: "is_hex c" "q1 = 5"
        using q1(1) by (auto simp: text_step_simps split: if_splits)
      then obtain d v' where v: "v = d # v'"
        using q1(2) "1.prems"(5) by (cases v) auto
      then have d: "is_hex d" "text_run 6 v' = Some q'"
        using q1(2) hex(2) by (auto simp: text_step_simps split: if_splits)
      have s4: "lexing s 4 w (c # d # v' @ cs)"
        using "1.prems"(2) Cons v True by simp
      obtain s1 where s1: "lex_step c (d # v' @ cs) s = Some (Lexing s1)"
        "lexing s1 6 (w @ [c, d]) (v' @ cs)"
        using lex_step_lexing4 [OF s4 hex(1) d(1)] by blast
      obtain s' where "lexer_loop s1 = lexer_loop s'" "lexing s' q' ((w @ [c, d]) @ v') cs"
        using "1.IH" [rule_format, of v', OF _ d(2) s1(2) _ _ "1.prems"(5)] Cons v c(2) by auto
      then show ?thesis
        using lexer_loop_Cons [OF p c(1)] s1(1) Cons v by auto
    qed
  qed
qed

text \<open>A lexer between two tokens.\<close>

definition lex_idle :: "lexer_st \<Rightarrow> string \<Rightarrow> bool" where
  "lex_idle s cs \<longleftrightarrow> lx_state s = 0 \<and> lx_p s = Some cs \<and> generous (lx_mem s)"

lemma lexing_idle: "lexing s q w cs \<Longrightarrow> lex_idle (s\<lparr>lx_state := 0, lx_p := Some cs'\<rparr>) cs'"
  by (simp add: lexing_def lex_idle_def)

lemma lex_create_generous:
  assumes "generous (lx_mem s)"
  obtains s' where "\<And>k. lex_create k s = k s'" "rcs_holds (lx_text s') []" "generous (lx_mem s')"
    "lx_state s' = lx_state s" "lx_p s' = lx_p s"
proof (cases rule: rcs_create_spec [of 5 "lx_mem s"])
  case (ok p m)
  then have "p \<noteq> RcsNull"
    by auto
  with ok assms show ?thesis
    by (intro that [of "s\<lparr>lx_text := p, lx_mem := m\<rparr>"]) (auto simp: lex_create_def generous_def)
next
  case (oom m)
  with assms show ?thesis by blast
qed

lemma lexer_string_token:
  assumes idle: "lex_idle s (QUOTE # u @ QUOTE # rest)" and u: "string_body u"
  obtains s' where "lexer_loop s = Some (LEX_STRING, s')" "lex_idle s' rest" "rcs_holds (lx_text s') u"
proof -
  let ?cs = "u @ QUOTE # rest"
  have s: "lx_state s = 0" "lx_p s = Some (QUOTE # ?cs)" "generous (lx_mem (s\<lparr>lx_p := Some ?cs\<rparr>))"
    using idle by (auto simp: lex_idle_def)
  obtain s1 where s1: "\<And>k. lex_create k (s\<lparr>lx_p := Some ?cs\<rparr>) = k s1" "rcs_holds (lx_text s1) []"
    "generous (lx_mem s1)"
    using lex_create_generous [OF s(3)] by metis
  let ?s1 = "s1\<lparr>lx_state := 1, lx_p := Some ?cs\<rparr>"
  have "lex_step QUOTE ?cs s = Some (Lexing ?s1)"
    using s(1) s1(1) by (simp add: lex_step_def lex_root_def Let_def is_ws_def lex_goto_def)
  then have "lexer_loop s = lexer_loop ?s1"
    using lexer_loop_Cons [OF s(2)] by simp
  moreover obtain s2 where s2: "lexer_loop ?s1 = lexer_loop s2" "lexing s2 1 u (QUOTE # rest)"
    using lexer_loop_run [of 1 u 1 ?s1 "[]" "QUOTE # rest"] s1 u string_body_no_NUL [OF u]
    by (auto simp: lexing_def string_body_run)
  moreover have "lexer_loop s2 = Some (LEX_STRING, s2\<lparr>lx_state := 0, lx_p := Some rest\<rparr>)"
    using s2(2) rcs_holds_not_null
    by (subst lexer_loop_Cons [of _ QUOTE rest])
      (auto simp: lexing_def lex_step_def lex_string_def lex_assert_text_def)
  ultimately show ?thesis
    using that lexing_idle [OF s2(2)] s2(2) by (auto simp: lexing_def)
qed

lemma number_run_no_NUL:
  assumes "text_run q u = Some p" and "q = 0 \<or> q \<in> {17..24}"
  shows "NUL \<notin> set u"
  using assms
proof (induction u arbitrary: q)
  case (Cons c u)
  then obtain r where r: "text_step q c = Some r" "text_run r u = Some p"
    by (auto simp: bind_eq_Some_conv)
  have "NUL \<notin> set u"
    by (rule Cons.IH [OF r(2)]) (use text_step_range [OF r(1)] Cons.prems(2) in auto)
  moreover have "text_step q NUL = None"
    using Cons.prems(2) by (auto simp: text_step_def char_simps)
  then have "c \<noteq> NUL"
    using r(1) by auto
  ultimately show ?case by simp
qed simp

text \<open>A number is read up to the character that ends it; white space there is consumed.\<close>

lemma lexer_number_token:
  assumes idle: "lex_idle s (u @ c # rest)" and u: "is_number u" and c: "ends_number c"
  obtains s' where "lexer_loop s = Some (LEX_NUMBER, s')"
    "lex_idle s' (if is_ws c then rest else c # rest)" "rcs_holds (lx_text s') u"
proof -
  obtain q where q: "text_run 0 u = Some q" "q \<in> number_end_states"
    using u number_run [of u] by (auto simp: accepts_number_def)
  then obtain d v where v: "u = d # v"
    by (cases u) auto
  let ?cs = "v @ c # rest"
  obtain q1 where q1: "text_step 0 d = Some q1" "text_run q1 v = Some q"
    using q(1) v by (auto simp: bind_eq_Some_conv)
  have no_NUL: "NUL \<notin> set v" "d \<noteq> NUL"
    using number_run_no_NUL [OF q(1)] v by auto
  have s: "lx_state s = 0" "lx_p s = Some (d # ?cs)" "generous (lx_mem (s\<lparr>lx_p := Some ?cs\<rparr>))"
    using idle v by (auto simp: lex_idle_def)
  obtain s1 where s1: "\<And>k. lex_create k (s\<lparr>lx_p := Some ?cs\<rparr>) = k s1" "rcs_holds (lx_text s1) []"
    "generous (lx_mem s1)" "lx_state s1 = lx_state (s\<lparr>lx_p := Some ?cs\<rparr>)"
    "lx_p s1 = lx_p (s\<lparr>lx_p := Some ?cs\<rparr>)"
    using lex_create_generous [OF s(3)] by metis
  then have "lexing s1 0 [] ?cs"
    using s(1) by (simp add: lexing_def)
  then obtain s2 where s2: "\<And>k. lex_catc d k s1 = k s2" "lexing s2 0 [d] ?cs"
    using lex_catc_lexing no_NUL(2) by (metis append_Nil)
  let ?s2 = "s2\<lparr>lx_state := q1, lx_p := Some ?cs\<rparr>"
  have "lex_step d ?cs s = Some (Lexing ?s2)"
    using s(1) s1(1) s2(1) q1(1)
    by (auto simp: lex_step_def lex_root_def Let_def text_step_simps lex_goto_def is_ws_def
        is_digit19_def split: if_splits)
  then have "lexer_loop s = lexer_loop ?s2"
    using lexer_loop_Cons [OF s(2) no_NUL(2)] by simp
  moreover obtain s3 where s3: "lexer_loop ?s2 = lexer_loop s3" "lexing s3 q u (c # rest)"
    using lexer_loop_run [of q1 v q ?s2 "[d]" "c # rest"] q1 q(2) s2(2) v no_NUL(1)
      text_step_range [OF q1(1)] by (auto simp: lexing_def)
  moreover have "lexer_loop s3 = Some (LEX_NUMBER, s3\<lparr>lx_state := 0,
      lx_p := Some (if is_ws c then rest else c # rest)\<rparr>)"
  proof -
    have "c \<noteq> NUL"
      using c by (auto simp: char_simps)
    moreover have "lex_step c rest s3 = Some (Token LEX_NUMBER (s3\<lparr>lx_state := 0,
      lx_p := Some (if is_ws c then rest else c # rest)\<rparr>))"
      using q(2) s3(2) c rcs_holds_not_null
      by (cases s3) (auto simp: lexing_def lex_step_def lex_zero_def lex_int_def lex_frac_def lex_exp_def
          lex_assert_text_def lex_number_end_def)
    ultimately show ?thesis
      using s3(2) by (simp add: lexer_loop_Cons lexing_def)
  qed
  ultimately show ?thesis
    using that lexing_idle [OF s3(2)] s3(2) by (auto simp: lexing_def)
qed

text \<open>White space between tokens is skipped.\<close>

lemma lexer_gap:
  assumes "lex_idle s (g @ cs)" and "list_all is_ws g"
  obtains s' where "lexer_loop s = lexer_loop s'" "lex_idle s' cs"
  using assms
proof (induction g arbitrary: s thesis)
  case Nil
  then show ?case by auto
next
  case (Cons c g)
  let ?s = "s\<lparr>lx_p := Some (g @ cs)\<rparr>"
  have "c \<noteq> NUL" "is_ws c"
    using Cons.prems(3) by (auto simp: is_ws_def)
  then have "lexer_loop s = lexer_loop ?s"
    using Cons.prems(2) lexer_loop_Cons [of s c "g @ cs"]
    by (simp add: lex_idle_def lex_step_def lex_root_def)
  moreover have "lex_idle ?s (g @ cs)"
    using Cons.prems(2) by (simp add: lex_idle_def)
  ultimately show ?case
    using Cons.IH [of ?s] Cons.prems(1,3) by auto
qed

section \<open>Spelling\<close>

text \<open>The text of a token; \<open>x\<close> is the text the parser gets with strings and numbers.\<close>

definition spells :: "lex_value \<Rightarrow> string \<Rightarrow> string \<Rightarrow> bool" where
  "spells v x w =
     (case v of
        LEX_STRING \<Rightarrow> string_body x \<and> w = QUOTE # x @ [QUOTE]
      | LEX_NUMBER \<Rightarrow> is_number x \<and> w = x
      | LEX_TRUE \<Rightarrow> w = ''true''
      | LEX_FALSE \<Rightarrow> w = ''false''
      | LEX_NULL \<Rightarrow> w = ''null''
      | LEX_BEGIN_OBJECT \<Rightarrow> w = ''{''
      | LEX_END_OBJECT \<Rightarrow> w = ''}''
      | LEX_BEGIN_ARRAY \<Rightarrow> w = ''[''
      | LEX_END_ARRAY \<Rightarrow> w = '']''
      | LEX_NAME_SEPARATOR \<Rightarrow> w = '':''
      | LEX_VALUE_SEPARATOR \<Rightarrow> w = '',''
      | _ \<Rightarrow> False)"

lemma lexer_plain_token:
  assumes idle: "lex_idle s (w @ rest)" and w: "spells v x w" and v: "v \<notin> {LEX_STRING, LEX_NUMBER}"
  obtains s' where "lexer_loop s = Some (v, s')" "lex_idle s' rest"
proof -
  have s: "lx_state s = 0" "lx_p s = Some (w @ rest)"
    using idle by (auto simp: lex_idle_def)
  have "lexer_loop s = Some (v, s\<lparr>lx_state := 0, lx_p := Some rest\<rparr>)"
    using w v s
    by (cases v) (simp_all add: spells_def lexer_loop_Cons lex_step_def lex_root_def is_ws_def
        is_digit19_def lex_goto_def lex_literal_def lex_expect_def lex_word_end_def Let_def)
  moreover have "lex_idle (s\<lparr>lx_state := 0, lx_p := Some rest\<rparr>) rest"
    using idle by (simp add: lex_idle_def)
  ultimately show ?thesis
    using that by blast
qed

text \<open>
  The token behind white space is returned, and the pointer stays in front of what follows,
  up to white space.  A number must be followed by the character that ends it.
\<close>

lemma lexer_token:
  assumes idle: "lex_idle s (g @ w @ rest)" and g: "list_all is_ws g" and w: "spells v x w"
    and follow: "v = LEX_NUMBER \<Longrightarrow> rest \<noteq> [] \<and> ends_number (hd rest)"
  obtains s' h rest' where "lexer_loop s = Some (v, s')" "lex_idle s' rest'" "rest = h @ rest'"
    "list_all is_ws h" "v \<in> {LEX_STRING, LEX_NUMBER} \<Longrightarrow> rcs_holds (lx_text s') x"
proof -
  obtain s1 where s1: "lexer_loop s = lexer_loop s1" "lex_idle s1 (w @ rest)"
    using lexer_gap [OF idle g] by blast
  consider (str) "v = LEX_STRING" | (num) "v = LEX_NUMBER" | (plain) "v \<notin> {LEX_STRING, LEX_NUMBER}"
    by blast
  then show ?thesis
  proof cases
    case str
    then have w: "w = QUOTE # x @ [QUOTE]" "string_body x"
      using w by (simp_all add: spells_def)
    obtain s' where "lexer_loop s1 = Some (LEX_STRING, s')" "lex_idle s' rest" "rcs_holds (lx_text s') x"
      using lexer_string_token [of s1 x rest] s1(2) w by auto
    then show ?thesis
      using s1(1) str by (intro that [of s' rest "[]"]) simp_all
  next
    case num
    then have w: "w = x" "is_number x"
      using w by (simp_all add: spells_def)
    obtain c r where rest: "rest = c # r" "ends_number c"
      using follow [OF num] by (cases rest) auto
    obtain s' where "lexer_loop s1 = Some (LEX_NUMBER, s')" "lex_idle s' (if is_ws c then r else c # r)"
      "rcs_holds (lx_text s') x"
      using lexer_number_token [of s1 x c r] s1(2) w rest by auto
    then show ?thesis
      using s1(1) num rest
      by (intro that [of s' "if is_ws c then r else c # r" "if is_ws c then [c] else []"])
        (auto split: if_splits)
  next
    case plain
    obtain s' where "lexer_loop s1 = Some (v, s')" "lex_idle s' rest"
      using lexer_plain_token [OF s1(2) w plain] by blast
    then show ?thesis
      using s1(1) plain by (intro that [of s' rest "[]"]) simp_all
  qed
qed

section \<open>Fragments\<close>

text \<open>
  A buffer that ends inside a token or between tokens: the call on the first part returns
  \<open>LEX_MORE\<close>, and the next call on the second part does what one call on both does.
\<close>

definition extend :: "string \<Rightarrow> lexer_st \<Rightarrow> lexer_st" where
  "extend ds s = s\<lparr>lx_p := map_option (\<lambda>cs. cs @ ds) (lx_p s)\<rparr>"

lemma extend_simps [simp]:
  "lx_state (extend ds s) = lx_state s" "lx_text (extend ds s) = lx_text s"
  "lx_mem (extend ds s) = lx_mem s" "lx_p (extend ds s) = map_option (\<lambda>cs. cs @ ds) (lx_p s)"
  by (simp_all add: extend_def)

lemma extend_more [simp]: "extend ds (s\<lparr>lx_p := p\<rparr>) = s\<lparr>lx_p := map_option (\<lambda>cs. cs @ ds) p\<rparr>"
  by (simp add: extend_def)

lemma extend_text:
  "extend ds (s\<lparr>lx_text := t, lx_mem := m\<rparr>) = (extend ds s)\<lparr>lx_text := t, lx_mem := m\<rparr>"
  by (simp add: extend_def)

fun extend_outcome :: "string \<Rightarrow> lex_outcome \<Rightarrow> lex_outcome" where
  "extend_outcome ds (Lexing s) = Lexing (extend ds s)"
| "extend_outcome ds (Token v s) = Token v (extend ds s)"

fun progresses :: "lex_outcome \<Rightarrow> bool" where
  "progresses (Lexing s) = True"
| "progresses (Token v s) = is_token v"

text \<open>
  Where \<open>k\<close> goes on or finds a token, \<open>k'\<close> does the same with the longer buffer.
\<close>

definition extends :: "string \<Rightarrow> (lexer_st \<Rightarrow> lex_outcome option) \<Rightarrow>
    (lexer_st \<Rightarrow> lex_outcome option) \<Rightarrow> bool" where
  "extends ds k k' \<longleftrightarrow>
     (\<forall>s out. k s = Some out \<longrightarrow> progresses out \<longrightarrow> k' (extend ds s) = Some (extend_outcome ds out))"

lemma extendsI:
  "(\<And>s out. k s = Some out \<Longrightarrow> progresses out \<Longrightarrow> k' (extend ds s) = Some (extend_outcome ds out)) \<Longrightarrow>
   extends ds k k'"
  by (simp add: extends_def)

lemma extendsD:
  "extends ds k k' \<Longrightarrow> k s = Some out \<Longrightarrow> progresses out \<Longrightarrow>
   k' (extend ds s) = Some (extend_outcome ds out)"
  by (simp add: extends_def)

lemma extends_goto: "extends ds (lex_goto n cs) (lex_goto n (cs @ ds))"
  by (auto simp: extends_def lex_goto_def extend_def)

lemma extends_stay:
  "extends ds (\<lambda>s. Some (Lexing (s\<lparr>lx_p := Some cs\<rparr>))) (\<lambda>s. Some (Lexing (s\<lparr>lx_p := Some (cs @ ds)\<rparr>)))"
  by (auto simp: extends_def extend_def)

lemma extends_lexing: "extends ds (\<lambda>s. Some (Lexing s)) (\<lambda>s. Some (Lexing s))"
  by (auto simp: extends_def)

lemma extends_token: "extends ds (\<lambda>s. Some (Token v s)) (\<lambda>s. Some (Token v s))"
  by (auto simp: extends_def)

lemma extends_string_end:
  "extends ds (\<lambda>s. Some (Token v (s\<lparr>lx_state := 0, lx_p := Some cs\<rparr>)))
     (\<lambda>s. Some (Token v (s\<lparr>lx_state := 0, lx_p := Some (cs @ ds)\<rparr>)))"
  by (auto simp: extends_def extend_def)

lemma extends_number_end: "extends ds (lex_number_end c cs) (lex_number_end c (cs @ ds))"
  by (auto simp: extends_def lex_number_end_def Let_def extend_def)

lemma extends_word_end: "extends ds (lex_word_end v) (lex_word_end v)"
  by (auto simp: extends_def lex_word_end_def extend_def)

lemma extends_if:
  "(b \<Longrightarrow> extends ds k k') \<Longrightarrow> (\<not> b \<Longrightarrow> extends ds l l') \<Longrightarrow>
   extends ds (\<lambda>s. if b then k s else l s) (\<lambda>s. if b then k' s else l' s)"
  by (cases b) simp_all

lemma extends_move:
  assumes "extends ds k k'"
  shows "extends ds (\<lambda>s. k (s\<lparr>lx_p := Some cs\<rparr>)) (\<lambda>s. k' (s\<lparr>lx_p := Some (cs @ ds)\<rparr>))"
  by (rule extendsI, drule (1) extendsD [OF assms]) (simp add: extend_def)

lemma extends_catc:
  assumes "extends ds k k'" shows "extends ds (lex_catc c k) (lex_catc c k')"
proof (rule extendsI)
  fix s out
  assume "lex_catc c k s = Some out" "progresses out"
  then obtain code t m where cat: "rcs_catc (lx_text s) c (lx_mem s) = Some (code, t, m)" "code = RS_OK"
    "k (s\<lparr>lx_text := t, lx_mem := m\<rparr>) = Some out"
    by (auto simp: lex_catc_def bind_eq_Some_conv Let_def is_token_def split: if_splits)
  then show "lex_catc c k' (extend ds s) = Some (extend_outcome ds out)"
    using extendsD [OF assms cat(3) \<open>progresses out\<close>] by (simp add: lex_catc_def extend_text)
qed

lemma extends_create:
  assumes "extends ds k k'" shows "extends ds (lex_create k) (lex_create k')"
proof (rule extendsI)
  fix s out
  assume "lex_create k s = Some out" "progresses out"
  then obtain t m where new: "rcs_create 5 (lx_mem s) = (t, m)" "t \<noteq> RcsNull"
    "k (s\<lparr>lx_text := t, lx_mem := m\<rparr>) = Some out"
    by (auto simp: lex_create_def Let_def is_token_def split: if_splits prod.splits)
  then show "lex_create k' (extend ds s) = Some (extend_outcome ds out)"
    using extendsD [OF assms new(3) \<open>progresses out\<close>] by (simp add: lex_create_def extend_text)
qed

lemma extends_assert:
  assumes "extends ds k k'" shows "extends ds (lex_assert_text k) (lex_assert_text k')"
  by (rule extendsI)
    (auto simp: lex_assert_text_def split: if_splits dest: extendsD [OF assms])

lemmas extends_intros = extends_goto extends_stay extends_lexing extends_token extends_string_end
  extends_number_end extends_word_end extends_if extends_catc extends_create extends_assert

lemma extends_expect:
  assumes "extends ds k k'" shows "extends ds (lex_expect e k c cs) (lex_expect e k' c (cs @ ds))"
  unfolding lex_expect_def Let_def
  by (rule extends_move [of ds "\<lambda>s. if c = e then k s else Some (Token LEX_INVALID_CHARACTER s)"
        "\<lambda>s. if c = e then k' s else Some (Token LEX_INVALID_CHARACTER s)"])
    (intro extends_intros assms)

lemma extends_root: "extends ds (lex_root c cs) (lex_root c (cs @ ds))"
  unfolding lex_root_def Let_def
  by (rule extends_move [where k = "\<lambda>s. if is_ws c then Some (Lexing s)
      else if c = CHR ''{'' then Some (Token LEX_BEGIN_OBJECT s)
      else if c = CHR ''}'' then Some (Token LEX_END_OBJECT s)
      else if c = CHR ''['' then Some (Token LEX_BEGIN_ARRAY s)
      else if c = CHR '']'' then Some (Token LEX_END_ARRAY s)
      else if c = CHR '':'' then Some (Token LEX_NAME_SEPARATOR s)
      else if c = CHR '','' then Some (Token LEX_VALUE_SEPARATOR s)
      else if c = QUOTE then lex_create (lex_goto 1 cs) s
      else if c = CHR ''t'' then lex_goto 7 cs s
      else if c = CHR ''f'' then lex_goto 10 cs s
      else if c = CHR ''n'' then lex_goto 14 cs s
      else if c = CHR ''-'' then lex_create (lex_catc (CHR ''-'') (lex_goto 17 cs)) s
      else if c = CHR ''0'' then lex_create (lex_catc (CHR ''0'') (lex_goto 18 cs)) s
      else if is_digit19 c then lex_create (lex_catc c (lex_goto 19 cs)) s
      else if c = CHR ''/'' then lex_goto 60 cs s
      else Some (Token LEX_INVALID_CHARACTER s)"]) (intro extends_intros)

lemma extends_states:
  "extends ds (lex_string c cs) (lex_string c (cs @ ds))"
  "extends ds (lex_escape c cs) (lex_escape c (cs @ ds))"
  "extends ds (lex_unicode1 c cs) (lex_unicode1 c (cs @ ds))"
  "extends ds (lex_unicode3 c cs) (lex_unicode3 c (cs @ ds))"
  "extends ds (lex_unicode4 c cs) (lex_unicode4 c (cs @ ds))"
  "extends ds (lex_minus c cs) (lex_minus c (cs @ ds))"
  "extends ds (lex_zero c cs) (lex_zero c (cs @ ds))"
  "extends ds (lex_int c cs) (lex_int c (cs @ ds))"
  "extends ds (lex_frac_start c cs) (lex_frac_start c (cs @ ds))"
  "extends ds (lex_frac c cs) (lex_frac c (cs @ ds))"
  "extends ds (lex_exp_start c cs) (lex_exp_start c (cs @ ds))"
  "extends ds (lex_exp_sign c cs) (lex_exp_sign c (cs @ ds))"
  "extends ds (lex_exp c cs) (lex_exp c (cs @ ds))"
  unfolding lex_state_defs by (intro extends_intros)+

lemma extends_if_fun:
  "extends ds k k' \<Longrightarrow> extends ds l l' \<Longrightarrow> extends ds (if b then k else l) (if b then k' else l')"
  by simp

lemma extends_literal: "extends ds (lex_literal q c cs) (lex_literal q c (cs @ ds))"
  unfolding lex_literal_def
  by (intro extends_if_fun extends_expect extends_goto extends_word_end)

lemma extends_comment: "extends ds (lex_comment q c cs) (lex_comment q c (cs @ ds))"
  unfolding lex_comment_def by (intro extends_intros)

text \<open>State 4 looks at the next character, so it goes on only where there is one.\<close>

lemma extends_unicode2: "extends ds (lex_unicode2 c cs) (lex_unicode2 c (cs @ ds))"
proof -
  have look: "extends ds
      (\<lambda>s. lex_unicode3 (peek cs) (tl cs) (s\<lparr>lx_state := 5, lx_p := Some cs\<rparr>))
      (\<lambda>s. lex_unicode3 (peek (cs @ ds)) (tl (cs @ ds)) (s\<lparr>lx_state := 5, lx_p := Some (cs @ ds)\<rparr>))"
  proof (cases cs)
    case Nil
    then show ?thesis
      by (auto simp: extends_def lex_unicode3_def lex_assert_text_def is_token_def split: if_splits)
  next
    case (Cons d r)
    show ?thesis
      by (rule extendsI, drule (1) extendsD [OF extends_states(4) [of ds "peek cs" "tl cs"]])
        (simp add: Cons extend_def)
  qed
  show ?thesis
    unfolding lex_unicode2_def Let_def
    by (intro extends_assert extends_if extends_catc look extends_token)
qed

lemma lex_step_extend:
  assumes "lex_step c cs s = Some out" and "progresses out"
  shows "lex_step c (cs @ ds) (extend ds s) = Some (extend_outcome ds out)"
proof -
  note all = extends_states extends_literal extends_comment extends_root extends_unicode2
  show ?thesis
    using assms
    by (auto simp add: lex_step_def Let_def all [THEN extendsD] is_token_def split: if_splits)
qed

lemma lex_step_suffix:
  assumes "lex_step c cs s = Some (Lexing s')" and "lx_p s = Some (c # cs)"
  shows "lx_p s' = Some cs \<or> lx_p s' = Some (tl cs)"
  using assms
  by (auto simp: lex_step_def lex_state_defs lex_idiom_defs bind_eq_Some_conv
      split: if_splits prod.splits)

lemma lex_step_not_more:
  assumes "lex_step c cs s = Some (Token v s')"
  shows "v \<noteq> LEX_MORE"
  using assms
  by (auto simp: lex_step_def lex_state_defs lex_idiom_defs bind_eq_Some_conv
      split: if_splits prod.splits)

lemma lexer_loop_fragment:
  assumes "lexer_loop s = Some (v, s')" and "v = LEX_MORE \<or> is_token v" and "lx_p s = Some es"
    and "NUL \<notin> set es"
  shows "lexer_loop (extend ds s) =
    (if v = LEX_MORE then lexer_loop (s'\<lparr>lx_p := Some ds\<rparr>) else Some (v, extend ds s'))"
  using assms
proof (induction arbitrary: es rule: lexer_loop_induct)
  case (more s)
  then have "es = []"
    by (cases es) auto
  with more show ?case
    by (simp add: extend_def)
next
  case (token s c cs v s')
  then have "is_token v" "v \<noteq> LEX_MORE"
    using lex_step_not_more by blast+
  with token show ?case
    using lexer_loop_Cons [of "extend ds s" c "cs @ ds"] lex_step_extend [OF token(3), of ds] by simp
next
  case (turn s c cs s1 v s')
  have "lx_p s1 = Some cs \<or> lx_p s1 = Some (tl cs)"
    using lex_step_suffix turn.hyps(1,3) by blast
  then obtain cs1 where cs1: "lx_p s1 = Some cs1" "set cs1 \<subseteq> set cs"
    by (cases cs) auto
  have "lexer_loop (extend ds s) = lexer_loop (extend ds s1)"
    using lexer_loop_Cons [of "extend ds s" c "cs @ ds"] lex_step_extend [OF turn.hyps(3), of ds]
      turn.hyps(1,2) by simp
  also have "\<dots> = (if v = LEX_MORE then lexer_loop (s'\<lparr>lx_p := Some ds\<rparr>) else Some (v, extend ds s'))"
    by (rule turn.IH [OF turn.prems(1) cs1(1)]) (use cs1(2) turn.prems(2,3) turn.hyps(1) in auto)
  finally show ?case .
qed

lemma lexer_loop_remainder:
  assumes "lexer_loop s = Some (v, s')" and "is_token v" and "lx_p s = Some es"
  shows "\<exists>es'. lx_p s' = Some es' \<and> set es' \<subseteq> set es"
  using assms
proof (induction arbitrary: es rule: lexer_loop_induct)
  case more
  then show ?case by (simp add: is_token_def)
next
  case token
  then show ?case
    using lex_step_token by fastforce
next
  case (turn s c cs s1 v s')
  have "lx_p s1 = Some cs \<or> lx_p s1 = Some (tl cs)"
    using lex_step_suffix turn.hyps(1,3) by blast
  then obtain cs1 where "lx_p s1 = Some cs1" "set cs1 \<subseteq> set cs"
    by (cases cs) auto
  with turn.IH [of cs1] turn.prems turn.hyps(1) show ?case by fastforce
qed

lemma lexer_loop_more:
  assumes "lexer_loop s = Some (v, s')"
  shows "v = LEX_MORE \<Longrightarrow> lx_p s' = None"
  using assms
proof (induction rule: lexer_loop_induct)
  case token
  then show ?case
    using lex_step_not_more by blast
qed auto

section \<open>Comments\<close>

text \<open>A run of the lexer inside a comment, up to the character that ends it.\<close>

lemma lexer_comment_body:
  assumes "lx_state s = q" and "lx_p s = Some (u @ cs)" and "q \<in> {61, 62}"
    and "\<And>c. c \<in> set u \<Longrightarrow> c \<noteq> NUL \<and>
      (if q = 61 then c \<noteq> CHR 0x0A \<and> c \<noteq> CHR 0x0D else c \<noteq> CHR ''*'')"
  shows "lexer_loop s = lexer_loop (s\<lparr>lx_p := Some cs\<rparr>)"
  using assms
proof (induction u arbitrary: s)
  case Nil
  then have "s\<lparr>lx_p := Some cs\<rparr> = s"
    by (cases s) simp
  then show ?case by simp
next
  case (Cons c u)
  let ?s = "s\<lparr>lx_state := q, lx_p := Some (u @ cs)\<rparr>"
  have "lex_step c (u @ cs) s = Some (Lexing ?s)"
    using Cons.prems by (auto simp: lex_step_def lex_comment_def lex_goto_def)
  then have "lexer_loop s = lexer_loop ?s"
    using Cons.prems(2,4) lexer_loop_Cons [of s c "u @ cs"] by simp
  also have "\<dots> = lexer_loop (?s\<lparr>lx_p := Some cs\<rparr>)"
    by (rule Cons.IH) (use Cons.prems in auto)
  also have "?s\<lparr>lx_p := Some cs\<rparr> = s\<lparr>lx_p := Some cs\<rparr>"
    using Cons.prems(1) by (cases s) simp
  finally show ?case .
qed

lemma lexer_block_comment:
  assumes idle: "lex_idle s (''/*'' @ u @ ''*/'' @ cs)" and u: "NUL \<notin> set u" "CHR ''*'' \<notin> set u"
  obtains s' where "lexer_loop s = lexer_loop s'" "lex_idle s' cs"
proof -
  have s: "lx_state s = 0" "lx_p s = Some (CHR ''/'' # CHR ''*'' # u @ CHR ''*'' # CHR ''/'' # cs)"
    using idle by (auto simp: lex_idle_def)
  let ?s1 = "s\<lparr>lx_state := 62, lx_p := Some (u @ CHR ''*'' # CHR ''/'' # cs)\<rparr>"
  have "lexer_loop s = lexer_loop ?s1"
    using s by (simp add: lexer_loop_Cons lex_step_def lex_root_def lex_comment_def lex_goto_def is_ws_def
        is_digit19_def Let_def)
  also have "\<dots> = lexer_loop (?s1\<lparr>lx_p := Some (CHR ''*'' # CHR ''/'' # cs)\<rparr>)"
    by (rule lexer_comment_body [of _ 62 u]) (use u in \<open>auto dest: gr_implies_not0\<close>)
  also have "\<dots> = lexer_loop (s\<lparr>lx_state := 0, lx_p := Some cs\<rparr>)"
    by (simp add: lexer_loop_Cons lex_step_def lex_comment_def lex_goto_def Let_def)
  finally show ?thesis
    using that idle by (simp add: lex_idle_def)
qed

lemma lexer_line_comment:
  assumes idle: "lex_idle s (''//'' @ u @ e # cs)" and e: "e = CHR 0x0A \<or> e = CHR 0x0D"
    and u: "NUL \<notin> set u" "CHR 0x0A \<notin> set u" "CHR 0x0D \<notin> set u"
  obtains s' where "lexer_loop s = lexer_loop s'" "lex_idle s' cs"
proof -
  have s: "lx_state s = 0" "lx_p s = Some (CHR ''/'' # CHR ''/'' # u @ e # cs)"
    using idle by (auto simp: lex_idle_def)
  let ?s1 = "s\<lparr>lx_state := 61, lx_p := Some (u @ e # cs)\<rparr>"
  have "lexer_loop s = lexer_loop ?s1"
    using s by (simp add: lexer_loop_Cons lex_step_def lex_root_def lex_comment_def lex_goto_def is_ws_def
        is_digit19_def Let_def)
  also have "\<dots> = lexer_loop (?s1\<lparr>lx_p := Some (e # cs)\<rparr>)"
    by (rule lexer_comment_body [of _ 61 u]) (use u in auto)
  also have "\<dots> = lexer_loop (s\<lparr>lx_state := 0, lx_p := Some cs\<rparr>)"
    using e by (auto simp: lexer_loop_Cons lex_step_def lex_comment_def lex_goto_def Let_def)
  finally show ?thesis
    using that idle by (simp add: lex_idle_def)
qed

section \<open>What goes wrong\<close>

text \<open>
  The missing \<open>break\<close> of state 4: an escape \<open>\u00e9\<close> that is cut after its second digit is
  refused, in one piece it is accepted (\<open>lexer_string_token\<close>).
\<close>

lemma lexer_split_escape:
  "map_option fst (lexer (QUOTE # BACKSLASH # ''u00'')
     \<lparr>lx_p = None, lx_state = 0, lx_text = RcsNull, lx_mem = plenty\<rparr>) = Some LEX_INVALID_CHARACTER"
  by code_simp

text \<open>A comment that ends in two stars is not ended: the second star is taken for content.\<close>

lemma lexer_star_comment:
  "map_option fst (lexer ''/***/1,'' \<lparr>lx_p = None, lx_state = 0, lx_text = RcsNull, lx_mem = plenty\<rparr>) =
     Some LEX_MORE"
  by code_simp

end
