(* ===== verification/JsonHeap.thy ===== *)
theory JsonHeap
  imports JsonTree "HOL-Library.Multiset"
begin

text \<open>
  What a linked document of \<open>JsonTree\<close> means: a finite tree whose nodes carry the address
  they are stored at, the heap cells such a tree occupies, and trees with a marked subtree.
  The operations of \<open>JsonTree\<close> are then described by what they do to the tree.
\<close>

section \<open>Trees with addresses\<close>

datatype jtree = JNode (jt_addr: nat) (jt_type: json_value_type) (jt_text: "string option")
  (jt_kids: "jtree list")

abbreviation jt_ptr :: "jtree \<Rightarrow> ptr" where
  "jt_ptr t \<equiv> Ptr (jt_addr t)"

text \<open>The first and the last of a list of siblings, \<open>d\<close> when there is none.\<close>

definition head_ptr :: "jtree list \<Rightarrow> ptr \<Rightarrow> ptr" where
  "head_ptr ts d = (case ts of [] \<Rightarrow> d | t # _ \<Rightarrow> jt_ptr t)"

definition last_ptr :: "jtree list \<Rightarrow> ptr \<Rightarrow> ptr" where
  "last_ptr ts d = (if ts = [] then d else jt_ptr (last ts))"

lemma head_ptr_simps [simp]:
  "head_ptr [] d = d" "head_ptr (t # ts) d = jt_ptr t"
  "head_ptr (ts @ us) d = head_ptr ts (head_ptr us d)"
  by (auto simp: head_ptr_def split: list.splits)

lemma last_ptr_simps [simp]:
  "last_ptr [] d = d" "last_ptr (t # ts) d = last_ptr ts (jt_ptr t)"
  "last_ptr (ts @ us) d = last_ptr us (last_ptr ts d)"
  by (auto simp: last_ptr_def)

lemma head_ptr_nonempty: "ts \<noteq> [] \<Longrightarrow> head_ptr ts d = head_ptr ts e"
  by (cases ts) auto

lemma end_ptr_NULL [simp]:
  "head_ptr ts NULL = NULL \<longleftrightarrow> ts = []" "last_ptr ts NULL = NULL \<longleftrightarrow> ts = []"
  by (auto simp: head_ptr_def last_ptr_def split: list.splits)

lemma end_ptr_not_NULL [simp]: "head_ptr ts (Ptr a) \<noteq> NULL" "last_ptr ts (Ptr a) \<noteq> NULL"
  by (auto simp: head_ptr_def last_ptr_def split: list.splits)

fun tree_addrs :: "jtree \<Rightarrow> nat list" where
  "tree_addrs (JNode a ty s ts) = a # concat (map tree_addrs ts)"

abbreviation forest_addrs :: "jtree list \<Rightarrow> nat list" where
  "forest_addrs ts \<equiv> concat (map tree_addrs ts)"

lemma jt_addr_in [simp]: "jt_addr t \<in> set (tree_addrs t)"
  by (cases t) simp

fun tree_size :: "jtree \<Rightarrow> nat" where
  "tree_size (JNode a ty s ts) = Suc (sum_list (map tree_size ts))"

abbreviation forest_size :: "jtree list \<Rightarrow> nat" where
  "forest_size ts \<equiv> sum_list (map tree_size ts)"

lemma tree_size_pos [simp]: "0 < tree_size t"
  by (cases t) simp

lemma length_tree_addrs: "length (tree_addrs t) = tree_size t"
  by (induction t rule: tree_addrs.induct)
    (simp add: length_concat comp_def, metis (no_types, lifting) map_eq_conv)

section \<open>The cells of a tree\<close>

definition cell :: "ptr \<Rightarrow> ptr \<Rightarrow> ptr \<Rightarrow> json_value_type \<Rightarrow> string option \<Rightarrow> ptr \<Rightarrow> ptr \<Rightarrow> json_value" where
  "cell par prev next ty s f l = \<lparr>jv_type = ty, jv_text = s, jv_next = next,
     jv_previous = prev, jv_parent = par, jv_child = f, jv_child_end = l\<rparr>"

lemma cell_simps [simp]:
  "jv_type (cell par prev next ty s f l) = ty" "jv_text (cell par prev next ty s f l) = s"
  "jv_next (cell par prev next ty s f l) = next" "jv_previous (cell par prev next ty s f l) = prev"
  "jv_parent (cell par prev next ty s f l) = par" "jv_child (cell par prev next ty s f l) = f"
  "jv_child_end (cell par prev next ty s f l) = l"
  by (simp_all add: cell_def)

lemma cell_update [simp]:
  "jv_text_update (\<lambda>_. s') (cell par prev next ty s f l) = cell par prev next ty s' f l"
  "jv_next_update (\<lambda>_. p) (cell par prev next ty s f l) = cell par prev p ty s f l"
  "jv_previous_update (\<lambda>_. p) (cell par prev next ty s f l) = cell par p next ty s f l"
  "jv_parent_update (\<lambda>_. p) (cell par prev next ty s f l) = cell p prev next ty s f l"
  "jv_child_update (\<lambda>_. p) (cell par prev next ty s f l) = cell par prev next ty s p l"
  "jv_child_end_update (\<lambda>_. p) (cell par prev next ty s f l) = cell par prev next ty s f p"
  by (simp_all add: cell_def)

lemma blank_value_cell: "blank_value ty s = cell NULL NULL NULL ty s NULL NULL"
  by (simp add: blank_value_def cell_def)

text \<open>
  \<open>tree_cells par prev next t\<close>: address and content of each node of \<open>t\<close>, whose root has the
  given parent and siblings; \<open>forest_cells\<close> the same for a list of siblings, \<open>prev\<close> and
  \<open>next\<close> being the neighbours at its two ends.
\<close>

fun tree_cells :: "ptr \<Rightarrow> ptr \<Rightarrow> ptr \<Rightarrow> jtree \<Rightarrow> (nat \<times> json_value) list"
and forest_cells :: "ptr \<Rightarrow> ptr \<Rightarrow> ptr \<Rightarrow> jtree list \<Rightarrow> (nat \<times> json_value) list" where
  "tree_cells par prev next (JNode a ty s ts) =
     (a, cell par prev next ty s (head_ptr ts NULL) (last_ptr ts NULL)) #
     forest_cells (Ptr a) NULL NULL ts"
| "forest_cells par prev next [] = []"
| "forest_cells par prev next (t # ts) =
     tree_cells par prev (head_ptr ts next) t @ forest_cells par (jt_ptr t) next ts"

lemma forest_cells_append [simp]:
  "forest_cells par prev next (ts @ us) =
     forest_cells par prev (head_ptr us next) ts @ forest_cells par (last_ptr ts prev) next us"
  by (induction ts arbitrary: prev) simp_all

lemma cells_addrs [simp]:
  "map fst (tree_cells par prev next t) = tree_addrs t"
  "map fst (forest_cells par prev next ts) = forest_addrs ts"
  by (induction par prev "next" t and par prev "next" ts rule: tree_cells_forest_cells.induct) simp_all

lemma cells_addrs_set [simp]:
  "fst ` set (tree_cells par prev next t) = set (tree_addrs t)"
  "fst ` set (forest_cells par prev next ts) = set (forest_addrs ts)"
  using cells_addrs by (metis set_map)+

definition heap_has :: "(nat \<Rightarrow> json_value option) \<Rightarrow> (nat \<times> json_value) list \<Rightarrow> bool" where
  "heap_has h cs \<longleftrightarrow> (\<forall>(a, v) \<in> set cs. h a = Some v)"

lemma heap_has_simps [simp]:
  "heap_has h []" "heap_has h ((a, v) # cs) \<longleftrightarrow> h a = Some v \<and> heap_has h cs"
  "heap_has h (cs @ ds) \<longleftrightarrow> heap_has h cs \<and> heap_has h ds"
  by (auto simp: heap_has_def)

lemma heap_has_cong:
  "heap_has h cs \<Longrightarrow> (\<And>a. a \<in> fst ` set cs \<Longrightarrow> h' a = h a) \<Longrightarrow> heap_has h' cs"
  by (force simp: heap_has_def)

lemma heap_has_update [simp]:
  "a \<notin> fst ` set cs \<Longrightarrow> heap_has (h(a := v)) cs = heap_has h cs"
  by (rule iffI; erule heap_has_cong; auto)

lemma heap_has_set: "set cs = set ds \<Longrightarrow> heap_has h cs = heap_has h ds"
  by (simp add: heap_has_def)

text \<open>
  The heap holds the tree \<open>t\<close>, with the given neighbours of its root, at distinct addresses.
\<close>

definition holds_tree :: "(nat \<Rightarrow> json_value option) \<Rightarrow> ptr \<Rightarrow> ptr \<Rightarrow> ptr \<Rightarrow> jtree \<Rightarrow> bool" where
  "holds_tree h par prev next t \<longleftrightarrow>
     distinct (tree_addrs t) \<and> heap_has h (tree_cells par prev next t)"

text \<open>A whole document: the root has no parent and no siblings.\<close>

definition holds_doc :: "(nat \<Rightarrow> json_value option) \<Rightarrow> jtree \<Rightarrow> bool" where
  "holds_doc h t \<longleftrightarrow> holds_tree h NULL NULL NULL t"

lemma holds_tree_live:
  assumes "holds_tree h par prev next t" and "a \<in> set (tree_addrs t)"
  shows "h a \<noteq> None"
proof -
  have "a \<in> fst ` set (tree_cells par prev next t)"
    using assms(2) by simp
  then obtain v where "(a, v) \<in> set (tree_cells par prev next t)"
    by force
  with assms(1) show ?thesis
    by (auto simp: holds_tree_def heap_has_def)
qed

section \<open>A tree with a marked subtree\<close>

text \<open>
  The nodes above the subtree, innermost first, each with its children left and right of the
  path.
\<close>

datatype frame = Frame nat json_value_type "string option" "jtree list" "jtree list"

fun plug :: "jtree \<Rightarrow> frame list \<Rightarrow> jtree" where
  "plug t [] = t"
| "plug t (Frame a ty s ls rs # fs) = plug (JNode a ty s (ls @ t # rs)) fs"

text \<open>The neighbours of the subtree.\<close>

fun hole_parent :: "frame list \<Rightarrow> ptr" where
  "hole_parent [] = NULL"
| "hole_parent (Frame a ty s ls rs # fs) = Ptr a"

fun hole_previous :: "frame list \<Rightarrow> ptr" where
  "hole_previous [] = NULL"
| "hole_previous (Frame a ty s ls rs # fs) = last_ptr ls NULL"

fun hole_next :: "frame list \<Rightarrow> ptr" where
  "hole_next [] = NULL"
| "hole_next (Frame a ty s ls rs # fs) = head_ptr rs NULL"

text \<open>The cells outside the subtree, which is at \<open>p\<close>.\<close>

fun frame_cells :: "ptr \<Rightarrow> frame list \<Rightarrow> (nat \<times> json_value) list" where
  "frame_cells p [] = []"
| "frame_cells p (Frame a ty s ls rs # fs) =
     (a, cell (hole_parent fs) (hole_previous fs) (hole_next fs) ty s (head_ptr ls p) (last_ptr rs p)) #
     forest_cells (Ptr a) NULL p ls @ forest_cells (Ptr a) p NULL rs @ frame_cells (Ptr a) fs"

fun frame_addrs :: "frame list \<Rightarrow> nat list" where
  "frame_addrs [] = []"
| "frame_addrs (Frame a ty s ls rs # fs) =
     a # forest_addrs ls @ forest_addrs rs @ frame_addrs fs"

lemma frame_cells_addrs [simp]: "map fst (frame_cells p fs) = frame_addrs fs"
  by (induction p fs rule: frame_cells.induct) simp_all

lemma frame_cells_addrs_set [simp]: "fst ` set (frame_cells p fs) = set (frame_addrs fs)"
  by (metis frame_cells_addrs set_map)

lemma plug_cells:
  "set (tree_cells NULL NULL NULL (plug t fs)) =
     set (tree_cells (hole_parent fs) (hole_previous fs) (hole_next fs) t) \<union>
     set (frame_cells (jt_ptr t) fs)"
  by (induction t fs rule: plug.induct) auto

lemma plug_addrs: "mset (tree_addrs (plug t fs)) = mset (tree_addrs t) + mset (frame_addrs fs)"
  by (induction t fs rule: plug.induct) auto

lemma holds_doc_plug:
  "holds_doc h (plug t fs) \<longleftrightarrow>
     distinct (tree_addrs t) \<and> distinct (frame_addrs fs) \<and>
     set (tree_addrs t) \<inter> set (frame_addrs fs) = {} \<and>
     heap_has h (tree_cells (hole_parent fs) (hole_previous fs) (hole_next fs) t) \<and>
     heap_has h (frame_cells (jt_ptr t) fs)"
proof -
  have "distinct (tree_addrs (plug t fs)) = distinct (tree_addrs t @ frame_addrs fs)"
    using plug_addrs [of t fs] by (metis mset_append mset_eq_imp_distinct_iff)
  moreover have "heap_has h (tree_cells NULL NULL NULL (plug t fs)) =
      heap_has h (tree_cells (hole_parent fs) (hole_previous fs) (hole_next fs) t @
        frame_cells (jt_ptr t) fs)"
    by (rule heap_has_set) (simp add: plug_cells)
  ultimately show ?thesis
    by (auto simp: holds_doc_def holds_tree_def)
qed

lemma holds_doc_hole:
  "holds_doc h (plug (JNode a ty s ts) fs) \<Longrightarrow>
   h a = Some (cell (hole_parent fs) (hole_previous fs) (hole_next fs) ty s
     (head_ptr ts NULL) (last_ptr ts NULL))"
  by (simp add: holds_doc_plug)

lemma holds_doc_root:
  "holds_doc h (JNode a ty s ts) \<Longrightarrow>
   h a = Some (cell NULL NULL NULL ty s (head_ptr ts NULL) (last_ptr ts NULL))"
  by (simp add: holds_doc_def holds_tree_def)

section \<open>Insertion\<close>

text \<open>What the structure check reads of the tree to insert.\<close>

definition may_hold :: "json_value_type \<Rightarrow> jtree \<Rightarrow> bool" where
  "may_hold ty t =
     (case ty of
        JSON_OBJECT \<Rightarrow> jt_type t = JSON_STRING
      | JSON_ARRAY \<Rightarrow> jt_type t \<in> {JSON_OBJECT, JSON_ARRAY} \<or> jt_kids t = []
      | JSON_STRING \<Rightarrow> jt_type t \<in> {JSON_OBJECT, JSON_ARRAY} \<or> jt_kids t = []
      | _ \<Rightarrow> False)"

lemma may_insert_cell:
  "may_insert (cell p1 p2 p3 ty s f l) (cell q1 q2 q3 (jt_type t) s' (head_ptr (jt_kids t) NULL) l') =
   may_hold ty t"
  by (simp add: may_insert_def may_hold_def split: json_value_type.split)

lemma modify_Ptr:
  "nodes st a = Some v \<Longrightarrow> modify (Ptr a) f st = Some (st\<lparr>nodes := (nodes st)(a \<mapsto> f v)\<rparr>)"
  by (simp add: modify_def)

lemma fetch_Ptr [simp]: "fetch (Ptr a) st = nodes st a" "fetch NULL st = None"
  by (simp_all add: fetch_def)

text \<open>
  The last child of a node is a node of the tree: appending to the children changes the
  \<open>next\<close> field of that node only.
\<close>

lemma forest_cells_snoc_next:
  assumes "ts \<noteq> []" and "heap_has h (forest_cells par prev next ts)"
    and "distinct (forest_addrs ts)"
  obtains v where "h (jt_addr (last ts)) = Some v"
    "heap_has (h(jt_addr (last ts) \<mapsto> v\<lparr>jv_next := p\<rparr>)) (forest_cells par prev p ts)"
proof -
  obtain us t where ts: "ts = us @ [t]"
    using assms(1) by (metis rev_exhaust)
  obtain a ty s ks where t: "t = JNode a ty s ks"
    by (cases t)
  show ?thesis
    using assms(2,3) that unfolding ts t by auto
qed

lemma holds_doc_frame:
  assumes "holds_doc h t" and "\<And>x. x \<in> set (tree_addrs t) \<Longrightarrow> h' x = h x"
  shows "holds_doc h' t"
  using assms heap_has_cong [of h "tree_cells NULL NULL NULL t" h']
  by (simp add: holds_doc_def holds_tree_def)

lemma insert_child_bad:
  assumes "holds_doc (nodes st) (plug (JNode a ty s ts) fs)" and "holds_doc (nodes st) tc"
    and "a \<noteq> jt_addr tc" and "\<not> may_hold ty tc"
  shows "json_insert_child (Ptr a) (jt_ptr tc) st = Some (JSON_BAD_TREE_STRUCTURE, st)"
proof (cases tc)
  case (JNode b ty' s' us)
  with assms(3,4) show ?thesis
    using may_insert_cell [of _ _ _ ty s _ _ _ _ _ tc s'] holds_doc_hole [OF assms(1)]
      holds_doc_root [OF assms(2) [unfolded JNode]]
    by (simp add: json_insert_child_def)
qed

text \<open>
  Inserting one document under a node of another: the new tree is the last child of that node,
  and no cell outside the two documents changes.
\<close>

lemma insert_child_ok:
  assumes doc: "holds_doc (nodes st) (plug (JNode a ty s ts) fs)"
    and child: "holds_doc (nodes st) tc"
    and disj: "set (tree_addrs (plug (JNode a ty s ts) fs)) \<inter> set (tree_addrs tc) = {}"
    and ok: "may_hold ty tc"
  obtains st' where "json_insert_child (Ptr a) (jt_ptr tc) st = Some (JSON_OK, st')"
    "holds_doc (nodes st') (plug (JNode a ty s (ts @ [tc])) fs)"
    "fresh st' = fresh st" "mem st' = mem st"
    "\<And>x. x \<notin> set (tree_addrs (plug (JNode a ty s ts) fs)) \<Longrightarrow> x \<notin> set (tree_addrs tc) \<Longrightarrow>
      nodes st' x = nodes st x"
proof -
  obtain b ty' s' us where tc: "tc = JNode b ty' s' us"
    by (cases tc)
  let ?h = "nodes st"
  let ?par = "hole_parent fs" and ?prev = "hole_previous fs" and ?next = "hole_next fs"
  have addrs: "set (tree_addrs (plug (JNode a ty s ts) fs)) =
      set (tree_addrs (JNode a ty s ts)) \<union> set (frame_addrs fs)"
    using plug_addrs [of "JNode a ty s ts" fs] by (metis set_mset_mset set_mset_union)
  have a: "?h a = Some (cell ?par ?prev ?next ty s (head_ptr ts NULL) (last_ptr ts NULL))"
    and kids: "heap_has ?h (forest_cells (Ptr a) NULL NULL ts)" "distinct (forest_addrs ts)"
    and a_new: "a \<notin> set (forest_addrs ts)" "a \<notin> set (frame_addrs fs)"
    and fs: "heap_has ?h (frame_cells (Ptr a) fs)" "distinct (frame_addrs fs)"
      "set (forest_addrs ts) \<inter> set (frame_addrs fs) = {}"
    using doc by (auto simp: holds_doc_plug)
  have b: "?h b = Some (cell NULL NULL NULL ty' s' (head_ptr us NULL) (last_ptr us NULL))"
    and b_kids: "heap_has ?h (forest_cells (Ptr b) NULL NULL us)" "distinct (tree_addrs tc)"
    using child by (auto simp: holds_doc_def holds_tree_def tc)
  have sep: "a \<noteq> b" "b \<notin> set (forest_addrs ts)" "b \<notin> set (frame_addrs fs)"
      "a \<notin> set (forest_addrs us)"
      "set (forest_addrs us) \<inter> set (forest_addrs ts) = {}"
      "set (forest_addrs us) \<inter> set (frame_addrs fs) = {}" "b \<notin> set (forest_addrs us)"
    using disj b_kids unfolding addrs tc by auto
  have outside: "x \<noteq> a" "x \<noteq> b" "x \<notin> set (forest_addrs ts)"
    if "x \<notin> set (tree_addrs (plug (JNode a ty s ts) fs))" "x \<notin> set (tree_addrs tc)" for x
    using that unfolding addrs tc by auto
  have may: "may_insert (cell ?par ?prev ?next ty s (head_ptr ts NULL) (last_ptr ts NULL))
      (cell NULL NULL NULL ty' s' (head_ptr us NULL) (last_ptr us NULL))"
    using may_insert_cell [of _ _ _ ty s _ _ _ _ _ tc s'] ok by (simp add: tc)
  show ?thesis
  proof (cases "ts = []")
    case True
    let ?st = "st\<lparr>nodes := ?h(a \<mapsto> cell ?par ?prev ?next ty s (Ptr b) (Ptr b),
      b \<mapsto> cell (Ptr a) NULL NULL ty' s' (head_ptr us NULL) (last_ptr us NULL))\<rparr>"
    show ?thesis
    proof
      show "json_insert_child (Ptr a) (jt_ptr tc) st = Some (JSON_OK, ?st)"
        using a b may sep True
        by (simp add: json_insert_child_def tc modify_def fun_upd_twist)
      show "holds_doc (nodes ?st) (plug (JNode a ty s (ts @ [tc])) fs)"
        using sep a_new fs b_kids True by (auto simp add: holds_doc_plug tc)
    qed (use outside True in auto)
  next
    case False
    let ?l = "jt_addr (last ts)"
    obtain v where v: "?h ?l = Some v"
      and snoc: "heap_has (?h(?l \<mapsto> v\<lparr>jv_next := Ptr b\<rparr>)) (forest_cells (Ptr a) NULL (Ptr b) ts)"
      using forest_cells_snoc_next [OF False kids] by metis
    have l: "?l \<in> set (forest_addrs ts)"
      using False by (auto intro: bexI [of _ "last ts"])
    have l_sep: "?l \<noteq> a" "?l \<noteq> b" "?l \<notin> set (forest_addrs us)" "?l \<notin> set (frame_addrs fs)"
      using l a_new sep fs(3) by (metis IntI empty_iff)+
    have last: "last_ptr ts NULL = Ptr ?l" "head_ptr ts NULL \<noteq> NULL"
      using False by (simp_all add: last_ptr_def)
    have head: "head_ptr ts (Ptr b) = head_ptr ts NULL"
      using False by (simp add: head_ptr_def split: list.split)
    let ?st = "st\<lparr>nodes := ?h(?l \<mapsto> v\<lparr>jv_next := Ptr b\<rparr>,
      a \<mapsto> cell ?par ?prev ?next ty s (head_ptr ts NULL) (Ptr b),
      b \<mapsto> cell (Ptr a) (Ptr ?l) NULL ty' s' (head_ptr us NULL) (last_ptr us NULL))\<rparr>"
    show ?thesis
    proof
      show "json_insert_child (Ptr a) (jt_ptr tc) st = Some (JSON_OK, ?st)"
        using a b may sep v l_sep last
        by (simp add: json_insert_child_def tc modify_def fun_upd_twist)
      show "holds_doc (nodes ?st) (plug (JNode a ty s (ts @ [tc])) fs)"
        using sep a_new fs b_kids snoc l_sep last head kids(2)
        by (auto simp add: holds_doc_plug tc)
    qed (use outside l in auto)
  qed
qed

section \<open>Freeing\<close>

text \<open>The heap after a node has been taken out of its list of siblings and its parent.\<close>

definition update_at :: "ptr \<Rightarrow> (json_value \<Rightarrow> json_value) \<Rightarrow> (nat \<Rightarrow> json_value option) \<Rightarrow>
    nat \<Rightarrow> json_value option" where
  "update_at p f h = (case p of NULL \<Rightarrow> h | Ptr a \<Rightarrow> h(a := map_option f (h a)))"

definition unlinked :: "ptr \<Rightarrow> ptr \<Rightarrow> ptr \<Rightarrow> ptr \<Rightarrow> (nat \<Rightarrow> json_value option) \<Rightarrow>
    nat \<Rightarrow> json_value option" where
  "unlinked self par prev next h =
     update_at par (\<lambda>w. if jv_child w = self then w\<lparr>jv_child := next\<rparr> else w)
       (update_at next (\<lambda>v. v\<lparr>jv_previous := prev\<rparr>)
         (update_at prev (\<lambda>v. v\<lparr>jv_next := next\<rparr>) h))"

definition null_or_live :: "ptr \<Rightarrow> (nat \<Rightarrow> json_value option) \<Rightarrow> bool" where
  "null_or_live p h \<longleftrightarrow> (\<forall>a. p = Ptr a \<longrightarrow> h a \<noteq> None)"

lemma null_or_live_simps [simp]:
  "null_or_live NULL h" "null_or_live (Ptr a) h \<longleftrightarrow> h a \<noteq> None"
  "null_or_live p (update_at q f h) = null_or_live p h"
  by (auto simp: null_or_live_def update_at_def split: ptr.split)

lemma update_at_simps [simp]: "update_at NULL f h = h"
  "update_at (Ptr a) f h = h(a := map_option f (h a))"
  by (simp_all add: update_at_def)

lemma modify_update_at:
  "null_or_live p (nodes st) \<Longrightarrow> p \<noteq> NULL \<Longrightarrow>
   modify p f st = Some (st\<lparr>nodes := update_at p f (nodes st)\<rparr>)"
  by (cases p) (auto simp: modify_def)

lemma unlink_siblings_spec:
  assumes "null_or_live (jv_previous v) (nodes st)" "null_or_live (jv_next v) (nodes st)"
  shows "unlink_siblings v st = Some (st\<lparr>nodes :=
    update_at (jv_next v) (\<lambda>w. w\<lparr>jv_previous := jv_previous v\<rparr>)
      (update_at (jv_previous v) (\<lambda>w. w\<lparr>jv_next := jv_next v\<rparr>) (nodes st))\<rparr>)"
  using assms by (auto simp: unlink_siblings_def modify_update_at)

lemma unlink_parent_spec:
  assumes "null_or_live (jv_parent v) (nodes st)"
  shows "unlink_parent p v st = Some (st\<lparr>nodes :=
    update_at (jv_parent v) (\<lambda>w. if jv_child w = p then w\<lparr>jv_child := jv_next v\<rparr> else w) (nodes st)\<rparr>)"
  using assms
  by (cases "jv_parent v") (auto simp: unlink_parent_def modify_def fun_upd_idem)

lemma update_at_other: "Ptr x \<noteq> p \<Longrightarrow> update_at p f h x = h x"
  by (cases p) auto

lemma unlinked_other:
  "Ptr x \<noteq> par \<Longrightarrow> Ptr x \<noteq> prev \<Longrightarrow> Ptr x \<noteq> next \<Longrightarrow> unlinked self par prev next h x = h x"
  by (simp add: unlinked_def update_at_other)

lemma update_at_cong:
  "(p = Ptr x \<Longrightarrow> h x = h' x) \<Longrightarrow> h x = h' x \<Longrightarrow> update_at p f h x = update_at p f h' x"
  by (cases p) auto

lemma unlinked_cong: "h x = h' x \<Longrightarrow> unlinked self par prev next h x = unlinked self par prev next h' x"
  unfolding unlinked_def by (intro update_at_cong)

text \<open>What one call does, as a predicate of the tree it is called on.\<close>

definition frees :: "jtree \<Rightarrow> bool" where
  "frees t \<longleftrightarrow> (\<forall>fuel st par prev next.
     2 * tree_size t \<le> fuel \<longrightarrow> distinct (tree_addrs t) \<longrightarrow>
     heap_has (nodes st) (tree_cells par prev next t) \<longrightarrow>
     null_or_live par (nodes st) \<longrightarrow> null_or_live prev (nodes st) \<longrightarrow> null_or_live next (nodes st) \<longrightarrow>
     (\<forall>a \<in> set (tree_addrs t). Ptr a \<noteq> par \<and> Ptr a \<noteq> prev \<and> Ptr a \<noteq> next) \<longrightarrow>
     json_free_value fuel (jt_ptr t) st = Some (st\<lparr>nodes := (\<lambda>x.
       if x \<in> set (tree_addrs t) then None else unlinked (jt_ptr t) par prev next (nodes st) x)\<rparr>))"

lemma freesD:
  assumes "frees t" and "2 * tree_size t \<le> fuel" and "distinct (tree_addrs t)"
    and "heap_has (nodes st) (tree_cells par prev next t)"
    and "null_or_live par (nodes st)" "null_or_live prev (nodes st)" "null_or_live next (nodes st)"
    and "\<And>a. a \<in> set (tree_addrs t) \<Longrightarrow> Ptr a \<noteq> par \<and> Ptr a \<noteq> prev \<and> Ptr a \<noteq> next"
  shows "json_free_value fuel (jt_ptr t) st = Some (st\<lparr>nodes := (\<lambda>x.
       if x \<in> set (tree_addrs t) then None else unlinked (jt_ptr t) par prev next (nodes st) x)\<rparr>)"
  using assms unfolding frees_def by blast

lemma jv_child_same: "jv_child w = p \<Longrightarrow> w\<lparr>jv_child := p\<rparr> = w"
  by (cases w) simp

lemma forest_last_live:
  assumes "heap_has h (forest_cells par prev next ts)" and "ts \<noteq> []"
  shows "\<exists>v. h (jt_addr (last ts)) = Some v"
proof -
  obtain us t where "ts = us @ [t]"
    using assms(2) by (metis rev_exhaust)
  with assms(1) show ?thesis
    by (cases t) auto
qed

lemma json_free_children_spec:
  assumes "\<And>t. t \<in> set ts \<Longrightarrow> frees t"
    and "2 * forest_size ts + 1 \<le> fuel" and "distinct (forest_addrs ts)"
    and "heap_has (nodes st) (forest_cells (Ptr p) NULL NULL ts)"
    and "p \<notin> set (forest_addrs ts)" and "nodes st p = Some w" and "jv_child w = head_ptr ts NULL"
  shows "json_free_children fuel (last_ptr ts NULL) st = Some (st\<lparr>nodes := (\<lambda>x.
       if x \<in> set (forest_addrs ts) then None
       else if x = p then Some (w\<lparr>jv_child := NULL\<rparr>) else nodes st x)\<rparr>)"
  using assms
proof (induction ts arbitrary: fuel st w rule: rev_induct)
  case Nil
  then obtain f where "fuel = Suc f" by (cases fuel) auto
  moreover have "(\<lambda>x. if x = p then Some (w\<lparr>jv_child := NULL\<rparr>) else nodes st x) = nodes st"
    using Nil by (auto simp: jv_child_same)
  ultimately show ?case
    by simp
next
  case (snoc t ts)
  obtain f where fuel: "fuel = Suc f"
    using snoc.prems(2) by (cases fuel) auto
  let ?prev = "last_ptr ts NULL"
  let ?l = "jt_addr (last ts)"
  have t: "frees t" "2 * tree_size t \<le> f" "2 * forest_size ts + 1 \<le> f"
    using snoc.prems(1,2) fuel tree_size_pos [of t] by (simp_all del: tree_size_pos)
  have prev: "?prev = (if ts = [] then NULL else Ptr ?l)"
    by (simp add: last_ptr_def)
  have l_in: "?l \<in> set (forest_addrs ts)" if "ts \<noteq> []"
    using that by (auto intro: bexI [of _ "last ts"])
  have ts: "heap_has (nodes st) (forest_cells (Ptr p) NULL (jt_ptr t) ts)" "distinct (forest_addrs ts)"
    and cells_t: "heap_has (nodes st) (tree_cells (Ptr p) ?prev NULL t)" "distinct (tree_addrs t)"
    and sep: "set (tree_addrs t) \<inter> set (forest_addrs ts) = {}" "p \<notin> set (forest_addrs ts)"
      "p \<notin> set (tree_addrs t)"
    using snoc.prems by auto
  have live: "null_or_live ?prev (nodes st)"
    using forest_last_live [OF ts(1)] prev by auto
  have l_sep: "?l \<noteq> p" "?l \<notin> set (tree_addrs t)" if "ts \<noteq> []"
    using l_in [OF that] sep by auto
  let ?st1 = "st\<lparr>nodes := (\<lambda>x. if x \<in> set (tree_addrs t) then None
      else unlinked (jt_ptr t) (Ptr p) ?prev NULL (nodes st) x)\<rparr>"
  have free: "json_free_value f (jt_ptr t) st = Some ?st1"
    by (rule freesD [OF t(1,2) cells_t(2,1)])
      (use sep l_sep snoc.prems(6) live prev in \<open>auto split: if_splits\<close>)
  have v: "\<exists>v. nodes st (jt_addr t) = Some v \<and> jv_previous v = ?prev"
    using cells_t(1) by (cases t) auto
  let ?w1 = "if ts = [] then w\<lparr>jv_child := NULL\<rparr> else w"
  have head: "head_ptr ts (jt_ptr t) = jt_ptr t \<longleftrightarrow> ts = []"
    using sep(1) jt_addr_in [of t] jt_addr_in [of "hd ts"] by (cases ts) (auto simp del: jt_addr_in)
  have p1: "nodes ?st1 p = Some ?w1"
    using sep(3) snoc.prems(6,7) head prev l_sep
    by (cases "ts = []") (simp_all add: unlinked_def)
  have ts1: "heap_has (nodes ?st1) (forest_cells (Ptr p) NULL NULL ts)"
  proof (cases "ts = []")
    case False
    obtain u where u: "nodes st ?l = Some u"
      and snoc': "heap_has ((nodes st)(?l \<mapsto> u\<lparr>jv_next := NULL\<rparr>)) (forest_cells (Ptr p) NULL NULL ts)"
      using forest_cells_snoc_next [OF False ts] by metis
    show ?thesis
      by (rule heap_has_cong [OF snoc'])
        (use False prev u sep in \<open>auto simp: unlinked_def disjoint_iff\<close>)
  qed simp
  have other: "unlinked (jt_ptr t) (Ptr p) ?prev NULL (nodes st) x = nodes st x"
    if "x \<notin> set (forest_addrs ts)" "x \<noteq> p" for x
    using that l_in prev by (intro unlinked_other) (auto split: if_splits)
  have "json_free_children f ?prev ?st1 = Some (?st1\<lparr>nodes := (\<lambda>x.
       if x \<in> set (forest_addrs ts) then None
       else if x = p then Some (?w1\<lparr>jv_child := NULL\<rparr>) else nodes ?st1 x)\<rparr>)"
    by (rule snoc.IH [OF _ t(3) ts(2) ts1 sep(2) p1])
      (use snoc.prems(1,7) in \<open>auto intro: head_ptr_nonempty\<close>)
  moreover have "json_free_children fuel (last_ptr (ts @ [t]) NULL) st = json_free_children f ?prev ?st1"
    using v free by (auto simp: fuel)
  moreover have "(\<lambda>x. if x \<in> set (forest_addrs ts) then None
       else if x = p then Some (?w1\<lparr>jv_child := NULL\<rparr>) else nodes ?st1 x) =
      (\<lambda>x. if x \<in> set (forest_addrs (ts @ [t])) then None
       else if x = p then Some (w\<lparr>jv_child := NULL\<rparr>) else nodes st x)"
    using sep other by (auto intro!: ext)
  ultimately show ?case
    by simp
qed

lemma free_node:
  assumes kids: "\<And>t. t \<in> set ts \<Longrightarrow> frees t"
  shows "frees (JNode a ty s ts)"
  unfolding frees_def
proof (intro allI impI)
  fix fuel and st :: store and par prev "next"
  let ?t = "JNode a ty s ts"
  assume fuel: "2 * tree_size ?t \<le> fuel" and dist: "distinct (tree_addrs ?t)"
    and cells: "heap_has (nodes st) (tree_cells par prev next ?t)"
    and live: "null_or_live par (nodes st)" "null_or_live prev (nodes st)"
      "null_or_live next (nodes st)"
    and out: "\<forall>x \<in> set (tree_addrs ?t). Ptr x \<noteq> par \<and> Ptr x \<noteq> prev \<and> Ptr x \<noteq> next"
  obtain f where f: "fuel = Suc f" "2 * forest_size ts + 1 \<le> f"
    using fuel by (cases fuel) auto
  let ?v = "cell par prev next ty s (head_ptr ts NULL) (last_ptr ts NULL)"
  let ?v1 = "cell par prev next ty s NULL (last_ptr ts NULL)"
  let ?st1 = "st\<lparr>nodes := (\<lambda>x. if x \<in> set (forest_addrs ts) then None
       else if x = a then Some ?v1 else nodes st x)\<rparr>"
  have v: "nodes st a = Some ?v"
    using cells by simp
  have a: "a \<notin> set (forest_addrs ts)" "distinct (forest_addrs ts)"
    using dist by auto
  have children: "(if jv_child ?v \<noteq> NULL then json_free_children f (jv_child_end ?v) st
      else Some st) = Some ?st1"
  proof (cases "ts = []")
    case True
    then have "nodes ?st1 = nodes st"
      using v by auto
    then have "?st1 = st"
      by simp
    with True show ?thesis
      by simp
  next
    case False
    then show ?thesis
      using json_free_children_spec [OF kids f(2) a(2) _ a(1) v] cells by (simp cong: if_cong)
  qed
  have live1: "null_or_live q (nodes ?st1)" if "null_or_live q (nodes st)"
    "\<forall>x \<in> set (tree_addrs ?t). Ptr x \<noteq> q" for q
    using that by (auto simp: null_or_live_def)
  let ?st2 = "st\<lparr>nodes := unlinked (Ptr a) par prev next (nodes ?st1)\<rparr>"
  have "unlink_siblings ?v1 ?st1 = Some (?st1\<lparr>nodes :=
      update_at next (\<lambda>w. w\<lparr>jv_previous := prev\<rparr>)
        (update_at prev (\<lambda>w. w\<lparr>jv_next := next\<rparr>) (nodes ?st1))\<rparr>)" (is "_ = Some ?st1'")
    using unlink_siblings_spec [of ?v1 ?st1] live1 live out by simp
  moreover have "unlink_parent (Ptr a) ?v1 ?st1' = Some ?st2"
    using unlink_parent_spec [of ?v1 ?st1'] live1 live out by (simp add: unlinked_def cong: if_cong)
  moreover have "nodes ?st2 a = Some ?v1"
    using a out by (simp add: unlinked_other)
  ultimately have "json_free_value fuel (Ptr a) st =
      Some (?st2\<lparr>nodes := (nodes ?st2)(a := None)\<rparr>)"
    using v children a by (simp add: f remove_node_def)
  moreover have "(nodes ?st2)(a := None) = (\<lambda>x. if x \<in> set (tree_addrs ?t) then None
      else unlinked (Ptr a) par prev next (nodes st) x)"
  proof
    fix x
    show "((nodes ?st2)(a := None)) x = (if x \<in> set (tree_addrs ?t) then None
      else unlinked (Ptr a) par prev next (nodes st) x)"
    proof (cases "x \<in> set (tree_addrs ?t)")
      case True
      then show ?thesis
        using out by (auto simp: unlinked_other)
    next
      case False
      then show ?thesis
        by (auto intro!: unlinked_cong)
    qed
  qed
  ultimately show "json_free_value fuel (jt_ptr ?t) st = Some (st\<lparr>nodes := (\<lambda>x.
       if x \<in> set (tree_addrs ?t) then None
       else unlinked (jt_ptr ?t) par prev next (nodes st) x)\<rparr>)"
    by (simp cong: if_cong)
qed

text \<open>
  With fuel twice the number of its nodes, freeing a tree removes exactly its nodes, and
  relinks its neighbours.
\<close>

lemma free_tree: "frees t"
proof (induction t)
  case (JNode a ty s ts)
  then show ?case by (intro free_node)
qed

lemma free_doc:
  assumes "holds_doc (nodes st) t" and "2 * tree_size t \<le> fuel"
  shows "json_free_value fuel (jt_ptr t) st =
    Some (st\<lparr>nodes := (\<lambda>x. if x \<in> set (tree_addrs t) then None else nodes st x)\<rparr>)"
  using freesD [OF free_tree assms(2), of st NULL NULL NULL] assms(1)
  by (simp add: holds_doc_def holds_tree_def unlinked_def cong: if_cong)

section \<open>Searching a label\<close>

text \<open>The first of the siblings whose text is the label up to \<open>eq\<close>.\<close>

definition first_label :: "(string \<Rightarrow> string \<Rightarrow> bool) \<Rightarrow> string \<Rightarrow> jtree list \<Rightarrow> ptr" where
  "first_label eq lbl ts =
     (case find (\<lambda>t. \<exists>s. jt_text t = Some s \<and> length s = length lbl \<and> eq s lbl) ts of
        None \<Rightarrow> NULL | Some t \<Rightarrow> jt_ptr t)"

lemma find_label_spec:
  assumes "heap_has (nodes st) (forest_cells par prev NULL ts)"
    and "\<And>t. t \<in> set ts \<Longrightarrow> jt_text t \<noteq> None" and "length ts < fuel"
  shows "find_label eq fuel (head_ptr ts NULL) lbl st = Some (first_label eq lbl ts)"
  using assms
proof (induction ts arbitrary: prev fuel)
  case Nil
  then show ?case
    by (cases fuel) (simp_all add: first_label_def)
next
  case (Cons t ts)
  obtain a ty s ks where t: "t = JNode a ty s ks"
    by (cases t)
  obtain x where "s = Some x"
    using Cons.prems(2) [of t] t by auto
  moreover have "find_label eq (fuel - 1) (head_ptr ts NULL) lbl st = Some (first_label eq lbl ts)"
    by (rule Cons.IH) (use Cons.prems t in auto)
  ultimately show ?case
    using Cons.prems(1,3) t by (cases fuel) (simp_all add: first_label_def)
qed

lemma find_first_label_spec:
  assumes "holds_doc (nodes st) (plug (JNode a JSON_OBJECT s ts) fs)"
    and "\<And>t. t \<in> set ts \<Longrightarrow> jt_text t \<noteq> None" and "length ts < fuel"
  shows "json_find_first_label fuel (Ptr a) (Some lbl) st = Some (first_label (\<lambda>s l. s = l) lbl ts)"
    and "json_find_first_label_ignore_case fuel (Ptr a) (Some lbl) st =
      Some (first_label (\<lambda>s l. map lower_c s = map lower_c l) lbl ts)"
proof -
  have "heap_has (nodes st) (forest_cells (Ptr a) NULL NULL ts)"
    using assms(1) by (simp add: holds_doc_plug)
  note find = find_label_spec [OF this assms(2,3), of _ lbl]
  show "json_find_first_label fuel (Ptr a) (Some lbl) st = Some (first_label (\<lambda>s l. s = l) lbl ts)"
    using holds_doc_hole [OF assms(1)] find
    by (cases "ts = []") (simp_all add: json_find_first_label_def first_label_def)
  show "json_find_first_label_ignore_case fuel (Ptr a) (Some lbl) st =
      Some (first_label (\<lambda>s l. map lower_c s = map lower_c l) lbl ts)"
    using holds_doc_hole [OF assms(1)] find
    by (cases "ts = []") (simp_all add: json_find_first_label_ignore_case_def first_label_def)
qed

end
