(* ===== verification/JsonParse.thy ===== *)
theory JsonParse
  imports JsonParser JsonToken JsonHeap
begin

text \<open>
  What the parser of \<open>JsonParser\<close> does: an abstract machine over tokens and trees without
  addresses, and the proof that every turn of the C loop is a step of it.
\<close>

section \<open>Trees and the abstract machine\<close>

datatype jval = JVal json_value_type "string option" "jval list"

fun erase :: "jtree \<Rightarrow> jval" where
  "erase (JNode a ty s ts) = JVal ty s (map erase ts)"

text \<open>
  The open nodes of the document under construction, innermost first, each with its finished
  children.
\<close>

type_synonym level = "json_value_type \<times> string option \<times> jval list"

text \<open>The innermost node is finished and becomes a child of the next one.\<close>

fun pop :: "level list \<Rightarrow> level list" where
  "pop ((ty, s, ks) # (ty', s', ks') # lv) = (ty', s', ks' @ [JVal ty s ks]) # lv"
| "pop lv = lv"

definition top_type :: "level list \<Rightarrow> json_value_type option" where
  "top_type lv = (case lv of [] \<Rightarrow> None | (ty, s, ks) # _ \<Rightarrow> Some ty)"

lemma top_type_simps [simp]: "top_type [] = None" "top_type ((ty, s, ks) # lv) = Some ty"
  by (simp_all add: top_type_def)

text \<open>A container is closed: back to the object of its label or to the array around it.\<close>

definition leave :: "level list \<Rightarrow> nat \<times> level list" where
  "leave lv = (if length lv = 1 then (99, lv)
     else if top_type (pop lv) = Some JSON_STRING then (3, pop (pop lv)) else (9, pop lv))"

text \<open>The type of the node a leaf token makes.\<close>

definition leaf_type :: "lex_value \<Rightarrow> json_value_type option" where
  "leaf_type v = (case v of LEX_STRING \<Rightarrow> Some JSON_STRING | LEX_NUMBER \<Rightarrow> Some JSON_NUMBER
     | LEX_TRUE \<Rightarrow> Some JSON_TRUE | LEX_FALSE \<Rightarrow> Some JSON_FALSE | LEX_NULL \<Rightarrow> Some JSON_NULL
     | _ \<Rightarrow> None)"

definition leaf_text :: "lex_value \<Rightarrow> string option \<Rightarrow> string option" where
  "leaf_text v s = (if v \<in> {LEX_STRING, LEX_NUMBER} then s else None)"

text \<open>One token; \<open>s\<close> is the text of a string or number.  \<open>None\<close>: the document is malformed.\<close>

definition shape_token :: "nat \<Rightarrow> lex_value \<Rightarrow> string option \<Rightarrow> level list \<Rightarrow> (nat \<times> level list) option"
where
  "shape_token q v s lv =
     (if v = LEX_BEGIN_OBJECT \<and> q \<in> {0, 6, 8} then Some (1, lv)
      else if v = LEX_BEGIN_ARRAY \<and> q \<in> {0, 6, 8} then Some (7, lv)
      else if v = LEX_STRING \<and> q \<in> {2, 4} then Some (5, (JSON_STRING, s, []) # lv)
      else if v = LEX_END_OBJECT \<and> q \<in> {2, 3} then Some (leave lv)
      else if v = LEX_END_ARRAY \<and> q \<in> {8, 9} then Some (leave lv)
      else if v = LEX_VALUE_SEPARATOR \<and> q = 3 then Some (4, lv)
      else if v = LEX_VALUE_SEPARATOR \<and> q = 9 then Some (8, lv)
      else if v = LEX_NAME_SEPARATOR \<and> q = 5 then Some (6, lv)
      else (case leaf_type v of
              None \<Rightarrow> None
            | Some ty \<Rightarrow>
                if q = 6 then Some (3, pop (pop ((ty, leaf_text v s, []) # lv)))
                else if q = 8 then Some (9, pop ((ty, leaf_text v s, []) # lv))
                else None))"

text \<open>States 1 and 7 read no token.\<close>

definition shape_open :: "nat \<Rightarrow> level list \<Rightarrow> nat \<times> level list" where
  "shape_open q lv = (if q = 1 then (2, (JSON_OBJECT, None, []) # lv) else (8, (JSON_ARRAY, None, []) # lv))"

section \<open>Well-formed documents\<close>

text \<open>
  \<open>g\<close>: memory does not run out; otherwise the text of a node may be missing.
\<close>

definition text_ok :: "bool \<Rightarrow> (string \<Rightarrow> bool) \<Rightarrow> string option \<Rightarrow> bool" where
  "text_ok g P s = (case s of None \<Rightarrow> \<not> g | Some x \<Rightarrow> P x)"

fun wf_val :: "bool \<Rightarrow> jval \<Rightarrow> bool" and wf_member :: "bool \<Rightarrow> jval \<Rightarrow> bool" where
  "wf_val g (JVal ty s ks) =
     (case ty of
        JSON_STRING \<Rightarrow> text_ok g string_body s \<and> ks = []
      | JSON_NUMBER \<Rightarrow> text_ok g is_number s \<and> ks = []
      | JSON_OBJECT \<Rightarrow> s = None \<and> (\<forall>k \<in> set ks. wf_member g k)
      | JSON_ARRAY \<Rightarrow> s = None \<and> (\<forall>k \<in> set ks. wf_val g k)
      | _ \<Rightarrow> s = None \<and> ks = [])"
| "wf_member g (JVal ty s ks) =
     (ty = JSON_STRING \<and> text_ok g string_body s \<and> length ks = 1 \<and> (\<forall>k \<in> set ks. wf_val g k))"

definition value_place :: "level list \<Rightarrow> bool" where
  "value_place lv \<longleftrightarrow> top_type lv \<in> {None, Some JSON_ARRAY, Some JSON_STRING}"

fun wf_levels :: "bool \<Rightarrow> level list \<Rightarrow> bool" where
  "wf_levels g [] = True"
| "wf_levels g ((ty, s, ks) # lv) = (wf_levels g lv \<and>
     (case ty of
        JSON_OBJECT \<Rightarrow> s = None \<and> (\<forall>k \<in> set ks. wf_member g k) \<and> value_place lv
      | JSON_ARRAY \<Rightarrow> s = None \<and> (\<forall>k \<in> set ks. wf_val g k) \<and> value_place lv
      | JSON_STRING \<Rightarrow> text_ok g string_body s \<and> ks = [] \<and> top_type lv = Some JSON_OBJECT
      | _ \<Rightarrow> False))"

definition state_ok :: "nat \<Rightarrow> level list \<Rightarrow> bool" where
  "state_ok q lv =
     (if q = 0 then lv = []
      else if q \<in> {1, 7} then value_place lv
      else if q \<in> {2, 3, 4} then top_type lv = Some JSON_OBJECT
      else if q \<in> {5, 6} then top_type lv = Some JSON_STRING
      else if q \<in> {8, 9} then top_type lv = Some JSON_ARRAY
      else q = 99 \<and> length lv = 1 \<and> top_type lv \<in> {Some JSON_OBJECT, Some JSON_ARRAY})"

lemma wf_levels_pop:
  assumes "wf_levels g lv" and "top_type lv \<in> {Some JSON_OBJECT, Some JSON_ARRAY}"
    and "length lv \<noteq> 1"
  shows "(case leave lv of (q, lv') \<Rightarrow> wf_levels g lv' \<and> state_ok q lv')"
proof -
  obtain ty s ks ty' s' ks' lv' where lv: "lv = (ty, s, ks) # (ty', s', ks') # lv'"
    using assms(2,3) by (cases lv; cases "tl lv") (auto simp: top_type_def)
  show ?thesis
  proof (cases ty')
    case JSON_STRING
    then obtain t2 s2 k2 l2 where "lv' = (t2, s2, k2) # l2"
      using assms(1) lv by (cases lv') auto
    with JSON_STRING assms lv show ?thesis
      by (auto simp: leave_def state_ok_def text_ok_def)
  next
    case JSON_ARRAY
    with assms lv show ?thesis
      by (auto simp: leave_def state_ok_def)
  qed (use assms lv in \<open>auto simp: value_place_def\<close>)
qed

lemma leaf_wf:
  assumes "leaf_type v = Some ty" and "v = LEX_STRING \<Longrightarrow> text_ok g string_body s"
    and "v = LEX_NUMBER \<Longrightarrow> text_ok g is_number s"
  shows "wf_val g (JVal ty (leaf_text v s) [])"
  using assms by (cases v) (auto simp: leaf_type_def leaf_text_def)

text \<open>The machine keeps documents well formed.\<close>

lemma shape_open_wf:
  assumes "wf_levels g lv" and "state_ok q lv" and "q \<in> {1, 7}"
  shows "case shape_open q lv of (q', lv') \<Rightarrow> wf_levels g lv' \<and> state_ok q' lv'"
  using assms by (auto simp: shape_open_def state_ok_def)

lemma wf_leaf_label:
  assumes "wf_levels g lv" and "top_type lv = Some JSON_STRING" and "wf_val g (JVal ty s [])"
  shows "wf_levels g (pop (pop ((ty, s, []) # lv))) \<and>
    top_type (pop (pop ((ty, s, []) # lv))) = Some JSON_OBJECT"
proof -
  obtain s1 k1 l1 where lv: "lv = (JSON_STRING, s1, k1) # l1"
    using assms(2) by (cases lv) auto
  obtain s2 k2 l2 where l1: "l1 = (JSON_OBJECT, s2, k2) # l2"
    using assms(1) lv by (cases l1) auto
  show ?thesis
    using assms(1,3) by (auto simp: lv l1)
qed

lemma wf_leaf_array:
  assumes "wf_levels g lv" and "top_type lv = Some JSON_ARRAY" and "wf_val g (JVal ty s [])"
  shows "wf_levels g (pop ((ty, s, []) # lv)) \<and>
    top_type (pop ((ty, s, []) # lv)) = Some JSON_ARRAY"
  using assms by (cases lv) auto

lemma state_ok_simps [simp]:
  "state_ok 0 lv \<longleftrightarrow> lv = []" "state_ok (Suc 0) lv \<longleftrightarrow> value_place lv" "state_ok 7 lv \<longleftrightarrow> value_place lv"
  "state_ok 2 lv \<longleftrightarrow> top_type lv = Some JSON_OBJECT" "state_ok 3 lv \<longleftrightarrow> top_type lv = Some JSON_OBJECT"
  "state_ok 4 lv \<longleftrightarrow> top_type lv = Some JSON_OBJECT" "state_ok 5 lv \<longleftrightarrow> top_type lv = Some JSON_STRING"
  "state_ok 6 lv \<longleftrightarrow> top_type lv = Some JSON_STRING" "state_ok 8 lv \<longleftrightarrow> top_type lv = Some JSON_ARRAY"
  "state_ok 9 lv \<longleftrightarrow> top_type lv = Some JSON_ARRAY"
  "state_ok 99 lv \<longleftrightarrow> length lv = 1 \<and> top_type lv \<in> {Some JSON_OBJECT, Some JSON_ARRAY}"
  by (simp_all add: state_ok_def)

lemma leave_wf:
  assumes "wf_levels g lv" and "top_type lv \<in> {Some JSON_OBJECT, Some JSON_ARRAY}"
    and "leave lv = (q, lv')"
  shows "wf_levels g lv' \<and> state_ok q lv'"
proof (cases "length lv = 1")
  case True
  with assms show ?thesis by (auto simp: leave_def)
next
  case False
  with wf_levels_pop [OF assms(1,2)] assms(3) show ?thesis by simp
qed

lemma shape_token_wf:
  assumes wf: "wf_levels g lv" and q: "state_ok q lv"
    and s: "v = LEX_STRING \<Longrightarrow> text_ok g string_body s" "v = LEX_NUMBER \<Longrightarrow> text_ok g is_number s"
    and step: "shape_token q v s lv = Some (q', lv')"
  shows "wf_levels g lv' \<and> state_ok q' lv'"
proof -
  consider "v = LEX_BEGIN_OBJECT \<or> v = LEX_BEGIN_ARRAY" "q \<in> {0, 6, 8}" "q' \<in> {1, 7}" "lv' = lv"
    | "v = LEX_STRING" "q \<in> {2, 4}" "q' = 5" "lv' = (JSON_STRING, s, []) # lv"
    | "q \<in> {2, 3, 8, 9}" "leave lv = (q', lv')"
    | "q = 3" "q' = 4" "lv' = lv" | "q = 9" "q' = 8" "lv' = lv" | "q = 5" "q' = 6" "lv' = lv"
    | ty where "leaf_type v = Some ty" "q = 6" "q' = 3" "lv' = pop (pop ((ty, leaf_text v s, []) # lv))"
    | ty where "leaf_type v = Some ty" "q = 8" "q' = 9" "lv' = pop ((ty, leaf_text v s, []) # lv)"
    using step by (auto simp: shape_token_def split: if_splits option.splits)
  then show ?thesis
  proof cases
    case 3
    then show ?thesis
      using leave_wf [OF wf _ 3(2)] q by auto
  next
    case 7
    then show ?thesis
      using wf_leaf_label [OF wf _ leaf_wf [OF 7(1) s]] q by auto
  next
    case 8
    then show ?thesis
      using wf_leaf_array [OF wf _ leaf_wf [OF 8(1) s]] q by auto
  qed (use wf q s in \<open>auto simp: value_place_def\<close>)
qed

section \<open>The document on the heap\<close>

fun right_open :: "frame \<Rightarrow> bool" where
  "right_open (Frame a ty s ls rs) \<longleftrightarrow> rs = []"

fun frame_level :: "frame \<Rightarrow> level" where
  "frame_level (Frame a ty s ls rs) = (ty, s, map erase ls)"

definition levels :: "jtree \<Rightarrow> frame list \<Rightarrow> level list" where
  "levels t fs = (jt_type t, jt_text t, map erase (jt_kids t)) # map frame_level fs"

text \<open>
  The cursor \<open>p\<close> is the innermost open node of a document whose open levels are \<open>lv\<close>; apart
  from that document the heap is \<open>h0\<close>.
\<close>

definition doc_at :: "(nat \<Rightarrow> json_value option) \<Rightarrow> store \<Rightarrow> jtree \<Rightarrow> frame list \<Rightarrow> bool" where
  "doc_at h0 st t fs \<longleftrightarrow> list_all right_open fs \<and> holds_doc (nodes st) (plug t fs) \<and>
     (\<forall>x. if x \<in> set (tree_addrs (plug t fs)) then h0 x = None else nodes st x = h0 x) \<and>
     (\<forall>x \<ge> fresh st. nodes st x = None)"

definition doc_rel :: "(nat \<Rightarrow> json_value option) \<Rightarrow> store \<Rightarrow> ptr \<Rightarrow> level list \<Rightarrow> bool" where
  "doc_rel h0 st p lv \<longleftrightarrow>
     (if p = NULL then lv = [] \<and> nodes st = h0 \<and> (\<forall>x \<ge> fresh st. nodes st x = None)
      else \<exists>t fs. p = jt_ptr t \<and> lv = levels t fs \<and> doc_at h0 st t fs)"

lemma doc_rel_mem [simp]: "doc_rel h0 (st\<lparr>mem := m\<rparr>) p lv = doc_rel h0 st p lv"
  by (simp add: doc_rel_def doc_at_def)

lemma doc_rel_nonempty: "doc_rel h0 st p lv \<Longrightarrow> p = NULL \<longleftrightarrow> lv = []"
  by (auto simp: doc_rel_def levels_def split: if_splits)

lemma doc_at_node:
  assumes "doc_at h0 st t fs"
  obtains v where "nodes st (jt_addr t) = Some v" "jv_type v = jt_type t" "jv_parent v = hole_parent fs"
proof (cases t)
  case (JNode a ty s ts)
  with assms that show ?thesis
    using holds_doc_hole [of "nodes st" a ty s ts fs] by (auto simp: doc_at_def)
qed

lemma doc_rel_top:
  assumes "doc_rel h0 st p ((ty, s, ks) # lv)"
  obtains v where "fetch p st = Some v" "jv_type v = ty" "p \<noteq> NULL"
    "jv_parent v = NULL \<longleftrightarrow> lv = []"
    "lv \<noteq> [] \<Longrightarrow> doc_rel h0 st (jv_parent v) (pop ((ty, s, ks) # lv))"
proof -
  obtain t fs where t: "p = jt_ptr t" "(ty, s, ks) # lv = levels t fs" "doc_at h0 st t fs" "p \<noteq> NULL"
    using assms by (auto simp: doc_rel_def split: if_splits)
  obtain v where v: "nodes st (jt_addr t) = Some v" "jv_type v = jt_type t" "jv_parent v = hole_parent fs"
    using doc_at_node [OF t(3)] by blast
  show ?thesis
  proof (rule that)
    show "fetch p st = Some v" "jv_type v = ty" "p \<noteq> NULL"
      using t v by (simp_all add: levels_def)
    show "jv_parent v = NULL \<longleftrightarrow> lv = []"
      using t(2) v(3) by (cases fs rule: hole_parent.cases) (auto simp: levels_def)
    assume "lv \<noteq> []"
    then obtain b ty' s' ls rs fs' where fs: "fs = Frame b ty' s' ls rs # fs'"
      using t(2) by (cases fs rule: hole_parent.cases) (auto simp: levels_def)
    let ?t' = "JNode b ty' s' (ls @ [t])"
    have "rs = []" "doc_at h0 st ?t' fs'"
      using t(3) by (auto simp: doc_at_def fs)
    moreover have "pop ((ty, s, ks) # lv) = levels ?t' fs'"
      using t(2) by (cases t) (auto simp: levels_def fs)
    ultimately show "doc_rel h0 st (jv_parent v) (pop ((ty, s, ks) # lv))"
      using v(3) by (auto simp: doc_rel_def fs intro!: exI [of _ ?t'] exI [of _ fs'])
  qed
qed

text \<open>A new node, then linked in as the last child of the cursor.\<close>

lemma json_new_value_cases:
  obtains (ok) m where "json_new_value ty st = (Ptr (fresh st), st\<lparr>mem := m,
      nodes := (nodes st)(fresh st \<mapsto> cell NULL NULL NULL ty None NULL NULL), fresh := Suc (fresh st)\<rparr>)"
    "grants m = grants (mem st)"
  | (oom) m where "json_new_value ty st = (NULL, st\<lparr>mem := m\<rparr>)" "\<not> generous (mem st)"
    "grants m = grants (mem st)"
proof (cases "grants (mem st) (requests (mem st))")
  case True
  then show ?thesis
    by (intro ok [of "(mem st)\<lparr>requests := Suc (requests (mem st))\<rparr>"])
      (simp_all add: json_new_value_def request_def add_node_def blank_value_cell)
next
  case False
  then have "\<not> generous (mem st)"
    by (auto simp: generous_def)
  with False show ?thesis
    by (intro oom [of "(mem st)\<lparr>requests := Suc (requests (mem st))\<rparr>"])
      (simp_all add: json_new_value_def request_def)
qed

lemma doc_rel_root:
  assumes "doc_rel h0 st NULL []"
  shows "doc_rel h0 (st\<lparr>mem := m, nodes := (nodes st)(fresh st \<mapsto> cell NULL NULL NULL ty None NULL NULL),
      fresh := Suc (fresh st)\<rparr>) (Ptr (fresh st)) [(ty, None, [])]"
proof -
  let ?t = "JNode (fresh st) ty None []"
  show ?thesis
    using assms
    by (auto simp: doc_rel_def levels_def doc_at_def holds_doc_def holds_tree_def
        intro!: exI [of _ ?t] exI [of _ "[]"])
qed

lemma doc_rel_attach:
  assumes doc: "doc_rel h0 st p ((ty, s, ks) # lv)"
    and node: "nodes st' = (nodes st)(fresh st \<mapsto> cell NULL NULL NULL ty' s' NULL NULL)"
    and fresh: "fresh st' = Suc (fresh st)"
    and may: "may_hold ty (JNode (fresh st) ty' s' [])"
  obtains st2 where "json_insert_child p (Ptr (fresh st)) st' = Some (JSON_OK, st2)"
    "mem st2 = mem st'"
    "doc_rel h0 st2 p ((ty, s, ks @ [JVal ty' s' []]) # lv)"
    "doc_rel h0 st2 (Ptr (fresh st)) ((ty', s', []) # (ty, s, ks) # lv)"
proof -
  let ?n = "fresh st"
  let ?c = "JNode ?n ty' s' []"
  obtain t fs where t: "p = jt_ptr t" "(ty, s, ks) # lv = levels t fs" "doc_at h0 st t fs"
    using doc by (auto simp: doc_rel_def split: if_splits)
  obtain a ts where ta: "t = JNode a ty s ts" "map erase ts = ks"
    using t(2) by (cases t) (auto simp: levels_def)
  have doc0: "holds_doc (nodes st) (plug t fs)"
    and out: "\<And>x. if x \<in> set (tree_addrs (plug t fs)) then h0 x = None else nodes st x = h0 x"
    and free: "\<And>x. fresh st \<le> x \<Longrightarrow> nodes st x = None"
    using t(3) by (auto simp: doc_at_def)
  have new: "?n \<notin> set (tree_addrs (plug t fs))"
    using holds_tree_live [of "nodes st" NULL NULL NULL "plug t fs" ?n] doc0 free
    by (auto simp: holds_doc_def)
  have doc1: "holds_doc (nodes st') (plug (JNode a ty s ts) fs)"
  proof -
    have "nodes st' x = nodes st x" if "x \<in> set (tree_addrs (plug t fs))" for x
      using that new node by auto
    then show ?thesis
      using holds_doc_frame [OF doc0] ta by simp
  qed
  have doc2: "holds_doc (nodes st') ?c"
    by (simp add: holds_doc_def holds_tree_def node)
  obtain st2 where ins: "json_insert_child (Ptr a) (jt_ptr ?c) st' = Some (JSON_OK, st2)"
    and doc3: "holds_doc (nodes st2) (plug (JNode a ty s (ts @ [?c])) fs)"
    and same: "fresh st2 = fresh st'" "mem st2 = mem st'"
    and other: "\<And>x. x \<notin> set (tree_addrs (plug (JNode a ty s ts) fs)) \<Longrightarrow> x \<notin> set (tree_addrs ?c) \<Longrightarrow>
      nodes st2 x = nodes st' x"
    using insert_child_ok [OF doc1 doc2 _ may] new ta by auto
  have addrs: "set (tree_addrs (plug (JNode a ty s (ts @ [?c])) fs)) =
      insert ?n (set (tree_addrs (plug t fs)))"
    using plug_addrs [of "JNode a ty s (ts @ [?c])" fs] plug_addrs [of t fs] ta
    by (auto dest!: arg_cong [of _ _ set_mset])
  have at: "doc_at h0 st2 (JNode a ty s (ts @ [?c])) fs"
    unfolding doc_at_def
  proof (intro conjI allI impI)
    show "list_all right_open fs"
      using t(3) by (simp add: doc_at_def)
    show "holds_doc (nodes st2) (plug (JNode a ty s (ts @ [?c])) fs)"
      by (rule doc3)
  next
    fix x
    show "if x \<in> set (tree_addrs (plug (JNode a ty s (ts @ [?c])) fs)) then h0 x = None
      else nodes st2 x = h0 x"
      using out [of x] out [of ?n] free [of ?n] new other [of x] node ta unfolding addrs
      by (auto split: if_splits)
  next
    fix x
    assume "fresh st2 \<le> x"
    then have x: "x \<noteq> ?n" "fresh st \<le> x"
      using same fresh by auto
    then have "x \<notin> set (tree_addrs (plug t fs))"
      using holds_tree_live [of "nodes st" NULL NULL NULL "plug t fs" x] doc0 free
      by (auto simp: holds_doc_def)
    with x show "nodes st2 x = None"
      using other [of x] free [of x] node ta by simp
  qed
  then have at2: "doc_at h0 st2 ?c (Frame a ty s ts [] # fs)"
    by (simp add: doc_at_def)
  show ?thesis
  proof (rule that)
    show "json_insert_child p (Ptr ?n) st' = Some (JSON_OK, st2)" "mem st2 = mem st'"
      using ins t ta same by simp_all
    show "doc_rel h0 st2 p ((ty, s, ks @ [JVal ty' s' []]) # lv)"
      using at t ta
      by (auto simp: doc_rel_def levels_def intro!: exI [of _ "JNode a ty s (ts @ [?c])"] exI [of _ fs])
    show "doc_rel h0 st2 (Ptr ?n) ((ty', s', []) # (ty, s, ks) # lv)"
      using at2 t ta
      by (auto simp: doc_rel_def levels_def intro!: exI [of _ ?c] exI [of _ "Frame a ty s ts [] # fs"])
  qed
qed

section \<open>One turn of the loop is a step of the machine\<close>

definition lexer_of :: "parse_st \<Rightarrow> lexer_st" where
  "lexer_of ps = \<lparr>lx_p = pi_p (fst ps), lx_state = pi_lex_state (fst ps),
     lx_text = pi_lex_text (fst ps), lx_mem = mem (snd ps)\<rparr>"

definition parse_rel :: "bool \<Rightarrow> (nat \<Rightarrow> json_value option) \<Rightarrow> parse_st \<Rightarrow> nat \<Rightarrow> level list \<Rightarrow> bool" where
  "parse_rel g h0 ps q lv \<longleftrightarrow> pi_state (fst ps) = q \<and> doc_rel h0 (snd ps) (pi_cursor (fst ps)) lv \<and>
     wf_levels g lv \<and> state_ok q lv \<and> (g \<longrightarrow> generous (mem (snd ps)))"

text \<open>The turn goes on as the machine does, or memory has run out.\<close>

definition goes_on :: "bool \<Rightarrow> (nat \<Rightarrow> json_value option) \<Rightarrow> parse_st \<Rightarrow> nat \<times> level list \<Rightarrow>
    parse_outcome \<Rightarrow> bool" where
  "goes_on g h0 ps1 to out \<longleftrightarrow>
     (\<exists>ps'. out = Parsing ps' \<and> pi_state (fst ps') = fst to \<and>
        doc_rel h0 (snd ps') (pi_cursor (fst ps')) (snd to) \<and> keeps_lexer ps1 ps' \<and>
        grants (mem (snd ps')) = grants (mem (snd ps1))) \<or>
     (\<not> g \<and> (\<exists>ps'. out = Parsed JSON_MEMORY ps'))"

lemma goes_on_next_state:
  assumes "doc_rel h0 (snd ps) (pi_cursor (fst ps)) lv" and "keeps_lexer ps1 ps"
    and "grants (mem (snd ps)) = grants (mem (snd ps1))"
  shows "\<exists>out. next_state q ps = Some out \<and> goes_on g h0 ps1 (q, lv) out"
  using assms by (simp add: next_state_def goes_on_def keeps_lexer_def)

lemma goes_on_memory: "\<not> g \<Longrightarrow> \<exists>out. Some (Parsed JSON_MEMORY ps) = Some out \<and> goes_on g h0 ps1 to out"
  by (simp add: goes_on_def)

lemma may_hold_leaf:
  "ty \<in> {JSON_STRING, JSON_ARRAY} \<or> ty = JSON_OBJECT \<and> ty' = JSON_STRING \<Longrightarrow>
   may_hold ty (JNode a ty' s [])"
  by (auto simp: may_hold_def)

lemma add_value_goes_on:
  assumes doc: "doc_rel h0 (snd ps) (pi_cursor (fst ps)) ((ty, s, ks) # lv)"
    and may: "ty \<in> {JSON_STRING, JSON_ARRAY} \<or> ty = JSON_OBJECT \<and> ty' = JSON_STRING"
    and g: "g \<Longrightarrow> generous (mem (snd ps))"
    and k: "\<And>temp ps'. doc_rel h0 (snd ps') (pi_cursor (fst ps)) ((ty, s, ks @ [JVal ty' None []]) # lv) \<Longrightarrow>
      doc_rel h0 (snd ps') temp ((ty', None, []) # (ty, s, ks) # lv) \<Longrightarrow> fst ps' = fst ps \<Longrightarrow>
      grants (mem (snd ps')) = grants (mem (snd ps)) \<Longrightarrow>
      \<exists>out. k temp ps' = Some out \<and> goes_on g h0 ps1 to out"
  shows "\<exists>out. add_value ty' k ps = Some out \<and> goes_on g h0 ps1 to out"
proof (cases rule: json_new_value_cases [of ty' "snd ps"])
  case (oom m)
  then have "\<not> g"
    using g by blast
  with oom show ?thesis
    by (simp add: add_value_def goes_on_def)
next
  case (ok m)
  let ?n = "fresh (snd ps)"
  let ?st = "(snd ps)\<lparr>mem := m, nodes := (nodes (snd ps))(?n \<mapsto> cell NULL NULL NULL ty' None NULL NULL),
    fresh := Suc ?n\<rparr>"
  obtain st2 where ins: "json_insert_child (pi_cursor (fst ps)) (Ptr ?n) ?st = Some (JSON_OK, st2)"
    and st2: "mem st2 = mem ?st"
      "doc_rel h0 st2 (pi_cursor (fst ps)) ((ty, s, ks @ [JVal ty' None []]) # lv)"
      "doc_rel h0 st2 (Ptr ?n) ((ty', None, []) # (ty, s, ks) # lv)"
    using doc_rel_attach [OF doc, of ?st ty' None] may_hold_leaf [OF may] by auto
  have "add_value ty' k ps = k (Ptr ?n) (fst ps, st2)"
    using ok(1) ins by (simp add: add_value_def attach_def)
  then show ?thesis
    using k [of "(fst ps, st2)" "Ptr ?n"] st2 ok(2) by simp
qed

lemma add_text_goes_on:
  assumes doc: "doc_rel h0 (snd ps) (pi_cursor (fst ps)) ((ty, s, ks) # lv)"
    and may: "ty \<in> {JSON_STRING, JSON_ARRAY} \<or> ty = JSON_OBJECT \<and> ty' = JSON_STRING"
    and g: "g \<Longrightarrow> generous (mem (snd ps))" and x: "rcs_holds (pi_lex_text (fst ps)) x"
    and k: "\<And>y temp ps'. y = Some x \<or> y = None \<and> \<not> g \<Longrightarrow>
      doc_rel h0 (snd ps') (pi_cursor (fst ps)) ((ty, s, ks @ [JVal ty' y []]) # lv) \<Longrightarrow>
      doc_rel h0 (snd ps') temp ((ty', y, []) # (ty, s, ks) # lv) \<Longrightarrow>
      fst ps' = (fst ps)\<lparr>pi_lex_text := RcsNull\<rparr> \<Longrightarrow> grants (mem (snd ps')) = grants (mem (snd ps)) \<Longrightarrow>
      \<exists>out. k temp ps' = Some out \<and> goes_on g h0 ps1 (to y) out"
  shows "\<exists>y out. (y = Some x \<or> y = None \<and> \<not> g) \<and> add_text ty' k ps = Some out \<and> goes_on g h0 ps1 (to y) out"
proof (cases rule: json_new_value_cases [of ty' "snd ps"])
  case (oom m)
  then have "\<not> g"
    using g by blast
  with oom show ?thesis
    by (auto simp: add_text_def goes_on_def)
next
  case (ok m)
  let ?n = "fresh (snd ps)"
  obtain y m2 where y: "rcs_unwrap (pi_lex_text (fst ps)) m = Some (y, m2)" "grants m2 = grants m"
    "y = Some x \<or> y = None \<and> \<not> g"
    using g ok(2) by (cases rule: rcs_unwrap_spec [OF x, of m]) (auto simp: generous_def)
  let ?st = "(snd ps)\<lparr>fresh := Suc ?n, mem := m2,
    nodes := (nodes (snd ps))(?n \<mapsto> cell NULL NULL NULL ty' y NULL NULL)\<rparr>"
  obtain st2 where ins: "json_insert_child (pi_cursor (fst ps)) (Ptr ?n) ?st = Some (JSON_OK, st2)"
    and st2: "mem st2 = mem ?st"
      "doc_rel h0 st2 (pi_cursor (fst ps)) ((ty, s, ks @ [JVal ty' y []]) # lv)"
      "doc_rel h0 st2 (Ptr ?n) ((ty', y, []) # (ty, s, ks) # lv)"
    using doc_rel_attach [OF doc, of ?st ty' y] may_hold_leaf [OF may] by auto
  have "add_text ty' k ps = k (Ptr ?n) ((fst ps)\<lparr>pi_lex_text := RcsNull\<rparr>, st2)"
    using ok(1) y(1) ins by (simp add: add_text_def attach_def modify_def Let_def)
  then show ?thesis
    using k [of y "((fst ps)\<lparr>pi_lex_text := RcsNull\<rparr>, st2)" "Ptr ?n"] st2 ok(2) y by auto
qed

lemma goes_on_cursor:
  assumes "doc_rel h0 (snd ps) p lv" and "keeps_lexer ps1 ps"
    and "grants (mem (snd ps)) = grants (mem (snd ps1))"
  shows "\<exists>out. next_state q (set_cursor p ps) = Some out \<and> goes_on g h0 ps1 (q, lv) out"
  using assms by (intro goes_on_next_state) (auto simp: set_cursor_def keeps_lexer_def)

lemma member_done_goes_on:
  assumes "doc_rel h0 (snd ps) (pi_cursor (fst ps)) ((ty, s, ks) # l # lv)" and "keeps_lexer ps1 ps"
    and "grants (mem (snd ps)) = grants (mem (snd ps1))"
  shows "\<exists>out. member_done temp ps = Some out \<and> goes_on g h0 ps1 (3, pop ((ty, s, ks) # l # lv)) out"
proof -
  obtain v where v: "fetch (pi_cursor (fst ps)) (snd ps) = Some v" "jv_parent v \<noteq> NULL"
    "doc_rel h0 (snd ps) (jv_parent v) (pop ((ty, s, ks) # l # lv))"
    using doc_rel_top [OF assms(1)] by (metis list.distinct(1))
  then show ?thesis
    using goes_on_cursor [OF v(3) assms(2,3), of 3 g] by (simp add: member_done_def)
qed

lemmas member_done_goes_on' = member_done_goes_on [where l = "(ty', s', ks')" for ty' s' ks', unfolded pop.simps]

lemma leave_goes_on:
  assumes doc: "doc_rel h0 (snd ps) (pi_cursor (fst ps)) lv" and wf: "wf_levels g lv"
    and top: "top_type lv \<in> {Some JSON_OBJECT, Some JSON_ARRAY}"
    and keeps: "keeps_lexer ps1 ps" "grants (mem (snd ps)) = grants (mem (snd ps1))"
  shows "\<exists>out. end_object ps = Some out \<and> goes_on g h0 ps1 (leave lv) out"
    and "\<exists>out. end_array orphan ps = Some out \<and> goes_on g h0 ps1 (leave lv) out"
proof -
  obtain ty s ks lv1 where lv: "lv = (ty, s, ks) # lv1"
    using top by (cases lv) auto
  obtain v where v: "fetch (pi_cursor (fst ps)) (snd ps) = Some v" "jv_parent v = NULL \<longleftrightarrow> lv1 = []"
    "lv1 \<noteq> [] \<Longrightarrow> doc_rel h0 (snd ps) (jv_parent v) (pop lv)"
    using doc_rel_top doc unfolding lv by metis
  have "(\<exists>out. end_object ps = Some out \<and> goes_on g h0 ps1 (leave lv) out) \<and>
    (\<exists>out. end_array orphan ps = Some out \<and> goes_on g h0 ps1 (leave lv) out)"
  proof (cases "lv1 = []")
    case True
    then show ?thesis
      using v goes_on_next_state [OF doc keeps, of 99 g] lv
      by (simp add: end_object_def end_array_def leave_def)
  next
    case False
    then obtain ty2 s2 ks2 lv2 where lv1: "lv1 = (ty2, s2, ks2) # lv2"
      by (cases lv1) auto
    let ?p = "jv_parent v"
    have doc2: "doc_rel h0 (snd ps) ?p ((ty2, s2, ks2 @ [JVal ty s ks]) # lv2)"
      using v(3) False lv lv1 by simp
    obtain w where w: "fetch ?p (snd ps) = Some w" "jv_type w = ty2" "jv_parent w = NULL \<longleftrightarrow> lv2 = []"
      "lv2 \<noteq> [] \<Longrightarrow> doc_rel h0 (snd ps) (jv_parent w) (pop ((ty2, s2, ks2 @ [JVal ty s ks]) # lv2))"
      using doc_rel_top [OF doc2] by metis
    have "ty2 = JSON_ARRAY \<or> ty2 = JSON_STRING"
      using wf top lv lv1 by (auto simp: value_place_def)
    then show ?thesis
    proof
      assume ty2: "ty2 = JSON_ARRAY"
      then have "leave lv = (9, (ty2, s2, ks2 @ [JVal ty s ks]) # lv2)"
        by (simp add: leave_def lv lv1)
      then show ?thesis
        using goes_on_cursor [OF doc2 keeps, of 9 g] v False w ty2
        by (simp add: end_object_def end_array_def Let_def) (simp add: set_cursor_def)
    next
      assume ty2: "ty2 = JSON_STRING"
      then obtain s3 ks3 lv3 where lv2: "lv2 = (JSON_OBJECT, s3, ks3) # lv3"
        using wf lv lv1 by (cases lv2) auto
      let ?q = "jv_parent w"
      have doc3: "doc_rel h0 (snd ps) ?q (pop ((ty2, s2, ks2 @ [JVal ty s ks]) # lv2))"
        using w(4) lv2 by simp
      then obtain u where u: "fetch ?q (snd ps) = Some u" "jv_type u = JSON_OBJECT"
        using doc_rel_top lv2 by (metis pop.simps(1))
      have "leave lv = (3, pop ((ty2, s2, ks2 @ [JVal ty s ks]) # lv2))"
        using ty2 by (simp add: leave_def lv lv1)
      then show ?thesis
        using goes_on_cursor [of h0 "set_cursor ?p ps" ?q _ ps1 3 g] doc3 keeps v False w ty2 u lv2
        by (simp add: end_object_def end_array_def Let_def) (simp add: set_cursor_def keeps_lexer_def)
    qed
  qed
  then show "\<exists>out. end_object ps = Some out \<and> goes_on g h0 ps1 (leave lv) out"
    "\<exists>out. end_array orphan ps = Some out \<and> goes_on g h0 ps1 (leave lv) out"
    by blast+
qed

text \<open>The error a value of the lexer leads to where the machine has no step.\<close>

definition reject_error :: "nat \<Rightarrow> lex_value \<Rightarrow> json_error" where
  "reject_error q v =
     (if v = LEX_MORE \<and> q = 99 then JSON_WAITING_FOR_EOF
      else if v = LEX_MORE \<and> q \<noteq> 0 then JSON_INCOMPLETE_DOCUMENT
      else if v = LEX_MEMORY \<and> q \<in> {6, 99} then JSON_MEMORY
      else JSON_MALFORMED_DOCUMENT)"

definition answers :: "bool \<Rightarrow> (nat \<Rightarrow> json_value option) \<Rightarrow> nat \<Rightarrow> lex_value \<Rightarrow> string option \<Rightarrow>
    level list \<Rightarrow> parse_st \<Rightarrow> parse_outcome \<Rightarrow> bool" where
  "answers g h0 q v s lv ps1 out =
     (case shape_token q v s lv of
        None \<Rightarrow> out = Parsed (reject_error q v) ps1
      | Some to \<Rightarrow> goes_on g h0 ps1 to out)"

text \<open>The text the parser takes over with a string or number; it is lost when memory is.\<close>

definition text_of :: "bool \<Rightarrow> lex_value \<Rightarrow> string option \<Rightarrow> parse_st \<Rightarrow> bool" where
  "text_of g v s ps1 \<longleftrightarrow> (v \<in> {LEX_STRING, LEX_NUMBER} \<longrightarrow>
     (\<exists>x. rcs_holds (pi_lex_text (fst ps1)) x \<and> (s = Some x \<or> s = None \<and> \<not> g)))"

lemma answers_rejectI:
  assumes "v \<in> {LEX_STRING, LEX_NUMBER} \<Longrightarrow> \<exists>x. rcs_holds (pi_lex_text (fst ps1)) x"
    and "H = Some (Parsed (reject_error q v) ps1)" and "\<And>s. shape_token q v s lv = None"
  shows "\<exists>s out. text_of g v s ps1 \<and> H = Some out \<and> answers g h0 q v s lv ps1 out"
proof (cases "v \<in> {LEX_STRING, LEX_NUMBER}")
  case True
  then obtain x where "rcs_holds (pi_lex_text (fst ps1)) x"
    using assms(1) by blast
  then show ?thesis
    using assms(2,3) by (intro exI [of _ "Some x"]) (auto simp: text_of_def answers_def)
next
  case False
  then show ?thesis
    using assms(2,3) by (auto simp: text_of_def answers_def)
qed

lemma answers_goI:
  assumes "v \<notin> {LEX_STRING, LEX_NUMBER}" and "shape_token q v None lv = Some to"
    and "\<exists>out. H = Some out \<and> goes_on g h0 ps1 to out"
  shows "\<exists>s out. text_of g v s ps1 \<and> H = Some out \<and> answers g h0 q v s lv ps1 out"
  using assms by (intro exI [of _ None]) (auto simp: text_of_def answers_def)

lemma answers_textI:
  assumes "rcs_holds (pi_lex_text (fst ps1)) x" and "\<And>y. shape_token q v y lv = Some (to y)"
    and "\<exists>y out. (y = Some x \<or> y = None \<and> \<not> g) \<and> H = Some out \<and> goes_on g h0 ps1 (to y) out"
  shows "\<exists>s out. text_of g v s ps1 \<and> H = Some out \<and> answers g h0 q v s lv ps1 out"
  using assms by (auto simp: text_of_def answers_def)

text \<open>What the parser knows when the lexer has returned.\<close>

definition token_read :: "bool \<Rightarrow> (nat \<Rightarrow> json_value option) \<Rightarrow> parse_st \<Rightarrow> nat \<Rightarrow> level list \<Rightarrow>
    lex_value \<Rightarrow> bool" where
  "token_read g h0 ps1 q lv v \<longleftrightarrow> parse_rel g h0 ps1 q lv \<and>
     (v \<in> {LEX_STRING, LEX_NUMBER} \<longrightarrow> (\<exists>x. rcs_holds (pi_lex_text (fst ps1)) x))"

lemma token_readD:
  assumes "token_read g h0 ps1 q lv v"
  shows "doc_rel h0 (snd ps1) (pi_cursor (fst ps1)) lv" and "wf_levels g lv" and "state_ok q lv"
    and "g \<Longrightarrow> generous (mem (snd ps1))"
    and "v \<in> {LEX_STRING, LEX_NUMBER} \<Longrightarrow> \<exists>x. rcs_holds (pi_lex_text (fst ps1)) x"
  using assms by (auto simp: token_read_def parse_rel_def)

lemma go:
  assumes tr: "token_read g h0 ps1 q lv v"
  shows "\<exists>out. next_state n ps1 = Some out \<and> goes_on g h0 ps1 (n, lv) out"
  by (rule goes_on_next_state [OF token_readD(1) [OF tr]]) (simp_all add: keeps_lexer_def)

lemma leave1:
  assumes tr: "token_read g h0 ps1 q lv v" and "q \<in> {2, 3, 8, 9}"
  shows "\<exists>out. end_object ps1 = Some out \<and> goes_on g h0 ps1 (leave lv) out"
    and "\<exists>out. end_array orphan ps1 = Some out \<and> goes_on g h0 ps1 (leave lv) out"
proof -
  have "top_type lv \<in> {Some JSON_OBJECT, Some JSON_ARRAY}"
    using assms(2) token_readD(3) [OF tr] by auto
  then show "\<exists>out. end_object ps1 = Some out \<and> goes_on g h0 ps1 (leave lv) out"
    "\<exists>out. end_array orphan ps1 = Some out \<and> goes_on g h0 ps1 (leave lv) out"
    using leave_goes_on [OF token_readD(1,2) [OF tr]] by simp_all
qed

text \<open>A label, a leaf as the value of a label, a leaf in an array.\<close>

lemma new_label:
  assumes tr: "token_read g h0 ps1 q lv v"
    and q: "q \<in> {2, 4}" and v: "v = LEX_STRING"
  shows "\<exists>s out. text_of g v s ps1 \<and>
    add_text JSON_STRING (\<lambda>temp ps. next_state 5 (set_cursor temp ps)) ps1 = Some out \<and>
    answers g h0 q v s lv ps1 out"
proof -
  note doc = token_readD(1) [OF tr] and ok = token_readD(3) [OF tr] and mem_g = token_readD(4) [OF tr]
    and has_text = token_readD(5) [OF tr]
  obtain x where x: "rcs_holds (pi_lex_text (fst ps1)) x"
    using has_text v by auto
  obtain s0 ks lv1 where lv: "lv = (JSON_OBJECT, s0, ks) # lv1"
    using ok q by (cases lv) auto
  show ?thesis
    by (rule answers_textI [OF x, where to = "\<lambda>y. (5, (JSON_STRING, y, []) # lv)"],
        use q v in \<open>simp add: shape_token_def\<close>,
        rule add_text_goes_on [OF doc [unfolded lv] _ mem_g x], simp)
      (auto simp: lv keeps_lexer_def intro!: goes_on_cursor)
qed

lemma leaf_in_array:
  assumes tr: "token_read g h0 ps1 q lv v"
    and q: "q = 8" and v: "leaf_type v = Some ty"
  shows "v \<in> {LEX_STRING, LEX_NUMBER} \<Longrightarrow> \<exists>s out. text_of g v s ps1 \<and>
      add_text ty (\<lambda>_. next_state 9) ps1 = Some out \<and> answers g h0 q v s lv ps1 out"
    and "v \<notin> {LEX_STRING, LEX_NUMBER} \<Longrightarrow> \<exists>s out. text_of g v s ps1 \<and>
      add_value ty (\<lambda>_. next_state 9) ps1 = Some out \<and> answers g h0 q v s lv ps1 out"
proof -
  note doc = token_readD(1) [OF tr] and ok = token_readD(3) [OF tr] and mem_g = token_readD(4) [OF tr]
    and has_text = token_readD(5) [OF tr]
  obtain s0 ks lv1 where lv: "lv = (JSON_ARRAY, s0, ks) # lv1"
    using ok q by (cases lv) auto
  have step: "shape_token q v y lv = Some (9, pop ((ty, leaf_text v y, []) # lv))" for y
    using q v by (auto simp: shape_token_def leaf_type_def split: lex_value.splits)
  {
    assume tx: "v \<in> {LEX_STRING, LEX_NUMBER}"
    obtain x where x: "rcs_holds (pi_lex_text (fst ps1)) x"
      using has_text tx by auto
    show "\<exists>s out. text_of g v s ps1 \<and>
      add_text ty (\<lambda>_. next_state 9) ps1 = Some out \<and> answers g h0 q v s lv ps1 out"
      by (rule answers_textI [OF x step], rule add_text_goes_on [OF doc [unfolded lv] _ mem_g x], simp)
        (use tx in \<open>auto simp: lv keeps_lexer_def leaf_text_def intro!: goes_on_next_state\<close>)
  next
    assume tx: "v \<notin> {LEX_STRING, LEX_NUMBER}"
    show "\<exists>s out. text_of g v s ps1 \<and>
      add_value ty (\<lambda>_. next_state 9) ps1 = Some out \<and> answers g h0 q v s lv ps1 out"
      by (rule answers_goI [OF tx step], rule add_value_goes_on [OF doc [unfolded lv] _ mem_g], simp)
        (use tx in \<open>auto simp: lv keeps_lexer_def leaf_text_def intro!: goes_on_next_state\<close>)
  }
qed

lemma leaf_of_label:
  assumes tr: "token_read g h0 ps1 q lv v"
    and q: "q = 6" and v: "leaf_type v = Some ty"
  shows "v \<in> {LEX_STRING, LEX_NUMBER} \<Longrightarrow> \<exists>s out. text_of g v s ps1 \<and>
      add_text ty member_done ps1 = Some out \<and> answers g h0 q v s lv ps1 out"
    and "v \<notin> {LEX_STRING, LEX_NUMBER} \<Longrightarrow> \<exists>s out. text_of g v s ps1 \<and>
      add_value ty member_done ps1 = Some out \<and> answers g h0 q v s lv ps1 out"
proof -
  note doc = token_readD(1) [OF tr] and ok = token_readD(3) [OF tr] and mem_g = token_readD(4) [OF tr]
    and has_text = token_readD(5) [OF tr]
  obtain s0 ks lv1 where lv1: "lv = (JSON_STRING, s0, ks) # lv1"
    using ok q by (cases lv) auto
  then obtain s1 ks1 lv2 where lv: "lv = (JSON_STRING, s0, ks) # (JSON_OBJECT, s1, ks1) # lv2"
    using token_readD(2) [OF tr] by (cases lv1) auto
  have step: "shape_token q v y lv = Some (3, pop (pop ((ty, leaf_text v y, []) # lv)))" for y
    using q v by (auto simp: shape_token_def leaf_type_def split: lex_value.splits)
  {
    assume tx: "v \<in> {LEX_STRING, LEX_NUMBER}"
    obtain x where x: "rcs_holds (pi_lex_text (fst ps1)) x"
      using has_text tx by auto
    show "\<exists>s out. text_of g v s ps1 \<and>
      add_text ty member_done ps1 = Some out \<and> answers g h0 q v s lv ps1 out"
      by (rule answers_textI [OF x step], rule add_text_goes_on [OF doc [unfolded lv] _ mem_g x], simp)
        (use tx in \<open>auto simp: lv keeps_lexer_def leaf_text_def intro!: member_done_goes_on'\<close>)
  next
    assume tx: "v \<notin> {LEX_STRING, LEX_NUMBER}"
    show "\<exists>s out. text_of g v s ps1 \<and>
      add_value ty member_done ps1 = Some out \<and> answers g h0 q v s lv ps1 out"
      by (rule answers_goI [OF tx step], rule add_value_goes_on [OF doc [unfolded lv] _ mem_g], simp)
        (use tx in \<open>auto simp: lv keeps_lexer_def leaf_text_def intro!: member_done_goes_on'\<close>)
  }
qed

lemma rejected:
  assumes tr: "token_read g h0 ps1 q lv v"
    and "H = Some (Parsed (reject_error q v) ps1)" and "\<And>s. shape_token q v s lv = None"
  shows "\<exists>s out. text_of g v s ps1 \<and> H = Some out \<and> answers g h0 q v s lv ps1 out"
  by (rule answers_rejectI [OF token_readD(5) [OF tr] assms(2,3)])

text \<open>Every state that reads a token.\<close>

lemma parse_start_answers:
  assumes tr: "token_read g h0 ps1 0 lv v"
  shows "\<exists>s out. text_of g v s ps1 \<and>
    (case v of LEX_BEGIN_OBJECT \<Rightarrow> next_state 1 ps1 | LEX_BEGIN_ARRAY \<Rightarrow> next_state 7 ps1
     | _ \<Rightarrow> malformed ps1) = Some out \<and> answers g h0 0 v s lv ps1 out"
proof (cases "v = LEX_BEGIN_OBJECT \<or> v = LEX_BEGIN_ARRAY")
  case True
  then show ?thesis
    using answers_goI [OF _ _ go [OF tr, of 1]] answers_goI [OF _ _ go [OF tr, of 7]]
    by (auto simp: shape_token_def)
next
  case False
  then show ?thesis
    by (intro rejected [OF tr])
      (cases v; simp add: malformed_def reject_error_def shape_token_def leaf_type_def)+
qed

lemmas reject_simps = malformed_def incomplete_def reject_error_def shape_token_def leaf_type_def

lemma parse_in_object_answers:
  assumes tr: "token_read g h0 ps1 2 lv v"
  shows "\<exists>s out. text_of g v s ps1 \<and>
    (case v of
       LEX_STRING \<Rightarrow> add_text JSON_STRING (\<lambda>temp ps. next_state 5 (set_cursor temp ps)) ps1
     | LEX_END_OBJECT \<Rightarrow> end_object ps1
     | LEX_MORE \<Rightarrow> incomplete ps1
     | _ \<Rightarrow> malformed ps1) = Some out \<and> answers g h0 2 v s lv ps1 out"
proof -
  consider "v = LEX_STRING" | "v = LEX_END_OBJECT" | "v \<notin> {LEX_STRING, LEX_END_OBJECT}"
    by blast
  then show ?thesis
  proof cases
    case 1
    then show ?thesis using new_label [OF tr] by simp
  next
    case 2
    then show ?thesis
      using answers_goI [OF _ _ leave1(1) [OF tr]] by (simp add: shape_token_def)
  next
    case 3
    then show ?thesis
      by (intro rejected [OF tr]) (cases v; simp add: reject_simps)+
  qed
qed

lemma parse_after_member_answers:
  assumes tr: "token_read g h0 ps1 3 lv v"
  shows "\<exists>s out. text_of g v s ps1 \<and>
    (case v of
       LEX_VALUE_SEPARATOR \<Rightarrow> next_state 4 ps1
     | LEX_END_OBJECT \<Rightarrow> end_object ps1
     | LEX_MORE \<Rightarrow> incomplete ps1
     | _ \<Rightarrow> malformed ps1) = Some out \<and> answers g h0 3 v s lv ps1 out"
proof -
  consider "v = LEX_VALUE_SEPARATOR" | "v = LEX_END_OBJECT" | "v \<notin> {LEX_VALUE_SEPARATOR, LEX_END_OBJECT}"
    by blast
  then show ?thesis
  proof cases
    case 1
    then show ?thesis
      using answers_goI [OF _ _ go [OF tr, of 4]] by (simp add: shape_token_def)
  next
    case 2
    then show ?thesis
      using answers_goI [OF _ _ leave1(1) [OF tr]] by (simp add: shape_token_def)
  next
    case 3
    then show ?thesis
      by (intro rejected [OF tr]) (cases v; simp add: reject_simps)+
  qed
qed

lemma parse_next_member_answers:
  assumes tr: "token_read g h0 ps1 4 lv v"
  shows "\<exists>s out. text_of g v s ps1 \<and>
    (case v of
       LEX_STRING \<Rightarrow> add_text JSON_STRING (\<lambda>temp ps. next_state 5 (set_cursor temp ps)) ps1
     | LEX_MORE \<Rightarrow> incomplete ps1
     | _ \<Rightarrow> malformed ps1) = Some out \<and> answers g h0 4 v s lv ps1 out"
proof (cases "v = LEX_STRING")
  case True
  then show ?thesis using new_label [OF tr] by simp
next
  case False
  then show ?thesis
    by (intro rejected [OF tr]) (cases v; simp add: reject_simps)+
qed

lemma parse_colon_answers:
  assumes tr: "token_read g h0 ps1 5 lv v"
  shows "\<exists>s out. text_of g v s ps1 \<and>
    (case v of
       LEX_NAME_SEPARATOR \<Rightarrow> next_state 6 ps1
     | LEX_MORE \<Rightarrow> incomplete ps1
     | _ \<Rightarrow> malformed ps1) = Some out \<and> answers g h0 5 v s lv ps1 out"
proof (cases "v = LEX_NAME_SEPARATOR")
  case True
  then show ?thesis
    using answers_goI [OF _ _ go [OF tr, of 6]] by (simp add: shape_token_def leaf_type_def)
next
  case False
  then show ?thesis
    by (intro rejected [OF tr]) (cases v; simp add: reject_simps)+
qed

lemma parse_member_value_answers:
  assumes tr: "token_read g h0 ps1 6 lv v"
  shows "\<exists>s out. text_of g v s ps1 \<and>
    (case v of
       LEX_STRING \<Rightarrow> add_text JSON_STRING member_done ps1
     | LEX_NUMBER \<Rightarrow> add_text JSON_NUMBER member_done ps1
     | LEX_TRUE \<Rightarrow> add_value JSON_TRUE member_done ps1
     | LEX_FALSE \<Rightarrow> add_value JSON_FALSE member_done ps1
     | LEX_NULL \<Rightarrow> add_value JSON_NULL member_done ps1
     | LEX_BEGIN_OBJECT \<Rightarrow> next_state 1 ps1
     | LEX_BEGIN_ARRAY \<Rightarrow> next_state 7 ps1
     | LEX_MORE \<Rightarrow> incomplete ps1
     | LEX_MEMORY \<Rightarrow> Some (Parsed JSON_MEMORY ps1)
     | _ \<Rightarrow> malformed ps1) = Some out \<and> answers g h0 6 v s lv ps1 out"
proof -
  consider (leaf) ty where "leaf_type v = Some ty" | "v = LEX_BEGIN_OBJECT" | "v = LEX_BEGIN_ARRAY"
    | "leaf_type v = None" "v \<notin> {LEX_BEGIN_OBJECT, LEX_BEGIN_ARRAY}"
    by (cases "leaf_type v") auto
  then show ?thesis
  proof cases
    case leaf
    then show ?thesis
      using leaf_of_label [OF tr refl leaf] by (cases v) (simp_all add: leaf_type_def)
  next
    case 2
    then show ?thesis
      using answers_goI [OF _ _ go [OF tr, of 1]] by (simp add: shape_token_def)
  next
    case 3
    then show ?thesis
      using answers_goI [OF _ _ go [OF tr, of 7]] by (simp add: shape_token_def)
  next
    case 4
    then show ?thesis
      by (intro rejected [OF tr]) (cases v; simp add: reject_simps)+
  qed
qed

lemma parse_in_array_answers:
  assumes tr: "token_read g h0 ps1 8 lv v"
  shows "\<exists>s out. text_of g v s ps1 \<and>
    (case v of
       LEX_STRING \<Rightarrow> add_text JSON_STRING (\<lambda>_. next_state 9) ps1
     | LEX_NUMBER \<Rightarrow> add_text JSON_NUMBER (\<lambda>_. next_state 9) ps1
     | LEX_TRUE \<Rightarrow> add_value JSON_TRUE (\<lambda>_. next_state 9) ps1
     | LEX_FALSE \<Rightarrow> add_value JSON_FALSE (\<lambda>_. next_state 9) ps1
     | LEX_NULL \<Rightarrow> add_value JSON_NULL (\<lambda>_. next_state 9) ps1
     | LEX_BEGIN_ARRAY \<Rightarrow> next_state 7 ps1
     | LEX_END_ARRAY \<Rightarrow> end_array (\<lambda>ps. Some (Parsed JSON_BAD_TREE_STRUCTURE ps)) ps1
     | LEX_BEGIN_OBJECT \<Rightarrow> next_state 1 ps1
     | LEX_MORE \<Rightarrow> incomplete ps1
     | _ \<Rightarrow> malformed ps1) = Some out \<and> answers g h0 8 v s lv ps1 out"
proof -
  consider (leaf) ty where "leaf_type v = Some ty" | "v = LEX_BEGIN_OBJECT" | "v = LEX_BEGIN_ARRAY"
    | "v = LEX_END_ARRAY"
    | "leaf_type v = None" "v \<notin> {LEX_BEGIN_OBJECT, LEX_BEGIN_ARRAY, LEX_END_ARRAY}"
    by (cases "leaf_type v") auto
  then show ?thesis
  proof cases
    case leaf
    then show ?thesis
      using leaf_in_array [OF tr refl leaf] by (cases v) (simp_all add: leaf_type_def)
  next
    case 2
    then show ?thesis
      using answers_goI [OF _ _ go [OF tr, of 1]] by (simp add: shape_token_def)
  next
    case 3
    then show ?thesis
      using answers_goI [OF _ _ go [OF tr, of 7]] by (simp add: shape_token_def)
  next
    case 4
    then show ?thesis
      using answers_goI [OF _ _ leave1(2) [OF tr]] by (simp add: shape_token_def)
  next
    case 5
    then show ?thesis
      by (intro rejected [OF tr]) (cases v; simp add: reject_simps)+
  qed
qed

lemma parse_after_element_answers:
  assumes tr: "token_read g h0 ps1 9 lv v"
  shows "\<exists>s out. text_of g v s ps1 \<and>
    (case v of
       LEX_VALUE_SEPARATOR \<Rightarrow> next_state 8 ps1
     | LEX_END_ARRAY \<Rightarrow> end_array (next_state 99) ps1
     | LEX_MORE \<Rightarrow> incomplete ps1
     | _ \<Rightarrow> malformed ps1) = Some out \<and> answers g h0 9 v s lv ps1 out"
proof -
  consider "v = LEX_VALUE_SEPARATOR" | "v = LEX_END_ARRAY" | "v \<notin> {LEX_VALUE_SEPARATOR, LEX_END_ARRAY}"
    by blast
  then show ?thesis
  proof cases
    case 1
    then show ?thesis
      using answers_goI [OF _ _ go [OF tr, of 8]] by (simp add: shape_token_def)
  next
    case 2
    then show ?thesis
      using answers_goI [OF _ _ leave1(2) [OF tr]] by (simp add: shape_token_def)
  next
    case 3
    then show ?thesis
      by (intro rejected [OF tr]) (cases v; simp add: reject_simps)+
  qed
qed

lemma parse_finished_answers:
  assumes tr: "token_read g h0 ps1 99 lv v"
  shows "\<exists>s out. text_of g v s ps1 \<and>
    (case v of
       LEX_MORE \<Rightarrow> Some (Parsed JSON_WAITING_FOR_EOF ps1)
     | LEX_MEMORY \<Rightarrow> Some (Parsed JSON_MEMORY ps1)
     | _ \<Rightarrow> malformed ps1) = Some out \<and> answers g h0 99 v s lv ps1 out"
  by (intro rejected [OF tr]) (cases v; simp add: reject_simps)+

end
