(* ===== verification/JsonPrint.thy ===== *)
theory JsonPrint
  imports JsonHeap
begin

text \<open>
  \<open>json_tree_to_string\<close> of \<open>net_libs/libbase/src/json.c\<close>: an iterative walk over the linked
  tree with two labels, \<open>state1\<close> (open a value) and \<open>state2\<close> (close it), that the code reaches
  with \<open>goto\<close>.
\<close>

section \<open>The walk\<close>

text \<open>Where a block of the function goes next.\<close>

datatype walk = OpenValue ptr sink | CloseValue ptr sink | WalkEnd sink | WalkReturn json_error sink

text \<open>\<open>if (rcs_catc (output, c) != RS_OK) return JSON_MEMORY;\<close> and the same for \<open>rcs_catcs\<close>.\<close>

definition walk_catc :: "char \<Rightarrow> (sink \<Rightarrow> walk option) \<Rightarrow> sink \<Rightarrow> walk option" where
  "walk_catc c k out = do {
     (code, p, m) \<leftarrow> rcs_catc (fst out) c (snd out);
     if code \<noteq> RS_OK then Some (WalkReturn JSON_MEMORY (p, m)) else k (p, m)
   }"

definition walk_catcs :: "string \<Rightarrow> (sink \<Rightarrow> walk option) \<Rightarrow> sink \<Rightarrow> walk option" where
  "walk_catcs x k out = do {
     (code, p, m) \<leftarrow> rcs_catcs (fst out) x (length x) (snd out);
     if code \<noteq> RS_OK then Some (WalkReturn JSON_MEMORY (p, m)) else k (p, m)
   }"

text \<open>A label without a value: the output is freed and the error returned.\<close>

definition walk_bad :: "sink \<Rightarrow> walk option" where
  "walk_bad out = do { p \<leftarrow> rcs_free (fst out); Some (WalkReturn JSON_BAD_TREE_STRUCTURE (p, snd out)) }"

definition walk_down :: "ptr \<Rightarrow> json_value \<Rightarrow> sink \<Rightarrow> walk option" where
  "walk_down cursor v out =
     Some (if jv_child v \<noteq> NULL then OpenValue (jv_child v) out else CloseValue cursor out)"

text \<open>Behind the closing quote: a colon when the string is a label.\<close>

definition open_label :: "ptr \<Rightarrow> json_value \<Rightarrow> store \<Rightarrow> sink \<Rightarrow> walk option" where
  "open_label cursor v st out =
     (if jv_parent v \<noteq> NULL then do {
        p \<leftarrow> fetch (jv_parent v) st;
        if jv_type p = JSON_OBJECT
        then (if jv_child v \<noteq> NULL then walk_catc (CHR '':'') (walk_down cursor v) out
              else walk_bad out)
        else walk_down cursor v out
      }
      else (if jv_child v \<noteq> NULL then walk_catc (CHR '':'') (walk_down cursor v) out
            else walk_bad out))"

definition open_string :: "ptr \<Rightarrow> json_value \<Rightarrow> store \<Rightarrow> sink \<Rightarrow> walk option" where
  "open_string cursor v st =
     walk_catc QUOTE (\<lambda>out. do {
       s \<leftarrow> jv_text v;
       walk_catcs s (walk_catc QUOTE (open_label cursor v st)) out
     })"

definition open_head :: "ptr \<Rightarrow> json_value \<Rightarrow> store \<Rightarrow> sink \<Rightarrow> walk option" where
  "open_head cursor v st =
     (case jv_type v of
        JSON_STRING \<Rightarrow> open_string cursor v st
      | JSON_NUMBER \<Rightarrow> (\<lambda>out. do {
          s \<leftarrow> jv_text v;
          walk_catcs s (\<lambda>out. Some (CloseValue cursor out)) out
        })
      | JSON_OBJECT \<Rightarrow> walk_catc (CHR ''{'') (walk_down cursor v)
      | JSON_ARRAY \<Rightarrow> walk_catc (CHR ''['') (walk_down cursor v)
      | JSON_TRUE \<Rightarrow> walk_catcs ''true'' (\<lambda>out. Some (CloseValue cursor out))
      | JSON_FALSE \<Rightarrow> walk_catcs ''false'' (\<lambda>out. Some (CloseValue cursor out))
      | JSON_NULL \<Rightarrow> walk_catcs ''null'' (\<lambda>out. Some (CloseValue cursor out)))"

definition open_value :: "ptr \<Rightarrow> ptr \<Rightarrow> store \<Rightarrow> sink \<Rightarrow> walk option" where
  "open_value root cursor st out = do {
     v \<leftarrow> fetch cursor st;
     if jv_previous v \<noteq> NULL \<and> cursor \<noteq> root
     then walk_catc (CHR '','') (open_head cursor v st) out
     else open_head cursor v st out
   }"

definition close_value :: "ptr \<Rightarrow> ptr \<Rightarrow> store \<Rightarrow> sink \<Rightarrow> walk option" where
  "close_value root cursor st out = do {
     v \<leftarrow> fetch cursor st;
     let leave = (\<lambda>out.
       if jv_parent v = NULL \<or> cursor = root then Some (WalkEnd out)
       else if jv_next v \<noteq> NULL then Some (OpenValue (jv_next v) out)
       else Some (CloseValue (jv_parent v) out));
     (case jv_type v of
        JSON_OBJECT \<Rightarrow> walk_catc (CHR ''}'') leave out
      | JSON_ARRAY \<Rightarrow> walk_catc (CHR '']'') leave out
      | _ \<Rightarrow> leave out)
   }"

text \<open>
  The fuel bounds the number of blocks executed; on a tree of \<open>n\<close> nodes \<open>2 * n\<close> are enough
  (\<open>walk_tree\<close> below).  \<open>old\<close> is the cell behind the out parameter; it is only
  written at \<open>end\<close>.
\<close>

fun walk_loop :: "nat \<Rightarrow> ptr \<Rightarrow> store \<Rightarrow> string option \<Rightarrow> walk \<Rightarrow>
    (json_error \<times> string option \<times> allocator) option" where
  "walk_loop fuel root st old (WalkReturn e out) = Some (e, old, snd out)"
| "walk_loop fuel root st old (WalkEnd out) = do {
     (s, m) \<leftarrow> rcs_unwrap (fst out) (snd out);
     Some (JSON_OK, s, m)
   }"
| "walk_loop 0 root st old w = None"
| "walk_loop (Suc fuel) root st old (OpenValue cursor out) = do {
     w \<leftarrow> open_value root cursor st out;
     walk_loop fuel root st old w
   }"
| "walk_loop (Suc fuel) root st old (CloseValue cursor out) = do {
     w \<leftarrow> close_value root cursor st out;
     walk_loop fuel root st old w
   }"

definition json_tree_to_string ::
    "nat \<Rightarrow> ptr \<Rightarrow> string option \<Rightarrow> store \<Rightarrow> (json_error \<times> string option \<times> store) option" where
  "json_tree_to_string fuel root old st =
     (if root = NULL then None
      else let (output, m) = rcs_create 5 (mem st) in do {
        (e, old, m) \<leftarrow> walk_loop fuel root st old (OpenValue root (output, m));
        Some (e, old, st\<lparr>mem := m\<rparr>)
      })"

section \<open>The text of a tree\<close>

text \<open>
  The reference: \<open>None\<close> is the error \<open>JSON_BAD_TREE_STRUCTURE\<close>.  \<open>label\<close> says that a string
  stands where a label is expected (no parent, or an object as parent); the texts of strings
  and numbers are printed as they are stored.
\<close>

definition open_text :: "json_value_type \<Rightarrow> string" where
  "open_text ty = (case ty of JSON_OBJECT \<Rightarrow> ''{'' | JSON_ARRAY \<Rightarrow> ''['' | JSON_TRUE \<Rightarrow> ''true''
     | JSON_FALSE \<Rightarrow> ''false'' | JSON_NULL \<Rightarrow> ''null'' | _ \<Rightarrow> [])"

definition close_text :: "json_value_type \<Rightarrow> string" where
  "close_text ty = (case ty of JSON_OBJECT \<Rightarrow> ''}'' | JSON_ARRAY \<Rightarrow> '']'' | _ \<Rightarrow> [])"

fun head_text :: "bool \<Rightarrow> json_value_type \<Rightarrow> string option \<Rightarrow> bool \<Rightarrow> string option" where
  "head_text label JSON_STRING s has_kids =
     (if label \<and> \<not> has_kids then None
      else Some (QUOTE # the s @ QUOTE # (if label then '':'' else [])))"
| "head_text label JSON_NUMBER s has_kids = Some (the s)"
| "head_text label ty s has_kids = Some (open_text ty)"

definition visits_kids :: "json_value_type \<Rightarrow> bool" where
  "visits_kids ty \<longleftrightarrow> ty \<in> {JSON_STRING, JSON_OBJECT, JSON_ARRAY}"

fun tree_text :: "bool \<Rightarrow> jtree \<Rightarrow> string option"
and forest_text :: "bool \<Rightarrow> jtree list \<Rightarrow> string option" where
  "tree_text label (JNode a ty s ts) = do {
     x \<leftarrow> head_text label ty s (ts \<noteq> []);
     y \<leftarrow> (if visits_kids ty then forest_text (ty = JSON_OBJECT) ts else Some []);
     Some (x @ y @ close_text ty)
   }"
| "forest_text label [] = Some []"
| "forest_text label (t # ts) = do {
     x \<leftarrow> tree_text label t;
     y \<leftarrow> forest_text label ts;
     Some (x @ (if ts = [] then [] else CHR '','' # y))
   }"

text \<open>Strings and numbers have a text, which is a C string.\<close>

fun has_texts :: "jtree \<Rightarrow> bool" where
  "has_texts (JNode a ty s ts) \<longleftrightarrow>
     (ty \<in> {JSON_STRING, JSON_NUMBER} \<longrightarrow> (\<exists>x. s = Some x \<and> NUL \<notin> set x)) \<and>
     (\<forall>t \<in> set ts. has_texts t)"

section \<open>The walk prints the tree\<close>

declare split_paired_Ex [simp del]

lemma walk_catc_step:
  assumes "sink_holds out w" and "c \<noteq> NUL"
    and "\<And>out'. sink_holds out' (w @ [c]) \<Longrightarrow> \<exists>W. k out' = Some W \<and> P W"
  shows "\<exists>W. walk_catc c k out = Some W \<and> P W"
proof -
  from assms(1) have "rcs_holds (fst out) w" "generous (snd out)"
    by (auto simp: sink_holds_def)
  then show ?thesis
    using assms(2,3)
    by (cases rule: rcs_catc_spec [where c = c and m = "snd out"])
      (auto simp: walk_catc_def sink_holds_def c_string_id cong: generous_cong)
qed

lemma walk_catcs_step:
  assumes "sink_holds out w" and "NUL \<notin> set x"
    and "\<And>out'. sink_holds out' (w @ x) \<Longrightarrow> \<exists>W. k out' = Some W \<and> P W"
  shows "\<exists>W. walk_catcs x k out = Some W \<and> P W"
proof -
  from assms(1) have h: "rcs_holds (fst out) w" "generous (snd out)"
    by (auto simp: sink_holds_def)
  then show ?thesis
    using assms(2,3)
    by (cases rule: rcs_catcs_spec [OF h(1) refl, where pos = x and m = "snd out"])
      (auto simp: walk_catcs_def sink_holds_def c_string_id cong: generous_cong)
qed

lemma walk_bad_holds:
  "sink_holds out w \<Longrightarrow> \<exists>out'. walk_bad out = Some (WalkReturn JSON_BAD_TREE_STRUCTURE out') \<and> generous (snd out')"
  by (auto simp: sink_holds_def walk_bad_def rcs_free_def elim!: rcs_holdsE)

text \<open>The walk goes from one block to another in at most \<open>k\<close> turns.\<close>

definition reach :: "ptr \<Rightarrow> store \<Rightarrow> string option \<Rightarrow> nat \<Rightarrow> walk \<Rightarrow> walk \<Rightarrow> bool" where
  "reach root st old k x y \<longleftrightarrow>
     (\<exists>n \<le> k. \<forall>fuel. walk_loop (n + fuel) root st old x = walk_loop fuel root st old y)"

lemma reach_refl: "reach root st old k x x"
  unfolding reach_def by (rule exI [of _ 0]) simp

lemma reach_trans:
  assumes "reach root st old j x y" and "reach root st old k y z" and "j + k \<le> l"
  shows "reach root st old l x z"
proof -
  obtain m where m: "m \<le> j"
    "\<And>fuel. walk_loop (m + fuel) root st old x = walk_loop fuel root st old y"
    using assms(1) by (auto simp: reach_def)
  obtain n where n: "n \<le> k"
    "\<And>fuel. walk_loop (n + fuel) root st old y = walk_loop fuel root st old z"
    using assms(2) by (auto simp: reach_def)
  have "walk_loop ((m + n) + fuel) root st old x = walk_loop fuel root st old z" for fuel
    using m(2) [of "n + fuel"] n(2) by (simp add: add.assoc)
  moreover have "m + n \<le> l"
    using m(1) n(1) assms(3) by simp
  ultimately show ?thesis
    unfolding reach_def by blast
qed

lemma reach_open:
  "open_value root cursor st out = Some y \<Longrightarrow> reach root st old 1 (OpenValue cursor out) y"
  unfolding reach_def by (rule exI [of _ 1]) simp

lemma reach_close:
  "close_value root cursor st out = Some y \<Longrightarrow> reach root st old 1 (CloseValue cursor out) y"
  unfolding reach_def by (rule exI [of _ 1]) simp

definition is_label_place :: "ptr \<Rightarrow> store \<Rightarrow> bool" where
  "is_label_place par st \<longleftrightarrow> (\<forall>v. fetch par st = Some v \<longrightarrow> jv_type v = JSON_OBJECT)"

text \<open>The block \<open>state1\<close>: the head of the node is printed, and the walk goes to the first child.\<close>

definition after_head :: "nat \<Rightarrow> json_value_type \<Rightarrow> jtree list \<Rightarrow> string option \<Rightarrow> string \<Rightarrow> walk \<Rightarrow> bool"
where
  "after_head a ty ts r w W =
     (case r of
        None \<Rightarrow> \<exists>out. W = WalkReturn JSON_BAD_TREE_STRUCTURE out \<and> generous (snd out)
      | Some x \<Rightarrow> \<exists>out. sink_holds out (w @ x) \<and>
          W = (if visits_kids ty \<and> ts \<noteq> [] then OpenValue (head_ptr ts NULL) out
               else CloseValue (Ptr a) out))"

lemma open_label_spec:
  assumes v: "v = cell par prev next JSON_STRING s (head_ptr ts NULL) l"
    and par: "null_or_live par (nodes st)" and out: "sink_holds o1 (w @ QUOTE # the s @ [QUOTE])"
  shows "\<exists>W. open_label (Ptr a) v st o1 = Some W \<and>
    after_head a JSON_STRING ts (head_text (is_label_place par st) JSON_STRING s (ts \<noteq> [])) w W"
proof -
  let ?r = "head_text (is_label_place par st) JSON_STRING s (ts \<noteq> [])"
  have down: "\<exists>W. walk_down (Ptr a) v o1 = Some W \<and> after_head a JSON_STRING ts ?r w W"
    if "sink_holds o1 (w @ y)" "?r = Some y" for o1 y
    using that unfolding v
    by (auto simp: walk_down_def after_head_def visits_kids_def)
  have colon: "\<exists>W. walk_catc (CHR '':'') (walk_down (Ptr a) v) o1 = Some W \<and>
      after_head a JSON_STRING ts ?r w W" if "is_label_place par st" "ts \<noteq> []"
    by (rule walk_catc_step [OF out], simp, rule down [of _ "QUOTE # the s @ [QUOTE, CHR '':'']"])
      (use that in simp_all)
  have bad: "\<exists>W. walk_bad o1 = Some W \<and> after_head a JSON_STRING ts ?r w W"
    if "is_label_place par st" "ts = []"
    using walk_bad_holds [OF out] that by (auto simp: after_head_def)
  show ?thesis
  proof (cases par)
    case NULL
    then have place: "is_label_place par st"
      by (simp add: is_label_place_def)
    then show ?thesis
      using colon bad NULL by (cases "ts = []") (simp_all add: open_label_def v)
  next
    case (Ptr b)
    with par obtain u where u: "nodes st b = Some u"
      by auto
    with Ptr have place: "is_label_place par st \<longleftrightarrow> jv_type u = JSON_OBJECT"
      by (simp add: is_label_place_def)
    show ?thesis
    proof (cases "is_label_place par st")
      case True
      with Ptr u place show ?thesis
        using colon bad by (cases "ts = []") (simp_all add: open_label_def v)
    next
      case False
      with Ptr u place show ?thesis
        using down [OF out] by (simp add: open_label_def v)
    qed
  qed
qed

lemma open_string_spec:
  assumes v: "v = cell par prev next JSON_STRING (Some x) (head_ptr ts NULL) l"
    and par: "null_or_live par (nodes st)" and x: "NUL \<notin> set x" and out: "sink_holds out w"
  shows "\<exists>W. open_string (Ptr a) v st out = Some W \<and>
    after_head a JSON_STRING ts (head_text (is_label_place par st) JSON_STRING (Some x) (ts \<noteq> [])) w W"
proof -
  have label: "\<exists>W. walk_catc QUOTE (open_label (Ptr a) v st) o2 = Some W \<and>
    after_head a JSON_STRING ts (head_text (is_label_place par st) JSON_STRING (Some x) (ts \<noteq> [])) w W"
    if "sink_holds o2 (w @ QUOTE # x)" for o2
    by (rule walk_catc_step [OF that], simp, rule open_label_spec [OF v par]) simp
  have text_v: "jv_text v = Some x"
    by (simp add: v)
  show ?thesis
    unfolding open_string_def text_v bind.bind_lunit
    by (rule walk_catc_step [OF out], simp, rule walk_catcs_step [OF _ x], assumption, rule label) simp
qed

text \<open>A leaf other than a string, and the opening bracket.\<close>

lemma open_head_spec:
  assumes v: "v = cell par prev next ty s (head_ptr ts NULL) l"
    and par: "null_or_live par (nodes st)"
    and s: "ty \<in> {JSON_STRING, JSON_NUMBER} \<Longrightarrow> \<exists>x. s = Some x \<and> NUL \<notin> set x"
    and out: "sink_holds out w"
  shows "\<exists>W. open_head (Ptr a) v st out = Some W \<and>
    after_head a ty ts (head_text (is_label_place par st) ty s (ts \<noteq> [])) w W"
proof -
  let ?P = "after_head a ty ts (head_text (is_label_place par st) ty s (ts \<noteq> [])) w"
  have leaf: "\<exists>W. walk_catcs x (\<lambda>out. Some (CloseValue (Ptr a) out)) out = Some W \<and> ?P W"
    if "head_text (is_label_place par st) ty s (ts \<noteq> []) = Some x" "NUL \<notin> set x"
      "\<not> visits_kids ty" for x
    by (rule walk_catcs_step [OF out that(2)]) (use that in \<open>auto simp: after_head_def\<close>)
  have open1: "\<exists>W. walk_catc c (walk_down (Ptr a) v) out = Some W \<and> ?P W"
    if "head_text (is_label_place par st) ty s (ts \<noteq> []) = Some [c]" "c \<noteq> NUL"
      "visits_kids ty" for c
    by (rule walk_catc_step [OF out that(2)])
      (use that in \<open>auto simp: after_head_def walk_down_def v\<close>)
  show ?thesis
  proof (cases ty)
    case JSON_STRING
    with s obtain x where "s = Some x" "NUL \<notin> set x" by auto
    with open_string_spec [OF _ par _ out, of v prev "next" x ts l a] v JSON_STRING show ?thesis
      by (simp add: open_head_def)
  next
    case JSON_NUMBER
    with s obtain x where "s = Some x" "NUL \<notin> set x" by auto
    with leaf [of x] JSON_NUMBER show ?thesis
      by (simp add: open_head_def visits_kids_def v)
  qed (use leaf [of "open_text ty"] open1 [of "hd (open_text ty)"] v in
      \<open>simp_all add: open_head_def visits_kids_def open_text_def\<close>)
qed

lemma open_value_spec:
  assumes node: "nodes st a = Some (cell par prev next ty s (head_ptr ts NULL) l)"
    and par: "null_or_live par (nodes st)"
    and s: "ty \<in> {JSON_STRING, JSON_NUMBER} \<Longrightarrow> \<exists>x. s = Some x \<and> NUL \<notin> set x"
    and out: "sink_holds out w"
  shows "\<exists>W. open_value root (Ptr a) st out = Some W \<and>
    after_head a ty ts (head_text (is_label_place par st) ty s (ts \<noteq> []))
      (w @ (if prev \<noteq> NULL \<and> Ptr a \<noteq> root then '','' else [])) W"
proof -
  note head = open_head_spec [OF refl par s]
  show ?thesis
  proof (cases "prev \<noteq> NULL \<and> Ptr a \<noteq> root")
    case True
    then have "open_value root (Ptr a) st out = walk_catc (CHR '','')
        (open_head (Ptr a) (cell par prev next ty s (head_ptr ts NULL) l) st) out"
      using node by (simp add: open_value_def)
    then show ?thesis
      using True head by (simp only: if_True simp_thms) (rule walk_catc_step [OF out], simp, blast)
  next
    case False
    then show ?thesis
      using node head [OF _ out] by (auto simp: open_value_def)
  qed
qed

text \<open>The block \<open>state2\<close>: the bracket, and on to the next sibling or back to the parent.\<close>

lemma close_value_spec:
  assumes node: "nodes st a = Some (cell par prev next ty s f l)" and out: "sink_holds out w"
  shows "\<exists>o1. sink_holds o1 (w @ close_text ty) \<and>
    close_value root (Ptr a) st out = Some (if par = NULL \<or> Ptr a = root then WalkEnd o1
      else if next \<noteq> NULL then OpenValue next o1 else CloseValue par o1)"
proof -
  let ?leave = "\<lambda>o1. Some (if par = NULL \<or> Ptr a = root then WalkEnd o1
      else if next \<noteq> NULL then OpenValue next o1 else CloseValue par o1)"
  have "\<exists>W. walk_catc c ?leave out = Some W \<and> (\<exists>o1. sink_holds o1 (w @ [c]) \<and> ?leave o1 = Some W)"
    if "c \<noteq> NUL" for c
    by (rule walk_catc_step [OF out that]) auto
  note br = this [of "CHR '']''"] this [of "CHR ''}''"]
  have leave: "(\<lambda>out. if par = NULL \<or> Ptr a = root then Some (WalkEnd out)
      else if next \<noteq> NULL then Some (OpenValue next out) else Some (CloseValue par out)) = ?leave"
    by auto
  show ?thesis
    using br node out leave
    by (cases ty) (auto simp: close_value_def close_text_def Let_def)
qed

section \<open>The whole tree\<close>

text \<open>Everything printed between opening a node and closing it.\<close>

fun opened_text :: "bool \<Rightarrow> jtree \<Rightarrow> string option" where
  "opened_text label (JNode a ty s ts) = do {
     x \<leftarrow> head_text label ty s (ts \<noteq> []);
     y \<leftarrow> (if visits_kids ty then forest_text (ty = JSON_OBJECT) ts else Some []);
     Some (x @ y)
   }"

lemma tree_text_opened:
  "tree_text label t = map_option (\<lambda>x. x @ close_text (jt_type t)) (opened_text label t)"
proof (cases t)
  case (JNode a ty s ts)
  then show ?thesis
    by (cases "head_text label ty s (ts \<noteq> [])"; cases "forest_text (ty = JSON_OBJECT) ts") auto
qed

definition arrives :: "ptr \<Rightarrow> string option \<Rightarrow> string \<Rightarrow> walk \<Rightarrow> bool" where
  "arrives p r w W =
     (case r of
        None \<Rightarrow> \<exists>out. W = WalkReturn JSON_BAD_TREE_STRUCTURE out \<and> generous (snd out)
      | Some x \<Rightarrow> \<exists>out. sink_holds out (w @ x) \<and> W = CloseValue p out)"

definition prints :: "ptr \<Rightarrow> store \<Rightarrow> string option \<Rightarrow> jtree \<Rightarrow> bool" where
  "prints root st old t \<longleftrightarrow> (\<forall>par prev next out w.
     has_texts t \<longrightarrow> heap_has (nodes st) (tree_cells par prev next t) \<longrightarrow>
     null_or_live par (nodes st) \<longrightarrow> root \<notin> Ptr ` set (forest_addrs (jt_kids t)) \<longrightarrow>
     sink_holds out w \<longrightarrow>
     (\<exists>W. reach root st old (2 * tree_size t - 1) (OpenValue (jt_ptr t) out) W \<and>
       arrives (jt_ptr t) (opened_text (is_label_place par st) t)
         (w @ (if prev \<noteq> NULL \<and> jt_ptr t \<noteq> root then '','' else [])) W))"

lemma printsD:
  assumes "prints root st old t" and "has_texts t"
    and "heap_has (nodes st) (tree_cells par prev next t)" and "null_or_live par (nodes st)"
    and "root \<notin> Ptr ` set (forest_addrs (jt_kids t))" and "sink_holds out w"
  shows "\<exists>W. reach root st old (2 * tree_size t - 1) (OpenValue (jt_ptr t) out) W \<and>
       arrives (jt_ptr t) (opened_text (is_label_place par st) t)
         (w @ (if prev \<noteq> NULL \<and> jt_ptr t \<noteq> root then '','' else [])) W"
  using assms unfolding prints_def by blast

lemma tree_node:
  assumes "heap_has h (tree_cells par prev next t)"
  obtains f l s where "h (jt_addr t) = Some (cell par prev next (jt_type t) s f l)"
  using assms by (cases t) auto

lemma walk_forest:
  assumes "\<And>t. t \<in> set ts \<Longrightarrow> prints root st old t" and "ts \<noteq> []"
    and "\<And>t. t \<in> set ts \<Longrightarrow> has_texts t"
    and "heap_has (nodes st) (forest_cells (Ptr p) prev NULL ts)"
    and "nodes st p \<noteq> None" and "root \<notin> Ptr ` set (forest_addrs ts)" and "sink_holds out w"
  shows "\<exists>W. reach root st old (2 * forest_size ts) (OpenValue (head_ptr ts NULL) out) W \<and>
       arrives (Ptr p) (forest_text (is_label_place (Ptr p) st) ts)
         (w @ (if prev \<noteq> NULL then '','' else [])) W"
  using assms
proof (induction ts arbitrary: prev out w)
  case Nil
  then show ?case by simp
next
  case (Cons t ts)
  let ?lab = "is_label_place (Ptr p) st"
  let ?w = "w @ (if prev \<noteq> NULL then '','' else [])"
  have t: "jt_ptr t \<noteq> root" "root \<notin> Ptr ` set (forest_addrs (jt_kids t))"
    "root \<notin> Ptr ` set (forest_addrs ts)"
    using Cons.prems(6) by (cases t; auto)+
  obtain W where W: "reach root st old (2 * tree_size t - 1) (OpenValue (jt_ptr t) out) W"
    "arrives (jt_ptr t) (opened_text ?lab t) ?w W"
    using printsD [OF Cons.prems(1) _ _ _ t(2) Cons.prems(7), of "Ptr p" prev "head_ptr ts NULL"]
      Cons.prems(3-5) t(1) by auto
  show ?case
  proof (cases "opened_text ?lab t")
    case None
    then have "arrives (Ptr p) (forest_text ?lab (t # ts)) ?w W"
      using W(2) by (simp add: arrives_def tree_text_opened)
    moreover have "reach root st old (2 * forest_size (t # ts)) (OpenValue (head_ptr (t # ts) NULL) out) W"
      using reach_trans [OF W(1) reach_refl [of _ _ _ 0]] by simp
    ultimately show ?thesis by blast
  next
    case (Some x)
    then obtain o1 where o1: "sink_holds o1 (?w @ x)" "W = CloseValue (jt_ptr t) o1"
      using W(2) by (auto simp: arrives_def)
    obtain f l s where "nodes st (jt_addr t) =
        Some (cell (Ptr p) prev (head_ptr ts NULL) (jt_type t) s f l)"
      using Cons.prems(4) by (auto elim: tree_node)
    then obtain o2 where o2: "sink_holds o2 ((?w @ x) @ close_text (jt_type t))"
      "close_value root (jt_ptr t) st o1 = Some (if ts \<noteq> [] then OpenValue (head_ptr ts NULL) o2
        else CloseValue (Ptr p) o2)"
      using close_value_spec [OF _ o1(1), of st "jt_addr t" "Ptr p" prev "head_ptr ts NULL"
        "jt_type t" s f l root] t(1) by auto
    have to: "reach root st old (2 * tree_size t) (OpenValue (jt_ptr t) out)
        (if ts \<noteq> [] then OpenValue (head_ptr ts NULL) o2 else CloseValue (Ptr p) o2)"
      using reach_trans [OF W(1) [unfolded o1(2)] reach_close [OF o2(2)]] tree_size_pos [of t]
      by (simp del: tree_size_pos)
    show ?thesis
    proof (cases "ts = []")
      case True
      then have "arrives (Ptr p) (forest_text ?lab (t # ts)) ?w (CloseValue (Ptr p) o2)"
        using Some o2(1) by (simp add: arrives_def tree_text_opened)
      with True to show ?thesis by auto
    next
      case False
      obtain V where V: "reach root st old (2 * forest_size ts) (OpenValue (head_ptr ts NULL) o2) V"
        "arrives (Ptr p) (forest_text ?lab ts) (((?w @ x) @ close_text (jt_type t)) @ '','') V"
        using Cons.IH [OF Cons.prems(1) False Cons.prems(3) _ Cons.prems(5) t(3) o2(1),
            of "jt_ptr t"] Cons.prems(4) by auto
      have "arrives (Ptr p) (forest_text ?lab (t # ts)) ?w V"
        using V(2) Some False
        by (cases "forest_text ?lab ts") (simp_all add: arrives_def tree_text_opened)
      moreover have "reach root st old (2 * forest_size (t # ts)) (OpenValue (jt_ptr t) out) V"
        using reach_trans [OF _ V(1)] to False by simp
      ultimately show ?thesis by auto
    qed
  qed
qed

lemma walk_tree: "prints root st old t"
proof (induction t)
  case (JNode a ty s ts)
  let ?t = "JNode a ty s ts"
  show ?case
    unfolding prints_def
  proof (intro allI impI)
    fix par prev "next" out w
    assume texts: "has_texts ?t" and cells: "heap_has (nodes st) (tree_cells par prev next ?t)"
      and par: "null_or_live par (nodes st)"
      and root: "root \<notin> Ptr ` set (forest_addrs (jt_kids ?t))" and out: "sink_holds out w"
    let ?lab = "is_label_place par st"
    let ?w = "w @ (if prev \<noteq> NULL \<and> Ptr a \<noteq> root then '','' else [])"
    have node: "nodes st a = Some (cell par prev next ty s (head_ptr ts NULL) (last_ptr ts NULL))"
      using cells by simp
    have "ty \<in> {JSON_STRING, JSON_NUMBER} \<Longrightarrow> \<exists>x. s = Some x \<and> NUL \<notin> set x"
      using texts by simp
    then obtain W where W: "open_value root (Ptr a) st out = Some W"
      "after_head a ty ts (head_text ?lab ty s (ts \<noteq> [])) ?w W"
      using open_value_spec [OF node par _ out, of root] by blast
    note step = reach_open [OF W(1), of old]
    show "\<exists>W. reach root st old (2 * tree_size ?t - 1) (OpenValue (jt_ptr ?t) out) W \<and>
       arrives (jt_ptr ?t) (opened_text ?lab ?t)
         (w @ (if prev \<noteq> NULL \<and> jt_ptr ?t \<noteq> root then '','' else [])) W"
    proof (cases "head_text ?lab ty s (ts \<noteq> [])")
      case None
      then have "arrives (Ptr a) (opened_text ?lab ?t) ?w W"
        using W(2) by (simp add: arrives_def after_head_def)
      moreover have "reach root st old (2 * tree_size ?t - 1) (OpenValue (Ptr a) out) W"
        using reach_trans [OF step reach_refl [of _ _ _ 0]] by simp
      ultimately show ?thesis by auto
    next
      case (Some x)
      then obtain o1 where o1: "sink_holds o1 (?w @ x)"
        "W = (if visits_kids ty \<and> ts \<noteq> [] then OpenValue (head_ptr ts NULL) o1
              else CloseValue (Ptr a) o1)"
        using W(2) by (auto simp: after_head_def)
      show ?thesis
      proof (cases "visits_kids ty \<and> ts \<noteq> []")
        case False
        then have "arrives (Ptr a) (opened_text ?lab ?t) ?w W"
          using o1 Some by (auto simp: arrives_def)
        moreover have "reach root st old (2 * tree_size ?t - 1) (OpenValue (Ptr a) out) W"
          using reach_trans [OF step reach_refl [of _ _ _ 0]] by simp
        ultimately show ?thesis by auto
      next
        case True
        obtain V where V: "reach root st old (2 * forest_size ts) (OpenValue (head_ptr ts NULL) o1) V"
          "arrives (Ptr a) (forest_text (is_label_place (Ptr a) st) ts) (?w @ x) V"
          using walk_forest [OF JNode.IH, of ts a NULL o1 "?w @ x"] True texts cells root o1(1) node
          by auto
        have "arrives (Ptr a) (opened_text ?lab ?t) ?w V"
          using V(2) Some True node
          by (cases "forest_text (ty = JSON_OBJECT) ts")
            (auto simp: arrives_def is_label_place_def)
        moreover have "reach root st old (2 * tree_size ?t - 1) (OpenValue (Ptr a) out) V"
          using reach_trans [OF step [unfolded o1(2)], of "2 * forest_size ts" V] V(1) True by simp
        ultimately show ?thesis by auto
      qed
    qed
  qed
qed

text \<open>
  With fuel twice the number of nodes the function returns, and what it returns is the text
  of the tree: for a subtree \<open>t\<close> of a document, marked by \<open>fs\<close>.
\<close>

lemma json_tree_to_string_spec:
  assumes doc: "holds_doc (nodes st) (plug t fs)" and texts: "has_texts t"
    and mem: "generous (mem st)" and fuel: "2 * tree_size t \<le> fuel"
  obtains m where "generous m"
    "json_tree_to_string fuel (jt_ptr t) old st =
       (case tree_text (is_label_place (hole_parent fs) st) t of
          None \<Rightarrow> Some (JSON_BAD_TREE_STRUCTURE, old, st\<lparr>mem := m\<rparr>)
        | Some x \<Rightarrow> Some (JSON_OK, Some x, st\<lparr>mem := m\<rparr>))"
proof -
  let ?lab = "is_label_place (hole_parent fs) st"
  obtain p m where create: "rcs_create 5 (mem st) = (p, m)" "rcs_holds p []" "generous m"
    using mem by (cases rule: rcs_create_spec [of 5 "mem st"]) (auto cong: generous_cong)
  then have out: "sink_holds (p, m) []"
    by (simp add: sink_holds_def)
  have par: "null_or_live (hole_parent fs) (nodes st)"
    using doc by (cases fs rule: hole_parent.cases) (auto simp: holds_doc_plug)
  have "distinct (tree_addrs t)" "heap_has (nodes st)
      (tree_cells (hole_parent fs) (hole_previous fs) (hole_next fs) t)"
    using doc by (auto simp: holds_doc_plug)
  moreover from this have "jt_ptr t \<notin> Ptr ` set (forest_addrs (jt_kids t))"
    by (cases t) auto
  ultimately obtain W where W: "reach (jt_ptr t) st old (2 * tree_size t - 1) (OpenValue (jt_ptr t) (p, m)) W"
    "arrives (jt_ptr t) (opened_text ?lab t) [] W"
    using printsD [OF walk_tree texts _ par _ out, of "hole_previous fs" "hole_next fs" "jt_ptr t" old]
    by auto
  obtain n where n: "n \<le> 2 * tree_size t - 1" "\<And>f. walk_loop (n + f) (jt_ptr t) st old
      (OpenValue (jt_ptr t) (p, m)) = walk_loop f (jt_ptr t) st old W"
    using W(1) by (auto simp: reach_def)
  have f: "fuel = n + Suc (fuel - Suc n)"
    using n(1) fuel tree_size_pos [of t] by linarith
  show ?thesis
  proof (cases "opened_text ?lab t")
    case None
    then obtain o1 where o1: "W = WalkReturn JSON_BAD_TREE_STRUCTURE o1" "generous (snd o1)"
      using W(2) by (auto simp: arrives_def)
    have "walk_loop fuel (jt_ptr t) st old (OpenValue (jt_ptr t) (p, m)) =
        Some (JSON_BAD_TREE_STRUCTURE, old, snd o1)"
      by (subst f) (simp only: n(2) o1 walk_loop.simps)
    with o1(2) None show ?thesis
      using create by (intro that [of "snd o1"])
        (simp_all add: json_tree_to_string_def tree_text_opened)
  next
    case (Some x)
    then obtain o1 where o1: "sink_holds o1 x" "W = CloseValue (jt_ptr t) o1"
      using W(2) by (auto simp: arrives_def)
    obtain f1 l s where "nodes st (jt_addr t) =
        Some (cell (hole_parent fs) (hole_previous fs) (hole_next fs) (jt_type t) s f1 l)"
      using doc by (auto simp: holds_doc_plug elim: tree_node)
    then obtain o2 where o2: "sink_holds o2 (x @ close_text (jt_type t))"
      "close_value (jt_ptr t) (jt_ptr t) st o1 = Some (WalkEnd o2)"
      using close_value_spec [OF _ o1(1), of st "jt_addr t" "hole_parent fs" "hole_previous fs"
        "hole_next fs" "jt_type t" s f1 l "jt_ptr t"] by auto
    from o2(1) have "rcs_holds (fst o2) (x @ close_text (jt_type t))" "generous (snd o2)"
      by (simp_all add: sink_holds_def)
    then obtain m' where m': "generous m'"
      "rcs_unwrap (fst o2) (snd o2) = Some (Some (x @ close_text (jt_type t)), m')"
      by (cases rule: rcs_unwrap_spec [of "fst o2" "x @ close_text (jt_type t)" "snd o2"])
        (auto simp: generous_def)
    have "walk_loop fuel (jt_ptr t) st old (OpenValue (jt_ptr t) (p, m)) =
        Some (JSON_OK, Some (x @ close_text (jt_type t)), m')"
      by (subst f) (simp only: n(2) o1 walk_loop.simps o2 m' bind.bind_lunit prod.case)
    with m'(1) Some show ?thesis
      using create by (intro that [of m'])
        (simp_all add: json_tree_to_string_def tree_text_opened)
  qed
qed

end
