(* ===== verification/JsonDocument.thy ===== *)
theory JsonDocument
  imports JsonParse JsonPrint
begin

text \<open>
  Whole runs of the parser: it never fails, every document it accepts is well formed, every
  rendering of a document is accepted, a document may be cut into fragments, and printing and
  parsing are inverse to each other.
\<close>

section \<open>One call of the lexer from the parser\<close>

declare split_paired_Ex [simp del]

lemma lexer_of_simps [simp]:
  "lx_p (lexer_of ps) = pi_p (fst ps)" "lx_state (lexer_of ps) = pi_lex_state (fst ps)"
  "lx_text (lexer_of ps) = pi_lex_text (fst ps)" "lx_mem (lexer_of ps) = mem (snd ps)"
  by (simp_all add: lexer_of_def)

lemma run_lexer_loop:
  assumes "pi_p (fst ps) \<noteq> None" and "lexer_loop (lexer_of ps) = Some (v, s')"
  obtains ps1 where "run_lexer buffer ps = Some (v, ps1)" "lexer_of ps1 = s'"
    "pi_state (fst ps1) = pi_state (fst ps)" "pi_cursor (fst ps1) = pi_cursor (fst ps)"
    "snd ps1 = (snd ps)\<lparr>mem := lx_mem s'\<rparr>"
proof -
  let ?ps1 = "((fst ps)\<lparr>pi_p := lx_p s', pi_lex_state := lx_state s', pi_lex_text := lx_text s'\<rparr>,
    (snd ps)\<lparr>mem := lx_mem s'\<rparr>)"
  have "run_lexer buffer ps = Some (v, ?ps1)"
    using assms by (cases ps) (auto simp: run_lexer_def lexer_def lexer_of_def)
  moreover have "lexer_of ?ps1 = s'"
    by (simp add: lexer_of_def)
  ultimately show ?thesis
    using that by fastforce
qed

lemma run_lexer_reads:
  assumes rel: "parse_rel g h0 ps q lv" and inv: "lex_inv (lexer_of ps)" and p: "pi_p (fst ps) = Some cs"
  obtains v ps1 where "run_lexer buffer ps = Some (v, ps1)"
    "lexer_loop (lexer_of ps) = Some (v, lexer_of ps1)"
    "call_ok (lexer_of ps) v (lexer_of ps1)" "token_read g h0 ps1 q lv v"
proof -
  obtain v s' where s': "lexer_loop (lexer_of ps) = Some (v, s')" "call_ok (lexer_of ps) v s'"
    using lexer_loop_ok [OF inv] p by auto
  obtain ps1 where ps1: "run_lexer buffer ps = Some (v, ps1)" "lexer_of ps1 = s'"
    "pi_state (fst ps1) = pi_state (fst ps)" "pi_cursor (fst ps1) = pi_cursor (fst ps)"
    "snd ps1 = (snd ps)\<lparr>mem := lx_mem s'\<rparr>"
    using run_lexer_loop [OF _ s'(1)] p by auto
  have "parse_rel g h0 ps1 q lv"
    using rel ps1 s'(2) by (auto simp: parse_rel_def call_ok_def generous_def)
  moreover have "v \<in> {LEX_STRING, LEX_NUMBER} \<Longrightarrow> \<exists>x. rcs_holds (pi_lex_text (fst ps1)) x"
    using s'(2) ps1(2) by (auto simp: call_ok_def token_ok_def)
  ultimately have "token_read g h0 ps1 q lv v"
    by (auto simp: token_read_def)
  then show ?thesis
    using that ps1(1,2) s' by blast
qed

lemma assert_cursor_ok:
  assumes "parse_rel g h0 ps q lv" and "top_type lv = Some ty" and "ty \<in> tys"
  shows "assert_cursor tys ps = Some ()"
proof -
  obtain s ks lv' where lv: "lv = (ty, s, ks) # lv'"
    using assms(2) by (cases lv) auto
  have "doc_rel h0 (snd ps) (pi_cursor (fst ps)) ((ty, s, ks) # lv')"
    using assms(1) lv by (simp add: parse_rel_def)
  then obtain v where "fetch (pi_cursor (fst ps)) (snd ps) = Some v" "jv_type v = ty"
    by (rule doc_rel_top)
  then show ?thesis
    using assms(3) by (simp add: assert_cursor_def)
qed

lemma open_node_goes_on:
  assumes rel: "parse_rel g h0 ps q lv" and "value_place lv"
  shows "\<exists>out. open_node ty n ps = Some out \<and> goes_on g h0 ps (n, (ty, None, []) # lv) out"
proof (cases "lv = []")
  case True
  with rel have "doc_rel h0 (snd ps) (pi_cursor (fst ps)) []"
    by (simp add: parse_rel_def)
  with doc_rel_nonempty [OF this] have cur: "pi_cursor (fst ps) = NULL" "doc_rel h0 (snd ps) NULL []"
    by simp_all
  show ?thesis
  proof (cases rule: json_new_value_cases [of ty "snd ps"])
    case (oom m)
    then show ?thesis
      using rel cur by (auto simp: open_node_def goes_on_def parse_rel_def)
  next
    case (ok m)
    then show ?thesis
      using doc_rel_root [OF cur(2), where m = m and ty = ty] cur True
      by (simp add: open_node_def) (intro goes_on_cursor, auto simp: keeps_lexer_def)
  qed
next
  case False
  then obtain ty1 s ks lv1 where lv: "lv = (ty1, s, ks) # lv1"
    by (cases lv) auto
  have ty1: "ty1 \<in> {JSON_STRING, JSON_ARRAY}"
    using assms(2) lv by (auto simp: value_place_def)
  have doc: "doc_rel h0 (snd ps) (pi_cursor (fst ps)) ((ty1, s, ks) # lv1)"
    using rel lv by (simp add: parse_rel_def)
  have "\<exists>out. add_value ty (\<lambda>temp ps. next_state n (set_cursor temp ps)) ps = Some out \<and>
      goes_on g h0 ps (n, (ty, None, []) # lv) out"
    by (rule add_value_goes_on [OF doc])
      (use ty1 rel lv in \<open>auto simp: parse_rel_def keeps_lexer_def intro!: goes_on_cursor\<close>)
  moreover have "assert_cursor {JSON_STRING, JSON_ARRAY} ps = Some ()"
    using assert_cursor_ok [OF rel _ ty1] lv by simp
  moreover have "pi_cursor (fst ps) \<noteq> NULL"
    using doc doc_rel_nonempty by auto
  ultimately show ?thesis
    by (simp add: open_node_def)
qed

text \<open>States 1 and 7.\<close>

lemma parse_step_open:
  assumes rel: "parse_rel g h0 ps q lv" and q: "q \<in> {1, 7}"
  shows "\<exists>out. parse_step buffer ps = Some out \<and> goes_on g h0 ps (shape_open q lv) out"
  using open_node_goes_on [OF rel, of JSON_OBJECT 2] open_node_goes_on [OF rel, of JSON_ARRAY 8] rel q
  by (auto simp: parse_step_def parse_rel_def parse_open_object_def parse_open_array_def shape_open_def)

text \<open>The others.\<close>

lemma parse_step_reading:
  assumes rel: "parse_rel g h0 ps q lv" and q: "q \<notin> {1, 7}"
    and inv: "lex_inv (lexer_of ps)" and p: "pi_p (fst ps) = Some cs"
  obtains v ps1 s out where "lexer_loop (lexer_of ps) = Some (v, lexer_of ps1)"
    "call_ok (lexer_of ps) v (lexer_of ps1)" "token_read g h0 ps1 q lv v" "text_of g v s ps1"
    "parse_step buffer ps = Some out" "answers g h0 q v s lv ps1 out"
    "run_lexer buffer ps = Some (v, ps1)"
proof -
  obtain v ps1 where run: "run_lexer buffer ps = Some (v, ps1)"
    "lexer_loop (lexer_of ps) = Some (v, lexer_of ps1)"
    "call_ok (lexer_of ps) v (lexer_of ps1)" and tr: "token_read g h0 ps1 q lv v"
    using run_lexer_reads [OF rel inv p] by blast
  have ok: "state_ok q lv" "pi_state (fst ps) = q"
    using rel by (auto simp: parse_rel_def)
  note cursor = assert_cursor_ok [OF rel]
  have "\<exists>s out. text_of g v s ps1 \<and> parse_step buffer ps = Some out \<and> answers g h0 q v s lv ps1 out"
  proof -
    consider "q = 0" | "q = 2" | "q = 3" | "q = 4" | "q = 5" | "q = 6" | "q = 8" | "q = 9" | "q = 99"
      using ok(1) q unfolding state_ok_def by (metis insert_iff)
    then show ?thesis
    proof cases
      case 1
      then show ?thesis
        using parse_start_answers [OF tr [unfolded 1]] ok run(1)
        by (simp add: parse_step_def parse_start_def)
    next
      case 2
      then show ?thesis
        using parse_in_object_answers [OF tr [unfolded 2]] cursor [of JSON_OBJECT] ok run(1)
        by (simp add: parse_step_def parse_in_object_def)
    next
      case 3
      then show ?thesis
        using parse_after_member_answers [OF tr [unfolded 3]] cursor [of JSON_OBJECT] ok run(1)
        by (simp add: parse_step_def parse_after_member_def)
    next
      case 4
      then show ?thesis
        using parse_next_member_answers [OF tr [unfolded 4]] cursor [of JSON_OBJECT] ok run(1)
        by (simp add: parse_step_def parse_next_member_def)
    next
      case 5
      then show ?thesis
        using parse_colon_answers [OF tr [unfolded 5]] cursor [of JSON_STRING] ok run(1)
        by (simp add: parse_step_def parse_colon_def)
    next
      case 6
      then show ?thesis
        using parse_member_value_answers [OF tr [unfolded 6]] cursor [of JSON_STRING] ok run(1)
        by (simp add: parse_step_def parse_member_value_def)
    next
      case 7
      then show ?thesis
        using parse_in_array_answers [OF tr [unfolded 7]] cursor [of JSON_ARRAY] ok run(1)
        by (simp add: parse_step_def parse_in_array_def)
    next
      case 8
      have "pi_cursor (fst ps) \<noteq> NULL"
        using rel ok 8 doc_rel_nonempty by (fastforce simp: parse_rel_def)
      then show ?thesis
        using parse_after_element_answers [OF tr [unfolded 8]] 8 ok run(1)
        by (simp add: parse_step_def parse_after_element_def)
    next
      case 9
      then obtain ty s ks where lv: "lv = [(ty, s, ks)]"
        using ok by (auto simp: length_Suc_conv)
      have "doc_rel h0 (snd ps) (pi_cursor (fst ps)) ((ty, s, ks) # [])"
        using rel lv by (simp add: parse_rel_def)
      then obtain u where "fetch (pi_cursor (fst ps)) (snd ps) = Some u" "jv_parent u = NULL"
        by (rule doc_rel_top) simp
      then show ?thesis
        using parse_finished_answers [OF tr [unfolded 9]] 9 ok run(1)
        by (simp add: parse_step_def parse_finished_def)
    qed
  qed
  then show ?thesis
    using that run tr by blast
qed

section \<open>The loop\<close>

lemma parse_loop_end:
  "pi_p (fst ps) = Some cs \<Longrightarrow> peek cs = NUL \<Longrightarrow>
   parse_loop buffer ps = Some (if pi_state (fst ps) = 99 then JSON_WAITING_FOR_EOF
     else JSON_INCOMPLETE_DOCUMENT, ((fst ps)\<lparr>pi_p := None\<rparr>, snd ps))"
  by (simp add: parse_loop.simps)

lemma parse_loop_turn:
  "pi_p (fst ps) = Some cs \<Longrightarrow> peek cs \<noteq> NUL \<Longrightarrow>
   parse_loop buffer ps = (case parse_step buffer ps of
      None \<Rightarrow> None
    | Some (Parsed e ps') \<Rightarrow> Some (e, ps')
    | Some (Parsing ps') \<Rightarrow> parse_loop buffer ps')"
  by (simp add: parse_loop.simps [of buffer ps])

text \<open>A document in progress, and the state of a suspended parse.\<close>

definition in_progress :: "bool \<Rightarrow> (nat \<Rightarrow> json_value option) \<Rightarrow> parse_st \<Rightarrow> nat \<Rightarrow> level list \<Rightarrow> bool"
where
  "in_progress g h0 ps q lv \<longleftrightarrow> parse_rel g h0 ps q lv \<and> lex_inv (lexer_of ps) \<and>
     (q \<in> {1, 7} \<longrightarrow> pi_lex_state (fst ps) = 0)"

lemma goes_on_progress:
  assumes "goes_on g h0 ps1 to out" and "case to of (q, lv) \<Rightarrow> wf_levels g lv \<and> state_ok q lv"
    and "pi_lex_state (fst ps1) = 0" and "g \<Longrightarrow> generous (mem (snd ps1))"
  shows "(\<exists>ps'. out = Parsing ps' \<and> in_progress g h0 ps' (fst to) (snd to) \<and> keeps_lexer ps1 ps' \<and>
      grants (mem (snd ps')) = grants (mem (snd ps1))) \<or>
    (\<not> g \<and> (\<exists>ps'. out = Parsed JSON_MEMORY ps'))"
proof -
  have "in_progress g h0 ps' (fst to) (snd to)" if h: "pi_state (fst ps') = fst to"
    "doc_rel h0 (snd ps') (pi_cursor (fst ps')) (snd to)" "keeps_lexer ps1 ps'"
    "grants (mem (snd ps')) = grants (mem (snd ps1))" for ps'
    using h assms(2-4)
    by (auto simp: in_progress_def parse_rel_def generous_def lex_inv_def keeps_lexer_def split: prod.splits)
  with assms(1) show ?thesis
    by (auto simp: goes_on_def)
qed

lemma token_texts:
  assumes "call_ok s v (lexer_of ps1)" and "text_of g v x ps1" and "is_token v"
  shows "v = LEX_STRING \<Longrightarrow> text_ok g string_body x" and "v = LEX_NUMBER \<Longrightarrow> text_ok g is_number x"
    and "pi_lex_state (fst ps1) = 0"
proof -
  have ok: "token_ok v (lexer_of ps1)"
    using assms(1,3) by (auto simp: call_ok_def is_token_def split: if_splits)
  show "v = LEX_STRING \<Longrightarrow> text_ok g string_body x" "v = LEX_NUMBER \<Longrightarrow> text_ok g is_number x"
    using ok assms(2) rcs_holds_unique
    by (fastforce simp: token_ok_def text_of_def text_ok_def split: option.splits)+
  show "pi_lex_state (fst ps1) = 0"
    using ok assms(3) by (simp add: token_ok_def)
qed

lemma shape_token_is_token: "shape_token q v s lv \<noteq> None \<Longrightarrow> is_token v"
  by (cases v) (auto simp: shape_token_def is_token_def leaf_type_def)

text \<open>One turn keeps a document in progress, or ends the call.\<close>

lemma parse_step_progress:
  assumes prog: "in_progress g h0 ps q lv" and p: "pi_p (fst ps) = Some cs"
  shows "\<exists>out. parse_step buffer ps = Some out \<and>
    (case out of
       Parsing ps' \<Rightarrow> \<exists>q' lv'. in_progress g h0 ps' q' lv'
     | Parsed e ps' \<Rightarrow>
         e \<in> {JSON_MALFORMED_DOCUMENT, JSON_INCOMPLETE_DOCUMENT, JSON_WAITING_FOR_EOF, JSON_MEMORY} \<and>
         (g \<longrightarrow> e \<noteq> JSON_MEMORY) \<and>
         (e \<in> {JSON_INCOMPLETE_DOCUMENT, JSON_WAITING_FOR_EOF} \<longrightarrow>
           (\<exists>q' lv'. in_progress g h0 ps' q' lv' \<and> (e = JSON_WAITING_FOR_EOF \<longleftrightarrow> q' = 99))))"
proof (cases "q \<in> {1, 7}")
  case True
  have rel: "parse_rel g h0 ps q lv" and lex0: "pi_lex_state (fst ps) = 0"
    using prog True by (auto simp: in_progress_def)
  obtain out where out: "parse_step buffer ps = Some out" "goes_on g h0 ps (shape_open q lv) out"
    using parse_step_open [OF rel True] by blast
  have "case shape_open q lv of (q, lv) \<Rightarrow> wf_levels g lv \<and> state_ok q lv"
    using shape_open_wf [OF _ _ True] rel by (simp add: parse_rel_def)
  then show ?thesis
    using goes_on_progress [OF out(2) _ lex0] rel out(1) by (force simp: parse_rel_def)
next
  case False
  have rel: "parse_rel g h0 ps q lv" and inv: "lex_inv (lexer_of ps)"
    using prog by (auto simp: in_progress_def)
  obtain v ps1 s out where call: "call_ok (lexer_of ps) v (lexer_of ps1)"
    and tr: "token_read g h0 ps1 q lv v" and s: "text_of g v s ps1"
    and out: "parse_step buffer ps = Some out" "answers g h0 q v s lv ps1 out"
    using parse_step_reading [OF rel False inv p] by metis
  have rel1: "parse_rel g h0 ps1 q lv"
    using tr by (simp add: token_read_def)
  show ?thesis
  proof (cases "shape_token q v s lv")
    case (Some to)
    then have tok: "is_token v"
      using shape_token_is_token by blast
    obtain q' lv' where to: "to = (q', lv')"
      by (cases to)
    have wf: "wf_levels g lv' \<and> state_ok q' lv'"
      using shape_token_wf [OF _ _ token_texts(1,2) [OF call s tok] Some [unfolded to]] rel1
      by (auto simp: parse_rel_def)
    have "goes_on g h0 ps1 to out"
      using out(2) Some by (simp add: answers_def)
    then show ?thesis
      using goes_on_progress [of g h0 ps1 to out] wf token_texts(3) [OF call s tok] rel1 to out(1)
      by (fastforce simp: parse_rel_def)
  next
    case None
    then have e: "out = Parsed (reject_error q v) ps1"
      using out(2) by (simp add: answers_def)
    have "in_progress g h0 ps1 q lv" if "v = LEX_MORE"
      using call rel1 that False by (auto simp: in_progress_def call_ok_def)
    moreover have "v = LEX_MEMORY \<Longrightarrow> \<not> g"
      using call rel1 by (auto simp: call_ok_def token_ok_def parse_rel_def)
    ultimately show ?thesis
      using e out(1) by (auto simp: reject_error_def split: if_splits)
  qed
qed

lemma in_progress_suspend:
  "in_progress g h0 ps q lv \<Longrightarrow> in_progress g h0 ((fst ps)\<lparr>pi_p := p\<rparr>, snd ps) q lv"
  by (auto simp: in_progress_def parse_rel_def lex_inv_def)

lemma parse_step_pointer:
  assumes "parse_step buffer ps = Some (Parsing ps')" and "pi_p (fst ps) = Some cs"
  shows "pi_p (fst ps') \<noteq> None"
proof (cases "pi_state (fst ps) \<in> {1, 7}")
  case True
  then show ?thesis
    using parse_step_opens [OF assms(1)] assms(2) by (simp add: keeps_lexer_def)
next
  case False
  then obtain v qs where "run_lexer buffer ps = Some (v, qs)" "is_token v" "keeps_lexer qs ps'"
    using parse_step_reads [OF assms(1)] by blast
  with run_lexer_token [OF _ assms(2)] show ?thesis
    by (fastforce simp: keeps_lexer_def)
qed

lemma parse_loop_progress:
  assumes "in_progress g h0 ps q lv" and "pi_p (fst ps) \<noteq> None"
  shows "\<exists>e ps'. parse_loop buffer ps = Some (e, ps') \<and>
    e \<in> {JSON_MALFORMED_DOCUMENT, JSON_INCOMPLETE_DOCUMENT, JSON_WAITING_FOR_EOF, JSON_MEMORY} \<and>
    (g \<longrightarrow> e \<noteq> JSON_MEMORY) \<and>
    (e \<in> {JSON_INCOMPLETE_DOCUMENT, JSON_WAITING_FOR_EOF} \<longrightarrow>
      (\<exists>q' lv'. in_progress g h0 ps' q' lv' \<and> (e = JSON_WAITING_FOR_EOF \<longleftrightarrow> q' = 99)))"
  using assms
proof (induction buffer ps arbitrary: q lv rule: parse_loop.induct)
  case (1 buffer ps)
  obtain cs where cs: "pi_p (fst ps) = Some cs"
    using "1.prems"(2) by blast
  show ?case
  proof (cases "peek cs = NUL")
    case True
    then show ?thesis
      using parse_loop_end [OF cs True] in_progress_suspend [OF "1.prems"(1), of None] "1.prems"(1)
      by (fastforce simp: in_progress_def parse_rel_def)
  next
    case False
    obtain out where out: "parse_step buffer ps = Some out"
      "case out of
       Parsing ps' \<Rightarrow> \<exists>q' lv'. in_progress g h0 ps' q' lv'
     | Parsed e ps' \<Rightarrow>
         e \<in> {JSON_MALFORMED_DOCUMENT, JSON_INCOMPLETE_DOCUMENT, JSON_WAITING_FOR_EOF, JSON_MEMORY} \<and>
         (g \<longrightarrow> e \<noteq> JSON_MEMORY) \<and>
         (e \<in> {JSON_INCOMPLETE_DOCUMENT, JSON_WAITING_FOR_EOF} \<longrightarrow>
           (\<exists>q' lv'. in_progress g h0 ps' q' lv' \<and> (e = JSON_WAITING_FOR_EOF \<longleftrightarrow> q' = 99)))"
      using parse_step_progress [OF "1.prems"(1) cs, of buffer] by blast
    show ?thesis
    proof (cases out)
      case (Parsed e ps')
      with out parse_loop_turn [OF cs False] show ?thesis
        by simp
    next
      case (Parsing ps')
      with out(2) obtain q' lv' where "in_progress g h0 ps' q' lv'"
        by auto
      moreover have "pi_p (fst ps') \<noteq> None"
        using parse_step_pointer out(1) Parsing cs by blast
      ultimately show ?thesis
        using "1.IH" [OF cs False out(1) Parsing] parse_loop_turn [OF cs False] out(1) Parsing by simp
    qed
  qed
qed

section \<open>Renderings\<close>

text \<open>The tokens of a document.\<close>

type_synonym tok = "lex_value \<times> string"

fun toks :: "jval \<Rightarrow> tok list" and kid_toks :: "jval list \<Rightarrow> tok list" where
  "toks (JVal ty s ks) =
     (case ty of
        JSON_STRING \<Rightarrow>
          (LEX_STRING, the s) # (if ks = [] then [] else (LEX_NAME_SEPARATOR, []) # kid_toks ks)
      | JSON_NUMBER \<Rightarrow> [(LEX_NUMBER, the s)]
      | JSON_OBJECT \<Rightarrow> (LEX_BEGIN_OBJECT, []) # kid_toks ks @ [(LEX_END_OBJECT, [])]
      | JSON_ARRAY \<Rightarrow> (LEX_BEGIN_ARRAY, []) # kid_toks ks @ [(LEX_END_ARRAY, [])]
      | JSON_TRUE \<Rightarrow> [(LEX_TRUE, [])]
      | JSON_FALSE \<Rightarrow> [(LEX_FALSE, [])]
      | JSON_NULL \<Rightarrow> [(LEX_NULL, [])])"
| "kid_toks [] = []"
| "kid_toks (k # ks) = toks k @ (if ks = [] then [] else (LEX_VALUE_SEPARATOR, []) # kid_toks ks)"

text \<open>
  A text that spells the tokens with any white space between them; a number is followed by a
  character that ends it.
\<close>

fun renders :: "tok list \<Rightarrow> string \<Rightarrow> bool" where
  "renders [] cs \<longleftrightarrow> list_all is_ws cs"
| "renders ((v, x) # ts) cs \<longleftrightarrow>
     (\<exists>g w rest. cs = g @ w @ rest \<and> list_all is_ws g \<and> spells v x w \<and>
       (v = LEX_NUMBER \<longrightarrow> rest \<noteq> [] \<and> ends_number (hd rest)) \<and> renders ts rest)"

lemma is_number_first: "is_number u \<Longrightarrow> \<exists>c r. u = c # r \<and> (c = CHR ''-'' \<or> is_digit c)"
proof -
  assume "is_number u"
  then obtain q where "text_run 0 u = Some q" "q \<noteq> 0"
    using number_run [of u] by (auto simp: accepts_number_def)
  then show ?thesis
    by (cases u) (auto simp: bind_eq_Some_conv text_step_simps char_simps split: if_splits)
qed

lemma spells_first:
  assumes "spells v x w" shows "\<exists>c r. w = c # r \<and> c \<noteq> NUL \<and> \<not> is_ws c"
  using assms is_number_first [of x]
  by (cases v) (auto simp: spells_def is_ws_def is_digit_def)

lemma renders_gap:
  assumes "renders ts (h @ cs)" and "list_all is_ws h"
  shows "renders ts cs"
proof (cases ts)
  case Nil
  with assms show ?thesis by simp
next
  case (Cons t ts')
  obtain v x where t: "t = (v, x)"
    by (cases t)
  obtain g w rest where g: "h @ cs = g @ w @ rest" "list_all is_ws g" "spells v x w"
    "v = LEX_NUMBER \<longrightarrow> rest \<noteq> [] \<and> ends_number (hd rest)" "renders ts' rest"
    using assms(1) Cons t by auto
  obtain c r where w: "w = c # r" "\<not> is_ws c"
    using spells_first [OF g(3)] by blast
  have "\<exists>g'. g = h @ g'"
    using g(1) w assms(2)
    by (auto simp: append_eq_append_conv2 Cons_eq_append_conv append_eq_Cons_conv)
  then obtain g' where "g = h @ g'" ..
  with g have "cs = g' @ w @ rest" "list_all is_ws g'"
    by simp_all
  with g(3-5) show ?thesis
    unfolding Cons t renders.simps by blast
qed

lemma renders_not_end:
  assumes "renders ts cs" and "ts \<noteq> []" shows "peek cs \<noteq> NUL"
proof -
  obtain v x ts' where ts: "ts = (v, x) # ts'"
    using assms(2) by (cases ts) auto
  then obtain g w rest where g: "cs = g @ w @ rest" "list_all is_ws g" "spells v x w"
    using assms(1) by auto
  then show ?thesis
    using spells_first [OF g(3)] by (cases g) (auto simp: is_ws_def)
qed

section \<open>The parser on a rendering\<close>

fun shape_run :: "nat \<times> level list \<Rightarrow> tok list \<Rightarrow> (nat \<times> level list) option" where
  "shape_run (q, lv) [] = Some (q, lv)"
| "shape_run (q, lv) ((v, x) # ts) =
     (let (q1, lv1) = (if q \<in> {1, 7} then shape_open q lv else (q, lv))
      in Option.bind (shape_token q1 v (Some x) lv1) (\<lambda>to. shape_run to ts))"

lemma shape_token_text:
  "v \<notin> {LEX_STRING, LEX_NUMBER} \<Longrightarrow> shape_token q v s lv = shape_token q v s' lv"
  by (cases v) (simp_all add: shape_token_def leaf_text_def split: option.split)

lemma parse_loop_open:
  assumes prog: "in_progress True h0 ps q lv" and q: "q \<in> {1, 7}"
    and idle: "lex_idle (lexer_of ps) cs" and cs: "peek cs \<noteq> NUL"
  obtains ps' where "parse_loop buffer ps = parse_loop buffer ps'" "lex_idle (lexer_of ps') cs"
    "in_progress True h0 ps' (fst (shape_open q lv)) (snd (shape_open q lv))"
proof -
  have rel: "parse_rel True h0 ps q lv" and p: "pi_p (fst ps) = Some cs" "pi_lex_state (fst ps) = 0"
    using prog idle by (auto simp: in_progress_def lex_idle_def)
  obtain out where out: "parse_step buffer ps = Some out" "goes_on True h0 ps (shape_open q lv) out"
    using parse_step_open [OF rel q] by blast
  have "case shape_open q lv of (q, lv) \<Rightarrow> wf_levels True lv \<and> state_ok q lv"
    using shape_open_wf [OF _ _ q] rel by (simp add: parse_rel_def)
  then obtain ps' where ps': "out = Parsing ps'" "keeps_lexer ps ps'"
    "in_progress True h0 ps' (fst (shape_open q lv)) (snd (shape_open q lv))"
    "grants (mem (snd ps')) = grants (mem (snd ps))"
    using goes_on_progress [OF out(2) _ p(2)] rel by (auto simp: parse_rel_def)
  moreover have "lex_idle (lexer_of ps') cs"
    using idle ps'(2,4) by (auto simp: lex_idle_def keeps_lexer_def generous_def)
  moreover have "parse_loop buffer ps = parse_loop buffer ps'"
    using parse_loop_turn [OF p(1) cs] out(1) ps'(1) by simp
  ultimately show ?thesis
    using that by blast
qed

lemma parse_loop_token:
  assumes prog: "in_progress True h0 ps q lv" and q: "q \<notin> {1, 7}"
    and idle: "lex_idle (lexer_of ps) cs" and cs: "renders ((v, x) # ts) cs"
    and step: "shape_token q v (Some x) lv = Some to"
  obtains ps' cs' where "parse_loop buffer ps = parse_loop buffer ps'" "lex_idle (lexer_of ps') cs'"
    "in_progress True h0 ps' (fst to) (snd to)" "renders ts cs'"
proof -
  have rel: "parse_rel True h0 ps q lv" and inv: "lex_inv (lexer_of ps)" and p: "pi_p (fst ps) = Some cs"
    using prog idle by (auto simp: in_progress_def lex_idle_def)
  obtain g w rest where split: "cs = g @ w @ rest" "list_all is_ws g" "spells v x w"
    "v = LEX_NUMBER \<longrightarrow> rest \<noteq> [] \<and> ends_number (hd rest)" "renders ts rest"
    using cs by auto
  obtain s' h rest' where tok: "lexer_loop (lexer_of ps) = Some (v, s')" "lex_idle s' rest'"
    "rest = h @ rest'" "list_all is_ws h"
    "v \<in> {LEX_STRING, LEX_NUMBER} \<Longrightarrow> rcs_holds (lx_text s') x"
    using lexer_token [OF idle [unfolded split(1)] split(2,3)] split(4) by blast
  obtain v1 ps1 s out where run: "lexer_loop (lexer_of ps) = Some (v1, lexer_of ps1)"
    and call: "call_ok (lexer_of ps) v1 (lexer_of ps1)"
    and tr: "token_read True h0 ps1 q lv v1" and s: "text_of True v1 s ps1"
    and out: "parse_step buffer ps = Some out" "answers True h0 q v1 s lv ps1 out"
    using parse_step_reading [OF rel q inv p] by metis
  have v1: "v1 = v" and s': "lexer_of ps1 = s'"
    using run tok(1) by simp_all
  have "v \<in> {LEX_STRING, LEX_NUMBER} \<Longrightarrow> s = Some x"
    using s tok(5) rcs_holds_unique unfolding v1 s' [symmetric] by (auto simp: text_of_def)
  then have "shape_token q v s lv = Some to"
    using step shape_token_text [of v q s lv "Some x"] by (cases "v \<in> {LEX_STRING, LEX_NUMBER}") auto
  then have go: "goes_on True h0 ps1 to out"
    using out(2) v1 by (simp add: answers_def)
  have tk1: "is_token v1"
    using shape_token_is_token [of q v "Some x" lv] step v1 by simp
  have rel1: "parse_rel True h0 ps1 q lv"
    using tr by (simp add: token_read_def)
  have lex0: "pi_lex_state (fst ps1) = 0"
    using tok(2) unfolding s' [symmetric] by (simp add: lex_idle_def)
  have "case to of (q', lv') \<Rightarrow> wf_levels True lv' \<and> state_ok q' lv'"
    using shape_token_wf [OF _ _ token_texts(1,2) [OF call s tk1], where q = q and lv = lv
        and q' = "fst to" and lv' = "snd to"] rel1 v1
      \<open>shape_token q v s lv = Some to\<close> by (auto simp: parse_rel_def)
  then obtain ps' where ps': "out = Parsing ps'" "keeps_lexer ps1 ps'"
    "in_progress True h0 ps' (fst to) (snd to)" "grants (mem (snd ps')) = grants (mem (snd ps1))"
    using goes_on_progress [OF go _ lex0] rel1 by (auto simp: parse_rel_def)
  have "lex_idle (lexer_of ps') rest'"
    using tok(2) ps'(2,4) unfolding s' [symmetric]
    by (auto simp: lex_idle_def keeps_lexer_def generous_def)
  moreover have "peek cs \<noteq> NUL"
    using renders_not_end [OF cs] by simp
  then have "parse_loop buffer ps = parse_loop buffer ps'"
    using parse_loop_turn [OF p] out(1) ps'(1) by simp
  moreover have "renders ts rest'"
    using renders_gap split(5) tok(3,4) by blast
  ultimately show ?thesis
    using that ps'(3) by blast
qed

lemma parse_loop_run:
  assumes "in_progress True h0 ps q lv" and "lex_idle (lexer_of ps) cs" and "renders ts cs"
    and "shape_run (q, lv) ts = Some (q', lv')"
  shows "\<exists>ps' cs'. parse_loop buffer ps = parse_loop buffer ps' \<and> in_progress True h0 ps' q' lv' \<and>
    lex_idle (lexer_of ps') cs' \<and> list_all is_ws cs'"
  using assms
proof (induction ts arbitrary: ps q lv cs)
  case Nil
  then show ?case by (intro exI [of _ ps] exI [of _ cs]) auto
next
  case (Cons t ts)
  obtain v x where t: "t = (v, x)"
    by (cases t)
  obtain q1 lv1 where norm: "(if q \<in> {1, 7} then shape_open q lv else (q, lv)) = (q1, lv1)"
    by fastforce
  obtain to where to: "shape_token q1 v (Some x) lv1 = Some to" "shape_run to ts = Some (q', lv')"
    using Cons.prems(4) norm t by (auto simp: bind_eq_Some_conv)
  have q1: "q1 \<notin> {1, 7}"
    using norm by (auto simp: shape_open_def split: if_splits)
  have "\<exists>ps1. parse_loop buffer ps = parse_loop buffer ps1 \<and> lex_idle (lexer_of ps1) cs \<and>
      in_progress True h0 ps1 q1 lv1"
  proof (cases "q \<in> {1, 7}")
    case True
    have cs: "peek cs \<noteq> NUL"
      using renders_not_end [OF Cons.prems(3)] by simp
    show ?thesis
      using parse_loop_open [OF Cons.prems(1) True Cons.prems(2) cs, of buffer] norm True
      by (metis fst_conv snd_conv)
  next
    case False
    with norm have "q1 = q" "lv1 = lv"
      by simp_all
    with Cons.prems show ?thesis
      by (intro exI [of _ ps]) simp
  qed
  then obtain ps1 where ps1: "parse_loop buffer ps = parse_loop buffer ps1" "lex_idle (lexer_of ps1) cs"
    "in_progress True h0 ps1 q1 lv1"
    by blast
  obtain ps2 cs2 where ps2: "parse_loop buffer ps1 = parse_loop buffer ps2" "lex_idle (lexer_of ps2) cs2"
    "in_progress True h0 ps2 (fst to) (snd to)" "renders ts cs2"
    using parse_loop_token [OF ps1(3) q1 ps1(2) Cons.prems(3) [unfolded t] to(1)] by metis
  show ?case
    using Cons.IH [OF ps2(3,2,4)] to(2) ps1(1) ps2(1) by simp
qed

text \<open>The machine on the tokens of a well-formed document.\<close>

lemma shape_run_append:
  "shape_run c (ts @ us) = Option.bind (shape_run c ts) (\<lambda>c. shape_run c us)"
proof (induction ts arbitrary: c)
  case Nil
  then show ?case by (cases c) simp
next
  case (Cons t ts)
  then show ?case
    by (cases c; cases t) (auto simp: Let_def split: prod.split bind_split)
qed

definition runs_in_array :: "jval \<Rightarrow> bool" where
  "runs_in_array k \<longleftrightarrow> (\<forall>s ks lv. shape_run (8, (JSON_ARRAY, s, ks) # lv) (toks k) =
     Some (9, (JSON_ARRAY, s, ks @ [k]) # lv))"

definition runs_as_value :: "jval \<Rightarrow> bool" where
  "runs_as_value k \<longleftrightarrow> (\<forall>s s1 ks1 lv. shape_run (6, (JSON_STRING, s, []) # (JSON_OBJECT, s1, ks1) # lv) (toks k) =
     Some (3, (JSON_OBJECT, s1, ks1 @ [JVal JSON_STRING s [k]]) # lv))"

definition runs_in_object :: "jval \<Rightarrow> bool" where
  "runs_in_object k \<longleftrightarrow> (\<forall>q s ks lv. q \<in> {2, 4} \<longrightarrow> shape_run (q, (JSON_OBJECT, s, ks) # lv) (toks k) =
     Some (3, (JSON_OBJECT, s, ks @ [k]) # lv))"

lemma runs_array_kids:
  assumes "\<And>k. k \<in> set ks \<Longrightarrow> runs_in_array k"
  shows "shape_run (8, (JSON_ARRAY, s, js) # lv) (kid_toks ks) =
    Some (if ks = [] then 8 else 9, (JSON_ARRAY, s, js @ ks) # lv)"
  using assms
proof (induction ks arbitrary: js)
  case (Cons k ks)
  have k: "shape_run (8, (JSON_ARRAY, s, js) # lv) (toks k) = Some (9, (JSON_ARRAY, s, js @ [k]) # lv)"
    using Cons.prems by (simp add: runs_in_array_def)
  show ?case
    using Cons.IH [of "js @ [k]"] Cons.prems k
    by (simp add: shape_run_append shape_token_def)
qed simp

lemma runs_object_kids:
  assumes "\<And>k. k \<in> set ks \<Longrightarrow> runs_in_object k" and "q \<in> {2, 4}"
  shows "shape_run (q, (JSON_OBJECT, s, js) # lv) (kid_toks ks) =
    Some (if ks = [] then q else 3, (JSON_OBJECT, s, js @ ks) # lv)"
  using assms
proof (induction ks arbitrary: js q)
  case (Cons k ks)
  have k: "shape_run (q, (JSON_OBJECT, s, js) # lv) (toks k) = Some (3, (JSON_OBJECT, s, js @ [k]) # lv)"
    using Cons.prems unfolding runs_in_object_def by (meson list.set_intros(1))
  show ?case
    using Cons.IH [of 4 "js @ [k]"] Cons.prems k
    by (simp add: shape_run_append shape_token_def)
qed simp

lemma shape_run_opened:
  "shape_run (Suc 0, lv) (kid_toks ks @ [(v, x)]) =
     Option.bind (shape_run (2, (JSON_OBJECT, None, []) # lv) (kid_toks ks)) (\<lambda>c. shape_run c [(v, x)])"
  "shape_run (7, lv) (kid_toks ks @ [(v, x)]) =
     Option.bind (shape_run (8, (JSON_ARRAY, None, []) # lv) (kid_toks ks)) (\<lambda>c. shape_run c [(v, x)])"
proof -
  have enter: "shape_run (q, lv) (ts @ [(v, x)]) = shape_run (shape_open q lv) (ts @ [(v, x)])"
    if "q \<in> {1, 7}" for q ts
    using that by (cases ts) (auto simp: shape_open_def)
  show "shape_run (Suc 0, lv) (kid_toks ks @ [(v, x)]) =
     Option.bind (shape_run (2, (JSON_OBJECT, None, []) # lv) (kid_toks ks)) (\<lambda>c. shape_run c [(v, x)])"
    "shape_run (7, lv) (kid_toks ks @ [(v, x)]) =
     Option.bind (shape_run (8, (JSON_ARRAY, None, []) # lv) (kid_toks ks)) (\<lambda>c. shape_run c [(v, x)])"
    using enter [of "Suc 0"] enter [of 7] by (simp_all add: shape_open_def shape_run_append)
qed

lemma leaf_runs:
  assumes "ty \<noteq> JSON_OBJECT" "ty \<noteq> JSON_ARRAY" and "wf_val True (JVal ty s ks)"
  shows "runs_in_array (JVal ty s ks)" and "runs_as_value (JVal ty s ks)"
proof -
  have text_s: "ty \<in> {JSON_STRING, JSON_NUMBER} \<Longrightarrow> Some (the s) = s"
    using assms(3) by (auto simp: text_ok_def split: option.splits)
  show "runs_in_array (JVal ty s ks)" "runs_as_value (JVal ty s ks)"
    using assms text_s
    by (cases ty; simp add: runs_in_array_def runs_as_value_def shape_token_def leaf_type_def leaf_text_def)+
qed

lemma member_runs:
  assumes "runs_as_value k" and "s = Some x"
  shows "runs_in_object (JVal JSON_STRING s [k])"
  using assms by (auto simp: runs_in_object_def runs_as_value_def shape_token_def leaf_type_def)

lemma document_runs:
  "wf_val True k \<Longrightarrow> runs_in_array k \<and> runs_as_value k"
  "wf_member True k \<Longrightarrow> runs_in_object k"
proof (induction k)
  case (JVal ty s ks)
  {
    case 1
    show ?case
    proof (cases ty)
      case JSON_OBJECT
      then have "runs_in_object k" if "k \<in> set ks" for k
        using JVal(2) 1 that by simp
      then show ?thesis
        using runs_object_kids [of ks 2] 1 JSON_OBJECT
        by (auto simp: runs_in_array_def runs_as_value_def shape_token_def shape_run_opened
            leave_def)
    next
      case JSON_ARRAY
      then have "runs_in_array k" if "k \<in> set ks" for k
        using JVal(1) 1 that by simp
      then show ?thesis
        using runs_array_kids [of ks] 1 JSON_ARRAY
        by (auto simp: runs_in_array_def runs_as_value_def shape_token_def shape_run_opened
            leave_def)
    qed (use leaf_runs [of ty s ks] 1 in simp_all)
  next
    case 2
    then obtain k x where k: "ty = JSON_STRING" "ks = [k]" "s = Some x" "wf_val True k"
      by (auto simp: length_Suc_conv text_ok_def split: option.splits)
    then have "runs_as_value k"
      using JVal(1) by simp
    then show ?case
      using member_runs k by simp
  }
qed

text \<open>A whole document: the machine ends with the root as its only level.\<close>

definition is_container :: "jval \<Rightarrow> bool" where
  "is_container k \<longleftrightarrow> (case k of JVal ty s ks \<Rightarrow> ty \<in> {JSON_OBJECT, JSON_ARRAY})"

lemma document_run:
  assumes "wf_val True (JVal ty s ks)" and "ty \<in> {JSON_OBJECT, JSON_ARRAY}"
  shows "shape_run (0, []) (toks (JVal ty s ks)) = Some (99, [(ty, s, ks)])"
  using assms(2)
proof (elim insertE emptyE)
  assume ty: "ty = JSON_OBJECT"
  then have "runs_in_object k" if "k \<in> set ks" for k
    using document_runs(2) assms(1) that by simp
  then show ?thesis
    using runs_object_kids [of ks 2] assms(1) ty
    by (auto simp: shape_token_def shape_run_opened leave_def)
next
  assume ty: "ty = JSON_ARRAY"
  then have "runs_in_array k" if "k \<in> set ks" for k
    using document_runs(1) assms(1) that by simp
  then show ?thesis
    using runs_array_kids [of ks] assms(1) ty
    by (auto simp: shape_token_def shape_run_opened leave_def)
qed

section \<open>Parsing a document\<close>

text \<open>No address at or above \<open>fresh\<close> is in use.\<close>

definition store_ok :: "store \<Rightarrow> bool" where
  "store_ok st \<longleftrightarrow> (\<forall>x \<ge> fresh st. nodes st x = None)"

text \<open>The heap of \<open>st'\<close> is that of \<open>st\<close> and, at new addresses, the document \<open>t\<close>.\<close>

definition new_doc :: "store \<Rightarrow> store \<Rightarrow> jtree \<Rightarrow> bool" where
  "new_doc st st' t \<longleftrightarrow> holds_doc (nodes st') t \<and> store_ok st' \<and>
     (\<forall>x. if x \<in> set (tree_addrs t) then nodes st x = None else nodes st' x = nodes st x)"

lemma in_progress_init:
  assumes "store_ok st" and "g \<Longrightarrow> generous (mem st)"
  shows "in_progress g (nodes st) (json_jpi_init\<lparr>pi_p := Some src\<rparr>, st) 0 []"
  using assms
  by (auto simp: in_progress_def parse_rel_def json_jpi_init_def doc_rel_def store_ok_def lex_inv_def)

lemma doc_rel_finished:
  assumes "doc_rel (nodes st) st' p [(ty, s, ks)]"
  obtains t where "p = jt_ptr t" "erase t = JVal ty s ks" "new_doc st st' t"
proof -
  obtain t fs where t: "p = jt_ptr t" "[(ty, s, ks)] = levels t fs" "doc_at (nodes st) st' t fs"
    using assms by (auto simp: doc_rel_def split: if_splits)
  then have "fs = []" "erase t = JVal ty s ks"
    by (cases t; simp add: levels_def)+
  with t that show ?thesis
    by (auto simp: doc_at_def new_doc_def store_ok_def)
qed

lemma request_cases:
  obtains "request m = (True, m\<lparr>requests := Suc (requests m)\<rparr>)"
  | "request m = (False, m\<lparr>requests := Suc (requests m)\<rparr>)" "\<not> generous m"
proof (cases "grants m (requests m)")
  case True
  then show ?thesis
    by (intro that(1)) (simp add: request_def)
next
  case False
  then show ?thesis
    by (intro that(2)) (auto simp: request_def generous_def)
qed

text \<open>
  Whatever the text and the allocator: the call returns, with one of four codes, and a
  document it accepts is well formed.
\<close>

lemma json_parse_document_safe:
  assumes "store_ok st"
  obtains e p st' where "json_parse_document src st = Some (e, p, st')"
    "e \<in> {JSON_OK, JSON_MALFORMED_DOCUMENT, JSON_INCOMPLETE_DOCUMENT, JSON_MEMORY}"
    "e \<noteq> JSON_OK \<Longrightarrow> p = NULL" "generous (mem st) \<Longrightarrow> e \<noteq> JSON_MEMORY"
    "e = JSON_OK \<Longrightarrow> (generous (mem st) \<longrightarrow> generous (mem st')) \<and> (\<exists>t. p = jt_ptr t \<and> new_doc st st' t \<and>
      wf_val (generous (mem st)) (erase t) \<and> is_container (erase t))"
proof (cases rule: request_cases [of "mem st"])
  case 2
  then show ?thesis
    using that [of JSON_MEMORY NULL] by (simp add: json_parse_document_def)
next
  case 1
  let ?m = "(mem st)\<lparr>requests := Suc (requests (mem st))\<rparr>"
  let ?st = "st\<lparr>mem := ?m\<rparr>"
  let ?g = "generous (mem st)"
  let ?ps = "(json_jpi_init\<lparr>pi_p := Some src\<rparr>, ?st)"
  have init: "in_progress ?g (nodes st) ?ps 0 []"
    using in_progress_init [of ?st ?g src] assms by (simp add: store_ok_def)
  obtain e ps' where loop: "parse_loop src ?ps = Some (e, ps')"
    "e \<in> {JSON_MALFORMED_DOCUMENT, JSON_INCOMPLETE_DOCUMENT, JSON_WAITING_FOR_EOF, JSON_MEMORY}"
    "?g \<longrightarrow> e \<noteq> JSON_MEMORY"
    "e \<in> {JSON_INCOMPLETE_DOCUMENT, JSON_WAITING_FOR_EOF} \<longrightarrow>
      (\<exists>q' lv'. in_progress ?g (nodes st) ps' q' lv' \<and> (e = JSON_WAITING_FOR_EOF \<longleftrightarrow> q' = 99))"
    using parse_loop_progress [OF init, of src] by (simp, blast)
  have doc: "json_parse_document src st = (if e = JSON_WAITING_FOR_EOF
      then Some (JSON_OK, pi_cursor (fst ps'), snd ps') else Some (e, NULL, snd ps'))"
    using 1 loop(1,2) by (cases ps') (auto simp: json_parse_document_def json_parse_fragment_def)
  show ?thesis
  proof (rule that)
    show "json_parse_document src st = Some (if e = JSON_WAITING_FOR_EOF then JSON_OK else e,
        if e = JSON_WAITING_FOR_EOF then pi_cursor (fst ps') else NULL, snd ps')"
      using doc by simp
    assume "(if e = JSON_WAITING_FOR_EOF then JSON_OK else e) = JSON_OK"
    then have e: "e = JSON_WAITING_FOR_EOF"
      using loop(2) by (auto split: if_splits)
    then obtain lv where rel: "parse_rel ?g (nodes st) ps' 99 lv"
      using loop(4) by (auto simp: in_progress_def)
    then obtain ty s ks where lv: "lv = [(ty, s, ks)]"
      by (auto simp: parse_rel_def length_Suc_conv)
    obtain t where t: "pi_cursor (fst ps') = jt_ptr t" "erase t = JVal ty s ks" "new_doc st (snd ps') t"
      using doc_rel_finished [of st "snd ps'" "pi_cursor (fst ps')" ty s ks] rel lv
      by (auto simp: parse_rel_def)
    have "wf_val ?g (erase t) \<and> is_container (erase t)"
      using rel lv t(2) by (auto simp: parse_rel_def is_container_def)
    moreover have "?g \<longrightarrow> generous (mem (snd ps'))"
      using rel by (simp add: parse_rel_def)
    ultimately show "(?g \<longrightarrow> generous (mem (snd ps'))) \<and>
        (\<exists>t. (if e = JSON_WAITING_FOR_EOF then pi_cursor (fst ps') else NULL) = jt_ptr t \<and>
          new_doc st (snd ps') t \<and> wf_val ?g (erase t) \<and> is_container (erase t))"
      using t(1,3) e by (intro conjI exI [of _ t]) simp_all
  qed (use loop(2,3) in auto)
qed

text \<open>Every rendering of a well-formed document is accepted, and gives back the document.\<close>

lemma parse_loop_finished:
  assumes prog: "in_progress True h0 ps 99 lv" and idle: "lex_idle (lexer_of ps) cs"
    and ws: "list_all is_ws cs"
  obtains ps' where "parse_loop buffer ps = Some (JSON_WAITING_FOR_EOF, ps')" "parse_rel True h0 ps' 99 lv"
proof (cases "peek cs = NUL")
  case True
  have p: "pi_p (fst ps) = Some cs"
    using idle by (simp add: lex_idle_def)
  show ?thesis
    using parse_loop_end [OF p True, of buffer] prog in_progress_suspend [OF prog, of None]
    by (intro that [of "((fst ps)\<lparr>pi_p := None\<rparr>, snd ps)"]) (auto simp: in_progress_def parse_rel_def)
next
  case False
  have rel: "parse_rel True h0 ps 99 lv" and inv: "lex_inv (lexer_of ps)" and p: "pi_p (fst ps) = Some cs"
    using prog idle by (auto simp: in_progress_def lex_idle_def)
  have q: "(99::nat) \<notin> {1, 7}"
    by simp
  obtain s1 where s1: "lexer_loop (lexer_of ps) = lexer_loop s1" "lex_idle s1 []"
    using lexer_gap [of "lexer_of ps" cs "[]"] idle ws by auto
  obtain v ps1 s out where run: "lexer_loop (lexer_of ps) = Some (v, lexer_of ps1)"
    and tr: "token_read True h0 ps1 99 lv v"
    and out: "parse_step buffer ps = Some out" "answers True h0 99 v s lv ps1 out"
    using parse_step_reading [OF rel q inv p] by metis
  have "v = LEX_MORE"
    using run s1 by (auto simp: lex_idle_def)
  then have "out = Parsed JSON_WAITING_FOR_EOF ps1"
    using out(2) by (simp add: answers_def shape_token_def leaf_type_def reject_error_def)
  then show ?thesis
    using that [of ps1] parse_loop_turn [OF p False] out(1) tr by (simp add: token_read_def)
qed

lemma json_parse_document_complete:
  assumes "store_ok st" and mem: "generous (mem st)"
    and wf: "wf_val True k" "is_container k" and src: "renders (toks k) src"
  obtains t st' where "json_parse_document src st = Some (JSON_OK, jt_ptr t, st')" "erase t = k"
    "new_doc st st' t" "generous (mem st')"
proof -
  obtain ty s ks where k: "k = JVal ty s ks" "ty \<in> {JSON_OBJECT, JSON_ARRAY}"
    using wf(2) by (cases k) (auto simp: is_container_def)
  let ?st = "st\<lparr>mem := (mem st)\<lparr>requests := Suc (requests (mem st))\<rparr>\<rparr>"
  let ?ps = "(json_jpi_init\<lparr>pi_p := Some src\<rparr>, ?st)"
  have init: "in_progress True (nodes st) ?ps 0 []"
    using in_progress_init [of ?st True src] assms(1) mem by (simp add: store_ok_def)
  have idle: "lex_idle (lexer_of ?ps) src"
    using mem by (simp add: lex_idle_def json_jpi_init_def)
  obtain ps1 cs1 where ps1: "parse_loop src ?ps = parse_loop src ps1"
    "in_progress True (nodes st) ps1 99 [(ty, s, ks)]" "lex_idle (lexer_of ps1) cs1" "list_all is_ws cs1"
    using parse_loop_run [OF init idle src] document_run [OF wf(1) [unfolded k(1)] k(2)] k(1) by metis
  obtain ps' where ps': "parse_loop src ps1 = Some (JSON_WAITING_FOR_EOF, ps')"
    "parse_rel True (nodes st) ps' 99 [(ty, s, ks)]"
    using parse_loop_finished [OF ps1(2-4)] by blast
  obtain t where t: "pi_cursor (fst ps') = jt_ptr t" "erase t = JVal ty s ks" "new_doc st (snd ps') t"
    using doc_rel_finished [of st "snd ps'" "pi_cursor (fst ps')" ty s ks] ps'(2)
    by (auto simp: parse_rel_def)
  have "request (mem st) = (True, (mem st)\<lparr>requests := Suc (requests (mem st))\<rparr>)"
    by (rule request_generous [OF mem])
  then have "json_parse_document src st = Some (JSON_OK, jt_ptr t, snd ps')"
    using ps1(1) ps'(1) t(1)
    by (cases ps') (simp add: json_parse_document_def json_parse_fragment_def)
  then show ?thesis
    using that t(2,3) k(1) ps'(2) by (simp add: parse_rel_def)
qed

section \<open>Printing, then parsing\<close>

text \<open>The text of the printer is a rendering, without white space.\<close>

definition tok_text :: "tok \<Rightarrow> string" where
  "tok_text t = (case t of (v, x) \<Rightarrow> case v of
     LEX_STRING \<Rightarrow> QUOTE # x @ [QUOTE]
   | LEX_NUMBER \<Rightarrow> x
   | LEX_TRUE \<Rightarrow> ''true'' | LEX_FALSE \<Rightarrow> ''false'' | LEX_NULL \<Rightarrow> ''null''
   | LEX_BEGIN_OBJECT \<Rightarrow> ''{'' | LEX_END_OBJECT \<Rightarrow> ''}'' | LEX_BEGIN_ARRAY \<Rightarrow> ''[''
   | LEX_END_ARRAY \<Rightarrow> '']'' | LEX_NAME_SEPARATOR \<Rightarrow> '':'' | LEX_VALUE_SEPARATOR \<Rightarrow> '',''
   | _ \<Rightarrow> [])"

definition toks_text :: "tok list \<Rightarrow> string" where
  "toks_text ts = concat (map tok_text ts)"

lemma toks_text_simps [simp]:
  "toks_text [] = []" "toks_text (t # ts) = tok_text t @ toks_text ts"
  "toks_text (ts @ us) = toks_text ts @ toks_text us"
  by (simp_all add: toks_text_def)

lemma tree_text_toks:
  "(wf_val True (erase t) \<longrightarrow> tree_text False t = Some (toks_text (toks (erase t)))) \<and>
   (wf_member True (erase t) \<or> wf_val True (erase t) \<and> is_container (erase t) \<longrightarrow>
      tree_text True t = Some (toks_text (toks (erase t))))"
proof (induction t)
  case (JNode a ty s ts)
  have kids: "forest_text False us = Some (toks_text (kid_toks (map erase us)))"
    if "set us \<subseteq> set ts" "\<forall>k \<in> set us. wf_val True (erase k)" for us
    using that
    by (induction us) (use JNode.IH in \<open>auto simp: tok_text_def\<close>)
  have members: "forest_text True us = Some (toks_text (kid_toks (map erase us)))"
    if "set us \<subseteq> set ts" "\<forall>k \<in> set us. wf_member True (erase k)" for us
    using that
    by (induction us) (use JNode.IH in \<open>auto simp: tok_text_def\<close>)
  show ?case
    using kids [of ts] members [of ts]
    by (cases ty) (auto simp: tok_text_def visits_kids_def open_text_def close_text_def is_container_def)
qed

definition delimited :: "tok list \<Rightarrow> bool" where
  "delimited ts \<longleftrightarrow> (case ts of [] \<Rightarrow> False
     | (v, x) # _ \<Rightarrow> v \<in> {LEX_VALUE_SEPARATOR, LEX_END_OBJECT, LEX_END_ARRAY})"

fun good_toks :: "tok list \<Rightarrow> bool" where
  "good_toks [] = True"
| "good_toks ((v, x) # ts) \<longleftrightarrow> spells v x (tok_text (v, x)) \<and> (v = LEX_NUMBER \<longrightarrow> delimited ts) \<and>
     good_toks ts"

lemma good_toks_render: "good_toks ts \<Longrightarrow> renders ts (toks_text ts)"
proof (induction ts)
  case (Cons t ts)
  obtain v x where t: "t = (v, x)"
    by (cases t)
  have follow: "toks_text ts \<noteq> [] \<and> ends_number (hd (toks_text ts))" if "delimited ts"
    using that by (auto simp: delimited_def tok_text_def char_simps split: list.splits prod.splits)
  show ?case
    unfolding t renders.simps
    by (intro exI [of _ "[]"] exI [of _ "tok_text (v, x)"] exI [of _ "toks_text ts"])
      (use Cons t follow in simp)
qed simp

lemma text_ok_True: "text_ok True P s \<longleftrightarrow> (\<exists>x. s = Some x \<and> P x)"
  by (auto simp: text_ok_def split: option.split)

lemma good_document:
  "(wf_val True k \<longrightarrow> good_toks us \<longrightarrow> delimited us \<or> is_container k \<longrightarrow> good_toks (toks k @ us)) \<and>
   (wf_member True k \<longrightarrow> good_toks us \<longrightarrow> delimited us \<longrightarrow> good_toks (toks k @ us))"
proof (induction k arbitrary: us)
  case (JVal ty s ks)
  have vals: "good_toks (kid_toks js @ us)"
    if "set js \<subseteq> set ks" "\<forall>k \<in> set js. wf_val True k" "good_toks us" "delimited us" for js us
    using that
    by (induction js) (use JVal.IH in \<open>auto simp: tok_text_def spells_def delimited_def\<close>)
  have members: "good_toks (kid_toks js @ us)"
    if "set js \<subseteq> set ks" "\<forall>k \<in> set js. wf_member True k" "good_toks us" "delimited us" for js us
    using that
    by (induction js) (use JVal.IH in \<open>auto simp: tok_text_def spells_def delimited_def\<close>)
  have close: "good_toks us \<Longrightarrow> good_toks ((LEX_END_OBJECT, []) # us)"
    "good_toks us \<Longrightarrow> good_toks ((LEX_END_ARRAY, []) # us)"
    by (simp_all add: tok_text_def spells_def)
  have delim: "delimited ((LEX_END_OBJECT, []) # us)" "delimited ((LEX_END_ARRAY, []) # us)" for us
    by (simp_all add: delimited_def)
  show ?case
    using vals [OF subset_refl _ close(2) delim(2)] vals [OF subset_refl, of us]
      members [OF subset_refl _ close(1) delim(1)]
    by (cases ty) (auto simp: tok_text_def spells_def text_ok_True is_container_def)
qed

lemma document_renders:
  assumes "wf_val True k" and "is_container k"
  shows "renders (toks k) (toks_text (toks k))"
  using good_document [of k "[]"] assms good_toks_render by auto

text \<open>A well-formed document has the texts the printer reads.\<close>

lemma wf_has_texts:
  "(wf_val True (erase t) \<longrightarrow> has_texts t) \<and> (wf_member True (erase t) \<longrightarrow> has_texts t)"
proof (induction t)
  case (JNode a ty s ts)
  have "is_number x \<Longrightarrow> NUL \<notin> set x" for x
    using number_run [of x] number_run_no_NUL [of 0 x] by (auto simp: accepts_number_def)
  then show ?case
    using JNode by (cases ty) (auto simp: text_ok_True string_body_no_NUL)
qed

text \<open>
  The document is printed and its text parsed again: a second document of the same shape
  appears at new addresses, the first one is untouched.
\<close>

lemma print_parse_document:
  assumes doc: "holds_doc (nodes st) t" and ok: "store_ok st" and mem: "generous (mem st)"
    and wf: "wf_val True (erase t)" "is_container (erase t)" and fuel: "2 * tree_size t \<le> fuel"
  obtains src st1 u st2 where "json_tree_to_string fuel (jt_ptr t) old st = Some (JSON_OK, Some src, st1)"
    "json_parse_document src st1 = Some (JSON_OK, jt_ptr u, st2)" "erase u = erase t" "new_doc st st2 u"
proof -
  have doc': "holds_doc (nodes st) (plug t [])"
    using doc by simp
  have "tree_text True t = Some (toks_text (toks (erase t)))"
    using tree_text_toks wf by blast
  moreover have "is_label_place (hole_parent []) st = True"
    by (simp add: is_label_place_def)
  ultimately obtain m where m: "generous m" "json_tree_to_string fuel (jt_ptr t) old st =
      Some (JSON_OK, Some (toks_text (toks (erase t))), st\<lparr>mem := m\<rparr>)"
    using json_tree_to_string_spec [OF doc' _ mem fuel, of old] wf_has_texts [of t] wf(1) by auto
  have "store_ok (st\<lparr>mem := m\<rparr>)" "generous (mem (st\<lparr>mem := m\<rparr>))"
    using ok m(1) by (simp_all add: store_ok_def)
  then obtain u st2 where "json_parse_document (toks_text (toks (erase t))) (st\<lparr>mem := m\<rparr>) =
      Some (JSON_OK, jt_ptr u, st2)" "erase u = erase t" "new_doc (st\<lparr>mem := m\<rparr>) st2 u"
    using json_parse_document_complete [OF _ _ wf document_renders [OF wf]] by metis
  then show ?thesis
    using that m(2) by (simp add: new_doc_def cong: if_cong)
qed

section \<open>Fragments\<close>

text \<open>
  A document handed over in two buffers.  Where the first call asks for more input, the second
  call does what one call on the concatenation does.
\<close>

definition extend_ps :: "string \<Rightarrow> parse_st \<Rightarrow> parse_st" where
  "extend_ps ds ps = ((fst ps)\<lparr>pi_p := map_option (\<lambda>cs. cs @ ds) (pi_p (fst ps))\<rparr>, snd ps)"

lemma extend_ps_simps [simp]:
  "pi_state (fst (extend_ps ds ps)) = pi_state (fst ps)"
  "pi_lex_state (fst (extend_ps ds ps)) = pi_lex_state (fst ps)"
  "pi_lex_text (fst (extend_ps ds ps)) = pi_lex_text (fst ps)"
  "pi_cursor (fst (extend_ps ds ps)) = pi_cursor (fst ps)"
  "pi_p (fst (extend_ps ds ps)) = map_option (\<lambda>cs. cs @ ds) (pi_p (fst ps))"
  "snd (extend_ps ds ps) = snd ps"
  "lexer_of (extend_ps ds ps) = extend ds (lexer_of ps)"
  by (simp_all add: extend_ps_def extend_def lexer_of_def)

lemma extend_ps_updates:
  "extend_ps ds ((fst ps)\<lparr>pi_state := n\<rparr>, st) = ((fst (extend_ps ds ps))\<lparr>pi_state := n\<rparr>, st)"
  "extend_ps ds ((fst ps)\<lparr>pi_cursor := p\<rparr>, st) = ((fst (extend_ps ds ps))\<lparr>pi_cursor := p\<rparr>, st)"
  "extend_ps ds ((fst ps)\<lparr>pi_lex_text := t\<rparr>, st) = ((fst (extend_ps ds ps))\<lparr>pi_lex_text := t\<rparr>, st)"
  "extend_ps ds (fst ps, st) = (fst (extend_ps ds ps), st)"
  by (simp_all add: extend_ps_def)

fun extend_out :: "string \<Rightarrow> parse_outcome \<Rightarrow> parse_outcome" where
  "extend_out ds (Parsing ps) = Parsing (extend_ps ds ps)"
| "extend_out ds (Parsed e ps) = Parsed e (extend_ps ds ps)"

text \<open>What the states do with the lexer's result does not look at the buffer.\<close>

definition blind :: "string \<Rightarrow> (parse_st \<Rightarrow> parse_outcome option) \<Rightarrow> bool" where
  "blind ds f \<longleftrightarrow> (\<forall>ps. f (extend_ps ds ps) = map_option (extend_out ds) (f ps))"

lemma blindI: "(\<And>ps. f (extend_ps ds ps) = map_option (extend_out ds) (f ps)) \<Longrightarrow> blind ds f"
  by (simp add: blind_def del: split_paired_All)

lemma blindD: "blind ds f \<Longrightarrow> f (extend_ps ds ps) = map_option (extend_out ds) (f ps)"
  unfolding blind_def by (rule spec)

lemma set_cursor_extend [simp]: "set_cursor p (extend_ps ds ps) = extend_ps ds (set_cursor p ps)"
  by (simp add: set_cursor_def extend_ps_def)

lemma blind_Parsed [simp]:
  "blind ds (\<lambda>ps. Some (Parsed e ps))" "blind ds malformed" "blind ds incomplete"
  by (simp_all add: blind_def malformed_def incomplete_def)

lemma blind_next_state [simp]: "blind ds (next_state n)"
  by (simp add: blind_def next_state_def extend_ps_updates)

lemma blind_set_cursor [simp]: "blind ds f \<Longrightarrow> blind ds (\<lambda>ps. f (set_cursor p ps))"
  by (simp add: blind_def del: split_paired_All)

lemma blind_attach:
  assumes "\<And>t. blind ds (k t)" shows "blind ds (attach temp k)"
proof (rule blindI)
  fix ps :: parse_st
  show "attach temp k (extend_ps ds ps) = map_option (extend_out ds) (attach temp k ps)"
  proof (cases "json_insert_child (pi_cursor (fst ps)) temp (snd ps)")
    case (Some r)
    then show ?thesis
      using blindD [OF assms, of temp "(fst ps, snd r)"]
      by (cases r) (simp add: attach_def extend_ps_updates)
  qed (simp add: attach_def)
qed

lemma blind_add_value [simp]:
  assumes "\<And>t. blind ds (k t)" shows "blind ds (add_value ty k)"
proof (rule blindI)
  fix ps :: parse_st
  obtain temp st where "json_new_value ty (snd ps) = (temp, st)"
    by fastforce
  then show "add_value ty k (extend_ps ds ps) = map_option (extend_out ds) (add_value ty k ps)"
    using blindD [OF blind_attach [of ds k temp, OF assms], of "(fst ps, st)"]
    by (simp add: add_value_def Let_def extend_ps_updates)
qed

lemma blind_add_text [simp]:
  assumes "\<And>t. blind ds (k t)" shows "blind ds (add_text ty k)"
proof (rule blindI)
  fix ps :: parse_st
  obtain temp st where new: "json_new_value ty (snd ps) = (temp, st)"
    by fastforce
  have "attach temp k ((fst (extend_ps ds ps))\<lparr>pi_lex_text := RcsNull\<rparr>, st') =
      map_option (extend_out ds) (attach temp k ((fst ps)\<lparr>pi_lex_text := RcsNull\<rparr>, st'))" for st'
    using blindD [OF blind_attach [of ds k temp, OF assms], of "((fst ps)\<lparr>pi_lex_text := RcsNull\<rparr>, st')"]
    by (simp add: extend_ps_updates)
  with new show "add_text ty k (extend_ps ds ps) = map_option (extend_out ds) (add_text ty k ps)"
    by (simp add: add_text_def Let_def extend_ps_updates split: prod.split Option.bind_split)
qed

lemma blind_member_done [simp]: "blind ds (member_done t)"
  by (rule blindI)
    (simp add: member_done_def blindD [OF blind_next_state] cong: if_cong split: Option.bind_split)

lemma snd_set_cursor [simp]: "snd (set_cursor p ps) = snd ps"
  by (simp add: set_cursor_def)

lemma blind_end_object [simp]: "blind ds end_object"
  by (rule blindI)
    (simp add: end_object_def Let_def blindD [OF blind_next_state] cong: if_cong
      split: Option.bind_split json_value_type.split)

lemma blind_end_array [simp]:
  assumes "blind ds orphan" shows "blind ds (end_array orphan)"
  by (rule blindI)
    (simp add: end_array_def Let_def blindD [OF blind_next_state] blindD [OF assms] cong: if_cong
      split: Option.bind_split json_value_type.split)

text \<open>
  A state that reads sees the document, not the buffer: if the lexer gives on \<open>qs\<close> what it
  gives on \<open>ps\<close> with a longer buffer, so does the state.
\<close>

lemma bind_run_lexer:
  assumes "run_lexer b' qs = map_option (map_prod id (extend_ps ds)) (run_lexer b ps)"
    and "\<And>v. blind ds (f v)"
  shows "Option.bind (run_lexer b' qs) (\<lambda>(v, r). f v r) =
    map_option (extend_out ds) (Option.bind (run_lexer b ps) (\<lambda>(v, r). f v r))"
  using assms(1) blindD [OF assms(2)] by (cases "run_lexer b ps") auto

lemma bind_checked:
  "(\<And>a. f a = map_option h (g a)) \<Longrightarrow> Option.bind A f = map_option h (Option.bind A g)"
  by (cases A) auto

lemma parse_step_extend:
  assumes run: "run_lexer b' qs = map_option (map_prod id (extend_ps ds)) (run_lexer b ps)"
    and same: "pi_state (fst qs) = pi_state (fst ps)" "pi_cursor (fst qs) = pi_cursor (fst ps)"
      "nodes (snd qs) = nodes (snd ps)"
    and q: "pi_state (fst ps) \<in> {0, 2, 3, 4, 5, 6, 8, 9, 99}"
  shows "parse_step b' qs = map_option (extend_out ds) (parse_step b ps)"
proof -
  have fetch: "fetch p (snd qs) = fetch p (snd ps)" for p
    by (cases p) (simp_all add: fetch_def same(3))
  have check: "assert_cursor tys qs = assert_cursor tys ps" for tys
    by (simp add: assert_cursor_def fetch same(2))
  note react = bind_run_lexer [OF run]
  consider "pi_state (fst ps) \<in> {0, 2, 3, 4}" | "pi_state (fst ps) \<in> {5, 6, 8}"
    | "pi_state (fst ps) \<in> {9, 99}"
    using q by auto
  then show ?thesis
  proof cases
    case 1
    then show ?thesis
      unfolding parse_step_def Let_def same
      by (elim insertE emptyE; simp add: parse_state_defs check; intro bind_checked react;
          rename_tac v; case_tac v; simp)
  next
    case 2
    then show ?thesis
      unfolding parse_step_def Let_def same
      by (elim insertE emptyE; simp add: parse_state_defs check; intro bind_checked react;
          rename_tac v; case_tac v; simp)
  next
    case 3
    then show ?thesis
      unfolding parse_step_def Let_def same
      by (elim insertE emptyE; simp add: parse_state_defs fetch same(2);
          intro bind_checked conjI impI; (simp cong: if_cong)?; intro impI react;
          rename_tac v; case_tac v; simp)
  qed
qed

lemma parse_step_extend_open:
  assumes "pi_state (fst ps) \<in> {1, 7}"
  shows "parse_step b' (extend_ps ds ps) = map_option (extend_out ds) (parse_step b ps)"
proof -
  have "open_node ty n (extend_ps ds ps) = map_option (extend_out ds) (open_node ty n ps)" for ty n
  proof (cases "pi_cursor (fst ps) = NULL")
    case True
    obtain p st where new: "json_new_value ty (snd ps) = (p, st)"
      by fastforce
    have "set_cursor p (fst (extend_ps ds ps), st) = extend_ps ds (set_cursor p (fst ps, st))" for p
      by (simp add: set_cursor_def extend_ps_updates)
    with True new show ?thesis
      by (simp add: open_node_def Let_def blindD [OF blind_next_state])
  next
    case False
    have "assert_cursor tys (extend_ps ds ps) = assert_cursor tys ps" for tys
      by (simp add: assert_cursor_def)
    then show ?thesis
      using False by (simp add: open_node_def bind_checked [OF blindD [OF blind_add_value]])
  qed
  then show ?thesis
    using assms by (auto simp: parse_step_def parse_open_object_def parse_open_array_def)
qed

definition put_lexer :: "lexer_st \<Rightarrow> parse_st \<Rightarrow> parse_st" where
  "put_lexer s ps = ((fst ps)\<lparr>pi_p := lx_p s, pi_lex_state := lx_state s, pi_lex_text := lx_text s\<rparr>,
     (snd ps)\<lparr>mem := lx_mem s\<rparr>)"

definition resume :: "string \<Rightarrow> parse_st \<Rightarrow> parse_st" where
  "resume ds ps = ((fst ps)\<lparr>pi_p := Some ds\<rparr>, snd ps)"

lemma put_lexer_simps [simp]:
  "lexer_of (put_lexer s ps) = s" "put_lexer s (put_lexer s0 ps) = put_lexer s ps"
  "put_lexer s (extend_ps ds ps) = put_lexer s ps" "put_lexer s (resume ds ps) = put_lexer s ps"
  "extend_ps ds (put_lexer s ps) = put_lexer (extend ds s) ps"
  "lexer_of (resume ds ps) = (lexer_of ps)\<lparr>lx_p := Some ds\<rparr>"
  "nodes (snd (put_lexer s ps)) = nodes (snd ps)" "nodes (snd (resume ds ps)) = nodes (snd ps)"
  "pi_p (fst (resume ds ps)) = Some ds" "pi_p (fst (put_lexer s ps)) = lx_p s"
  "pi_state (fst (put_lexer s ps)) = pi_state (fst ps)"
  "pi_cursor (fst (put_lexer s ps)) = pi_cursor (fst ps)"
  "pi_state (fst (resume ds ps)) = pi_state (fst ps)"
  "pi_cursor (fst (resume ds ps)) = pi_cursor (fst ps)"
  by (simp_all add: put_lexer_def resume_def lexer_of_def extend_ps_def extend_def)

lemma extend_ps_Nil [simp]: "extend_ps [] ps = ps"
  by (simp add: extend_ps_def map_option.id [unfolded id_def])

lemma extend_ps_Nil_map [simp]: "extend_ps [] = id"
  by (simp add: fun_eq_iff)

lemma extend_out_Nil [simp]: "extend_out [] = id"
proof
  fix out show "extend_out [] out = id out"
    by (cases out) simp_all
qed

lemma run_lexer_eq:
  "pi_p (fst ps) \<noteq> None \<Longrightarrow>
   run_lexer b ps = map_option (\<lambda>(v, s). (v, put_lexer s ps)) (lexer_loop (lexer_of ps))"
  by (cases ps; cases "lexer_loop (lexer_of ps)")
    (auto simp: run_lexer_def lexer_def lexer_of_def put_lexer_def)

lemma parse_step_buffer:
  assumes "pi_p (fst ps) \<noteq> None" and "pi_state (fst ps) \<in> {0, 1, 2, 3, 4, 5, 6, 7, 8, 9, 99}"
  shows "parse_step b' ps = parse_step b ps"
proof (cases "pi_state (fst ps) \<in> {1, 7}")
  case True
  then show ?thesis
    using parse_step_extend_open [of ps b' "[]" b] by (simp add: option.map_id)
next
  case False
  then show ?thesis
    using parse_step_extend [of b' ps "[]" b ps] assms
    by (simp add: run_lexer_eq option.map_id prod.map_id0)
qed

lemma state_ok_known: "state_ok q lv \<Longrightarrow> q \<in> {0, 1, 2, 3, 4, 5, 6, 7, 8, 9, 99}"
  by (auto simp: state_ok_def split: if_splits)

lemma in_progress_known:
  "in_progress g h0 ps q lv \<Longrightarrow> pi_state (fst ps) \<in> {0, 1, 2, 3, 4, 5, 6, 7, 8, 9, 99}"
  unfolding in_progress_def parse_rel_def using state_ok_known by blast

lemma parse_loop_buffer:
  assumes "in_progress g h0 ps q lv" and "pi_p (fst ps) \<noteq> None"
  shows "parse_loop b' ps = parse_loop b ps"
  using assms
proof (induction b ps arbitrary: q lv rule: parse_loop.induct)
  case (1 b ps)
  obtain cs where cs: "pi_p (fst ps) = Some cs"
    using "1.prems"(2) by blast
  show ?case
  proof (cases "peek cs = NUL")
    case True
    then show ?thesis
      using parse_loop_end [OF cs] by simp
  next
    case False
    have same: "parse_step b' ps = parse_step b ps"
      using parse_step_buffer in_progress_known "1.prems" by blast
    obtain out where out: "parse_step b ps = Some out"
      "\<And>ps'. out = Parsing ps' \<Longrightarrow> \<exists>q' lv'. in_progress g h0 ps' q' lv'"
      using parse_step_progress [OF "1.prems"(1) cs, of b] by fastforce
    show ?thesis
    proof (cases out)
      case (Parsing ps')
      then show ?thesis
        using "1.IH" [OF cs False out(1) Parsing] out parse_step_pointer [of b ps ps' cs] cs same
          parse_loop_turn [OF cs False] by auto
    qed (use same out(1) parse_loop_turn [OF cs False] in simp)
  qed
qed

lemma resume_suspended:
  "pi_p (fst ps) = Some [] \<Longrightarrow> resume ds ((fst ps)\<lparr>pi_p := None\<rparr>, snd ps) = extend_ps ds ps"
  by (simp add: resume_def extend_ps_def)

lemma in_progress_resume: "in_progress g h0 ps q lv \<Longrightarrow> in_progress g h0 (resume ds ps) q lv"
  unfolding resume_def by (rule in_progress_suspend)

text \<open>One call of the lexer with the longer buffer.\<close>

lemma run_lexer_extend:
  assumes lex: "lexer_loop (lexer_of ps) = Some (v, lexer_of ps1)"
    and run: "run_lexer b ps = Some (v, ps1)" and v: "v = LEX_MORE \<or> is_token v"
    and p: "pi_p (fst ps) = Some cs" and nul: "NUL \<notin> set cs"
  shows "v = LEX_MORE \<Longrightarrow> run_lexer b' (extend_ps ds ps) = run_lexer b' (resume ds ps1)"
    and "is_token v \<Longrightarrow> run_lexer b' (extend_ps ds ps) = Some (v, extend_ps ds ps1)"
proof -
  have ps1: "ps1 = put_lexer (lexer_of ps1) ps"
    using run lex run_lexer_eq [of ps b] p by simp
  have frag: "lexer_loop (extend ds (lexer_of ps)) =
      (if v = LEX_MORE then lexer_loop ((lexer_of ps1)\<lparr>lx_p := Some ds\<rparr>)
       else Some (v, extend ds (lexer_of ps1)))"
    using lexer_loop_fragment [OF lex v _ nul, of ds] p by simp
  have put: "put_lexer s ps1 = put_lexer s ps" for s
    by (metis ps1 put_lexer_simps(2))
  show "run_lexer b' (extend_ps ds ps) = run_lexer b' (resume ds ps1)" if "v = LEX_MORE"
    using that frag p by (simp add: run_lexer_eq put)
  show "run_lexer b' (extend_ps ds ps) = Some (v, extend_ps ds ps1)" if "is_token v"
    using that frag p ps1 by (simp add: run_lexer_eq is_token_def) (metis put_lexer_simps(5))
qed

lemma asks_for_more:
  "reject_error q v \<in> {JSON_INCOMPLETE_DOCUMENT, JSON_WAITING_FOR_EOF} \<Longrightarrow> v = LEX_MORE"
  by (auto simp: reject_error_def split: if_splits)

text \<open>One turn of the loop with the longer buffer.\<close>

lemma parse_step_fragment:
  assumes prog: "in_progress g h0 ps q lv" and p: "pi_p (fst ps) = Some cs" and nul: "NUL \<notin> set cs"
    and step: "parse_step b ps = Some out"
  shows "out = Parsing ps' \<Longrightarrow> parse_step b' (extend_ps ds ps) = Some (Parsing (extend_ps ds ps')) \<and>
      (\<exists>cs'. pi_p (fst ps') = Some cs' \<and> NUL \<notin> set cs')"
    and "out = Parsed e ps' \<Longrightarrow> e \<in> {JSON_INCOMPLETE_DOCUMENT, JSON_WAITING_FOR_EOF} \<Longrightarrow>
      parse_step b' (extend_ps ds ps) = parse_step b' (resume ds ps')"
proof -
  have rel: "parse_rel g h0 ps q lv" and inv: "lex_inv (lexer_of ps)" and st: "pi_state (fst ps) = q"
    using prog by (auto simp: in_progress_def parse_rel_def)
  show "parse_step b' (extend_ps ds ps) = Some (Parsing (extend_ps ds ps')) \<and>
      (\<exists>cs'. pi_p (fst ps') = Some cs' \<and> NUL \<notin> set cs')" if out: "out = Parsing ps'"
  proof (cases "q \<in> {1, 7}")
    case True
    then show ?thesis
      using parse_step_extend_open [of ps b' ds b] parse_step_opens [of b ps ps'] step out st p nul
      by (simp add: keeps_lexer_def)
  next
    case False
    then obtain v ps1 where v: "run_lexer b ps = Some (v, ps1)" "is_token v" "keeps_lexer ps1 ps'"
      using parse_step_reads [of b ps ps'] step out st by blast
    have lex: "lexer_loop (lexer_of ps) = Some (v, lexer_of ps1)"
      using v(1) p by (auto simp: run_lexer_eq)
    have "run_lexer b' (extend_ps ds ps) = map_option (map_prod id (extend_ps ds)) (run_lexer b ps)"
      using run_lexer_extend(2) [OF lex v(1) _ p nul v(2)] v by simp
    then have "parse_step b' (extend_ps ds ps) = map_option (extend_out ds) (parse_step b ps)"
      using parse_step_extend [of b' "extend_ps ds ps" ds b ps] in_progress_known [OF prog] False st
      by auto
    moreover obtain cs' where "pi_p (fst ps1) = Some cs'" "set cs' \<subseteq> set cs"
      using lexer_loop_remainder [OF lex v(2)] p by auto
    ultimately show ?thesis
      using step out v(3) nul by (auto simp: keeps_lexer_def)
  qed
  show "parse_step b' (extend_ps ds ps) = parse_step b' (resume ds ps')"
    if out: "out = Parsed e ps'" and e: "e \<in> {JSON_INCOMPLETE_DOCUMENT, JSON_WAITING_FOR_EOF}"
  proof (cases "q \<in> {1, 7}")
    case True
    then show ?thesis
      using parse_step_open [OF rel True, of b] step out e by (auto simp: goes_on_def)
  next
    case False
    obtain v ps1 s where lex: "lexer_loop (lexer_of ps) = Some (v, lexer_of ps1)"
      and ans: "answers g h0 q v s lv ps1 out" and run: "run_lexer b ps = Some (v, ps1)"
      using parse_step_reading [OF rel False inv p, of b] step by (metis option.inject)
    have rej: "out = Parsed (reject_error q v) ps1"
      using ans out e by (auto simp: answers_def goes_on_def split: option.splits)
    with out e have v: "v = LEX_MORE" "ps' = ps1"
      using asks_for_more by auto
    have same: "nodes (snd ps1) = nodes (snd ps)" "pi_cursor (fst ps1) = pi_cursor (fst ps)"
      "pi_state (fst ps1) = pi_state (fst ps)"
      using run run_lexer_eq [of ps b] p by auto
    have "run_lexer b' (extend_ps ds ps) = run_lexer b' (resume ds ps1)"
      using run_lexer_extend(1) [OF lex run _ p nul v(1)] v by simp
    then have "parse_step b' (extend_ps ds ps) = map_option (extend_out []) (parse_step b' (resume ds ps1))"
      using in_progress_known [OF prog] False st same
      by (intro parse_step_extend) (auto simp: option.map_id prod.map_id0)
    then show ?thesis
      by (simp add: v option.map_id)
  qed
qed

lemma parse_loop_fragment:
  assumes "in_progress g h0 ps q lv" and "pi_p (fst ps) = Some cs" and "NUL \<notin> set cs"
    and "parse_loop b ps = Some (e, ps')" and "e \<in> {JSON_INCOMPLETE_DOCUMENT, JSON_WAITING_FOR_EOF}"
    and "peek ds \<noteq> NUL"
  shows "parse_loop b' (extend_ps ds ps) = parse_loop b'' (resume ds ps')"
  using assms
proof (induction b ps arbitrary: q lv cs rule: parse_loop.induct)
  case (1 b ps)
  note prog = "1.prems"(1) and p = "1.prems"(2) and nul = "1.prems"(3)
  show ?case
  proof (cases "peek cs = NUL")
    case True
    then have "cs = []"
      using nul by (cases cs) auto
    moreover have "ps' = ((fst ps)\<lparr>pi_p := None\<rparr>, snd ps)"
      using "1.prems"(4) parse_loop_end [OF p True] by simp
    ultimately have ps': "resume ds ps' = extend_ps ds ps"
      using resume_suspended p by simp
    have "in_progress g h0 ((fst ps)\<lparr>pi_p := None\<rparr>, snd ps) q lv"
      using prog by (rule in_progress_suspend)
    then show ?thesis
      using parse_loop_buffer [OF in_progress_resume [of g h0 ps' q lv ds]] ps'
        \<open>ps' = ((fst ps)\<lparr>pi_p := None\<rparr>, snd ps)\<close> by simp
  next
    case False
    then have ext: "pi_p (fst (extend_ps ds ps)) = Some (cs @ ds)" "peek (cs @ ds) \<noteq> NUL"
      using p by (cases cs; simp)+
    obtain out where out: "parse_step b ps = Some out"
      using parse_step_progress [OF prog p, of b] by blast
    note frag = parse_step_fragment [OF prog p nul out]
    show ?thesis
    proof (cases out)
      case (Parsing ps1)
      obtain q1 lv1 where prog1: "in_progress g h0 ps1 q1 lv1"
        using parse_step_progress [OF prog p, of b] out Parsing by auto
      obtain cs1 where cs1: "pi_p (fst ps1) = Some cs1" "NUL \<notin> set cs1"
        using frag(1) [OF Parsing] by blast
      have "parse_loop b ps1 = Some (e, ps')"
        using "1.prems"(4) parse_loop_turn [OF p False] out Parsing by simp
      then have "parse_loop b' (extend_ps ds ps1) = parse_loop b'' (resume ds ps')"
        using "1.IH" [OF p False out Parsing prog1 cs1] "1.prems"(5,6) by simp
      then show ?thesis
        using parse_loop_turn [OF ext] frag(1) [OF Parsing, of b'] by simp
    next
      case (Parsed e1 ps1)
      then have e1: "e1 = e" "ps1 = ps'"
        using "1.prems"(4) parse_loop_turn [OF p False] out by simp_all
      obtain q1 lv1 where prog1: "in_progress g h0 ps' q1 lv1"
        using parse_step_progress [OF prog p, of b] out Parsed e1 "1.prems"(5) by auto
      have step: "parse_step b' (extend_ps ds ps) = parse_step b' (resume ds ps')"
        using frag(2) [OF Parsed] e1 "1.prems"(5) by simp
      have "parse_loop b' (extend_ps ds ps) = parse_loop b' (resume ds ps')"
        using parse_loop_turn [OF ext, of b'] parse_loop_turn [of "resume ds ps'" ds b'] "1.prems"(6) step
        by simp
      also have "\<dots> = parse_loop b'' (resume ds ps')"
        by (rule parse_loop_buffer [OF in_progress_resume [OF prog1]]) simp
      finally show ?thesis .
    qed
  qed
qed

text \<open>
  A caller that hands over one buffer after the other for as long as the parser asks for more,
  which is what \<open>json_parse_fragment\<close> is for.
\<close>

fun feed :: "string list \<Rightarrow> json_parsing_info \<Rightarrow> store \<Rightarrow> (json_error \<times> parse_st) option" where
  "feed [] info st = None"
| "feed [b] info st = json_parse_fragment b info st"
| "feed (b # bs) info st = do {
     (e, info, st) \<leftarrow> json_parse_fragment b info st;
     if e \<in> {JSON_INCOMPLETE_DOCUMENT, JSON_WAITING_FOR_EOF} then feed bs info st
     else Some (e, info, st)
   }"

lemma feed_concat:
  assumes "feed bs info st = Some (e, r)" and "e \<in> {JSON_INCOMPLETE_DOCUMENT, JSON_WAITING_FOR_EOF}"
    and "in_progress g h0 (info\<lparr>pi_p := Some []\<rparr>, st) q lv" and "\<forall>b \<in> set bs. b \<noteq> [] \<and> NUL \<notin> set b"
  shows "json_parse_fragment (concat bs) info st = Some (e, r)"
  using assms
proof (induction bs info st arbitrary: q lv rule: feed.induct)
  case (3 b b' bs info st)
  let ?ps = "(info\<lparr>pi_p := Some b\<rparr>, st)"
  let ?rest = "concat (b' # bs)"
  have prog: "in_progress g h0 ?ps q lv"
    using in_progress_suspend [OF "3.prems"(3), of "Some b"] by simp
  obtain e1 info1 st1 where one: "json_parse_fragment b info st = Some (e1, info1, st1)"
    using "3.prems"(1) by (auto simp: bind_eq_Some_conv)
  then have more: "e1 \<in> {JSON_INCOMPLETE_DOCUMENT, JSON_WAITING_FOR_EOF}"
    and rest: "feed (b' # bs) info1 st1 = Some (e, r)"
    using "3.prems"(1,2) by (auto split: if_splits)
  have loop: "parse_loop b ?ps = Some (e1, info1, st1)"
    using one by (simp add: json_parse_fragment_def)
  obtain q1 lv1 where prog1: "in_progress g h0 (info1, st1) q1 lv1"
    using parse_loop_progress [OF prog, of b] loop more by auto
  have IH: "json_parse_fragment ?rest info1 st1 = Some (e, r)"
    using "3.IH" [OF one refl refl more rest "3.prems"(2)
      in_progress_suspend [OF prog1, of "Some []", simplified]] "3.prems"(4) by simp
  have "peek ?rest \<noteq> NUL"
    using "3.prems"(4) by (cases b') auto
  then have "parse_loop (b @ ?rest) (extend_ps ?rest ?ps) = parse_loop ?rest (resume ?rest (info1, st1))"
    using parse_loop_fragment [OF prog _ _ loop more] "3.prems"(4) by simp
  then show ?case
    using IH by (simp add: json_parse_fragment_def extend_ps_def resume_def)
qed simp_all

end
