(* ===== verification/JsonSaxy.thy ===== *)
theory JsonSaxy
  imports JsonLexer JsonTree
begin

text \<open>
  \<open>json_saxy_parse\<close> of \<open>net_libs/libbase/src/json.c\<close>: the event parser that is given one
  character at a time.  One definition per labelled block \<open>state0\<close> to \<open>state63\<close>.  The
  callbacks are not part of the program: a record says which of the function pointers are set,
  and the calls made are recorded in order, with the text they are passed.  Calling through a
  null pointer leaves defined behaviour.
\<close>

section \<open>Data\<close>

definition JSON_MAX_STRING_LENGTH :: nat where
  "JSON_MAX_STRING_LENGTH = 0x10000"

record json_saxy_functions =
  open_object :: bool
  close_object :: bool
  open_array :: bool
  close_array :: bool
  new_string :: bool
  new_number :: bool
  new_true :: bool
  new_false :: bool
  new_null :: bool
  label_value_separator :: bool
  sibling_separator :: bool

datatype saxy_event = OpenObject | CloseObject | OpenArray | CloseArray | NewString string
  | NewNumber string | NewTrue | NewFalse | NewNull | LabelValueSeparator | SiblingSeparator

text \<open>The status structure, the calls made so far, and the allocator.\<close>

record json_saxy_parser_status =
  sx_state :: nat
  sx_limit :: bool
  sx_temp :: rcs_ptr
  sx_events :: "saxy_event list"
  sx_mem :: allocator

type_synonym saxy_result = "(json_error \<times> json_saxy_parser_status) option"
type_synonym saxy_cont = "json_saxy_parser_status \<Rightarrow> saxy_result"

section \<open>Recurring fragments\<close>

text \<open>\<open>jsps->state = n; break;\<close> and the \<open>return JSON_OK\<close> behind the switch.\<close>

definition saxy_goto :: "nat \<Rightarrow> saxy_cont" where
  "saxy_goto n s = Some (JSON_OK, s\<lparr>sx_state := n\<rparr>)"

definition saxy_stay :: saxy_cont where
  "saxy_stay s = Some (JSON_OK, s)"

definition saxy_illegal :: saxy_cont where
  "saxy_illegal s = Some (JSON_ILLEGAL_CHARACTER, s)"

definition call :: "saxy_event \<Rightarrow> json_saxy_parser_status \<Rightarrow> json_saxy_parser_status" where
  "call e s = s\<lparr>sx_events := sx_events s @ [e]\<rparr>"

text \<open>\<open>if (jsf->f != NULL) jsf->f ();\<close>\<close>

definition notify :: "bool \<Rightarrow> saxy_event \<Rightarrow> saxy_cont \<Rightarrow> saxy_cont" where
  "notify f e k s = (if f then k (call e s) else k s)"

text \<open>\<open>if (jsf->f != NULL) jsf->g ();\<close>, where the number states test the wrong pointer.\<close>

definition notify_other :: "bool \<Rightarrow> bool \<Rightarrow> saxy_event \<Rightarrow> saxy_cont \<Rightarrow> saxy_cont" where
  "notify_other f g e k s = (if f then if g then k (call e s) else None else k s)"

text \<open>\<open>if (rcs_catc (temp, c) != RS_OK) return JSON_MEMORY;\<close>\<close>

definition saxy_catc :: "char \<Rightarrow> saxy_cont \<Rightarrow> saxy_cont" where
  "saxy_catc c k s = do {
     (code, t, m) \<leftarrow> rcs_catc (sx_temp s) c (sx_mem s);
     let s = s\<lparr>sx_temp := t, sx_mem := m\<rparr>;
     if code \<noteq> RS_OK then Some (JSON_MEMORY, s) else k s
   }"

text \<open>\<open>rcs_catc (temp, c);\<close> with the result ignored (states 22 and 23).\<close>

definition saxy_catc_unchecked :: "char \<Rightarrow> saxy_cont \<Rightarrow> saxy_cont" where
  "saxy_catc_unchecked c k s = do {
     (code, t, m) \<leftarrow> rcs_catc (sx_temp s) c (sx_mem s);
     k (s\<lparr>sx_temp := t, sx_mem := m\<rparr>)
   }"

text \<open>\<open>if ((jsps->temp = rcs_create (5)) == NULL) return JSON_MEMORY;\<close>\<close>

definition saxy_create :: "saxy_cont \<Rightarrow> saxy_cont" where
  "saxy_create k s =
     (let (t, m) = rcs_create 5 (sx_mem s); s = s\<lparr>sx_temp := t, sx_mem := m\<rparr> in
      if t = RcsNull then Some (JSON_MEMORY, s) else k s)"

text \<open>
  \<open>if (!jsps->string_length_limit_reached) { if (rcs_length (temp) < n) append; else limit = 1 }\<close>
\<close>

definition saxy_limited :: "nat \<Rightarrow> (saxy_cont \<Rightarrow> saxy_cont) \<Rightarrow> saxy_cont \<Rightarrow> saxy_cont" where
  "saxy_limited n app k s =
     (if \<not> sx_limit s then do {
        len \<leftarrow> rcs_length (sx_temp s);
        if len < n then app k s else k (s\<lparr>sx_limit := True\<rparr>)
      }
      else k s)"

text \<open>The text behind \<open>temp\<close>, read through the pointer.\<close>

definition saxy_text :: "json_saxy_parser_status \<Rightarrow> string option" where
  "saxy_text s = (case sx_temp s of Rcs r \<Rightarrow> Some (c_string (rcs_text r)) | _ \<Rightarrow> None)"

text \<open>\<open>rcs_free (&jsps->temp);\<close>\<close>

definition saxy_free :: "saxy_cont \<Rightarrow> saxy_cont" where
  "saxy_free k s = do { t \<leftarrow> rcs_free (sx_temp s); k (s\<lparr>sx_temp := t\<rparr>) }"

text \<open>
  The end of a number: \<open>if (temp == NULL) return JSON_MEMORY; if (jsf->new_number != NULL)
  jsf->new_number (temp->text); rcs_free (&temp);\<close>
\<close>

definition saxy_number :: "json_saxy_functions \<Rightarrow> saxy_cont \<Rightarrow> saxy_cont" where
  "saxy_number jsf k s =
     (if sx_temp s = RcsNull then Some (JSON_MEMORY, s)
      else if new_number jsf then do {
        x \<leftarrow> saxy_text s;
        saxy_free k (call (NewNumber x) s)
      }
      else saxy_free k s)"

text \<open>
  The variant that looks at \<open>temp\<close> only where there is a callback.  State 21 releases the
  struct with \<open>free\<close> instead of \<open>rcs_free\<close>, which leaks the text; the difference is not
  visible in this model.
\<close>

definition saxy_number_lazy :: "json_saxy_functions \<Rightarrow> saxy_cont \<Rightarrow> saxy_cont" where
  "saxy_number_lazy jsf k s =
     (if new_number jsf
      then if sx_temp s = RcsNull then Some (JSON_MEMORY, s)
           else do { x \<leftarrow> saxy_text s; saxy_free k (call (NewNumber x) s) }
      else saxy_free k s)"

section \<open>The general state\<close>

definition saxy_state0 :: "json_saxy_functions \<Rightarrow> char \<Rightarrow> saxy_cont" where
  "saxy_state0 jsf c s =
     (if is_ws c then saxy_stay s
      else if c = QUOTE then saxy_goto 1 (s\<lparr>sx_limit := False\<rparr>)
      else if c = CHR ''{'' then notify (open_object jsf) OpenObject (saxy_goto 25) s
      else if c = CHR ''}'' then notify (close_object jsf) CloseObject (saxy_goto 26) s
      else if c = CHR ''['' then notify (open_array jsf) OpenArray saxy_stay s
      else if c = CHR '']'' then notify (close_array jsf) CloseArray (saxy_goto 26) s
      else if c = CHR ''t'' then saxy_goto 7 s
      else if c = CHR ''f'' then saxy_goto 10 s
      else if c = CHR ''n'' then saxy_goto 14 s
      else if c = CHR '':'' then notify (label_value_separator jsf) LabelValueSeparator saxy_stay s
      else if c = CHR '','' then notify (sibling_separator jsf) SiblingSeparator (saxy_goto 27) s
      else if c = CHR ''0'' then
        saxy_create (saxy_catc (CHR ''0'') saxy_stay) (s\<lparr>sx_limit := False, sx_state := 17\<rparr>)
      else if is_digit19 c then
        saxy_create (saxy_catc c saxy_stay) (s\<lparr>sx_limit := False, sx_state := 24\<rparr>)
      else if c = CHR ''-'' then
        saxy_create (saxy_catc (CHR ''-'') saxy_stay)
          (s\<lparr>sx_limit := False, sx_state := 23, sx_temp := RcsNull\<rparr>)
      else if c = CHR ''/'' then saxy_goto 60 s
      else saxy_illegal s)"

section \<open>Strings\<close>

definition saxy_state1 :: "json_saxy_functions \<Rightarrow> char \<Rightarrow> saxy_cont" where
  "saxy_state1 jsf c s =
     (if c = BACKSLASH
      then saxy_limited (JSON_MAX_STRING_LENGTH - 1) (saxy_catc BACKSLASH) (saxy_goto 2) s
      else if c = QUOTE then
        (if sx_temp s \<noteq> RcsNull then
           let s = s\<lparr>sx_state := 0\<rparr> in
           if new_string jsf then do {
             x \<leftarrow> saxy_text s;
             saxy_free saxy_stay (call (NewString x) s)
           }
           else saxy_free saxy_stay s
         else Some (JSON_UNKNOWN_PROBLEM, s))
      else saxy_limited JSON_MAX_STRING_LENGTH (saxy_catc c) saxy_stay s)"

definition saxy_state2 :: "char \<Rightarrow> saxy_cont" where
  "saxy_state2 c s =
     (if is_escape c then saxy_limited JSON_MAX_STRING_LENGTH (saxy_catc c) saxy_stay s
      else if c = CHR ''u''
      then saxy_limited (JSON_MAX_STRING_LENGTH - 4) (saxy_catc (CHR ''u'')) (saxy_goto 3) s
      else saxy_illegal s)"

definition saxy_state3 :: "char \<Rightarrow> saxy_cont" where
  "saxy_state3 c s =
     (if is_hex c
      then saxy_limited (JSON_MAX_STRING_LENGTH - 3) (saxy_catc (CHR ''u'')) (saxy_goto 4) s
      else saxy_illegal s)"

definition saxy_state4 :: "char \<Rightarrow> saxy_cont" where
  "saxy_state4 c s =
     (if is_hex c then saxy_limited (JSON_MAX_STRING_LENGTH - 2) (saxy_catc c) (saxy_goto 5) s
      else saxy_illegal s)"

definition saxy_state5 :: "char \<Rightarrow> saxy_cont" where
  "saxy_state5 c s =
     (if is_hex c then saxy_limited (JSON_MAX_STRING_LENGTH - 1) (saxy_catc c) (saxy_goto 6) s
      else saxy_illegal s)"

definition saxy_state6 :: "char \<Rightarrow> saxy_cont" where
  "saxy_state6 c s =
     (if is_hex c then saxy_limited JSON_MAX_STRING_LENGTH (saxy_catc c) (saxy_goto 1) s
      else saxy_illegal s)"

section \<open>Literals\<close>

text \<open>States 7 to 16: one expected character each.\<close>

definition saxy_expect :: "char \<Rightarrow> saxy_cont \<Rightarrow> char \<Rightarrow> saxy_cont" where
  "saxy_expect e k c s = (if c \<noteq> e then saxy_illegal s else k s)"

definition saxy_literal :: "json_saxy_functions \<Rightarrow> nat \<Rightarrow> char \<Rightarrow> saxy_cont" where
  "saxy_literal jsf q c s =
     (if q = 7 then saxy_expect (CHR ''r'') (saxy_goto 8) c s
      else if q = 8 then saxy_expect (CHR ''u'') (saxy_goto 9) c s
      else if q = 9 then
        saxy_expect (CHR ''e'') (\<lambda>s. notify (new_true jsf) NewTrue saxy_stay (s\<lparr>sx_state := 0\<rparr>)) c s
      else if q = 10 then saxy_expect (CHR ''a'') (saxy_goto 11) c s
      else if q = 11 then saxy_expect (CHR ''l'') (saxy_goto 12) c s
      else if q = 12 then saxy_expect (CHR ''s'') (saxy_goto 13) c s
      else if q = 13 then
        saxy_expect (CHR ''e'') (\<lambda>s. notify (new_false jsf) NewFalse saxy_stay (s\<lparr>sx_state := 0\<rparr>)) c s
      else if q = 14 then saxy_expect (CHR ''u'') (saxy_goto 15) c s
      else if q = 15 then saxy_expect (CHR ''l'') (saxy_goto 16) c s
      else
        saxy_expect (CHR ''l'') (\<lambda>s. notify (new_null jsf) NewNull saxy_stay (s\<lparr>sx_state := 0\<rparr>)) c s)"

section \<open>Numbers\<close>

definition saxy_state17 :: "json_saxy_functions \<Rightarrow> char \<Rightarrow> saxy_cont" where
  "saxy_state17 jsf c s =
     (if c = CHR ''.'' then saxy_create (saxy_catc (CHR ''.'') (saxy_goto 18)) s
      else if is_ws c then saxy_number jsf (saxy_goto 0) s
      else if c = CHR ''}'' then
        saxy_number jsf (notify_other (open_object jsf) (close_object jsf) CloseObject (saxy_goto 26)) s
      else if c = CHR '']'' then
        saxy_number jsf (notify_other (open_object jsf) (close_array jsf) CloseArray (saxy_goto 26)) s
      else if c = CHR '','' then
        saxy_number jsf (notify_other (open_object jsf) (label_value_separator jsf)
          LabelValueSeparator (saxy_goto 27)) s
      else saxy_illegal s)"

definition saxy_state18 :: "char \<Rightarrow> saxy_cont" where
  "saxy_state18 c s =
     (if is_digit c then saxy_limited (JSON_MAX_STRING_LENGTH div 2) (saxy_catc c) (saxy_goto 19) s
      else saxy_illegal s)"

definition saxy_state19 :: "json_saxy_functions \<Rightarrow> char \<Rightarrow> saxy_cont" where
  "saxy_state19 jsf c s =
     (if is_digit c then saxy_limited (JSON_MAX_STRING_LENGTH div 2) (saxy_catc c) saxy_stay s
      else if is_exp c then saxy_catc c (saxy_goto 20) s
      else if is_ws c then saxy_number jsf (saxy_goto 0) s
      else if c = CHR ''}'' then
        saxy_number jsf (notify_other (open_object jsf) (close_object jsf) CloseObject (saxy_goto 26)) s
      else if c = CHR '']'' then
        saxy_number_lazy jsf (notify_other (open_object jsf) (close_array jsf) CloseArray (saxy_goto 26)) s
      else if c = CHR '','' then
        saxy_number jsf (notify (label_value_separator jsf) LabelValueSeparator (saxy_goto 27)) s
      else saxy_illegal s)"

definition saxy_state20 :: "char \<Rightarrow> saxy_cont" where
  "saxy_state20 c s =
     (if c = CHR ''+'' \<or> c = CHR ''-'' then saxy_catc c (saxy_goto 22) (s\<lparr>sx_limit := False\<rparr>)
      else if is_digit c then saxy_limited JSON_MAX_STRING_LENGTH (saxy_catc c) (saxy_goto 21) s
      else saxy_illegal s)"

definition saxy_state21 :: "json_saxy_functions \<Rightarrow> char \<Rightarrow> saxy_cont" where
  "saxy_state21 jsf c s =
     (if is_digit c then saxy_limited JSON_MAX_STRING_LENGTH (saxy_catc c) saxy_stay s
      else if is_ws c then saxy_number jsf (saxy_goto 0) s
      else if c = CHR ''}'' then
        saxy_number jsf (notify_other (open_object jsf) (close_object jsf) CloseObject (saxy_goto 26)) s
      else if c = CHR '']'' then
        saxy_number_lazy jsf (notify_other (open_object jsf) (close_array jsf) CloseArray (saxy_goto 26)) s
      else if c = CHR '','' then
        saxy_number_lazy jsf (notify (label_value_separator jsf) LabelValueSeparator (saxy_goto 27)) s
      else saxy_illegal s)"

definition saxy_state22 :: "char \<Rightarrow> saxy_cont" where
  "saxy_state22 c s =
     (if is_digit c then saxy_limited JSON_MAX_STRING_LENGTH (saxy_catc_unchecked c) (saxy_goto 21) s
      else saxy_illegal s)"

text \<open>
  State 23 starts a new string for the first digit, and sets the limit flag after it has been
  appended (the \<open>else\<close> belongs to the inner \<open>if\<close>).
\<close>

definition saxy_state23 :: "char \<Rightarrow> saxy_cont" where
  "saxy_state23 c s =
     (if c = CHR ''0'' then saxy_catc_unchecked c (saxy_goto 17) s
      else if is_digit19 c then
        (if \<not> sx_limit s then do {
           len \<leftarrow> rcs_length (sx_temp s);
           if len < JSON_MAX_STRING_LENGTH div 2
           then saxy_create (saxy_catc c (\<lambda>s. saxy_goto 24 (s\<lparr>sx_limit := True\<rparr>))) s
           else saxy_goto 24 s
         }
         else saxy_goto 24 s)
      else saxy_illegal s)"

text \<open>State 24 starts a new string for every digit, for the point and for the exponent.\<close>

definition saxy_state24 :: "json_saxy_functions \<Rightarrow> char \<Rightarrow> saxy_cont" where
  "saxy_state24 jsf c s =
     (if is_digit c
      then saxy_limited (JSON_MAX_STRING_LENGTH div 2) (\<lambda>k. saxy_create (saxy_catc c k)) saxy_stay s
      else if c = CHR ''.'' then saxy_create (saxy_catc (CHR ''.'') (saxy_goto 18)) s
      else if is_exp c
      then saxy_create (saxy_catc c (\<lambda>s. saxy_goto 20 (s\<lparr>sx_limit := False\<rparr>))) s
      else if is_ws c then saxy_number jsf (saxy_goto 0) s
      else if c = CHR ''}'' then
        saxy_number jsf (notify_other (open_object jsf) (close_object jsf) CloseObject (saxy_goto 26)) s
      else if c = CHR '']'' then
        saxy_number jsf (notify_other (open_object jsf) (close_array jsf) CloseArray (saxy_goto 26)) s
      else if c = CHR '','' then
        saxy_number jsf (notify (label_value_separator jsf) LabelValueSeparator (saxy_goto 27)) s
      else saxy_illegal s)"

section \<open>Structure\<close>

definition saxy_state25 :: "json_saxy_functions \<Rightarrow> char \<Rightarrow> saxy_cont" where
  "saxy_state25 jsf c s =
     (if is_ws c then saxy_stay s
      else if c = QUOTE then saxy_goto 1 (s\<lparr>sx_temp := RcsNull\<rparr>)
      else if c = CHR ''}'' then notify (close_object jsf) CloseObject (saxy_goto 26) s
      else saxy_illegal s)"

definition saxy_state26 :: "json_saxy_functions \<Rightarrow> char \<Rightarrow> saxy_cont" where
  "saxy_state26 jsf c s =
     (if is_ws c then saxy_stay s
      else if c = CHR ''}'' then notify (close_object jsf) CloseObject saxy_stay s
      else if c = CHR '']'' then notify (close_array jsf) CloseArray saxy_stay s
      else if c = CHR '','' then notify (sibling_separator jsf) SiblingSeparator (saxy_goto 27) s
      else saxy_illegal s)"

text \<open>After \<open>'['\<close> the state stays 27, where a closing bracket is illegal.\<close>

definition saxy_state27 :: "json_saxy_functions \<Rightarrow> char \<Rightarrow> saxy_cont" where
  "saxy_state27 jsf c s =
     (if is_ws c then saxy_stay s
      else if c = QUOTE then Some (JSON_OK, s\<lparr>sx_state := 1, sx_temp := RcsNull\<rparr>)
      else if c = CHR ''{'' then notify (open_object jsf) OpenObject (saxy_goto 25) s
      else if c = CHR ''['' then notify (open_array jsf) OpenArray saxy_stay s
      else if c = CHR ''t'' then saxy_goto 7 s
      else if c = CHR ''f'' then saxy_goto 10 s
      else if c = CHR ''n'' then saxy_goto 14 s
      else if c = CHR ''0'' then saxy_create (saxy_catc (CHR ''0'') saxy_stay) (s\<lparr>sx_state := 17\<rparr>)
      else if is_digit19 c then saxy_create (saxy_catc c saxy_stay) (s\<lparr>sx_state := 24\<rparr>)
      else if c = CHR ''-'' then saxy_create (saxy_catc (CHR ''-'') saxy_stay) (s\<lparr>sx_state := 23\<rparr>)
      else saxy_illegal s)"

definition saxy_comment :: "nat \<Rightarrow> char \<Rightarrow> saxy_cont" where
  "saxy_comment q c s =
     (if q = 60 then
        (if c = CHR ''/'' then saxy_goto 61 s
         else if c = CHR ''*'' then saxy_goto 62 s
         else saxy_illegal s)
      else if q = 61 then (if c = CHR 0x0A \<or> c = CHR 0x0D then saxy_goto 0 s else saxy_stay s)
      else if q = 62 then (if c = CHR ''*'' then saxy_goto 63 s else saxy_stay s)
      else (if c = CHR ''/'' then saxy_goto 0 s else saxy_goto 62 s))"

section \<open>The parser\<close>

definition json_saxy_parse :: "json_saxy_functions \<Rightarrow> char \<Rightarrow> json_saxy_parser_status \<Rightarrow> saxy_result" where
  "json_saxy_parse jsf c s =
     (let q = sx_state s in
      if q = 0 then saxy_state0 jsf c s
      else if q = 1 then saxy_state1 jsf c s
      else if q = 2 then saxy_state2 c s
      else if q = 3 then saxy_state3 c s
      else if q = 4 then saxy_state4 c s
      else if q = 5 then saxy_state5 c s
      else if q = 6 then saxy_state6 c s
      else if 7 \<le> q \<and> q \<le> 16 then saxy_literal jsf q c s
      else if q = 17 then saxy_state17 jsf c s
      else if q = 18 then saxy_state18 c s
      else if q = 19 then saxy_state19 jsf c s
      else if q = 20 then saxy_state20 c s
      else if q = 21 then saxy_state21 jsf c s
      else if q = 22 then saxy_state22 c s
      else if q = 23 then saxy_state23 c s
      else if q = 24 then saxy_state24 jsf c s
      else if q = 25 then saxy_state25 jsf c s
      else if q = 26 then saxy_state26 jsf c s
      else if q = 27 then saxy_state27 jsf c s
      else if 60 \<le> q \<and> q \<le> 63 then saxy_comment q c s
      else Some (JSON_UNKNOWN_PROBLEM, s))"

text \<open>A caller that stops at the first error.\<close>

fun saxy_run :: "json_saxy_functions \<Rightarrow> string \<Rightarrow> saxy_cont" where
  "saxy_run jsf [] s = Some (JSON_OK, s)"
| "saxy_run jsf (c # cs) s = do {
     (e, s) \<leftarrow> json_saxy_parse jsf c s;
     if e \<noteq> JSON_OK then Some (e, s) else saxy_run jsf cs s
   }"

definition saxy_start :: "allocator \<Rightarrow> json_saxy_parser_status" where
  "saxy_start m = \<lparr>sx_state = 0, sx_limit = False, sx_temp = RcsNull, sx_events = [], sx_mem = m\<rparr>"

section \<open>Texts without strings\<close>

text \<open>
  A run over a text without a quote, with an allocator that grants every request and the
  callbacks the number states call present: the parser stays inside defined behaviour, and the
  texts it reports are made of the characters of numbers.
\<close>

definition number_char :: "char \<Rightarrow> bool" where
  [char_simps]: "number_char c \<longleftrightarrow> is_digit c \<or> c \<in> {CHR ''-'', CHR ''+'', CHR ''.'', CHR ''e'', CHR ''E''}"

lemma number_chars [simp]:
  "is_digit c \<Longrightarrow> number_char c" "is_exp c \<Longrightarrow> number_char c" "is_digit19 c \<Longrightarrow> number_char c"
  "number_char (CHR ''0'')" "number_char (CHR ''-'')" "number_char (CHR ''+'')" "number_char (CHR ''.'')"
  by (auto simp: char_simps)

definition number_text :: "string \<Rightarrow> bool" where
  "number_text x \<longleftrightarrow> x \<noteq> [] \<and> list_all number_char x"

fun event_ok :: "saxy_event \<Rightarrow> bool" where
  "event_ok (NewNumber x) = number_text x"
| "event_ok (NewString x) = False"
| "event_ok _ = True"

definition number_states :: "nat set" where
  "number_states = {17..24}"

definition plain_states :: "nat set" where
  "plain_states = {0} \<union> {7..16} \<union> {25..27} \<union> {60..63}"

definition saxy_inv :: "json_saxy_parser_status \<Rightarrow> bool" where
  "saxy_inv s \<longleftrightarrow> generous (sx_mem s) \<and> list_all event_ok (sx_events s) \<and>
     (sx_state s \<in> plain_states \<and> sx_temp s = RcsNull \<or>
      sx_state s \<in> number_states \<and> (\<exists>x. rcs_holds (sx_temp s) x \<and> number_text x))"

definition saxy_ok :: "saxy_result \<Rightarrow> bool" where
  "saxy_ok r \<longleftrightarrow> (\<exists>e s. r = Some (e, s) \<and> saxy_inv s \<and> e \<in> {JSON_OK, JSON_ILLEGAL_CHARACTER})"

definition complete_functions :: "json_saxy_functions \<Rightarrow> bool" where
  "complete_functions jsf \<longleftrightarrow>
     (open_object jsf \<longrightarrow> close_object jsf \<and> close_array jsf \<and> label_value_separator jsf)"

text \<open>A number is being read; \<open>x\<close> is what the string holds so far.\<close>

definition reading :: "string \<Rightarrow> json_saxy_parser_status \<Rightarrow> bool" where
  "reading x s \<longleftrightarrow> generous (sx_mem s) \<and> list_all event_ok (sx_events s) \<and>
     rcs_holds (sx_temp s) x \<and> list_all number_char x \<and> sx_state s \<in> number_states"

lemma reading_limit [simp]: "reading x (s\<lparr>sx_limit := b\<rparr>) = reading x s"
  by (simp add: reading_def)

lemma number_char_not_NUL: "number_char c \<Longrightarrow> c \<noteq> NUL"
  by (auto simp: char_simps)

lemma saxy_inv_cases:
  assumes "saxy_inv s"
  obtains (plain) "sx_state s \<in> plain_states" "sx_temp s = RcsNull" "generous (sx_mem s)"
      "list_all event_ok (sx_events s)"
    | (number) x where "sx_state s \<in> number_states" "reading x s" "x \<noteq> []"
  using assms by (auto simp: saxy_inv_def reading_def number_text_def)

text \<open>The fragments, one rule each.\<close>

lemma saxy_ok_if: "(b \<Longrightarrow> saxy_ok r) \<Longrightarrow> (\<not> b \<Longrightarrow> saxy_ok r') \<Longrightarrow> saxy_ok (if b then r else r')"
  by simp

lemma saxy_ok_plain:
  assumes "generous (sx_mem s)" and "list_all event_ok (sx_events s)" and "sx_temp s = RcsNull"
  shows "n \<in> plain_states \<Longrightarrow> saxy_ok (saxy_goto n s)"
    and "sx_state s \<in> plain_states \<Longrightarrow> saxy_ok (saxy_stay s)"
    and "sx_state s \<in> plain_states \<Longrightarrow> saxy_ok (saxy_illegal s)"
  using assms by (auto simp: saxy_ok_def saxy_goto_def saxy_stay_def saxy_illegal_def saxy_inv_def)

lemma saxy_ok_reading:
  assumes "reading x s" and "x \<noteq> []"
  shows "n \<in> number_states \<Longrightarrow> saxy_ok (saxy_goto n s)" and "saxy_ok (saxy_stay s)"
    and "saxy_ok (saxy_illegal s)"
  using assms
  by (auto simp: saxy_ok_def saxy_goto_def saxy_stay_def saxy_illegal_def saxy_inv_def reading_def
      number_text_def)

lemma saxy_ok_notify:
  assumes "saxy_ok (k s)" and "saxy_ok (k (call e s))"
  shows "saxy_ok (notify f e k s)" and "(f \<longrightarrow> g) \<Longrightarrow> saxy_ok (notify_other f g e k s)"
  using assms by (simp_all add: notify_def notify_other_def)

lemma saxy_catc_ok:
  assumes "rcs_holds (sx_temp s) x" and "generous (sx_mem s)" and "c \<noteq> NUL"
  obtains t m where "rcs_holds t (x @ [c])" "generous m"
    "\<And>k. saxy_catc c k s = k (s\<lparr>sx_temp := t, sx_mem := m\<rparr>)"
    "\<And>k. saxy_catc_unchecked c k s = k (s\<lparr>sx_temp := t, sx_mem := m\<rparr>)"
  using assms(1)
proof (cases rule: rcs_catc_spec [where c = c and m = "sx_mem s"])
  case (ok p m)
  then have "generous m"
    using assms(2) generous_cong by blast
  with ok that [of p m] assms(3) show ?thesis
    by (auto simp: saxy_catc_def saxy_catc_unchecked_def c_string_id)
qed (use assms(2) in simp)

lemma saxy_ok_catc:
  assumes "reading x s" and "number_char c" and "\<And>s'. reading (x @ [c]) s' \<Longrightarrow> saxy_ok (k s')"
  shows "saxy_ok (saxy_catc c k s)" and "saxy_ok (saxy_catc_unchecked c k s)"
proof -
  have h: "rcs_holds (sx_temp s) x" "generous (sx_mem s)" "c \<noteq> NUL"
    using assms(1) number_char_not_NUL [OF assms(2)] by (auto simp: reading_def)
  obtain t m where t: "rcs_holds t (x @ [c])" "generous m"
    "\<And>k. saxy_catc c k s = k (s\<lparr>sx_temp := t, sx_mem := m\<rparr>)"
    "\<And>k. saxy_catc_unchecked c k s = k (s\<lparr>sx_temp := t, sx_mem := m\<rparr>)"
    by (rule saxy_catc_ok [OF h]) (rule that)
  have "reading (x @ [c]) (s\<lparr>sx_temp := t, sx_mem := m\<rparr>)"
    using assms(1,2) t(1,2) by (simp add: reading_def)
  then show "saxy_ok (saxy_catc c k s)" "saxy_ok (saxy_catc_unchecked c k s)"
    using assms(3) t(3,4) by simp_all
qed

lemma saxy_ok_create:
  assumes "generous (sx_mem s)" and "list_all event_ok (sx_events s)" and "sx_state s \<in> number_states"
    and "\<And>s'. reading [] s' \<Longrightarrow> saxy_ok (k s')"
  shows "saxy_ok (saxy_create k s)"
proof (cases rule: rcs_create_spec [of 5 "sx_mem s"])
  case (ok p m)
  then have "reading [] (s\<lparr>sx_temp := p, sx_mem := m\<rparr>)"
    using assms generous_cong [of m "sx_mem s"] by (simp add: reading_def)
  moreover have "p \<noteq> RcsNull"
    using ok by auto
  ultimately show ?thesis
    using ok assms(4) by (simp add: saxy_create_def)
qed (use assms(1) in simp)

lemma saxy_ok_create_reading:
  "reading x s \<Longrightarrow> (\<And>s'. reading [] s' \<Longrightarrow> saxy_ok (k s')) \<Longrightarrow> saxy_ok (saxy_create k s)"
  by (rule saxy_ok_create) (auto simp: reading_def)

lemma saxy_ok_limited:
  assumes "reading x s" and "saxy_ok (app k s)" and "saxy_ok (k s)"
    and "saxy_ok (k (s\<lparr>sx_limit := True\<rparr>))"
  shows "saxy_ok (saxy_limited n app k s)"
  using assms rcs_length_spec [of "sx_temp s" x] by (simp add: saxy_limited_def reading_def)

text \<open>The number is reported and the string freed.\<close>

lemma saxy_free_ok:
  assumes "rcs_holds (sx_temp s) x" shows "saxy_free k s = k (s\<lparr>sx_temp := RcsNull\<rparr>)"
  using assms by (cases "sx_temp s") (auto simp: saxy_free_def rcs_free_def)

lemma saxy_number_eq:
  assumes "rcs_holds (sx_temp s) x"
  shows "saxy_number jsf k s =
      k ((if new_number jsf then call (NewNumber x) s else s)\<lparr>sx_temp := RcsNull\<rparr>)"
    and "saxy_number_lazy jsf k s =
      k ((if new_number jsf then call (NewNumber x) s else s)\<lparr>sx_temp := RcsNull\<rparr>)"
proof -
  have held: "rcs_holds (sx_temp (call e s)) x" for e
    using assms by (simp add: call_def)
  have "sx_temp s \<noteq> RcsNull" "saxy_text s = Some x"
    using assms by (auto simp: saxy_text_def elim!: rcs_holdsE)
  then show "saxy_number jsf k s =
      k ((if new_number jsf then call (NewNumber x) s else s)\<lparr>sx_temp := RcsNull\<rparr>)"
    "saxy_number_lazy jsf k s =
      k ((if new_number jsf then call (NewNumber x) s else s)\<lparr>sx_temp := RcsNull\<rparr>)"
    using assms
    by (simp_all add: saxy_number_def saxy_number_lazy_def saxy_free_ok [OF held] saxy_free_ok)
qed

lemma saxy_ok_end:
  assumes "reading x s" and "x \<noteq> []"
    and "\<And>s'. generous (sx_mem s') \<Longrightarrow> list_all event_ok (sx_events s') \<Longrightarrow> sx_temp s' = RcsNull \<Longrightarrow>
      saxy_ok (k s')"
  shows "saxy_ok (saxy_number jsf k s)" and "saxy_ok (saxy_number_lazy jsf k s)"
proof -
  have "rcs_holds (sx_temp s) x"
    using assms(1) by (simp add: reading_def)
  note eq = saxy_number_eq [OF this, of jsf k]
  have "saxy_ok (k ((if new_number jsf then call (NewNumber x) s else s)\<lparr>sx_temp := RcsNull\<rparr>))"
    by (rule assms(3)) (use assms(1,2) in \<open>auto simp: call_def reading_def number_text_def\<close>)
  then show "saxy_ok (saxy_number jsf k s)" "saxy_ok (saxy_number_lazy jsf k s)"
    by (simp_all add: eq)
qed

lemma call_simps [simp]:
  "sx_state (call e s) = sx_state s" "sx_limit (call e s) = sx_limit s" "sx_temp (call e s) = sx_temp s"
  "sx_mem (call e s) = sx_mem s" "sx_events (call e s) = sx_events s @ [e]"
  by (simp_all add: call_def)

lemmas state_sets = number_states_def plain_states_def

lemma saxy_number_closes:
  assumes "reading x s" and "x \<noteq> []" and "complete_functions jsf" and "event_ok e"
    and "n \<in> plain_states" and "g = close_object jsf \<or> g = close_array jsf \<or> g = label_value_separator jsf"
  shows "saxy_ok (saxy_number jsf (notify_other (open_object jsf) g e (saxy_goto n)) s)"
    and "saxy_ok (saxy_number_lazy jsf (notify_other (open_object jsf) g e (saxy_goto n)) s)"
    and "saxy_ok (saxy_number jsf (notify f e (saxy_goto n)) s)"
    and "saxy_ok (saxy_number_lazy jsf (notify f e (saxy_goto n)) s)"
proof -
  have g: "open_object jsf \<longrightarrow> g"
    using assms(3,6) by (auto simp: complete_functions_def)
  note ends = saxy_ok_end [OF assms(1,2)]
  have other: "saxy_ok (notify_other (open_object jsf) g e (saxy_goto n) s')"
    and plain: "saxy_ok (notify f e (saxy_goto n) s')"
    if "generous (sx_mem s')" "list_all event_ok (sx_events s')" "sx_temp s' = RcsNull" for s'
    using saxy_ok_plain(1) [OF that assms(5)] saxy_ok_plain(1) [of "call e s'", OF _ _ _ assms(5)] that
      assms(4) g by (auto intro: saxy_ok_notify)
  show "saxy_ok (saxy_number jsf (notify_other (open_object jsf) g e (saxy_goto n)) s)"
    "saxy_ok (saxy_number_lazy jsf (notify_other (open_object jsf) g e (saxy_goto n)) s)"
    by (rule ends, erule (2) other)+
  show "saxy_ok (saxy_number jsf (notify f e (saxy_goto n)) s)"
    "saxy_ok (saxy_number_lazy jsf (notify f e (saxy_goto n)) s)"
    by (rule ends, erule (2) plain)+
qed

lemma saxy_number_done:
  assumes "reading x s" and "x \<noteq> []" and "n \<in> plain_states"
  shows "saxy_ok (saxy_number jsf (saxy_goto n) s)"
  using saxy_ok_plain(1) assms(3) by (intro saxy_ok_end [OF assms(1,2)])

text \<open>The number states.\<close>

lemma saxy_number_states_ok:
  assumes s: "reading x s" "x \<noteq> []" and jsf: "complete_functions jsf"
  shows "saxy_ok (saxy_state17 jsf c s)" and "saxy_ok (saxy_state18 c s)"
    and "saxy_ok (saxy_state19 jsf c s)" and "saxy_ok (saxy_state20 c s)"
    and "saxy_ok (saxy_state21 jsf c s)" and "saxy_ok (saxy_state22 c s)"
    and "saxy_ok (saxy_state23 c s)" and "saxy_ok (saxy_state24 jsf c s)"
proof -
  have more: "number_char c \<Longrightarrow> n \<in> number_states \<Longrightarrow> reading y s' \<Longrightarrow> saxy_ok (saxy_catc c (saxy_goto n) s')"
    "number_char c \<Longrightarrow> n \<in> number_states \<Longrightarrow> reading y s' \<Longrightarrow>
      saxy_ok (saxy_catc_unchecked c (saxy_goto n) s')"
    "number_char c \<Longrightarrow> reading y s' \<Longrightarrow> saxy_ok (saxy_catc c saxy_stay s')" for n c y s'
    by (rule saxy_ok_catc, assumption, assumption, rule saxy_ok_reading, assumption, simp, assumption)+
      (rule saxy_ok_catc, assumption, assumption, rule saxy_ok_reading, assumption, simp)
  note closes = saxy_number_closes [OF s jsf]
  have limited: "saxy_ok (saxy_limited n app (saxy_goto k) s)"
    if "saxy_ok (app (saxy_goto k) s)" "k \<in> number_states" for n app k
    by (rule saxy_ok_limited [where x = x]) (use saxy_ok_reading s that in auto)
  have limited_stay: "saxy_ok (saxy_limited n app saxy_stay s)"
    if "saxy_ok (app saxy_stay s)" for n app
    by (rule saxy_ok_limited [where x = x]) (use saxy_ok_reading s that in auto)
  note ill = saxy_ok_reading(3) [OF s] and finish = saxy_number_done [OF s]
  note go = saxy_ok_reading(1) [OF s]
  show "saxy_ok (saxy_state17 jsf c s)"
    unfolding saxy_state17_def
    by (auto intro!: closes finish ill saxy_ok_create_reading [OF s(1)] more simp: state_sets)
  show "saxy_ok (saxy_state18 c s)"
    unfolding saxy_state18_def
    by (intro saxy_ok_if; auto intro!: limited ill more s simp: state_sets)
  show "saxy_ok (saxy_state19 jsf c s)"
    unfolding saxy_state19_def
    by (intro saxy_ok_if; auto intro!: closes finish limited_stay ill more s simp: state_sets)
  show "saxy_ok (saxy_state20 c s)"
    unfolding saxy_state20_def
    by (intro saxy_ok_if; auto intro!: limited ill more s simp: state_sets)
  show "saxy_ok (saxy_state21 jsf c s)"
    unfolding saxy_state21_def
    by (intro saxy_ok_if; auto intro!: closes finish limited_stay ill more s simp: state_sets)
  show "saxy_ok (saxy_state22 c s)"
    unfolding saxy_state22_def
    by (intro saxy_ok_if; auto intro!: limited ill more s simp: state_sets)
  have restart: "saxy_ok (saxy_create (saxy_catc c k) s)"
    if "number_char c" "\<And>s'. reading [c] s' \<Longrightarrow> saxy_ok (k s')" for c k
    by (rule saxy_ok_create_reading [OF s(1)], rule saxy_ok_catc, assumption) (use that in simp_all)
  have len: "rcs_length (sx_temp s) = Some (length x)"
    using s(1) rcs_length_spec by (simp add: reading_def)
  show "saxy_ok (saxy_state23 c s)"
    unfolding saxy_state23_def len
    by (intro saxy_ok_if; auto intro!: restart go ill more saxy_ok_reading s simp: state_sets)
  show "saxy_ok (saxy_state24 jsf c s)"
    unfolding saxy_state24_def
    by (intro saxy_ok_if; auto intro!: closes finish restart limited_stay ill more saxy_ok_reading s simp: state_sets)
qed

text \<open>The other states a text without quotes can reach.\<close>

lemma saxy_first_digit:
  assumes "generous (sx_mem s)" and "list_all event_ok (sx_events s)" and "sx_state s \<in> number_states"
    and "number_char c"
  shows "saxy_ok (saxy_create (saxy_catc c saxy_stay) s)"
  by (rule saxy_ok_create [OF assms(1-3)], rule saxy_ok_catc, assumption, rule assms(4))
    (rule saxy_ok_reading, assumption, simp)

lemma saxy_plain_notify:
  assumes "generous (sx_mem s)" and "list_all event_ok (sx_events s)" and "sx_temp s = RcsNull"
    and "event_ok e"
  shows "n \<in> plain_states \<Longrightarrow> saxy_ok (notify f e (saxy_goto n) s)"
    and "sx_state s \<in> plain_states \<Longrightarrow> saxy_ok (notify f e saxy_stay s)"
  using saxy_ok_plain [OF assms(1-3)] saxy_ok_plain [of "call e s"] assms
  by (auto intro!: saxy_ok_notify)

lemma saxy_plain_states_ok:
  fixes jsf :: json_saxy_functions
  assumes s: "generous (sx_mem s)" "list_all event_ok (sx_events s)" "sx_temp s = RcsNull"
    and q: "sx_state s \<in> plain_states" and c: "c \<noteq> QUOTE"
  shows "saxy_ok (saxy_state0 jsf c s)" and "saxy_ok (saxy_literal jsf q c s)"
    and "saxy_ok (saxy_state25 jsf c s)" and "saxy_ok (saxy_state26 jsf c s)"
    and "saxy_ok (saxy_state27 jsf c s)" and "saxy_ok (saxy_comment q c s)"
proof -
  note plain = saxy_ok_plain [OF s] saxy_plain_notify [OF s]
  have word: "saxy_ok (notify f e saxy_stay (s\<lparr>sx_state := 0\<rparr>))" if "event_ok e" for f e
    by (rule saxy_plain_notify) (use s that in \<open>auto simp: state_sets\<close>)
  show "saxy_ok (saxy_state0 jsf c s)"
    unfolding saxy_state0_def using c s q
    by (intro saxy_ok_if; auto intro!: plain saxy_first_digit simp: state_sets)
  show "saxy_ok (saxy_literal jsf q c s)"
    unfolding saxy_literal_def saxy_expect_def using q
    by (intro saxy_ok_if; auto intro!: plain word simp: state_sets)
  show "saxy_ok (saxy_state25 jsf c s)"
    unfolding saxy_state25_def using c q by (intro saxy_ok_if; auto intro!: plain simp: state_sets)
  show "saxy_ok (saxy_state26 jsf c s)"
    unfolding saxy_state26_def using q by (intro saxy_ok_if; auto intro!: plain simp: state_sets)
  show "saxy_ok (saxy_state27 jsf c s)"
    unfolding saxy_state27_def using c s q
    by (intro saxy_ok_if; auto intro!: plain saxy_first_digit simp: state_sets)
  show "saxy_ok (saxy_comment q c s)"
    unfolding saxy_comment_def using q by (intro saxy_ok_if; auto intro!: plain simp: state_sets)
qed

lemma json_saxy_parse_ok:
  assumes "saxy_inv s" and "complete_functions jsf" and "c \<noteq> QUOTE"
  shows "saxy_ok (json_saxy_parse jsf c s)"
  using assms(1)
proof (cases rule: saxy_inv_cases)
  case plain
  note ok = saxy_plain_states_ok [OF plain(3,4,2,1) assms(3)]
  show ?thesis
    using plain(1) ok by (auto simp: json_saxy_parse_def Let_def state_sets)
next
  case (number x)
  note ok = saxy_number_states_ok [OF number(2,3) assms(2), of c]
  show ?thesis
    using number(1) ok by (auto simp: json_saxy_parse_def Let_def state_sets)
qed

lemma saxy_run_ok:
  assumes "saxy_inv s" and "complete_functions jsf" and "QUOTE \<notin> set cs"
  shows "saxy_ok (saxy_run jsf cs s)"
  using assms(1,3)
proof (induction cs arbitrary: s)
  case Nil
  then show ?case by (simp add: saxy_ok_def)
next
  case (Cons c cs)
  obtain e s1 where one: "json_saxy_parse jsf c s = Some (e, s1)" "saxy_inv s1"
    "e \<in> {JSON_OK, JSON_ILLEGAL_CHARACTER}"
    using json_saxy_parse_ok [OF Cons.prems(1) assms(2), of c] Cons.prems(2) by (auto simp: saxy_ok_def)
  show ?case
    using one Cons.IH [OF one(2)] Cons.prems(2) by (auto simp: saxy_ok_def)
qed

section \<open>The events of a document\<close>

text \<open>
  The documents the parser does report correctly: literals, empty objects and non-empty arrays,
  nested at will, with any white space between the tokens.
\<close>

datatype saxy_doc = STrue | SFalse | SNull | SEmptyObject | SArray saxy_doc "saxy_doc list"

datatype saxy_tok = TTrue | TFalse | TNull | TOpenObject | TCloseObject | TOpenArray | TCloseArray
  | TComma

fun tok_chars :: "saxy_tok \<Rightarrow> string" where
  "tok_chars TTrue = ''true''"
| "tok_chars TFalse = ''false''"
| "tok_chars TNull = ''null''"
| "tok_chars TOpenObject = ''{''"
| "tok_chars TCloseObject = ''}''"
| "tok_chars TOpenArray = ''[''"
| "tok_chars TCloseArray = '']''"
| "tok_chars TComma = '',''"

fun saxy_toks :: "saxy_doc \<Rightarrow> saxy_tok list" where
  "saxy_toks STrue = [TTrue]"
| "saxy_toks SFalse = [TFalse]"
| "saxy_toks SNull = [TNull]"
| "saxy_toks SEmptyObject = [TOpenObject, TCloseObject]"
| "saxy_toks (SArray d ds) =
     TOpenArray # saxy_toks d @ concat (map (\<lambda>d. TComma # saxy_toks d) ds) @ [TCloseArray]"

fun doc_events :: "saxy_doc \<Rightarrow> saxy_event list" where
  "doc_events STrue = [NewTrue]"
| "doc_events SFalse = [NewFalse]"
| "doc_events SNull = [NewNull]"
| "doc_events SEmptyObject = [OpenObject, CloseObject]"
| "doc_events (SArray d ds) =
     OpenArray # doc_events d @ concat (map (\<lambda>d. SiblingSeparator # doc_events d) ds) @ [CloseArray]"

fun spread :: "saxy_tok list \<Rightarrow> string \<Rightarrow> bool" where
  "spread [] cs \<longleftrightarrow> list_all is_ws cs"
| "spread (t # ts) cs \<longleftrightarrow> (\<exists>g rest. cs = g @ tok_chars t @ rest \<and> list_all is_ws g \<and> spread ts rest)"

lemma spread_gap: "is_ws c \<Longrightarrow> spread ts cs \<Longrightarrow> spread ts (c # cs)"
  by (cases ts) (simp, simp, metis append_Cons list.pred_inject(2))

lemma spread_tok: "spread ts rest \<Longrightarrow> cs = tok_chars t @ rest \<Longrightarrow> spread (t # ts) cs"
  by (auto intro: exI [of _ "[]"])

fun wants :: "json_saxy_functions \<Rightarrow> saxy_event \<Rightarrow> bool" where
  "wants jsf OpenObject = open_object jsf"
| "wants jsf CloseObject = close_object jsf"
| "wants jsf OpenArray = open_array jsf"
| "wants jsf CloseArray = close_array jsf"
| "wants jsf (NewString x) = new_string jsf"
| "wants jsf (NewNumber x) = new_number jsf"
| "wants jsf NewTrue = new_true jsf"
| "wants jsf NewFalse = new_false jsf"
| "wants jsf NewNull = new_null jsf"
| "wants jsf LabelValueSeparator = label_value_separator jsf"
| "wants jsf SiblingSeparator = sibling_separator jsf"

text \<open>The status with the callbacks for \<open>es\<close> made, in state \<open>q\<close>.\<close>

definition moved :: "json_saxy_functions \<Rightarrow> nat \<Rightarrow> saxy_event list \<Rightarrow> json_saxy_parser_status \<Rightarrow>
    json_saxy_parser_status" where
  "moved jsf q es s = s\<lparr>sx_state := q, sx_events := sx_events s @ filter (wants jsf) es\<rparr>"

lemma moved_simps [simp]:
  "moved jsf q' es' (moved jsf q es s) = moved jsf q' (es @ es') s"
  "sx_state (moved jsf q es s) = q"
  by (simp_all add: moved_def)

text \<open>The state behind a document, and the run from \<open>s\<close> over the text of one.\<close>

definition after_doc :: "saxy_doc \<Rightarrow> nat" where
  "after_doc d = (if d \<in> {STrue, SFalse, SNull} then 0 else 26)"

definition runs_to :: "json_saxy_functions \<Rightarrow> json_saxy_parser_status \<Rightarrow> string \<Rightarrow> nat \<Rightarrow>
    saxy_event list \<Rightarrow> saxy_tok list \<Rightarrow> bool" where
  "runs_to jsf s cs q es us \<longleftrightarrow>
     (\<exists>rest. saxy_run jsf cs s = saxy_run jsf rest (moved jsf q es s) \<and> spread us rest)"

lemma saxy_run_ws:
  assumes "list_all is_ws g" and "sx_state s \<in> {0, 25, 26, 27}"
  shows "saxy_run jsf (g @ cs) s = saxy_run jsf cs s"
  using assms(1)
proof (induction g)
  case (Cons c g)
  then have "json_saxy_parse jsf c s = Some (JSON_OK, s)"
    using assms(2) by (auto simp: json_saxy_parse_def Let_def saxy_state0_def saxy_state25_def
        saxy_state26_def saxy_state27_def saxy_stay_def)
  with Cons show ?case by simp
qed simp

text \<open>One token.\<close>

fun tok_step :: "nat \<Rightarrow> saxy_tok \<Rightarrow> (nat \<times> saxy_event) option" where
  "tok_step q TTrue = (if q \<in> {0, 27} then Some (0, NewTrue) else None)"
| "tok_step q TFalse = (if q \<in> {0, 27} then Some (0, NewFalse) else None)"
| "tok_step q TNull = (if q \<in> {0, 27} then Some (0, NewNull) else None)"
| "tok_step q TOpenObject = (if q \<in> {0, 27} then Some (25, OpenObject) else None)"
| "tok_step q TCloseObject = (if q = 25 then Some (26, CloseObject) else None)"
| "tok_step q TOpenArray = (if q \<in> {0, 27} then Some (q, OpenArray) else None)"
| "tok_step q TCloseArray = (if q \<in> {0, 26} then Some (26, CloseArray) else None)"
| "tok_step q TComma = (if q \<in> {0, 26} then Some (27, SiblingSeparator) else None)"

lemmas one_char = saxy_state0_def saxy_state25_def saxy_state26_def saxy_state27_def saxy_goto_def
  saxy_stay_def is_ws_def notify_def call_def moved_def

lemma saxy_char:
  "sx_state s \<in> {0, 27} \<Longrightarrow>
    json_saxy_parse jsf (CHR ''{'') s = Some (JSON_OK, moved jsf 25 [OpenObject] s)"
  "sx_state s = 25 \<Longrightarrow>
    json_saxy_parse jsf (CHR ''}'') s = Some (JSON_OK, moved jsf 26 [CloseObject] s)"
  "sx_state s = q \<Longrightarrow> q \<in> {0, 27} \<Longrightarrow>
    json_saxy_parse jsf (CHR ''['') s = Some (JSON_OK, moved jsf q [OpenArray] s)"
  "sx_state s \<in> {0, 26} \<Longrightarrow>
    json_saxy_parse jsf (CHR '']'') s = Some (JSON_OK, moved jsf 26 [CloseArray] s)"
  "sx_state s \<in> {0, 26} \<Longrightarrow>
    json_saxy_parse jsf (CHR '','') s = Some (JSON_OK, moved jsf 27 [SiblingSeparator] s)"
  by (cases s; auto simp: json_saxy_parse_def one_char)+

lemma saxy_word:
  "sx_state s \<in> {0, 27} \<Longrightarrow>
    saxy_run jsf (''true'' @ rest) s = saxy_run jsf rest (moved jsf 0 [NewTrue] s)"
  "sx_state s \<in> {0, 27} \<Longrightarrow>
    saxy_run jsf (''false'' @ rest) s = saxy_run jsf rest (moved jsf 0 [NewFalse] s)"
  "sx_state s \<in> {0, 27} \<Longrightarrow>
    saxy_run jsf (''null'' @ rest) s = saxy_run jsf rest (moved jsf 0 [NewNull] s)"
  by (auto simp: json_saxy_parse_def one_char saxy_literal_def saxy_expect_def)

lemma saxy_run_tok:
  assumes "tok_step (sx_state s) t = Some (q, e)"
  shows "saxy_run jsf (tok_chars t @ rest) s = saxy_run jsf rest (moved jsf q [e] s)"
  using assms saxy_word [of s jsf rest] by (cases t) (auto simp: saxy_char split: if_splits)

lemma runs_to_tok:
  assumes "spread (t # us) cs" and "tok_step (sx_state s) t = Some (q, e)"
  shows "runs_to jsf s cs q [e] us"
proof -
  obtain g rest where cs: "cs = g @ tok_chars t @ rest" "list_all is_ws g" "spread us rest"
    using assms(1) by auto
  have "sx_state s \<in> {0, 25, 26, 27}"
    using assms(2) by (cases t) (auto split: if_splits)
  then show ?thesis
    using cs saxy_run_ws [OF cs(2)] saxy_run_tok [OF assms(2)] by (auto simp: runs_to_def)
qed

lemma runs_to_trans:
  assumes "runs_to jsf s cs q es us"
    and "\<And>rest. spread us rest \<Longrightarrow> runs_to jsf (moved jsf q es s) rest q' es' us'"
  shows "runs_to jsf s cs q' (es @ es') us'"
proof -
  obtain rest where "saxy_run jsf cs s = saxy_run jsf rest (moved jsf q es s)" "spread us rest"
    using assms(1) by (auto simp: runs_to_def)
  then show ?thesis
    using assms(2) [of rest] by (auto simp: runs_to_def)
qed

lemma runs_to_cons:
  assumes "spread (t # us) cs" and "tok_step (sx_state s) t = Some (q, e)"
    and "\<And>s' rest. sx_state s' = q \<Longrightarrow> spread us rest \<Longrightarrow> runs_to jsf s' rest q' es us'"
  shows "runs_to jsf s cs q' (e # es) us'"
  using runs_to_trans [OF runs_to_tok [OF assms(1,2)] assms(3)] by simp

text \<open>A document, and the rest of an array behind its first element.\<close>

lemma saxy_doc_run:
  assumes "sx_state s \<in> {0, 27}" and "spread (saxy_toks d @ us) cs"
  shows "runs_to jsf s cs (after_doc d) (doc_events d) us"
  using assms
proof (induction d arbitrary: s us cs)
  case (SArray d ds)
  have rest: "runs_to jsf s cs 26 (concat (map (\<lambda>d. SiblingSeparator # doc_events d) es) @ [CloseArray]) us"
    if "set es \<subseteq> set ds" "sx_state s \<in> {0, 26}"
      "spread (concat (map (\<lambda>d. TComma # saxy_toks d) es) @ TCloseArray # us) cs" for es s cs
    using that
  proof (induction es arbitrary: s cs)
    case Nil
    then show ?case
      using runs_to_tok [of TCloseArray us cs s 26 CloseArray] by auto
  next
    case (Cons e es)
    let ?us = "concat (map (\<lambda>d. TComma # saxy_toks d) es) @ TCloseArray # us"
    have "runs_to jsf s cs 26 (SiblingSeparator # doc_events e @
        concat (map (\<lambda>d. SiblingSeparator # doc_events d) es) @ [CloseArray]) us"
    proof (rule runs_to_cons [where q = 27])
      show "spread (TComma # saxy_toks e @ ?us) cs"
        using Cons.prems(3) by simp
      fix s' :: json_saxy_parser_status and rest
      assume s': "sx_state s' = 27" "spread (saxy_toks e @ ?us) rest"
      show "runs_to jsf s' rest 26 (doc_events e @
          concat (map (\<lambda>d. SiblingSeparator # doc_events d) es) @ [CloseArray]) us"
        by (rule runs_to_trans [where q = "after_doc e"], rule SArray.IH(2) [OF _ _ s'(2)])
          (use Cons.prems(1) s'(1) Cons.IH in \<open>auto simp: after_doc_def\<close>)
    qed (use Cons.prems(2) in auto)
    then show ?case by simp
  qed
  have "runs_to jsf s cs 26 (OpenArray # doc_events d @
      concat (map (\<lambda>d. SiblingSeparator # doc_events d) ds) @ [CloseArray]) us"
  proof (rule runs_to_cons [where q = "sx_state s"])
    show "spread (TOpenArray # saxy_toks d @ concat (map (\<lambda>d. TComma # saxy_toks d) ds) @ TCloseArray # us) cs"
      using SArray.prems(2) by simp
    fix s' :: json_saxy_parser_status and rest'
    assume s': "sx_state s' = sx_state s"
      "spread (saxy_toks d @ concat (map (\<lambda>d. TComma # saxy_toks d) ds) @ TCloseArray # us) rest'"
    show "runs_to jsf s' rest' 26 (doc_events d @
        concat (map (\<lambda>d. SiblingSeparator # doc_events d) ds) @ [CloseArray]) us"
      by (rule runs_to_trans [where q = "after_doc d"], rule SArray.IH(1) [OF _ s'(2)])
        (use s'(1) SArray.prems(1) rest in \<open>auto simp: after_doc_def\<close>)
  qed (use SArray.prems(1) in auto)
  then show ?case
    by (simp add: after_doc_def)
next
  case SEmptyObject
  have "runs_to jsf s cs 26 [OpenObject, CloseObject] us"
  proof (rule runs_to_cons [where q = 25])
    show "spread (TOpenObject # TCloseObject # us) cs"
      using SEmptyObject.prems(2) by simp
    fix s' :: json_saxy_parser_status and rest
    assume "sx_state s' = 25" "spread (TCloseObject # us) rest"
    then show "runs_to jsf s' rest 26 [CloseObject] us"
      using runs_to_tok [of TCloseObject us rest s' 26 CloseObject] by simp
  qed (use SEmptyObject.prems(1) in auto)
  then show ?case
    by (simp add: after_doc_def)
next
  case STrue
  then show ?case
    using runs_to_tok [of TTrue us cs s 0 NewTrue] by (auto simp: after_doc_def)
next
  case SFalse
  then show ?case
    using runs_to_tok [of TFalse us cs s 0 NewFalse] by (auto simp: after_doc_def)
next
  case SNull
  then show ?case
    using runs_to_tok [of TNull us cs s 0 NewNull] by (auto simp: after_doc_def)
qed

text \<open>A whole text.\<close>

lemma saxy_events_run:
  assumes "sx_state s = 0" and "spread (saxy_toks d) cs"
  shows "saxy_run jsf cs s = Some (JSON_OK, moved jsf (after_doc d) (doc_events d) s)"
proof -
  obtain rest where run: "saxy_run jsf cs s = saxy_run jsf rest (moved jsf (after_doc d) (doc_events d) s)"
    and ws: "list_all is_ws rest"
    using saxy_doc_run [of s d "[]" cs jsf] assms by (auto simp: runs_to_def)
  have "sx_state (moved jsf (after_doc d) (doc_events d) s) \<in> {0, 25, 26, 27}"
    by (simp add: after_doc_def)
  then show ?thesis
    using run saxy_run_ws [OF ws, of _ jsf "[]"] by simp
qed

section \<open>What goes wrong\<close>

text \<open>
  Nothing sets up \<open>temp\<close> for a string: the empty string is reported as an unknown problem, and
  the first character of any other string is appended through a null pointer.
\<close>

lemma saxy_quote: "json_saxy_parse jsf QUOTE (saxy_start m) = Some (JSON_OK, (saxy_start m)\<lparr>sx_state := 1\<rparr>)"
  by (simp add: json_saxy_parse_def saxy_state0_def saxy_goto_def saxy_start_def is_ws_def)

lemma saxy_strings_fail:
  "c \<noteq> QUOTE \<Longrightarrow> saxy_run jsf [QUOTE, c] (saxy_start m) = None"
  "saxy_run jsf [QUOTE, QUOTE] (saxy_start m) =
    Some (JSON_UNKNOWN_PROBLEM, (saxy_start m)\<lparr>sx_state := 1\<rparr>)"
  by (simp_all add: saxy_quote)
    (simp_all add: json_saxy_parse_def saxy_start_def saxy_state1_def saxy_limited_def rcs_length_def)

text \<open>A number of several digits is reported as its last digit.\<close>

definition all_functions :: json_saxy_functions where
  "all_functions = \<lparr>open_object = True, close_object = True, open_array = True, close_array = True,
     new_string = True, new_number = True, new_true = True, new_false = True, new_null = True,
     label_value_separator = True, sibling_separator = True\<rparr>"

lemma saxy_digits_lost:
  "map_option (\<lambda>r. sx_events (snd r)) (saxy_run all_functions ''12,'' (saxy_start plenty)) =
     Some [NewNumber ''2'', LabelValueSeparator]"
  by (simp add: json_saxy_parse_def saxy_start_def saxy_state0_def saxy_state24_def is_ws_def is_digit19_def
      is_digit_def saxy_create_def saxy_catc_def saxy_limited_def saxy_stay_def saxy_number_def is_exp_def
      saxy_free_def saxy_text_def notify_def saxy_goto_def call_def rcs_create_def rcs_catc_def
      rcs_length_def rcs_free_def request_def plenty_def c_strlen_def c_string_def poke_def all_functions_def
      JSON_MAX_STRING_LENGTH_def Let_def)

end
