(* ===== verification/Bytes.thy ===== *)
theory Bytes
  imports Prelude "HOL-Library.Word" "HOL-Library.Signed_Division"
begin

text \<open>
  Memory at byte granularity, shared by the theories on the network code: bytes, the
  little-endian layout in which the code stores a \<open>short\<close>, a \<open>long\<close> or a \<open>float\<close> when it
  copies one with \<open>memcpy\<close>, and bounded reads and writes of a block.

  The widths are those of the Windows build (\<open>TestPcNetwork.vcxproj\<close>): \<open>char\<close> 8, \<open>short\<close>
  16, \<open>int\<close>, \<open>long\<close> and \<open>float\<close> 32 bits.  A \<open>float\<close> is represented by its 32 bits, since
  the code only copies it.  An \<open>int\<close> whose range the code keeps small is an integer of the
  logic.
\<close>

type_synonym byte = "8 word"
type_synonym c_short = "16 word"
type_synonym c_long = "32 word"

named_theorems block_simps "reads and writes of a block of bytes"

section \<open>Layout of numbers\<close>

definition enc16 :: "16 word \<Rightarrow> byte list" where
  "enc16 w = [ucast w, ucast (drop_bit 8 w)]"

definition enc32 :: "32 word \<Rightarrow> byte list" where
  "enc32 w = [ucast w, ucast (drop_bit 8 w), ucast (drop_bit 16 w), ucast (drop_bit 24 w)]"

definition dec16 :: "byte list \<Rightarrow> 16 word" where
  "dec16 bs = ucast (bs ! 0) + push_bit 8 (ucast (bs ! 1))"

definition dec32 :: "byte list \<Rightarrow> 32 word" where
  "dec32 bs = ucast (bs ! 0) + push_bit 8 (ucast (bs ! 1)) + push_bit 16 (ucast (bs ! 2)) +
     push_bit 24 (ucast (bs ! 3))"

lemma length_enc [simp]: "length (enc16 w) = 2" "length (enc32 l) = 4"
  by (simp_all add: enc16_def enc32_def)

lemma enc_not_Nil [simp]: "enc16 w \<noteq> []" "enc32 l \<noteq> []"
  by (simp_all add: enc16_def enc32_def)

lemma unat_drop_bit_div: "unat (drop_bit n w) = unat (w :: 'a::len word) div 2 ^ n"
  by (simp only: unat_drop_bit_eq) (simp only: drop_bit_eq_div)

lemma unat_push_bit_mult:
  "unat (push_bit n w) = unat (w :: 'a::len word) * 2 ^ n mod 2 ^ LENGTH('a)"
  by (simp only: unsigned_push_bit_eq) (simp only: push_bit_eq_mult take_bit_eq_mod)

lemma unat_push_ucast16: "unat (push_bit 8 (ucast (b :: byte)) :: 16 word) = unat b * 256"
proof -
  have "unat b < 256" using unsigned_less [of b] by simp
  then show ?thesis
    by (simp only: unat_push_bit_mult unsigned_ucast_eq) (simp add: take_bit_eq_mod)
qed

lemma unat_push_ucast32:
  assumes "k \<le> 24"
  shows "unat (push_bit k (ucast (b :: byte)) :: 32 word) = unat b * 2 ^ k"
proof -
  have b: "unat b < 2 ^ 8" using unsigned_less [of b] by simp
  then have "unat b * 2 ^ k < 2 ^ 8 * 2 ^ k" by simp
  also have "\<dots> \<le> 2 ^ 8 * (2 :: nat) ^ 24"
    using assms by (intro mult_left_mono power_increasing) auto
  finally have *: "unat b * 2 ^ k < 4294967296" by simp
  have "unat b < 4294967296" using b by simp
  then show ?thesis using *
    by (simp only: unat_push_bit_mult unsigned_ucast_eq) (simp add: take_bit_eq_mod)
qed

lemma byte_bound: "unat (b :: byte) < 256"
  using unsigned_less [of b] by simp

lemma unat_ucast_byte [simp]:
  "unat (ucast (b :: byte) :: 16 word) = unat b" "unat (ucast (b :: byte) :: 32 word) = unat b"
  using byte_bound [of b] by (simp_all only: unsigned_ucast_eq) (simp_all add: take_bit_eq_mod)

lemma unat_low_byte: "unat (ucast (w :: 'a::len word) :: byte) = unat w mod 256"
  by (simp only: unsigned_ucast_eq) (simp add: take_bit_eq_mod)

lemma unat_dec16: "unat (dec16 [a, b]) = unat a + unat b * 256"
  using byte_bound [of a] byte_bound [of b]
  by (simp add: dec16_def unat_word_ariths unat_push_ucast16)

lemma unat_dec32:
  "unat (dec32 [a, b, c, d]) = unat a + unat b * 256 + unat c * 65536 + unat d * 16777216"
  using byte_bound [of a] byte_bound [of b] byte_bound [of c] byte_bound [of d]
  by (simp add: dec32_def unat_word_ariths unat_push_ucast32)

lemma bytes_of_16:
  assumes "(n :: nat) < 65536"
  shows "n mod 256 + n div 2 ^ 8 mod 256 * 256 = n"
proof -
  have "n div 256 < 256" using assms by (simp add: less_mult_imp_div_less)
  then show ?thesis by (simp add: mod_div_mult_eq)
qed

lemma bytes_of_32:
  assumes "(n :: nat) < 4294967296"
  shows "n mod 256 + n div 2 ^ 8 mod 256 * 256 + n div 2 ^ 16 mod 256 * 65536 +
    n div 2 ^ 24 mod 256 * 16777216 = n"
proof -
  define q r where "q = n div 256" and "r = q div 256"
  have "r div 256 < 256" using assms
    by (simp add: q_def r_def less_mult_imp_div_less flip: div_mult2_eq)
  then have r: "r div 256 mod 256 = r div 256" by simp
  have "r mod 256 + r div 256 * 256 = r" "q mod 256 + r * 256 = q" "n mod 256 + q * 256 = n"
    unfolding q_def r_def by (rule mod_div_mult_eq)+
  with r have "n mod 256 + q mod 256 * 256 + r mod 256 * 65536 +
    r div 256 * 16777216 = n" by linarith
  then show ?thesis using r by (simp add: q_def r_def div_mult2_eq [symmetric])
qed

lemma dec16_enc16 [simp]: "dec16 (enc16 w) = w"
proof -
  have "unat w < 65536" using unsigned_less [of w] by simp
  then have "unat (dec16 (enc16 w)) = unat w"
    by (simp only: enc16_def unat_dec16 unat_drop_bit_div unat_low_byte bytes_of_16)
  then show ?thesis by (simp only: word_unat_eq_iff)
qed

lemma dec32_enc32 [simp]: "dec32 (enc32 w) = w"
proof -
  have "unat w < 4294967296" using unsigned_less [of w] by simp
  then have "unat (dec32 (enc32 w)) = unat w"
    by (simp only: enc32_def unat_dec32 unat_drop_bit_div unat_low_byte bytes_of_32)
  then show ?thesis by (simp only: word_unat_eq_iff)
qed

lemma enc16_dec16: "length bs = 2 \<Longrightarrow> enc16 (dec16 bs) = bs"
proof -
  assume "length bs = 2"
  then obtain a b where bs: "bs = [a, b]" by (auto simp: length_Suc_conv numeral_2_eq_2)
  have "unat (ucast (dec16 bs) :: byte) = unat a"
    "unat (ucast (drop_bit 8 (dec16 bs)) :: byte) = unat b"
    by (simp_all only: unat_low_byte unat_drop_bit_div bs unat_dec16)
      (use byte_bound [of a] byte_bound [of b] in simp_all)
  then show ?thesis by (simp add: enc16_def bs word_unat_eq_iff)
qed

lemma digits_of_32:
  assumes "(a :: nat) < 256" "b < 256" "c < 256" "d < 256"
    and n: "n = a + b * 256 + c * 65536 + d * 16777216"
  shows "n mod 256 = a" "n div 2 ^ 8 mod 256 = b" "n div 2 ^ 16 mod 256 = c" "n div 2 ^ 24 mod 256 = d"
proof -
  have step: "(x + 256 * y) mod 256 = x" "(x + 256 * y) div 256 = y" if "x < 256" for x y :: nat
    using that by simp_all
  define k2 where "k2 = c + 256 * d"
  define k1 where "k1 = b + 256 * k2"
  have "n = a + 256 * k1" using n by (simp add: k1_def k2_def)
  then have "n mod 256 = a" "n div 256 = k1" using step assms(1) by simp_all
  moreover have "k1 mod 256 = b" "k1 div 256 = k2" "k2 mod 256 = c" "k2 div 256 = d"
    using step [OF assms(2), of k2] step [OF assms(3), of d] by (simp_all only: k1_def [symmetric] k2_def [symmetric])
  moreover have "n div 2 ^ 16 = n div 256 div 256" "n div 2 ^ 24 = n div 256 div 256 div 256"
    by (simp_all add: div_mult2_eq [symmetric])
  ultimately show "n mod 256 = a" "n div 2 ^ 8 mod 256 = b" "n div 2 ^ 16 mod 256 = c"
    "n div 2 ^ 24 mod 256 = d" using assms(4) by simp_all
qed

lemma enc32_dec32: "length bs = 4 \<Longrightarrow> enc32 (dec32 bs) = bs"
proof -
  assume "length bs = 4"
  then obtain a b c d where bs: "bs = [a, b, c, d]" by (auto simp: length_Suc_conv numeral_eq_Suc)
  note digits = digits_of_32 [OF byte_bound [of a] byte_bound [of b] byte_bound [of c]
      byte_bound [of d] refl]
  have "unat (ucast (dec32 bs) :: byte) = unat a"
    "unat (ucast (drop_bit 8 (dec32 bs)) :: byte) = unat b"
    "unat (ucast (drop_bit 16 (dec32 bs)) :: byte) = unat c"
    "unat (ucast (drop_bit 24 (dec32 bs)) :: byte) = unat d"
    by (simp_all only: unat_low_byte unat_drop_bit_div bs unat_dec32 digits)
  then show ?thesis by (simp add: enc32_def bs word_unat_eq_iff)
qed

section \<open>Blocks\<close>

text \<open>Reading \<open>n\<close> bytes at offset \<open>i\<close>; outside the block the behaviour is undefined.\<close>

definition fetch :: "'a list \<Rightarrow> nat \<Rightarrow> nat \<Rightarrow> 'a list option" where
  "fetch buf i n = (if i + n \<le> length buf then Some (take n (drop i buf)) else None)"

text \<open>
  The same with the \<open>int\<close> offsets and lengths of the code; a negative length becomes a huge
  \<open>size_t\<close> in \<open>memcpy\<close>.
\<close>

definition fetch_int :: "'a list \<Rightarrow> int \<Rightarrow> int \<Rightarrow> 'a list option" where
  "fetch_int buf i n = (if 0 \<le> i \<and> 0 \<le> n then fetch buf (nat i) (nat n) else None)"

definition poke_int :: "'a list \<Rightarrow> int \<Rightarrow> 'a list \<Rightarrow> 'a list option" where
  "poke_int buf i xs = (if 0 \<le> i then poke buf (nat i) xs else None)"

text \<open>Signed addition and multiplication of the code's \<open>int\<close>s: overflow is undefined.\<close>

definition int_add :: "int \<Rightarrow> int \<Rightarrow> int option" where
  "int_add a b = (if - (2 ^ 31) \<le> a + b \<and> a + b < 2 ^ 31 then Some (a + b) else None)"

lemma int_add_some [block_simps]:
  "- 2147483648 \<le> a + b \<Longrightarrow> a + b < 2147483648 \<Longrightarrow> int_add a b = Some (a + b)"
  by (simp add: int_add_def)

definition int_mul :: "int \<Rightarrow> int \<Rightarrow> int option" where
  "int_mul a b = (if - (2 ^ 31) \<le> a * b \<and> a * b < 2 ^ 31 then Some (a * b) else None)"

lemma int_arith_eq_Some:
  "int_add a b = Some c \<longleftrightarrow> c = a + b \<and> - (2 ^ 31) \<le> c \<and> c < 2 ^ 31"
  "int_mul a b = Some c \<longleftrightarrow> c = a * b \<and> - (2 ^ 31) \<le> c \<and> c < 2 ^ 31"
  by (auto simp: int_add_def int_mul_def)

text \<open>\<open>strlen\<close> on a block of bytes.\<close>

definition byte_strlen :: "byte list \<Rightarrow> nat option" where
  "byte_strlen buf = (if 0 \<in> set buf then Some (length (takeWhile (\<lambda>b. b \<noteq> 0) buf)) else None)"

text \<open>Memory handed out by \<open>new char[n]\<close>: unspecified content.\<close>

definition new_bytes :: "(nat \<Rightarrow> byte) \<Rightarrow> nat \<Rightarrow> byte list" where
  "new_bytes fresh n = map fresh [0..<n]"

lemma length_new_bytes [simp]: "length (new_bytes fresh n) = n"
  by (simp add: new_bytes_def)

lemma fetch_length: "fetch buf i n = Some xs \<Longrightarrow> length xs = n"
  by (auto simp: fetch_def split: if_splits)

lemma fetch_some [block_simps]: "i + n \<le> length buf \<Longrightarrow> fetch buf i n = Some (take n (drop i buf))"
  by (simp add: fetch_def)

lemma poke_some [block_simps]:
  "i + length xs \<le> length buf \<Longrightarrow> poke buf i xs = Some (take i buf @ xs @ drop (i + length xs) buf)"
  by (simp add: poke_def)

lemma fetch_int_nat [block_simps]: "fetch_int buf (int i) (int n) = fetch buf i n"
  by (simp add: fetch_int_def)

lemma poke_int_nat [block_simps]: "poke_int buf (int i) xs = poke buf i xs"
  by (simp add: poke_int_def)

lemma fetch_append [simp]: "fetch (xs @ ys) (length xs) (length ys) = Some ys"
  by (simp add: fetch_def)

lemma fetch_at:
  "buf = pre @ xs @ post \<Longrightarrow> i = length pre \<Longrightarrow> n = length xs \<Longrightarrow> fetch buf i n = Some xs"
  by (simp add: fetch_def)

lemma length_poke_int: "poke_int buf i xs = Some buf' \<Longrightarrow> length buf' = length buf"
  by (auto simp: poke_int_def length_poke split: if_splits)

text \<open>Writing behind a prefix that is kept, as the appending code does.\<close>

lemma poke_extends:
  assumes "i + length xs \<le> length buf"
  obtains buf' where "poke buf i xs = Some buf'" "length buf' = length buf"
    "take (i + length xs) buf' = take i buf @ xs"
  using that [of "take i buf @ xs @ drop (i + length xs) buf"] assms
  by (simp add: poke_def min.absorb2)

end
