(* ===== verification/ByteQueue.thy ===== *)
theory ByteQueue
  imports Bytes
begin

text \<open>
  The contracts of the buffers between the parts of the network code.  A buffer appends a
  block of bytes that fits (of the sizes for which its arithmetic is meant); a sink refuses any other block whole and stays as it is; a queue
  also gives the oldest bytes back.  The command packet and the send ring of a session are
  sinks, the socket buffer of the services is a queue; what a client may conclude is proved
  once, here.
\<close>

section \<open>Appending\<close>

text \<open>A run of blocks, with the verdict on each.\<close>

fun push_all :: "('s \<Rightarrow> byte list \<Rightarrow> (bool \<times> 's) option) \<Rightarrow> 's \<Rightarrow> byte list list \<Rightarrow>
    (bool list \<times> 's) option" where
  "push_all push s [] = Some ([], s)"
| "push_all push s (xs # xss) = do {
     (ok, s) \<leftarrow> push s xs;
     (oks, s) \<leftarrow> push_all push s xss;
     Some (ok # oks, s)
   }"

definition accepted :: "bool list \<Rightarrow> byte list list \<Rightarrow> byte list" where
  "accepted oks xss = concat (map snd (filter fst (zip oks xss)))"

lemma accepted_simps [simp]:
  "accepted [] xss = []"
  "accepted (ok # oks) (xs # xss) = (if ok then xs else []) @ accepted oks xss"
  by (simp_all add: accepted_def)

text \<open>The blocks with which the sums of the command packet and the socket buffer stay in range.\<close>

definition small_block :: "byte list \<Rightarrow> bool" where
  "small_block xs \<longleftrightarrow> length xs < 2 ^ 30"

locale byte_buffer =
  fixes small :: "byte list \<Rightarrow> bool"
    and inv :: "'s \<Rightarrow> bool"
    and content :: "'s \<Rightarrow> byte list"
    and fits :: "'s \<Rightarrow> nat \<Rightarrow> bool"
    and push :: "'s \<Rightarrow> byte list \<Rightarrow> (bool \<times> 's) option"
  assumes push_fits: "inv s \<Longrightarrow> small xs \<Longrightarrow> fits s (length xs) \<Longrightarrow>
      \<exists>s'. push s xs = Some (True, s') \<and> inv s' \<and> content s' = content s @ xs"

locale byte_sink = byte_buffer small inv content fits push
  for small :: "byte list \<Rightarrow> bool" and inv :: "'s \<Rightarrow> bool" and content fits push +
  assumes push_full: "inv s \<Longrightarrow> small xs \<Longrightarrow> \<not> fits s (length xs) \<Longrightarrow>
      push s xs = Some (False, s)"
begin

lemma push_spec:
  assumes "inv s" "small xs"
  obtains s' where "push s xs = Some (fits s (length xs), s')" "inv s'"
    "content s' = content s @ (if fits s (length xs) then xs else [])"
  using push_fits [OF assms] push_full [OF assms] assms(1) by (cases "fits s (length xs)") auto

lemma push_all_spec:
  assumes "inv s" "\<forall>xs \<in> set xss. small xs"
  shows "\<exists>oks s'. push_all push s xss = Some (oks, s') \<and> inv s' \<and> length oks = length xss \<and>
    content s' = content s @ accepted oks xss"
  using assms
proof (induction xss arbitrary: s)
  case (Cons xs xss)
  obtain s1 where s1: "push s xs = Some (fits s (length xs), s1)" "inv s1"
    "content s1 = content s @ (if fits s (length xs) then xs else [])"
    using push_spec [of s xs] Cons.prems by auto
  from Cons.IH [of s1] s1(2) Cons.prems obtain oks s' where
    "push_all push s1 xss = Some (oks, s')" "inv s'" "length oks = length xss"
    "content s' = content s1 @ accepted oks xss" by auto
  with s1 show ?case by auto
qed simp

end

section \<open>Appending and removing\<close>

text \<open>
  A queue has room for so many more bytes, however often it is emptied in between: the code
  only moves the content when that makes enough space.
\<close>

locale byte_queue = byte_buffer small inv content fits push
  for small :: "byte list \<Rightarrow> bool" and inv :: "'s \<Rightarrow> bool" and content fits push +
  fixes pop :: "'s \<Rightarrow> nat \<Rightarrow> (byte list \<times> 's) option"
    and room :: "'s \<Rightarrow> nat"
  assumes room_fits: "inv s \<Longrightarrow> length xs \<le> room s \<Longrightarrow> small xs \<and> fits s (length xs)"
    and room_push: "inv s \<Longrightarrow> length xs \<le> room s \<Longrightarrow> push s xs = Some (True, s') \<Longrightarrow>
      room s \<le> room s' + length xs"
    and pop_spec: "inv s \<Longrightarrow> n \<le> length (content s) \<Longrightarrow> \<exists>s'. pop s n = Some (take n (content s), s') \<and>
      inv s' \<and> content s' = drop n (content s) \<and> room s' = room s"

text \<open>
  A history of a queue: blocks pushed and sizes asked for.  What is not there is not asked
  for.
\<close>

datatype queue_op = Push "byte list" | Pop nat

fun pushed :: "queue_op list \<Rightarrow> byte list" where
  "pushed [] = []"
| "pushed (Push xs # ops) = xs @ pushed ops"
| "pushed (Pop n # ops) = pushed ops"

fun run_queue :: "('s \<Rightarrow> byte list \<Rightarrow> (bool \<times> 's) option) \<Rightarrow> ('s \<Rightarrow> nat \<Rightarrow> (byte list \<times> 's) option) \<Rightarrow>
    ('s \<Rightarrow> byte list) \<Rightarrow> 's \<Rightarrow> queue_op list \<Rightarrow> (byte list \<times> 's) option" where
  "run_queue push pop content s [] = Some ([], s)"
| "run_queue push pop content s (Push xs # ops) = do {
     (ok, s) \<leftarrow> push s xs;
     if \<not> ok then None else run_queue push pop content s ops
   }"
| "run_queue push pop content s (Pop n # ops) = do {
     (ys, s) \<leftarrow> pop s (min n (length (content s)));
     (outs, s) \<leftarrow> run_queue push pop content s ops;
     Some (ys @ outs, s)
   }"

context byte_queue
begin

lemma push_room:
  assumes "inv s" "length xs \<le> room s"
  obtains s' where "push s xs = Some (True, s')" "inv s'" "content s' = content s @ xs"
    "room s \<le> room s' + length xs"
  using push_fits [OF assms(1), of xs] room_fits [OF assms] room_push [OF assms] by blast

text \<open>First in, first out, nothing lost: what was there and went in is what came out and is left.\<close>

lemma run_queue_fifo:
  assumes "inv s" "length (pushed ops) \<le> room s"
  shows "\<exists>outs s'. run_queue push pop content s ops = Some (outs, s') \<and> inv s' \<and>
    content s @ pushed ops = outs @ content s'"
  using assms
proof (induction ops arbitrary: s)
  case (Cons op ops)
  show ?case
  proof (cases op)
    case (Push xs)
    with Cons.prems have len: "length xs + length (pushed ops) \<le> room s" by simp
    obtain s1 where s1: "push s xs = Some (True, s1)" "inv s1" "content s1 = content s @ xs"
      "room s \<le> room s1 + length xs"
      using push_room [OF Cons.prems(1), of xs] len by auto
    from Cons.IH [of s1] s1(2,4) len obtain outs s' where
      "run_queue push pop content s1 ops = Some (outs, s')" "inv s'"
      "content s1 @ pushed ops = outs @ content s'" by auto
    with s1 Push show ?thesis by auto
  next
    case (Pop n)
    obtain s1 where s1: "pop s (min n (length (content s))) =
        Some (take (min n (length (content s))) (content s), s1)" "inv s1"
      "content s1 = drop (min n (length (content s))) (content s)" "room s1 = room s"
      using pop_spec [of s "min n (length (content s))"] Cons.prems by auto
    from Cons.IH [of s1] s1(2,4) Cons.prems Pop obtain outs s' where
      "run_queue push pop content s1 ops = Some (outs, s')" "inv s'"
      "content s1 @ pushed ops = outs @ content s'" by auto
    with s1 Pop show ?thesis by auto (metis append_assoc append_take_drop_id)
  qed
qed simp

end

end
