(* ===== verification/CmdPacket.thy ===== *)
theory CmdPacket
  imports ByteQueue
begin

text \<open>
  The command packet of \<open>TestPcNetwork/TestPcNetwork/g_cmdpacket.cpp\<close>: a byte block that a
  sender fills field by field and a receiver reads back, either from its own block or from
  memory of somebody else it is attached to.
\<close>

section \<open>Data\<close>

definition DEFAULT_CMD_PACKET_SIZE :: int where "DEFAULT_CMD_PACKET_SIZE = 1024"
definition MAX_CMD_PACKET_SIZE :: int where "MAX_CMD_PACKET_SIZE = 1024 * 16"

text \<open>
  Where \<open>m_pReadData\<close> points: nowhere (never set, or into a block since deleted), to the
  packet's own block, or to foreign memory, given by its bytes from that address on.
\<close>

datatype read_area = Unset | Own | Foreign "byte list"

record cmd_packet =
  m_pData :: "byte list option"
  m_pReadData :: read_area
  m_nLen :: int
  m_nReadOffset :: int
  m_nWriteOffset :: int
  m_nMaxSize :: int

definition read_block :: "cmd_packet \<Rightarrow> byte list option" where
  "read_block p = (case m_pReadData p of Unset \<Rightarrow> None | Own \<Rightarrow> m_pData p | Foreign b \<Rightarrow> Some b)"

definition set_read_block :: "byte list \<Rightarrow> cmd_packet \<Rightarrow> cmd_packet" where
  "set_read_block b p =
     (case m_pReadData p of
        Unset \<Rightarrow> p
      | Own \<Rightarrow> p\<lparr>m_pData := Some b\<rparr>
      | Foreign _ \<Rightarrow> p\<lparr>m_pReadData := Foreign b\<rparr>)"

section \<open>Operations\<close>

subsection \<open>The block\<close>

text \<open>
  \<open>new char[len]\<close> with a negative \<open>len\<close> throws, which nothing catches: \<open>None\<close>.  The old
  block is deleted, so a read pointer into it dangles.
\<close>

definition SetSize :: "cmd_packet \<Rightarrow> int \<Rightarrow> (nat \<Rightarrow> byte) \<Rightarrow> (bool \<times> cmd_packet) option" where
  "SetSize p len fresh =
     (if len > MAX_CMD_PACKET_SIZE then Some (False, p)
      else if len < 0 then None
      else Some (True, p\<lparr>m_pData := Some (new_bytes fresh (nat len)), m_nMaxSize := len,
             m_pReadData := (case m_pReadData p of Own \<Rightarrow> Unset | a \<Rightarrow> a)\<rparr>))"

definition CG_CmdPacket :: "(nat \<Rightarrow> byte) \<Rightarrow> cmd_packet option" where
  "CG_CmdPacket fresh = do {
     (ok, p) \<leftarrow> SetSize \<lparr>m_pData = None, m_pReadData = Unset, m_nLen = 0, m_nReadOffset = 0,
        m_nWriteOffset = 0, m_nMaxSize = 0\<rparr> DEFAULT_CMD_PACKET_SIZE fresh;
     Some p
   }"

definition GetData :: "cmd_packet \<Rightarrow> byte list option" where
  "GetData p = m_pData p"

definition GetDataSize :: "cmd_packet \<Rightarrow> int" where
  "GetDataSize p = m_nLen p"

definition GetMaxSize :: "cmd_packet \<Rightarrow> int" where
  "GetMaxSize p = m_nMaxSize p"

definition CopyData :: "cmd_packet \<Rightarrow> byte list option \<Rightarrow> int \<Rightarrow> (nat \<Rightarrow> byte) \<Rightarrow>
    (bool \<times> cmd_packet) option" where
  "CopyData p buf len fresh = do {
     (ok, p) \<leftarrow> SetSize p len fresh;
     if \<not> ok then Some (False, p)
     else do {
       src \<leftarrow> buf;
       xs \<leftarrow> fetch_int src 0 len;
       dst \<leftarrow> m_pData p;
       dst \<leftarrow> poke_int dst 0 xs;
       Some (True, p\<lparr>m_pData := Some dst, m_nLen := len\<rparr>)
     }
   }"

text \<open>The packet cloned is another object than the clone.\<close>

definition CloneFrom :: "cmd_packet \<Rightarrow> cmd_packet \<Rightarrow> (nat \<Rightarrow> byte) \<Rightarrow>
    (bool \<times> cmd_packet) option" where
  "CloneFrom p packet fresh = CopyData p (GetData packet) (GetDataSize packet) fresh"

subsection \<open>Writing\<close>

definition BeginWrite :: "cmd_packet \<Rightarrow> cmd_packet" where
  "BeginWrite p = p\<lparr>m_nLen := 0, m_nWriteOffset := 0\<rparr>"

definition WriteData :: "cmd_packet \<Rightarrow> byte list \<Rightarrow> int \<Rightarrow> (bool \<times> cmd_packet) option" where
  "WriteData p data len = do {
     sum \<leftarrow> int_add (m_nLen p) len;
     if sum > m_nMaxSize p then Some (False, p)
     else do {
       buf \<leftarrow> m_pData p;
       xs \<leftarrow> fetch_int data 0 len;
       buf \<leftarrow> poke_int buf (m_nWriteOffset p) xs;
       Some (True, p\<lparr>m_pData := Some buf, m_nLen := m_nLen p + len,
         m_nWriteOffset := m_nWriteOffset p + len\<rparr>)
     }
   }"

definition WriteByte :: "cmd_packet \<Rightarrow> byte \<Rightarrow> (bool \<times> cmd_packet) option" where
  "WriteByte p c = WriteData p [c] 1"

definition WriteShort :: "cmd_packet \<Rightarrow> c_short \<Rightarrow> (bool \<times> cmd_packet) option" where
  "WriteShort p s = WriteData p (enc16 s) 2"

definition WriteLong :: "cmd_packet \<Rightarrow> c_long \<Rightarrow> (bool \<times> cmd_packet) option" where
  "WriteLong p l = WriteData p (enc32 l) 4"

definition WriteFloat :: "cmd_packet \<Rightarrow> 32 word \<Rightarrow> (bool \<times> cmd_packet) option" where
  "WriteFloat p f = WriteData p (enc32 f) 4"

definition WriteBinary :: "cmd_packet \<Rightarrow> byte list \<Rightarrow> int \<Rightarrow> (bool \<times> cmd_packet) option" where
  "WriteBinary p data len = do {
     (ok, p) \<leftarrow> WriteShort p (word_of_int len);
     if \<not> ok then Some (False, p) else WriteData p data len
   }"

definition WriteString :: "cmd_packet \<Rightarrow> byte list \<Rightarrow> (bool \<times> cmd_packet) option" where
  "WriteString p str = do {
     n \<leftarrow> byte_strlen str;
     let len = (word_of_int (int n + 1) :: c_short);
     (ok, p) \<leftarrow> WriteShort p len;
     if \<not> ok then Some (False, p) else WriteData p str (sint len)
   }"

subsection \<open>Reading\<close>

definition BeginRead_at :: "cmd_packet \<Rightarrow> byte list \<Rightarrow> int \<Rightarrow> cmd_packet" where
  "BeginRead_at p block len = p\<lparr>m_pReadData := Foreign block, m_nLen := len, m_nReadOffset := 0\<rparr>"

definition BeginRead :: "cmd_packet \<Rightarrow> cmd_packet" where
  "BeginRead p = p\<lparr>m_pReadData := Own, m_nReadOffset := 0\<rparr>"

text \<open>The readers return the value read, or \<open>None\<close> inside where the code returns false.\<close>

definition ReadData :: "cmd_packet \<Rightarrow> int \<Rightarrow> (byte list option \<times> cmd_packet) option" where
  "ReadData p len =
     (if m_nReadOffset p + len > m_nLen p then Some (None, p)
      else do {
        block \<leftarrow> read_block p;
        xs \<leftarrow> fetch_int block (m_nReadOffset p) len;
        Some (Some xs, p\<lparr>m_nReadOffset := m_nReadOffset p + len\<rparr>)
      })"

definition ReadByte :: "cmd_packet \<Rightarrow> (byte option \<times> cmd_packet) option" where
  "ReadByte p = do { (r, p) \<leftarrow> ReadData p 1; Some (map_option (\<lambda>bs. bs ! 0) r, p) }"

definition ReadShort :: "cmd_packet \<Rightarrow> (c_short option \<times> cmd_packet) option" where
  "ReadShort p = do { (r, p) \<leftarrow> ReadData p 2; Some (map_option dec16 r, p) }"

definition ReadLong :: "cmd_packet \<Rightarrow> (c_long option \<times> cmd_packet) option" where
  "ReadLong p = do { (r, p) \<leftarrow> ReadData p 4; Some (map_option dec32 r, p) }"

definition ReadFloat :: "cmd_packet \<Rightarrow> (32 word option \<times> cmd_packet) option" where
  "ReadFloat p = do { (r, p) \<leftarrow> ReadData p 4; Some (map_option dec32 r, p) }"

text \<open>The two readers of blobs hand out a pointer into the block: the bytes seen there.\<close>

definition ReadBinary :: "cmd_packet \<Rightarrow> (byte list option \<times> cmd_packet) option" where
  "ReadBinary p = do {
     (r, p) \<leftarrow> ReadShort p;
     case r of
       None \<Rightarrow> Some (None, p)
     | Some w \<Rightarrow>
         (let dataLen = sint w in
          if dataLen \<le> 0 then Some (None, p)
          else if m_nReadOffset p + dataLen > m_nLen p then Some (None, p)
          else do {
            block \<leftarrow> read_block p;
            data \<leftarrow> fetch_int block (m_nReadOffset p) dataLen;
            Some (Some data, p\<lparr>m_nReadOffset := m_nReadOffset p + dataLen\<rparr>)
          })
   }"

definition ReadString :: "cmd_packet \<Rightarrow> (byte list option \<times> cmd_packet) option" where
  "ReadString p = do {
     (r, p) \<leftarrow> ReadShort p;
     case r of
       None \<Rightarrow> Some (None, p)
     | Some w \<Rightarrow>
         (let len = sint w in
          if len \<le> 0 then Some (None, p)
          else if m_nReadOffset p + len > m_nLen p then Some (None, p)
          else do {
            block \<leftarrow> read_block p;
            block \<leftarrow> poke_int block (m_nReadOffset p + len - 1) [0];
            str \<leftarrow> fetch_int block (m_nReadOffset p) len;
            Some (Some str, (set_read_block block p)\<lparr>m_nReadOffset := m_nReadOffset p + len\<rparr>)
          })
   }"

section \<open>The packet as a writer\<close>

text \<open>
  A packet that is being written: the block has the size on record, and the write offset is
  the length.  Its content is the part of the block before that offset.
\<close>

definition writer :: "cmd_packet \<Rightarrow> bool" where
  "writer p \<longleftrightarrow> (\<exists>buf n. m_pData p = Some buf \<and> m_nMaxSize p = int (length buf) \<and>
     m_nMaxSize p \<le> MAX_CMD_PACKET_SIZE \<and> m_nLen p = int n \<and> m_nWriteOffset p = int n \<and>
     n \<le> length buf)"

definition written :: "cmd_packet \<Rightarrow> byte list" where
  "written p = take (nat (m_nLen p)) (the (m_pData p))"

definition fits :: "cmd_packet \<Rightarrow> nat \<Rightarrow> bool" where
  "fits p n \<longleftrightarrow> m_nLen p + int n \<le> m_nMaxSize p"

definition push_data :: "cmd_packet \<Rightarrow> byte list \<Rightarrow> (bool \<times> cmd_packet) option" where
  "push_data p xs = WriteData p xs (int (length xs))"

lemma writerE:
  assumes "writer p"
  obtains buf n where "m_pData p = Some buf" "m_nMaxSize p = int (length buf)"
    "length buf \<le> 16384" "m_nLen p = int n" "m_nWriteOffset p = int n" "n \<le> length buf"
    "written p = take n buf"
proof -
  from assms obtain buf n where "m_pData p = Some buf" "m_nMaxSize p = int (length buf)"
    "m_nMaxSize p \<le> MAX_CMD_PACKET_SIZE" "m_nLen p = int n" "m_nWriteOffset p = int n"
    "n \<le> length buf"
    unfolding writer_def by blast
  then show ?thesis by (intro that [of buf n]) (simp_all add: MAX_CMD_PACKET_SIZE_def written_def)
qed

lemma length_written:
  "writer p \<Longrightarrow> int (length (written p)) = m_nLen p"
  by (erule writerE) simp

lemma constructor_writer:
  "\<exists>p. CG_CmdPacket fresh = Some p \<and> writer p \<and> written p = [] \<and> m_nMaxSize p = 1024"
  by (simp add: CG_CmdPacket_def SetSize_def writer_def written_def MAX_CMD_PACKET_SIZE_def
      DEFAULT_CMD_PACKET_SIZE_def)

lemma SetSize_BeginWrite:
  assumes "0 \<le> len" "len \<le> MAX_CMD_PACKET_SIZE"
  shows "\<exists>q. SetSize p len fresh = Some (True, q) \<and> writer (BeginWrite q) \<and>
    written (BeginWrite q) = [] \<and> m_nMaxSize q = len"
  using assms by (simp add: SetSize_def writer_def written_def BeginWrite_def)

lemma BeginWrite_writer:
  "writer p \<Longrightarrow> writer (BeginWrite p) \<and> written (BeginWrite p) = [] \<and>
     m_nMaxSize (BeginWrite p) = m_nMaxSize p"
  by (auto simp: writer_def written_def BeginWrite_def)

lemma WriteData_fits:
  assumes w: "writer p" and f: "fits p (length xs)"
  shows "\<exists>q. WriteData p (xs @ rest) (int (length xs)) = Some (True, q) \<and> writer q \<and>
    written q = written p @ xs \<and> m_nMaxSize q = m_nMaxSize p"
proof -
  from w obtain buf n where p: "m_pData p = Some buf" "m_nMaxSize p = int (length buf)"
    "length buf \<le> 16384" "m_nLen p = int n" "m_nWriteOffset p = int n" "n \<le> length buf"
    "written p = take n buf" by (rule writerE)
  with f have room: "n + length xs \<le> length buf" by (simp add: fits_def)
  then obtain buf' where buf': "poke buf n xs = Some buf'" "length buf' = length buf"
    "take (n + length xs) buf' = take n buf @ xs" by (rule poke_extends)
  have src: "fetch_int (xs @ rest) 0 (int (length xs)) = Some xs"
    using fetch_int_nat [of "xs @ rest" 0] by (simp add: fetch_def)
  have nat_sum: "nat (int n + int (length xs)) = n + length xs" by simp
  show ?thesis
    unfolding WriteData_def
    using p room buf' src
    by (auto simp: int_add_def poke_int_nat writer_def written_def nat_sum MAX_CMD_PACKET_SIZE_def
        intro!: exI [of _ "n + length xs"])
qed

lemma WriteData_full:
  assumes "writer p" "\<not> fits p n" "n < 2 ^ 30"
  shows "WriteData p data (int n) = Some (False, p)"
  using assms by (auto simp: WriteData_def fits_def int_add_def elim!: writerE)

text \<open>The packet is a sink of bytes.\<close>

interpretation packet: byte_sink small_block writer written fits push_data
proof unfold_locales
  fix p and xs :: "byte list" assume "writer p" "fits p (length xs)"
  then show "\<exists>p'. push_data p xs = Some (True, p') \<and> writer p' \<and> written p' = written p @ xs"
    using WriteData_fits [of p xs "[]"] by (auto simp: push_data_def)
next
  fix p and xs :: "byte list" assume "writer p" "small_block xs" "\<not> fits p (length xs)"
  then show "push_data p xs = Some (False, p)"
    by (auto simp: push_data_def small_block_def intro: WriteData_full)
qed

section \<open>The packet as a reader\<close>

definition reader :: "cmd_packet \<Rightarrow> bool" where
  "reader p \<longleftrightarrow> (\<exists>block n i. read_block p = Some block \<and> m_nLen p = int n \<and>
     m_nReadOffset p = int i \<and> i \<le> n \<and> n \<le> length block \<and> n < 2 ^ 30)"

definition unread :: "cmd_packet \<Rightarrow> byte list" where
  "unread p = drop (nat (m_nReadOffset p)) (take (nat (m_nLen p)) (the (read_block p)))"

lemma readerE:
  assumes "reader p"
  obtains block n i where "read_block p = Some block" "m_nLen p = int n" "m_nReadOffset p = int i"
    "i \<le> n" "n \<le> length block" "n < 2 ^ 30" "unread p = drop i (take n block)"
  using assms unfolding reader_def unread_def by force

lemma readerI:
  assumes "read_block p = Some block" "m_nLen p = int n" "m_nReadOffset p = int i"
    "i \<le> n" "n \<le> length block" "n < 2 ^ 30"
  shows "reader p \<and> unread p = drop i (take n block)"
  using assms unfolding reader_def unread_def by auto

lemma read_block_offset [simp]: "read_block (p\<lparr>m_nReadOffset := i\<rparr>) = read_block p"
  by (simp add: read_block_def split: read_area.split)

lemma BeginRead_reader:
  assumes "writer p"
  shows "reader (BeginRead p) \<and> unread (BeginRead p) = written p"
  using assms
proof (rule writerE)
  fix buf n
  assume *: "m_pData p = Some buf" "length buf \<le> 16384" "m_nLen p = int n" "n \<le> length buf"
    "written p = take n buf"
  then show ?thesis
    using readerI [of "BeginRead p" buf n 0] by (simp add: BeginRead_def read_block_def)
qed

lemma BeginRead_at_reader:
  assumes "n \<le> length block" "n < 2 ^ 30"
  shows "reader (BeginRead_at p block (int n)) \<and> unread (BeginRead_at p block (int n)) = take n block"
  using assms readerI [of "BeginRead_at p block (int n)" block n 0]
  by (simp add: BeginRead_at_def read_block_def)

lemma ReadData_spec:
  assumes "reader p"
  shows "\<exists>q. ReadData p (int k) =
      Some (if k \<le> length (unread p) then Some (take k (unread p)) else None, q) \<and> reader q \<and>
    unread q = (if k \<le> length (unread p) then drop k (unread p) else unread p)"
  using assms
proof (rule readerE)
  fix block n i
  assume p: "read_block p = Some block" "m_nLen p = int n" "m_nReadOffset p = int i"
    "i \<le> n" "n \<le> length block" "n < 2 ^ 30" "unread p = drop i (take n block)"
  then have len: "length (unread p) = n - i" by simp
  show ?thesis
  proof (cases "k \<le> n - i")
    case True
    with p have "i + k \<le> n" by simp
    moreover from this p have "fetch_int block (int i) (int k) = Some (take k (drop i (take n block)))"
      by (simp add: fetch_int_nat fetch_def take_drop take_take min_def) 
    moreover from p \<open>i + k \<le> n\<close>
    have "reader (p\<lparr>m_nReadOffset := int (i + k)\<rparr>) \<and>
        unread (p\<lparr>m_nReadOffset := int (i + k)\<rparr>) = drop (i + k) (take n block)"
      by (intro readerI) auto
    ultimately show ?thesis using True p len
      by (simp add: ReadData_def drop_drop add.commute)
  next
    case False
    then show ?thesis using p len assms by (auto simp: ReadData_def)
  qed
qed

lemma ReadData_some:
  assumes "reader p" "unread p = xs @ ys" "length xs = k"
  obtains q where "ReadData p (int k) = Some (Some xs, q)" "reader q" "unread q = ys"
  using ReadData_spec [OF assms(1), of k] assms(2,3) that by auto

section \<open>Fields\<close>

text \<open>What a client writes and reads: one constructor per pair of operations.\<close>

datatype field = FByte byte | FShort c_short | FLong c_long | FFloat "32 word"
  | FBinary "byte list" | FString "byte list"

datatype field_kind = KByte | KShort | KLong | KFloat | KBinary | KString

fun kind_of :: "field \<Rightarrow> field_kind" where
  "kind_of (FByte _) = KByte"
| "kind_of (FShort _) = KShort"
| "kind_of (FLong _) = KLong"
| "kind_of (FFloat _) = KFloat"
| "kind_of (FBinary _) = KBinary"
| "kind_of (FString _) = KString"

fun write_field :: "cmd_packet \<Rightarrow> field \<Rightarrow> (bool \<times> cmd_packet) option" where
  "write_field p (FByte c) = WriteByte p c"
| "write_field p (FShort s) = WriteShort p s"
| "write_field p (FLong l) = WriteLong p l"
| "write_field p (FFloat f) = WriteFloat p f"
| "write_field p (FBinary bs) = WriteBinary p bs (int (length bs))"
| "write_field p (FString bs) = WriteString p (bs @ [0])"

fun read_field :: "cmd_packet \<Rightarrow> field_kind \<Rightarrow> (field option \<times> cmd_packet) option" where
  "read_field p KByte = map_option (map_prod (map_option FByte) id) (ReadByte p)"
| "read_field p KShort = map_option (map_prod (map_option FShort) id) (ReadShort p)"
| "read_field p KLong = map_option (map_prod (map_option FLong) id) (ReadLong p)"
| "read_field p KFloat = map_option (map_prod (map_option FFloat) id) (ReadFloat p)"
| "read_field p KBinary = map_option (map_prod (map_option FBinary) id) (ReadBinary p)"
| "read_field p KString =
     map_option (map_prod (map_option (\<lambda>bs. FString (butlast bs))) id) (ReadString p)"

text \<open>The layout of a field, and the fields that have one.\<close>

definition len16 :: "nat \<Rightarrow> c_short" where
  "len16 n = word_of_int (int n)"

fun enc_field :: "field \<Rightarrow> byte list" where
  "enc_field (FByte c) = [c]"
| "enc_field (FShort s) = enc16 s"
| "enc_field (FLong l) = enc32 l"
| "enc_field (FFloat f) = enc32 f"
| "enc_field (FBinary bs) = enc16 (len16 (length bs)) @ bs"
| "enc_field (FString bs) = enc16 (len16 (Suc (length bs))) @ bs @ [0]"

fun valid_field :: "field \<Rightarrow> bool" where
  "valid_field (FBinary bs) \<longleftrightarrow> bs \<noteq> [] \<and> length bs < 32768"
| "valid_field (FString bs) \<longleftrightarrow> 0 \<notin> set bs \<and> length bs < 32767"
| "valid_field _ \<longleftrightarrow> True"

lemma sint_len16: "n < 32768 \<Longrightarrow> sint (len16 n) = int n"
  by (simp add: len16_def signed_of_nat signed_take_bit_int_eq_self)

lemma len16_int: "word_of_int (int n) = len16 n" "word_of_int (int n + 1) = len16 (Suc n)"
  by (simp_all add: len16_def add.commute)

lemma write_number:
  assumes "writer p" "fits p (length xs)"
  shows "\<exists>q. WriteData p xs (int (length xs)) = Some (True, q) \<and> writer q \<and>
    written q = written p @ xs \<and> m_nMaxSize q = m_nMaxSize p"
  using WriteData_fits [of p xs "[]"] assms by simp

lemma fits_after:
  assumes "writer p" "writer q" "written q = written p @ xs" "m_nMaxSize q = m_nMaxSize p"
  shows "fits q n \<longleftrightarrow> fits p (length xs + n)"
proof -
  have "m_nLen q = m_nLen p + int (length xs)"
    using length_written [of q] length_written [of p] assms by simp
  then show ?thesis using assms(4) by (simp add: fits_def add.assoc)
qed

lemma WriteShort_fits:
  assumes "writer p" "fits p (2 + n)"
  obtains q where "WriteShort p w = Some (True, q)" "writer q" "written q = written p @ enc16 w"
    "m_nMaxSize q = m_nMaxSize p" "fits q n"
proof -
  from assms(2) have "fits p (length (enc16 w))" by (simp add: fits_def)
  from write_number [OF assms(1) this] obtain q where q: "WriteShort p w = Some (True, q)"
    "writer q" "written q = written p @ enc16 w" "m_nMaxSize q = m_nMaxSize p"
    by (auto simp: WriteShort_def)
  moreover have "fits q n"
    using fits_after [OF assms(1) q(2,3,4), of n] assms(2) by simp
  ultimately show ?thesis by (rule that)
qed

lemma byte_strlen_terminated: "0 \<notin> set bs \<Longrightarrow> byte_strlen (bs @ 0 # rest) = Some (length bs)"
  by (auto simp: byte_strlen_def takeWhile_append)

lemma WriteBinary_fits:
  assumes "writer p" "fits p (2 + length bs)"
  shows "\<exists>q. WriteBinary p bs (int (length bs)) = Some (True, q) \<and> writer q \<and>
    written q = written p @ enc16 (len16 (length bs)) @ bs \<and> m_nMaxSize q = m_nMaxSize p"
proof -
  obtain q where "WriteShort p (len16 (length bs)) = Some (True, q)" "writer q"
    "written q = written p @ enc16 (len16 (length bs))" "m_nMaxSize q = m_nMaxSize p"
    "fits q (length bs)"
    using assms by (rule WriteShort_fits)
  then show ?thesis
    using write_number [of q bs] by (auto simp: WriteBinary_def len16_int simp del: of_int_of_nat_eq)
qed

lemma WriteString_fits:
  assumes "writer p" "0 \<notin> set bs" "length bs < 32767" "fits p (3 + length bs)"
  shows "\<exists>q. WriteString p (bs @ [0]) = Some (True, q) \<and> writer q \<and>
    written q = written p @ enc16 (len16 (Suc (length bs))) @ bs @ [0] \<and>
    m_nMaxSize q = m_nMaxSize p"
proof -
  from assms(4) have "fits p (2 + length (bs @ [0]))" by (simp add: fits_def)
  with assms(1) obtain q where "WriteShort p (len16 (Suc (length bs))) = Some (True, q)" "writer q"
    "written q = written p @ enc16 (len16 (Suc (length bs)))" "m_nMaxSize q = m_nMaxSize p"
    "fits q (length (bs @ [0]))"
    by (rule WriteShort_fits)
  then show ?thesis
    using write_number [of q "bs @ [0]"] assms(2,3)
    by (auto simp: WriteString_def byte_strlen_terminated sint_len16 len16_int
        simp del: of_int_of_nat_eq of_int_add)
qed

lemma write_field_fits:
  assumes "writer p" "valid_field f" "fits p (length (enc_field f))"
  shows "\<exists>q. write_field p f = Some (True, q) \<and> writer q \<and>
    written q = written p @ enc_field f \<and> m_nMaxSize q = m_nMaxSize p"
proof (cases f)
  case (FBinary bs)
  then show ?thesis using WriteBinary_fits [of p bs] assms by simp
next
  case (FString bs)
  then show ?thesis using WriteString_fits [of p bs] assms by (simp add: numeral_3_eq_3)
qed (use assms write_number [of p "enc_field f"] in
    \<open>auto simp: WriteByte_def WriteShort_def WriteLong_def WriteFloat_def\<close>)

text \<open>A run of writes stops at the first refusal, like the client's chain of tests.\<close>

fun write_fields :: "cmd_packet \<Rightarrow> field list \<Rightarrow> (bool \<times> cmd_packet) option" where
  "write_fields p [] = Some (True, p)"
| "write_fields p (f # fs) = do {
     (ok, p) \<leftarrow> write_field p f;
     if ok then write_fields p fs else Some (False, p)
   }"

fun read_fields :: "cmd_packet \<Rightarrow> field_kind list \<Rightarrow> (field list option \<times> cmd_packet) option" where
  "read_fields p [] = Some (Some [], p)"
| "read_fields p (k # ks) = do {
     (r, p) \<leftarrow> read_field p k;
     case r of
       None \<Rightarrow> Some (None, p)
     | Some f \<Rightarrow> do {
         (r, p) \<leftarrow> read_fields p ks;
         Some (map_option (\<lambda>fs. f # fs) r, p)
       }
   }"

lemma write_fields_fit:
  assumes "writer p" "\<forall>f \<in> set fs. valid_field f" "fits p (length (concat (map enc_field fs)))"
  shows "\<exists>q. write_fields p fs = Some (True, q) \<and> writer q \<and>
    written q = written p @ concat (map enc_field fs)"
  using assms
proof (induction fs arbitrary: p)
  case (Cons f fs)
  from Cons.prems(3) have "fits p (length (enc_field f))" by (simp add: fits_def)
  with Cons.prems obtain q where q: "write_field p f = Some (True, q)" "writer q"
    "written q = written p @ enc_field f" "m_nMaxSize q = m_nMaxSize p"
    using write_field_fits [of p f] by auto
  have "fits q (length (concat (map enc_field fs)))"
    using fits_after [OF Cons.prems(1) q(2,3,4)] Cons.prems(3) by simp
  with Cons.IH [of q] q Cons.prems(2) show ?case by auto
qed simp

text \<open>Reading one value off the front of what is unread.\<close>

lemma ReadShort_some:
  assumes "reader p" "unread p = enc16 w @ ys"
  obtains q where "ReadShort p = Some (Some w, q)" "reader q" "unread q = ys"
    "read_block q = read_block p"
proof -
  from assms obtain q where "ReadData p (int 2) = Some (Some (enc16 w), q)" "reader q" "unread q = ys"
    by (rule ReadData_some) simp
  moreover from this(1) have "read_block q = read_block p"
    by (auto simp: ReadData_def split: if_splits Option.bind_splits)
  ultimately show ?thesis by (intro that [of q]) (simp_all add: ReadShort_def)
qed

text \<open>The bytes at the read offset are the first of what is unread.\<close>

lemma reader_fetch:
  assumes "reader p" "k \<le> length (unread p)"
  obtains block i where "read_block p = Some block" "m_nReadOffset p = int i"
    "m_nReadOffset p + int k \<le> m_nLen p" "i + k \<le> length block"
    "fetch block i k = Some (take k (unread p))"
    "reader (p\<lparr>m_nReadOffset := int (i + k)\<rparr>)"
    "unread (p\<lparr>m_nReadOffset := int (i + k)\<rparr>) = drop k (unread p)"
  using assms(1)
proof (rule readerE)
  fix block n i
  assume p: "read_block p = Some block" "m_nLen p = int n" "m_nReadOffset p = int i"
    "i \<le> n" "n \<le> length block" "n < 2 ^ 30" "unread p = drop i (take n block)"
  with assms(2) have "i + k \<le> n" by simp
  with p have f: "fetch block i k = Some (take k (unread p))"
    by (simp add: fetch_def take_drop min_def)
  from p \<open>i + k \<le> n\<close> have r: "reader (p\<lparr>m_nReadOffset := int (i + k)\<rparr>) \<and>
      unread (p\<lparr>m_nReadOffset := int (i + k)\<rparr>) = drop (i + k) (take n block)"
    by (intro readerI) auto
  from p \<open>i + k \<le> n\<close> show ?thesis
    by (intro that [of block i] f conjunct1 [OF r])
      (simp_all add: conjunct2 [OF r] drop_drop add.commute [of k] del: of_nat_add)
qed

lemma reader_full:
  "reader p \<Longrightarrow> m_nReadOffset p + int k > m_nLen p \<longleftrightarrow> k > length (unread p)"
  by (erule readerE) auto

lemma ReadBinary_some:
  assumes "reader p" "unread p = enc16 (len16 (length bs)) @ bs @ ys" "bs \<noteq> []" "length bs < 32768"
  shows "\<exists>q. ReadBinary p = Some (Some bs, q) \<and> reader q \<and> unread q = ys"
proof -
  from assms(1,2) obtain q where q: "ReadShort p = Some (Some (len16 (length bs)), q)" "reader q"
    "unread q = bs @ ys" by (rule ReadShort_some)
  then have "length bs \<le> length (unread q)" by simp
  with q(2) obtain block i where "read_block q = Some block" "m_nReadOffset q = int i"
    "m_nReadOffset q + int (length bs) \<le> m_nLen q" "i + length bs \<le> length block"
    "fetch block i (length bs) = Some (take (length bs) (unread q))"
    "reader (q\<lparr>m_nReadOffset := int (i + length bs)\<rparr>)"
    "unread (q\<lparr>m_nReadOffset := int (i + length bs)\<rparr>) = drop (length bs) (unread q)"
    by (rule reader_fetch)
  with q assms(3,4) show ?thesis
    by (simp add: ReadBinary_def sint_len16 fetch_int_nat)
qed

text \<open>Terminating the string at the read offset touches only the bytes it hands out.\<close>

lemma read_block_set [simp]:
  "read_block p \<noteq> None \<Longrightarrow> read_block (set_read_block b p) = Some b"
  by (simp add: set_read_block_def read_block_def split: read_area.splits)

lemma set_read_block_fields [simp]:
  "m_nLen (set_read_block b p) = m_nLen p"
  "m_nReadOffset (set_read_block b p) = m_nReadOffset p"
  by (simp_all add: set_read_block_def split: read_area.splits)

lemma reader_terminate:
  assumes "reader p" "0 < k" "k \<le> length (unread p)"
  obtains block block' i where "read_block p = Some block" "m_nReadOffset p = int i"
    "poke_int block (m_nReadOffset p + int k - 1) [0] = Some block'"
    "fetch block' i k = Some (take (k - 1) (unread p) @ [0])"
    "reader ((set_read_block block' p)\<lparr>m_nReadOffset := int i + int k\<rparr>)"
    "unread ((set_read_block block' p)\<lparr>m_nReadOffset := int i + int k\<rparr>) = drop k (unread p)"
  using assms(1)
proof (rule readerE)
  fix block n i
  assume p: "read_block p = Some block" "m_nLen p = int n" "m_nReadOffset p = int i"
    "i \<le> n" "n \<le> length block" "n < 2 ^ 30" "unread p = drop i (take n block)"
  with assms(3) have ik: "i + k \<le> n" by simp
  define block' where "block' = take (i + k - 1) block @ [0] @ drop (i + k) block"
  have index: "int i + int k - 1 = int (i + k - 1)" using assms(2) by simp
  from assms(2) ik p have b': "poke_int block (int i + int k - 1) [0] = Some block'"
    unfolding index poke_int_nat by (simp add: poke_def block'_def)
  have len': "length block' = length block"
    using assms(2) ik p by (simp add: block'_def)
  have f: "fetch block' i k = Some (take (k - 1) (unread p) @ [0])"
    using assms(2) ik p len' by (auto simp: fetch_def block'_def take_drop min_def add.commute [of k])
  have rest: "drop (i + k) (take n block') = drop (i + k) (take n block)"
    using assms(2) ik p by (simp add: block'_def take_drop [symmetric] drop_take)
  have "reader ((set_read_block block' p)\<lparr>m_nReadOffset := int i + int k\<rparr>) \<and>
      unread ((set_read_block block' p)\<lparr>m_nReadOffset := int i + int k\<rparr>) =
        drop (i + k) (take n block')"
    using p ik len' by (intro readerI) auto
  with p b' f show ?thesis
    by (intro that [of block i block']) (simp_all add: rest drop_drop add.commute [of k])
qed

lemma ReadString_some:
  assumes "reader p" "unread p = enc16 (len16 (Suc (length bs))) @ bs @ [0] @ ys"
    "length bs < 32767"
  shows "\<exists>q. ReadString p = Some (Some (bs @ [0]), q) \<and> reader q \<and> unread q = ys"
proof -
  let ?k = "Suc (length bs)"
  from assms(1,2) obtain q where q: "ReadShort p = Some (Some (len16 ?k), q)" "reader q"
    "unread q = bs @ [0] @ ys" by (rule ReadShort_some)
  then have k: "0 < ?k" "?k \<le> length (unread q)" by simp_all
  with q(2) obtain block block' i where "read_block q = Some block" "m_nReadOffset q = int i"
    "poke_int block (m_nReadOffset q + int ?k - 1) [0] = Some block'"
    "fetch block' i ?k = Some (take (?k - 1) (unread q) @ [0])"
    "reader ((set_read_block block' q)\<lparr>m_nReadOffset := int i + int ?k\<rparr>)"
    "unread ((set_read_block block' q)\<lparr>m_nReadOffset := int i + int ?k\<rparr>) = drop ?k (unread q)"
    by (rule reader_terminate)
  moreover from reader_full [OF q(2), of ?k] k(2)
  have "\<not> m_nReadOffset q + int ?k > m_nLen q" by simp
  ultimately show ?thesis using q assms(3)
    by (simp add: ReadString_def sint_len16 fetch_int_nat del: of_nat_Suc)
qed

lemma read_field_some:
  assumes "reader p" "valid_field f" "unread p = enc_field f @ ys"
  shows "\<exists>q. read_field p (kind_of f) = Some (Some f, q) \<and> reader q \<and> unread q = ys"
proof (cases f)
  case (FByte c)
  with assms obtain q where "ReadData p (int 1) = Some (Some [c], q)" "reader q" "unread q = ys"
    by (auto intro: ReadData_some [of p "[c]" ys 1])
  then show ?thesis using FByte by (simp add: ReadByte_def)
next
  case (FShort w)
  with assms show ?thesis by (auto intro: ReadShort_some [of p w ys])
next
  case (FLong l)
  with assms obtain q where "ReadData p (int 4) = Some (Some (enc32 l), q)" "reader q" "unread q = ys"
    by (auto intro: ReadData_some [of p "enc32 l" ys 4])
  then show ?thesis using FLong by (simp add: ReadLong_def)
next
  case (FFloat l)
  with assms obtain q where "ReadData p (int 4) = Some (Some (enc32 l), q)" "reader q" "unread q = ys"
    by (auto intro: ReadData_some [of p "enc32 l" ys 4])
  then show ?thesis using FFloat by (simp add: ReadFloat_def)
next
  case (FBinary bs)
  with assms ReadBinary_some [of p bs ys] show ?thesis by auto
next
  case (FString bs)
  with assms ReadString_some [of p bs ys] show ?thesis by auto
qed

lemma read_fields_some:
  assumes "reader p" "\<forall>f \<in> set fs. valid_field f" "unread p = concat (map enc_field fs) @ ys"
  shows "\<exists>q. read_fields p (map kind_of fs) = Some (Some fs, q) \<and> reader q \<and> unread q = ys"
  using assms
proof (induction fs arbitrary: p)
  case (Cons f fs)
  then obtain q where "read_field p (kind_of f) = Some (Some f, q)" "reader q"
    "unread q = concat (map enc_field fs) @ ys"
    using read_field_some [of p f "concat (map enc_field fs) @ ys"] by auto
  with Cons.IH [of q] Cons.prems show ?case by auto
qed simp

section \<open>Reading what the network sent\<close>

text \<open>
  Whatever the bytes, a reader stays inside the memory it was given, and what it has read and
  what is left make up what there was.
\<close>

lemma ReadShort_cases:
  assumes "reader p"
  obtains (short) q where "ReadShort p = Some (None, q)" "reader q"
  | (ok) q w where "ReadShort p = Some (Some w, q)" "reader q" "2 \<le> length (unread p)"
      "unread q = drop 2 (unread p)"
  using ReadData_spec [OF assms, of 2]
  by (cases "2 \<le> length (unread p)") (auto simp: ReadShort_def)

lemma ReadBinary_safe:
  assumes "reader p"
  shows "\<exists>r q. ReadBinary p = Some (r, q) \<and> reader q \<and>
    (\<forall>bs. r = Some bs \<longrightarrow> bs \<noteq> [] \<and> unread p = take 2 (unread p) @ bs @ unread q)"
  using assms
proof (cases rule: ReadShort_cases)
  case (short q)
  then show ?thesis by (simp add: ReadBinary_def)
next
  case (ok q w)
  define k where "k = nat (sint w)"
  show ?thesis
  proof (cases "0 < sint w \<and> k \<le> length (unread q)")
    case True
    then have w: "sint w = int k" "0 < k" by (simp_all add: k_def)
    from True have "k \<le> length (unread q)" by simp
    with ok(2) obtain block i where b: "read_block q = Some block" "m_nReadOffset q = int i"
      "m_nReadOffset q + int k \<le> m_nLen q" "i + k \<le> length block"
      "fetch block i k = Some (take k (unread q))"
      "reader (q\<lparr>m_nReadOffset := int (i + k)\<rparr>)"
      "unread (q\<lparr>m_nReadOffset := int (i + k)\<rparr>) = drop k (unread q)"
      by (rule reader_fetch)
    have split: "unread p = take 2 (unread p) @ take k (unread q) @ drop k (unread q)"
      by (simp only: ok(4) append_take_drop_id)
    from True w(2) have "take k (unread q) \<noteq> []" by auto
    with b ok(1) w split show ?thesis
      by (simp add: ReadBinary_def fetch_int_nat)
  next
    case False
    with reader_full [OF ok(2), of k]
    have "sint w \<le> 0 \<or> m_nReadOffset q + sint w > m_nLen q"
      by (cases "0 < sint w") (auto simp: k_def)
    with ok(1) have "ReadBinary p = Some (None, q)"
      by (auto simp: ReadBinary_def Let_def)
    with ok(2) show ?thesis by simp
  qed
qed

lemma ReadString_safe:
  assumes "reader p"
  shows "\<exists>r q. ReadString p = Some (r, q) \<and> reader q \<and>
    (\<forall>bs. r = Some bs \<longrightarrow> bs \<noteq> [] \<and> last bs = 0 \<and>
       length (unread p) = 2 + length bs + length (unread q) \<and>
       (\<exists>b. unread p = take 2 (unread p) @ butlast bs @ [b] @ unread q))"
  using assms
proof (cases rule: ReadShort_cases)
  case (short q)
  then show ?thesis by (simp add: ReadString_def)
next
  case (ok q w)
  define k where "k = nat (sint w)"
  show ?thesis
  proof (cases "0 < sint w \<and> k \<le> length (unread q)")
    case True
    then have w: "sint w = int k" "0 < k" by (simp_all add: k_def)
    from True have k: "k \<le> length (unread q)" by simp
    with ok(2) w(2) obtain block block' i where b: "read_block q = Some block" "m_nReadOffset q = int i"
      "poke_int block (m_nReadOffset q + int k - 1) [0] = Some block'"
      "fetch block' i k = Some (take (k - 1) (unread q) @ [0])"
      "reader ((set_read_block block' q)\<lparr>m_nReadOffset := int i + int k\<rparr>)"
      "unread ((set_read_block block' q)\<lparr>m_nReadOffset := int i + int k\<rparr>) = drop k (unread q)"
      by (rule reader_terminate)
    from reader_full [OF ok(2), of k] k have "\<not> m_nReadOffset q + int k > m_nLen q" by simp
    with b ok(1) w have run: "ReadString p = Some (Some (take (k - 1) (unread q) @ [0]),
        (set_read_block block' q)\<lparr>m_nReadOffset := int i + int k\<rparr>)"
      by (simp add: ReadString_def fetch_int_nat)
    have "unread q = take (k - 1) (unread q) @ [unread q ! (k - 1)] @ drop k (unread q)"
      using id_take_nth_drop [of "k - 1" "unread q"] w(2) k by simp
    then have split: "unread p = take 2 (unread p) @ take (k - 1) (unread q) @
        [unread q ! (k - 1)] @ drop k (unread q)"
      by (metis append_take_drop_id ok(4))
    show ?thesis
    proof (intro exI conjI allI impI)
      show "ReadString p = Some (Some (take (k - 1) (unread q) @ [0]),
        (set_read_block block' q)\<lparr>m_nReadOffset := int i + int k\<rparr>)" by (rule run)
      show "unread p = take 2 (unread p) @ butlast bs @ [unread q ! (k - 1)] @
          unread ((set_read_block block' q)\<lparr>m_nReadOffset := int i + int k\<rparr>)"
        if "Some (take (k - 1) (unread q) @ [0]) = Some bs" for bs
        using that split b(6) by auto
    qed (use b k w ok(3,4) in auto)
  next
    case False
    with reader_full [OF ok(2), of k]
    have "sint w \<le> 0 \<or> m_nReadOffset q + sint w > m_nLen q"
      by (cases "0 < sint w") (auto simp: k_def)
    with ok(1) have "ReadString p = Some (None, q)"
      by (auto simp: ReadString_def Let_def)
    with ok(2) show ?thesis by simp
  qed
qed

lemma read_field_safe:
  assumes "reader p"
  shows "\<exists>r q. read_field p k = Some (r, q) \<and> reader q"
proof (cases k)
  case KBinary
  then show ?thesis using ReadBinary_safe [OF assms] by auto
next
  case KString
  then show ?thesis using ReadString_safe [OF assms] by auto
qed (use ReadData_spec [OF assms, of 1] ReadData_spec [OF assms, of 2] ReadData_spec [OF assms, of 4]
     in \<open>auto simp: ReadByte_def ReadShort_def ReadLong_def ReadFloat_def\<close>)

lemma read_fields_safe:
  assumes "reader p"
  shows "\<exists>r q. read_fields p ks = Some (r, q) \<and> reader q"
  using assms
proof (induction ks arbitrary: p)
  case (Cons k ks)
  obtain r q where "read_field p k = Some (r, q)" "reader q"
    using read_field_safe [OF Cons.prems] by blast
  with Cons.IH [of q] show ?case by (cases r) auto
qed simp

section \<open>What goes wrong\<close>

text \<open>A blob that does not fit is refused, but its length has been written.\<close>

lemma WriteBinary_partial:
  assumes "writer p" "fits p 2" "\<not> fits p (2 + length bs)" "length bs < 2 ^ 30"
  shows "\<exists>q. WriteBinary p bs (int (length bs)) = Some (False, q) \<and> writer q \<and>
    written q = written p @ enc16 (len16 (length bs))"
proof -
  from assms(1,2) obtain q where q: "WriteShort p (len16 (length bs)) = Some (True, q)" "writer q"
    "written q = written p @ enc16 (len16 (length bs))" "m_nMaxSize q = m_nMaxSize p"
    using WriteShort_fits [of p 0 "len16 (length bs)" thesis] by auto
  then have "\<not> fits q (length bs)"
    using fits_after [OF assms(1) q(2,3,4), of "length bs"] assms(3) by simp
  from WriteData_full [OF q(2) this assms(4)] q show ?thesis
    by (simp add: WriteBinary_def len16_int del: of_int_of_nat_eq)
qed

text \<open>
  An empty blob is written, as a length of 0, and \<open>ReadBinary\<close> refuses it: the writer is told
  that all is well, and the reader cannot get past it.
\<close>

lemma empty_blob_lost:
  assumes "writer p" "fits p 2"
  shows "\<exists>q. WriteBinary p [] 0 = Some (True, q) \<and> writer q \<and> written q = written p @ enc16 0"
    and "reader r \<Longrightarrow> unread r = enc16 0 @ ys \<Longrightarrow> \<exists>r'. ReadBinary r = Some (None, r')"
proof -
  from assms obtain q where q: "WriteShort p 0 = Some (True, q)" "writer q" "written q = written p @ enc16 0" "fits q 0"
    using WriteShort_fits [of p 0 0 thesis] by auto
  then show "\<exists>q. WriteBinary p [] 0 = Some (True, q) \<and> writer q \<and> written q = written p @ enc16 0"
    using WriteData_fits [of q "[]" "[]"] by (auto simp: WriteBinary_def)
  assume r: "reader r" "unread r = enc16 0 @ ys"
  then obtain r' where "ReadShort r = Some (Some 0, r')"
    using ReadData_spec [OF r(1), of 2] by (auto simp: ReadShort_def)
  then show "\<exists>r'. ReadBinary r = Some (None, r')" by (simp add: ReadBinary_def)
qed

text \<open>
  The length of a string is computed in a \<open>short\<close>: a string of 32767 to 65534 characters
  has a negative one, which passes the test for room and reaches \<open>memcpy\<close>.
\<close>

lemma WriteString_overruns:
  assumes "writer p" "fits p 2" "0 \<notin> set bs" "length bs = 32767"
  shows "WriteString p (bs @ [0]) = None"
proof -
  from assms(1,2) obtain q where q: "WriteShort p (len16 32768) = Some (True, q)" "writer q"
    "m_nMaxSize q = m_nMaxSize p"
    using WriteShort_fits [of p 0 "len16 32768" thesis] by auto
  have s: "sint (len16 32768) = - 32768" by (simp add: len16_def)
  from q(2) have "WriteData q (bs @ [0]) (- 32768) = None"
    by (auto simp: WriteData_def int_add_def fetch_int_def elim!: writerE)
  with q s show ?thesis
    using len16_int(2) [of 32767] assms(3,4)
    by (simp add: WriteString_def byte_strlen_terminated)
qed

text \<open>
  \<open>BeginRead(p, len)\<close> sets the length and not the write offset: a packet written, attached
  and written again stores where its first content ended.
\<close>

lemma attach_then_write_overruns:
  assumes "writer p" "fits (BeginWrite p) (length xs)" "\<not> fits p (length xs)"
  shows "push_data (BeginRead_at p block 0) xs = None"
  using assms by (auto simp: push_data_def WriteData_def BeginRead_at_def fits_def BeginWrite_def
      int_add_def fetch_int_def fetch_def poke_int_def poke_def elim!: writerE)

section \<open>Cloning\<close>

lemma CloneFrom_copies:
  assumes "writer q"
  shows "\<exists>p'. CloneFrom p q fresh = Some (True, p') \<and> GetData p' = Some (written q) \<and>
    GetDataSize p' = GetDataSize q \<and> GetMaxSize p' = GetDataSize q \<and>
    reader (BeginRead p') \<and> unread (BeginRead p') = written q"
  using assms
proof (rule writerE)
  fix buf n
  assume q: "m_pData q = Some buf" "length buf \<le> 16384" "m_nLen q = int n" "n \<le> length buf"
    "written q = take n buf"
  obtain p' where p': "CloneFrom p q fresh = Some (True, p')" "m_pData p' = Some (take n buf)"
    "m_nLen p' = int n" "m_nMaxSize p' = int n"
    using q by (auto simp: CloneFrom_def CopyData_def SetSize_def GetData_def GetDataSize_def
        MAX_CMD_PACKET_SIZE_def fetch_int_def fetch_def poke_int_def poke_def)
  moreover from this q have "reader (BeginRead p') \<and> unread (BeginRead p') = drop 0 (take n (take n buf))"
    by (intro readerI) (auto simp: BeginRead_def read_block_def)
  ultimately show ?thesis using q by (simp add: GetData_def GetDataSize_def GetMaxSize_def)
qed

end
