(* ===== verification/NetPacket.thy ===== *)
theory NetPacket
  imports CmdPacket
begin

text \<open>
  The frame of \<open>TestPcNetwork/TestPcNetwork/g_netpacket.cpp\<close>: five bytes of header (flags,
  sequence number, size of the data) and the data of one command packet, with the stream
  cipher and the flags of the session layer.
\<close>

unbundle bit_operations_syntax

section \<open>Data\<close>

definition NET_PACKET_HEAD_SIZE :: int where "NET_PACKET_HEAD_SIZE = 5"
definition MAX_NET_PACKET_SIZE :: int where
  "MAX_NET_PACKET_SIZE = MAX_CMD_PACKET_SIZE + NET_PACKET_HEAD_SIZE"
definition PROTOCOL_FLAG :: byte where "PROTOCOL_FLAG = 5"
definition FLAG_ENCRYPT :: byte where "FLAG_ENCRYPT = 1"
definition FLAG_COMPRESS :: byte where "FLAG_COMPRESS = 2"
definition FLAG_SYSTEM :: byte where "FLAG_SYSTEM = 4"
definition MAX_NET_PACKET_SEQ :: c_short where "MAX_NET_PACKET_SEQ = 65000"

text \<open>
  The pointers \<open>m_pktFlag\<close>, \<open>m_pktSeq\<close>, \<open>m_pktDataSize\<close> always lie together: in the packet's
  own buffer, or in the memory of the last \<open>BeginRead\<close> that found no packet there.
\<close>

datatype head_area = OwnHead | ForeignHead "byte list"

record net_packet = cmd_packet +
  m_buffer :: "byte list"
  m_totalSize :: int
  m_head :: head_area

definition head_block :: "net_packet \<Rightarrow> byte list" where
  "head_block p = (case m_head p of OwnHead \<Rightarrow> m_buffer p | ForeignHead b \<Rightarrow> b)"

definition set_head_block :: "byte list \<Rightarrow> net_packet \<Rightarrow> net_packet" where
  "set_head_block b p =
     (case m_head p of OwnHead \<Rightarrow> p\<lparr>m_buffer := b\<rparr> | ForeignHead _ \<Rightarrow> p\<lparr>m_head := ForeignHead b\<rparr>)"

text \<open>The three fields of the header, read and written through those pointers.\<close>

definition pktFlag :: "net_packet \<Rightarrow> byte option" where
  "pktFlag p = map_option (\<lambda>bs. bs ! 0) (fetch (head_block p) 0 1)"

definition pktSeq :: "net_packet \<Rightarrow> c_short option" where
  "pktSeq p = map_option dec16 (fetch (head_block p) 1 2)"

definition pktDataSize :: "net_packet \<Rightarrow> c_short option" where
  "pktDataSize p = map_option dec16 (fetch (head_block p) 3 2)"

definition set_pktFlag :: "net_packet \<Rightarrow> byte \<Rightarrow> net_packet option" where
  "set_pktFlag p f = map_option (\<lambda>b. set_head_block b p) (poke (head_block p) 0 [f])"

definition set_pktDataSize :: "net_packet \<Rightarrow> c_short \<Rightarrow> net_packet option" where
  "set_pktDataSize p n = map_option (\<lambda>b. set_head_block b p) (poke (head_block p) 3 (enc16 n))"

section \<open>Operations\<close>

text \<open>The buffer and \<open>m_totalSize\<close> start with whatever was in memory.\<close>

definition CG_NetPacket :: "(nat \<Rightarrow> byte) \<Rightarrow> (nat \<Rightarrow> byte) \<Rightarrow> int \<Rightarrow> net_packet option" where
  "CG_NetPacket fresh fresh' sz = do {
     base \<leftarrow> CG_CmdPacket fresh;
     Some (cmd_packet.extend base
       \<lparr>m_buffer = new_bytes fresh' (nat MAX_NET_PACKET_SIZE), m_totalSize = sz, m_head = OwnHead\<rparr>)
   }"

definition AddCmdPacket :: "net_packet \<Rightarrow> cmd_packet \<Rightarrow> net_packet option" where
  "AddCmdPacket p packet = do {
     let dataSize = (word_of_int (GetDataSize packet) :: c_short);
     p \<leftarrow> set_pktFlag p (push_bit 4 PROTOCOL_FLAG);
     p \<leftarrow> set_pktDataSize p dataSize;
     src \<leftarrow> GetData packet;
     xs \<leftarrow> fetch src 0 (unat dataSize);
     buf \<leftarrow> poke_int (m_buffer p) NET_PACKET_HEAD_SIZE xs;
     Some (p\<lparr>m_buffer := buf, m_totalSize := NET_PACKET_HEAD_SIZE + uint dataSize\<rparr>)
   }"

definition AttachCmdPacket :: "net_packet \<Rightarrow> cmd_packet \<Rightarrow> cmd_packet option" where
  "AttachCmdPacket p packet = do {
     dsize \<leftarrow> pktDataSize p;
     Some (BeginRead_at packet (drop (nat NET_PACKET_HEAD_SIZE) (m_buffer p)) (uint dsize))
   }"

text \<open>
  \<open>p\<close> is the memory from the pointer on, \<open>len\<close> what the caller says is valid of it.
  \<open>*m_pktFlag>>4\<close> shifts a signed \<open>char\<close>.
\<close>

definition NetBeginRead :: "net_packet \<Rightarrow> byte list \<Rightarrow> int \<Rightarrow> (int \<times> net_packet) option" where
  "NetBeginRead pkt p len =
     (if len < NET_PACKET_HEAD_SIZE then Some (0, pkt)
      else do {
        let pkt = pkt\<lparr>m_head := ForeignHead p\<rparr>;
        flag \<leftarrow> pktFlag pkt;
        if signed_drop_bit 4 flag \<noteq> PROTOCOL_FLAG then Some (- 1, pkt)
        else do {
          dsize \<leftarrow> pktDataSize pkt;
          if uint dsize \<le> 0 \<or> uint dsize > MAX_CMD_PACKET_SIZE then Some (- 1, pkt)
          else do {
            let tot = uint dsize + NET_PACKET_HEAD_SIZE;
            if len < tot then Some (0, pkt)
            else do {
              xs \<leftarrow> fetch_int p 0 tot;
              buf \<leftarrow> poke (m_buffer pkt) 0 xs;
              Some (tot, pkt\<lparr>m_buffer := buf, m_head := OwnHead\<rparr>)
            }
          }
        }
      })"

text \<open>
  The loop of \<open>Encrypt\<close> and of \<open>Decrypt\<close>: \<open>i\<close> runs over the buffer, \<open>k\<close> over the seed, of
  which \<open>seed\<close> is the memory and \<open>len\<close> the valid part.
\<close>

function crypt_loop :: "byte list \<Rightarrow> int \<Rightarrow> nat \<Rightarrow> nat \<Rightarrow> int \<Rightarrow> byte list \<Rightarrow> byte list option" where
  "crypt_loop seed len dsize i k buf =
     (if i < dsize then do {
        let k = (if k = len then 0 else k);
        b \<leftarrow> fetch buf i 1;
        s \<leftarrow> fetch_int seed k 1;
        crypt_loop seed len dsize (i + 1) (k + 1) (buf[i := b ! 0 XOR s ! 0])
      }
      else Some buf)"
  by auto
termination by (relation "measure (\<lambda>(seed, len, dsize, i, k, buf). dsize - i)") auto

declare crypt_loop.simps [simp del]

definition Encrypt :: "net_packet \<Rightarrow> byte list \<Rightarrow> int \<Rightarrow> net_packet option" where
  "Encrypt p seed len = do {
     dsize \<leftarrow> pktDataSize p;
     buf \<leftarrow> crypt_loop seed len (unat dsize) (nat NET_PACKET_HEAD_SIZE) 0 (m_buffer p);
     let p = p\<lparr>m_buffer := buf\<rparr>;
     flag \<leftarrow> pktFlag p;
     set_pktFlag p (flag OR FLAG_ENCRYPT)
   }"

definition Decrypt :: "net_packet \<Rightarrow> byte list \<Rightarrow> int \<Rightarrow> net_packet option" where
  "Decrypt p seed len = do {
     dsize \<leftarrow> pktDataSize p;
     buf \<leftarrow> crypt_loop seed len (unat dsize) (nat NET_PACKET_HEAD_SIZE) 0 (m_buffer p);
     let p = p\<lparr>m_buffer := buf\<rparr>;
     flag \<leftarrow> pktFlag p;
     set_pktFlag p (flag AND NOT FLAG_ENCRYPT)
   }"

definition IsEncrypt :: "net_packet \<Rightarrow> bool option" where
  "IsEncrypt p = map_option (\<lambda>f. f AND FLAG_ENCRYPT \<noteq> 0) (pktFlag p)"

definition GetHeadSize :: "net_packet \<Rightarrow> int" where
  "GetHeadSize p = NET_PACKET_HEAD_SIZE"

definition GetTotalSize :: "net_packet \<Rightarrow> int" where
  "GetTotalSize p = m_totalSize p"

definition Compress :: "net_packet \<Rightarrow> (bool \<times> net_packet) option" where
  "Compress p = do { f \<leftarrow> pktFlag p; p \<leftarrow> set_pktFlag p (f OR FLAG_COMPRESS); Some (True, p) }"

definition Uncompress :: "net_packet \<Rightarrow> (bool \<times> net_packet) option" where
  "Uncompress p = do { f \<leftarrow> pktFlag p; p \<leftarrow> set_pktFlag p (f AND NOT FLAG_COMPRESS); Some (True, p) }"

definition IsCompress :: "net_packet \<Rightarrow> bool option" where
  "IsCompress p = map_option (\<lambda>f. f AND FLAG_COMPRESS \<noteq> 0) (pktFlag p)"

definition SetSysPacket :: "net_packet \<Rightarrow> net_packet option" where
  "SetSysPacket p = do { f \<leftarrow> pktFlag p; set_pktFlag p (f OR FLAG_SYSTEM) }"

definition IsSysPacket :: "net_packet \<Rightarrow> bool option" where
  "IsSysPacket p = map_option (\<lambda>f. f AND FLAG_SYSTEM \<noteq> 0) (pktFlag p)"

definition SetSeq :: "net_packet \<Rightarrow> c_short \<Rightarrow> net_packet option" where
  "SetSeq p seq = map_option (\<lambda>b. set_head_block b p) (poke (head_block p) 1 (enc16 seq))"

section \<open>Frames\<close>

text \<open>The bytes of a packet on the wire, and what it means for a packet to hold them.\<close>

definition frame :: "byte \<Rightarrow> c_short \<Rightarrow> byte list \<Rightarrow> byte list" where
  "frame flag seq data = [flag] @ enc16 seq @ enc16 (len16 (length data)) @ data"

definition holds :: "net_packet \<Rightarrow> byte \<Rightarrow> c_short \<Rightarrow> byte list \<Rightarrow> bool" where
  "holds p flag seq data \<longleftrightarrow> m_head p = OwnHead \<and> length (m_buffer p) = 16389 \<and>
     length data \<le> 16384 \<and> (\<exists>rest. m_buffer p = frame flag seq data @ rest)"

definition net_ok :: "net_packet \<Rightarrow> bool" where
  "net_ok p \<longleftrightarrow> length (m_buffer p) = 16389"

lemma length_frame [simp]: "length (frame flag seq data) = 5 + length data"
  by (simp add: frame_def)

lemma uint_len16: "n < 65536 \<Longrightarrow> uint (len16 n) = int n"
  by (simp add: len16_def unsigned_of_nat take_bit_eq_mod)

lemma unat_len16: "n < 65536 \<Longrightarrow> unat (len16 n) = n"
  by (simp add: len16_def unsigned_of_nat take_bit_eq_mod)

lemma holds_ok: "holds p flag seq data \<Longrightarrow> net_ok p"
  by (simp add: holds_def net_ok_def)

lemma holdsE:
  assumes "holds p flag seq data"
  obtains rest where "m_head p = OwnHead" "length data \<le> 16384"
    "length data + length rest = 16384" "m_buffer p = frame flag seq data @ rest"
  using assms unfolding holds_def by auto

lemma holdsI:
  assumes "m_head p = OwnHead" "length data + length rest = 16384"
    "m_buffer p = frame flag seq data @ rest"
  shows "holds p flag seq data"
  using assms unfolding holds_def by auto

lemma fetch_simps:
  "fetch (x # xs) 0 (Suc n) = map_option (\<lambda>ys. x # ys) (fetch xs 0 n)"
  "fetch (x # xs) (Suc i) n = fetch xs i n"
  "fetch xs 0 0 = Some []"
  by (simp_all add: fetch_def)

lemma poke_Cons:
  "poke (x # xs) (Suc i) ys = map_option (\<lambda>zs. x # zs) (poke xs i ys)"
  "poke (x # xs) 0 (y # ys) = map_option (\<lambda>zs. y # zs) (poke xs 0 ys)"
  "poke xs 0 [] = Some xs"
  by (simp_all add: poke_def)

lemma enc16_list: "\<exists>a b. enc16 w = [a, b]"
  by (simp add: enc16_def)

lemma frame_fields:
  assumes "m_head p = OwnHead" "m_buffer p = frame flag seq data @ rest" "length data < 65536"
  shows "pktFlag p = Some flag" "pktSeq p = Some seq"
    "pktDataSize p = Some (len16 (length data))"
    "set_pktFlag p f = Some (p\<lparr>m_buffer := frame f seq data @ rest\<rparr>)"
    "SetSeq p s = Some (p\<lparr>m_buffer := frame flag s data @ rest\<rparr>)"
proof -
  obtain a b c d where e: "enc16 seq = [a, b]" "enc16 (len16 (length data)) = [c, d]"
    using enc16_list by blast
  have d: "dec16 [a, b] = seq" "dec16 [c, d] = len16 (length data)"
    using dec16_enc16 by (simp_all add: e flip: e)
  obtain a' b' where e': "enc16 s = [a', b']" using enc16_list by blast
  show "pktFlag p = Some flag" "pktSeq p = Some seq" "pktDataSize p = Some (len16 (length data))"
    "set_pktFlag p f = Some (p\<lparr>m_buffer := frame f seq data @ rest\<rparr>)"
    "SetSeq p s = Some (p\<lparr>m_buffer := frame flag s data @ rest\<rparr>)"
    using assms(1,2)
    by (simp_all add: pktFlag_def pktSeq_def pktDataSize_def set_pktFlag_def SetSeq_def
        head_block_def set_head_block_def frame_def e e' d fetch_simps poke_Cons numeral_2_eq_2
        numeral_3_eq_3)
qed

lemma holds_flag:
  assumes "holds p flag seq data"
  shows "pktFlag p = Some flag" "pktDataSize p = Some (len16 (length data))"
    "\<exists>q. set_pktFlag p f = Some q \<and> holds q f seq data \<and> m_totalSize q = m_totalSize p"
    "\<exists>q. SetSeq p s = Some q \<and> holds q flag s data \<and> m_totalSize q = m_totalSize p"
proof -
  from assms obtain rest where p: "m_head p = OwnHead" "length data \<le> 16384"
    "length data + length rest = 16384" "m_buffer p = frame flag seq data @ rest"
    by (rule holdsE)
  then have d: "length data < 65536" by simp
  note fields = frame_fields [OF p(1,4) d]
  from fields show "pktFlag p = Some flag" "pktDataSize p = Some (len16 (length data))" by simp_all
  from fields(4) [of f] p(1,3)
  show "\<exists>q. set_pktFlag p f = Some q \<and> holds q f seq data \<and> m_totalSize q = m_totalSize p"
    by (auto intro!: holdsI)
  from fields(5) [of s] p(1,3)
  show "\<exists>q. SetSeq p s = Some q \<and> holds q flag s data \<and> m_totalSize q = m_totalSize p"
    by (auto intro!: holdsI)
qed

text \<open>The operations on the flags.\<close>

lemma holds_flag_ops:
  assumes "holds p flag seq data"
  shows "\<exists>q. Compress p = Some (True, q) \<and> holds q (flag OR 2) seq data \<and> m_totalSize q = m_totalSize p"
    "\<exists>q. Uncompress p = Some (True, q) \<and> holds q (flag AND NOT 2) seq data \<and> m_totalSize q = m_totalSize p"
    "\<exists>q. SetSysPacket p = Some q \<and> holds q (flag OR 4) seq data \<and> m_totalSize q = m_totalSize p"
    "IsEncrypt p = Some (flag AND 1 \<noteq> 0)" "IsCompress p = Some (flag AND 2 \<noteq> 0)"
    "IsSysPacket p = Some (flag AND 4 \<noteq> 0)"
  using holds_flag(1) [OF assms] holds_flag(3) [OF assms, of "flag OR 2"]
    holds_flag(3) [OF assms, of "flag AND NOT 2"] holds_flag(3) [OF assms, of "flag OR 4"]
  by (auto simp: Compress_def Uncompress_def SetSysPacket_def IsEncrypt_def IsCompress_def
      IsSysPacket_def FLAG_COMPRESS_def FLAG_SYSTEM_def FLAG_ENCRYPT_def)

lemma five_bytes:
  "length xs = 5 + n \<Longrightarrow> \<exists>a b c d e ys. xs = a # b # c # d # e # ys \<and> length ys = n"
  by (auto simp: numeral_eq_Suc length_Suc_conv)

lemma poke_data:
  "length ys \<le> length rest \<Longrightarrow> poke_int (f # a # b # c # d # rest) 5 ys =
     Some (f # a # b # c # d # ys @ drop (length ys) rest)"
  by (simp add: poke_int_def poke_def numeral_eq_Suc)

lemma poke_head:
  "poke (f # a # b # c # d # rest) 0 [z] = Some (z # a # b # c # d # rest)"
  "poke (f # a # b # c # d # rest) 1 [z, z'] = Some (f # z # z' # c # d # rest)"
  "poke (f # a # b # c # d # rest) 3 [z, z'] = Some (f # a # b # z # z' # rest)"
  by (simp_all add: poke_def numeral_eq_Suc)

lemma AddCmdPacket_holds:
  assumes "net_ok p" "m_head p = OwnHead" "GetData pk = Some buf" "GetDataSize pk = int n"
    "n \<le> length buf" "n \<le> 16384"
  shows "\<exists>q seq. AddCmdPacket p pk = Some q \<and> holds q 0x50 seq (take n buf) \<and>
    m_totalSize q = 5 + int n"
proof -
  have "length (m_buffer p) = 5 + 16384"
    using assms(1) by (simp add: net_ok_def)
  then obtain f a b x y rest where b: "m_buffer p = f # a # b # x # y # rest" "length rest = 16384"
    using five_bytes by blast
  obtain c d where e: "enc16 (len16 n) = [c, d]" using enc16_list by blast
  have seq: "enc16 (dec16 [a, b]) = [a, b]" by (simp add: enc16_dec16)
  from assms have n: "uint (len16 n) = int n" "unat (len16 n) = n"
    by (simp_all add: uint_len16 unat_len16)
  define q where "q = p\<lparr>m_buffer := 0x50 # a # b # c # d # take n buf @ drop n rest,
    m_totalSize := 5 + int n\<rparr>"
  have "AddCmdPacket p pk = Some q"
    using assms b e n
    by (simp add: AddCmdPacket_def set_pktFlag_def set_pktDataSize_def head_block_def q_def
        set_head_block_def poke_head poke_data len16_int PROTOCOL_FLAG_def fetch_def
        NET_PACKET_HEAD_SIZE_def del: of_int_of_nat_eq)
  moreover have "holds q 0x50 (dec16 [a, b]) (take n buf)"
    using assms b e seq
    by (intro holdsI [where rest = "drop n rest"]) (auto simp: q_def frame_def min_def)
  moreover have "m_totalSize q = 5 + int n" by (simp add: q_def)
  ultimately show ?thesis by blast
qed

section \<open>The cipher\<close>

text \<open>
  What the loop computes on the data: byte \<open>j\<close> is combined with byte \<open>j mod len\<close> of the
  seed.  The bound of the loop is the size of the data, but its index starts behind the
  header, so the last five bytes are left as they are.
\<close>

definition cipher :: "byte list \<Rightarrow> byte list \<Rightarrow> byte list" where
  "cipher seed data = map (\<lambda>j. if j + 5 < length data then data ! j XOR seed ! (j mod length seed)
     else data ! j) [0..<length data]"

lemma length_cipher [simp]: "length (cipher seed data) = length data"
  by (simp add: cipher_def)

lemma cipher_involution: "cipher seed (cipher seed data) = data"
  by (rule nth_equalityI) (simp_all add: cipher_def ac_simps)

lemma cipher_tail: "drop (length data - 5) (cipher seed data) = drop (length data - 5) data"
  by (rule nth_equalityI) (auto simp: cipher_def)

lemma crypt_loop_spec:
  assumes "length seed = len" "0 < len" "k = (if j = 0 then 0 else (j - 1) mod len + 1)"
    "n \<le> length buf" "5 + j \<le> length buf"
  shows "\<exists>buf'. crypt_loop seed (int len) n (5 + j) (int k) buf = Some buf' \<and>
    length buf' = length buf \<and>
    (\<forall>i < length buf. buf' ! i = (if 5 + j \<le> i \<and> i < n then buf ! i XOR seed ! ((i - 5) mod len)
       else buf ! i))"
  using assms(3-5)
proof (induction "n - (5 + j)" arbitrary: j k buf)
  case 0
  then show ?case by (subst crypt_loop.simps) auto
next
  case (Suc m)
  then have run: "5 + j < n" by simp
  define k' where "k' = (if k = len then 0 else k)"
  have k': "k' = j mod len" "k' < len"
  proof -
    show "k' = j mod len"
    proof (cases j)
      case (Suc i)
      then show ?thesis using Suc.prems(1) assms(2) by (auto simp: k'_def mod_Suc)
    qed (use Suc.prems(1) assms(2) in \<open>simp add: k'_def\<close>)
    then show "k' < len" using assms(2) by simp
  qed
  define buf1 where "buf1 = buf[5 + j := buf ! (5 + j) XOR seed ! k']"
  have step: "crypt_loop seed (int len) n (5 + j) (int k) buf =
      crypt_loop seed (int len) n (5 + Suc j) (int (Suc k')) buf1"
  proof -
    have "fetch buf (5 + j) 1 = Some [buf ! (5 + j)]"
      using run Suc.prems by (simp add: fetch_def take_Suc_conv_app_nth hd_drop_conv_nth take_Suc)
    moreover have "fetch_int seed (int k') 1 = Some [seed ! k']"
      using k' assms(1) by (simp add: fetch_int_def fetch_def take_Suc hd_drop_conv_nth)
    moreover have "(if int k = int len then 0 else int k) = int k'"
      by (simp add: k'_def)
    ultimately show ?thesis
      using run by (subst crypt_loop.simps) (simp add: buf1_def add.commute [of 1])
  qed
  have "\<exists>buf'. crypt_loop seed (int len) n (5 + Suc j) (int (Suc k')) buf1 = Some buf' \<and>
    length buf' = length buf1 \<and>
    (\<forall>i < length buf1. buf' ! i = (if 5 + Suc j \<le> i \<and> i < n
       then buf1 ! i XOR seed ! ((i - 5) mod len) else buf1 ! i))"
    using Suc.hyps(2) Suc.prems run k' by (intro Suc.hyps(1)) (auto simp: buf1_def)
  then obtain buf' where "crypt_loop seed (int len) n (5 + Suc j) (int (Suc k')) buf1 = Some buf'"
    "length buf' = length buf1" "\<forall>i < length buf1. buf' ! i = (if 5 + Suc j \<le> i \<and> i < n
       then buf1 ! i XOR seed ! ((i - 5) mod len) else buf1 ! i)" by blast
  moreover have here: "i = 5 + j" if "\<not> 6 + j \<le> i" "5 + j \<le> i" for i using that by simp
  ultimately show ?case
    unfolding step using k'(1) run
    by (intro exI [of _ buf']) (auto simp: buf1_def nth_list_update dest!: here)
qed

lemma crypt_data:
  assumes "length buf = 5 + length data + length rest" "drop 5 buf = data @ rest" "seed \<noteq> []"
  shows "crypt_loop seed (int (length seed)) (length data) 5 0 buf =
    Some (take 5 buf @ cipher seed data @ rest)"
proof -
  obtain buf' where b: "crypt_loop seed (int (length seed)) (length data) 5 0 buf = Some buf'"
    "length buf' = length buf"
    "\<forall>i < length buf. buf' ! i = (if 5 \<le> i \<and> i < length data
       then buf ! i XOR seed ! ((i - 5) mod length seed) else buf ! i)"
    using crypt_loop_spec [of seed "length seed" 0 0 "length data" buf] assms by auto
  have data: "buf ! (5 + i) = (data @ rest) ! i" if "i < length data + length rest" for i
    using that assms(1) by (simp flip: assms(2))
  have "buf' = take 5 buf @ cipher seed data @ rest"
  proof (rule nth_equalityI)
    show "length buf' = length (take 5 buf @ cipher seed data @ rest)" using b(2) assms(1) by simp
  next
    fix i assume "i < length buf'"
    with b(2) have i: "i < length buf" by simp
    show "buf' ! i = (take 5 buf @ cipher seed data @ rest) ! i"
    proof (cases "i < 5")
      case False
      then obtain j where j: "i = 5 + j" by (metis le_Suc_ex not_less)
      with i assms(1) have jl: "j < length data + length rest" by simp
      show ?thesis
        using b(3) i j jl data [OF jl] assms(1)
        by (auto simp: nth_append cipher_def)
    qed (use b(3) i assms(1) in \<open>simp add: nth_append\<close>)
  qed
  with b(1) show ?thesis by simp
qed

text \<open>Encrypting and decrypting a packet.\<close>

lemma crypt_packet:
  assumes "holds p flag seq data" "seed \<noteq> []"
  obtains buf where "crypt_loop seed (int (length seed)) (unat (len16 (length data))) 5 0 (m_buffer p) =
    Some buf" "holds (p\<lparr>m_buffer := buf\<rparr>) flag seq (cipher seed data)"
proof -
  from assms(1) obtain rest where p: "m_head p = OwnHead" "length data \<le> 16384"
    "length data + length rest = 16384" "m_buffer p = frame flag seq data @ rest"
    by (rule holdsE)
  have head: "take 5 (frame flag seq data @ rest) = [flag] @ enc16 seq @ enc16 (len16 (length data))"
    "drop 5 (frame flag seq data @ rest) = data @ rest"
    by (simp_all add: frame_def)
  have "unat (len16 (length data)) = length data" using p(2) by (simp add: unat_len16)
  moreover have "crypt_loop seed (int (length seed)) (length data) 5 0 (m_buffer p) =
      Some (take 5 (m_buffer p) @ cipher seed data @ rest)"
    using assms(2) p(4) head by (intro crypt_data) auto
  moreover have "take 5 (m_buffer p) @ cipher seed data @ rest = frame flag seq (cipher seed data) @ rest"
    by (simp only: p(4) head) (simp add: frame_def)
  moreover have "holds (p\<lparr>m_buffer := frame flag seq (cipher seed data) @ rest\<rparr>) flag seq (cipher seed data)"
    using p by (intro holdsI) auto
  ultimately show ?thesis by (auto intro: that)
qed

lemma Encrypt_holds:
  assumes "holds p flag seq data" "seed \<noteq> []"
  shows "\<exists>q. Encrypt p seed (int (length seed)) = Some q \<and>
    holds q (flag OR 1) seq (cipher seed data) \<and> m_totalSize q = m_totalSize p"
proof -
  from assms obtain buf where b: "crypt_loop seed (int (length seed)) (unat (len16 (length data))) 5 0
      (m_buffer p) = Some buf" "holds (p\<lparr>m_buffer := buf\<rparr>) flag seq (cipher seed data)"
    by (rule crypt_packet)
  from holds_flag(3) [OF b(2), of "flag OR 1"] holds_flag(1) [OF b(2)] holds_flag(2) [OF assms(1)] b(1)
  show ?thesis
    by (auto simp: Encrypt_def NET_PACKET_HEAD_SIZE_def FLAG_ENCRYPT_def)
qed

lemma Decrypt_holds:
  assumes "holds p flag seq data" "seed \<noteq> []"
  shows "\<exists>q. Decrypt p seed (int (length seed)) = Some q \<and>
    holds q (flag AND NOT 1) seq (cipher seed data) \<and> m_totalSize q = m_totalSize p"
proof -
  from assms obtain buf where b: "crypt_loop seed (int (length seed)) (unat (len16 (length data))) 5 0
      (m_buffer p) = Some buf" "holds (p\<lparr>m_buffer := buf\<rparr>) flag seq (cipher seed data)"
    by (rule crypt_packet)
  from holds_flag(3) [OF b(2), of "flag AND NOT 1"] holds_flag(1) [OF b(2)] holds_flag(2) [OF assms(1)] b(1)
  show ?thesis
    by (auto simp: Decrypt_def NET_PACKET_HEAD_SIZE_def FLAG_ENCRYPT_def)
qed

section \<open>Finding the next frame\<close>

definition valid_frame :: "byte list \<Rightarrow> bool" where
  "valid_frame fr \<longleftrightarrow> (\<exists>flag seq data. fr = frame flag seq data \<and>
     signed_drop_bit 4 flag = PROTOCOL_FLAG \<and> data \<noteq> [] \<and> length data \<le> 16384)"

text \<open>The bytes of a header, and the size it announces.\<close>

lemma header_bytes:
  assumes "valid_frame (f # a # b # c # d # data)"
  shows "signed_drop_bit 4 f = PROTOCOL_FLAG" "unat (dec16 [c, d]) = length data" "data \<noteq> []"
    "length data \<le> 16384"
proof -
  from assms obtain flag seq data' where fr: "f # a # b # c # d # data = frame flag seq data'"
    "signed_drop_bit 4 flag = PROTOCOL_FLAG" "data' \<noteq> []" "length data' \<le> 16384"
    unfolding valid_frame_def by blast
  obtain x y z w where e: "enc16 seq = [x, y]" "enc16 (len16 (length data')) = [z, w]"
    using enc16_list by blast
  from fr(1) have eq: "f = flag" "[c, d] = enc16 (len16 (length data'))" "data = data'"
    by (simp_all add: frame_def e)
  then show "signed_drop_bit 4 f = PROTOCOL_FLAG" "unat (dec16 [c, d]) = length data" "data \<noteq> []"
    "length data \<le> 16384"
    using fr(2-4) by (simp_all only: eq dec16_enc16) (simp_all add: unat_len16)
qed

lemma header_frame:
  assumes "unat (dec16 [c, d]) = length data"
  shows "f # a # b # c # d # data = frame f (dec16 [a, b]) data"
proof -
  have "len16 (length data) = dec16 [c, d]" by (simp add: len16_def flip: assms)
  then have "enc16 (len16 (length data)) = [c, d]" by (simp add: enc16_dec16)
  then show ?thesis by (simp add: frame_def enc16_dec16)
qed

lemma valid_frame_split:
  assumes "valid_frame fr"
  obtains f a b c d data where "fr = f # a # b # c # d # data"
  using assms that by (auto simp: valid_frame_def frame_def enc16_def)

lemma length_valid_frame: "valid_frame fr \<Longrightarrow> 5 \<le> length fr"
  by (auto simp: valid_frame_def)

text \<open>
  The result of \<open>BeginRead\<close>: positive for a frame that has arrived, which the packet now
  holds; 0 when it has not; -1 when no frame can start like this.
\<close>

definition reads :: "net_packet \<Rightarrow> byte list \<Rightarrow> int \<Rightarrow> net_packet \<Rightarrow> bool" where
  "reads p bs r q \<longleftrightarrow> net_ok q \<and>
     (if 0 < r
      then (\<exists>flag seq data rest. bs = frame flag seq data @ rest \<and> r = 5 + int (length data) \<and>
        valid_frame (frame flag seq data) \<and> holds q flag seq data)
      else if r = 0
      then \<not> (\<exists>fr rest. valid_frame fr \<and> bs = fr @ rest) \<and>
        (5 \<le> length bs \<longrightarrow> (\<exists>fr rest more. valid_frame fr \<and> bs @ more = fr @ rest))
      else r = - 1 \<and> 5 \<le> length bs \<and> \<not> (\<exists>fr rest more. valid_frame fr \<and> bs @ more = fr @ rest))"

lemma BeginRead_header:
  assumes "block = f # a # b # c # d # rest" "5 \<le> n"
  shows "NetBeginRead p block (int n) =
    (let k = unat (dec16 [c, d]); p' = p\<lparr>m_head := ForeignHead block\<rparr> in
     if signed_drop_bit 4 f \<noteq> PROTOCOL_FLAG \<or> k = 0 \<or> k > 16384 then Some (- 1, p')
     else if n < k + 5 then Some (0, p')
     else do {
       xs \<leftarrow> fetch block 0 (k + 5);
       buf \<leftarrow> poke (m_buffer p) 0 xs;
       Some (int (k + 5), p\<lparr>m_buffer := buf, m_head := OwnHead\<rparr>)
     })"
proof -
  have "fetch block 0 1 = Some [f]" "fetch block 3 2 = Some [c, d]"
    by (simp_all add: assms(1) fetch_def numeral_eq_Suc)
  moreover have "fetch_int block 0 (int j + 5) = fetch block 0 (j + 5)" for j
    using fetch_int_nat [of block 0 "j + 5"] by simp
  moreover define w where "w = dec16 [c, d]"
  moreover define k where "k = unat w"
  then have "uint w = int k" "unat w = k" by simp_all
  ultimately show ?thesis using assms(2)
    by (simp add: NetBeginRead_def pktFlag_def pktDataSize_def head_block_def Let_def
        NET_PACKET_HEAD_SIZE_def MAX_CMD_PACKET_SIZE_def)
qed

theorem BeginRead_reads:
  assumes "net_ok p" "n \<le> length block"
  shows "\<exists>r q. NetBeginRead p block (int n) = Some (r, q) \<and> reads p (take n block) r q"
proof (cases "5 \<le> n")
  case False
  then have "NetBeginRead p block (int n) = Some (0, p)"
    by (simp add: NetBeginRead_def NET_PACKET_HEAD_SIZE_def)
  moreover have "\<not> (\<exists>fr rest. valid_frame fr \<and> take n block = fr @ rest)"
  proof (intro notI, elim exE conjE)
    fix fr rest assume "valid_frame fr" "take n block = fr @ rest"
    then have "5 \<le> length fr" "length (take n block) = length fr + length rest"
      by (simp_all add: length_valid_frame)
    with False show False by simp
  qed
  ultimately show ?thesis using assms(1) False by (simp add: reads_def)
next
  case True
  with assms(2) have "length block = 5 + (length block - 5)" by simp
  from five_bytes [OF this] obtain f a b c d rest where block: "block = f # a # b # c # d # rest"
    by blast
  define k where "k = unat (dec16 [c, d])"
  define bs where "bs = take (n - 5) rest"
  from True obtain m where m: "n = 5 + m" using le_Suc_ex by blast
  have seen: "take n block = f # a # b # c # d # bs"
    unfolding m block bs_def by (simp add: numeral_eq_Suc)
  have lenbs: "length bs = n - 5" using assms(2) block by (simp add: bs_def)
  have start: "signed_drop_bit 4 f = PROTOCOL_FLAG \<and> k \<noteq> 0 \<and> k \<le> 16384 \<and> k \<le> length (bs @ more)"
    if fr: "valid_frame fr" "take n block @ more = fr @ rest'" for fr rest' more
  proof -
    from fr(1) obtain f' a' b' c' d' data where data: "fr = f' # a' # b' # c' # d' # data"
      by (rule valid_frame_split)
    with fr(2) have eq: "f' = f" "c' = c" "d' = d" "bs @ more = data @ rest'" by (simp_all add: seen)
    from header_bytes [of f' a' b' c' d' data] fr(1) show ?thesis
      by (simp add: data eq k_def)
  qed
  note header = BeginRead_header [OF block True, of p, folded k_def, unfolded Let_def]
  consider (bad) "signed_drop_bit 4 f \<noteq> PROTOCOL_FLAG \<or> k = 0 \<or> k > 16384"
    | (short) "signed_drop_bit 4 f = PROTOCOL_FLAG" "k \<noteq> 0" "k \<le> 16384" "n < k + 5"
    | (full) "signed_drop_bit 4 f = PROTOCOL_FLAG" "k \<noteq> 0" "k \<le> 16384" "k + 5 \<le> n"
    by linarith
  then show ?thesis
  proof cases
    case bad
    then have "\<not> (\<exists>fr rest more. valid_frame fr \<and> take n block @ more = fr @ rest)"
      using start by fastforce
    moreover have "5 \<le> length (take n block)" using True assms(2) by simp
    ultimately show ?thesis using bad header assms(1) by (auto simp: reads_def net_ok_def)
  next
    case short
    then have "\<not> (\<exists>fr rest. valid_frame fr \<and> take n block = fr @ rest)"
      using start [where more = "[]"] lenbs by fastforce
    moreover have "\<exists>fr rest more. valid_frame fr \<and> take n block @ more = fr @ rest"
    proof -
      define data where "data = bs @ replicate (k - length bs) 0"
      have "length data = k" using short(4) lenbs by (simp add: data_def)
      with short header_frame [of c d data f a b] have "valid_frame (f # a # b # c # d # data)"
        unfolding valid_frame_def k_def by (metis length_greater_0_conv neq0_conv)
      then show ?thesis
        by (intro exI [of _ "f # a # b # c # d # data"] exI [of _ "[]"]
            exI [of _ "replicate (k - length bs) 0"]) (simp add: seen data_def)
    qed
    ultimately show ?thesis using short header assms(1) by (auto simp: reads_def net_ok_def)
  next
    case full
    define data where "data = take k bs"
    have data: "length data = k" "bs = data @ drop k bs"
      using full lenbs by (simp_all add: data_def)
    have fr: "frame f (dec16 [a, b]) data = f # a # b # c # d # data"
      using header_frame [of c d data f a b] data(1) by (simp add: k_def)
    from full have "min k (n - 5) = k" by simp
    then have rest: "rest = data @ drop k rest" "k \<le> length rest"
      using full assms(2) by (simp_all add: data_def bs_def block)
    then have "fetch block 0 (k + 5) = Some (frame f (dec16 [a, b]) data)"
      using data(1) by (intro fetch_at [of _ "[]" _ "drop k rest"]) (simp_all add: fr block)
    moreover have "poke (m_buffer p) 0 (frame f (dec16 [a, b]) data) =
        Some (frame f (dec16 [a, b]) data @ drop (5 + k) (m_buffer p))"
      using assms(1) full data(1) by (simp add: poke_def net_ok_def)
    ultimately have run: "NetBeginRead p block (int n) = Some (int (k + 5),
        p\<lparr>m_buffer := frame f (dec16 [a, b]) data @ drop (5 + k) (m_buffer p), m_head := OwnHead\<rparr>)"
      using header full by simp
    moreover have "valid_frame (frame f (dec16 [a, b]) data)"
      using full data(1) unfolding valid_frame_def by auto
    moreover have "take n block = frame f (dec16 [a, b]) data @ drop k bs"
      using seen data(2) fr by simp
    moreover have "holds (p\<lparr>m_buffer := frame f (dec16 [a, b]) data @ drop (5 + k) (m_buffer p),
        m_head := OwnHead\<rparr>) f (dec16 [a, b]) data"
      using assms(1) full data(1) by (auto simp: holds_def net_ok_def)
    ultimately show ?thesis
      using data(1) holds_ok by (auto simp: reads_def)
  qed
qed

text \<open>A stream of frames has only one reading.\<close>

lemma valid_frame_unique:
  assumes "valid_frame fr" "valid_frame fr'" "fr @ x = fr' @ y"
  shows "fr = fr' \<and> x = y"
proof -
  from assms(1,2) obtain f a b c d data f' a' b' c' d' data' where
    fr: "fr = f # a # b # c # d # data" "fr' = f' # a' # b' # c' # d' # data'"
    by (metis valid_frame_split)
  with assms(3) have eq: "f = f'" "a = a'" "b = b'" "c = c'" "d = d'" "data @ x = data' @ y" by simp_all
  from assms(1,2) have "length data = length data'"
    using header_bytes(2) [of f a b c d data] header_bytes(2) [of f' a' b' c' d' data']
    by (simp add: fr eq)
  with eq show ?thesis by (simp add: fr)
qed

lemma AttachCmdPacket_reader:
  assumes "holds p flag seq data"
  shows "\<exists>q. AttachCmdPacket p c = Some q \<and> reader q \<and> unread q = data"
proof -
  from assms obtain rest where p: "m_head p = OwnHead" "length data \<le> 16384"
    "m_buffer p = frame flag seq data @ rest"
    by (rule holdsE)
  have "drop 5 (m_buffer p) = data @ rest"
    by (simp add: p(3) frame_def enc16_def)
  moreover have "uint (len16 (length data)) = int (length data)"
    using p(2) by (simp add: uint_len16)
  ultimately show ?thesis
    using BeginRead_at_reader [of "length data" "data @ rest" c] p(2) holds_flag(2) [OF assms]
    by (simp add: AttachCmdPacket_def NET_PACKET_HEAD_SIZE_def)
qed

section \<open>What goes wrong\<close>

text \<open>
  With a seed of length 0, which is what a session has before a seed is set, the index of the
  seed never returns to 0 and leaves the array.
\<close>

lemma crypt_loop_overruns:
  assumes "0 < k" "k \<le> length seed" "i + (length seed - k) < n" "n \<le> length buf"
  shows "crypt_loop seed 0 n i (int k) buf = None"
  using assms
proof (induction "length seed - k" arbitrary: i k buf)
  case 0
  then show ?case
    by (subst crypt_loop.simps) (auto simp: fetch_int_def fetch_def split: Option.bind_split)
next
  case (Suc m)
  then have "crypt_loop seed 0 n (i + 1) (int (Suc k)) (buf[i := b]) = None" for b
    by (intro Suc.hyps(1)) auto
  then show ?case
    using Suc.prems by (subst crypt_loop.simps) (auto simp: add.commute split: Option.bind_split)
qed

lemma crypt_without_seed:
  assumes "holds p flag seq data" "length seed + 5 < length data"
  shows "crypt_loop seed 0 (unat (len16 (length data))) 5 0 (m_buffer p) = None"
proof -
  from assms(1) obtain rest where p: "m_head p = OwnHead" "length data \<le> 16384"
    "length data + length rest = 16384" "m_buffer p = frame flag seq data @ rest"
    by (rule holdsE)
  have "crypt_loop seed 0 (length data) 5 0 (m_buffer p) = None"
  proof (cases seed)
    case Nil
    then show ?thesis using assms(2)
      by (subst crypt_loop.simps) (auto simp: fetch_int_def fetch_def split: Option.bind_split)
  next
    case (Cons s ss)
    have "crypt_loop seed 0 (length data) 6 (int 1) buf = None"
      if "length buf = length (m_buffer p)" for buf
      using that Cons assms(2) p by (intro crypt_loop_overruns) auto
    then show ?thesis
      using assms(2) by (subst crypt_loop.simps) (auto split: Option.bind_split)
  qed
  then show ?thesis using p(2) by (simp add: unat_len16)
qed

lemma cipher_without_seed:
  assumes "holds p flag seq data" "length seed + 5 < length data"
  shows "Decrypt p seed 0 = None" "Encrypt p seed 0 = None"
  using crypt_without_seed [OF assms] holds_flag(2) [OF assms(1)]
  by (simp_all add: Decrypt_def Encrypt_def NET_PACKET_HEAD_SIZE_def)

text \<open>On little data the index does not get that far, and no seed is like any seed of that size.\<close>

lemma crypt_loop_unseeded:
  assumes "n \<le> length seed + 5"
  shows "crypt_loop seed 0 n (5 + j) (int j) buf = crypt_loop seed (int (length seed)) n (5 + j) (int j) buf"
proof (induction "n - (5 + j)" arbitrary: j buf)
  case 0
  then show ?case by (subst (1 2) crypt_loop.simps) simp
next
  case (Suc m)
  then have j: "5 + j < n" "j < length seed" using assms by simp_all
  have step: "crypt_loop seed l n (5 + j) (int j) buf = do {
      b \<leftarrow> fetch buf (5 + j) 1;
      s \<leftarrow> fetch_int seed (int j) 1;
      crypt_loop seed l n (5 + Suc j) (int (Suc j)) (buf[5 + j := b ! 0 XOR s ! 0])
    }" if "l = 0 \<or> l = int (length seed)" for l
  proof -
    have "(if int j = l then 0 else int j) = int j" using that j(2) by auto
    then show ?thesis using j(1)
      by (subst crypt_loop.simps) (simp add: Let_def add.commute [of 1])
  qed
  have "crypt_loop seed 0 n (5 + Suc j) (int (Suc j)) b =
      crypt_loop seed (int (length seed)) n (5 + Suc j) (int (Suc j)) b" for b
    using Suc.hyps(2) by (intro Suc.hyps(1)) simp
  then show ?case by (simp only: step simp_thms)
qed

lemma cipher_unseeded:
  assumes "holds p flag seq data" "length data \<le> length seed + 5"
  shows "Decrypt p seed 0 = Decrypt p seed (int (length seed))"
    "Encrypt p seed 0 = Encrypt p seed (int (length seed))"
proof -
  have "unat (len16 (length data)) = length data"
    using assms(1) by (simp add: holds_def unat_len16)
  then show "Decrypt p seed 0 = Decrypt p seed (int (length seed))"
    "Encrypt p seed 0 = Encrypt p seed (int (length seed))"
    using holds_flag(2) [OF assms(1)] assms(2) crypt_loop_unseeded [of "length data" seed 0]
    by (simp_all add: Decrypt_def Encrypt_def NET_PACKET_HEAD_SIZE_def)
qed

text \<open>A packet without data is sent like any other, and no receiver accepts it.\<close>

lemma empty_frame_refused:
  "\<not> valid_frame (frame flag seq [])"
proof
  assume "valid_frame (frame flag seq [])"
  moreover obtain a b c d where "frame flag seq [] = [flag, a, b, c, d]"
    by (simp add: frame_def enc16_def)
  ultimately show False using header_bytes(3) [of flag a b c d "[]"] by simp
qed

end
