(* ===== verification/NetSocket.thy ===== *)
theory NetSocket
  imports Bytes
begin

text \<open>
  The operating system as the network code sees it, and the socket wrapper of
  \<open>TestPcNetwork/TestPcNetwork/g_netsocket.cpp\<close>.

  The system is not part of the program: its answers are unknown functions of the number of
  the call, which every theorem quantifies over.  Next to them the record keeps what the
  program has exchanged with it: the bytes taken for sending and the bytes handed over, and
  the sockets opened and closed.  A session has one socket, whose traffic is \<open>received\<close> and
  \<open>sent\<close>; a service has many, whose traffic is \<open>arrived\<close> and \<open>departed\<close>, and polls them
  together (\<open>os_ready\<close>).  Name resolution and addresses are left to the system's answers.
\<close>

section \<open>The operating system\<close>

type_synonym socket = int

definition INVALID_SOCKET :: socket where "INVALID_SOCKET = - 1"
definition SOCKET_ERROR :: int where "SOCKET_ERROR = - 1"

text \<open>
  \<open>recv\<close> hands over bytes (none: the peer has closed), \<open>send\<close> takes a number of bytes, or
  they fail; the flag tells whether the error is \<open>WSAEWOULDBLOCK\<close> (\<open>CONN_INPRROGRESS\<close> for
  \<open>connect\<close>, of which the windows build says that it is the same).
\<close>

datatype recv_answer = Arrived "byte list" | RecvFails bool
datatype send_answer = Takes nat | SendFails bool
datatype call_answer = Done | Fails bool

record os =
  os_select :: "nat \<Rightarrow> int \<times> bool"
  os_ready :: "nat \<Rightarrow> int \<times> (socket \<Rightarrow> bool) \<times> (socket \<Rightarrow> bool)"
  os_recv :: "nat \<Rightarrow> recv_answer"
  os_send :: "nat \<Rightarrow> send_answer"
  os_socket :: "nat \<Rightarrow> socket"
  os_call :: "nat \<Rightarrow> call_answer"
  os_name :: "nat \<Rightarrow> (byte list option \<times> c_short \<times> 32 word) option"
  os_time :: "nat \<Rightarrow> 32 word"
  os_memory :: "nat \<Rightarrow> nat \<Rightarrow> byte"
  calls :: nat
  received :: "byte list"
  sent :: "byte list"
  arrived :: "socket \<Rightarrow> byte list"
  departed :: "socket \<Rightarrow> byte list"
  opened :: "socket list"
  closed :: "socket list"
  startups :: nat
  cleanups :: nat
  m_nCount :: int

definition next_call :: "os \<Rightarrow> nat \<times> os" where
  "next_call w = (calls w, w\<lparr>calls := Suc (calls w)\<rparr>)"

definition Sys_GetTime :: "os \<Rightarrow> 32 word \<times> os" where
  "Sys_GetTime w = (let (n, w) = next_call w in (os_time w n, w))"

definition system_call :: "os \<Rightarrow> call_answer \<times> os" where
  "system_call w = (let (n, w) = next_call w in (os_call w n, w))"

section \<open>The wrapper\<close>

text \<open>The state of a wrapper is its \<open>m_socket\<close>; the static counter is in the record above.\<close>

datatype protocol = PROTOCOL_UDP | PROTOCOL_TCP

definition Reset :: socket where
  "Reset = INVALID_SOCKET"

text \<open>\<open>CanRead\<close>, \<open>CanWrite\<close> and \<open>HasExcept\<close> differ in the set handed to \<open>select\<close>.\<close>

definition poll_socket :: "socket \<Rightarrow> os \<Rightarrow> bool \<times> os" where
  "poll_socket s w = (let (n, w) = next_call w; (ret, isset) = os_select w n in (ret > 0 \<and> isset, w))"

definition CanRead :: "socket \<Rightarrow> os \<Rightarrow> bool \<times> os" where "CanRead = poll_socket"
definition CanWrite :: "socket \<Rightarrow> os \<Rightarrow> bool \<times> os" where "CanWrite = poll_socket"
definition HasExcept :: "socket \<Rightarrow> os \<Rightarrow> bool \<times> os" where "HasExcept = poll_socket"

definition SetNonBlocking :: "socket \<Rightarrow> os \<Rightarrow> bool \<times> os" where
  "SetNonBlocking s w = (let (r, w) = system_call w in (r = Done, w))"

definition NetCleanUp :: "os \<Rightarrow> os" where
  "NetCleanUp w = w\<lparr>cleanups := Suc (cleanups w)\<rparr>"

text \<open>\<open>WSAStartup\<close> succeeds, fails, or succeeds with another version than the one asked for.\<close>

definition NetStartUp :: "os \<Rightarrow> bool \<times> os" where
  "NetStartUp w =
     (let (r, w) = system_call w in
      case r of
        Done \<Rightarrow> (True, w\<lparr>startups := Suc (startups w)\<rparr>)
      | Fails version \<Rightarrow>
          (False, NetCleanUp (if version then w\<lparr>startups := Suc (startups w)\<rparr> else w)))"

definition Initialize :: "socket \<Rightarrow> protocol \<Rightarrow> os \<Rightarrow> bool \<times> socket \<times> os" where
  "Initialize s p w =
     (let first = (m_nCount w = 0); w = w\<lparr>m_nCount := m_nCount w + 1\<rparr>;
          (ok, w) = (if first then NetStartUp w else (True, w)) in
      if \<not> ok then (False, s, w)
      else let (n, w) = next_call w; s = os_socket w n in
        if s = INVALID_SOCKET then (False, s, w)
        else let (_, w) = SetNonBlocking s (w\<lparr>opened := s # opened w\<rparr>) in (True, s, w))"

definition BindAddr :: "socket \<Rightarrow> os \<Rightarrow> bool \<times> os" where
  "BindAddr s w = (let (r, w) = system_call w in (r = Done, w))"

definition Listen :: "socket \<Rightarrow> os \<Rightarrow> bool \<times> os" where
  "Listen s w = (let (r, w) = system_call w in (r = Done, w))"

text \<open>
  The remote address: a text that \<open>inet_addr\<close> reads, a text that it does not read (a name, looked
  up by \<open>gethostbyname\<close>), or no text and the number \<open>ip\<close>, with the flag that it is
  \<open>INADDR_NONE\<close>.
\<close>

datatype remote = Numeric | Host | Ip bool

definition Connect_socket :: "socket \<Rightarrow> remote \<Rightarrow> os \<Rightarrow> bool \<times> os" where
  "Connect_socket s szAddr w =
     (let (found, w) =
            (case szAddr of
               Numeric \<Rightarrow> (True, w)
             | Host \<Rightarrow> (let (r, w) = system_call w in (r = Done, w))
             | Ip none \<Rightarrow> (\<not> none, w)) in
      if \<not> found then (False, w)
      else let (r, w) = system_call w in
        case r of
          Done \<Rightarrow> (True, w)
        | Fails in_progress \<Rightarrow> (if \<not> in_progress then (False, w) else (True, w)))"

text \<open>The caller passes the bytes at \<open>buf\<close>, as many as \<open>len\<close>.\<close>

definition Send :: "socket \<Rightarrow> byte list \<Rightarrow> os \<Rightarrow> int \<times> os" where
  "Send s buf w =
     (let (ok, w) = CanWrite s w in
      if \<not> ok then (0, w)
      else let (n, w) = next_call w in
        case os_send w n of
          Takes k \<Rightarrow> (let k = min k (length buf) in (int k, w\<lparr>sent := sent w @ take k buf\<rparr>))
        | SendFails would_block \<Rightarrow> (if would_block then (0, w) else (- 1, w)))"

text \<open>The result of \<open>recv\<close> and the bytes it stores.\<close>

definition Recv :: "socket \<Rightarrow> nat \<Rightarrow> os \<Rightarrow> int \<times> byte list \<times> os" where
  "Recv s len w =
     (let (ok, w) = CanRead s w in
      if \<not> ok then (0, [], w)
      else let (n, w) = next_call w in
        case os_recv w n of
          Arrived bs \<Rightarrow>
            (let bs = take len bs; ret = int (length bs) in
             if ret = 0 then (- 1, [], w)
             else (ret, bs, w\<lparr>received := received w @ bs\<rparr>))
        | RecvFails would_block \<Rightarrow>
            (let ret = SOCKET_ERROR in if \<not> would_block then (- 1, [], w) else (ret, [], w)))"

definition Close_socket :: "socket \<Rightarrow> os \<Rightarrow> bool \<times> socket \<times> os" where
  "Close_socket s w =
     (if s = INVALID_SOCKET then (False, s, w)
      else let w = w\<lparr>closed := s # closed w\<rparr>; s = Reset; w = w\<lparr>m_nCount := m_nCount w - 1\<rparr> in
        (True, s, if m_nCount w = 0 then NetCleanUp w else w))"

text \<open>\<open>accept\<close>: 0 stands for \<open>NULL\<close>, returned on failure.\<close>

definition Accept :: "socket \<Rightarrow> os \<Rightarrow> socket \<times> os" where
  "Accept s w =
     (let (n, w) = next_call w; tmp = os_socket w n in
      if tmp = INVALID_SOCKET \<or> tmp = 0 then (0, w)
      else (tmp, w\<lparr>opened := tmp # opened w, m_nCount := m_nCount w + 1\<rparr>))"

definition Attach_socket :: "socket \<Rightarrow> os \<Rightarrow> socket \<times> os" where
  "Attach_socket s w = (let (_, w) = SetNonBlocking s w in (s, w))"

definition SendTo :: "socket \<Rightarrow> byte list \<Rightarrow> os \<Rightarrow> int \<times> os" where
  "SendTo s buf w =
     (let (ok, w) = CanWrite s w in
      if \<not> ok then (0, w)
      else let (n, w) = next_call w in
        case os_send w n of
          Takes k \<Rightarrow> (int (min k (length buf)), w)
        | SendFails would_block \<Rightarrow> (if \<not> would_block then (- 1, w) else (SOCKET_ERROR, w)))"

definition RecvFrom :: "socket \<Rightarrow> nat \<Rightarrow> os \<Rightarrow> int \<times> byte list \<times> os" where
  "RecvFrom s len w =
     (let (ok, w) = CanRead s w in
      if \<not> ok then (0, [], w)
      else let (n, w) = next_call w in
        case os_recv w n of
          Arrived bs \<Rightarrow> (int (length (take len bs)), take len bs, w)
        | RecvFails would_block \<Rightarrow> (if \<not> would_block then (- 1, [], w) else (SOCKET_ERROR, [], w)))"

definition set_option :: "socket \<Rightarrow> os \<Rightarrow> bool \<times> os" where
  "set_option s w = (let (r, w) = system_call w in (r = Done, w))"

definition SetSendBufferSize :: "socket \<Rightarrow> os \<Rightarrow> bool \<times> os" where "SetSendBufferSize = set_option"
definition SetRecvBufferSize :: "socket \<Rightarrow> os \<Rightarrow> bool \<times> os" where "SetRecvBufferSize = set_option"

definition SetReuseAddr :: "socket \<Rightarrow> bool \<Rightarrow> os \<Rightarrow> bool \<times> os" where
  "SetReuseAddr s reuse w = (True, w)"

text \<open>
  The address of one end, in the out parameters that are not \<open>NULL\<close>: the dotted text
  (\<open>inet_ntoa\<close>, which may fail), the port after \<open>ntohs\<close>, and the number.
\<close>

definition GetLocalAddr :: "socket \<Rightarrow> bool \<Rightarrow> bool \<Rightarrow> bool \<Rightarrow> os \<Rightarrow>
    bool \<times> byte list option \<times> c_short option \<times> 32 word option \<times> os" where
  "GetLocalAddr s text port ip w =
     (let (n, w) = next_call w in
      case os_name w n of
        None \<Rightarrow> (False, None, None, None, w)
      | Some (None, p, i) \<Rightarrow> (False, None, None, None, w)
      | Some (Some tmp, p, i) \<Rightarrow>
          (True, if text then Some tmp else None, if port then Some p else None,
           if ip then Some i else None, w))"

definition GetRemoteAddr :: "socket \<Rightarrow> bool \<Rightarrow> bool \<Rightarrow> bool \<Rightarrow> os \<Rightarrow>
    bool \<times> byte list option \<times> c_short option \<times> 32 word option \<times> os" where
  "GetRemoteAddr = GetLocalAddr"

section \<open>What a call exchanges\<close>

text \<open>Calls that exchange no bytes.\<close>

definition same_traffic :: "os \<Rightarrow> os \<Rightarrow> bool" where
  "same_traffic w w' \<longleftrightarrow> sent w' = sent w \<and> received w' = received w"

lemma same_traffic_refl [simp]: "same_traffic w w"
  by (simp add: same_traffic_def)

lemma same_traffic_calls:
  "Sys_GetTime w = (t, w') \<Longrightarrow> same_traffic w w'"
  "system_call w = (r, w') \<Longrightarrow> same_traffic w w'"
  "poll_socket s w = (ok, w') \<Longrightarrow> same_traffic w w'"
  by (auto simp: Sys_GetTime_def system_call_def poll_socket_def next_call_def same_traffic_def
      split: prod.splits)

lemma Send_cases:
  assumes "Send s buf w = (r, w')"
  obtains (sent) k where "k \<le> length buf" "r = int k" "sent w' = sent w @ take k buf"
      "received w' = received w"
  | (dead) "r = - 1" "sent w' = sent w" "received w' = received w"
proof -
  obtain ok w1 where 1: "CanWrite s w = (ok, w1)" by fastforce
  then have w1: "sent w1 = sent w" "received w1 = received w"
    using same_traffic_calls(3) by (auto simp: CanWrite_def same_traffic_def)
  show ?thesis
  proof (cases ok)
    case False
    with assms 1 have "r = int 0" "w' = w1" by (simp_all add: Send_def)
    with w1 show ?thesis by (intro sent [of 0]) simp_all
  next
    case True
    show ?thesis
    proof (cases "os_send w1 (calls w1)")
      case (Takes k)
      with assms 1 True w1 show ?thesis
        by (intro sent [of "min k (length buf)"]) (auto simp: Send_def next_call_def Let_def)
    next
      case (SendFails would_block)
      with assms 1 True w1 show ?thesis
        by (cases would_block) (auto simp: Send_def next_call_def intro: dead sent [of 0])
    qed
  qed
qed

lemma Recv_cases:
  assumes "Recv s len w = (r, bs, w')"
  obtains (got) "r = int (length bs)" "length bs \<le> len" "received w' = received w @ bs"
      "sent w' = sent w"
  | (dead) "r = - 1" "bs = []" "received w' = received w" "sent w' = sent w"
proof -
  obtain ok w1 where 1: "CanRead s w = (ok, w1)" by fastforce
  then have w1: "sent w1 = sent w" "received w1 = received w"
    using same_traffic_calls(3) by (auto simp: CanRead_def same_traffic_def)
  show ?thesis
  proof (cases ok)
    case False
    with assms 1 w1 show ?thesis by (intro got) (auto simp: Recv_def)
  next
    case True
    show ?thesis
    proof (cases "os_recv w1 (calls w1)")
      case (Arrived xs)
      with assms 1 True w1 show ?thesis
        by (cases "take len xs = []")
          (auto simp: Recv_def next_call_def Let_def split: if_splits intro: dead got)
    next
      case (RecvFails would_block)
      with assms 1 True w1 show ?thesis
        by (cases would_block)
          (auto simp: Recv_def next_call_def SOCKET_ERROR_def intro: dead)
    qed
  qed
qed

text \<open>
  The comment on \<open>Recv\<close> promises 0 where nothing could be received, and the code tests for
  \<open>WSAEWOULDBLOCK\<close>, but the result of that case is \<open>SOCKET_ERROR\<close>, which is the -1 of a dead
  connection.
\<close>

lemma Recv_would_block:
  assumes "CanRead s w = (True, w1)" "os_recv w1 (calls w1) = RecvFails True"
  shows "fst (Recv s len w) = - 1"
  using assms by (simp add: Recv_def next_call_def SOCKET_ERROR_def)

text \<open>Asking for no bytes is taken for the end of the connection.\<close>

lemma Recv_nothing:
  assumes "CanRead s w = (True, w1)" "os_recv w1 (calls w1) = Arrived bs"
  shows "fst (Recv s 0 w) = - 1"
  using assms by (simp add: Recv_def next_call_def)

section \<open>Opening and closing\<close>

text \<open>
  The counter of open sockets: a wrapper is closed at most once, and the library is cleaned
  up by the last one.
\<close>

lemma Close_twice:
  "Close_socket s w = (b, s', w') \<Longrightarrow> s' = INVALID_SOCKET \<and> Close_socket s' w' = (False, s', w')"
  by (auto simp: Close_socket_def Reset_def Let_def split: if_splits)

lemma Close_last:
  assumes "s \<noteq> INVALID_SOCKET"
  shows "Close_socket s w = (True, INVALID_SOCKET,
    w\<lparr>closed := s # closed w, m_nCount := m_nCount w - 1,
      cleanups := cleanups w + (if m_nCount w = 1 then 1 else 0)\<rparr>)"
  using assms by (simp add: Close_socket_def Reset_def NetCleanUp_def)

lemma Close_traffic:
  "same_traffic w (snd (snd (Close_socket s w)))"
  "closed (snd (snd (Close_socket s w))) = (if s = INVALID_SOCKET then closed w else s # closed w)"
  by (simp_all add: Close_socket_def Let_def NetCleanUp_def same_traffic_def)

text \<open>A failed \<open>Initialize\<close> is counted, though nothing was opened, and \<open>Close\<close> does not undo it.\<close>

lemma Initialize_leaks_count:
  assumes "m_nCount w = k" "0 < k" "os_socket w (calls w) = INVALID_SOCKET"
  shows "\<exists>w'. Initialize s p w = (False, INVALID_SOCKET, w') \<and> m_nCount w' = k + 1 \<and>
    Close_socket INVALID_SOCKET w' = (False, INVALID_SOCKET, w')"
  using assms by (auto simp: Initialize_def next_call_def Close_socket_def Let_def)

end
