(* ===== verification/TcpSession.thy ===== *)
theory TcpSession
  imports NetPacket NetSocket
begin

text \<open>
  The session of \<open>TestPcNetwork/TestPcNetwork/g_tcpsession.cpp\<close>: a ring of bytes to send, a
  window of bytes received, the packets cut out of it, the system packets that set the seed
  of the cipher, and the life cycle of the connection.

  The virtual functions \<open>OnConnect\<close>, \<open>OnDisconnect\<close>, \<open>OnReceive\<close> belong to the client; the
  model records that and with what they are called.  The packets that the code declares
  \<open>static\<close> are fields of the session here: every use of one starts by overwriting it.
\<close>

section \<open>Data\<close>

datatype net_state = NET_STATE_CONNECTING | NET_STATE_WAITING_SEED | NET_STATE_CONNECTED
  | NET_STATE_DEAD | NET_STATE_ZERO

datatype session_event = OnConnect bool | OnDisconnect | OnReceive "byte list"

definition MAX_BUFFER_SIZE :: int where "MAX_BUFFER_SIZE = MAX_NET_PACKET_SIZE"
definition MAX_NET_SEED_SIZE :: nat where "MAX_NET_SEED_SIZE = 16"
definition NET_CONNECT_TIMEOUT :: "32 word" where "NET_CONNECT_TIMEOUT = 30 * 1000"
definition NET_KEEP_ALIVE_INTERVAL :: "32 word" where "NET_KEEP_ALIVE_INTERVAL = 10 * 1000"
definition NET_TIMEOUT :: "32 word" where "NET_TIMEOUT = 90 * 1000"
definition SYS_PACKET_SET_SEED :: c_short where "SYS_PACKET_SET_SEED = 1"
definition SYS_PACKET_KEEP_ALIVE :: c_short where "SYS_PACKET_KEEP_ALIVE = 2"
definition SYS_PACKET_ALIVE_ACK :: c_short where "SYS_PACKET_ALIVE_ACK = 3"

record session =
  m_socket :: socket
  m_sendCmdPkt :: cmd_packet
  m_recvCmdPkt :: cmd_packet
  m_sendNetPkt :: net_packet
  m_recvNetPkt :: net_packet
  m_state :: net_state
  m_startTime :: "32 word"
  m_lastRecvTime :: "32 word"
  m_lastSendTime :: "32 word"
  m_connTime :: "32 word"
  m_readBuf :: "byte list"
  m_readBufSize :: int
  m_readPos :: int
  m_readLen :: int
  m_writeBuf :: "byte list"
  m_writeBufSize :: int
  m_writeLen :: int
  m_writeBeg :: int
  m_writeEnd :: int
  m_seed :: "byte list"
  m_seedLen :: int
  m_maxBufSize :: int
  m_bEncrypt :: bool
  m_bCompress :: bool
  m_seq :: c_short
  m_sendBytes :: int
  m_recvBytes :: int
  m_rtt :: "32 word"
  events :: "session_event list"
  sys :: os

text \<open>Calls of the system and of the client from within the session.\<close>

definition get_time :: "session \<Rightarrow> 32 word \<times> session" where
  "get_time s = (let (t, w) = Sys_GetTime (sys s) in (t, s\<lparr>sys := w\<rparr>))"

definition new_block :: "int \<Rightarrow> session \<Rightarrow> byte list \<times> session" where
  "new_block n s = (let (k, w) = next_call (sys s) in
     (new_bytes (os_memory w k) (nat n), s\<lparr>sys := w\<rparr>))"

definition notify :: "session_event \<Rightarrow> session \<Rightarrow> session" where
  "notify e s = s\<lparr>events := events s @ [e]\<rparr>"

section \<open>The send buffer\<close>

definition SetBufSize :: "int \<Rightarrow> session \<Rightarrow> session option" where
  "SetBufSize kb s = do { n \<leftarrow> int_mul kb 1000; Some (s\<lparr>m_maxBufSize := n\<rparr>) }"

text \<open>The copy of the content into the new block of \<open>ResizeBuf\<close>.\<close>

definition copy_ring :: "session \<Rightarrow> byte list \<Rightarrow> byte list option" where
  "copy_ring s buf =
     (if m_writeLen s > 0
      then if m_writeEnd s > m_writeBeg s
        then do {
          xs \<leftarrow> fetch_int (m_writeBuf s) (m_writeBeg s) (m_writeLen s);
          poke buf 0 xs
        }
        else do {
          let nLen = m_writeBufSize s - m_writeBeg s;
          xs \<leftarrow> fetch_int (m_writeBuf s) (m_writeBeg s) nLen;
          buf \<leftarrow> poke buf 0 xs;
          ys \<leftarrow> fetch_int (m_writeBuf s) 0 (m_writeLen s - nLen);
          poke_int buf nLen ys
        }
      else Some buf)"

definition ResizeBuf :: "session \<Rightarrow> int \<Rightarrow> (bool \<times> session) option" where
  "ResizeBuf s mn = do {
     newSize \<leftarrow> int_mul mn 2;
     (if mn \<ge> m_maxBufSize s then Some (False, s)
      else let newSize = (if newSize > m_maxBufSize s then m_maxBufSize s else newSize);
               (buf, s) = new_block newSize s in do {
        buf \<leftarrow> copy_ring s buf;
        Some (True, s\<lparr>m_writeBuf := buf, m_writeBeg := 0, m_writeEnd := m_writeLen s,
          m_writeBufSize := newSize\<rparr>)
      })
   }"

text \<open>The copying loop of \<open>PushData\<close>, on the bytes that remain to be copied.\<close>

fun push_loop :: "session \<Rightarrow> byte list \<Rightarrow> session option" where
  "push_loop s [] = Some s"
| "push_loop s (x # xs) = do {
     buf \<leftarrow> poke_int (m_writeBuf s) (m_writeEnd s) [x];
     let e = m_writeEnd s + 1;
     let e = (if e = m_writeBufSize s then 0 else e);
     push_loop (s\<lparr>m_writeBuf := buf, m_writeEnd := e\<rparr>) xs
   }"

definition PushData :: "session \<Rightarrow> byte list \<Rightarrow> int \<Rightarrow> (bool \<times> session) option" where
  "PushData s buf len = do {
     (ok, s) \<leftarrow> (if len \<ge> m_writeBufSize s - m_writeLen s
                 then do {
                   need \<leftarrow> int_add (m_writeLen s) len;
                   need \<leftarrow> int_add need 1;
                   ResizeBuf s need
                 }
                 else Some (True, s));
     if \<not> ok then Some (False, s)
     else do {
       xs \<leftarrow> fetch_int buf 0 len;
       s \<leftarrow> push_loop (s\<lparr>m_writeLen := m_writeLen s + len\<rparr>) xs;
       Some (True, s)
     }
   }"

text \<open>
  One call of \<open>Send\<close> on \<open>len\<close> bytes of the ring from \<open>beg\<close> on, with the bookkeeping that
  follows it; the result tells whether the connection is alive.
\<close>

definition flush_part :: "session \<Rightarrow> int \<Rightarrow> int \<Rightarrow> (bool \<times> session) option" where
  "flush_part s beg len = do {
     xs \<leftarrow> fetch_int (m_writeBuf s) beg len;
     let (ret, w) = Send (m_socket s) xs (sys s);
     let s = s\<lparr>sys := w\<rparr>;
     if ret \<ge> 0
     then do {
       total \<leftarrow> int_add (m_sendBytes s) ret;
       beg \<leftarrow> int_add (m_writeBeg s) ret;
       Some (True, s\<lparr>m_sendBytes := total, m_writeLen := m_writeLen s - ret, m_writeBeg := beg mod m_writeBufSize s\<rparr>)
     }
     else if ret = - 1 then Some (False, s\<lparr>m_state := NET_STATE_DEAD\<rparr>)
     else Some (True, s)
   }"

definition FlushData :: "session \<Rightarrow> session option" where
  "FlushData s =
     (if m_writeLen s = 0 then Some s
      else if m_writeEnd s > m_writeBeg s
      then do { (_, s) \<leftarrow> flush_part s (m_writeBeg s) (m_writeLen s); Some s }
      else do {
        (alive, s) \<leftarrow> flush_part s (m_writeBeg s) (m_writeBufSize s - m_writeBeg s);
        if \<not> alive then Some s
        else if m_writeBeg s \<noteq> 0 then Some s
        else do { (_, s) \<leftarrow> flush_part s 0 (m_writeEnd s); Some s }
      })"

section \<open>The receive buffer\<close>

text \<open>What is left of the last packets moves to the front first.\<close>

definition pack_window :: "session \<Rightarrow> session option" where
  "pack_window s =
     (if m_readLen s = 0 then Some (s\<lparr>m_readPos := 0\<rparr>)
      else if m_readLen s > 0 \<and> m_readPos s \<noteq> 0
      then do {
        xs \<leftarrow> fetch_int (m_readBuf s) (m_readPos s) (m_readLen s);
        buf \<leftarrow> poke (m_readBuf s) 0 xs;
        Some (s\<lparr>m_readBuf := buf, m_readPos := 0\<rparr>)
      }
      else Some s)"

definition Session_ReadData :: "session \<Rightarrow> (bool \<times> session) option" where
  "Session_ReadData s = do {
     s \<leftarrow> pack_window s;
     let (ret, bs, w) = Recv (m_socket s) (nat (m_readBufSize s - m_readLen s)) (sys s);
     let s = s\<lparr>sys := w\<rparr>;
     if ret > 0
     then do {
       buf \<leftarrow> poke_int (m_readBuf s) (m_readLen s) bs;
       total \<leftarrow> int_add (m_recvBytes s) ret;
       let s = s\<lparr>m_readBuf := buf, m_readLen := m_readLen s + ret, m_recvBytes := total\<rparr>;
       let (now, s) = get_time s;
       Some (True, s\<lparr>m_lastRecvTime := now\<rparr>)
     }
     else if ret = 0 then Some (False, s)
     else Some (False, s\<lparr>m_state := NET_STATE_DEAD\<rparr>)
   }"

definition RecvPacket :: "session \<Rightarrow> (bool \<times> session) option" where
  "RecvPacket s = do {
     (ret, p) \<leftarrow> NetBeginRead (m_recvNetPkt s) (drop (nat (m_readPos s)) (m_readBuf s)) (m_readLen s);
     let s = s\<lparr>m_recvNetPkt := p\<rparr>;
     if ret > 0
     then do {
       let s = s\<lparr>m_readLen := m_readLen s - ret, m_readPos := m_readPos s + ret\<rparr>;
       enc \<leftarrow> IsEncrypt p;
       p \<leftarrow> (if enc then Decrypt p (m_seed s) (m_seedLen s) else Some p);
       comp \<leftarrow> IsCompress p;
       (ok, p) \<leftarrow> (if comp then Uncompress p else Some (True, p));
       Some (ok, s\<lparr>m_recvNetPkt := p\<rparr>)
     }
     else if ret = 0 then Some (False, s)
     else Some (False, s\<lparr>m_state := NET_STATE_DEAD\<rparr>)
   }"

section \<open>Packets\<close>

text \<open>The packet on the wire: header, sequence number, and the cipher and the flags in use.\<close>

definition wrap_packet :: "session \<Rightarrow> cmd_packet \<Rightarrow> bool \<Rightarrow> net_packet option" where
  "wrap_packet s packet sysp = do {
     p \<leftarrow> AddCmdPacket (m_sendNetPkt s) packet;
     p \<leftarrow> SetSeq p (m_seq s);
     (if sysp then SetSysPacket p
      else do {
        p \<leftarrow> (if m_bEncrypt s then Encrypt p (m_seed s) (m_seedLen s) else Some p);
        if m_bCompress s then do { (_, p) \<leftarrow> Compress p; Some p } else Some p
      })
   }"

definition SendPacket :: "session \<Rightarrow> cmd_packet \<Rightarrow> bool \<Rightarrow> bool \<Rightarrow> (bool \<times> session) option" where
  "SendPacket s packet flush sysp =
     (if m_state s \<noteq> NET_STATE_CONNECTED then Some (False, s)
      else do {
        let seq = m_seq s + 1;
        let seq = (if seq > MAX_NET_PACKET_SEQ then 1 else seq);
        let s = s\<lparr>m_seq := seq\<rparr>;
        p \<leftarrow> wrap_packet s packet sysp;
        (ok, s) \<leftarrow> PushData (s\<lparr>m_sendNetPkt := p\<rparr>) (m_buffer p) (m_totalSize p);
        if \<not> ok then Some (False, s)
        else do {
          s \<leftarrow> (if flush then FlushData s else Some s);
          Some (True, s)
        }
      })"

text \<open>The bytes of the seed: \<open>%\<close> and \<open>/\<close> of C round towards zero.\<close>

fun seed_bytes :: "nat \<Rightarrow> int \<Rightarrow> byte list" where
  "seed_bytes 0 seed = []"
| "seed_bytes (Suc n) seed = word_of_int (seed smod 255 + 1) # seed_bytes n (seed sdiv 19)"

definition SetSeed :: "c_long \<Rightarrow> session \<Rightarrow> session" where
  "SetSeed seed s =
     (if seed = 0 then s\<lparr>m_bEncrypt := False\<rparr>
      else s\<lparr>m_seed := seed_bytes MAX_NET_SEED_SIZE (sint seed), m_seedLen := int MAX_NET_SEED_SIZE,
             m_bEncrypt := True\<rparr>)"

text \<open>The system packets the session writes: a type and a number.\<close>

definition send_system :: "session \<Rightarrow> c_short \<Rightarrow> c_long \<Rightarrow> session option" where
  "send_system s type param = do {
     let pkt = BeginWrite (m_sendCmdPkt s);
     (_, pkt) \<leftarrow> WriteShort pkt type;
     (_, pkt) \<leftarrow> WriteLong pkt param;
     (_, s) \<leftarrow> SendPacket (s\<lparr>m_sendCmdPkt := pkt\<rparr>) pkt True True;
     Some s
   }"

definition SendSeed :: "session \<Rightarrow> c_long \<Rightarrow> session option" where
  "SendSeed s seed = do { s \<leftarrow> send_system s SYS_PACKET_SET_SEED seed; Some (SetSeed seed s) }"

definition KeepAlive :: "session \<Rightarrow> c_long \<Rightarrow> session option" where
  "KeepAlive s now = send_system s SYS_PACKET_KEEP_ALIVE now"

definition HandleSysPacket :: "session \<Rightarrow> cmd_packet \<Rightarrow> (int \<times> cmd_packet \<times> session) option" where
  "HandleSysPacket s packet = do {
     (r, packet) \<leftarrow> ReadShort packet;
     case r of
       None \<Rightarrow> Some (0, packet, s)
     | Some type \<Rightarrow>
         if type \<noteq> SYS_PACKET_KEEP_ALIVE \<and> type \<noteq> SYS_PACKET_ALIVE_ACK \<and> type \<noteq> SYS_PACKET_SET_SEED
         then Some (0, packet, s)
         else do {
           (r, packet) \<leftarrow> ReadLong packet;
           case r of
             None \<Rightarrow> Some (0, packet, s)
           | Some param \<Rightarrow>
               if type = SYS_PACKET_KEEP_ALIVE
               then do { s \<leftarrow> send_system s SYS_PACKET_ALIVE_ACK param; Some (sint type, packet, s) }
               else if type = SYS_PACKET_ALIVE_ACK
               then let (now, s) = get_time s in Some (sint type, packet, s\<lparr>m_rtt := now - param\<rparr>)
               else let s = (SetSeed param s)\<lparr>m_state := NET_STATE_CONNECTED\<rparr> in
                 Some (sint type, packet, notify (OnConnect True) s)
         }
   }"

partial_function (option) GetPacket :: "session \<Rightarrow> cmd_packet \<Rightarrow> (bool \<times> cmd_packet \<times> session) option" where
  "GetPacket s packet = do {
     (ok, s) \<leftarrow> RecvPacket s;
     if \<not> ok then Some (False, packet, s)
     else do {
       packet \<leftarrow> AttachCmdPacket (m_recvNetPkt s) packet;
       system \<leftarrow> IsSysPacket (m_recvNetPkt s);
       if system
       then do { (_, packet, s) \<leftarrow> HandleSysPacket s packet; GetPacket s packet }
       else Some (True, packet, s)
     }
   }"

section \<open>The life cycle\<close>

definition fresh_buffers :: "session \<Rightarrow> session" where
  "fresh_buffers s =
     (let (rbuf, s) = new_block MAX_BUFFER_SIZE s;
          s = s\<lparr>m_readBuf := rbuf, m_readBufSize := MAX_BUFFER_SIZE\<rparr>;
          (wbuf, s) = new_block MAX_BUFFER_SIZE s
      in s\<lparr>m_writeBuf := wbuf, m_writeBufSize := MAX_BUFFER_SIZE, m_maxBufSize := MAX_BUFFER_SIZE\<rparr>)"

definition close_socket :: "session \<Rightarrow> session" where
  "close_socket s =
     (let (_, sock, w) = Close_socket (m_socket s) (sys s) in s\<lparr>m_socket := Reset, sys := w\<rparr>)"

definition clear_counters :: "session \<Rightarrow> session" where
  "clear_counters s = s\<lparr>m_seedLen := 0, m_seq := 0, m_sendBytes := 0, m_recvBytes := 0,
     m_state := NET_STATE_ZERO, m_writeLen := 0, m_writeBeg := 0, m_writeEnd := 0,
     m_readLen := 0, m_readPos := 0\<rparr>"

text \<open>It ends with \<open>SetBufSize(17)\<close>, whose product is in range.\<close>

definition Session_Reset :: "session \<Rightarrow> session" where
  "Session_Reset s = (clear_counters (close_socket (fresh_buffers (s\<lparr>m_rtt := 0\<rparr>))))
     \<lparr>m_maxBufSize := (MAX_BUFFER_SIZE div 1024 + 1) * 1000\<rparr>"

lemma Session_Reset_SetBufSize:
  "Some (Session_Reset s) = SetBufSize (MAX_BUFFER_SIZE div 1024 + 1)
     (clear_counters (close_socket (fresh_buffers (s\<lparr>m_rtt := 0\<rparr>))))"
  by (simp add: Session_Reset_def SetBufSize_def int_mul_def MAX_BUFFER_SIZE_def MAX_NET_PACKET_SIZE_def
      MAX_CMD_PACKET_SIZE_def NET_PACKET_HEAD_SIZE_def)

definition Close :: "session \<Rightarrow> session" where
  "Close = Session_Reset"

text \<open>
  The constructor, on a record that holds what the memory held; its socket and its packets
  have been constructed before.
\<close>

definition CG_TCPSession :: "session \<Rightarrow> session option" where
  "CG_TCPSession s = do {
     let (k, w) = next_call (sys s);
     (_, c1) \<leftarrow> SetSize (m_sendCmdPkt s) MAX_CMD_PACKET_SIZE (os_memory w k);
     let (k, w) = next_call w;
     (_, c2) \<leftarrow> SetSize (m_recvCmdPkt s) MAX_CMD_PACKET_SIZE (os_memory w k);
     Some (Session_Reset (s\<lparr>m_sendCmdPkt := c1, m_recvCmdPkt := c2, m_bEncrypt := False,
       m_bCompress := True, m_readBuf := [], m_writeBuf := [], sys := w\<rparr>))
   }"

definition Attach :: "session \<Rightarrow> socket \<Rightarrow> session" where
  "Attach s sock =
     (let (sock, w) = Attach_socket sock (sys s);
          s = s\<lparr>m_socket := sock, sys := w, m_state := NET_STATE_CONNECTED\<rparr>;
          (now, s) = get_time s
      in s\<lparr>m_startTime := now, m_lastRecvTime := now, m_lastSendTime := now\<rparr>)"

definition Connect :: "session \<Rightarrow> remote \<Rightarrow> bool \<times> session" where
  "Connect s szAddr =
     (let (ok, sock, w) = Initialize (m_socket s) PROTOCOL_TCP (sys s);
          s = s\<lparr>m_socket := sock, sys := w\<rparr> in
      if \<not> ok then (False, s)
      else let (ok, w) = BindAddr (m_socket s) (sys s); s = s\<lparr>sys := w\<rparr> in
      if \<not> ok then (False, s)
      else let (ok, w) = Connect_socket (m_socket s) szAddr (sys s); s = s\<lparr>sys := w\<rparr> in
      if ok
      then let s = s\<lparr>m_state := NET_STATE_CONNECTING\<rparr>; (now, s) = get_time s in
        (True, s\<lparr>m_connTime := now\<rparr>)
      else (False, s))"

definition DefProc :: "session \<Rightarrow> session option" where
  "DefProc s =
     (if m_state s \<noteq> NET_STATE_CONNECTED \<and> m_state s \<noteq> NET_STATE_WAITING_SEED then Some s
      else do {
        (returned, s) \<leftarrow>
          (if m_state s = NET_STATE_CONNECTED
           then do {
             let (now, s) = get_time s;
             let s = (if now - m_lastSendTime s > NET_KEEP_ALIVE_INTERVAL
                      then s\<lparr>m_lastSendTime := now\<rparr> else s);
             if now - m_lastRecvTime s > NET_TIMEOUT
             then Some (True, s\<lparr>m_state := NET_STATE_DEAD\<rparr>)
             else do { s \<leftarrow> FlushData s; Some (False, s) }
           }
           else Some (False, s));
        if returned then Some s
        else do { (_, s) \<leftarrow> Session_ReadData s; Some s }
      })"

text \<open>The loop of the connected state: every packet that has arrived goes to the client.\<close>

partial_function (option) deliver_loop :: "session \<Rightarrow> session option" where
  "deliver_loop s = do {
     (ok, packet, s) \<leftarrow> GetPacket s (m_recvCmdPkt s);
     let s = s\<lparr>m_recvCmdPkt := packet\<rparr>;
     if ok then deliver_loop (notify (OnReceive (unread packet)) s) else Some s
   }"

text \<open>The connecting state: an exception or the time limit ends the attempt.\<close>

definition connect_failed :: "session \<Rightarrow> bool \<times> session" where
  "connect_failed s =
     (let (ex, w) = HasExcept (m_socket s) (sys s); s = s\<lparr>sys := w\<rparr> in
      if ex then (True, s)
      else let (now, s) = get_time s in (now - m_connTime s > NET_CONNECT_TIMEOUT, s))"

definition process_connecting :: "session \<Rightarrow> session" where
  "process_connecting s =
     (let (late, s) = connect_failed s in
      if late then notify (OnConnect False) (Close s)
      else let (ret, w) = CanWrite (m_socket s) (sys s); s = s\<lparr>sys := w\<rparr> in
        if \<not> ret then s
        else let s = s\<lparr>m_state := NET_STATE_WAITING_SEED\<rparr>; (now, s) = get_time s in
          s\<lparr>m_startTime := now, m_lastSendTime := now, m_lastRecvTime := now\<rparr>)"

text \<open>The state that waits for the seed looks at one packet.\<close>

definition process_waiting :: "session \<Rightarrow> session option" where
  "process_waiting s = do {
     (ok, s) \<leftarrow> RecvPacket s;
     if \<not> ok then Some s
     else do {
       packet \<leftarrow> AttachCmdPacket (m_recvNetPkt s) (m_recvCmdPkt s);
       let s = s\<lparr>m_recvCmdPkt := packet\<rparr>;
       system \<leftarrow> IsSysPacket (m_recvNetPkt s);
       if \<not> system then Some s
       else do {
         (_, packet, s) \<leftarrow> HandleSysPacket s (m_recvCmdPkt s);
         Some (s\<lparr>m_recvCmdPkt := packet\<rparr>)
       }
     }
   }"

definition Process :: "session \<Rightarrow> session option" where
  "Process s = do {
     s \<leftarrow> DefProc s;
     case m_state s of
       NET_STATE_CONNECTED \<Rightarrow> deliver_loop s
     | NET_STATE_DEAD \<Rightarrow> Some (Close (notify OnDisconnect s))
     | NET_STATE_WAITING_SEED \<Rightarrow> process_waiting s
     | NET_STATE_CONNECTING \<Rightarrow> Some (process_connecting s)
     | NET_STATE_ZERO \<Rightarrow> Some s
   }"

section \<open>Observers\<close>

definition IsDead :: "session \<Rightarrow> bool" where "IsDead s \<longleftrightarrow> m_state s = NET_STATE_DEAD"
definition GetState :: "session \<Rightarrow> net_state" where "GetState = m_state"
definition GetRtt :: "session \<Rightarrow> 32 word" where "GetRtt = m_rtt"
definition GetBytesIn :: "session \<Rightarrow> int" where "GetBytesIn = m_recvBytes"
definition GetBytesOut :: "session \<Rightarrow> int" where "GetBytesOut = m_sendBytes"

definition avg_flux :: "int \<Rightarrow> session \<Rightarrow> int \<times> session" where
  "avg_flux n s =
     (let (now, s) = get_time s;
          time = sint ((now - m_startTime s) div 1000);
          time = (if time = 0 then 1 else time)
      in (n sdiv time, s))"

definition GetAvgFluxIn :: "session \<Rightarrow> int \<times> session" where
  "GetAvgFluxIn s = avg_flux (GetBytesIn s) s"

definition GetAvgFluxOut :: "session \<Rightarrow> int \<times> session" where
  "GetAvgFluxOut s = avg_flux (GetBytesOut s) s"

end
