(* ===== verification/SessionBuffers.thy ===== *)
theory SessionBuffers
  imports TcpSession
begin

text \<open>
  The two buffers of a session: the ring of bytes to send is a queue, and whatever is
  accepted reaches the system once and in order; the window of bytes received holds exactly
  what has arrived and has not been cut into packets.
\<close>

section \<open>Reading a ring\<close>

definition ring_list :: "'a list \<Rightarrow> nat \<Rightarrow> nat \<Rightarrow> 'a list" where
  "ring_list buf b n = map (\<lambda>i. buf ! ((b + i) mod length buf)) [0..<n]"

lemma length_ring_list [simp]: "length (ring_list buf b n) = n"
  by (simp add: ring_list_def)

lemma ring_list_0 [simp]: "ring_list buf b 0 = []"
  by (simp add: ring_list_def)

lemma ring_list_flat:
  "b + n \<le> length buf \<Longrightarrow> ring_list buf b n = take n (drop b buf)"
  by (rule nth_equalityI) (auto simp: ring_list_def)

lemma ring_list_wrap:
  assumes "b < length buf" "length buf \<le> b + n" "n \<le> length buf"
  shows "ring_list buf b n = drop b buf @ take (b + n - length buf) buf"
proof (rule nth_equalityI)
  fix i assume "i < length (ring_list buf b n)"
  then have i: "i < n" by simp
  show "ring_list buf b n ! i = (drop b buf @ take (b + n - length buf) buf) ! i"
  proof (cases "i < length buf - b")
    case False
    then have "length buf \<le> b + i" "b + i - length buf < length buf" using i assms by linarith+
    then have "(b + i) mod length buf = b + i - length buf"
      by (simp add: le_mod_geq)
    then show ?thesis using False i assms by (auto simp: ring_list_def nth_append add.commute)
  qed (use i assms in \<open>simp add: ring_list_def nth_append\<close>)
qed (use assms in auto)

lemma ring_list_snoc:
  assumes "n < length buf"
  shows "ring_list (buf[(b + n) mod length buf := x]) b (Suc n) = ring_list buf b n @ [x]"
proof -
  have neq: "(b + n) mod length buf \<noteq> (b + i) mod length buf" if "i < n" for i
  proof
    assume "(b + n) mod length buf = (b + i) mod length buf"
    then have "length buf dvd n - i"
      using that by (metis add_diff_cancel_left mod_eq_dvd_iff_nat nat_add_left_cancel_le nat_less_le)
    with that assms show False by (auto dest: dvd_imp_le)
  qed
  have "(b + n) mod length buf < length buf" using assms by (intro mod_less_divisor) linarith
  with neq show ?thesis by (auto simp: ring_list_def nth_list_update_neq)
qed

lemma ring_list_drop:
  "k \<le> n \<Longrightarrow> ring_list buf ((b + k) mod length buf) (n - k) = drop k (ring_list buf b n)"
  by (rule nth_equalityI) (auto simp: ring_list_def mod_simps add.assoc)

lemma ring_list_take:
  "k \<le> n \<Longrightarrow> take k (ring_list buf b n) = ring_list buf b k"
  by (rule nth_equalityI) (auto simp: ring_list_def)

section \<open>The ring of a session\<close>

text \<open>
  Begin, end and length agree and the ring is never full, so that an empty and a full one
  are not confused; its size is an \<open>int\<close>.
\<close>

definition ring_ok :: "session \<Rightarrow> bool" where
  "ring_ok s \<longleftrightarrow> (\<exists>b n. b < length (m_writeBuf s) \<and> n < length (m_writeBuf s) \<and>
     length (m_writeBuf s) < 2 ^ 31 \<and> m_writeBufSize s = int (length (m_writeBuf s)) \<and> m_writeBeg s = int b \<and> m_writeLen s = int n \<and>
     m_writeEnd s = int ((b + n) mod length (m_writeBuf s)))"

definition pending :: "session \<Rightarrow> byte list" where
  "pending s = ring_list (m_writeBuf s) (nat (m_writeBeg s)) (nat (m_writeLen s))"

text \<open>A block fits when the ring has room for it, or may be enlarged to have.\<close>

definition ring_fits :: "session \<Rightarrow> nat \<Rightarrow> bool" where
  "ring_fits s k \<longleftrightarrow> int k < m_writeBufSize s - m_writeLen s \<or> m_writeLen s + int k + 1 < m_maxBufSize s"

text \<open>
  \<open>ResizeBuf\<close> doubles the size asked for before it compares it with the limit, so a limit that
  a client sets high, or a block that is long, makes it overflow.  With the limits and the
  blocks below half a gigabyte it does not.
\<close>

definition resizable :: "session \<Rightarrow> nat \<Rightarrow> bool" where
  "resizable s k \<longleftrightarrow> (m_writeLen s + int k + 1) * 2 < 2 ^ 31"

definition ring_limits :: "session \<Rightarrow> bool" where
  "ring_limits s \<longleftrightarrow> m_writeBufSize s \<le> 2 ^ 29 \<and> m_maxBufSize s \<le> 2 ^ 29"

definition short_block :: "byte list \<Rightarrow> bool" where
  "short_block xs \<longleftrightarrow> length xs < 2 ^ 29"

lemma ring_okE:
  assumes "ring_ok s"
  obtains b n where "b < length (m_writeBuf s)" "n < length (m_writeBuf s)"
    "m_writeBufSize s = int (length (m_writeBuf s))" "m_writeBeg s = int b" "m_writeLen s = int n"
    "m_writeEnd s = int ((b + n) mod length (m_writeBuf s))" "pending s = ring_list (m_writeBuf s) b n"
    "length (m_writeBuf s) < 2 ^ 31"
  using assms unfolding ring_ok_def pending_def by force

lemma ring_okI:
  assumes "b < length (m_writeBuf s)" "n < length (m_writeBuf s)" "length (m_writeBuf s) < 2 ^ 31"
    "m_writeBufSize s = int (length (m_writeBuf s))" "m_writeBeg s = int b" "m_writeLen s = int n"
    "m_writeEnd s = int ((b + n) mod length (m_writeBuf s))"
  shows "ring_ok s \<and> pending s = ring_list (m_writeBuf s) b n"
  using assms unfolding ring_ok_def pending_def by auto

text \<open>The end lies behind the beginning exactly when the bytes lie in one piece.\<close>

lemma ring_end:
  assumes "b < z" "0 < n" "n < z"
  shows "(b + n) mod z > b \<longleftrightarrow> b + n < (z :: nat)"
  using assms by (auto simp: mod_if)

text \<open>The part of the session that the ring does not touch.\<close>

definition off_ring :: "session \<Rightarrow> session \<Rightarrow> bool" where
  "off_ring s s' \<longleftrightarrow> (\<exists>buf zb n b e w. s' = s\<lparr>m_writeBuf := buf, m_writeBufSize := zb,
     m_writeLen := n, m_writeBeg := b, m_writeEnd := e, sys := w\<rparr> \<and> same_traffic (sys s) w \<and>
     zb \<le> max (m_writeBufSize s) (m_maxBufSize s))"

lemma off_ring_refl [simp]: "off_ring s s"
  unfolding off_ring_def by (rule exI [of _ "m_writeBuf s"], rule exI [of _ "m_writeBufSize s"],
    rule exI [of _ "m_writeLen s"], rule exI [of _ "m_writeBeg s"], rule exI [of _ "m_writeEnd s"],
    rule exI [of _ "sys s"]) simp

lemma off_ring_trans: "off_ring s t \<Longrightarrow> off_ring t u \<Longrightarrow> off_ring s u"
  unfolding off_ring_def same_traffic_def by force

lemma push_loop_spec:
  assumes "length (m_writeBuf s) = z" "b < z" "n + length xs < z" "m_writeBufSize s = int z"
    "m_writeEnd s = int ((b + n) mod z)"
  shows "\<exists>buf. push_loop s xs = Some (s\<lparr>m_writeBuf := buf,
      m_writeEnd := int ((b + n + length xs) mod z)\<rparr>) \<and> length buf = z \<and>
    ring_list buf b (n + length xs) = ring_list (m_writeBuf s) b n @ xs"
  using assms
proof (induction xs arbitrary: s n)
  case (Cons x xs)
  define e where "e = (b + n) mod z"
  have e: "e < z" using Cons.prems by (auto simp: e_def)
  define buf where "buf = (m_writeBuf s)[e := x]"
  define e' where "e' = int ((b + Suc n) mod z)"
  have "poke_int (m_writeBuf s) (int e) [x] = Some buf"
    using e Cons.prems(1) by (simp add: poke_int_def poke_def buf_def upd_conv_take_nth_drop)
  moreover have "(if int e + 1 = int z then 0 else int e + 1) = e'"
    using e by (auto simp: e'_def e_def mod_Suc)
  ultimately have step: "push_loop s (x # xs) = push_loop (s\<lparr>m_writeBuf := buf, m_writeEnd := e'\<rparr>) xs"
    using Cons.prems(4,5) by (simp add: Let_def flip: e_def)
  have "\<exists>buf'. push_loop (s\<lparr>m_writeBuf := buf, m_writeEnd := e'\<rparr>) xs =
      Some (s\<lparr>m_writeBuf := buf, m_writeEnd := e', m_writeBuf := buf',
        m_writeEnd := int ((b + Suc n + length xs) mod z)\<rparr>) \<and>
      length buf' = z \<and>
      ring_list buf' b (Suc n + length xs) = ring_list buf b (Suc n) @ xs"
    using Cons.prems Cons.IH [of "s\<lparr>m_writeBuf := buf, m_writeEnd := e'\<rparr>" "Suc n"]
    by (simp add: buf_def e'_def)
  moreover have "ring_list buf b (Suc n) = ring_list (m_writeBuf s) b n @ [x]"
    using ring_list_snoc [of n "m_writeBuf s" b x] Cons.prems by (simp add: buf_def e_def)
  ultimately show ?case unfolding step by auto
next
  case Nil
  then show ?case by (intro exI [of _ "m_writeBuf s"], cases s) auto
qed

lemma new_block_sys:
  "new_block n s = (buf, s') \<Longrightarrow> length buf = nat n \<and>
     (\<exists>w. s' = s\<lparr>sys := w\<rparr> \<and> same_traffic (sys s) w)"
  by (auto simp: new_block_def next_call_def same_traffic_def)

text \<open>Enlarging the ring keeps what it holds.\<close>

lemma copy_ring_spec:
  assumes "ring_ok s" "m_writeLen s = int n" "n < length buf"
  shows "\<exists>buf'. copy_ring s buf = Some buf' \<and> length buf' = length buf \<and> take n buf' = pending s"
proof -
  let ?z = "length (m_writeBuf s)"
  from assms(1,2) obtain b where s: "b < ?z" "n < ?z" "m_writeBufSize s = int ?z"
    "m_writeBeg s = int b" "m_writeLen s = int n" "m_writeEnd s = int ((b + n) mod ?z)"
    "pending s = ring_list (m_writeBuf s) b n"
    by (auto elim!: ring_okE)
  consider (empty) "n = 0" | (flat) "0 < n" "b + n < ?z" | (wrap) "0 < n" "?z \<le> b + n"
    by linarith
  then show ?thesis
  proof cases
    case empty
    then show ?thesis by (simp add: copy_ring_def s)
  next
    case flat
    then have "fetch_int (m_writeBuf s) (int b) (int n) = Some (pending s)"
      by (simp add: fetch_int_nat fetch_def s(7) ring_list_flat)
    with flat s assms(3) show ?thesis
      by (simp add: copy_ring_def ring_end poke_def)
  next
    case wrap
    obtain l d where z: "?z = b + l" and d: "n = l + d"
      using wrap(2) s(1) by (metis add_le_cancel_left le_Suc_ex less_imp_le)
    have bound: "d \<le> b" "l < length buf" "l + d \<le> length buf" "min (b + l) d = d"
      using s(2) assms(3) by (simp_all add: z d)
    have p: "pending s = drop b (m_writeBuf s) @ take d (m_writeBuf s)"
      using ring_list_wrap [of b "m_writeBuf s" n] s(1,2) wrap by (simp add: s(7) z d)
    have "fetch (m_writeBuf s) b l = Some (drop b (m_writeBuf s))"
      "fetch (m_writeBuf s) 0 d = Some (take d (m_writeBuf s))"
      using bound z by (simp_all add: fetch_def)
    moreover have "poke buf 0 (drop b (m_writeBuf s)) = Some (drop b (m_writeBuf s) @ drop l buf)"
      using bound z by (simp add: poke_def)
    moreover have "poke (drop b (m_writeBuf s) @ drop l buf) l (take d (m_writeBuf s))
        = Some (pending s @ drop n buf)"
      using bound z by (simp add: poke_def p d add.commute)
    moreover have "m_writeLen s > 0" "\<not> m_writeEnd s > m_writeBeg s"
      using wrap s(1,2) ring_end [of b ?z n] by (simp_all add: s(4-6))
    ultimately have "copy_ring s buf = Some (pending s @ drop n buf)"
      using fetch_int_nat [of "m_writeBuf s" 0 d]
      by (simp add: copy_ring_def s(3-5) z d fetch_int_nat poke_int_nat Let_def)
    moreover have "length (pending s) = n" by (simp add: s(7))
    ultimately show ?thesis using assms(3) by simp
  qed
qed

lemma off_ringI:
  "s' = s\<lparr>m_writeBuf := buf, m_writeBufSize := zb, m_writeLen := n, m_writeBeg := b,
     m_writeEnd := e, sys := w\<rparr> \<Longrightarrow> same_traffic (sys s) w \<Longrightarrow>
   zb \<le> max (m_writeBufSize s) (m_maxBufSize s) \<Longrightarrow> off_ring s s'"
  unfolding off_ring_def by blast

lemma ResizeBuf_spec:
  assumes "ring_ok s" "m_writeLen s + int k + 1 < m_maxBufSize s" "resizable s k"
  shows "\<exists>s'. ResizeBuf s (m_writeLen s + int k + 1) = Some (True, s') \<and> ring_ok s' \<and>
    pending s' = pending s \<and> off_ring s s' \<and> int k < m_writeBufSize s' - m_writeLen s'"
proof -
  from assms(1) obtain n where n: "m_writeLen s = int n" by (rule ring_okE)
  define mn where "mn = m_writeLen s + int k + 1"
  define newSize where "newSize = (if mn * 2 > m_maxBufSize s then m_maxBufSize s else mn * 2)"
  have room: "\<not> mn \<ge> m_maxBufSize s" "newSize > int n + int k" "newSize < 2 ^ 31" "newSize \<le> m_maxBufSize s"
    using assms(2,3) n by (auto simp: newSize_def mn_def resizable_def)
  have dbl: "int_mul mn 2 = Some (mn * 2)"
    using assms(3) n by (auto simp: int_mul_def mn_def resizable_def)
  obtain buf s1 where nb: "new_block newSize s = (buf, s1)" by fastforce
  from new_block_sys [OF nb] obtain w where s1: "s1 = s\<lparr>sys := w\<rparr>" "same_traffic (sys s) w"
    "length buf = nat newSize" by blast
  then have len: "n < length buf" using room by simp
  have "ring_ok s1" "pending s1 = pending s"
    using assms(1) by (simp_all add: s1(1) ring_ok_def pending_def)
  with copy_ring_spec [of s1 n buf] n len obtain buf' where
    buf': "copy_ring s1 buf = Some buf'" "length buf' = length buf" "take n buf' = pending s"
    by (auto simp: s1(1))
  define s' where "s' = s1\<lparr>m_writeBuf := buf', m_writeBeg := 0, m_writeEnd := int n,
    m_writeBufSize := newSize\<rparr>"
  have run: "ResizeBuf s mn = Some (True, s')"
    using room(1) nb s1(1) buf'(1) n
    by (simp add: ResizeBuf_def dbl newSize_def [symmetric] s'_def Let_def)
  have "ring_ok s' \<and> pending s' = ring_list (m_writeBuf s') 0 n"
    using len buf'(2) s1 n room(2,3) by (intro ring_okI) (simp_all add: s'_def)
  moreover have "ring_list (m_writeBuf s') 0 n = pending s"
    using len buf'(2,3) by (simp add: s'_def ring_list_flat)
  moreover have "off_ring s s'"
    using s1 n room(4) by (intro off_ringI [where buf = buf' and zb = newSize and n = "int n" and b = 0 and
          e = "int n" and w = w]) (simp_all add: s'_def)
  moreover have "int k < m_writeBufSize s' - m_writeLen s'"
    using room n s1(1) by (simp add: s'_def)
  ultimately show ?thesis using run unfolding mn_def by auto
qed

lemma ResizeBuf_refuses:
  "ring_ok s \<Longrightarrow> m_maxBufSize s \<le> m_writeLen s + int k + 1 \<Longrightarrow> resizable s k \<Longrightarrow>
     ResizeBuf s (m_writeLen s + int k + 1) = Some (False, s)"
  by (auto simp: ResizeBuf_def int_mul_def resizable_def elim!: ring_okE)

text \<open>Making room for a block: there is some, or the ring is enlarged, or the block is refused.\<close>

definition make_room :: "session \<Rightarrow> nat \<Rightarrow> (bool \<times> session) option" where
  "make_room s k =
     (if int k \<ge> m_writeBufSize s - m_writeLen s
      then do {
        need \<leftarrow> int_add (m_writeLen s) (int k);
        need \<leftarrow> int_add need 1;
        ResizeBuf s need
      }
      else Some (True, s))"

lemma PushData_room:
  "PushData s buf (int k) = do {
     (ok, s) \<leftarrow> make_room s k;
     if \<not> ok then Some (False, s)
     else do {
       xs \<leftarrow> fetch_int buf 0 (int k);
       s \<leftarrow> push_loop (s\<lparr>m_writeLen := m_writeLen s + int k\<rparr>) xs;
       Some (True, s)
     }
   }"
  by (simp add: PushData_def make_room_def)

lemma make_room_cases:
  assumes "ring_ok s"
  obtains (overflow) "make_room s k = None" "\<not> resizable s k"
  | (refused) "make_room s k = Some (False, s)" "\<not> ring_fits s k"
  | (room) s1 where "make_room s k = Some (True, s1)" "ring_fits s k" "ring_ok s1" "pending s1 = pending s"
      "off_ring s s1" "int k < m_writeBufSize s1 - m_writeLen s1"
proof (cases "int k \<ge> m_writeBufSize s - m_writeLen s")
  case False
  then show ?thesis using assms by (intro room [of s]) (auto simp: make_room_def ring_fits_def)
next
  case tight: True
  from assms obtain n where n: "m_writeLen s = int n" by (rule ring_okE)
  show ?thesis
  proof (cases "resizable s k")
    case False
    then have "make_room s k = None"
      using tight n by (auto simp: make_room_def int_add_def ResizeBuf_def int_mul_def resizable_def)
    then show ?thesis using False by (rule overflow)
  next
    case True
    then have "make_room s k = ResizeBuf s (m_writeLen s + int k + 1)"
      using tight n by (simp add: make_room_def int_add_def resizable_def)
    moreover have "ring_fits s k \<longleftrightarrow> m_writeLen s + int k + 1 < m_maxBufSize s"
      using tight by (auto simp: ring_fits_def)
    ultimately show ?thesis
      using ResizeBuf_spec [OF assms _ True] ResizeBuf_refuses [OF assms _ True] room refused
      by (cases "ring_fits s k") auto
  qed
qed

text \<open>Pushing a block: appended whole, or refused and nothing changed.\<close>

lemma push_into_room:
  assumes "ring_ok s1" "int (length xs) < m_writeBufSize s1 - m_writeLen s1"
  shows "\<exists>s'. push_loop (s1\<lparr>m_writeLen := m_writeLen s1 + int (length xs)\<rparr>) xs = Some s' \<and> ring_ok s' \<and>
    pending s' = pending s1 @ xs \<and> off_ring s1 s'"
proof -
  let ?z = "length (m_writeBuf s1)"
  from assms(1) obtain b n where ring: "b < ?z" "n < ?z" "m_writeBufSize s1 = int ?z"
    "m_writeBeg s1 = int b" "m_writeLen s1 = int n" "m_writeEnd s1 = int ((b + n) mod ?z)"
    "pending s1 = ring_list (m_writeBuf s1) b n" "?z < 2 ^ 31" by (rule ring_okE)
  with assms(2) have fit: "n + length xs < ?z" by simp
  let ?s2 = "s1\<lparr>m_writeLen := m_writeLen s1 + int (length xs)\<rparr>"
  from fit ring obtain buf where buf: "push_loop ?s2 xs =
      Some (?s2\<lparr>m_writeBuf := buf, m_writeEnd := int ((b + n + length xs) mod ?z)\<rparr>)" "length buf = ?z"
    "ring_list buf b (n + length xs) = ring_list (m_writeBuf s1) b n @ xs"
    using push_loop_spec [of ?s2 ?z b n xs] by auto
  define s' where "s' = ?s2\<lparr>m_writeBuf := buf, m_writeEnd := int ((b + n + length xs) mod ?z)\<rparr>"
  have "ring_ok s' \<and> pending s' = ring_list (m_writeBuf s') b (n + length xs)"
    using ring buf(2) fit by (intro ring_okI) (simp_all add: s'_def add.assoc)
  moreover have "ring_list (m_writeBuf s') b (n + length xs) = pending s1 @ xs"
    using buf(3) ring(7) by (simp add: s'_def)
  moreover have "off_ring s1 s'"
    by (intro off_ringI [where buf = buf and zb = "m_writeBufSize s1" and b = "m_writeBeg s1" and
          n = "m_writeLen s1 + int (length xs)" and e = "int ((b + n + length xs) mod ?z)" and
          w = "sys s1"]) (simp_all add: s'_def)
  ultimately show ?thesis using buf(1) by (simp add: s'_def)
qed

lemma PushData_cases:
  assumes "ring_ok s"
  obtains (overflow) "PushData s (xs @ rest) (int (length xs)) = None" "\<not> resizable s (length xs)"
  | (full) "PushData s (xs @ rest) (int (length xs)) = Some (False, s)" "\<not> ring_fits s (length xs)"
  | (pushed) s' where "PushData s (xs @ rest) (int (length xs)) = Some (True, s')" "ring_fits s (length xs)"
      "ring_ok s'" "pending s' = pending s @ xs" "off_ring s s'"
  using assms
proof (cases rule: make_room_cases [where k = "length xs"])
  case (room s1)
  have src: "fetch_int (xs @ rest) 0 (int (length xs)) = Some xs"
    using fetch_int_nat [of "xs @ rest" 0] by (simp add: fetch_def)
  obtain s' where "push_loop (s1\<lparr>m_writeLen := m_writeLen s1 + int (length xs)\<rparr>) xs = Some s'"
    "ring_ok s'" "pending s' = pending s1 @ xs" "off_ring s1 s'"
    using push_into_room [OF room(3,6)] by blast
  then show ?thesis
    using room src off_ring_trans [OF room(5)] by (intro pushed [of s']) (simp_all add: PushData_room)
qed (simp_all add: PushData_room overflow full)

lemma limits_resizable:
  "ring_ok s \<Longrightarrow> ring_limits s \<Longrightarrow> k < 2 ^ 29 \<Longrightarrow> resizable s k"
  by (auto simp: ring_limits_def resizable_def elim!: ring_okE)

lemma off_ring_limits:
  "off_ring s s' \<Longrightarrow> ring_limits s \<Longrightarrow> ring_limits s'"
  by (auto simp: off_ring_def ring_limits_def)

definition push_ring :: "session \<Rightarrow> byte list \<Rightarrow> (bool \<times> session) option" where
  "push_ring s xs = PushData s xs (int (length xs))"

definition ring_ready :: "session \<Rightarrow> bool" where
  "ring_ready s \<longleftrightarrow> ring_ok s \<and> ring_limits s \<and> 0 \<le> m_sendBytes s"

lemma push_ring_ready:
  assumes "ring_ready s" "short_block xs"
  shows "\<exists>s'. push_ring s xs = Some (ring_fits s (length xs), s') \<and> ring_ready s' \<and>
    pending s' = pending s @ (if ring_fits s (length xs) then xs else []) \<and>
    (\<not> ring_fits s (length xs) \<longrightarrow> s' = s)"
proof -
  have s: "ring_ok s" "ring_limits s" "0 \<le> m_sendBytes s" using assms(1) by (simp_all add: ring_ready_def)
  from s(1) show ?thesis
  proof (cases rule: PushData_cases [of s xs "[]"])
    case overflow
    with limits_resizable s(1,2) assms(2) show ?thesis by (auto simp: short_block_def)
  next
    case (pushed s')
    then have "m_sendBytes s' = m_sendBytes s" by (auto simp: off_ring_def)
    with pushed s off_ring_limits show ?thesis by (auto simp: push_ring_def ring_ready_def)
  qed (use assms(1) in \<open>simp add: push_ring_def\<close>)
qed

interpretation ring: byte_sink short_block ring_ready pending ring_fits push_ring
proof unfold_locales
  fix s and xs :: "byte list" assume "ring_ready s" "short_block xs" "ring_fits s (length xs)"
  then show "\<exists>s'. push_ring s xs = Some (True, s') \<and> ring_ready s' \<and> pending s' = pending s @ xs"
    using push_ring_ready [of s xs] by auto
next
  fix s and xs :: "byte list" assume "ring_ready s" "short_block xs" "\<not> ring_fits s (length xs)"
  then show "push_ring s xs = Some (False, s)"
    using push_ring_ready [of s xs] by auto
qed

section \<open>Sending\<close>

text \<open>What sending leaves alone: the receiving side, the cipher, the clocks, the client.\<close>

definition same_receiver :: "session \<Rightarrow> session \<Rightarrow> bool" where
  "same_receiver s s' \<longleftrightarrow> m_socket s' = m_socket s \<and> m_recvCmdPkt s' = m_recvCmdPkt s \<and>
     m_recvNetPkt s' = m_recvNetPkt s \<and> m_startTime s' = m_startTime s \<and>
     m_lastRecvTime s' = m_lastRecvTime s \<and> m_lastSendTime s' = m_lastSendTime s \<and>
     m_connTime s' = m_connTime s \<and> m_readBuf s' = m_readBuf s \<and> m_readBufSize s' = m_readBufSize s \<and>
     m_readPos s' = m_readPos s \<and> m_readLen s' = m_readLen s \<and> m_seed s' = m_seed s \<and>
     m_seedLen s' = m_seedLen s \<and> m_maxBufSize s' = m_maxBufSize s \<and>
     m_bEncrypt s' = m_bEncrypt s \<and> m_bCompress s' = m_bCompress s \<and>
     m_recvBytes s' = m_recvBytes s \<and> m_rtt s' = m_rtt s \<and> events s' = events s"

text \<open>The connection may turn out dead on the way.\<close>

definition sending :: "session \<Rightarrow> session \<Rightarrow> bool" where
  "sending s s' \<longleftrightarrow> same_receiver s s' \<and> received (sys s') = received (sys s) \<and>
     (m_state s' = m_state s \<or> m_state s' = NET_STATE_DEAD) \<and>
     m_writeBufSize s' \<le> max (m_writeBufSize s) (m_maxBufSize s)"

lemma sending_refl [simp]: "sending s s"
  by (simp add: sending_def same_receiver_def)

lemma sending_trans: "sending s t \<Longrightarrow> sending t u \<Longrightarrow> sending s u"
  by (auto simp: sending_def same_receiver_def)

lemma off_ring_sending: "off_ring s s' \<Longrightarrow> sending s s'"
  by (auto simp: off_ring_def sending_def same_receiver_def same_traffic_def)

text \<open>Everything accepted so far: what the system has taken and what is waiting.\<close>

definition outgoing :: "session \<Rightarrow> byte list" where
  "outgoing s = sent (sys s) @ pending s"

lemma off_ring_outgoing:
  "off_ring s s' \<Longrightarrow> outgoing s' = sent (sys s) @ pending s' \<and> m_sendBytes s' = m_sendBytes s"
  by (auto simp: off_ring_def outgoing_def same_traffic_def)

text \<open>Flushing does not touch the packets under construction either.\<close>

definition flushing :: "session \<Rightarrow> session \<Rightarrow> bool" where
  "flushing s s' \<longleftrightarrow> sending s s' \<and> m_seq s' = m_seq s \<and> m_sendNetPkt s' = m_sendNetPkt s \<and>
     m_sendCmdPkt s' = m_sendCmdPkt s"

lemma flushing_refl [simp]: "flushing s s"
  by (simp add: flushing_def)

lemma flushing_trans: "flushing s t \<Longrightarrow> flushing t u \<Longrightarrow> flushing s u"
  by (auto simp: flushing_def intro: sending_trans)

lemma ring_advance:
  assumes "ring_ok s" "k \<le> length (pending s)"
    "s' = s\<lparr>sys := w, m_sendBytes := c, m_writeLen := m_writeLen s - int k,
       m_writeBeg := (m_writeBeg s + int k) mod m_writeBufSize s\<rparr>"
  shows "ring_ok s' \<and> pending s' = drop k (pending s)"
proof -
  let ?z = "length (m_writeBuf s)"
  from assms(1) obtain b n where s: "b < ?z" "n < ?z" "m_writeBufSize s = int ?z"
    "m_writeBeg s = int b" "m_writeLen s = int n" "m_writeEnd s = int ((b + n) mod ?z)"
    "pending s = ring_list (m_writeBuf s) b n" "?z < 2 ^ 31" by (rule ring_okE)
  then have k: "k \<le> n" using assms(2) by simp
  have "(b + k) mod ?z < ?z" using s(1) by (intro mod_less_divisor) linarith
  moreover have "((b + k) mod ?z + (n - k)) mod ?z = (b + n) mod ?z"
    using k by (simp only: mod_add_left_eq) simp
  moreover have "int n - int k = int (n - k)" using k by (simp add: of_nat_diff)
  moreover have "(int b + int k) mod int ?z = int ((b + k) mod ?z)" by (simp add: of_nat_mod)
  ultimately have "ring_ok s' \<and> pending s' = ring_list (m_writeBuf s') ((b + k) mod ?z) (n - k)"
    using s k unfolding assms(3) by (intro ring_okI) simp_all
  then show ?thesis using ring_list_drop [OF k, of "m_writeBuf s" b] s(7) by (simp add: assms(3))
qed

text \<open>
  The counter of the bytes sent is an \<open>int\<close>: it has room for the bytes that wait and \<open>n\<close> more,
  or sending may overflow it.
\<close>

definition send_load :: "session \<Rightarrow> int" where
  "send_load s = m_sendBytes s + int (length (pending s))"

lemma flush_part_cases:
  assumes "ring_ok s" "0 \<le> m_sendBytes s" "m_writeBeg s = int b" "l \<le> length (pending s)"
    "b + l \<le> length (m_writeBuf s)" "fetch (m_writeBuf s) b l = Some (take l (pending s))"
  obtains (sent) k s' where "flush_part s (int b) (int l) = Some (True, s')" "k \<le> l"
      "m_sendBytes s' = m_sendBytes s + int k" "ring_ok s'" "pending s' = drop k (pending s)"
      "outgoing s' = outgoing s" "flushing s s'" "m_writeEnd s' = m_writeEnd s" "m_writeBuf s' = m_writeBuf s"
      "m_writeBeg s' = (m_writeBeg s + int k) mod m_writeBufSize s" "m_state s' = m_state s"
  | (dead) s' where "flush_part s (int b) (int l) = Some (False, s')" "ring_ok s'"
      "pending s' = pending s" "outgoing s' = outgoing s" "flushing s s'"
      "m_sendBytes s' = m_sendBytes s" "m_state s' = NET_STATE_DEAD"
  | (overflow) "flush_part s (int b) (int l) = None" "\<not> m_sendBytes s + int l < 2 ^ 31"
proof -
  obtain r w where rw: "Send (m_socket s) (take l (pending s)) (sys s) = (r, w)" by fastforce
  then show ?thesis
  proof (cases rule: Send_cases)
    case (sent k)
    then have k: "k \<le> l" by simp
    define s' where "s' = s\<lparr>sys := w, m_sendBytes := m_sendBytes s + int k,
      m_writeLen := m_writeLen s - int k, m_writeBeg := (m_writeBeg s + int k) mod m_writeBufSize s\<rparr>"
    have "length (m_writeBuf s) < 2 ^ 31" using assms(1) by (rule ring_okE)
    then have beg: "int_add (m_writeBeg s) (int k) = Some (m_writeBeg s + int k)"
      using assms(3,5) k by (simp add: int_add_def)
    show ?thesis
    proof (cases "m_sendBytes s + int k < 2 ^ 31")
      case True
      then have total: "int_add (m_sendBytes s) (int k) = Some (m_sendBytes s + int k)"
        using assms(2) by (simp add: int_add_def)
      have "flush_part s (int b) (int l) = Some (True, s')"
        using assms(6) rw sent(2) beg total by (simp add: flush_part_def fetch_int_nat s'_def)
      moreover have "ring_ok s' \<and> pending s' = drop k (pending s)"
        using k assms(4) by (intro ring_advance [OF assms(1) _ s'_def]) simp
      moreover from this have "outgoing s' = outgoing s"
        using sent(3) k by (simp add: outgoing_def s'_def min_def)
      moreover have "flushing s s'" using sent(4) by (simp add: flushing_def sending_def same_receiver_def s'_def)
      ultimately show ?thesis using k by (intro that(1) [of s' k]) (simp_all add: s'_def)
    next
      case False
      then have "int_add (m_sendBytes s) (int k) = None" by (simp add: int_add_def)
      then have "flush_part s (int b) (int l) = None"
        using assms(6) rw sent(2) by (simp add: flush_part_def fetch_int_nat)
      then show ?thesis using False k by (intro that(3)) auto
    qed
  next
    case dead
    define s' where "s' = s\<lparr>sys := w, m_state := NET_STATE_DEAD\<rparr>"
    have "flush_part s (int b) (int l) = Some (False, s')"
      using assms(6) rw dead(1) by (simp add: flush_part_def fetch_int_nat s'_def)
    then show ?thesis using assms(1) dead
      by (intro that(2) [of s'])
        (simp_all add: s'_def ring_ok_def pending_def outgoing_def flushing_def sending_def same_receiver_def)
  qed
qed

text \<open>
  What one flush does: the front of what waits goes to the system, and the connection may turn
  out dead.
\<close>

definition flushed :: "session \<Rightarrow> session \<Rightarrow> bool" where
  "flushed s s' \<longleftrightarrow> ring_ok s' \<and> outgoing s' = outgoing s \<and> flushing s s' \<and>
     (\<exists>k \<le> length (pending s). m_sendBytes s' = m_sendBytes s + int k \<and> pending s' = drop k (pending s))"

lemma flushed_load: "flushed s s' \<Longrightarrow> send_load s' = send_load s"
  by (auto simp: flushed_def send_load_def)

text \<open>When the ring wraps, the first piece is sent, and the second if the first went out whole.\<close>

lemma FlushData_wrapped:
  assumes "ring_ok s" "m_writeBeg s = int b" "m_writeLen s = int n" "0 < n"
    "length (m_writeBuf s) \<le> b + n" "0 \<le> m_sendBytes s"
  shows "(send_load s < 2 ^ 31 \<longrightarrow> FlushData s \<noteq> None) \<and> (\<forall>s'. FlushData s = Some s' \<longrightarrow> flushed s s')"
proof -
  let ?z = "length (m_writeBuf s)"
  from assms(1-3) have s: "b < ?z" "n < ?z" "m_writeBufSize s = int ?z"
    "m_writeEnd s = int ((b + n) mod ?z)" "pending s = ring_list (m_writeBuf s) b n"
    by (auto elim!: ring_okE)
  obtain l d where z: "?z = b + l" and d: "n = l + d"
    using assms(5) s(1) by (metis add_le_cancel_left le_Suc_ex less_imp_le)
  have d': "d < b" "0 < l" "(b + n) mod ?z = d" using s(1,2) by (simp_all add: z d add.assoc [symmetric])
  have p: "pending s = drop b (m_writeBuf s) @ take d (m_writeBuf s)"
    using ring_list_wrap [of b "m_writeBuf s" n] s(1,2) assms(5) by (simp add: s(5) z d)
  have f: "fetch (m_writeBuf s) b l = Some (take l (pending s))" "length (pending s) = l + d"
    using d'(1) by (simp_all add: fetch_def p z)
  have run: "FlushData s = do {
      (alive, s) \<leftarrow> flush_part s (int b) (int l);
      if \<not> alive then Some s else if m_writeBeg s \<noteq> 0 then Some s
      else do { (_, s) \<leftarrow> flush_part s 0 (m_writeEnd s); Some s }
    }"
    using assms(2-4) s(3,4) d' z by (simp add: FlushData_def)
  have "l \<le> length (pending s)" "b + l \<le> ?z" using f(2) z by simp_all
  from assms(1,6,2) this f(1) show ?thesis
  proof (cases rule: flush_part_cases)
    case (sent k s1)
    show ?thesis
    proof (cases "m_writeBeg s1 = 0")
      case False
      with sent run f(2) show ?thesis by (auto simp: flushed_def intro!: exI [of _ k])
    next
      case True
      have kl: "k = l"
      proof (rule ccontr)
        assume "k \<noteq> l"
        with sent(2) have "(b + k) mod ?z = b + k" by (simp add: z)
        with True sent(10) assms(2) s(3) have "b + k = 0" by (metis of_nat_0_eq_iff of_nat_add of_nat_mod)
        with d'(1) show False by simp
      qed
      have p1: "pending s1 = take d (m_writeBuf s1)" "m_writeEnd s1 = int d"
        using sent(5,8,9) kl s(4) d'(3) by (simp_all add: p z)
      then have f1: "fetch (m_writeBuf s1) 0 d = Some (take d (pending s1))" "length (pending s1) = d"
        using d'(1) sent(9) z by (simp_all add: fetch_def)
      have zero: "0 \<le> m_sendBytes s1" "m_writeBeg s1 = int 0" "d \<le> length (pending s1)"
        "0 + d \<le> length (m_writeBuf s1)"
        using True f1(2) d'(1) sent(3,9) z assms(6) by simp_all
      have run1: "FlushData s = do { (_, s) \<leftarrow> flush_part s1 (int 0) (int d); Some s }"
        using run sent(1) True p1(2) by simp
      note first = sent(3-7) f(2) kl
      from sent(4) zero f1(1) show ?thesis
      proof (cases rule: flush_part_cases)
        case (sent j s2)
        then have "m_sendBytes s2 = m_sendBytes s + int (l + j)"
          using first(1) kl by simp
        with sent run1 first show ?thesis
          by (auto simp: flushed_def add.commute intro!: exI [of _ "l + j"] intro: flushing_trans)
      next
        case (dead s2)
        with run1 first show ?thesis
          by (auto simp: flushed_def intro!: exI [of _ l] intro: flushing_trans)
      next
        case overflow
        with run1 first show ?thesis by (auto simp: send_load_def)
      qed
    qed
  next
    case (dead s1)
    with run show ?thesis by (auto simp: flushed_def intro!: exI [of _ "0 :: nat"])
  next
    case overflow
    with run f(2) show ?thesis by (auto simp: send_load_def)
  qed
qed

text \<open>
  Flushing hands the oldest bytes to the system: the order of the bytes does not change, none
  is lost or sent twice, whatever the system takes of each piece; it is defined as long as the
  counter has room.
\<close>

lemma FlushData_spec:
  assumes "ring_ok s" "0 \<le> m_sendBytes s"
  shows "(send_load s < 2 ^ 31 \<longrightarrow> FlushData s \<noteq> None) \<and> (\<forall>s'. FlushData s = Some s' \<longrightarrow> flushed s s')"
proof -
  let ?z = "length (m_writeBuf s)"
  from assms obtain b n where s: "b < ?z" "n < ?z" "m_writeBufSize s = int ?z"
    "m_writeBeg s = int b" "m_writeLen s = int n" "m_writeEnd s = int ((b + n) mod ?z)"
    "pending s = ring_list (m_writeBuf s) b n" "?z < 2 ^ 31" by (auto elim: ring_okE)
  consider (empty) "n = 0" | (flat) "0 < n" "b + n < ?z" | (wrap) "0 < n" "?z \<le> b + n"
    by linarith
  then show ?thesis
  proof cases
    case empty
    then have "FlushData s = Some s" by (simp add: FlushData_def s)
    then show ?thesis using assms by (auto simp: flushed_def intro!: exI [of _ "0 :: nat"])
  next
    case flat
    have f: "fetch (m_writeBuf s) b n = Some (take n (pending s))"
      using flat by (simp add: fetch_def s(7) ring_list_flat)
    have run: "FlushData s = do { (_, s) \<leftarrow> flush_part s (int b) (int n); Some s }"
      using flat s(1-6) ring_end [of b ?z n] by (simp add: FlushData_def)
    have len: "n \<le> length (pending s)" "b + n \<le> ?z" using flat s(7) by simp_all
    from assms s(4) len f show ?thesis
    proof (cases rule: flush_part_cases)
      case (sent k s1)
      then show ?thesis using run s(7) by (auto simp: flushed_def intro: exI [of _ k])
    next
      case (dead s1)
      then show ?thesis using run by (auto simp: flushed_def intro: exI [of _ "0 :: nat"])
    next
      case overflow
      then show ?thesis using run s(7) by (auto simp: send_load_def)
    qed
  next
    case wrap
    then show ?thesis using FlushData_wrapped [OF assms(1) s(4,5)] assms(2) by simp
  qed
qed

section \<open>Receiving\<close>

text \<open>The bytes received and not yet cut into packets lie inside the buffer.\<close>

definition window_ok :: "session \<Rightarrow> bool" where
  "window_ok s \<longleftrightarrow> (\<exists>p n. m_readPos s = int p \<and> m_readLen s = int n \<and> p + n \<le> 16389 \<and>
     length (m_readBuf s) = 16389 \<and> m_readBufSize s = 16389)"

definition unparsed :: "session \<Rightarrow> byte list" where
  "unparsed s = take (nat (m_readLen s)) (drop (nat (m_readPos s)) (m_readBuf s))"

lemma window_okE:
  assumes "window_ok s"
  obtains p n where "m_readPos s = int p" "m_readLen s = int n" "p + n \<le> 16389"
    "length (m_readBuf s) = 16389" "m_readBufSize s = 16389" "unparsed s = take n (drop p (m_readBuf s))"
  using assms unfolding window_ok_def unparsed_def by force

lemma window_okI:
  assumes "m_readPos s = int p" "m_readLen s = int n" "p + n \<le> 16389"
    "length (m_readBuf s) = 16389" "m_readBufSize s = 16389"
  shows "window_ok s \<and> unparsed s = take n (drop p (m_readBuf s))"
  using assms unfolding window_ok_def unparsed_def by auto

text \<open>What receiving leaves alone: the sending side, the cipher, the client.\<close>

definition same_sender :: "session \<Rightarrow> session \<Rightarrow> bool" where
  "same_sender s s' \<longleftrightarrow> m_socket s' = m_socket s \<and> m_sendCmdPkt s' = m_sendCmdPkt s \<and>
     m_recvCmdPkt s' = m_recvCmdPkt s \<and> m_sendNetPkt s' = m_sendNetPkt s \<and>
     m_startTime s' = m_startTime s \<and> m_lastSendTime s' = m_lastSendTime s \<and>
     m_connTime s' = m_connTime s \<and> m_writeBuf s' = m_writeBuf s \<and>
     m_writeBufSize s' = m_writeBufSize s \<and> m_writeLen s' = m_writeLen s \<and>
     m_writeBeg s' = m_writeBeg s \<and> m_writeEnd s' = m_writeEnd s \<and> m_seed s' = m_seed s \<and>
     m_seedLen s' = m_seedLen s \<and> m_maxBufSize s' = m_maxBufSize s \<and>
     m_bEncrypt s' = m_bEncrypt s \<and> m_bCompress s' = m_bCompress s \<and> m_seq s' = m_seq s \<and>
     m_sendBytes s' = m_sendBytes s \<and> m_rtt s' = m_rtt s \<and> events s' = events s \<and>
     sent (sys s') = sent (sys s) \<and>
     (m_state s' = m_state s \<or> m_state s' = NET_STATE_DEAD)"

lemma same_sender_refl [simp]: "same_sender s s"
  by (simp add: same_sender_def)

lemma same_sender_trans: "same_sender s t \<Longrightarrow> same_sender t u \<Longrightarrow> same_sender s u"
  by (auto simp: same_sender_def)

text \<open>
  Reading appends what arrives to what has not been parsed.  The code asks for as much as
  there is room behind the window; the room is not 0 unless the window is a full buffer.
\<close>

lemma pack_window_spec:
  assumes "window_ok s"
  obtains s1 where "pack_window s = Some s1" "window_ok s1" "unparsed s1 = unparsed s" "m_readPos s1 = 0"
    "same_sender s s1" "sys s1 = sys s" "m_recvBytes s1 = m_recvBytes s" "m_state s1 = m_state s"
    "m_recvNetPkt s1 = m_recvNetPkt s"
proof -
  from assms obtain p n where s: "m_readPos s = int p" "m_readLen s = int n" "p + n \<le> 16389"
    "length (m_readBuf s) = 16389" "m_readBufSize s = 16389" "unparsed s = take n (drop p (m_readBuf s))"
    by (rule window_okE)
  define buf where "buf = (if n = 0 \<or> p = 0 then m_readBuf s
    else take n (drop p (m_readBuf s)) @ drop n (m_readBuf s))"
  define s1 where "s1 = s\<lparr>m_readBuf := buf, m_readPos := 0\<rparr>"
  have len: "length (take n (drop p (m_readBuf s))) = n" using s(3,4) by simp
  have "window_ok s1 \<and> unparsed s1 = take n (drop 0 (m_readBuf s1))"
    using s len by (intro window_okI) (auto simp: s1_def buf_def)
  moreover have "take n (m_readBuf s1) = unparsed s"
    using s len by (auto simp: s1_def buf_def)
  moreover have "pack_window s = Some s1"
    using s len by (auto simp: pack_window_def fetch_int_nat fetch_def poke_def s1_def buf_def)
  ultimately show ?thesis
    by (intro that [of s1]) (simp_all add: s1_def same_sender_def)
qed

text \<open>
  The counter of the bytes received is an \<open>int\<close> as well; one read adds at most the size of the
  buffer.
\<close>

definition recv_room :: "session \<Rightarrow> bool" where
  "recv_room s \<longleftrightarrow> m_recvBytes s + 16389 < 2 ^ 31"

definition read_in :: "session \<Rightarrow> byte list \<Rightarrow> session \<Rightarrow> bool" where
  "read_in s bs s' \<longleftrightarrow> window_ok s' \<and> same_sender s s' \<and> m_recvNetPkt s' = m_recvNetPkt s \<and>
     unparsed s' = unparsed s @ bs \<and> received (sys s') = received (sys s) @ bs \<and>
     m_recvBytes s' = m_recvBytes s + int (length bs)"

lemma Session_ReadData_spec:
  assumes "window_ok s" "0 \<le> m_recvBytes s"
  shows "(recv_room s \<longrightarrow> Session_ReadData s \<noteq> None) \<and>
    (\<forall>ok s'. Session_ReadData s = Some (ok, s') \<longrightarrow> (\<exists>bs. read_in s bs s' \<and> (ok \<longleftrightarrow> bs \<noteq> [])))"
proof -
  from assms(1) obtain s1 where s1: "pack_window s = Some s1" "window_ok s1" "unparsed s1 = unparsed s" "m_readPos s1 = 0"
    "same_sender s s1" "sys s1 = sys s" "m_recvBytes s1 = m_recvBytes s" "m_state s1 = m_state s"
    "m_recvNetPkt s1 = m_recvNetPkt s"
    by (rule pack_window_spec)
  from s1(2,4) obtain n where w: "m_readLen s1 = int n" "n \<le> 16389" "length (m_readBuf s1) = 16389"
    "m_readBufSize s1 = 16389" "unparsed s1 = take n (m_readBuf s1)"
    by (auto elim!: window_okE)
  let ?len = "nat (m_readBufSize s1 - m_readLen s1)"
  have len: "?len = 16389 - n" using w by simp
  obtain r bs w' where recv: "Recv (m_socket s1) ?len (sys s1) = (r, bs, w')"
    by (metis prod_cases3)
  then show ?thesis
  proof (cases rule: Recv_cases)
    case got
    show ?thesis
    proof (cases "bs = []")
      case True
      then have "Session_ReadData s = Some (False, s1\<lparr>sys := w'\<rparr>)"
        unfolding Session_ReadData_def s1(1) using recv got by simp
      then show ?thesis
        using True got s1 by (auto simp: read_in_def window_ok_def unparsed_def same_sender_def)
    next
      case False
      with got(1) have pos: "r > 0" by simp
      show ?thesis
      proof (cases "int_add (m_recvBytes s1) r")
        case None
        then have "Session_ReadData s = None"
          unfolding Session_ReadData_def s1(1) using recv pos w(1) by (simp split: Option.bind_split)
        moreover have "\<not> recv_room s"
          using None got(1,2) len s1(7) assms(2) by (auto simp: int_add_def recv_room_def split: if_splits)
        ultimately show ?thesis by simp
      next
        case (Some total)
        then have total: "total = m_recvBytes s1 + r" by (simp add: int_arith_eq_Some)
        define buf where "buf = take n (m_readBuf s1) @ bs @ drop (n + length bs) (m_readBuf s1)"
        define s2 where "s2 = s1\<lparr>sys := w', m_readBuf := buf, m_readLen := int n + r,
          m_recvBytes := total\<rparr>"
        obtain now s3 where t: "get_time s2 = (now, s3)" by fastforce
        then obtain w3 where s3: "s3 = s2\<lparr>sys := w3\<rparr>" "same_traffic w' w3"
          by (auto simp: get_time_def s2_def split: prod.splits dest: same_traffic_calls)
        have run: "Session_ReadData s = Some (True, s3\<lparr>m_lastRecvTime := now\<rparr>)"
          unfolding Session_ReadData_def s1(1)
          using recv pos got(1,2) w(1-3) len t Some
          by (simp add: poke_int_nat poke_def buf_def s2_def)
        define s4 where "s4 = s3\<lparr>m_lastRecvTime := now\<rparr>"
        have fields: "m_readPos s4 = int 0" "m_readLen s4 = int (n + length bs)" "m_readBuf s4 = buf"
          "m_readBufSize s4 = 16389"
          using got(1) w(4) s1(4) by (simp_all add: s4_def s3(1) s2_def)
        have "length buf = 16389" using w(2,3) got(2) len by (simp add: buf_def)
        with fields got(2) len w(2) have "window_ok s4 \<and> unparsed s4 = take (n + length bs) (drop 0 (m_readBuf s4))"
          by (intro window_okI) simp_all
        moreover have "take (n + length bs) buf = unparsed s @ bs"
          using w(2,3,5) s1(3) by (simp add: buf_def)
        ultimately have "window_ok s4" "unparsed s4 = unparsed s @ bs" using fields(3) by simp_all
        then have "read_in s bs s4"
          using got s1 s3 total by (auto simp: read_in_def s2_def s4_def same_sender_def same_traffic_def)
        then show ?thesis using run False by (auto simp: s4_def)
      qed
    qed
  next
    case dead
    then have "Session_ReadData s = Some (False, s1\<lparr>sys := w', m_state := NET_STATE_DEAD\<rparr>)"
      unfolding Session_ReadData_def s1(1) using recv by simp
    then show ?thesis using dead s1
      by (auto simp: read_in_def window_ok_def unparsed_def same_sender_def)
  qed
qed

end
