(* ===== verification/SessionReceive.thy ===== *)
theory SessionReceive
  imports SessionBuffers
begin

text \<open>
  The receiving half of a session: cutting packets out of the window, system packets, and the
  delivery loop.
\<close>

section \<open>The next packet\<close>

definition seed_ok :: "session \<Rightarrow> bool" where
  "seed_ok s \<longleftrightarrow> length (m_seed s) = 16 \<and> m_seedLen s = 16"

text \<open>
  The memory of the seed is there from the start, its length is 0 until a seed is set.  A
  session without a seed can read a frame that is not encrypted, or too short for the cipher
  to leave the array.
\<close>

definition seed_mem :: "session \<Rightarrow> bool" where
  "seed_mem s \<longleftrightarrow> length (m_seed s) = 16 \<and> (m_seedLen s = 0 \<or> m_seedLen s = 16)"

definition readable :: "session \<Rightarrow> byte \<Rightarrow> byte list \<Rightarrow> bool" where
  "readable s flag data \<longleftrightarrow> flag AND FLAG_ENCRYPT = 0 \<or> seed_ok s \<or> length data \<le> 21"

lemma seed_ok_readable [simp]: "seed_ok s \<Longrightarrow> readable s flag data"
  by (simp add: readable_def)

text \<open>The data a frame carries, as the client sees it.\<close>

definition decode :: "byte list \<Rightarrow> byte \<Rightarrow> byte list \<Rightarrow> byte list" where
  "decode seed flag data = (if flag AND FLAG_ENCRYPT \<noteq> 0 then cipher seed data else data)"

lemma length_decode [simp]: "length (decode seed flag data) = length data"
  by (simp add: decode_def)

lemma flag_bits:
  "(f AND - 2) AND 4 = f AND (4 :: byte)" "(f AND - 3) AND 4 = f AND (4 :: byte)"
  by (simp_all add: and.assoc)

text \<open>Undoing the flags of a packet that has arrived.\<close>

lemma unwrap_packet:
  assumes "holds p flag seq data" "seed_mem s" "readable s flag data"
  shows "\<exists>q f. (do {
       enc \<leftarrow> IsEncrypt p;
       p \<leftarrow> (if enc then Decrypt p (m_seed s) (m_seedLen s) else Some p);
       comp \<leftarrow> IsCompress p;
       if comp then Uncompress p else Some (True, p)
     }) = Some (True, q) \<and> holds q f seq (decode (m_seed s) flag data) \<and> f AND 4 = flag AND 4"
proof -
  obtain p1 f1 where p1: "(if flag AND 1 \<noteq> 0 then Decrypt p (m_seed s) (m_seedLen s) else Some p) = Some p1"
    "holds p1 f1 seq (decode (m_seed s) flag data)" "f1 AND 4 = flag AND 4"
  proof (cases "flag AND 1 = 0")
    case True
    with assms(1) that [of p flag] show ?thesis by (simp add: decode_def FLAG_ENCRYPT_def)
  next
    case False
    from assms(2) have mem: "m_seed s \<noteq> []" "length (m_seed s) = 16" by (auto simp: seed_mem_def)
    have "Decrypt p (m_seed s) (m_seedLen s) = Decrypt p (m_seed s) (int (length (m_seed s)))"
    proof (cases "m_seedLen s = 0")
      case True
      with False assms(3) mem have "length data \<le> length (m_seed s) + 5"
        by (auto simp: readable_def seed_ok_def FLAG_ENCRYPT_def)
      from cipher_unseeded(1) [OF assms(1) this] True show ?thesis by simp
    next
      case False
      with assms(2) show ?thesis by (simp add: seed_mem_def)
    qed
    with Decrypt_holds [OF assms(1) mem(1)] False that show ?thesis
      by (auto simp: decode_def FLAG_ENCRYPT_def flag_bits)
  qed
  obtain q f where "(if f1 AND 2 \<noteq> 0 then Uncompress p1 else Some (True, p1)) = Some (True, q)"
    "holds q f seq (decode (m_seed s) flag data)" "f AND 4 = f1 AND 4"
    using holds_flag_ops(2) [OF p1(2)] p1(2) by (cases "f1 AND 2 = 0") (auto simp: flag_bits)
  then show ?thesis
    using holds_flag_ops(4) [OF assms(1)] holds_flag_ops(5) [OF p1(2)] p1(1,3) by auto
qed

definition frames :: "byte list \<Rightarrow> bool" where
  "frames bs \<longleftrightarrow> (\<exists>fr rest. valid_frame fr \<and> bs = fr @ rest)"

text \<open>A header has arrived, and no frame starts like this.\<close>

definition broken :: "byte list \<Rightarrow> bool" where
  "broken bs \<longleftrightarrow> 5 \<le> length bs \<and> \<not> (\<exists>more. frames (bs @ more))"

lemma frames_not_broken: "frames bs \<Longrightarrow> \<not> broken bs"
  unfolding broken_def by (metis append_Nil2)

lemma window_other_fields [simp]:
  "window_ok (s\<lparr>m_recvNetPkt := q\<rparr>) = window_ok s" "unparsed (s\<lparr>m_recvNetPkt := q\<rparr>) = unparsed s"
  "window_ok (s\<lparr>m_state := st\<rparr>) = window_ok s" "unparsed (s\<lparr>m_state := st\<rparr>) = unparsed s"
  by (simp_all add: window_ok_def unparsed_def)

lemma RecvPacket_cases:
  assumes "window_ok s" "net_ok (m_recvNetPkt s)" "seed_mem s"
  obtains (packet) flag seq data s' f where "RecvPacket s = Some (True, s')"
      "unparsed s = frame flag seq data @ unparsed s'" "valid_frame (frame flag seq data)"
      "readable s flag data" "window_ok s'"
      "holds (m_recvNetPkt s') f seq (decode (m_seed s) flag data)" "f AND 4 = flag AND 4"
      "same_sender s s'" "m_state s' = m_state s" "sys s' = sys s"
      "m_readLen s' < m_readLen s" "m_recvBytes s' = m_recvBytes s"
  | (unseeded) flag seq data rest where "unparsed s = frame flag seq data @ rest"
      "valid_frame (frame flag seq data)" "\<not> readable s flag data" "RecvPacket s = None"
  | (none) s' where "RecvPacket s = Some (False, s')" "\<not> frames (unparsed s)" "\<not> broken (unparsed s)" "unparsed s' = unparsed s"
      "window_ok s'" "net_ok (m_recvNetPkt s')" "same_sender s s'" "m_state s' = m_state s"
      "sys s' = sys s" "m_recvBytes s' = m_recvBytes s"
  | (bad) s' where "RecvPacket s = Some (False, s')" "broken (unparsed s)" "unparsed s' = unparsed s"
      "window_ok s'" "net_ok (m_recvNetPkt s')" "same_sender s s'" "m_state s' = NET_STATE_DEAD"
      "sys s' = sys s" "m_recvBytes s' = m_recvBytes s"
proof -
  from assms(1) obtain p n where w: "m_readPos s = int p" "m_readLen s = int n" "p + n \<le> 16389"
    "length (m_readBuf s) = 16389" "m_readBufSize s = 16389" "unparsed s = take n (drop p (m_readBuf s))"
    by (rule window_okE)
  obtain r q where read: "NetBeginRead (m_recvNetPkt s) (drop p (m_readBuf s)) (int n) = Some (r, q)"
    "reads (m_recvNetPkt s) (unparsed s) r q"
    using BeginRead_reads [OF assms(2), of n "drop p (m_readBuf s)"] w(3,4,6) by fastforce
  consider (pos) "0 < r" | (zero) "r = 0" | (neg) "r < 0" by linarith
  then show ?thesis
  proof cases
    case pos
    with read(2) obtain flag seq data rest where fr: "unparsed s = frame flag seq data @ rest"
      "r = 5 + int (length data)" "valid_frame (frame flag seq data)" "holds q flag seq data"
      unfolding reads_def by auto
    show ?thesis
    proof (cases "readable s flag data")
      case True
      define k where "k = 5 + length data"
      have kn: "k \<le> n" using arg_cong [OF fr(1), of length] w(3,4,6) by (simp add: k_def)
      have rk: "r = int k" using fr(2) by (simp add: k_def)
      define s1 where "s1 = s\<lparr>m_recvNetPkt := q, m_readLen := int (n - k), m_readPos := int (p + k)\<rparr>"
      have "window_ok s1 \<and> unparsed s1 = take (n - k) (drop (p + k) (m_readBuf s1))"
        using w kn by (intro window_okI) (simp_all add: s1_def)
      moreover have "take (n - k) (drop (p + k) (m_readBuf s)) = drop k (unparsed s)"
        by (simp add: w(6) drop_take add.commute)
      moreover have "drop k (unparsed s) = rest" by (simp add: fr(1) k_def)
      ultimately have s1: "window_ok s1" "unparsed s1 = rest" by (simp_all add: s1_def)
      from unwrap_packet [OF fr(4) assms(3) True] obtain q' f where q': "(do {
           enc \<leftarrow> IsEncrypt q;
           p \<leftarrow> (if enc then Decrypt q (m_seed s) (m_seedLen s) else Some q);
           comp \<leftarrow> IsCompress p;
           if comp then Uncompress p else Some (True, p)
         }) = Some (True, q')" "holds q' f seq (decode (m_seed s) flag data)" "f AND 4 = flag AND 4"
        by blast
      have "RecvPacket s = Some (True, s1\<lparr>m_recvNetPkt := q'\<rparr>)"
        using read(1) pos q'(1) w(1,2) kn rk
        by (auto simp: RecvPacket_def s1_def of_nat_diff split: Option.bind_splits if_splits prod.splits)
      moreover have "same_sender s (s1\<lparr>m_recvNetPkt := q'\<rparr>)" "m_state s1 = m_state s" "sys s1 = sys s"
        "m_readLen s1 < m_readLen s" "m_recvBytes s1 = m_recvBytes s"
        using w(2) kn by (simp_all add: s1_def same_sender_def k_def)
      ultimately show ?thesis
        using s1 fr(1,3) True q'(2,3)
        by (intro packet [of "s1\<lparr>m_recvNetPkt := q'\<rparr>" flag seq data f]) simp_all
    next
      case False
      then have "flag AND 1 \<noteq> 0" "length (m_seed s) + 5 < length data" "m_seedLen s = 0"
        using assms(3) by (auto simp: readable_def seed_ok_def seed_mem_def FLAG_ENCRYPT_def)
      with cipher_without_seed(1) [OF fr(4)] holds_flag_ops(4) [OF fr(4)] read(1) pos w(1,2)
      have "RecvPacket s = None" by (simp add: RecvPacket_def)
      with False fr show ?thesis by (intro unseeded) auto
    qed
  next
    case zero
    then have "RecvPacket s = Some (False, s\<lparr>m_recvNetPkt := q\<rparr>)"
      using read(1) w(1,2) by (simp add: RecvPacket_def)
    with read(2) zero assms(1) show ?thesis
      by (intro none [of "s\<lparr>m_recvNetPkt := q\<rparr>"])
        (auto simp: reads_def frames_def broken_def same_sender_def)
  next
    case neg
    then have "RecvPacket s = Some (False, s\<lparr>m_recvNetPkt := q, m_state := NET_STATE_DEAD\<rparr>)"
      using read(1) w(1,2) by (simp add: RecvPacket_def)
    with read(2) neg assms(1) show ?thesis
      by (intro bad [of "s\<lparr>m_recvNetPkt := q, m_state := NET_STATE_DEAD\<rparr>"])
        (auto simp: reads_def broken_def frames_def same_sender_def)
  qed
qed

section \<open>The invariant of a session\<close>

definition session_ok :: "session \<Rightarrow> bool" where
  "session_ok s \<longleftrightarrow> ring_ok s \<and> window_ok s \<and> net_ok (m_recvNetPkt s) \<and> net_ok (m_sendNetPkt s) \<and>
     m_head (m_sendNetPkt s) = OwnHead \<and> writer (BeginWrite (m_sendCmdPkt s)) \<and>
     m_nMaxSize (m_sendCmdPkt s) = 16384 \<and> seed_mem s \<and> 0 \<le> m_sendBytes s \<and> 0 \<le> m_recvBytes s"

lemma session_okD [dest]:
  assumes "session_ok s"
  shows "ring_ok s" "window_ok s" "net_ok (m_recvNetPkt s)" "net_ok (m_sendNetPkt s)"
    "m_head (m_sendNetPkt s) = OwnHead" "seed_mem s" "0 \<le> m_sendBytes s" "0 \<le> m_recvBytes s"
  using assms by (auto simp: session_ok_def)

lemma same_receiver_window:
  assumes "same_receiver s s'"
  shows "window_ok s' = window_ok s" "unparsed s' = unparsed s" "seed_ok s' = seed_ok s"
    "seed_mem s' = seed_mem s"
  using assms by (simp_all add: same_receiver_def window_ok_def unparsed_def seed_ok_def seed_mem_def)

lemma same_sender_ring:
  assumes "same_sender s s'"
  shows "ring_ok s' = ring_ok s" "pending s' = pending s" "seed_ok s' = seed_ok s"
    "outgoing s' = outgoing s" "seed_mem s' = seed_mem s" "ring_limits s' = ring_limits s"
    "send_load s' = send_load s"
  using assms
  by (simp_all add: same_sender_def ring_ok_def pending_def seed_ok_def outgoing_def seed_mem_def
      ring_limits_def send_load_def)

lemma session_ok_receiving:
  assumes "session_ok s" "same_sender s s'" "window_ok s'" "net_ok (m_recvNetPkt s')" "0 \<le> m_recvBytes s'"
  shows "session_ok s'"
  using assms same_sender_ring [OF assms(2)]
  by (auto simp: session_ok_def same_sender_def)

lemma session_ok_sending:
  assumes "session_ok s" "sending s s'" "ring_ok s'" "m_sendNetPkt s' = m_sendNetPkt s"
    "m_sendCmdPkt s' = m_sendCmdPkt s" "0 \<le> m_sendBytes s'"
  shows "session_ok s'"
  using assms same_receiver_window [of s s']
  by (auto simp: session_ok_def sending_def) (auto simp: same_receiver_def)

lemma sending_limits: "sending s s' \<Longrightarrow> ring_limits s \<Longrightarrow> ring_limits s'"
  by (auto simp: sending_def same_receiver_def ring_limits_def)

text \<open>Flushing keeps the invariant, and is defined while the counter has room.\<close>

lemma FlushData_ok:
  assumes "session_ok s"
  shows "send_load s < 2 ^ 31 \<Longrightarrow> FlushData s \<noteq> None"
    and "FlushData s = Some s' \<Longrightarrow> session_ok s' \<and> flushed s s'"
proof -
  note flush = FlushData_spec [OF session_okD(1,7) [OF assms]]
  then show "send_load s < 2 ^ 31 \<Longrightarrow> FlushData s \<noteq> None" by blast
  assume "FlushData s = Some s'"
  with flush have s': "flushed s s'" by blast
  then obtain k where "m_sendBytes s' = m_sendBytes s + int k" by (auto simp: flushed_def)
  then have "0 \<le> m_sendBytes s'" using session_okD(7) [OF assms] by simp
  then have "session_ok s'"
    using s' unfolding flushed_def flushing_def by (intro session_ok_sending [OF assms]) blast+
  with s' show "session_ok s' \<and> flushed s s'" by simp
qed

section \<open>Sending a packet\<close>

definition next_seq :: "c_short \<Rightarrow> c_short" where
  "next_seq q = (if q + 1 > MAX_NET_PACKET_SEQ then 1 else q + 1)"

text \<open>The frame that \<open>SendPacket\<close> puts on the wire.\<close>

definition wire_flag :: "session \<Rightarrow> bool \<Rightarrow> byte" where
  "wire_flag s sysp = (if sysp then 0x54
     else (if m_bCompress s then 2 else 0) OR ((if m_bEncrypt s then 1 else 0) OR 0x50))"

definition wire :: "session \<Rightarrow> bool \<Rightarrow> byte list \<Rightarrow> byte list" where
  "wire s sysp data = frame (wire_flag s sysp) (next_seq (m_seq s))
     (if \<not> sysp \<and> m_bEncrypt s then cipher (m_seed s) data else data)"

lemma length_wire [simp]: "length (wire s sysp data) = 5 + length data"
  by (simp add: wire_def)

text \<open>
  The cipher with the memory of a seed: without a seed it is defined only on a packet too short
  to leave the array.
\<close>

definition encryptable :: "session \<Rightarrow> byte list \<Rightarrow> bool" where
  "encryptable s data \<longleftrightarrow> seed_ok s \<or> length data \<le> 21"

lemma Encrypt_memory:
  assumes "holds p flag seq data" "seed_mem s"
  shows "encryptable s data \<Longrightarrow> \<exists>q. Encrypt p (m_seed s) (m_seedLen s) = Some q \<and>
      holds q (flag OR 1) seq (cipher (m_seed s) data) \<and> m_totalSize q = m_totalSize p"
    and "\<not> encryptable s data \<Longrightarrow> Encrypt p (m_seed s) (m_seedLen s) = None"
proof -
  have mem: "m_seed s \<noteq> []" "length (m_seed s) = 16" "m_seedLen s = 0 \<or> m_seedLen s = int (length (m_seed s))"
    using assms(2) by (auto simp: seed_mem_def)
  show "\<exists>q. Encrypt p (m_seed s) (m_seedLen s) = Some q \<and>
      holds q (flag OR 1) seq (cipher (m_seed s) data) \<and> m_totalSize q = m_totalSize p" if "encryptable s data"
  proof -
    have "Encrypt p (m_seed s) (m_seedLen s) = Encrypt p (m_seed s) (int (length (m_seed s)))"
      using that mem cipher_unseeded(2) [OF assms(1), of "m_seed s"]
      by (auto simp: encryptable_def seed_ok_def)
    then show ?thesis using Encrypt_holds [OF assms(1) mem(1)] by simp
  qed
  show "Encrypt p (m_seed s) (m_seedLen s) = None" if "\<not> encryptable s data"
    using that mem cipher_without_seed(2) [OF assms(1), of "m_seed s"]
    by (auto simp: encryptable_def seed_ok_def)
qed

text \<open>Building the frame in the packet.\<close>

definition wrapped :: "session \<Rightarrow> bool \<Rightarrow> byte list \<Rightarrow> net_packet \<Rightarrow> bool" where
  "wrapped s sysp data q \<longleftrightarrow> net_ok q \<and> m_head q = OwnHead \<and> m_totalSize q = int (5 + length data) \<and>
     (\<exists>rest. m_buffer q = wire s sysp data @ rest)"

lemma wrappedI:
  assumes "holds q (wire_flag s sysp) (next_seq (m_seq s))
      (if \<not> sysp \<and> m_bEncrypt s then cipher (m_seed s) data else data)"
    "m_totalSize q = int (5 + length data)"
  shows "wrapped s sysp data q"
proof -
  from assms(1) obtain rest where "m_head q = OwnHead" "m_buffer q = wire s sysp data @ rest"
    unfolding wire_def by (rule holdsE)
  with assms(2) holds_ok [OF assms(1)] show ?thesis by (auto simp: wrapped_def)
qed

lemma wrap_packet_spec:
  assumes "net_ok (m_sendNetPkt s)" "m_head (m_sendNetPkt s) = OwnHead" "GetData packet = Some buf"
    "GetDataSize packet = int n" "n \<le> length buf" "n \<le> 16384" "seed_mem s"
  shows "if sysp \<or> \<not> m_bEncrypt s \<or> encryptable s (take n buf)
    then \<exists>q. wrap_packet (s\<lparr>m_seq := next_seq (m_seq s)\<rparr>) packet sysp = Some q \<and> wrapped s sysp (take n buf) q
    else wrap_packet (s\<lparr>m_seq := next_seq (m_seq s)\<rparr>) packet sysp = None"
proof -
  let ?data = "take n buf"
  let ?t = "s\<lparr>m_seq := next_seq (m_seq s)\<rparr>"
  from AddCmdPacket_holds [OF assms(1-6)] obtain q1 seq where q1: "AddCmdPacket (m_sendNetPkt s) packet = Some q1"
    "holds q1 0x50 seq ?data" "m_totalSize q1 = 5 + int n" by blast
  from holds_flag(4) [OF q1(2)] obtain q2 where q2: "SetSeq q1 (next_seq (m_seq s)) = Some q2"
    "holds q2 0x50 (next_seq (m_seq s)) ?data" "m_totalSize q2 = m_totalSize q1" by blast
  have total: "m_totalSize q2 = int (5 + length ?data)" using q1(3) q2(3) assms(5) by simp
  have start: "wrap_packet ?t packet sysp = (if sysp then SetSysPacket q2
      else do {
        p \<leftarrow> (if m_bEncrypt s then Encrypt q2 (m_seed s) (m_seedLen s) else Some q2);
        if m_bCompress s then do { (_, p) \<leftarrow> Compress p; Some p } else Some p
      })"
    using q1(1) q2(1) by (simp add: wrap_packet_def)
  consider (system) sysp | (user) "\<not> sysp" "\<not> m_bEncrypt s \<or> encryptable s ?data"
    | (unseeded) "\<not> sysp" "m_bEncrypt s" "\<not> encryptable s ?data" by blast
  then show ?thesis
  proof cases
    case system
    obtain q where "SetSysPacket q2 = Some q" "m_totalSize q = m_totalSize q2"
      "holds q 0x54 (next_seq (m_seq s)) ?data"
      using holds_flag_ops(3) [OF q2(2)] by auto
    then have "wrapped s sysp ?data q" using system total by (intro wrappedI) (simp_all add: wire_flag_def)
    with \<open>SetSysPacket q2 = Some q\<close> start system show ?thesis by simp
  next
    case user
    define payload where "payload = (if m_bEncrypt s then cipher (m_seed s) ?data else ?data)"
    obtain q3 where q3: "(if m_bEncrypt s then Encrypt q2 (m_seed s) (m_seedLen s) else Some q2) = Some q3"
      "holds q3 ((if m_bEncrypt s then 1 else 0) OR 0x50) (next_seq (m_seq s)) payload"
      "m_totalSize q3 = m_totalSize q2"
    proof (cases "m_bEncrypt s")
      case True
      with user(2) Encrypt_memory(1) [OF q2(2) assms(7)] that show ?thesis by (auto simp: payload_def)
    qed (use q2(2) that in \<open>auto simp: payload_def\<close>)
    obtain q where q: "(if m_bCompress s then do { (_, p) \<leftarrow> Compress q3; Some p } else Some q3) = Some q"
      "m_totalSize q = m_totalSize q3" "holds q (wire_flag s sysp) (next_seq (m_seq s)) payload"
      using user(1) q3(2,3) holds_flag_ops(1) [OF q3(2)] that
      by (cases "m_bCompress s") (auto simp: wire_flag_def or.commute or.left_commute)
    then have "wrapped s sysp ?data q"
      using user(1) total q3(3) by (intro wrappedI) (simp_all add: payload_def)
    with start user q3(1) q(1) show ?thesis by simp
  next
    case unseeded
    then show ?thesis using start Encrypt_memory(2) [OF q2(2) assms(7)] by simp
  qed
qed

text \<open>
  A packet that fits in the ring is sent as one frame; one that does not leaves nothing
  behind but the sequence number it used up.
\<close>

definition sent_packet :: "session \<Rightarrow> bool \<Rightarrow> byte list \<Rightarrow> bool \<Rightarrow> session \<Rightarrow> bool" where
  "sent_packet s sysp data ok s' \<longleftrightarrow> ok = ring_fits s (5 + length data) \<and> session_ok s' \<and> sending s s' \<and>
     m_seq s' = next_seq (m_seq s) \<and> m_sendCmdPkt s' = m_sendCmdPkt s \<and>
     outgoing s' = outgoing s @ (if ok then wire s sysp data else []) \<and>
     send_load s' = send_load s + (if ok then 5 + int (length data) else 0)"

text \<open>
  It is defined when the cipher has its seed, the limit of the ring is below half a gigabyte,
  and the counter has room for what a flush may send.
\<close>

definition send_safe :: "session \<Rightarrow> bool \<Rightarrow> bool \<Rightarrow> byte list \<Rightarrow> bool" where
  "send_safe s flush sysp data \<longleftrightarrow> (sysp \<or> \<not> m_bEncrypt s \<or> encryptable s data) \<and> ring_limits s \<and>
     (flush \<longrightarrow> send_load s + 5 + int (length data) < 2 ^ 31)"

lemma pushed_packet:
  assumes "session_ok s1" "off_ring s1 s2" "ring_ok s2" "pending s2 = pending s1 @ xs"
  shows "session_ok s2" "outgoing s2 = outgoing s1 @ xs" "send_load s2 = send_load s1 + int (length xs)"
proof -
  have "m_sendNetPkt s2 = m_sendNetPkt s1" "m_sendCmdPkt s2 = m_sendCmdPkt s1" "m_sendBytes s2 = m_sendBytes s1"
    using assms(2) by (auto simp: off_ring_def)
  with assms show "session_ok s2" "send_load s2 = send_load s1 + int (length xs)"
    using session_ok_sending [OF assms(1) off_ring_sending [OF assms(2)]] session_okD(7) [OF assms(1)]
    by (simp_all add: send_load_def)
  show "outgoing s2 = outgoing s1 @ xs"
    using off_ring_outgoing [OF assms(2)] assms(4) by (simp add: outgoing_def)
qed

lemma SendPacket_spec:
  assumes "session_ok s" "m_state s = NET_STATE_CONNECTED" "GetData packet = Some buf"
    "GetDataSize packet = int n" "n \<le> length buf" "n \<le> 16384"
  shows "(send_safe s flush sysp (take n buf) \<longrightarrow> SendPacket s packet flush sysp \<noteq> None) \<and>
    (\<forall>ok s'. SendPacket s packet flush sysp = Some (ok, s') \<longrightarrow> sent_packet s sysp (take n buf) ok s')"
proof -
  let ?data = "take n buf" let ?wire = "wire s sysp (take n buf)"
  let ?t = "s\<lparr>m_seq := next_seq (m_seq s)\<rparr>"
  note wrap = wrap_packet_spec [OF session_okD(4,5) [OF assms(1)] assms(3-6) session_okD(6) [OF assms(1)], of sysp]
  have send: "SendPacket s packet flush sysp = do {
      p \<leftarrow> wrap_packet ?t packet sysp;
      (ok, s) \<leftarrow> PushData (?t\<lparr>m_sendNetPkt := p\<rparr>) (m_buffer p) (m_totalSize p);
      if \<not> ok then Some (False, s)
      else do { s \<leftarrow> (if flush then FlushData s else Some s); Some (True, s) }
    }"
    using assms(2) by (simp add: SendPacket_def next_seq_def Let_def)
  show ?thesis
  proof (cases "sysp \<or> \<not> m_bEncrypt s \<or> encryptable s ?data")
    case False
    then show ?thesis using wrap send by (simp add: send_safe_def)
  next
    case True
    with wrap obtain p rest where p: "wrap_packet ?t packet sysp = Some p" "net_ok p" "m_head p = OwnHead"
      "m_totalSize p = int (length ?wire)" "m_buffer p = ?wire @ rest" by (auto simp: wrapped_def)
    define s1 where "s1 = ?t\<lparr>m_sendNetPkt := p\<rparr>"
    have s1: "ring_ok s1" "ring_fits s1 = ring_fits s" "outgoing s1 = outgoing s" "send_load s1 = send_load s"
      "sending s s1" "session_ok s1" "m_seq s1 = next_seq (m_seq s)" "m_sendCmdPkt s1 = m_sendCmdPkt s"
      "ring_limits s1 = ring_limits s"
      using assms(1) p(2,3)
      by (auto simp: s1_def session_ok_def ring_ok_def pending_def ring_fits_def fun_eq_iff outgoing_def
          sending_def same_receiver_def window_ok_def seed_ok_def seed_mem_def send_load_def ring_limits_def)
    have len: "length ?wire = 5 + length ?data" by simp
    have run: "SendPacket s packet flush sysp = do {
        (ok, s) \<leftarrow> PushData s1 (?wire @ rest) (int (length ?wire));
        if \<not> ok then Some (False, s)
        else do { s \<leftarrow> (if flush then FlushData s else Some s); Some (True, s) }
      }"
      using send p(1,4,5) by (simp add: s1_def)
    from s1(1) show ?thesis
    proof (cases rule: PushData_cases [of s1 ?wire rest])
      case overflow
      then have "\<not> ring_limits s"
        using limits_resizable [OF s1(1)] s1(9) len assms(5,6) by auto
      then show ?thesis using run overflow(1) by (simp add: send_safe_def)
    next
      case full
      then show ?thesis using run s1 len by (auto simp: sent_packet_def)
    next
      case (pushed s2)
      note s2 = pushed_packet [OF s1(6) pushed(5,3,4)]
      have same: "sending s s2" "m_seq s2 = next_seq (m_seq s)" "m_sendCmdPkt s2 = m_sendCmdPkt s"
        using sending_trans [OF s1(5) off_ring_sending [OF pushed(5)]] pushed(5) s1(7,8)
        by (auto simp: off_ring_def)
      have fits: "ring_fits s (5 + length ?data)" using pushed(2) s1(2) len by simp
      show ?thesis
      proof (cases flush)
        case False
        then show ?thesis using run pushed(1) s2 same fits s1(3,4) by (simp add: sent_packet_def)
      next
        case True
        have "send_safe s flush sysp ?data \<Longrightarrow> FlushData s2 \<noteq> None"
          using FlushData_ok(1) [OF s2(1)] s2(3) s1(4) True by (simp add: send_safe_def)
        moreover have "sent_packet s sysp ?data True s3" if "FlushData s2 = Some s3" for s3
        proof -
          have "session_ok s3" "flushed s2 s3" using FlushData_ok(2) [OF s2(1) that] by auto
          then show ?thesis
            using s2 same fits s1(3,4) flushed_load [of s2 s3]
            by (auto simp: sent_packet_def flushed_def flushing_def intro: sending_trans)
        qed
        moreover have "SendPacket s packet flush sysp = do { s \<leftarrow> FlushData s2; Some (True, s) }"
          using run pushed(1) True by simp
        ultimately show ?thesis by (cases "FlushData s2") auto
      qed
    qed
  qed
qed

section \<open>System packets\<close>

text \<open>On a session that is not connected they go nowhere.\<close>

definition answer_room :: "session \<Rightarrow> bool" where
  "answer_room s \<longleftrightarrow> (m_state s = NET_STATE_CONNECTED \<longrightarrow> ring_limits s \<and> send_load s + 11 < 2 ^ 31)"

definition answered :: "session \<Rightarrow> byte list \<Rightarrow> session \<Rightarrow> bool" where
  "answered s data s' \<longleftrightarrow> session_ok s' \<and> sending s s' \<and> outgoing s' = outgoing s @
     (if m_state s = NET_STATE_CONNECTED \<and> ring_fits s 11 then wire s True data else []) \<and>
     send_load s' \<le> send_load s + 11"

lemma send_system_spec:
  assumes "session_ok s"
  shows "(answer_room s \<longrightarrow> send_system s type param \<noteq> None) \<and>
    (\<forall>s'. send_system s type param = Some s' \<longrightarrow> answered s (enc16 type @ enc32 param) s')"
proof -
  let ?pkt = "BeginWrite (m_sendCmdPkt s)" let ?data = "enc16 type @ enc32 param"
  have pkt: "writer ?pkt" "m_nMaxSize ?pkt = 16384" "written ?pkt = []" "m_nLen ?pkt = 0"
    using assms by (auto simp: session_ok_def BeginWrite_def written_def)
  then have "fits ?pkt (2 + 4)" by (simp add: fits_def)
  with pkt(1) obtain p1 where p1: "WriteShort ?pkt type = Some (True, p1)" "writer p1"
    "written p1 = written ?pkt @ enc16 type" "m_nMaxSize p1 = m_nMaxSize ?pkt" "fits p1 4"
    by (rule WriteShort_fits)
  with write_number [of p1 "enc32 param"] obtain p2 where p2: "WriteLong p1 param = Some (True, p2)"
    "writer p2" "written p2 = ?data" "m_nMaxSize p2 = 16384"
    using pkt by (auto simp: WriteLong_def)
  from p2(2) obtain buf n where b: "m_pData p2 = Some buf" "m_nLen p2 = int n" "n \<le> length buf"
    "length buf \<le> 16384" "written p2 = take n buf" by (rule writerE)
  have n: "n = 6" using arg_cong [OF b(5), of length] p2(3) b(3) by simp
  define t where "t = s\<lparr>m_sendCmdPkt := p2\<rparr>"
  have t: "session_ok t" "sending s t" "outgoing t = outgoing s" "m_state t = m_state s"
    "wire t = wire s" "ring_fits t = ring_fits s" "ring_limits t = ring_limits s" "send_load t = send_load s"
    using assms p2(2,4) BeginWrite_writer [OF p2(2)]
    by (auto simp: t_def session_ok_def ring_ok_def window_ok_def seed_mem_def seed_ok_def sending_def
        same_receiver_def outgoing_def pending_def wire_def wire_flag_def fun_eq_iff ring_fits_def
        ring_limits_def send_load_def)
  have run: "send_system s type param = do { (_, s) \<leftarrow> SendPacket t p2 True True; Some s }"
    using p1(1) p2(1) by (simp add: send_system_def t_def)
  show ?thesis
  proof (cases "m_state s = NET_STATE_CONNECTED")
    case True
    have data: "take n buf = ?data" using b(5) p2(3) by simp
    have "m_state t = NET_STATE_CONNECTED" "GetData p2 = Some buf" "GetDataSize p2 = int n" "n \<le> 16384"
      using True t(4) b n by (simp_all add: GetData_def GetDataSize_def)
    with SendPacket_spec [OF t(1), of p2 buf n True True] b(3)
    have "send_safe t True True ?data \<Longrightarrow> SendPacket t p2 True True \<noteq> None"
      "\<And>ok s'. SendPacket t p2 True True = Some (ok, s') \<Longrightarrow> sent_packet t True ?data ok s'"
      unfolding data by blast+
    moreover have "answer_room s \<Longrightarrow> send_safe t True True ?data"
      using True t(7,8) by (simp add: answer_room_def send_safe_def)
    moreover have "sent_packet t True ?data ok s' \<Longrightarrow> answered s ?data s'" for ok s'
      using True t(2,3,5,6,8) by (auto simp: sent_packet_def answered_def intro: sending_trans)
    ultimately show ?thesis using run by (cases "SendPacket t p2 True True") auto
  next
    case False
    then show ?thesis using run t by (auto simp: SendPacket_def answered_def)
  qed
qed

text \<open>The meaning of the data of a system packet.\<close>

datatype sys_msg = SysSeed c_long | SysAlive c_long | SysAck c_long | SysOther

definition sys_msg :: "byte list \<Rightarrow> sys_msg" where
  "sys_msg data =
     (if length data < 6 then SysOther
      else let type = dec16 (take 2 data); param = dec32 (take 4 (drop 2 data)) in
        if type = SYS_PACKET_SET_SEED then SysSeed param
        else if type = SYS_PACKET_KEEP_ALIVE then SysAlive param
        else if type = SYS_PACKET_ALIVE_ACK then SysAck param else SysOther)"

definition new_seed :: "byte list \<Rightarrow> sys_msg \<Rightarrow> byte list" where
  "new_seed seed m = (case m of SysSeed v \<Rightarrow> if v = 0 then seed else seed_bytes 16 (sint v) | _ \<Rightarrow> seed)"

definition sets_seed :: "sys_msg \<Rightarrow> bool" where
  "sets_seed m = (case m of SysSeed v \<Rightarrow> v \<noteq> 0 | _ \<Rightarrow> False)"

definition sys_events :: "sys_msg \<Rightarrow> session_event list" where
  "sys_events m = (case m of SysSeed _ \<Rightarrow> [OnConnect True] | _ \<Rightarrow> [])"

lemma length_seed_bytes [simp]: "length (seed_bytes n v) = n"
  by (induction n arbitrary: v) simp_all

lemma SetSeed_spec:
  assumes "session_ok s"
  shows "session_ok ((SetSeed v s)\<lparr>m_state := NET_STATE_CONNECTED\<rparr>)"
    "seed_ok (SetSeed v s) \<longleftrightarrow> seed_ok s \<or> v \<noteq> 0"
    "m_seed (SetSeed v s) = new_seed (m_seed s) (SysSeed v)"
  using assms
  by (auto simp: SetSeed_def session_ok_def ring_ok_def window_ok_def seed_mem_def seed_ok_def new_seed_def
      MAX_NET_SEED_SIZE_def)

text \<open>
  What a system packet leaves alone: the stream still to be parsed, and the bytes already
  accepted for sending; an answer may be added to those.
\<close>

definition handles :: "session \<Rightarrow> sys_msg \<Rightarrow> session \<Rightarrow> bool" where
  "handles s m s' \<longleftrightarrow> session_ok s' \<and> unparsed s' = unparsed s \<and> m_readLen s' = m_readLen s \<and>
     received (sys s') = received (sys s) \<and> (seed_ok s' \<longleftrightarrow> seed_ok s \<or> sets_seed m) \<and>
     m_seed s' = new_seed (m_seed s) m \<and> events s' = events s @ sys_events m \<and>
     outgoing s' = outgoing s @ (case m of
       SysAlive v \<Rightarrow> if m_state s = NET_STATE_CONNECTED \<and> ring_fits s 11
         then wire s True (enc16 SYS_PACKET_ALIVE_ACK @ enc32 v) else []
     | _ \<Rightarrow> []) \<and>
     (case m of SysSeed _ \<Rightarrow> m_state s' = NET_STATE_CONNECTED
      | _ \<Rightarrow> m_state s' = m_state s \<or> m_state s' = NET_STATE_DEAD) \<and>
     (ring_limits s \<longrightarrow> ring_limits s') \<and>
     send_load s' \<le> send_load s + (case m of SysAlive _ \<Rightarrow> 11 | _ \<Rightarrow> 0)"

lemma handles_other: "session_ok s \<Longrightarrow> handles s SysOther s"
  by (simp add: handles_def new_seed_def sets_seed_def sys_events_def)

lemma handles_alive:
  assumes "session_ok s"
  shows "answer_room s \<Longrightarrow> send_system s SYS_PACKET_ALIVE_ACK v \<noteq> None"
    and "send_system s SYS_PACKET_ALIVE_ACK v = Some s' \<Longrightarrow> handles s (SysAlive v) s'"
proof -
  note sent = send_system_spec [OF assms, of SYS_PACKET_ALIVE_ACK v]
  then show "answer_room s \<Longrightarrow> send_system s SYS_PACKET_ALIVE_ACK v \<noteq> None" by blast
  assume "send_system s SYS_PACKET_ALIVE_ACK v = Some s'"
  with sent have s': "answered s (enc16 SYS_PACKET_ALIVE_ACK @ enc32 v) s'" by blast
  then have "sending s s'" by (simp add: answered_def)
  then have "unparsed s' = unparsed s" "seed_ok s' = seed_ok s" "m_readLen s' = m_readLen s"
    "m_seed s' = m_seed s" "events s' = events s" "ring_limits s \<longrightarrow> ring_limits s'"
    using same_receiver_window [of s s'] sending_limits [of s s']
    by (auto simp: sending_def same_receiver_def)
  with s' show "handles s (SysAlive v) s'"
    by (auto simp: handles_def answered_def new_seed_def sets_seed_def sys_events_def sending_def)
qed

lemma handles_ack:
  assumes "session_ok s" "get_time s = (now, s1)"
  shows "handles s (SysAck v) (s1\<lparr>m_rtt := r\<rparr>)"
proof -
  from assms(2) obtain w where "s1 = s\<lparr>sys := w\<rparr>" "same_traffic (sys s) w"
    by (auto simp: get_time_def split: prod.splits dest: same_traffic_calls)
  with assms(1) show ?thesis
    by (auto simp: handles_def session_ok_def ring_ok_def window_ok_def seed_mem_def seed_ok_def unparsed_def
        outgoing_def pending_def new_seed_def sets_seed_def sys_events_def same_traffic_def
        ring_limits_def send_load_def)
qed

lemma notify_simps [simp]:
  "session_ok (notify e s) = session_ok s" "seed_ok (notify e s) = seed_ok s"
  "unparsed (notify e s) = unparsed s" "outgoing (notify e s) = outgoing s"
  "m_readLen (notify e s) = m_readLen s" "sys (notify e s) = sys s" "m_seed (notify e s) = m_seed s"
  "m_state (notify e s) = m_state s" "events (notify e s) = events s @ [e]"
  "ring_limits (notify e s) = ring_limits s" "send_load (notify e s) = send_load s"
  by (simp_all add: notify_def session_ok_def ring_ok_def window_ok_def seed_mem_def seed_ok_def unparsed_def
      outgoing_def pending_def ring_limits_def send_load_def)

lemma handles_seed:
  assumes "session_ok s"
  shows "handles s (SysSeed v) (notify (OnConnect True) ((SetSeed v s)\<lparr>m_state := NET_STATE_CONNECTED\<rparr>))"
proof -
  let ?s = "(SetSeed v s)\<lparr>m_state := NET_STATE_CONNECTED\<rparr>"
  from SetSeed_spec [OF assms] have "session_ok ?s" "seed_ok ?s \<longleftrightarrow> seed_ok s \<or> v \<noteq> 0"
    "m_seed ?s = new_seed (m_seed s) (SysSeed v)"
    by (auto simp: seed_ok_def)
  moreover have "unparsed ?s = unparsed s" "outgoing ?s = outgoing s" "m_readLen ?s = m_readLen s"
    "sys ?s = sys s" "events ?s = events s" "ring_limits ?s = ring_limits s" "send_load ?s = send_load s"
    by (simp_all add: SetSeed_def unparsed_def outgoing_def pending_def ring_limits_def send_load_def)
  ultimately show ?thesis by (simp add: handles_def sets_seed_def sys_events_def)
qed

text \<open>Reading the two numbers of a system packet.\<close>

lemma HandleSysPacket_spec:
  assumes "session_ok s" "reader packet"
  shows "((\<forall>v. sys_msg (unread packet) = SysAlive v \<longrightarrow> answer_room s) \<longrightarrow> HandleSysPacket s packet \<noteq> None) \<and>
    (\<forall>r packet' s'. HandleSysPacket s packet = Some (r, packet', s') \<longrightarrow> reader packet' \<and>
      handles s (sys_msg (unread packet)) s')"
  using assms(2)
proof (cases rule: ReadShort_cases)
  case (short q)
  then have "length (unread packet) < 2"
    using ReadData_spec [OF assms(2), of 2] by (auto simp: ReadShort_def split: if_splits)
  with short assms(1) show ?thesis
    by (auto simp: HandleSysPacket_def sys_msg_def handles_other)
next
  case (ok q w)
  let ?data = "unread packet"
  have w: "w = dec16 (take 2 ?data)"
    using ok(1,3) ReadData_spec [OF assms(2), of 2] by (auto simp: ReadShort_def)
  obtain q' where q': "ReadLong q = Some (if 6 \<le> length ?data then Some (dec32 (take 4 (drop 2 ?data))) else None, q')"
    "reader q'"
    using ReadData_spec [OF ok(2), of 4] ok(3,4) by (auto simp: ReadLong_def split: if_splits)
  consider (unknown) "w \<noteq> SYS_PACKET_KEEP_ALIVE" "w \<noteq> SYS_PACKET_ALIVE_ACK" "w \<noteq> SYS_PACKET_SET_SEED"
    | (cut) "w = SYS_PACKET_KEEP_ALIVE \<or> w = SYS_PACKET_ALIVE_ACK \<or> w = SYS_PACKET_SET_SEED" "length ?data < 6"
    | (alive) "w = SYS_PACKET_KEEP_ALIVE" "6 \<le> length ?data"
    | (ack) "w = SYS_PACKET_ALIVE_ACK" "6 \<le> length ?data"
    | (seed) "w = SYS_PACKET_SET_SEED" "6 \<le> length ?data"
    by linarith
  then show ?thesis
  proof cases
    case unknown
    with ok w assms(1) show ?thesis
      by (auto simp: HandleSysPacket_def sys_msg_def Let_def handles_other)
  next
    case cut
    with ok w q' assms(1) show ?thesis
      by (auto simp: HandleSysPacket_def sys_msg_def handles_other)
  next
    case alive
    define v where "v = dec32 (take 4 (drop 2 ?data))"
    have msg: "sys_msg ?data = SysAlive v" "w \<noteq> SYS_PACKET_SET_SEED"
      using alive w by (simp_all add: sys_msg_def v_def Let_def SYS_PACKET_KEEP_ALIVE_def SYS_PACKET_SET_SEED_def)
    have "HandleSysPacket s packet = do { s \<leftarrow> send_system s SYS_PACKET_ALIVE_ACK v; Some (sint w, q', s) }"
      using alive ok(1) q'(1) by (simp add: HandleSysPacket_def v_def)
    then show ?thesis
      using handles_alive [OF assms(1), of v] q'(2) msg(1)
      by (cases "send_system s SYS_PACKET_ALIVE_ACK v") auto
  next
    case ack
    obtain now s1 where t: "get_time s = (now, s1)" by fastforce
    from ack ok(1) w q' t handles_ack [OF assms(1) t] show ?thesis
      by (auto simp: HandleSysPacket_def sys_msg_def SYS_PACKET_KEEP_ALIVE_def
          SYS_PACKET_ALIVE_ACK_def SYS_PACKET_SET_SEED_def)
  next
    case seed
    with ok(1) w q' handles_seed [OF assms(1)] show ?thesis
      by (auto simp: HandleSysPacket_def sys_msg_def SYS_PACKET_KEEP_ALIVE_def
          SYS_PACKET_ALIVE_ACK_def SYS_PACKET_SET_SEED_def)
  qed
qed

section \<open>Delivery\<close>

text \<open>A frame of a stream: its flags, its sequence number, its data.\<close>

type_synonym frame_fields = "byte \<times> c_short \<times> byte list"

definition frame_of :: "frame_fields \<Rightarrow> byte list" where
  "frame_of = (\<lambda>(flag, seq, data). frame flag seq data)"

definition is_system :: "frame_fields \<Rightarrow> bool" where
  "is_system = (\<lambda>(flag, seq, data). flag AND FLAG_SYSTEM \<noteq> 0)"

text \<open>
  What the client should be told about a stream, and the seed afterwards: the data of each
  user packet under the seed of that moment, and a connection for each new seed.
\<close>

fun deliver :: "byte list \<Rightarrow> frame_fields list \<Rightarrow> session_event list \<times> byte list" where
  "deliver seed [] = ([], seed)"
| "deliver seed ((flag, seq, data) # fs) =
     (let plain = decode seed flag data in
      if is_system (flag, seq, data)
      then let (es, seed') = deliver (new_seed seed (sys_msg plain)) fs in (sys_events (sys_msg plain) @ es, seed')
      else let (es, seed') = deliver seed fs in (OnReceive plain # es, seed'))"

text \<open>Whether every frame of a stream can be read when its turn comes.\<close>

fun all_readable :: "bool \<Rightarrow> byte list \<Rightarrow> frame_fields list \<Rightarrow> bool" where
  "all_readable ok seed [] = True"
| "all_readable ok seed ((flag, seq, data) # fs) =
     ((flag AND FLAG_ENCRYPT = 0 \<or> ok \<or> length data \<le> 21) \<and>
      (if is_system (flag, seq, data)
       then let m = sys_msg (decode seed flag data) in all_readable (ok \<or> sets_seed m) (new_seed seed m) fs
       else all_readable ok seed fs))"

lemma all_readable_seeded [simp]: "all_readable True seed fs"
  by (induction "True" seed fs rule: all_readable.induct) (simp_all add: Let_def)

text \<open>Every stream is a sequence of frames and a rest that does not begin with one.\<close>

lemma stream_split:
  "\<exists>fs tail. bs = concat (map frame_of fs) @ tail \<and> (\<forall>f \<in> set fs. valid_frame (frame_of f)) \<and>
     \<not> frames tail"
proof (induction "length bs" arbitrary: bs rule: less_induct)
  case less
  show ?case
  proof (cases "frames bs")
    case True
    then obtain fr rest where fr: "valid_frame fr" "bs = fr @ rest" by (auto simp: frames_def)
    then have "length rest < length bs" using length_valid_frame [of fr] by auto
    from less.hyps [OF this] obtain fs tail where "rest = concat (map frame_of fs) @ tail"
      "\<forall>f \<in> set fs. valid_frame (frame_of f)" "\<not> frames tail" by blast
    moreover from fr(1) obtain flag seq data where "fr = frame_of (flag, seq, data)"
      by (auto simp: valid_frame_def frame_of_def)
    ultimately show ?thesis using fr by (intro exI [of _ "(flag, seq, data) # fs"]) auto
  next
    case False
    then show ?thesis by (intro exI [of _ "[]"] exI [of _ bs]) simp
  qed
qed

lemma enc16_inject [simp]: "enc16 a = enc16 b \<longleftrightarrow> a = b"
  by (metis dec16_enc16)

lemma frame_inject [simp]:
  "frame f q d = frame f' q' d' \<longleftrightarrow> f = f' \<and> q = q' \<and> d = d'"
  by (auto simp: frame_def)

lemma RecvPacket_frame:
  assumes "session_ok s" "readable s flag data" "unparsed s = frame flag seq data @ rest"
    "valid_frame (frame flag seq data)"
  obtains s' f where "RecvPacket s = Some (True, s')" "session_ok s'" "unparsed s' = rest"
    "holds (m_recvNetPkt s') f seq (decode (m_seed s) flag data)" "f AND 4 = flag AND 4"
    "same_sender s s'" "sys s' = sys s" "m_state s' = m_state s"
  using session_okD(2,3,6) [OF assms(1)]
proof (cases rule: RecvPacket_cases)
  case (packet flag' seq' data' s' f)
  from assms(3) packet(2) have "frame flag' seq' data' @ unparsed s' = frame flag seq data @ rest" by simp
  from valid_frame_unique [OF packet(3) assms(4) this]
  have eq: "flag' = flag" "seq' = seq" "data' = data" "unparsed s' = rest" by simp_all
  have "session_ok s'"
    using packet(5,6,8,12) session_okD(8) [OF assms(1)]
    by (intro session_ok_receiving [OF assms(1)] holds_ok) simp_all
  with packet(1,6-10) show ?thesis
    unfolding eq(1-3) by (intro that [of s' f] eq(4))
next
  case (unseeded flag' seq' data' rest')
  with valid_frame_unique [of "frame flag' seq' data'" "frame flag seq data" rest' rest] assms(2-4)
  show ?thesis by auto
next
  case (none s') then show ?thesis using assms(3,4) by (auto simp: frames_def)
next
  case (bad s') then show ?thesis using assms(3,4) frames_not_broken by (auto simp: frames_def)
qed

lemma RecvPacket_unreadable:
  assumes "session_ok s" "\<not> readable s flag data" "unparsed s = frame flag seq data @ rest"
    "valid_frame (frame flag seq data)"
  shows "RecvPacket s = None"
  using session_okD(2,3,6) [OF assms(1)]
proof (cases rule: RecvPacket_cases)
  case (packet flag' seq' data' s' f)
  with valid_frame_unique [of "frame flag' seq' data'" "frame flag seq data" "unparsed s'" rest] assms(2-4)
  show ?thesis by auto
next
  case (none s') then show ?thesis using assms(3,4) by (auto simp: frames_def)
next
  case (bad s') then show ?thesis using assms(3,4) frames_not_broken by (auto simp: frames_def)
qed

lemma IsSysPacket_frame:
  assumes "holds p f seq data" "f AND 4 = flag AND (4 :: byte)"
  shows "IsSysPacket p = Some (is_system (flag, seq', data'))"
  using holds_flag_ops(6) [OF assms(1)] assms(2) by (simp add: is_system_def FLAG_SYSTEM_def)

lemma RecvPacket_rest:
  assumes "session_ok s" "\<not> frames (unparsed s)"
  obtains s' where "RecvPacket s = Some (False, s')" "session_ok s'" "unparsed s' = unparsed s"
    "same_sender s s'" "sys s' = sys s"
    "m_state s' = (if broken (unparsed s) then NET_STATE_DEAD else m_state s)"
  using session_okD(2,3,6) [OF assms(1)]
proof (cases rule: RecvPacket_cases)
  case (none s')
  with session_ok_receiving [OF assms(1)] session_okD(8) [OF assms(1)] show ?thesis
    by (intro that [of s']) auto
next
  case (bad s')
  with session_ok_receiving [OF assms(1)] session_okD(8) [OF assms(1)] show ?thesis
    by (intro that [of s']) auto
qed (use assms(2) in \<open>auto simp: frames_def\<close>)

text \<open>
  The delivery loop on a stream of frames: it returns, the client has been told what
  \<open>deliver\<close> says, and the bytes behind the last whole frame wait for more.
\<close>

definition deliver_from :: "session \<Rightarrow> cmd_packet \<Rightarrow> session option" where
  "deliver_from s packet = do {
     (ok, packet, s) \<leftarrow> GetPacket s packet;
     let s = s\<lparr>m_recvCmdPkt := packet\<rparr>;
     if ok then deliver_loop (notify (OnReceive (unread packet)) s) else Some s
   }"

lemma deliver_loop_from: "deliver_loop s = deliver_from s (m_recvCmdPkt s)"
  by (subst deliver_loop.simps) (simp add: deliver_from_def)

lemma recvCmdPkt_simps [simp]:
  "session_ok (s\<lparr>m_recvCmdPkt := q\<rparr>) = session_ok s" "seed_ok (s\<lparr>m_recvCmdPkt := q\<rparr>) = seed_ok s"
  "unparsed (s\<lparr>m_recvCmdPkt := q\<rparr>) = unparsed s" "ring_limits (s\<lparr>m_recvCmdPkt := q\<rparr>) = ring_limits s"
  "send_load (s\<lparr>m_recvCmdPkt := q\<rparr>) = send_load s"
  by (simp_all add: session_ok_def ring_ok_def window_ok_def seed_mem_def seed_ok_def unparsed_def
      ring_limits_def send_load_def pending_def)

text \<open>
  The room the loop needs: each answer it sends is as long as the least frame that asks for one,
  so what the counter has still to take in does not grow.
\<close>

definition load_ok :: "session \<Rightarrow> bool" where
  "load_ok s \<longleftrightarrow> ring_limits s \<and> send_load s + int (length (unparsed s)) < 2 ^ 31"

lemma sys_msg_alive: "sys_msg data = SysAlive v \<Longrightarrow> 6 \<le> length data"
  by (auto simp: sys_msg_def Let_def split: if_splits)

text \<open>One step of the loop: a user packet is passed on, a system packet handled.\<close>

lemma deliver_from_frame:
  assumes "session_ok s" "readable s flag data" "unparsed s = frame flag seq data @ rest"
    "valid_frame (frame flag seq data)" "plain = decode (m_seed s) flag data"
  obtains (step) s' packet' where "deliver_from s packet = deliver_from s' packet'" "session_ok s'"
    "unparsed s' = rest" "received (sys s') = received (sys s)"
    "seed_ok s' = (seed_ok s \<or> is_system (flag, seq, data) \<and> sets_seed (sys_msg plain))"
    "m_seed s' = (if is_system (flag, seq, data) then new_seed (m_seed s) (sys_msg plain) else m_seed s)"
    "events s' = events s @
       (if is_system (flag, seq, data) then sys_events (sys_msg plain) else [OnReceive plain])"
    "m_state s' \<in> {m_state s, NET_STATE_CONNECTED, NET_STATE_DEAD}" "load_ok s \<longrightarrow> load_ok s'"
  | (overflow) "deliver_from s packet = None" "\<not> load_ok s"
proof -
  from assms(1-4) obtain s1 f where s1: "RecvPacket s = Some (True, s1)" "session_ok s1"
    "unparsed s1 = rest" "holds (m_recvNetPkt s1) f seq plain"
    "f AND 4 = flag AND 4" "same_sender s s1" "sys s1 = sys s" "m_state s1 = m_state s"
    unfolding assms(5) by (rule RecvPacket_frame)
  from s1(6) have s1': "seed_ok s1 = seed_ok s" "m_seed s1 = m_seed s" "events s1 = events s"
    "ring_limits s1 = ring_limits s" "send_load s1 = send_load s"
    using same_sender_ring [OF s1(6)] by (auto simp: same_sender_def)
  have len: "length (unparsed s) = 5 + length plain + length rest" using assms(3,5) by simp
  from AttachCmdPacket_reader [OF s1(4)] obtain p1 where p1:
    "AttachCmdPacket (m_recvNetPkt s1) packet = Some p1" "reader p1" "unread p1 = plain" by blast
  note sysp = IsSysPacket_frame [OF s1(4,5), of seq data]
  show ?thesis
  proof (cases "is_system (flag, seq, data)")
    case False
    define s2 where "s2 = notify (OnReceive plain) (s1\<lparr>m_recvCmdPkt := p1\<rparr>)"
    have "GetPacket s packet = Some (True, p1, s1)"
      using s1(1) p1(1) sysp False by (subst GetPacket.simps) simp
    then have "deliver_from s packet = deliver_loop s2"
      using p1(3) by (simp add: deliver_from_def s2_def)
    then have "deliver_from s packet = deliver_from s2 (m_recvCmdPkt s2)"
      by (simp only: deliver_loop_from)
    with False s1 s1' len show ?thesis by (intro step [of s2]) (simp_all add: s2_def load_ok_def)
  next
    case True
    note handle = HandleSysPacket_spec [OF s1(2) p1(2)]
    have get: "GetPacket s packet = do { (_, packet, s) \<leftarrow> HandleSysPacket s1 p1; GetPacket s packet }"
      using s1(1) p1(1) sysp True by (subst GetPacket.simps) simp
    show ?thesis
    proof (cases "HandleSysPacket s1 p1")
      case None
      with handle obtain v where v: "sys_msg plain = SysAlive v" "\<not> answer_room s1"
        using p1(3) by auto
      then have "\<not> load_ok s"
        using sys_msg_alive [OF v(1)] s1'(4,5) len by (auto simp: answer_room_def load_ok_def)
      moreover have "deliver_from s packet = None" using get None by (simp add: deliver_from_def)
      ultimately show ?thesis by (intro overflow)
    next
      case (Some res)
      obtain r p2 s2 where res: "res = (r, p2, s2)" by (metis prod_cases3)
      with handle Some p1(3) have s2: "handles s1 (sys_msg plain) s2" by blast
      have "load_ok s \<longrightarrow> load_ok s2"
      proof
        assume "load_ok s"
        moreover have "send_load s2 \<le> send_load s1 + int (5 + length plain)"
          using s2 sys_msg_alive [of plain] by (auto simp: handles_def split: sys_msg.splits)
        ultimately show "load_ok s2"
          using s2 s1(3) s1'(4,5) len by (auto simp: load_ok_def handles_def)
      qed
      moreover have "deliver_from s packet = deliver_from s2 p2"
        using get Some res by (simp add: deliver_from_def)
      ultimately show ?thesis
        using True s1 s1' s2
        by (intro step [of s2 p2]) (simp_all add: handles_def split: sys_msg.splits, blast+)
    qed
  qed
qed

text \<open>What the loop leaves, when it returns.\<close>

definition delivers :: "session \<Rightarrow> frame_fields list \<Rightarrow> byte list \<Rightarrow> session \<Rightarrow> bool" where
  "delivers s fs tail s' \<longleftrightarrow> session_ok s' \<and> unparsed s' = tail \<and> received (sys s') = received (sys s) \<and>
     (seed_ok s \<longrightarrow> seed_ok s') \<and> events s' = events s @ fst (deliver (m_seed s) fs) \<and>
     m_seed s' = snd (deliver (m_seed s) fs) \<and>
     m_state s' \<in> {m_state s, NET_STATE_CONNECTED, NET_STATE_DEAD} \<and>
     (broken tail \<longrightarrow> m_state s' = NET_STATE_DEAD)"

lemma deliver_from_stream:
  assumes "session_ok s" "unparsed s = concat (map frame_of fs) @ tail"
    "\<forall>f \<in> set fs. valid_frame (frame_of f)" "\<not> frames tail"
  shows "(\<not> all_readable (seed_ok s) (m_seed s) fs \<longrightarrow> deliver_from s packet = None) \<and>
    (all_readable (seed_ok s) (m_seed s) fs \<longrightarrow> load_ok s \<longrightarrow> deliver_from s packet \<noteq> None) \<and>
    (\<forall>s'. deliver_from s packet = Some s' \<longrightarrow> delivers s fs tail s')"
  using assms
proof (induction fs arbitrary: s packet)
  case Nil
  then have "\<not> frames (unparsed s)" by simp
  with Nil.prems(1) obtain s' where s': "RecvPacket s = Some (False, s')" "session_ok s'"
    "unparsed s' = unparsed s" "same_sender s s'" "sys s' = sys s"
    "m_state s' = (if broken (unparsed s) then NET_STATE_DEAD else m_state s)"
    by (rule RecvPacket_rest)
  then have "deliver_from s packet = Some (s'\<lparr>m_recvCmdPkt := packet\<rparr>)"
    unfolding deliver_from_def by (subst GetPacket.simps) simp
  with s' Nil.prems show ?case
    using same_sender_ring(3) [OF s'(4)] by (auto simp: same_sender_def delivers_def)
next
  case (Cons fr fs)
  obtain flag seq data where fr: "fr = (flag, seq, data)" by (cases fr)
  from Cons.prems(2,3) have stream: "unparsed s = frame flag seq data @ concat (map frame_of fs) @ tail"
    "valid_frame (frame flag seq data)" by (simp_all add: fr frame_of_def)
  show ?case
  proof (cases "readable s flag data")
    case False
    have "GetPacket s packet = None"
      using RecvPacket_unreadable [OF Cons.prems(1) False stream] by (subst GetPacket.simps) simp
    moreover from False have "\<not> all_readable (seed_ok s) (m_seed s) (fr # fs)"
      by (auto simp: readable_def fr)
    ultimately show ?thesis unfolding deliver_from_def by simp
  next
    case True
    from Cons.prems(1) True stream refl show ?thesis
    proof (cases rule: deliver_from_frame [where packet = packet])
      case overflow
      then show ?thesis by simp
    next
      case (step s2 p2)
      let ?plain = "decode (m_seed s) flag data"
      have all: "all_readable (seed_ok s) (m_seed s) (fr # fs) = all_readable (seed_ok s2) (m_seed s2) fs"
        using True step(5,6) by (auto simp: fr readable_def Let_def)
      have events: "fst (deliver (m_seed s) (fr # fs)) =
          (if is_system fr then sys_events (sys_msg ?plain) else [OnReceive ?plain]) @ fst (deliver (m_seed s2) fs)"
        "snd (deliver (m_seed s) (fr # fs)) = snd (deliver (m_seed s2) fs)"
        using step(6) by (auto simp: fr Let_def split: prod.splits)
      have "\<forall>f \<in> set fs. valid_frame (frame_of f)" using Cons.prems(3) by simp
      note rest = Cons.IH [OF step(2,3) this Cons.prems(4), of p2]
      have "delivers s (fr # fs) tail s'" if "delivers s2 fs tail s'" for s'
        using that step(4,5,7,8) unfolding delivers_def events by (auto simp: fr)
      then show ?thesis using rest step(1,9) unfolding all by auto
    qed
  qed
qed

end
