(* ===== verification/SessionLife.thy ===== *)
theory SessionLife
  imports SessionReceive
begin

text \<open>
  The life cycle of a session: one round of \<open>Process\<close> from every state, the histories a
  client and the network can drive a session through, and two sessions talking to each other.
\<close>

section \<open>The regular work of a round\<close>

lemma get_time_sys:
  "get_time s = (t, s') \<Longrightarrow> \<exists>w. s' = s\<lparr>sys := w\<rparr> \<and> same_traffic (sys s) w"
  by (auto simp: get_time_def split: prod.splits dest: same_traffic_calls)

text \<open>What a round does before it looks at the state: flush, and read what has arrived.\<close>

definition round_of :: "session \<Rightarrow> byte list \<Rightarrow> session \<Rightarrow> bool" where
  "round_of s bs s' \<longleftrightarrow> session_ok s' \<and> unparsed s' = unparsed s @ bs \<and>
     received (sys s') = received (sys s) @ bs \<and> outgoing s' = outgoing s \<and> events s' = events s \<and>
     m_seed s' = m_seed s \<and> seed_ok s' = seed_ok s \<and> m_connTime s' = m_connTime s \<and>
     m_recvBytes s' = m_recvBytes s + int (length bs) \<and> send_load s' = send_load s \<and>
     (ring_limits s \<longrightarrow> ring_limits s') \<and> (m_state s' = m_state s \<or> m_state s' = NET_STATE_DEAD)"

lemma round_of_refl: "session_ok s \<Longrightarrow> round_of s [] s"
  by (simp add: round_of_def)

lemma round_of_clocks:
  assumes "session_ok s" "same_traffic (sys s) w"
  shows "round_of s [] (s\<lparr>sys := w, m_lastSendTime := t\<rparr>)" "round_of s [] (s\<lparr>sys := w\<rparr>)"
    "round_of s [] (s\<lparr>sys := w, m_lastSendTime := t, m_state := NET_STATE_DEAD\<rparr>)"
    "round_of s [] (s\<lparr>sys := w, m_state := NET_STATE_DEAD\<rparr>)"
  using assms
  by (auto simp: round_of_def session_ok_def ring_ok_def window_ok_def seed_ok_def seed_mem_def
      unparsed_def outgoing_def pending_def same_traffic_def ring_limits_def send_load_def)

lemma round_of_trans:
  "round_of s bs t \<Longrightarrow> round_of t bs' u \<Longrightarrow> round_of s (bs @ bs') u"
  by (auto simp: round_of_def)

lemma round_of_flush:
  assumes "session_ok s"
  shows "send_load s < 2 ^ 31 \<Longrightarrow> FlushData s \<noteq> None"
    and "FlushData s = Some s' \<Longrightarrow> round_of s [] s'"
proof -
  show "send_load s < 2 ^ 31 \<Longrightarrow> FlushData s \<noteq> None" by (rule FlushData_ok(1) [OF assms])
  assume "FlushData s = Some s'"
  from FlushData_ok(2) [OF assms this] have s': "session_ok s'" "flushed s s'" by simp_all
  then have snd: "sending s s'" "outgoing s' = outgoing s" by (simp_all add: flushed_def flushing_def)
  then have rcv: "same_receiver s s'" "received (sys s') = received (sys s)"
    "m_state s' = m_state s \<or> m_state s' = NET_STATE_DEAD" by (simp_all add: sending_def)
  from rcv(1) have "m_seed s' = m_seed s" "events s' = events s" "m_connTime s' = m_connTime s"
    "m_recvBytes s' = m_recvBytes s" by (simp_all add: same_receiver_def)
  then show "round_of s [] s'"
    using s'(1) snd(2) rcv(2,3) flushed_load [OF s'(2)] same_receiver_window [OF rcv(1)] sending_limits [OF snd(1)]
    by (simp add: round_of_def)
qed

lemma round_of_read:
  assumes "session_ok s"
  shows "recv_room s \<Longrightarrow> Session_ReadData s \<noteq> None"
    and "Session_ReadData s = Some (ok, s') \<Longrightarrow> \<exists>bs. round_of s bs s'"
proof -
  note read = Session_ReadData_spec [OF session_okD(2,8) [OF assms]]
  then show "recv_room s \<Longrightarrow> Session_ReadData s \<noteq> None" by blast
  assume "Session_ReadData s = Some (ok, s')"
  with read obtain bs where s': "window_ok s'" "same_sender s s'" "m_recvNetPkt s' = m_recvNetPkt s"
    "unparsed s' = unparsed s @ bs" "received (sys s') = received (sys s) @ bs"
    "m_recvBytes s' = m_recvBytes s + int (length bs)" by (auto simp: read_in_def)
  then have "session_ok s'"
    using session_okD(3,8) [OF assms] by (intro session_ok_receiving [OF assms]) simp_all
  moreover have "m_seed s' = m_seed s" "events s' = events s" "m_connTime s' = m_connTime s"
    "m_state s' = m_state s \<or> m_state s' = NET_STATE_DEAD" using s'(2) by (simp_all add: same_sender_def)
  ultimately have "round_of s bs s'"
    using s'(4-6) same_sender_ring [OF s'(2)] by (simp add: round_of_def)
  then show "\<exists>bs. round_of s bs s'" ..
qed

text \<open>The regular work of a session that is connected and has heard from the other end in time.\<close>

lemma flush_and_read:
  assumes "session_ok s"
  shows "send_load s < 2 ^ 31 \<Longrightarrow> recv_room s \<Longrightarrow>
      do { s \<leftarrow> FlushData s; (_, s) \<leftarrow> Session_ReadData s; Some s } \<noteq> None"
    and "do { s \<leftarrow> FlushData s; (_, s) \<leftarrow> Session_ReadData s; Some s } = Some s' \<Longrightarrow> \<exists>bs. round_of s bs s'"
proof -
  have fl: "round_of s [] t" "session_ok t" if "FlushData s = Some t" for t
    using round_of_flush(2) [OF assms that] by (simp_all add: round_of_def)
  have read: "\<exists>bs. round_of s bs u" if "FlushData s = Some t" "Session_ReadData t = Some (ok, u)" for t ok u
    using round_of_read(2) [OF fl(2) that(2)] round_of_trans [OF fl(1)] that(1) by blast
  then show "do { s \<leftarrow> FlushData s; (_, s) \<leftarrow> Session_ReadData s; Some s } = Some s' \<Longrightarrow> \<exists>bs. round_of s bs s'"
    by (auto simp: bind_eq_Some_conv)
  assume room: "send_load s < 2 ^ 31" "recv_room s"
  then obtain t where t: "FlushData s = Some t" using round_of_flush(1) [OF assms] by auto
  then have "recv_room t" using fl(1) room(2) by (simp add: round_of_def recv_room_def)
  then obtain ok u where "Session_ReadData t = Some (ok, u)" using round_of_read(1) [OF fl(2)] t by auto
  with t show "do { s \<leftarrow> FlushData s; (_, s) \<leftarrow> Session_ReadData s; Some s } \<noteq> None" by simp
qed

lemma DefProc_spec:
  assumes "session_ok s"
  shows "send_load s < 2 ^ 31 \<Longrightarrow> recv_room s \<Longrightarrow> DefProc s \<noteq> None"
    and "DefProc s = Some s' \<Longrightarrow> (\<exists>bs. round_of s bs s') \<and>
      (m_state s \<noteq> NET_STATE_CONNECTED \<and> m_state s \<noteq> NET_STATE_WAITING_SEED \<longrightarrow> s' = s)"
proof -
  consider (idle) "m_state s \<noteq> NET_STATE_CONNECTED" "m_state s \<noteq> NET_STATE_WAITING_SEED"
    | (waiting) "m_state s = NET_STATE_WAITING_SEED" | (connected) "m_state s = NET_STATE_CONNECTED" by blast
  then have "(send_load s < 2 ^ 31 \<longrightarrow> recv_room s \<longrightarrow> DefProc s \<noteq> None) \<and>
    (\<forall>s'. DefProc s = Some s' \<longrightarrow> (\<exists>bs. round_of s bs s') \<and>
      (m_state s \<noteq> NET_STATE_CONNECTED \<and> m_state s \<noteq> NET_STATE_WAITING_SEED \<longrightarrow> s' = s))"
  proof cases
    case idle
    then show ?thesis using round_of_refl [OF assms] by (auto simp: DefProc_def)
  next
    case waiting
    then have "DefProc s = do { (_, s) \<leftarrow> Session_ReadData s; Some s }" by (simp add: DefProc_def)
    then show ?thesis
      using round_of_read [OF assms] waiting by (cases "Session_ReadData s") auto
  next
    case connected
    obtain now s1 where t: "get_time s = (now, s1)" by fastforce
    then obtain w where w: "s1 = s\<lparr>sys := w\<rparr>" "same_traffic (sys s) w" using get_time_sys by blast
    define s2 where "s2 = (if now - m_lastSendTime s1 > NET_KEEP_ALIVE_INTERVAL
      then s1\<lparr>m_lastSendTime := now\<rparr> else s1)"
    have s2: "round_of s [] s2" "round_of s [] (s2\<lparr>m_state := NET_STATE_DEAD\<rparr>)"
      using round_of_clocks [OF assms w(2)] by (auto simp: s2_def w(1))
    then have ok2: "session_ok s2" "send_load s2 = send_load s" "recv_room s2 = recv_room s"
      by (simp_all add: round_of_def recv_room_def)
    show ?thesis
    proof (cases "now - m_lastRecvTime s2 > NET_TIMEOUT")
      case late: True
      have "DefProc s = Some (s2\<lparr>m_state := NET_STATE_DEAD\<rparr>)"
        using connected t late by (simp add: DefProc_def s2_def Let_def)
      with s2(2) connected show ?thesis by auto
    next
      case False
      have run: "DefProc s = do { s \<leftarrow> FlushData s2; (_, s) \<leftarrow> Session_ReadData s; Some s }"
        using connected t False by (simp add: DefProc_def s2_def Let_def)
      have "\<exists>bs. round_of s bs s'" if "DefProc s = Some s'" for s'
        using flush_and_read(2) [OF ok2(1)] that round_of_trans [OF s2(1)] unfolding run by fastforce
      then show ?thesis
        using flush_and_read(1) [OF ok2(1)] ok2(2,3) connected unfolding run [symmetric] by auto
    qed
  qed
  then show "send_load s < 2 ^ 31 \<Longrightarrow> recv_room s \<Longrightarrow> DefProc s \<noteq> None"
    "DefProc s = Some s' \<Longrightarrow> (\<exists>bs. round_of s bs s') \<and>
      (m_state s \<noteq> NET_STATE_CONNECTED \<and> m_state s \<noteq> NET_STATE_WAITING_SEED \<longrightarrow> s' = s)" by blast+
qed

section \<open>Starting over\<close>

text \<open>What the memory of a session must provide before its constructor runs.\<close>

definition constructed_parts :: "session \<Rightarrow> bool" where
  "constructed_parts s \<longleftrightarrow> net_ok (m_recvNetPkt s) \<and> net_ok (m_sendNetPkt s) \<and>
     m_head (m_sendNetPkt s) = OwnHead \<and> length (m_seed s) = 16"

lemma new_block_spec:
  assumes "new_block n s = (buf, s')"
  obtains w where "s' = s\<lparr>sys := w\<rparr>" "same_traffic (sys s) w" "length buf = nat n"
    "closed w = closed (sys s)"
proof (rule that)
  from assms have "new_bytes (os_memory (sys s) (calls (sys s))) (nat n) = buf"
    "s' = s\<lparr>sys := snd (next_call (sys s))\<rparr>" by (simp_all add: new_block_def next_call_def)
  then show "s' = s\<lparr>sys := snd (next_call (sys s))\<rparr>" "length buf = nat n" by auto
qed (simp_all add: next_call_def same_traffic_def)

lemma fresh_buffers_spec:
  "\<exists>wbuf rbuf w. fresh_buffers s = s\<lparr>sys := w, m_readBuf := rbuf, m_readBufSize := MAX_BUFFER_SIZE,
      m_writeBuf := wbuf, m_writeBufSize := MAX_BUFFER_SIZE, m_maxBufSize := MAX_BUFFER_SIZE\<rparr> \<and>
    length wbuf = nat MAX_BUFFER_SIZE \<and> length rbuf = nat MAX_BUFFER_SIZE \<and>
    same_traffic (sys s) w \<and> closed w = closed (sys s)"
proof -
  obtain rbuf s1 where 1: "new_block MAX_BUFFER_SIZE s = (rbuf, s1)" by fastforce
  then obtain w1 where s1: "s1 = s\<lparr>sys := w1\<rparr>" "same_traffic (sys s) w1"
    "length rbuf = nat MAX_BUFFER_SIZE" "closed w1 = closed (sys s)"
    by (rule new_block_spec)
  let ?s2 = "s1\<lparr>m_readBuf := rbuf, m_readBufSize := MAX_BUFFER_SIZE\<rparr>"
  obtain wbuf s3 where 3: "new_block MAX_BUFFER_SIZE ?s2 = (wbuf, s3)" by fastforce
  then obtain w3 where s3: "s3 = ?s2\<lparr>sys := w3\<rparr>" "same_traffic (sys ?s2) w3"
    "length wbuf = nat MAX_BUFFER_SIZE" "closed w3 = closed (sys ?s2)"
    by (rule new_block_spec)
  show ?thesis
    using 1 3 s1(2-4) s3(2-4)
    by (intro exI [of _ wbuf] exI [of _ rbuf] exI [of _ w3])
      (simp add: fresh_buffers_def s1(1) s3(1) same_traffic_def)
qed

lemma Reset_spec:
  assumes "net_ok (m_recvNetPkt s)" "net_ok (m_sendNetPkt s)" "m_head (m_sendNetPkt s) = OwnHead"
    "length (m_seed s) = 16" "writer (BeginWrite (m_sendCmdPkt s))" "m_nMaxSize (m_sendCmdPkt s) = 16384"
  shows "session_ok (Session_Reset s)" "m_state (Session_Reset s) = NET_STATE_ZERO"
    "pending (Session_Reset s) = []" "unparsed (Session_Reset s) = []" "m_seedLen (Session_Reset s) = 0"
    "events (Session_Reset s) = events s" "m_socket (Session_Reset s) = INVALID_SOCKET"
    "sent (sys (Session_Reset s)) = sent (sys s)" "received (sys (Session_Reset s)) = received (sys s)"
    "m_bEncrypt (Session_Reset s) = m_bEncrypt s"
    "closed (sys (Session_Reset s)) =
       (if m_socket s = INVALID_SOCKET then closed (sys s) else m_socket s # closed (sys s))"
proof -
  let ?t = "Session_Reset s"
  obtain wbuf rbuf w1 where 1: "fresh_buffers (s\<lparr>m_rtt := 0\<rparr>) =
      s\<lparr>m_rtt := 0, sys := w1, m_readBuf := rbuf, m_readBufSize := MAX_BUFFER_SIZE, m_writeBuf := wbuf,
        m_writeBufSize := MAX_BUFFER_SIZE, m_maxBufSize := MAX_BUFFER_SIZE\<rparr>"
    "length wbuf = nat MAX_BUFFER_SIZE" "length rbuf = nat MAX_BUFFER_SIZE" "same_traffic (sys s) w1"
    "closed w1 = closed (sys s)"
    using fresh_buffers_spec [of "s\<lparr>m_rtt := 0\<rparr>"] by auto
  obtain b sock w where 2: "Close_socket (m_socket s) w1 = (b, sock, w)" by (metis prod_cases3)
  then have w: "same_traffic w1 w" "closed w = (if m_socket s = INVALID_SOCKET then closed w1
      else m_socket s # closed w1)"
    using Close_traffic [where w = w1 and s = "m_socket s"] by simp_all
  define u where "u = s\<lparr>m_rtt := 0, sys := w1, m_readBuf := rbuf, m_readBufSize := MAX_BUFFER_SIZE,
    m_writeBuf := wbuf, m_writeBufSize := MAX_BUFFER_SIZE, m_maxBufSize := MAX_BUFFER_SIZE\<rparr>"
  have reset: "?t = (clear_counters (u\<lparr>m_socket := INVALID_SOCKET, sys := w\<rparr>))\<lparr>m_maxBufSize := 17000\<rparr>"
    unfolding Session_Reset_def 1(1) u_def [symmetric] using 2
    by (simp add: close_socket_def u_def Reset_def MAX_BUFFER_SIZE_def MAX_NET_PACKET_SIZE_def
        MAX_CMD_PACKET_SIZE_def NET_PACKET_HEAD_SIZE_def)
  have big: "MAX_BUFFER_SIZE = 16389"
    by (simp add: MAX_BUFFER_SIZE_def MAX_NET_PACKET_SIZE_def MAX_CMD_PACKET_SIZE_def
        NET_PACKET_HEAD_SIZE_def)
  have fields: "m_writeBuf ?t = wbuf" "m_writeBufSize ?t = 16389" "m_writeLen ?t = 0"
    "m_writeBeg ?t = 0" "m_writeEnd ?t = 0" "m_readBuf ?t = rbuf" "m_readBufSize ?t = 16389"
    "m_readLen ?t = 0" "m_readPos ?t = 0" "sys ?t = w" "m_sendCmdPkt ?t = m_sendCmdPkt s"
    "m_recvNetPkt ?t = m_recvNetPkt s" "m_sendNetPkt ?t = m_sendNetPkt s" "m_seed ?t = m_seed s"
    "m_sendBytes ?t = 0" "m_recvBytes ?t = 0"
    by (simp_all add: reset clear_counters_def u_def big)
  show more: "m_state ?t = NET_STATE_ZERO" "m_seedLen ?t = 0" "events ?t = events s"
    "m_socket ?t = INVALID_SOCKET" "m_bEncrypt ?t = m_bEncrypt s"
    by (simp_all add: reset clear_counters_def u_def)
  show "pending ?t = []" "unparsed ?t = []" by (simp_all add: pending_def unparsed_def fields)
  have "ring_ok ?t" unfolding ring_ok_def
    by (rule exI [of _ 0], rule exI [of _ 0]) (simp add: fields 1(2) big)
  moreover have "window_ok ?t" unfolding window_ok_def
    by (rule exI [of _ 0], rule exI [of _ 0]) (simp add: fields 1(3) big)
  ultimately show "session_ok ?t" using assms
    by (simp add: session_ok_def seed_mem_def fields more)
  show "sent (sys ?t) = sent (sys s)" "received (sys ?t) = received (sys s)"
    "closed (sys ?t) = (if m_socket s = INVALID_SOCKET then closed (sys s) else m_socket s # closed (sys s))"
    using 1(4,5) w by (simp_all add: fields same_traffic_def)
qed

lemma Reset_ok:
  assumes "session_ok s"
  shows "session_ok (Session_Reset s)"
  using assms by (intro Reset_spec) (auto simp: session_ok_def seed_mem_def)

lemma Reset_state [simp]:
  "m_state (Session_Reset s) = NET_STATE_ZERO" "m_state (Close s) = NET_STATE_ZERO"
  by (simp_all add: Session_Reset_def clear_counters_def Close_def)

lemma constructor_spec:
  assumes "constructed_parts s"
  obtains s' where "CG_TCPSession s = Some s'" "session_ok s'" "m_state s' = NET_STATE_ZERO"
    "pending s' = []" "unparsed s' = []" "events s' = events s" "m_bEncrypt s' = False"
proof -
  obtain w1 c1 where c1: "SetSize (m_sendCmdPkt s) MAX_CMD_PACKET_SIZE
      (os_memory (snd (next_call (sys s))) (fst (next_call (sys s)))) = Some (True, c1)"
    "writer (BeginWrite c1)" "m_nMaxSize c1 = 16384"
    using SetSize_BeginWrite [of MAX_CMD_PACKET_SIZE] by (force simp: MAX_CMD_PACKET_SIZE_def)
  define w where "w = snd (next_call (sys s))"
  obtain c2 where c2: "SetSize (m_recvCmdPkt s) MAX_CMD_PACKET_SIZE
      (os_memory (snd (next_call w)) (fst (next_call w))) = Some (True, c2)"
    using SetSize_BeginWrite [of MAX_CMD_PACKET_SIZE] by (force simp: MAX_CMD_PACKET_SIZE_def)
  define t where "t = s\<lparr>m_sendCmdPkt := c1, m_recvCmdPkt := c2, m_bEncrypt := False,
    m_bCompress := True, m_readBuf := [], m_writeBuf := [], sys := snd (next_call w)\<rparr>"
  have "CG_TCPSession s = Some (Session_Reset t)"
    using c1(1) c2 by (simp add: CG_TCPSession_def t_def w_def case_prod_unfold Let_def)
  moreover from assms c1 have "net_ok (m_recvNetPkt t)" "net_ok (m_sendNetPkt t)"
    "m_head (m_sendNetPkt t) = OwnHead" "length (m_seed t) = 16" "writer (BeginWrite (m_sendCmdPkt t))"
    "m_nMaxSize (m_sendCmdPkt t) = 16384"
    by (simp_all add: constructed_parts_def t_def)
  note reset = Reset_spec [OF this]
  ultimately show ?thesis
    by (intro that [of "Session_Reset t"] reset(1-4)) (simp_all add: reset(6,10) t_def)
qed

section \<open>One round\<close>

text \<open>The states a round can lead to.\<close>

inductive life :: "net_state \<Rightarrow> net_state \<Rightarrow> bool" where
  stays: "st \<noteq> NET_STATE_DEAD \<Longrightarrow> life st st"
| established: "life NET_STATE_CONNECTING NET_STATE_WAITING_SEED"
| given_up: "life NET_STATE_CONNECTING NET_STATE_ZERO"
| seeded: "life NET_STATE_WAITING_SEED NET_STATE_CONNECTED"
| lost: "st \<in> {NET_STATE_WAITING_SEED, NET_STATE_CONNECTED} \<Longrightarrow> life st NET_STATE_DEAD"
| ended: "st \<in> {NET_STATE_WAITING_SEED, NET_STATE_CONNECTED, NET_STATE_DEAD} \<Longrightarrow> life st NET_STATE_ZERO"

inductive_cases life_from_zero: "life NET_STATE_ZERO st"
inductive_cases life_from_dead: "life NET_STATE_DEAD st"

code_pred life .

lemma Process_dead:
  assumes "session_ok s" "DefProc s = Some s1" "m_state s1 = NET_STATE_DEAD"
  shows "Process s = Some (Close (notify OnDisconnect s1))"
  using assms by (simp add: Process_def)

lemma Process_connected:
  assumes "DefProc s = Some s1" "session_ok s1" "m_state s1 = NET_STATE_CONNECTED"
    "unparsed s1 = concat (map frame_of fs) @ tail" "\<forall>f \<in> set fs. valid_frame (frame_of f)"
    "\<not> frames tail"
  shows "(\<not> all_readable (seed_ok s1) (m_seed s1) fs \<longrightarrow> Process s = None) \<and>
    (all_readable (seed_ok s1) (m_seed s1) fs \<longrightarrow> load_ok s1 \<longrightarrow> Process s \<noteq> None) \<and>
    (\<forall>s'. Process s = Some s' \<longrightarrow> delivers s1 fs tail s')"
proof -
  have "Process s = deliver_from s1 (m_recvCmdPkt s1)"
    using assms(1,3) by (simp add: Process_def deliver_loop_from)
  with deliver_from_stream [OF assms(2,4-6), of "m_recvCmdPkt s1"] show ?thesis by simp
qed

lemma Process_waiting:
  assumes "session_ok s1" "m_state s1 = NET_STATE_WAITING_SEED"
  shows "(seed_ok s1 \<longrightarrow> process_waiting s1 \<noteq> None) \<and>
    (\<forall>s'. process_waiting s1 = Some s' \<longrightarrow> session_ok s' \<and>
       m_state s' \<in> {NET_STATE_WAITING_SEED, NET_STATE_CONNECTED, NET_STATE_DEAD})"
  using session_okD(2,3,6) [OF assms(1)]
proof (cases rule: RecvPacket_cases)
  case (packet flag seq data s2 f)
  then have s2: "session_ok s2"
    using session_okD(8) [OF assms(1)] by (intro session_ok_receiving [OF assms(1)] holds_ok) simp_all
  from AttachCmdPacket_reader [OF packet(6)] obtain p where p:
    "AttachCmdPacket (m_recvNetPkt s2) (m_recvCmdPkt s2) = Some p" "reader p" by blast
  note sysp = IsSysPacket_frame [OF packet(6,7), of seq data]
  define s3 where "s3 = s2\<lparr>m_recvCmdPkt := p\<rparr>"
  have s3: "session_ok s3" "m_state s3 = NET_STATE_WAITING_SEED"
    using s2 packet(9) assms(2) by (simp_all add: s3_def)
  have start: "process_waiting s1 = (if is_system (flag, seq, data)
      then do { (_, packet, s) \<leftarrow> HandleSysPacket s3 p; Some (s\<lparr>m_recvCmdPkt := packet\<rparr>) }
      else Some s3)"
    using assms(2) packet(1) p(1) sysp by (simp add: process_waiting_def s3_def)
  have "answer_room s3" using s3(2) by (simp add: answer_room_def)
  then obtain r q s4 where s4: "HandleSysPacket s3 p = Some (r, q, s4)" "handles s3 (sys_msg (unread p)) s4"
    using HandleSysPacket_spec [OF s3(1) p(2)] by auto
  then have "session_ok s4" "m_state s4 \<in> {NET_STATE_WAITING_SEED, NET_STATE_CONNECTED, NET_STATE_DEAD}"
    using s3(2) by (auto simp: handles_def split: sys_msg.splits)
  with start s3 s4(1) show ?thesis by auto
next
  case (unseeded flag seq data rest)
  then have "process_waiting s1 = None" "\<not> seed_ok s1"
    using assms(2) by (auto simp: process_waiting_def)
  then show ?thesis by simp
next
  case (none s2)
  then have "process_waiting s1 = Some s2" using assms(2) by (simp add: process_waiting_def)
  with none assms(2) session_ok_receiving [OF assms(1)] session_okD(8) [OF assms(1)] show ?thesis by auto
next
  case (bad s2)
  then have "process_waiting s1 = Some s2" using assms(2) by (simp add: process_waiting_def)
  with bad assms(2) session_ok_receiving [OF assms(1)] session_okD(8) [OF assms(1)] show ?thesis by auto
qed

lemma session_ok_calls:
  assumes "session_ok s"
  shows "session_ok (s\<lparr>sys := w\<rparr>)" "session_ok (s\<lparr>sys := w, m_state := st\<rparr>)"
    "session_ok (s\<lparr>m_state := st, sys := w, m_startTime := t, m_lastSendTime := t, m_lastRecvTime := t\<rparr>)"
  using assms by (simp_all add: session_ok_def ring_ok_def window_ok_def seed_mem_def seed_ok_def)

lemma Process_connecting:
  assumes "session_ok s1" "m_state s1 = NET_STATE_CONNECTING"
  shows "session_ok (process_connecting s1) \<and> m_state (process_connecting s1) \<in>
    {NET_STATE_CONNECTING, NET_STATE_WAITING_SEED, NET_STATE_ZERO}"
proof -
  obtain late s3 where 3: "connect_failed s1 = (late, s3)" by fastforce
  then obtain w3 where s3: "s3 = s1\<lparr>sys := w3\<rparr>"
    by (auto simp: connect_failed_def get_time_def Let_def split: if_splits prod.splits)
  have ok3: "session_ok s3"
    using session_ok_calls(1) [OF assms(1)] by (simp add: s3)
  show ?thesis
  proof (cases late)
    case True
    then have "process_connecting s1 = notify (OnConnect False) (Close s3)"
      using 3 by (simp add: process_connecting_def)
    then show ?thesis
      using Reset_ok [OF ok3] by (simp add: Close_def)
  next
    case False
    obtain ok w4 where 4: "CanWrite (m_socket s3) (sys s3) = (ok, w4)" by fastforce
    show ?thesis
    proof (cases ok)
      case False
      with \<open>\<not> late\<close> 3 4 have "process_connecting s1 = s3\<lparr>sys := w4\<rparr>"
        by (simp add: process_connecting_def)
      then show ?thesis
        using session_ok_calls(1) [OF assms(1)] assms(2) by (simp add: s3)
    next
      case True
      obtain now s5 where 5: "get_time (s3\<lparr>sys := w4, m_state := NET_STATE_WAITING_SEED\<rparr>) = (now, s5)"
        by fastforce
      then obtain w5 where s5: "s5 = s1\<lparr>m_state := NET_STATE_WAITING_SEED, sys := w5\<rparr>"
        by (auto simp: get_time_def s3 split: prod.splits)
      have "process_connecting s1 = s5\<lparr>m_startTime := now, m_lastSendTime := now, m_lastRecvTime := now\<rparr>"
        using 3 4 5 True \<open>\<not> late\<close> by (simp add: process_connecting_def Let_def)
      then show ?thesis using session_ok_calls(3) [OF assms(1)] by (simp add: s5)
    qed
  qed
qed

text \<open>
  What a round needs besides a seed: a limit of the ring below half a gigabyte, and room in
  both counters for one more buffer of bytes.
\<close>

definition round_room :: "session \<Rightarrow> bool" where
  "round_room s \<longleftrightarrow> ring_limits s \<and> recv_room s \<and> send_load s + 16389 < 2 ^ 31"

lemma unparsed_fits: "session_ok s \<Longrightarrow> length (unparsed s) \<le> 16389"
  by (drule session_okD(2)) (auto elim!: window_okE)

lemma round_load:
  assumes "round_room s" "round_of s bs s1"
  shows "load_ok s1"
  using assms unparsed_fits [of s1] by (auto simp: round_room_def round_of_def load_ok_def)

text \<open>A round keeps the invariant, and it is defined and its loops return when it has what it needs.\<close>

lemma Process_safe:
  assumes "session_ok s"
  shows "seed_ok s \<Longrightarrow> round_room s \<Longrightarrow> Process s \<noteq> None"
    and "Process s = Some s' \<Longrightarrow> session_ok s' \<and> life (m_state s) (m_state s')"
proof -
  have step: "(seed_ok s \<longrightarrow> round_room s \<longrightarrow> Process s \<noteq> None) \<and>
      (\<forall>s'. Process s = Some s' \<longrightarrow> session_ok s' \<and> life (m_state s) (m_state s'))"
    if s1: "DefProc s = Some s1" for s1
  proof -
    obtain bs where bs: "round_of s bs s1"
      and idle: "m_state s \<noteq> NET_STATE_CONNECTED \<and> m_state s \<noteq> NET_STATE_WAITING_SEED \<longrightarrow> s1 = s"
      using DefProc_spec(2) [OF assms s1] by blast
    have ok: "session_ok s1" "seed_ok s1 = seed_ok s" using bs by (auto simp: round_of_def)
    have st: "m_state s1 = m_state s \<or>
        m_state s1 = NET_STATE_DEAD \<and> m_state s \<in> {NET_STATE_WAITING_SEED, NET_STATE_CONNECTED}"
      using bs idle by (auto simp: round_of_def)
    show ?thesis
    proof (cases "m_state s1")
      case NET_STATE_CONNECTED
      obtain fs tail where "unparsed s1 = concat (map frame_of fs) @ tail"
        "\<forall>f \<in> set fs. valid_frame (frame_of f)" "\<not> frames tail"
        using stream_split [of "unparsed s1"] by blast
      note run = Process_connected [OF s1 ok(1) NET_STATE_CONNECTED this]
      have "Process s \<noteq> None" if "seed_ok s" "round_room s"
        using run ok(2) that round_load [OF _ bs] by simp
      moreover have "session_ok s' \<and> life (m_state s) (m_state s')" if "Process s = Some s'" for s'
      proof -
        have "delivers s1 fs tail s'" using run that by blast
        then have "session_ok s'" "m_state s' = NET_STATE_CONNECTED \<or> m_state s' = NET_STATE_DEAD"
          using NET_STATE_CONNECTED by (auto simp: delivers_def)
        then show ?thesis using st NET_STATE_CONNECTED by (auto simp: life.simps)
      qed
      ultimately show ?thesis by blast
    next
      case NET_STATE_DEAD
      then have "Process s = Some (Close (notify OnDisconnect s1))"
        using Process_dead [OF assms s1] by simp
      then show ?thesis
        using Reset_ok [of "notify OnDisconnect s1"] ok(1) st NET_STATE_DEAD
        by (auto simp: Close_def life.simps)
    next
      case NET_STATE_WAITING_SEED
      with s1 have "Process s = process_waiting s1" by (simp add: Process_def)
      with Process_waiting [OF ok(1) NET_STATE_WAITING_SEED] NET_STATE_WAITING_SEED st ok(2)
      show ?thesis by (auto simp: life.simps)
    next
      case NET_STATE_CONNECTING
      with s1 have "Process s = Some (process_connecting s1)" by (simp add: Process_def)
      with Process_connecting [OF ok(1) NET_STATE_CONNECTING] NET_STATE_CONNECTING st
      show ?thesis by (auto simp: life.simps)
    next
      case NET_STATE_ZERO
      with s1 have "Process s = Some s1" by (simp add: Process_def)
      with NET_STATE_ZERO st ok(1) show ?thesis by (auto simp: life.simps)
    qed
  qed
  show "Process s \<noteq> None" if "seed_ok s" "round_room s"
    using that step DefProc_spec(1) [OF assms] by (force simp: round_room_def)
  show "session_ok s' \<and> life (m_state s) (m_state s')" if "Process s = Some s'"
    using that step by (cases "DefProc s") (auto simp: Process_def)
qed

end
