(* ===== verification/SessionHistory.thy ===== *)
theory SessionHistory
  imports SessionLife
begin

text \<open>
  Histories of a session: every state a client and the network can drive one into, what a
  sequence of rounds delivers however the stream is cut into pieces, and two sessions that
  talk to each other.
\<close>

section \<open>Reachable sessions\<close>

text \<open>What a packet passed to \<open>SendPacket\<close> holds.\<close>

definition carries :: "cmd_packet \<Rightarrow> byte list \<Rightarrow> bool" where
  "carries packet data \<longleftrightarrow> (\<exists>buf. GetData packet = Some buf \<and> GetDataSize packet = int (length data) \<and>
     length data \<le> 16384 \<and> length data \<le> length buf \<and> take (length data) buf = data)"

text \<open>
  The operations of a session, in any order and without conditions: the public ones of the
  class, and \<open>KeepAlive\<close>, which nothing calls.  An operation that leaves defined behaviour has
  no successor.

  The client is called from within \<open>Process\<close> and \<open>GetPacket\<close> and may call the session from there.
  So the pieces between two such calls are steps as well: a packet cut out of the window, a
  system packet handled (its call of \<open>OnConnect\<close> is the last thing it does), a packet handed to
  \<open>OnReceive\<close>, \<open>OnDisconnect\<close> before the session is closed, and the round of a session that is
  connecting, with its call at the end.  A round that is interrupted by calls of its client is a
  sequence of steps.
\<close>

inductive reachable :: "session \<Rightarrow> bool" where
  constructed: "constructed_parts s \<Longrightarrow> CG_TCPSession s = Some s' \<Longrightarrow> reachable s'"
| processed: "reachable s \<Longrightarrow> Process s = Some s' \<Longrightarrow> reachable s'"
| def_processed: "reachable s \<Longrightarrow> DefProc s = Some s' \<Longrightarrow> reachable s'"
| packet_got: "reachable s \<Longrightarrow> GetPacket s packet = Some (ok, packet', s') \<Longrightarrow> reachable s'"
| packet_sent: "reachable s \<Longrightarrow> carries packet data \<Longrightarrow>
    SendPacket s packet flush sysp = Some (ok, s') \<Longrightarrow> reachable s'"
| seed_sent: "reachable s \<Longrightarrow> SendSeed s v = Some s' \<Longrightarrow> reachable s'"
| kept_alive: "reachable s \<Longrightarrow> KeepAlive s v = Some s' \<Longrightarrow> reachable s'"
| connecting: "reachable s \<Longrightarrow> Connect s host = (ok, s') \<Longrightarrow> reachable s'"
| attached: "reachable s \<Longrightarrow> reachable (Attach s sock)"
| closing: "reachable s \<Longrightarrow> reachable (Close s)"
| resetting: "reachable s \<Longrightarrow> reachable (Session_Reset s)"
| limited: "reachable s \<Longrightarrow> SetBufSize kb s = Some s' \<Longrightarrow> reachable s'"
| packet_cut: "reachable s \<Longrightarrow> RecvPacket s = Some (ok, s') \<Longrightarrow> reachable s'"
| system_handled: "reachable s \<Longrightarrow> reader packet \<Longrightarrow> HandleSysPacket s packet = Some (r, packet', s') \<Longrightarrow>
    reachable (s'\<lparr>m_recvCmdPkt := packet'\<rparr>)"
| client_told: "reachable s \<Longrightarrow> reachable (notify e (s\<lparr>m_recvCmdPkt := packet\<rparr>))"
| connecting_round: "reachable s \<Longrightarrow> m_state s = NET_STATE_CONNECTING \<Longrightarrow> reachable (process_connecting s)"

lemma SendPacket_ok:
  assumes "session_ok s" "carries packet data"
  shows "send_safe s flush sysp data \<Longrightarrow> SendPacket s packet flush sysp \<noteq> None"
    and "SendPacket s packet flush sysp = Some (ok, s') \<Longrightarrow> session_ok s' \<and> sending s s' \<and>
      (if m_state s = NET_STATE_CONNECTED then sent_packet s sysp data ok s' else \<not> ok \<and> s' = s)"
proof -
  obtain buf where buf: "GetData packet = Some buf" "GetDataSize packet = int (length data)"
    "length data \<le> length buf" "length data \<le> 16384" "take (length data) buf = data"
    using assms(2) by (auto simp: carries_def)
  have idle: "SendPacket s packet flush sysp = Some (False, s)" if "m_state s \<noteq> NET_STATE_CONNECTED"
    using that by (simp add: SendPacket_def)
  note sent = SendPacket_spec [OF assms(1) _ buf(1-4), of flush sysp, unfolded buf(5)]
  show "SendPacket s packet flush sysp \<noteq> None" if "send_safe s flush sysp data"
    using that idle sent by (cases "m_state s = NET_STATE_CONNECTED") auto
  show "session_ok s' \<and> sending s s' \<and>
      (if m_state s = NET_STATE_CONNECTED then sent_packet s sysp data ok s' else \<not> ok \<and> s' = s)"
    if run: "SendPacket s packet flush sysp = Some (ok, s')"
  proof (cases "m_state s = NET_STATE_CONNECTED")
    case True
    then have "sent_packet s sysp data ok s'" using sent run by blast
    with True show ?thesis by (simp add: sent_packet_def)
  next
    case False
    then show ?thesis using idle run assms(1) by simp
  qed
qed

lemma SendSeed_ok:
  assumes "session_ok s" "SendSeed s v = Some s'"
  shows "session_ok s'"
proof -
  obtain s1 where s1: "send_system s SYS_PACKET_SET_SEED v = Some s1" "s' = SetSeed v s1"
    using assms(2) by (auto simp: SendSeed_def bind_eq_Some_conv)
  then have "session_ok s1"
    using send_system_spec [OF assms(1), of SYS_PACKET_SET_SEED v] by (simp add: answered_def)
  with s1(2) show ?thesis
    by (auto simp: SetSeed_def session_ok_def ring_ok_def window_ok_def seed_mem_def seed_ok_def
        MAX_NET_SEED_SIZE_def)
qed

lemma session_ok_sys:
  assumes "session_ok s"
  shows "session_ok (s\<lparr>sys := w\<rparr>)" "session_ok (s\<lparr>sys := w, m_socket := x\<rparr>)"
    "session_ok (s\<lparr>m_socket := x, sys := w\<rparr>)" "session_ok (s\<lparr>m_connTime := t\<rparr>)"
    "session_ok (s\<lparr>m_state := st\<rparr>)" "session_ok (s\<lparr>m_maxBufSize := n\<rparr>)"
  using assms by (simp_all add: session_ok_def ring_ok_def window_ok_def seed_mem_def seed_ok_def)

lemma Connect_ok:
  assumes "session_ok s" "Connect s host = (ok, s')"
  shows "session_ok s' \<and> m_state s' = (if ok then NET_STATE_CONNECTING else m_state s)"
proof -
  obtain ok1 x1 w1 where 1: "Initialize (m_socket s) PROTOCOL_TCP (sys s) = (ok1, x1, w1)"
    by (metis prod_cases3)
  obtain ok2 w2 where 2: "BindAddr x1 w1 = (ok2, w2)" by fastforce
  obtain ok3 w3 where 3: "Connect_socket x1 host w2 = (ok3, w3)" by fastforce
  obtain t w4 where 4: "Sys_GetTime w3 = (t, w4)" by fastforce
  have "Connect s host =
      (if \<not> ok1 then (False, s\<lparr>m_socket := x1, sys := w1\<rparr>)
       else if \<not> ok2 then (False, s\<lparr>m_socket := x1, sys := w2\<rparr>)
       else if ok3 then (True, s\<lparr>m_socket := x1, sys := w4, m_state := NET_STATE_CONNECTING, m_connTime := t\<rparr>)
       else (False, s\<lparr>m_socket := x1, sys := w3\<rparr>))"
    by (simp add: Connect_def get_time_def Let_def 1 2 3 4)
  with assms show ?thesis by (auto simp: session_ok_sys split: if_splits)
qed

lemma Attach_ok:
  assumes "session_ok s"
  shows "session_ok (Attach s sock) \<and> m_state (Attach s sock) = NET_STATE_CONNECTED \<and>
    m_bEncrypt (Attach s sock) = m_bEncrypt s \<and> m_seedLen (Attach s sock) = m_seedLen s"
proof -
  obtain x w1 where 1: "Attach_socket sock (sys s) = (x, w1)" by fastforce
  obtain t w2 where 2: "Sys_GetTime w1 = (t, w2)" by fastforce
  show ?thesis
    using assms 1 2
    by (auto simp: Attach_def get_time_def session_ok_def ring_ok_def window_ok_def seed_mem_def seed_ok_def)
qed

lemma RecvPacket_ok:
  assumes "session_ok s" "RecvPacket s = Some (ok, s')"
  shows "session_ok s' \<and> (ok \<longrightarrow> (\<exists>f seq data. holds (m_recvNetPkt s') f seq data))"
  using session_okD(2,3,6) [OF assms(1)]
proof (cases rule: RecvPacket_cases)
  case (packet flag seq data s1 f)
  then show ?thesis
    using assms(2) holds_ok [OF packet(6)] session_ok_receiving [OF assms(1) packet(8,5)]
      session_okD(8) [OF assms(1)] by auto
next
  case (unseeded flag seq data rest)
  then show ?thesis using assms(2) by simp
next
  case (none s1)
  then show ?thesis
    using assms(2) session_ok_receiving [OF assms(1) none(7,5,6)] session_okD(8) [OF assms(1)] by auto
next
  case (bad s1)
  then show ?thesis
    using assms(2) session_ok_receiving [OF assms(1) bad(6,4,5)] session_okD(8) [OF assms(1)] by auto
qed

lemma HandleSysPacket_ok:
  "session_ok s \<Longrightarrow> reader packet \<Longrightarrow> HandleSysPacket s packet = Some (r, packet', s') \<Longrightarrow>
    session_ok s' \<and> reader packet'"
  using HandleSysPacket_spec [of s packet] unfolding handles_def by blast

text \<open>\<open>GetPacket\<close> may go through any number of system packets; what it returns is well formed.\<close>

lemma GetPacket_ok:
  assumes "GetPacket s packet = Some res"
  shows "session_ok s \<longrightarrow> session_ok (snd (snd res))"
proof (rule GetPacket.raw_induct [OF _ assms, where P = "\<lambda>s packet res. session_ok s \<longrightarrow> session_ok (snd (snd res))"],
    rule impI)
  fix rec :: "session \<Rightarrow> cmd_packet \<Rightarrow> (bool \<times> cmd_packet \<times> session) option" and s packet res
  assume rec: "\<And>s packet res. rec s packet = Some res \<Longrightarrow> session_ok s \<longrightarrow> session_ok (snd (snd res))"
    and run: "do {
      (ok, s) \<leftarrow> RecvPacket s;
      if \<not> ok then Some (False, packet, s)
      else do {
        packet \<leftarrow> AttachCmdPacket (m_recvNetPkt s) packet;
        system \<leftarrow> IsSysPacket (m_recvNetPkt s);
        if system then do { (_, packet, s) \<leftarrow> HandleSysPacket s packet; rec s packet }
        else Some (True, packet, s)
      }
    } = Some res"
    and ok: "session_ok s"
  obtain b s1 where s1: "RecvPacket s = Some (b, s1)" using run by (auto simp: bind_eq_Some_conv)
  note s1_ok = RecvPacket_ok [OF ok s1]
  show "session_ok (snd (snd res))"
  proof (cases b)
    case False
    then show ?thesis using run s1 s1_ok by auto
  next
    case True
    then obtain f seq data where "holds (m_recvNetPkt s1) f seq data" using s1_ok by blast
    from AttachCmdPacket_reader [OF this] obtain p1 where p1:
      "AttachCmdPacket (m_recvNetPkt s1) packet = Some p1" "reader p1" by blast
    obtain system where system: "IsSysPacket (m_recvNetPkt s1) = Some system"
      using run s1 True p1(1) by (cases "IsSysPacket (m_recvNetPkt s1)") auto
    show ?thesis
    proof (cases system)
      case False
      then show ?thesis using run s1 True p1(1) system s1_ok by auto
    next
      case sysp: True
      obtain r p2 s2 where s2: "HandleSysPacket s1 p1 = Some (r, p2, s2)" "rec s2 p2 = Some res"
        using run s1 True p1(1) system sysp by (cases "HandleSysPacket s1 p1") auto
      then show ?thesis using rec HandleSysPacket_ok [of s1 p1 r p2 s2] p1(2) s1_ok by blast
    qed
  qed
qed

lemma reachable_ok: "reachable s \<Longrightarrow> session_ok s"
proof (induction rule: reachable.induct)
  case (constructed s s') then show ?case using constructor_spec by (metis option.inject)
next
  case (processed s s') then show ?case using Process_safe(2) by blast
next
  case (def_processed s s') then show ?case using DefProc_spec(2) unfolding round_of_def by blast
next
  case (packet_got s packet ok packet' s') then show ?case using GetPacket_ok [of s packet] by simp
next
  case (packet_sent s packet data flush sysp ok s') then show ?case using SendPacket_ok(2) by blast
next
  case (seed_sent s v s') then show ?case using SendSeed_ok by blast
next
  case (kept_alive s v s')
  then show ?case using send_system_spec [of s SYS_PACKET_KEEP_ALIVE v] by (auto simp: KeepAlive_def answered_def)
next
  case (connecting s host ok s') then show ?case using Connect_ok by blast
next
  case (attached s sock) then show ?case using Attach_ok by blast
next
  case (closing s) then show ?case using Reset_ok by (simp add: Close_def)
next
  case (resetting s) then show ?case using Reset_ok by simp
next
  case (limited s kb s')
  then obtain n where "s' = s\<lparr>m_maxBufSize := n\<rparr>" by (auto simp: SetBufSize_def bind_eq_Some_conv)
  with limited show ?case using session_ok_sys(6) by simp
next
  case (packet_cut s ok s') then show ?case using RecvPacket_ok by blast
next
  case (system_handled s packet r packet' s') then show ?case using HandleSysPacket_ok [of s packet r packet' s'] by simp
next
  case (client_told s e packet) then show ?case by simp
next
  case (connecting_round s) then show ?case using Process_connecting by blast
qed

text \<open>
  A session that has been closed keeps its wish to encrypt, but its seed has length 0: attached
  to a new socket it reads outside its seed on the first packet of more than 21 bytes.
\<close>

lemma reattached_session_overruns:
  assumes "session_ok s" "m_bEncrypt s" "carries packet data" "21 < length data"
  shows "SendPacket (Attach (Close s) sock) packet flush False = None"
proof -
  let ?t = "Attach (Close s) sock"
  note reset = Reset_spec [OF session_okD(3,4,5) [OF assms(1)]]
  have close: "session_ok (Close s)" "m_bEncrypt (Close s)" "m_seedLen (Close s) = 0"
    using assms(1,2) Reset_ok [OF assms(1)] reset(5,10)
    by (auto simp: Close_def session_ok_def seed_mem_def)
  then have t: "session_ok ?t" "m_state ?t = NET_STATE_CONNECTED" "m_bEncrypt ?t" "\<not> encryptable ?t data"
    using Attach_ok [OF close(1), of sock] assms(4) by (simp_all add: encryptable_def seed_ok_def)
  obtain buf where "GetData packet = Some buf" "GetDataSize packet = int (length data)"
    "length data \<le> length buf" "length data \<le> 16384" and data: "take (length data) buf = data"
    using assms(3) by (auto simp: carries_def)
  note wrap = wrap_packet_spec [OF session_okD(4,5) [OF t(1)] this(1-4) session_okD(6) [OF t(1)], of False]
  have "wrap_packet (?t\<lparr>m_seq := next_seq (m_seq ?t)\<rparr>) packet False = None"
    using wrap t(3,4) unfolding data by simp
  then show ?thesis using t(2) by (simp add: SendPacket_def next_seq_def Let_def)
qed

section \<open>The stream of a connection\<close>

lemma deliver_append:
  "deliver seed (fs @ gs) =
     (fst (deliver seed fs) @ fst (deliver (snd (deliver seed fs)) gs), snd (deliver (snd (deliver seed fs)) gs))"
proof (induction fs arbitrary: seed)
  case (Cons f fs)
  obtain flag seq data where f: "f = (flag, seq, data)" by (cases f)
  show ?case by (simp add: f Let_def Cons.IH split: prod.splits)
qed simp

text \<open>Rounds while the connection is up; the last of them may find that it has ended.\<close>

inductive connected_run :: "session \<Rightarrow> session \<Rightarrow> bool" where
  no_round: "connected_run s s"
| a_round: "connected_run s t \<Longrightarrow> m_state t = NET_STATE_CONNECTED \<Longrightarrow> Process t = Some u \<Longrightarrow>
    m_state u \<noteq> NET_STATE_ZERO \<Longrightarrow> connected_run s u"

text \<open>
  \<open>delivered s fs u\<close>: from \<open>s\<close> to \<open>u\<close> the frames \<open>fs\<close> have been cut out of the stream, and the
  client has been told exactly what they say.
\<close>

definition delivered :: "session \<Rightarrow> frame_fields list \<Rightarrow> session \<Rightarrow> bool" where
  "delivered s fs u \<longleftrightarrow> (\<forall>f \<in> set fs. valid_frame (frame_of f)) \<and>
     (\<exists>bs. received (sys u) = received (sys s) @ bs \<and>
        unparsed s @ bs = concat (map frame_of fs) @ unparsed u) \<and>
     events u = events s @ fst (deliver (m_seed s) fs) \<and> m_seed u = snd (deliver (m_seed s) fs)"

lemma delivered_refl: "delivered s [] s"
  by (simp add: delivered_def)

lemma delivered_trans:
  assumes "delivered s fs t" "delivered t gs u"
  shows "delivered s (fs @ gs) u"
proof -
  from assms obtain bs bs' where "received (sys t) = received (sys s) @ bs"
    "unparsed s @ bs = concat (map frame_of fs) @ unparsed t"
    "received (sys u) = received (sys t) @ bs'" "unparsed t @ bs' = concat (map frame_of gs) @ unparsed u"
    by (auto simp: delivered_def)
  then have "received (sys u) = received (sys s) @ (bs @ bs')"
    "unparsed s @ (bs @ bs') = concat (map frame_of (fs @ gs)) @ unparsed u"
    by (simp_all flip: append_assoc) simp
  with assms show ?thesis unfolding delivered_def by (auto simp: deliver_append)
qed

lemma round_delivers:
  assumes "session_ok t" "m_state t = NET_STATE_CONNECTED" "Process t = Some u"
    "m_state u \<noteq> NET_STATE_ZERO"
  shows "\<exists>fs. delivered t fs u \<and> \<not> frames (unparsed u) \<and> session_ok u"
proof -
  obtain t1 where t1: "DefProc t = Some t1" using assms(3) by (cases "DefProc t") (auto simp: Process_def)
  obtain bs where bs: "round_of t bs t1" using DefProc_spec(2) [OF assms(1) t1] by blast
  from bs have ok: "session_ok t1" by (simp add: round_of_def)
  have st: "m_state t1 = NET_STATE_CONNECTED"
  proof (rule ccontr)
    assume "m_state t1 \<noteq> NET_STATE_CONNECTED"
    with bs assms(2) have "m_state t1 = NET_STATE_DEAD" by (auto simp: round_of_def)
    with Process_dead [OF assms(1) t1] assms(3,4) show False by auto
  qed
  obtain fs tail where stream: "unparsed t1 = concat (map frame_of fs) @ tail"
    "\<forall>f \<in> set fs. valid_frame (frame_of f)" "\<not> frames tail"
    using stream_split [of "unparsed t1"] by blast
  from Process_connected [OF t1 ok st stream] assms(3) have u: "delivers t1 fs tail u" by blast
  then have "delivered t fs u" using bs stream unfolding delivered_def round_of_def delivers_def by auto
  with u stream(3) show ?thesis by (auto simp: delivers_def)
qed

lemma connected_run_delivers:
  assumes "connected_run s u" "session_ok s"
  shows "\<exists>fs. delivered s fs u \<and> session_ok u \<and> (u = s \<and> fs = [] \<or> \<not> frames (unparsed u))"
  using assms
proof (induction rule: connected_run.induct)
  case (no_round s) then show ?case using delivered_refl by blast
next
  case (a_round s t u)
  then obtain fs where fs: "delivered s fs t" "session_ok t" by blast
  with round_delivers [of t u] a_round obtain gs where "delivered t gs u" "\<not> frames (unparsed u)"
    "session_ok u" by blast
  with fs delivered_trans show ?case by blast
qed

text \<open>Two streams of frames, one the beginning of the other.\<close>

lemma frames_prefix:
  assumes "concat (map frame_of fs) @ tail @ later = concat (map frame_of gs)"
    "\<forall>f \<in> set fs. valid_frame (frame_of f)" "\<forall>g \<in> set gs. valid_frame (frame_of g)"
  shows "\<exists>hs. gs = fs @ hs \<and> concat (map frame_of hs) = tail @ later"
  using assms
proof (induction fs arbitrary: gs)
  case (Cons f fs)
  have "frame_of f \<noteq> []" using Cons.prems(2) length_valid_frame by fastforce
  with Cons.prems(1) obtain g gs' where gs: "gs = g # gs'" by (cases gs) auto
  with Cons.prems valid_frame_unique [of "frame_of f" "frame_of g"
      "concat (map frame_of fs) @ tail @ later" "concat (map frame_of gs')"]
  have eq: "frame_of f = frame_of g" "concat (map frame_of fs) @ tail @ later = concat (map frame_of gs')"
    by auto
  from eq(1) have "f = g" by (cases f; cases g) (simp add: frame_of_def)
  moreover from Cons.IH [OF eq(2)] Cons.prems(2,3) gs
  obtain hs where "gs' = fs @ hs" "concat (map frame_of hs) = tail @ later" by auto
  ultimately show ?case using gs by auto
qed auto

lemma frames_length: "frames bs \<Longrightarrow> 5 \<le> length bs"
  unfolding frames_def using length_valid_frame by fastforce

lemma frames_nonempty [simp]: "\<not> frames []"
  using frames_length by force

text \<open>There is one way to cut a stream into frames.\<close>

lemma stream_unique:
  assumes "concat (map frame_of fs) @ x = concat (map frame_of gs) @ y"
    "\<forall>f \<in> set fs. valid_frame (frame_of f)" "\<forall>g \<in> set gs. valid_frame (frame_of g)"
    "\<not> frames x" "\<not> frames y"
  shows "fs = gs \<and> x = y"
  using assms(1-3)
proof (induction fs arbitrary: gs)
  case Nil
  show ?case
  proof (cases gs)
    case (Cons g gs')
    with Nil have "x = frame_of g @ concat (map frame_of gs') @ y" "valid_frame (frame_of g)" by simp_all
    then have "frames x" unfolding frames_def by blast
    with assms(4) show ?thesis by simp
  qed (use Nil in simp)
next
  case (Cons f fs)
  show ?case
  proof (cases gs)
    case Nil
    with Cons.prems have "y = frame_of f @ concat (map frame_of fs) @ x" "valid_frame (frame_of f)" by simp_all
    then have "frames y" unfolding frames_def by blast
    with assms(5) show ?thesis by simp
  next
    case gs: (Cons g gs')
    with Cons.prems have "frame_of f @ concat (map frame_of fs) @ x = frame_of g @ concat (map frame_of gs') @ y"
      "valid_frame (frame_of f)" "valid_frame (frame_of g)" by simp_all
    with valid_frame_unique have eq: "frame_of f = frame_of g"
      "concat (map frame_of fs) @ x = concat (map frame_of gs') @ y" by blast+
    from eq(1) have "f = g" by (cases f; cases g) (simp add: frame_of_def)
    with Cons.IH [OF eq(2)] Cons.prems(2,3) gs show ?thesis by simp
  qed
qed

text \<open>
  What a client is told depends on the bytes that have arrived and not on how they were cut
  into pieces, or how many rounds it took.
\<close>

lemma runs_agree:
  assumes "session_ok s" "unparsed s = []" "received (sys s) = []" "connected_run s u"
    and "session_ok t" "unparsed t = []" "received (sys t) = []" "connected_run t v"
    and "m_seed t = m_seed s" "received (sys v) = received (sys u)"
  shows "unparsed v = unparsed u \<and> m_seed v = m_seed u \<and>
    (\<exists>es. events u = events s @ es \<and> events v = events t @ es)"
proof -
  obtain fs where fs: "delivered s fs u" "\<not> frames (unparsed u)"
    using connected_run_delivers [OF assms(4,1)] assms(2) by auto
  obtain gs where gs: "delivered t gs v" "\<not> frames (unparsed v)"
    using connected_run_delivers [OF assms(8,5)] assms(6) by auto
  from fs(1) gs(1) assms(2,3,6,7,10)
  have "concat (map frame_of fs) @ unparsed u = concat (map frame_of gs) @ unparsed v"
    "\<forall>f \<in> set fs. valid_frame (frame_of f)" "\<forall>g \<in> set gs. valid_frame (frame_of g)"
    by (auto simp: delivered_def)
  with stream_unique fs(2) gs(2) have "fs = gs" "unparsed u = unparsed v" by blast+
  with fs(1) gs(1) assms(9) show ?thesis by (auto simp: delivered_def)
qed

section \<open>A series of packets\<close>

text \<open>The client hands packets over, flushing or not; some may be refused.\<close>

fun send_all :: "session \<Rightarrow> (cmd_packet \<times> bool) list \<Rightarrow> (bool list \<times> session) option" where
  "send_all s [] = Some ([], s)"
| "send_all s ((packet, flush) # ps) = do {
     (ok, s) \<leftarrow> SendPacket s packet flush False;
     (oks, s) \<leftarrow> send_all s ps;
     Some (ok # oks, s)
   }"

text \<open>What a user frame says to a receiver with the same seed.\<close>

definition says :: "byte list \<Rightarrow> frame_fields \<Rightarrow> byte list" where
  "says seed = (\<lambda>(flag, seq, data). decode seed flag data)"

definition user_frame :: "bool \<Rightarrow> frame_fields \<Rightarrow> bool" where
  "user_frame enc f \<longleftrightarrow> valid_frame (frame_of f) \<and> \<not> is_system f \<and>
     (\<not> enc \<longrightarrow> fst f AND FLAG_ENCRYPT = 0)"

lemma protocol_flags:
  "signed_drop_bit 4 (0x50 :: byte) = PROTOCOL_FLAG" "signed_drop_bit 4 (0x51 :: byte) = PROTOCOL_FLAG"
  "signed_drop_bit 4 (0x52 :: byte) = PROTOCOL_FLAG" "signed_drop_bit 4 (0x53 :: byte) = PROTOCOL_FLAG"
  "signed_drop_bit 4 (0x54 :: byte) = PROTOCOL_FLAG"
  by code_simp+

lemma user_flag_value:
  "wire_flag s False = (if m_bCompress s then if m_bEncrypt s then 0x53 else 0x52
     else if m_bEncrypt s then 0x51 else 0x50)"
  by (simp add: wire_flag_def)

lemma user_flag:
  "signed_drop_bit 4 (wire_flag s False) = PROTOCOL_FLAG" "wire_flag s False AND FLAG_SYSTEM = 0"
  "wire_flag s False AND FLAG_ENCRYPT = (if m_bEncrypt s then 1 else 0)"
  by (simp_all only: user_flag_value protocol_flags if_cancel split: if_split)
    (simp_all add: FLAG_SYSTEM_def FLAG_ENCRYPT_def)

lemma wire_user:
  assumes "data \<noteq> []" "length data \<le> 16384"
  obtains f where "wire s False data = frame_of f" "user_frame (m_bEncrypt s) f"
    "says (m_seed s) f = data"
proof -
  define body where "body = (if m_bEncrypt s then cipher (m_seed s) data else data)"
  define f where "f = (wire_flag s False, next_seq (m_seq s), body)"
  have "length body = length data" by (simp add: body_def)
  then have body: "body \<noteq> []" "length body \<le> 16384" using assms by auto
  have "valid_frame (frame (wire_flag s False) (next_seq (m_seq s)) body)"
    unfolding valid_frame_def using user_flag(1) body by blast
  then have "user_frame (m_bEncrypt s) f"
    by (simp add: user_frame_def f_def frame_of_def is_system_def user_flag(2,3))
  moreover have "says (m_seed s) f = data"
    by (simp add: says_def f_def decode_def user_flag(3) body_def cipher_involution)
  moreover have "wire s False data = frame_of f"
    by (simp add: wire_def frame_of_def f_def body_def)
  ultimately show ?thesis using that by blast
qed

lemma carriesE:
  assumes "carries packet data"
  obtains buf where "GetData packet = Some buf" "GetDataSize packet = int (length data)"
    "length data \<le> length buf" "length data \<le> 16384" "take (length data) buf = data"
  using assms by (auto simp: carries_def)

text \<open>
  Every accepted packet is one frame of the stream, in order; a refused one is none.  The
  session may be found dead on the way: from then on it refuses.
\<close>

definition sent_all :: "session \<Rightarrow> byte list list \<Rightarrow> bool list \<Rightarrow> session \<Rightarrow> frame_fields list \<Rightarrow> bool" where
  "sent_all s datas oks s' fs \<longleftrightarrow> length oks = length datas \<and> session_ok s' \<and> sending s s' \<and>
     outgoing s' = outgoing s @ concat (map frame_of fs) \<and>
     map (says (m_seed s)) fs = map snd (filter fst (zip oks datas)) \<and>
     (\<forall>f \<in> set fs. user_frame (m_bEncrypt s) f)"

lemma send_one:
  assumes "session_ok s" "carries packet data" "data \<noteq> []" "SendPacket s packet flush False = Some (ok, s')"
  shows "\<exists>fs. sent_all s [data] [ok] s' fs"
proof (cases "ok \<and> m_state s = NET_STATE_CONNECTED")
  case True
  obtain f where f: "wire s False data = frame_of f" "user_frame (m_bEncrypt s) f" "says (m_seed s) f = data"
    using wire_user [OF assms(3), of s] carriesE [OF assms(2)] by metis
  have "sent_packet s False data ok s'" using SendPacket_ok(2) [OF assms(1,2,4)] True by simp
  with True f show ?thesis by (intro exI [of _ "[f]"]) (simp add: sent_all_def sent_packet_def)
next
  case False
  have "session_ok s'" "sending s s'" "outgoing s' = outgoing s" "\<not> ok"
    using SendPacket_ok(2) [OF assms(1,2,4)] False
    by (cases "m_state s = NET_STATE_CONNECTED"; simp add: sent_packet_def)+
  then show ?thesis by (intro exI [of _ "[]"]) (simp add: sent_all_def)
qed

lemma send_all_spec:
  assumes "list_all2 (\<lambda>p data. carries (fst p) data \<and> data \<noteq> []) ps datas" "session_ok s"
    "send_all s ps = Some (oks, s')"
  shows "\<exists>fs. sent_all s datas oks s' fs"
  using assms
proof (induction arbitrary: s oks rule: list_all2_induct)
  case Nil then show ?case by (auto simp: sent_all_def intro!: exI [of _ "[]"])
next
  case (Cons p ps data datas)
  obtain packet flush where p: "p = (packet, flush)" by (cases p)
  obtain ok s1 oks1 where s1: "SendPacket s packet flush False = Some (ok, s1)"
    "send_all s1 ps = Some (oks1, s')" "oks = ok # oks1"
    using Cons.prems(2) by (auto simp: p bind_eq_Some_conv)
  obtain fs1 where fs1: "sent_all s [data] [ok] s1 fs1"
    using send_one [OF Cons.prems(1) _ _ s1(1)] Cons.hyps(1) by (auto simp: p)
  then have same: "session_ok s1" "m_seed s1 = m_seed s" "m_bEncrypt s1 = m_bEncrypt s"
    by (simp_all add: sent_all_def sending_def same_receiver_def)
  obtain fs where fs: "sent_all s1 datas oks1 s' fs" using Cons.IH [OF same(1) s1(2)] by blast
  have "sending s s'" using fs1 fs sending_trans by (auto simp: sent_all_def)
  then show ?case
    using fs1 fs same(2,3) s1(3)
    by (intro exI [of _ "fs1 @ fs"]) (auto simp: sent_all_def split: if_splits)
qed

text \<open>What the client of the receiver is told about user frames.\<close>

lemma deliver_user:
  "\<forall>f \<in> set fs. user_frame enc f \<Longrightarrow>
     deliver seed fs = (map (OnReceive \<circ> says seed) fs, seed)"
  by (induction fs) (auto simp: user_frame_def says_def Let_def)

text \<open>Both ends agree on the cipher, or the sender uses none.\<close>

definition same_cipher :: "session \<Rightarrow> session \<Rightarrow> bool" where
  "same_cipher s r \<longleftrightarrow> (m_bEncrypt s \<longrightarrow> seed_ok s \<and> seed_ok r \<and> m_seed r = m_seed s)"

lemma says_agree:
  assumes "same_cipher s r" "user_frame (m_bEncrypt s) f"
  shows "says (m_seed r) f = says (m_seed s) f"
  using assms by (cases f) (auto simp: same_cipher_def user_frame_def says_def decode_def)

text \<open>
  From one client to the other.  The network hands over a beginning of what the sender's
  system has taken; the receiver goes through rounds.  Its client then knows a beginning of the
  accepted packets, each whole, unchanged and in order; and all of them, once everything has
  been handed over.
\<close>

lemma end_to_end:
  assumes s: "session_ok s" "outgoing s = []"
    and ps: "list_all2 (\<lambda>p data. carries (fst p) data \<and> data \<noteq> []) ps datas"
    and sent: "send_all s ps = Some (oks, s')"
    and r: "session_ok r" "unparsed r = []" "received (sys r) = []" "same_cipher s r"
    and run: "connected_run r r'"
    and net: "outgoing s' = received (sys r') @ later"
  shows "\<exists>k. events r' = events r @ map OnReceive (take k (map snd (filter fst (zip oks datas)))) \<and>
    (later = [] \<longrightarrow> events r' = events r @ map OnReceive (map snd (filter fst (zip oks datas))))"
proof -
  let ?good = "map snd (filter fst (zip oks datas))"
  obtain gs where gs: "outgoing s' = concat (map frame_of gs)" "map (says (m_seed s)) gs = ?good"
    "\<forall>f \<in> set gs. user_frame (m_bEncrypt s) f"
    using send_all_spec [OF ps s(1) sent] s(2) by (auto simp: sent_all_def)
  obtain fs where fs: "delivered r fs r'" "r' = r \<and> fs = [] \<or> \<not> frames (unparsed r')"
    using connected_run_delivers [OF run r(1)] by blast
  then have valid: "\<forall>f \<in> set fs. valid_frame (frame_of f)"
    and stream: "concat (map frame_of fs) @ unparsed r' = received (sys r')"
    and ev: "events r' = events r @ fst (deliver (m_seed r) fs)"
    using r(2,3) by (auto simp: delivered_def)
  have "concat (map frame_of fs) @ unparsed r' @ later = concat (map frame_of gs)"
    using stream net gs(1) by (metis append_assoc)
  from frames_prefix [OF this valid] gs(3)
  obtain hs where hs: "gs = fs @ hs" "concat (map frame_of hs) = unparsed r' @ later"
    by (auto simp: user_frame_def)
  have user: "\<forall>f \<in> set fs. user_frame (m_bEncrypt s) f" using gs(3) hs(1) by simp
  have "fst (deliver (m_seed r) fs) = map OnReceive (map (says (m_seed s)) fs)"
    using deliver_user [OF user] says_agree [OF r(4)] user by simp
  also have "map (says (m_seed s)) fs = take (length fs) ?good"
    unfolding gs(2) [symmetric] hs(1) by simp
  finally have part: "events r' = events r @ map OnReceive (take (length fs) ?good)" using ev by simp
  moreover have "hs = []" if "later = []"
  proof (rule ccontr)
    assume "hs \<noteq> []"
    then obtain h hs' where h: "hs = h # hs'" by (cases hs) auto
    then have "frame_of h @ concat (map frame_of hs') = unparsed r'" using hs(2) that by simp
    moreover have "valid_frame (frame_of h)" using gs(3) hs(1) h by (simp add: user_frame_def)
    ultimately have "frames (unparsed r')" "unparsed r' \<noteq> []"
      using length_valid_frame [of "frame_of h"] unfolding frames_def by (metis, auto)
    with fs(2) r(2) show False by auto
  qed
  ultimately show ?thesis
    using arg_cong [OF gs(2), of length] hs(1) by (intro exI [of _ "length fs"]) auto
qed

section \<open>The handshake\<close>

definition seed_frame :: "c_short \<Rightarrow> c_long \<Rightarrow> byte list" where
  "seed_frame seq v = frame 0x54 seq (enc16 SYS_PACKET_SET_SEED @ enc32 v)"

lemma seed_frame_valid: "valid_frame (seed_frame seq v)"
  unfolding seed_frame_def valid_frame_def
  by (intro exI conjI) (rule refl, rule protocol_flags, simp_all)

lemma sys_msg_seed: "sys_msg (enc16 SYS_PACKET_SET_SEED @ enc32 v) = SysSeed v"
  by (simp add: sys_msg_def SYS_PACKET_SET_SEED_def)

lemma SendSeed_frame:
  assumes "session_ok l" "m_state l = NET_STATE_CONNECTED" "ring_fits l 11" "SendSeed l v = Some l'"
  shows "outgoing l' = outgoing l @ seed_frame (next_seq (m_seq l)) v"
    "v \<noteq> 0 \<Longrightarrow> seed_ok l' \<and> m_seed l' = seed_bytes 16 (sint v)" "m_bEncrypt l' = (v \<noteq> 0)"
    "m_state l' = NET_STATE_CONNECTED \<or> m_state l' = NET_STATE_DEAD" "session_ok l'"
proof -
  obtain l1 where l1: "send_system l SYS_PACKET_SET_SEED v = Some l1" "l' = SetSeed v l1"
    using assms(4) by (auto simp: SendSeed_def bind_eq_Some_conv)
  then have "answered l (enc16 SYS_PACKET_SET_SEED @ enc32 v) l1"
    using send_system_spec [OF assms(1), of SYS_PACKET_SET_SEED v] by blast
  then have sent: "outgoing l1 = outgoing l @ wire l True (enc16 SYS_PACKET_SET_SEED @ enc32 v)"
    "m_state l1 = NET_STATE_CONNECTED \<or> m_state l1 = NET_STATE_DEAD"
    using assms(2,3) by (auto simp: answered_def sending_def)
  have "outgoing l' = outgoing l1" "m_state l' = m_state l1"
    by (simp_all add: l1(2) SetSeed_def outgoing_def pending_def)
  with sent show "outgoing l' = outgoing l @ seed_frame (next_seq (m_seq l)) v"
    "m_state l' = NET_STATE_CONNECTED \<or> m_state l' = NET_STATE_DEAD"
    by (simp_all add: wire_def wire_flag_def seed_frame_def)
  show "v \<noteq> 0 \<Longrightarrow> seed_ok l' \<and> m_seed l' = seed_bytes 16 (sint v)" "m_bEncrypt l' = (v \<noteq> 0)"
    by (simp_all add: l1(2) SetSeed_def seed_ok_def MAX_NET_SEED_SIZE_def)
  show "session_ok l'" by (rule SendSeed_ok [OF assms(1,4)])
qed

lemma SendSeed_defined:
  assumes "session_ok l" "answer_room l"
  shows "SendSeed l v \<noteq> None"
  using send_system_spec [OF assms(1), of SYS_PACKET_SET_SEED v] assms(2) by (auto simp: SendSeed_def)

lemma waiting_takes_seed:
  assumes "session_ok s" "m_state s = NET_STATE_WAITING_SEED" "unparsed s = seed_frame seq v @ rest"
  obtains s' where "process_waiting s = Some s'" "session_ok s'" "m_state s' = NET_STATE_CONNECTED"
    "unparsed s' = rest" "events s' = events s @ [OnConnect True]"
    "v \<noteq> 0 \<longrightarrow> seed_ok s' \<and> m_seed s' = seed_bytes 16 (sint v)"
proof -
  let ?data = "enc16 SYS_PACKET_SET_SEED @ enc32 v"
  have plain: "(0x54 :: byte) AND FLAG_ENCRYPT = 0" "is_system (0x54, seq, ?data)"
    by (simp_all add: FLAG_ENCRYPT_def is_system_def FLAG_SYSTEM_def)
  have "readable s 0x54 ?data" by (simp add: readable_def)
  from RecvPacket_frame [OF assms(1) this assms(3) [unfolded seed_frame_def]
      seed_frame_valid [unfolded seed_frame_def]]
  obtain s1 f where s1: "RecvPacket s = Some (True, s1)" "session_ok s1" "unparsed s1 = rest"
    "holds (m_recvNetPkt s1) f seq (decode (m_seed s) 0x54 ?data)" "f AND 4 = 0x54 AND 4"
    "same_sender s s1" by blast
  have dec: "decode (m_seed s) 0x54 ?data = ?data" using plain(1) by (simp add: decode_def)
  obtain p where p: "AttachCmdPacket (m_recvNetPkt s1) (m_recvCmdPkt s1) = Some p" "reader p"
    "unread p = ?data" using AttachCmdPacket_reader [OF s1(4)] dec by auto
  define s2 where "s2 = s1\<lparr>m_recvCmdPkt := p\<rparr>"
  have msg: "sys_msg (unread p) = SysSeed v" using p(3) sys_msg_seed by simp
  have ok2: "session_ok s2" using s1(2) by (simp add: s2_def)
  obtain r q s3 where s3: "HandleSysPacket s2 p = Some (r, q, s3)"
    using HandleSysPacket_spec [OF ok2 p(2)] msg by auto
  then have h3: "handles s2 (SysSeed v) s3"
    using HandleSysPacket_spec [OF ok2 p(2)] msg by metis
  have "process_waiting s = Some (s3\<lparr>m_recvCmdPkt := q\<rparr>)"
    using s1(1) p(1) s3 IsSysPacket_frame [OF s1(4,5), of seq ?data] plain(2)
    by (simp add: process_waiting_def s2_def)
  with h3 s1(3,6) show ?thesis
    by (intro that [of "s3\<lparr>m_recvCmdPkt := q\<rparr>"])
      (auto simp: handles_def s2_def new_seed_def sets_seed_def sys_events_def same_sender_def)
qed

text \<open>
  One side announces a seed, the other one waits for it: after the round in which the
  announcement arrives the side that waited is connected, and both have the same cipher.  The
  side that announced may have found the connection dead.
\<close>

lemma handshake:
  assumes l: "session_ok l" "m_state l = NET_STATE_CONNECTED" "ring_fits l 11" "outgoing l = []"
    "SendSeed l v = Some l'" "v \<noteq> 0"
    and c: "session_ok c" "unparsed c = []" "received (sys c) = []" "DefProc c = Some c1"
      "m_state c1 = NET_STATE_WAITING_SEED" "received (sys c1) = outgoing l'"
  shows "(\<exists>c'. Process c = Some c' \<and> session_ok c' \<and> m_state c' = NET_STATE_CONNECTED \<and>
      events c' = events c @ [OnConnect True] \<and> unparsed c' = [] \<and> same_cipher l' c' \<and> same_cipher c' l') \<and>
    m_state l' \<in> {NET_STATE_CONNECTED, NET_STATE_DEAD}"
proof -
  note l' = SendSeed_frame [OF l(1-3,5)]
  obtain bs where bs: "round_of c bs c1" using DefProc_spec(2) [OF c(1,4)] by blast
  then have c1: "session_ok c1" "unparsed c1 = seed_frame (next_seq (m_seq l)) v @ []"
    "events c1 = events c" using c(2,3,6) l'(1) l(4) by (auto simp: round_of_def)
  obtain c' where c': "process_waiting c1 = Some c'" "session_ok c'" "m_state c' = NET_STATE_CONNECTED"
    "unparsed c' = []" "events c' = events c1 @ [OnConnect True]"
    "v \<noteq> 0 \<longrightarrow> seed_ok c' \<and> m_seed c' = seed_bytes 16 (sint v)"
    using waiting_takes_seed [OF c1(1) c(5) c1(2)] .
  have "Process c = Some c'" using c(4,5) c'(1) by (simp add: Process_def)
  with c' c1(3) l'(2,4) l(6) show ?thesis by (auto simp: same_cipher_def)
qed

section \<open>Numbers\<close>

text \<open>Sequence numbers run from 1 to 65000 and start again.\<close>

lemma next_seq_range:
  assumes "unat q \<le> 65000"
  shows "1 \<le> unat (next_seq q)" "unat (next_seq q) \<le> 65000"
    "unat (next_seq q) = (if unat q = 65000 then 1 else unat q + 1)"
proof -
  have sum: "unat (q + 1) = unat q + 1"
    using assms by (subst unat_add_lem [THEN iffD1]) simp_all
  then have "q + 1 > MAX_NET_PACKET_SEQ \<longleftrightarrow> unat q = 65000"
    using assms by (auto simp: MAX_NET_PACKET_SEQ_def word_less_nat_alt)
  with sum assms show "1 \<le> unat (next_seq q)" "unat (next_seq q) \<le> 65000"
    "unat (next_seq q) = (if unat q = 65000 then 1 else unat q + 1)"
    by (simp_all add: next_seq_def)
qed

text \<open>
  The bytes of a seed.  Those of a positive one are never 0, so every byte of the cipher is
  changed.  But eight divisions by 19 leave nothing of a \<open>long\<close>: the second half of the
  sixteen bytes is the same for every seed.
\<close>

lemma seed_byte_range:
  "0 \<le> v \<Longrightarrow> 1 \<le> v smod 255 + 1 \<and> v smod 255 + 1 \<le> (255 :: int)"
  using pos_mod_bound [of 255 v] by (cases "v = 0") (simp_all add: signed_modulo_int_def sgn_if)

lemma byte_nonzero: "1 \<le> x \<Longrightarrow> x \<le> 255 \<Longrightarrow> (word_of_int x :: byte) \<noteq> 0"
  by (auto simp: word_of_int_eq_0_iff dest!: zdvd_imp_le)

lemma seed_bytes_nonzero:
  assumes "0 \<le> v" "b \<in> set (seed_bytes n v)"
  shows "b \<noteq> 0"
  using assms
proof (induction n arbitrary: v)
  case (Suc n)
  have "0 \<le> v sdiv 19" using Suc.prems(1)
    by (cases "v = 0") (simp_all add: signed_divide_int_def sgn_if pos_imp_zdiv_nonneg_iff)
  note later = Suc.IH [OF this]
  have range: "1 \<le> v smod 255 + 1" "v smod 255 + 1 \<le> 255"
    using seed_byte_range [OF Suc.prems(1)] by (rule conjunct1, rule conjunct2)
  from Suc.prems(2) have "b = word_of_int (v smod 255 + 1) \<or> b \<in> set (seed_bytes n (v sdiv 19))"
    by (simp only: seed_bytes.simps list.set insert_iff)
  then show ?case
  proof
    assume "b = word_of_int (v smod 255 + 1)"
    then show ?thesis using byte_nonzero [OF range] by (simp only: not_False_eq_True)
  next
    assume "b \<in> set (seed_bytes n (v sdiv 19))"
    then show ?thesis by (rule later)
  qed
qed (simp only: seed_bytes.simps list.set empty_iff)

lemma sdiv_shrinks:
  assumes "\<bar>v\<bar> \<le> k" "k \<le> 19 * m + 18" "0 \<le> (m :: int)"
  shows "\<bar>v sdiv 19\<bar> \<le> m"
proof -
  have "\<bar>v\<bar> div 19 \<le> m" using assms by simp
  moreover have "\<bar>v sdiv 19\<bar> = \<bar>v\<bar> div 19"
    using assms by (auto simp: signed_divide_int_def sgn_if abs_if)
  ultimately show ?thesis by simp
qed

lemma seed_bytes_zero: "seed_bytes n 0 = replicate n 1"
  by (induction n) (simp_all add: signed_modulo_int_def signed_divide_int_def)

lemma seed_bytes_tail:
  fixes v :: c_long
  shows "drop 8 (seed_bytes 16 (sint v)) = replicate 8 1"
proof -
  let ?d = "\<lambda>v. v sdiv (19 :: int)"
  have 0: "\<bar>sint v\<bar> \<le> 2147483648"
    using sint_greater_eq [of v] sint_less [of v] by (simp add: abs_le_iff)
  have "\<bar>?d (sint v)\<bar> \<le> 113025455" using 0 by (rule sdiv_shrinks) simp_all
  then have "\<bar>?d (?d (sint v))\<bar> \<le> 5948708" by (rule sdiv_shrinks) simp_all
  then have "\<bar>?d (?d (?d (sint v)))\<bar> \<le> 313089" by (rule sdiv_shrinks) simp_all
  then have "\<bar>?d (?d (?d (?d (sint v))))\<bar> \<le> 16478" by (rule sdiv_shrinks) simp_all
  then have "\<bar>?d (?d (?d (?d (?d (sint v)))))\<bar> \<le> 867" by (rule sdiv_shrinks) simp_all
  then have "\<bar>?d (?d (?d (?d (?d (?d (sint v))))))\<bar> \<le> 45" by (rule sdiv_shrinks) simp_all
  then have "\<bar>?d (?d (?d (?d (?d (?d (?d (sint v)))))))\<bar> \<le> 2" by (rule sdiv_shrinks) simp_all
  then have "\<bar>?d (?d (?d (?d (?d (?d (?d (?d (sint v))))))))\<bar> \<le> 0" by (rule sdiv_shrinks) simp_all
  then have "?d (?d (?d (?d (?d (?d (?d (?d (sint v)))))))) = 0" by simp
  then show ?thesis
    by (simp add: numeral_eq_Suc seed_bytes_zero del: replicate_Suc)
qed

end
