(* ===== verification/Listener.thy ===== *)
theory Listener
  imports SessionHistory
begin

text \<open>
  The listening side, \<open>TestPcNetwork/TestPcNetwork/g_tcplistener.cpp\<close>: it turns a connection
  that the system has accepted into a session and announces a random seed to the other end.

  The numbers \<open>rand\<close> returns and the memory in which a new session is constructed are
  parameters.
\<close>

record listener =
  ls_socket :: socket
  ls_encrypt :: bool
  ls_sys :: os

definition StartListen :: "listener \<Rightarrow> bool \<Rightarrow> bool \<times> listener" where
  "StartListen l encrypt =
     (let (_, sock, w) = Initialize (ls_socket l) PROTOCOL_TCP (ls_sys l);
          l = l\<lparr>ls_socket := sock, ls_sys := w\<rparr>;
          (ok, w) = BindAddr (ls_socket l) (ls_sys l); l = l\<lparr>ls_sys := w\<rparr> in
      if \<not> ok then (False, l)
      else let (_, w) = Sys_GetTime (ls_sys l); l = l\<lparr>ls_sys := w, ls_encrypt := encrypt\<rparr>;
               (ok, w) = Listen (ls_socket l) (ls_sys l) in
        (ok, l\<lparr>ls_sys := w\<rparr>))"

definition ComputeSeed :: "listener \<Rightarrow> c_long \<Rightarrow> c_long \<Rightarrow> c_long" where
  "ComputeSeed l r1 r2 =
     (let seed = 0 in
      if \<not> ls_encrypt l then seed
      else let seed = seed OR push_bit 16 r1; seed = seed OR r2 in seed)"

definition AcceptNewSession :: "listener \<Rightarrow> session \<Rightarrow> c_long \<Rightarrow> c_long \<Rightarrow>
    (session option \<times> listener) option" where
  "AcceptNewSession l fresh r1 r2 =
     (let (ok, w) = CanRead (ls_socket l) (ls_sys l); l = l\<lparr>ls_sys := w\<rparr> in
      if \<not> ok then Some (None, l)
      else let (sock, w) = Accept (ls_socket l) (ls_sys l); l = l\<lparr>ls_sys := w\<rparr> in
      if sock = 0 then Some (None, l)
      else do {
        tmp \<leftarrow> CG_TCPSession (fresh\<lparr>sys := ls_sys l\<rparr>);
        tmp \<leftarrow> SendSeed (Attach tmp sock) (ComputeSeed l r1 r2);
        Some (Some tmp, l\<lparr>ls_sys := sys tmp\<rparr>)
      })"

definition Close_listener :: "listener \<Rightarrow> listener" where
  "Close_listener l =
     (let (_, sock, w) = Close_socket (ls_socket l) (ls_sys l) in l\<lparr>ls_socket := sock, ls_sys := w\<rparr>)"

section \<open>Accepted sessions\<close>

text \<open>An accepted session is reachable, so it satisfies the invariant and everything that follows.\<close>

lemma accepted_reachable:
  assumes "AcceptNewSession l fresh r1 r2 = Some (Some s, l')" "constructed_parts (fresh\<lparr>sys := w\<rparr>)"
  shows "reachable s"
proof -
  from assms(1) obtain w2 sock t where t: "CG_TCPSession (fresh\<lparr>sys := w2\<rparr>) = Some t"
    "SendSeed (Attach t sock) (ComputeSeed (l\<lparr>ls_sys := w2\<rparr>) r1 r2) = Some s"
    by (auto simp: AcceptNewSession_def Let_def split: prod.splits if_splits Option.bind_splits)
  from assms(2) have parts: "constructed_parts (fresh\<lparr>sys := w2\<rparr>)"
    by (simp add: constructed_parts_def)
  with t(1) have "\<not> m_bEncrypt t" using constructor_spec [OF parts] by auto
  moreover have "reachable t" using parts t(1) by (rule reachable.constructed)
  ultimately have "reachable (Attach t sock)" by (intro reachable.attached) simp_all
  from reachable.seed_sent [OF this t(2)] show ?thesis .
qed

text \<open>\<open>rand\<close> returns 15 bits: the seed is never negative, and 0 only if both numbers are.\<close>

lemma ComputeSeed_bits:
  assumes "ls_encrypt l" "unat r1 < 32768" "unat r2 < 32768"
  shows "unat (ComputeSeed l r1 r2) = unat r1 * 65536 + unat r2"
proof -
  have shift: "unat (push_bit 16 r1) = unat r1 * 65536"
    using assms(2) by (simp add: unat_push_bit_mult)
  have "push_bit 16 r1 AND r2 = 0"
  proof (rule bit_word_eqI)
    fix n assume "n < LENGTH(32)"
    have "\<not> bit r2 n" if "16 \<le> n"
    proof -
      have "unat r2 < 2 ^ n" using assms(3) power_increasing [OF that, of "2 :: nat"] by simp
      then have "\<not> bit (unat r2) n" by (simp add: bit_iff_odd)
      then show ?thesis by (simp add: bit_unsigned_iff)
    qed
    then show "bit (push_bit 16 r1 AND r2) n \<longleftrightarrow> bit (0 :: 32 word) n"
      by (auto simp: bit_and_iff bit_push_bit_iff)
  qed
  then have "push_bit 16 r1 OR r2 = push_bit 16 r1 + r2"
    by (simp add: disjunctive_add_eq_or)
  moreover have "unat (push_bit 16 r1 + r2) = unat r1 * 65536 + unat r2"
    using assms shift by (subst unat_add_lem [THEN iffD1]) simp_all
  ultimately show ?thesis using assms(1) by (simp add: ComputeSeed_def)
qed

end
