(* ===== verification/SockBuf.thy ===== *)
theory SockBuf
  imports ByteQueue NetSocket
begin

text \<open>
  The socket buffer of the services, \<open>net_select/net_lib/SockBuf.cpp\<close> (the file
  \<open>net_libs/libnet/src/sockbuf.cpp\<close> has the same code, with \<open>push\<close> called \<open>apendBuf\<close>): a block
  with a read and a write index of 32 bits, which moves its content or takes a larger block
  when a write does not fit.

  A call ends in undefined behaviour (\<open>None\<close>), throws, or returns; a throw keeps what the
  call had already changed.  The answers of \<open>malloc\<close>, the contents of a new block or \<open>NULL\<close>
  for the number of the call and the size asked for, are a parameter of the buffer.
\<close>

section \<open>The code\<close>

record sockbuf =
  sb_buf :: "byte list option"
  m_size :: "32 word"
  m_read_index :: "32 word"
  m_write_index :: "32 word"
  sb_malloc :: "nat \<Rightarrow> 32 word \<Rightarrow> (nat \<Rightarrow> byte) option"
  sb_mallocs :: nat

datatype thrown = Exception

type_synonym ('a, 's) attempt = "((thrown + 'a) \<times> 's) option"

definition and_then :: "('a, 's) attempt \<Rightarrow> ('a \<Rightarrow> 's \<Rightarrow> ('b, 's) attempt) \<Rightarrow> ('b, 's) attempt" where
  "and_then m k = do { (r, b) \<leftarrow> m; case r of Inl e \<Rightarrow> Some (Inl e, b) | Inr x \<Rightarrow> k x b }"

definition returns :: "'a \<Rightarrow> 's \<Rightarrow> ('a, 's) attempt" where
  "returns x b = Some (Inr x, b)"

definition throws :: "'s \<Rightarrow> ('a, 's) attempt" where
  "throws b = Some (Inl Exception, b)"

lemma attempt_simps [simp]:
  "and_then (returns x b) k = k x b"
  "and_then (throws b) k = throws b"
  "and_then None k = None"
  by (simp_all add: and_then_def returns_def throws_def)

definition take_block :: "sockbuf \<Rightarrow> 32 word \<Rightarrow> byte list option \<times> sockbuf" where
  "take_block b n =
     (map_option (\<lambda>fresh. new_bytes fresh (unat n)) (sb_malloc b (sb_mallocs b) n),
      b\<lparr>sb_mallocs := Suc (sb_mallocs b)\<rparr>)"

definition SockBuf_new :: "sockbuf \<Rightarrow> 32 word \<Rightarrow> sockbuf" where
  "SockBuf_new b capacity =
     (let b = b\<lparr>m_size := capacity\<rparr>; (p, b) = take_block b (m_size b) in
      b\<lparr>sb_buf := p, m_read_index := 0, m_write_index := 0\<rparr>)"

definition sb_reset :: "sockbuf \<Rightarrow> sockbuf" where
  "sb_reset b = b\<lparr>m_read_index := 0, m_write_index := 0\<rparr>"

definition readMove :: "sockbuf \<Rightarrow> 32 word \<Rightarrow> (unit, sockbuf) attempt" where
  "readMove b len =
     (let b = b\<lparr>m_read_index := m_read_index b + len\<rparr> in
      if m_read_index b > m_write_index b then throws b else returns () b)"

definition writeMove :: "sockbuf \<Rightarrow> 32 word \<Rightarrow> (unit, sockbuf) attempt" where
  "writeMove b len =
     (let b = b\<lparr>m_write_index := m_write_index b + len\<rparr> in
      if m_write_index b > m_size b then throws b else returns () b)"

text \<open>The difference of the unsigned indices goes through an \<open>int\<close>.\<close>

definition readableBytes :: "sockbuf \<Rightarrow> (32 word, sockbuf) attempt" where
  "readableBytes b =
     (let nret = m_write_index b - m_read_index b in
      if sint nret < 0 then throws b else returns nret b)"

definition writableBytes :: "sockbuf \<Rightarrow> (32 word, sockbuf) attempt" where
  "writableBytes b =
     (let nret = m_size b - m_write_index b in
      if sint nret < 0 then throws b else returns nret b)"

definition makeSpace :: "sockbuf \<Rightarrow> 32 word \<Rightarrow> (unit, sockbuf) attempt" where
  "makeSpace b len =
     and_then (readableBytes b) (\<lambda>readable b.
     and_then (writableBytes b) (\<lambda>writable b.
       if writable + m_read_index b < len
       then do {
         let (new_buf, b) = take_block b (m_write_index b + len);
         let b = b\<lparr>m_size := m_write_index b + len\<rparr>;
         old \<leftarrow> sb_buf b;
         xs \<leftarrow> fetch old (unat (m_read_index b)) (unat readable);
         new \<leftarrow> new_buf;
         new \<leftarrow> poke new 0 xs;
         returns () (b\<lparr>m_read_index := 0, m_write_index := readable, sb_buf := Some new\<rparr>)
       }
       else do {
         buf \<leftarrow> sb_buf b;
         xs \<leftarrow> fetch buf (unat (m_read_index b)) (unat readable);
         buf \<leftarrow> poke buf 0 xs;
         returns () (b\<lparr>sb_buf := Some buf, m_read_index := 0, m_write_index := readable\<rparr>)
       }))"

definition ensureWritableBytes :: "sockbuf \<Rightarrow> 32 word \<Rightarrow> (unit, sockbuf) attempt" where
  "ensureWritableBytes b len =
     and_then (writableBytes b) (\<lambda>writable b.
       if writable < len then makeSpace b len else returns () b)"

definition push :: "sockbuf \<Rightarrow> byte list \<Rightarrow> 32 word \<Rightarrow> (unit, sockbuf) attempt" where
  "push b buf len =
     and_then (ensureWritableBytes b len) (\<lambda>_ b. do {
       xs \<leftarrow> fetch buf 0 (unat len);
       old \<leftarrow> sb_buf b;
       new \<leftarrow> poke old (unat (m_write_index b)) xs;
       let b = b\<lparr>sb_buf := Some new, m_write_index := m_write_index b + len\<rparr>;
       if m_write_index b > m_size b then throws b else returns () b
     })"

text \<open>\<open>peek\<close> stores the bytes at \<open>buf\<close>; here they are its result.\<close>

definition peek :: "sockbuf \<Rightarrow> 32 word \<Rightarrow> (byte list, sockbuf) attempt" where
  "peek b len =
     (if m_read_index b > m_write_index b \<or> m_write_index b > m_size b \<or> m_read_index b > m_size b
      then throws b
      else and_then (readableBytes b) (\<lambda>held b.
        if len > held then throws b
        else do {
          buf \<leftarrow> sb_buf b;
          xs \<leftarrow> fetch buf (unat (m_read_index b)) (unat len);
          returns xs b
        }))"

definition pop :: "sockbuf \<Rightarrow> 32 word \<Rightarrow> (byte list, sockbuf) attempt" where
  "pop b len = and_then (peek b len) (\<lambda>xs b. returns xs (b\<lparr>m_read_index := m_read_index b + len\<rparr>))"

text \<open>
  \<open>recv\<close> stores what it hands over behind \<open>writeStart\<close>.  The result is 0, or -1 when the peer
  has closed and -2 when the call fails.
\<close>

definition sockRead :: "sockbuf \<Rightarrow> socket \<Rightarrow> os \<Rightarrow> ((thrown + int) \<times> sockbuf \<times> os) option" where
  "sockRead b sd w = do {
     (r, b) \<leftarrow> and_then (ensureWritableBytes b 512) (\<lambda>_ b. writableBytes b);
     case r of
       Inl e \<Rightarrow> Some (Inl e, b, w)
     | Inr room \<Rightarrow> do {
         let (n, w) = next_call w;
         case os_recv w n of
           RecvFails _ \<Rightarrow> Some (Inr (- 2), b, w)
         | Arrived bs \<Rightarrow> do {
             let bs = take (unat room) bs;
             if bs = [] then Some (Inr (- 1), b, w)
             else do {
               old \<leftarrow> sb_buf b;
               new \<leftarrow> poke old (unat (m_write_index b)) bs;
               let w = w\<lparr>arrived := (arrived w)(sd := arrived w sd @ bs)\<rparr>;
               (r, b) \<leftarrow> writeMove (b\<lparr>sb_buf := Some new\<rparr>) (of_nat (length bs));
               case r of Inl e \<Rightarrow> Some (Inl e, b, w) | Inr _ \<Rightarrow> Some (Inr 0, b, w)
             }
           }
       }
   }"

definition sockWrite :: "sockbuf \<Rightarrow> socket \<Rightarrow> os \<Rightarrow> ((thrown + int) \<times> sockbuf \<times> os) option" where
  "sockWrite b sd w = do {
     (r, b) \<leftarrow> readableBytes b;
     case r of
       Inl e \<Rightarrow> Some (Inl e, b, w)
     | Inr readable \<Rightarrow>
         if sint readable > 0
         then do {
           buf \<leftarrow> sb_buf b;
           xs \<leftarrow> fetch buf (unat (m_read_index b)) (unat readable);
           let (n, w) = next_call w;
           case os_send w n of
             SendFails _ \<Rightarrow> Some (Inr (- 1), b, w)
           | Takes k \<Rightarrow> do {
               let k = min k (length xs);
               let w = w\<lparr>departed := (departed w)(sd := departed w sd @ take k xs)\<rparr>;
               (r, b) \<leftarrow> readMove b (of_nat k);
               case r of Inl e \<Rightarrow> Some (Inl e, b, w) | Inr _ \<Rightarrow> Some (Inr 0, b, w)
             }
         }
         else Some (Inr 0, b, w)
   }"

section \<open>The queue it implements\<close>

definition sockbuf_ok :: "sockbuf \<Rightarrow> bool" where
  "sockbuf_ok b \<longleftrightarrow> (\<exists>bs. sb_buf b = Some bs \<and> length bs = unat (m_size b)) \<and>
     m_read_index b \<le> m_write_index b \<and> m_write_index b \<le> m_size b \<and> unat (m_size b) < 2 ^ 30 \<and>
     (\<forall>k n. unat n < 2 ^ 30 \<longrightarrow> sb_malloc b k n \<noteq> None)"

definition sb_content :: "sockbuf \<Rightarrow> byte list" where
  "sb_content b = (case sb_buf b of None \<Rightarrow> []
     | Some bs \<Rightarrow> take (unat (m_write_index b) - unat (m_read_index b)) (drop (unat (m_read_index b)) bs))"

definition sb_room :: "sockbuf \<Rightarrow> nat" where
  "sb_room b = 2 ^ 30 - 1 - unat (m_size b)"

definition sb_fits :: "sockbuf \<Rightarrow> nat \<Rightarrow> bool" where
  "sb_fits b n \<longleftrightarrow> n \<le> sb_room b"

lemma sint_small:
  assumes "unat (x :: 32 word) < 2 ^ 31"
  shows "sint x = int (unat x)"
proof -
  have "int (unat x) < int (2 ^ 31)" using assms by (simp only: of_nat_less_iff)
  then have "uint x < 2147483648" by simp
  moreover have "- 2147483648 \<le> uint x" using uint_ge_0 [of x] by linarith
  ultimately show ?thesis by (simp add: sint_uint signed_take_bit_int_eq_self)
qed

lemma unat_nonneg:
  assumes "\<not> sint (x :: 32 word) < 0"
  shows "unat x < 2 ^ 31"
proof -
  have "\<not> bit x 31" using assms bit_last_iff [of x] by simp
  then have "\<not> bit (unat x) 31" by (simp add: bit_unsigned_iff)
  then have "\<not> odd (unat x div 2 ^ 31)" unfolding bit_iff_odd .
  moreover have "unat x < 4294967296" using unsigned_less [of x] by simp
  then have "unat x div 2 ^ 31 < 2" by (simp add: less_mult_imp_div_less)
  ultimately show ?thesis by (auto simp: less_2_cases_iff div_eq_0_iff)
qed

lemma sockbuf_okE:
  assumes "sockbuf_ok b"
  obtains bs r w where "sb_buf b = Some bs" "unat (m_read_index b) = r" "unat (m_write_index b) = w"
    "unat (m_size b) = length bs" "r \<le> w" "w \<le> length bs" "length bs < 2 ^ 30"
    "sb_content b = take (w - r) (drop r bs)" "length (sb_content b) = w - r"
  using assms by (auto simp: sockbuf_ok_def sb_content_def word_le_nat_alt)

lemma readableBytes_ok:
  assumes "sockbuf_ok b"
  obtains n where "readableBytes b = returns n b" "unat n = length (sb_content b)" "\<not> sint n < 0"
proof -
  obtain bs r w where *: "sb_buf b = Some bs" "unat (m_read_index b) = r" "unat (m_write_index b) = w" "r \<le> w"
    "w \<le> length bs" "length bs < 2 ^ 30" "length (sb_content b) = w - r"
    using assms by (rule sockbuf_okE)
  then have n: "unat (m_write_index b - m_read_index b) = w - r"
    by (simp add: unat_sub word_le_nat_alt)
  then have "\<not> sint (m_write_index b - m_read_index b) < 0" using * by (simp add: sint_small)
  then show ?thesis using that [of "m_write_index b - m_read_index b"] n *
    by (simp add: readableBytes_def)
qed

lemma writableBytes_ok:
  assumes "sockbuf_ok b"
  obtains n where "writableBytes b = returns n b" "unat n = unat (m_size b) - unat (m_write_index b)"
proof -
  obtain bs r w where *: "sb_buf b = Some bs" "unat (m_read_index b) = r" "unat (m_write_index b) = w" "w \<le> length bs"
    "unat (m_size b) = length bs" "length bs < 2 ^ 30"
    using assms by (rule sockbuf_okE)
  then have n: "unat (m_size b - m_write_index b) = length bs - w"
    by (simp add: unat_sub word_le_nat_alt)
  then have "\<not> sint (m_size b - m_write_index b) < 0" using * by (simp add: sint_small)
  then show ?thesis using that [of "m_size b - m_write_index b"] n * by (simp add: writableBytes_def)
qed

text \<open>Both ways of making space keep the content; a larger block is not larger than needed.\<close>

lemma makeSpace_ok:
  assumes "sockbuf_ok b" "unat len \<le> sb_room b"
  obtains b' where "makeSpace b len = returns () b'" "sockbuf_ok b'" "sb_content b' = sb_content b"
    "unat len \<le> unat (m_size b') - unat (m_write_index b')"
    "unat (m_size b') \<le> unat (m_size b) + unat len"
    "unat (m_size b') \<le> max (unat (m_size b)) (length (sb_content b) + 2 * unat len)"
proof -
  obtain bs r w where *: "sb_buf b = Some bs" "unat (m_read_index b) = r" "unat (m_write_index b) = w"
    "unat (m_size b) = length bs" "r \<le> w" "w \<le> length bs" "length bs < 2 ^ 30"
    "sb_content b = take (w - r) (drop r bs)" "length (sb_content b) = w - r"
    using assms(1) by (rule sockbuf_okE)
  obtain nr where nr: "readableBytes b = returns nr b" "unat nr = w - r"
    using readableBytes_ok [OF assms(1)] *(9) by metis
  obtain nw where nw: "writableBytes b = returns nw b" "unat nw = length bs - w"
    using writableBytes_ok [OF assms(1)] *(3,4) by metis
  have len: "unat len + length bs < 2 ^ 30" using assms(2) *(4,7) by (simp add: sb_room_def)
  have sum1: "unat (nw + m_read_index b) = length bs - w + r"
    using * nw(2) by (subst unat_add_lem [THEN iffD1]) simp_all
  have sum2: "unat (m_write_index b + len) = w + unat len"
    using * len by (subst unat_add_lem [THEN iffD1]) simp_all
  have content: "fetch bs r (w - r) = Some (sb_content b)"
    using * by (simp add: fetch_def)
  have mallocs: "\<forall>k n. unat n < 2 ^ 30 \<longrightarrow> sb_malloc b k n \<noteq> None" using assms(1) by (simp add: sockbuf_ok_def)
  show ?thesis
  proof (cases "nw + m_read_index b < len")
    case True
    then have less: "length bs - w + r < unat len" by (simp add: word_less_nat_alt sum1)
    have "unat (m_write_index b + len) < 2 ^ 30" using sum2 len *(6) by simp
    then obtain fresh where fresh: "sb_malloc b (sb_mallocs b) (m_write_index b + len) = Some fresh"
      using mallocs by blast
    define new where "new = sb_content b @ drop (w - r) (new_bytes fresh (w + unat len))"
    define b' where "b' = b\<lparr>sb_mallocs := Suc (sb_mallocs b), m_size := m_write_index b + len,
      m_read_index := 0, m_write_index := nr, sb_buf := Some new\<rparr>"
    have "poke (new_bytes fresh (w + unat len)) 0 (sb_content b) = Some new"
      using * by (simp add: poke_def new_def)
    then have "makeSpace b len = returns () b'"
      using nr nw True fresh content *(1-3)
      by (simp add: makeSpace_def take_block_def Let_def sum2 b'_def)
    moreover have "sockbuf_ok b'"
      using * len mallocs nr(2) by (simp add: sockbuf_ok_def b'_def new_def sum2 word_le_nat_alt)
    moreover have "sb_content b' = sb_content b"
      using * nr(2) by (simp add: sb_content_def b'_def new_def)
    moreover have "w + unat len \<le> max (length bs) (w - r + 2 * unat len)" using less * by simp
    ultimately show ?thesis using that [of b'] *(4,6,9) nr(2) by (simp add: b'_def sum2)
  next
    case False
    then have less: "unat len \<le> length bs - w + r" by (simp add: word_less_nat_alt sum1)
    define new where "new = sb_content b @ drop (w - r) bs"
    define b' where "b' = b\<lparr>sb_buf := Some new, m_read_index := 0, m_write_index := nr\<rparr>"
    have "poke bs 0 (sb_content b) = Some new" using * by (simp add: poke_def new_def)
    then have "makeSpace b len = returns () b'"
      using nr nw False content *(1-3) by (simp add: makeSpace_def b'_def)
    moreover have "sockbuf_ok b'"
      using * len mallocs nr(2) by (simp add: sockbuf_ok_def b'_def new_def word_le_nat_alt)
    moreover have "sb_content b' = sb_content b"
      using * nr(2) by (simp add: sb_content_def b'_def new_def)
    ultimately show ?thesis using that [of b'] * nr(2) less by (simp add: b'_def)
  qed
qed

lemma ensureWritableBytes_ok:
  assumes "sockbuf_ok b" "unat len \<le> sb_room b"
  obtains b' where "ensureWritableBytes b len = returns () b'" "sockbuf_ok b'"
    "sb_content b' = sb_content b" "unat len \<le> unat (m_size b') - unat (m_write_index b')"
    "unat (m_size b') \<le> unat (m_size b) + unat len"
    "unat (m_size b') \<le> max (unat (m_size b)) (length (sb_content b) + 2 * unat len)"
proof -
  obtain n where n: "writableBytes b = returns n b" "unat n = unat (m_size b) - unat (m_write_index b)"
    using assms(1) by (rule writableBytes_ok)
  show ?thesis
  proof (cases "n < len")
    case True
    obtain b' where "makeSpace b len = returns () b'" "sockbuf_ok b'" "sb_content b' = sb_content b"
      "unat len \<le> unat (m_size b') - unat (m_write_index b')"
      "unat (m_size b') \<le> unat (m_size b) + unat len"
    "unat (m_size b') \<le> max (unat (m_size b)) (length (sb_content b) + 2 * unat len)"
      using assms by (rule makeSpace_ok)
    with n True show ?thesis by (intro that) (simp_all add: ensureWritableBytes_def)
  next
    case False
    with n have "unat len \<le> unat (m_size b) - unat (m_write_index b)" by (simp add: word_less_nat_alt)
    with n False assms(1) show ?thesis by (intro that [of b]) (simp_all add: ensureWritableBytes_def)
  qed
qed

text \<open>Writing behind the content, as \<open>push\<close> and \<open>sockRead\<close> do.\<close>

lemma fill_ok:
  assumes "sockbuf_ok b" "length xs \<le> unat (m_size b) - unat (m_write_index b)"
  obtains old new b' where "sb_buf b = Some old" "poke old (unat (m_write_index b)) xs = Some new"
    "b' = b\<lparr>sb_buf := Some new, m_write_index := m_write_index b + of_nat (length xs)\<rparr>"
    "\<not> m_write_index b' > m_size b'" "sockbuf_ok b'" "sb_content b' = sb_content b @ xs"
proof -
  obtain bs r w where *: "sb_buf b = Some bs" "unat (m_read_index b) = r"
    "unat (m_write_index b) = w" "unat (m_size b) = length bs" "r \<le> w" "w \<le> length bs"
    "length bs < 2 ^ 30" "sb_content b = take (w - r) (drop r bs)" "length (sb_content b) = w - r"
    using assms(1) by (rule sockbuf_okE)
  have room: "w + length xs \<le> length bs" using assms(2) * by simp
  then have len: "unat (of_nat (length xs) :: 32 word) = length xs"
    using * by (simp add: unat_of_nat take_bit_eq_mod)
  have sum: "unat (m_write_index b + of_nat (length xs)) = w + length xs"
    using * room len by (subst unat_add_lem [THEN iffD1]) simp_all
  define new where "new = take w bs @ xs @ drop (w + length xs) bs"
  define b' where "b' = b\<lparr>sb_buf := Some new, m_write_index := m_write_index b + of_nat (length xs)\<rparr>"
  have "poke bs (unat (m_write_index b)) xs = Some new" using * room by (simp add: poke_def new_def)
  moreover have "sockbuf_ok b'"
    using assms(1) * room by (auto simp: sockbuf_ok_def b'_def new_def word_le_nat_alt sum)
  moreover have "sb_content b' = sb_content b @ xs"
  proof -
    have "sb_content b' = take (w + length xs - r) (drop r (take w bs) @ xs @ drop (w + length xs) bs)"
      using * room by (simp add: sb_content_def b'_def new_def sum)
    also have "\<dots> = drop r (take w bs) @ xs" using * room by simp
    finally show ?thesis using *(8) by (simp add: drop_take)
  qed
  moreover have "\<not> m_write_index b' > m_size b'"
    using * room by (simp add: word_less_nat_alt sum b'_def)
  ultimately show ?thesis using that [of bs new b'] * by (simp add: b'_def)
qed

lemma push_ok:
  assumes "sockbuf_ok b" "length xs \<le> sb_room b"
  obtains b' where "push b xs (of_nat (length xs)) = returns () b'" "sockbuf_ok b'"
    "sb_content b' = sb_content b @ xs" "sb_room b \<le> sb_room b' + length xs"
    "unat (m_size b') \<le> max (unat (m_size b)) (length (sb_content b) + 2 * length xs)"
proof -
  define len where "len = (of_nat (length xs) :: 32 word)"
  have len: "unat len = length xs"
    using assms(2) by (simp add: len_def sb_room_def unat_of_nat take_bit_eq_mod)
  obtain b1 where b1: "ensureWritableBytes b len = returns () b1" "sockbuf_ok b1"
    "sb_content b1 = sb_content b" "unat len \<le> unat (m_size b1) - unat (m_write_index b1)"
    "unat (m_size b1) \<le> unat (m_size b) + unat len"
    "unat (m_size b1) \<le> max (unat (m_size b)) (length (sb_content b) + 2 * unat len)"
    using ensureWritableBytes_ok [OF assms(1), of len] assms(2) len by metis
  obtain old new b' where b': "sb_buf b1 = Some old" "poke old (unat (m_write_index b1)) xs = Some new"
    "b' = b1\<lparr>sb_buf := Some new, m_write_index := m_write_index b1 + len\<rparr>"
    "\<not> m_write_index b' > m_size b'" "sockbuf_ok b'" "sb_content b' = sb_content b1 @ xs"
    using fill_ok [OF b1(2), of xs] b1(4) len len_def by metis
  have "push b xs len = returns () b'"
    using b1(1) b' len by (simp add: push_def fetch_def Let_def)
  then show ?thesis using that [of b'] b' b1(3,5,6) len by (simp add: sb_room_def len_def)
qed

lemma peek_ok:
  assumes "sockbuf_ok b" "unat len \<le> length (sb_content b)"
  shows "peek b len = returns (take (unat len) (sb_content b)) b"
proof -
  obtain bs r w where *: "sb_buf b = Some bs" "unat (m_read_index b) = r"
    "unat (m_write_index b) = w" "unat (m_size b) = length bs" "r \<le> w" "w \<le> length bs"
    "length bs < 2 ^ 30" "sb_content b = take (w - r) (drop r bs)" "length (sb_content b) = w - r"
    using assms(1) by (rule sockbuf_okE)
  obtain n where "readableBytes b = returns n b" "unat n = length (sb_content b)"
    using assms(1) by (rule readableBytes_ok)
  moreover have "r + unat len \<le> length bs" "unat len \<le> w - r" using * assms(2) by simp_all
  ultimately show ?thesis
    using * assms(2) by (simp add: peek_def word_less_nat_alt fetch_def min.absorb1)
qed

lemma pop_ok:
  assumes "sockbuf_ok b" "unat len \<le> length (sb_content b)"
  obtains b' where "pop b len = returns (take (unat len) (sb_content b)) b'" "sockbuf_ok b'"
    "sb_content b' = drop (unat len) (sb_content b)" "sb_room b' = sb_room b"
proof -
  obtain bs r w where *: "sb_buf b = Some bs" "unat (m_read_index b) = r"
    "unat (m_write_index b) = w" "unat (m_size b) = length bs" "r \<le> w" "w \<le> length bs"
    "length bs < 2 ^ 30" "sb_content b = take (w - r) (drop r bs)" "length (sb_content b) = w - r"
    using assms(1) by (rule sockbuf_okE)
  have sum: "unat (m_read_index b + len) = r + unat len"
    using * assms(2) by (subst unat_add_lem [THEN iffD1]) simp_all
  define b' where "b' = b\<lparr>m_read_index := m_read_index b + len\<rparr>"
  have "pop b len = returns (take (unat len) (sb_content b)) b'"
    using peek_ok [OF assms] by (simp add: pop_def b'_def)
  moreover have "sockbuf_ok b'"
    using assms * by (auto simp: sockbuf_ok_def b'_def word_le_nat_alt sum)
  moreover have "sb_content b' = drop (unat len) (sb_content b)"
    using * by (simp add: sb_content_def b'_def sum drop_take) (simp add: add.commute)
  ultimately show ?thesis using that [of b'] by (simp add: b'_def sb_room_def)
qed

text \<open>More than is there is refused: the buffer keeps its content.\<close>

lemma pop_too_much:
  assumes "sockbuf_ok b" "length (sb_content b) < unat len"
  shows "pop b len = throws b"
proof -
  obtain n where n: "readableBytes b = returns n b" "unat n = length (sb_content b)"
    using assms(1) by (rule readableBytes_ok)
  with assms show ?thesis by (auto simp: pop_def peek_def word_less_nat_alt)
qed

text \<open>The operations as a client of the queue calls them.\<close>

definition push_block :: "sockbuf \<Rightarrow> byte list \<Rightarrow> (bool \<times> sockbuf) option" where
  "push_block b xs = do { (r, b) \<leftarrow> push b xs (of_nat (length xs)); Some (\<not> isl r, b) }"

definition pop_block :: "sockbuf \<Rightarrow> nat \<Rightarrow> (byte list \<times> sockbuf) option" where
  "pop_block b n = do {
     (r, b) \<leftarrow> pop b (of_nat n);
     case r of Inl _ \<Rightarrow> None | Inr xs \<Rightarrow> Some (xs, b)
   }"

interpretation sock: byte_queue small_block sockbuf_ok sb_content sb_fits push_block pop_block sb_room
proof unfold_locales
  fix b :: sockbuf and xs :: "byte list"
  assume ok: "sockbuf_ok b" and fit: "sb_fits b (length xs)"
  obtain b' where "push b xs (of_nat (length xs)) = returns () b'" "sockbuf_ok b'"
    "sb_content b' = sb_content b @ xs" "sb_room b \<le> sb_room b' + length xs"
    using push_ok [OF ok] fit by (auto simp: sb_fits_def)
  then show "\<exists>b'. push_block b xs = Some (True, b') \<and> sockbuf_ok b' \<and> sb_content b' = sb_content b @ xs"
    by (simp add: push_block_def returns_def)
next
  fix b :: sockbuf and xs :: "byte list"
  assume "sockbuf_ok b" "length xs \<le> sb_room b"
  then show "small_block xs \<and> sb_fits b (length xs)"
    by (simp add: small_block_def sb_fits_def sb_room_def)
next
  fix b b' :: sockbuf and xs :: "byte list"
  assume ok: "sockbuf_ok b" "length xs \<le> sb_room b" and b': "push_block b xs = Some (True, b')"
  obtain b1 where "push b xs (of_nat (length xs)) = returns () b1" "sb_room b \<le> sb_room b1 + length xs"
    using push_ok [OF ok] by blast
  with b' show "sb_room b \<le> sb_room b' + length xs" by (simp add: push_block_def returns_def)
next
  fix b :: sockbuf and n :: nat
  assume ok: "sockbuf_ok b" and n: "n \<le> length (sb_content b)"
  have "length (sb_content b) < 2 ^ 30" using ok by (auto elim: sockbuf_okE)
  with n have un: "unat (of_nat n :: 32 word) = n" by (simp add: unat_of_nat take_bit_eq_mod)
  show "\<exists>b'. pop_block b n = Some (take n (sb_content b), b') \<and> sockbuf_ok b' \<and>
      sb_content b' = drop n (sb_content b) \<and> sb_room b' = sb_room b"
  proof -
    obtain b' where "pop b (of_nat n) = returns (take n (sb_content b)) b'" "sockbuf_ok b'"
      "sb_content b' = drop n (sb_content b)" "sb_room b' = sb_room b"
      using pop_ok [OF ok, of "of_nat n"] n unfolding un by metis
    then show ?thesis by (simp add: pop_block_def returns_def)
  qed
qed

text \<open>A new buffer is an empty queue, and so is one that has been reset.\<close>

lemma SockBuf_new_ok:
  assumes "\<forall>k n. unat n < 2 ^ 30 \<longrightarrow> sb_malloc b k n \<noteq> None" "unat n < 2 ^ 30"
  shows "sockbuf_ok (SockBuf_new b n)" "sb_content (SockBuf_new b n) = []"
proof -
  obtain fresh where "sb_malloc b (sb_mallocs b) n = Some fresh" using assms by blast
  then have "SockBuf_new b n = b\<lparr>m_size := n, sb_mallocs := Suc (sb_mallocs b),
      sb_buf := Some (new_bytes fresh (unat n)), m_read_index := 0, m_write_index := 0\<rparr>"
    by (simp add: SockBuf_new_def take_block_def)
  with assms show "sockbuf_ok (SockBuf_new b n)" "sb_content (SockBuf_new b n) = []"
    by (simp_all add: sockbuf_ok_def sb_content_def)
qed

lemma sb_reset_ok:
  assumes "sockbuf_ok b"
  shows "sockbuf_ok (sb_reset b)" "sb_content (sb_reset b) = []"
  using assms by (auto simp: sb_reset_def sockbuf_ok_def sb_content_def)

section \<open>Transfers\<close>

text \<open>
  One read puts what the system hands over behind the content, one write takes what the
  system takes from the front; neither throws nor touches memory outside the block.
\<close>

definition offered :: "os \<Rightarrow> nat \<Rightarrow> nat" where
  "offered w n = (case os_recv w n of Arrived bs \<Rightarrow> length bs | RecvFails _ \<Rightarrow> 0)"

definition same_system :: "os \<Rightarrow> os \<Rightarrow> bool" where
  "same_system w w' \<longleftrightarrow> opened w' = opened w \<and> closed w' = closed w \<and> os_recv w' = os_recv w \<and>
     os_socket w' = os_socket w \<and> os_name w' = os_name w \<and> calls w \<le> calls w'"

text \<open>
  A later state of the system: its answers are the same functions, more of them have been given.
  A socket is known once the system has handed it out.
\<close>

definition later_os :: "os \<Rightarrow> os \<Rightarrow> bool" where
  "later_os w w' \<longleftrightarrow> os_recv w' = os_recv w \<and> os_socket w' = os_socket w \<and> os_name w' = os_name w \<and>
     calls w \<le> calls w'"

definition known_socket :: "os \<Rightarrow> socket \<Rightarrow> bool" where
  "known_socket w sd \<longleftrightarrow> (\<exists>m < calls w. os_socket w m = sd)"

lemma later_os_refl [simp]: "later_os w w"
  by (simp add: later_os_def)

lemma later_os_trans: "later_os w w' \<Longrightarrow> later_os w' w'' \<Longrightarrow> later_os w w''"
  by (simp add: later_os_def)

lemma same_system_later_os: "same_system w w' \<Longrightarrow> later_os w w'"
  by (simp add: same_system_def later_os_def)

lemma later_os_offered: "later_os w w' \<Longrightarrow> offered w' = offered w"
  by (simp add: later_os_def offered_def fun_eq_iff)

lemma later_os_known: "later_os w w' \<Longrightarrow> known_socket w sd \<Longrightarrow> known_socket w' sd"
  by (auto simp: later_os_def known_socket_def intro: less_le_trans)

lemma sockRead_ok:
  assumes "sockbuf_ok b" "512 \<le> sb_room b"
  obtains r b' w' bs where "sockRead b sd w = Some (Inr r, b', w')" "sockbuf_ok b'"
    "sb_content b' = sb_content b @ bs" "arrived w' = (arrived w)(sd := arrived w sd @ bs)"
    "departed w' = departed w" "same_system w w'" "r = 0 \<longleftrightarrow> bs \<noteq> []"
    "unat (m_size b') \<le> max (unat (m_size b)) (length (sb_content b) + 1024)"
    "calls w' = Suc (calls w)" "length bs \<le> offered w (calls w)"
proof -
  obtain b1 where b1: "ensureWritableBytes b 512 = returns () b1" "sockbuf_ok b1"
    "sb_content b1 = sb_content b" "512 \<le> unat (m_size b1) - unat (m_write_index b1)"
    "unat (m_size b1) \<le> max (unat (m_size b)) (length (sb_content b) + 1024)"
    using ensureWritableBytes_ok [OF assms(1), of 512] assms(2) by auto
  obtain n where n: "writableBytes b1 = returns n b1"
    "unat n = unat (m_size b1) - unat (m_write_index b1)"
    using b1(2) by (rule writableBytes_ok)
  have first: "and_then (ensureWritableBytes b 512) (\<lambda>_ b. writableBytes b) = returns n b1"
    using b1(1) n(1) by simp
  define w1 where "w1 = snd (next_call w)"
  have same: "arrived w1 = arrived w" "departed w1 = departed w" "same_system w w1"
    "calls w1 = Suc (calls w)"
    by (simp_all add: w1_def next_call_def same_system_def)
  note result = that
  have fails: ?thesis if "sockRead b sd w = Some (Inr r, b1, w1)" "r \<noteq> 0" for r
    using that same b1 by (intro result [of r b1 w1 "[]"]) simp_all
  show ?thesis
  proof (cases "os_recv w (calls w)")
    case (RecvFails wb)
    then show ?thesis
      using first by (intro fails [of "- 2"]) (simp_all add: sockRead_def returns_def next_call_def w1_def)
  next
    case (Arrived xs)
    define bs where "bs = take (unat n) xs"
    show ?thesis
    proof (cases "bs = []")
      case True
      then show ?thesis using first Arrived
        by (intro fails [of "- 1"]) (simp_all add: sockRead_def returns_def next_call_def w1_def bs_def)
    next
      case False
      define w2 where "w2 = w1\<lparr>arrived := (arrived w)(sd := arrived w sd @ bs)\<rparr>"
      obtain old new b2 where b2: "sb_buf b1 = Some old"
        "poke old (unat (m_write_index b1)) bs = Some new"
        "b2 = b1\<lparr>sb_buf := Some new, m_write_index := m_write_index b1 + of_nat (length bs)\<rparr>"
        "\<not> m_write_index b2 > m_size b2" "sockbuf_ok b2" "sb_content b2 = sb_content b1 @ bs"
        using fill_ok [OF b1(2), of bs] n(2) by (auto simp: bs_def)
      have "sockRead b sd w = Some (Inr 0, b2, w2)"
        using first Arrived False b2(1-4)
        by (simp add: sockRead_def returns_def next_call_def bs_def [symmetric] writeMove_def
            w1_def w2_def)
      then show ?thesis using same b1(3,5) b2(3,5,6) False Arrived
        by (intro that [of 0 b2 w2 bs]) (simp_all add: w2_def same_system_def offered_def bs_def)
    qed
  qed
qed

lemma sockWrite_ok:
  assumes "sockbuf_ok b"
  obtains r b' w' bs where "sockWrite b sd w = Some (Inr r, b', w')" "sockbuf_ok b'"
    "sb_content b = bs @ sb_content b'" "departed w' = (departed w)(sd := departed w sd @ bs)"
    "arrived w' = arrived w" "same_system w w'" "m_size b' = m_size b"
proof -
  obtain mem i k where *: "sb_buf b = Some mem" "unat (m_read_index b) = i"
    "unat (m_write_index b) = k" "unat (m_size b) = length mem" "i \<le> k" "k \<le> length mem"
    "length mem < 2 ^ 30" "sb_content b = take (k - i) (drop i mem)"
    "length (sb_content b) = k - i"
    using assms by (rule sockbuf_okE)
  obtain n where n: "readableBytes b = returns n b" "unat n = length (sb_content b)"
    using assms by (rule readableBytes_ok)
  define w1 where "w1 = snd (next_call w)"
  have same: "arrived w1 = arrived w" "departed w1 = departed w" "same_system w w1"
    by (simp_all add: w1_def next_call_def same_system_def)
  have content: "fetch mem i (k - i) = Some (sb_content b)" using * by (simp add: fetch_def)
  show ?thesis
  proof (cases "sint n > 0")
    case False
    then show ?thesis using n(1) assms
      by (intro that [of 0 b w "[]"]) (simp_all add: sockWrite_def returns_def same_system_def)
  next
    case True
    show ?thesis
    proof (cases "os_send w (calls w)")
      case (SendFails wb)
      then show ?thesis using n * True content same assms
        by (intro that [of "- 1" b w1 "[]"])
          (simp_all add: sockWrite_def returns_def next_call_def w1_def)
    next
      case (Takes m)
      define t where "t = min m (length (sb_content b))"
      define bs where "bs = take t (sb_content b)"
      have t: "t \<le> k - i" using *(9) by (simp add: t_def)
      then have ut: "unat (of_nat t :: 32 word) = t" using * by (simp add: unat_of_nat take_bit_eq_mod)
      have sum: "unat (m_read_index b + of_nat t) = i + t"
        using * t ut by (subst unat_add_lem [THEN iffD1]) simp_all
      define b' where "b' = b\<lparr>m_read_index := m_read_index b + of_nat t\<rparr>"
      have "\<not> m_read_index b' > m_write_index b'"
        using * t by (simp add: b'_def word_less_nat_alt sum)
      then have "sockWrite b sd w =
          Some (Inr 0, b', w1\<lparr>departed := (departed w)(sd := departed w sd @ bs)\<rparr>)"
        using n(1) n(2) [unfolded *(9)] *(1,2) True content Takes
        by (simp add: Let_def sockWrite_def returns_def next_call_def w1_def readMove_def b'_def bs_def
            t_def [symmetric])
      moreover have "sockbuf_ok b'"
        using assms * t by (auto simp: sockbuf_ok_def b'_def word_le_nat_alt sum)
      moreover have "sb_content b' = drop t (sb_content b)"
        using * t by (simp add: sb_content_def b'_def sum drop_take) (simp add: add.commute)
      ultimately show ?thesis using same
        by (intro that [of 0 b' "w1\<lparr>departed := (departed w)(sd := departed w sd @ bs)\<rparr>" bs])
          (simp_all add: bs_def b'_def same_system_def)
    qed
  qed
qed

end
