(* ===== verification/Examples.thy ===== *)
theory Examples
  imports Listener SockBuf
begin

text \<open>
  Concrete packets, sessions and systems for the witnesses of the properties: memory filled
  with zeros, a system on which every call succeeds, and which hands over one given block of
  bytes at a time.
\<close>

text \<open>Blocks of the size the program uses; their bytes are never evaluated one by one.\<close>

definition zeros :: "nat \<Rightarrow> byte list" where
  "zeros n = replicate n 0"

lemma length_zeros [simp]: "length (zeros n) = n"
  by (simp add: zeros_def)

definition blank_packet :: cmd_packet where
  "blank_packet = \<lparr>m_pData = Some (zeros 16384), m_pReadData = Unset, m_nLen = 0, m_nReadOffset = 0,
     m_nWriteOffset = 0, m_nMaxSize = 16384\<rparr>"

definition small_packet :: "byte list \<Rightarrow> cmd_packet" where
  "small_packet data = \<lparr>m_pData = Some data, m_pReadData = Unset, m_nLen = int (length data),
     m_nReadOffset = 0, m_nWriteOffset = int (length data), m_nMaxSize = int (length data)\<rparr>"

definition blank_net :: net_packet where
  "blank_net = \<lparr>m_pData = Some (zeros 1024), m_pReadData = Unset, m_nLen = 0, m_nReadOffset = 0,
     m_nWriteOffset = 0, m_nMaxSize = 1024, m_buffer = zeros 16389, m_totalSize = 0, m_head = OwnHead\<rparr>"

definition example_os :: "byte list \<Rightarrow> os" where
  "example_os bs = \<lparr>os_select = (\<lambda>_. (1, True)), os_ready = (\<lambda>_. (1, (\<lambda>_. True), (\<lambda>_. True))),
     os_recv = (\<lambda>_. Arrived bs), os_send = (\<lambda>_. Takes 20000), os_socket = (\<lambda>n. int n + 5),
     os_call = (\<lambda>_. Done), os_name = (\<lambda>_. None), os_time = (\<lambda>_. 1000), os_memory = (\<lambda>_ _. 0),
     calls = 0, received = [], sent = [], arrived = (\<lambda>_. []), departed = (\<lambda>_. []), opened = [],
     closed = [], startups = 1, cleanups = 0, m_nCount = 1\<rparr>"

definition example_session :: "net_state \<Rightarrow> bool \<Rightarrow> byte list \<Rightarrow> session" where
  "example_session st enc bs = \<lparr>m_socket = 5, m_sendCmdPkt = blank_packet, m_recvCmdPkt = blank_packet,
     m_sendNetPkt = blank_net, m_recvNetPkt = blank_net, m_state = st, m_startTime = 1000,
     m_lastRecvTime = 1000, m_lastSendTime = 1000, m_connTime = 1000, m_readBuf = zeros 16389,
     m_readBufSize = 16389, m_readPos = 0, m_readLen = 0, m_writeBuf = zeros 16389,
     m_writeBufSize = 16389, m_writeLen = 0, m_writeBeg = 0, m_writeEnd = 0,
     m_seed = seed_bytes 16 (if enc then 12345 else 0), m_seedLen = (if enc then 16 else 0),
     m_maxBufSize = 17000, m_bEncrypt = enc, m_bCompress = True, m_seq = 0, m_sendBytes = 0,
     m_recvBytes = 0, m_rtt = 0, events = [], sys = example_os bs\<rparr>"

lemma blank_packet_writer: "writer blank_packet" "written blank_packet = []" "fits blank_packet 16384"
  "BeginWrite blank_packet = blank_packet"
  by (simp_all add: writer_def blank_packet_def MAX_CMD_PACKET_SIZE_def written_def fits_def BeginWrite_def)

lemma blank_net_ok: "net_ok blank_net" "m_head blank_net = OwnHead"
  by (simp_all add: net_ok_def blank_net_def)

lemma small_packet_carries: "length data \<le> 16384 \<Longrightarrow> carries (small_packet data) data"
  by (simp add: carries_def small_packet_def GetData_def GetDataSize_def)

lemma example_session_ok: "session_ok (example_session st enc bs)"
proof -
  have "ring_ok (example_session st enc bs)"
    unfolding ring_ok_def by (rule exI [of _ 0], rule exI [of _ 0]) (simp add: example_session_def)
  moreover have "window_ok (example_session st enc bs)"
    unfolding window_ok_def by (rule exI [of _ 0], rule exI [of _ 0]) (simp add: example_session_def)
  ultimately show ?thesis
    using blank_packet_writer(1,4) blank_net_ok
    by (simp add: session_ok_def example_session_def seed_mem_def seed_ok_def) (simp add: blank_packet_def)
qed

lemma example_session_simps [simp]:
  "m_state (example_session st enc bs) = st" "unparsed (example_session st enc bs) = []"
  "pending (example_session st enc bs) = []" "outgoing (example_session st enc bs) = []"
  "received (sys (example_session st enc bs)) = []" "events (example_session st enc bs) = []"
  "m_seed (example_session st enc bs) = seed_bytes 16 (if enc then 12345 else 0)"
  "seed_ok (example_session st enc bs) = enc" "m_bEncrypt (example_session st enc bs) = enc"
  "m_seq (example_session st enc bs) = 0" "m_maxBufSize (example_session st enc bs) = 17000"
  "m_writeBufSize (example_session st enc bs) = 16389" "m_writeLen (example_session st enc bs) = 0"
  by (simp_all add: example_session_def unparsed_def pending_def outgoing_def example_os_def seed_ok_def)

lemma example_session_room:
  "ring_limits (example_session st enc bs)" "send_load (example_session st enc bs) = 0"
  "round_room (example_session st enc bs)"
proof -
  have "m_sendBytes (example_session st enc bs) = 0" "m_recvBytes (example_session st enc bs) = 0"
    by (simp_all add: example_session_def)
  then show "ring_limits (example_session st enc bs)" "send_load (example_session st enc bs) = 0"
    "round_room (example_session st enc bs)"
    by (simp_all add: ring_limits_def send_load_def round_room_def recv_room_def)
qed

text \<open>In its first round an example session reads the block its system has for it.\<close>

lemma example_reads:
  assumes "bs \<noteq> []" "length bs \<le> 16389" "st \<in> {NET_STATE_CONNECTED, NET_STATE_WAITING_SEED}"
  obtains s1 where "DefProc (example_session st enc bs) = Some s1" "m_state s1 = st"
    "session_ok s1" "unparsed s1 = bs" "received (sys s1) = bs" "seed_ok s1 = enc"
    "m_seed s1 = seed_bytes 16 (if enc then 12345 else 0)" "events s1 = []"
    "round_of (example_session st enc bs) bs s1"
proof -
  let ?s = "example_session st enc bs"
  have read: "\<exists>s1. Session_ReadData (?s\<lparr>sys := w\<rparr>) = Some (True, s1) \<and> m_state s1 = st \<and>
      received (sys s1) = bs" if "w = (example_os bs)\<lparr>calls := n\<rparr>" for w n
    using assms(1,2)
    by (simp add: Session_ReadData_def pack_window_def example_session_def Recv_def CanRead_def
        poke_int_def poke_def poll_socket_def next_call_def get_time_def Sys_GetTime_def that
        example_os_def Let_def int_add_def)
  have "\<exists>s1. DefProc ?s = Some s1 \<and> m_state s1 = st \<and> received (sys s1) = bs"
  proof (cases "st = NET_STATE_CONNECTED")
    case True
    have "DefProc ?s = do { (_, s) \<leftarrow> Session_ReadData (?s\<lparr>sys := (example_os bs)\<lparr>calls := 1\<rparr>\<rparr>); Some s }"
      using True by (simp add: DefProc_def get_time_def Sys_GetTime_def next_call_def FlushData_def
          example_session_def example_os_def NET_KEEP_ALIVE_INTERVAL_def NET_TIMEOUT_def)
    then show ?thesis using read [of "(example_os bs)\<lparr>calls := 1\<rparr>" 1] by auto
  next
    case False
    then have "DefProc ?s = do { (_, s) \<leftarrow> Session_ReadData (?s\<lparr>sys := (example_os bs)\<lparr>calls := 0\<rparr>\<rparr>); Some s }"
      using assms(3) by (simp add: DefProc_def example_session_def example_os_def)
    then show ?thesis using read [of "(example_os bs)\<lparr>calls := 0\<rparr>" 0] by auto
  qed
  then obtain s1 where s1: "DefProc ?s = Some s1" "m_state s1 = st" "received (sys s1) = bs" by blast
  obtain xs where xs: "round_of ?s xs s1" using DefProc_spec(2) [OF example_session_ok s1(1)] by blast
  then have "xs = bs" using s1(3) by (simp add: round_of_def)
  with s1 xs show ?thesis by (intro that [of s1]) (simp_all add: round_of_def)
qed

end
