(* ===== verification/NetProperties.thy ===== *)
theory NetProperties
  imports Examples
begin

text \<open>
  The properties of the network code: packets, sessions, the socket buffer, the listener.  Each
  one is followed by a witness, an application at a concrete input.
\<close>

section \<open>Sessions\<close>

text \<open>
  C1: from one client to the other.  A sender hands packets to its session, none of them empty
  (\<open>SendPacket\<close> accepts an empty one as well, but the other end takes it for a broken stream and
  drops the connection); the network
  passes on a beginning of the bytes the session has put out, in pieces of any size, and the
  receiving session, which has the same cipher or gets plain packets, goes through rounds.
  Then, as long as the receiver has not closed its session, its client has been told a beginning
  of the accepted packets, each whole, unchanged and in order; and all of them, once all the
  bytes have arrived.
\<close>

theorem packets_arrive_in_order:
  assumes "session_ok s" "outgoing s = []"
    "list_all2 (\<lambda>p data. carries (fst p) data \<and> data \<noteq> []) ps datas"
    "send_all s ps = Some (oks, s')"
    "session_ok r" "unparsed r = []" "received (sys r) = []" "same_cipher s r"
    "connected_run r r'" "outgoing s' = received (sys r') @ later"
  shows "\<exists>k. events r' = events r @ map OnReceive (take k (map snd (filter fst (zip oks datas)))) \<and>
    (later = [] \<longrightarrow> events r' = events r @ map OnReceive (map snd (filter fst (zip oks datas))))"
  using assms by (rule end_to_end)

text \<open>An encrypted packet crosses from one example session to another.\<close>

lemma packets_arrive_in_order_witness:
  "\<exists>s' r'. send_all (example_session NET_STATE_CONNECTED True []) [(small_packet [1, 2, 3], False)] = Some ([True], s') \<and>
     Process (example_session NET_STATE_CONNECTED True (outgoing s')) = Some r' \<and>
     events r' = [OnReceive [1, 2, 3]]"
proof -
  let ?s = "example_session NET_STATE_CONNECTED True []"
  let ?ps = "[(small_packet [1, 2, 3], False)]"
  have ps: "list_all2 (\<lambda>p data. carries (fst p) data \<and> data \<noteq> []) ?ps [[1, 2, 3]]"
    by (simp add: small_packet_carries)
  obtain s' where s': "SendPacket ?s (small_packet [1, 2, 3]) False False = Some (True, s')"
    "outgoing s' = wire ?s False [1, 2, 3]"
    using SendPacket_spec [OF example_session_ok, of NET_STATE_CONNECTED True "[]" "small_packet [1, 2, 3]"
        "[1, 2, 3]" 3 False False] example_session_room(1,2)
    by (auto simp: small_packet_def GetData_def GetDataSize_def ring_fits_def send_safe_def
        encryptable_def sent_packet_def)
  let ?r = "example_session NET_STATE_CONNECTED True (outgoing s')"
  have len: "outgoing s' \<noteq> []" "length (outgoing s') \<le> 16389"
    using s'(2) by (simp_all flip: length_0_conv)
  obtain r1 where r1: "DefProc ?r = Some r1" "m_state r1 = NET_STATE_CONNECTED" "session_ok r1"
    "unparsed r1 = outgoing s'" "received (sys r1) = outgoing s'" "seed_ok r1"
    "round_of ?r (outgoing s') r1"
    using example_reads [OF len, of NET_STATE_CONNECTED True] by (metis insertI1)
  obtain f where f: "wire ?s False [1, 2, 3] = frame_of f" "user_frame (m_bEncrypt ?s) f"
    "says (m_seed ?s) f = [1, 2, 3]"
    using wire_user [of "[1, 2, 3]" ?s] by auto
  have stream: "unparsed r1 = concat (map frame_of [f]) @ []" "\<forall>f \<in> set [f]. valid_frame (frame_of f)"
    using r1(4) s'(2) f(1,2) by (simp_all add: user_frame_def)
  have "load_ok r1" by (rule round_load [OF example_session_room(3) r1(7)])
  obtain r' where r': "Process ?r = Some r'" "m_state r' \<noteq> NET_STATE_ZERO"
    "received (sys r') = outgoing s'"
    using Process_connected [OF r1(1,3,2) stream] r1(2,5,6) \<open>load_ok r1\<close> by (auto simp: delivers_def)
  have send: "send_all ?s ?ps = Some ([True], s')" using s'(1) by simp
  have run: "connected_run ?r r'"
    using connected_run.a_round [OF connected_run.no_round _ r'(1,2)] by simp
  have start: "outgoing ?s = []" "unparsed ?r = []" "received (sys ?r) = []" "same_cipher ?s ?r"
    by (simp_all add: same_cipher_def)
  have net: "outgoing s' = received (sys r') @ []" using r'(3) by simp
  note packets_arrive_in_order [OF example_session_ok start(1) ps send example_session_ok start(2-4) run net]
  then have "events r' = events ?r @ map OnReceive [[1, 2, 3]]" by simp
  then have "events r' = [OnReceive [1, 2, 3]]" by simp
  with send r'(1) show ?thesis by blast
qed

text \<open>
  C8: two sessions with the same seed that have received the same bytes have told their
  clients the same, whatever pieces the bytes came in and however many rounds it took; they also
  agree on what still waits for more, and on the seed.
\<close>

theorem delivery_ignores_chunks:
  assumes "session_ok s" "unparsed s = []" "received (sys s) = []" "connected_run s u"
    and "session_ok t" "unparsed t = []" "received (sys t) = []" "connected_run t v"
    and "m_seed t = m_seed s" "received (sys v) = received (sys u)"
  shows "unparsed v = unparsed u \<and> m_seed v = m_seed u \<and>
    (\<exists>es. events u = events s @ es \<and> events v = events t @ es)"
  using assms by (rule runs_agree)

text \<open>Half a header waits for the rest.\<close>

lemma delivery_ignores_chunks_witness:
  "\<exists>u. Process (example_session NET_STATE_CONNECTED True [0x50, 1]) = Some u \<and> unparsed u = [0x50, 1] \<and>
     (\<exists>es. events u = events (example_session NET_STATE_CONNECTED True [0x50, 1]) @ es)"
proof -
  let ?s = "example_session NET_STATE_CONNECTED True [0x50, 1]"
  obtain r1 where r1: "DefProc ?s = Some r1" "m_state r1 = NET_STATE_CONNECTED" "session_ok r1"
    "unparsed r1 = [0x50, 1]" "received (sys r1) = [0x50, 1]" "seed_ok r1" "round_of ?s [0x50, 1] r1"
    using example_reads [of "[0x50, 1]" NET_STATE_CONNECTED True] by auto
  have "\<not> frames [0x50, 1]" "\<not> broken [0x50, 1]"
    using frames_length [of "[0x50, 1]"] by (auto simp: broken_def)
  with Process_connected [OF r1(1,3,2), of "[]" "[0x50, 1]"] r1(2,4-6) round_load [OF example_session_room(3) r1(7)]
  obtain u where u: "Process ?s = Some u"
    "m_state u \<noteq> NET_STATE_ZERO" "received (sys u) = [0x50, 1]" "unparsed u = [0x50, 1]"
    by (auto simp: delivers_def)
  have run: "connected_run ?s u"
    using connected_run.a_round [OF connected_run.no_round _ u(1,2)] by simp
  have start: "unparsed ?s = []" "received (sys ?s) = []" by simp_all
  from delivery_ignores_chunks [OF example_session_ok start run example_session_ok start run refl refl]
  show ?thesis using u by blast
qed

text \<open>
  C6: whatever a client does with a session through the public operations of its class, from
  outside or from its callbacks, and whatever the network sends, the session stays well formed
  as long as nothing leaves defined behaviour: the ring of bytes to send and the window of
  received bytes lie in their buffers, the packets have their full size, the memory of the seed
  is there, and its length is 0 or 16.  This does not say that a session that is to encrypt has
  a seed: closing and attaching again leaves it without (\<open>reattached_session_overruns\<close>).
\<close>

theorem sessions_stay_well_formed:
  assumes "reachable s"
  shows "session_ok s"
  using assms by (rule reachable_ok)

text \<open>A session constructed in zeroed memory, given a limit, attached, and closed by a callback.\<close>

lemma example_constructed: "constructed_parts (example_session NET_STATE_ZERO False [])"
  using blank_net_ok by (simp add: constructed_parts_def example_session_def)

lemma sessions_stay_well_formed_witness:
  "\<exists>s t. CG_TCPSession (example_session NET_STATE_ZERO False []) = Some s \<and> SetBufSize 64 s = Some t \<and>
     session_ok (Close (notify (OnReceive []) ((Attach t 7)\<lparr>m_recvCmdPkt := blank_packet\<rparr>)))"
proof -
  obtain s where s: "CG_TCPSession (example_session NET_STATE_ZERO False []) = Some s"
    using constructor_spec [OF example_constructed] by metis
  moreover obtain t where t: "SetBufSize 64 s = Some t" by (simp add: SetBufSize_def int_mul_def)
  moreover have "reachable (Close (notify (OnReceive []) ((Attach t 7)\<lparr>m_recvCmdPkt := blank_packet\<rparr>)))"
    using reachable.limited [OF reachable.constructed [OF example_constructed s] t]
    by (intro reachable.closing reachable.client_told reachable.attached)
  ultimately show ?thesis using sessions_stay_well_formed by blast
qed

text \<open>
  C15: a round of \<open>Process\<close> ends.  In a session that has a seed it never leaves defined
  behaviour, whatever bytes have arrived, although the delivery loop has no bound of its own,
  as long as the \<open>int\<close> counters have room for one more buffer of bytes (they overflow after two
  gigabytes) and the limit of the ring is below half a gigabyte (\<open>round_room\<close>); the session is
  well formed afterwards, and its state has moved along an edge of the life cycle.
\<close>

theorem rounds_return:
  assumes "session_ok s" "seed_ok s" "round_room s"
  shows "\<exists>s'. Process s = Some s' \<and> session_ok s' \<and> life (m_state s) (m_state s')"
  using Process_safe [OF assms(1)] assms(2,3) by blast

lemma rounds_return_witness:
  "\<exists>s'. Process (example_session NET_STATE_CONNECTED True [0x50, 1, 2, 3, 4, 5, 6]) = Some s' \<and> session_ok s'"
  using rounds_return [OF example_session_ok _ example_session_room(3), of NET_STATE_CONNECTED True "[0x50, 1, 2, 3, 4, 5, 6]"]
  by auto

text \<open>
  C17: the life cycle.  Over any number of rounds, with or without a seed, a session that is
  not in use stays out of use, a dead one has been closed after the next round, and a session
  becomes connected only by way of the state that waits for the seed.
\<close>

theorem life_cycle:
  assumes "session_ok s" "Process s = Some s'"
  shows "(m_state s = NET_STATE_ZERO \<longrightarrow> m_state s' = NET_STATE_ZERO) \<and>
    (m_state s = NET_STATE_DEAD \<longrightarrow> m_state s' = NET_STATE_ZERO) \<and>
    (m_state s' = NET_STATE_CONNECTED \<longrightarrow> m_state s \<in> {NET_STATE_CONNECTED, NET_STATE_WAITING_SEED}) \<and>
    (m_state s' = NET_STATE_WAITING_SEED \<longrightarrow> m_state s \<in> {NET_STATE_WAITING_SEED, NET_STATE_CONNECTING})"
proof -
  have "life (m_state s) (m_state s')" using Process_safe(2) [OF assms(1,2)] by blast
  then show ?thesis by (auto simp: life.simps)
qed

lemma life_cycle_witness:
  "m_state (the (Process (example_session NET_STATE_DEAD True []))) = NET_STATE_ZERO"
proof -
  obtain s' where "Process (example_session NET_STATE_DEAD True []) = Some s'"
    using Process_safe(1) [OF example_session_ok _ example_session_room(3), of NET_STATE_DEAD True "[]"] by auto
  with life_cycle [OF example_session_ok this] show ?thesis by simp
qed



text \<open>
  C16: \<open>SendPacket\<close> on a connected session puts exactly one frame behind what it has accepted
  before, with the next sequence number and the flags and the cipher in use, or refuses: then
  the bytes to be sent are as they were, and only the sequence number has been used up.  What
  arrives, the seed and the client's events are not touched.  It stays in defined behaviour
  when the cipher has its seed (or the packet is not for it), the limit of the ring is below
  half a gigabyte, and, for a packet that is flushed, the \<open>int\<close> counter of the bytes sent has
  room for what waits and the packet (\<open>send_safe\<close>).
\<close>

theorem send_packet_appends_frame:
  assumes "session_ok s" "m_state s = NET_STATE_CONNECTED" "carries packet data"
  shows "(send_safe s flush sysp data \<longrightarrow> SendPacket s packet flush sysp \<noteq> None) \<and>
    (\<forall>ok s'. SendPacket s packet flush sysp = Some (ok, s') \<longrightarrow> ok = ring_fits s (5 + length data) \<and>
      session_ok s' \<and> sending s s' \<and> m_seq s' = next_seq (m_seq s) \<and>
      outgoing s' = outgoing s @ (if ring_fits s (5 + length data) then wire s sysp data else []))"
  using SendPacket_ok [OF assms(1,3), of flush sysp] assms(2) by (simp add: sent_packet_def)

lemma send_packet_appends_frame_witness:
  "\<exists>s'. SendPacket (example_session NET_STATE_CONNECTED False []) (small_packet [7]) True False = Some (True, s') \<and>
     outgoing s' = [0x52, 1, 0, 1, 0, 7]"
proof -
  let ?s = "example_session NET_STATE_CONNECTED False []"
  have "wire ?s False [7] = [0x52, 1, 0, 1, 0, 7]"
    by (simp add: wire_def wire_flag_def frame_def next_seq_def MAX_NET_PACKET_SEQ_def enc16_def len16_def)
      (simp add: example_session_def)
  then show ?thesis
    using send_packet_appends_frame [OF example_session_ok, of NET_STATE_CONNECTED False "[]" "small_packet [7]" "[7]" True False]
      example_session_room(1,2)
    by (auto simp: small_packet_carries ring_fits_def send_safe_def)
qed

text \<open>
  C22: the ring of bytes to be sent behaves like a list.  When the limit of its size and the
  blocks are below half a gigabyte (\<open>ResizeBuf\<close> doubles a size before it looks at the limit), any
  series of \<open>PushData\<close> calls appends the blocks that fit, whole, and refuses the others without a
  trace, across the wrap-around of the indices and the enlargement of the buffer.  \<open>FlushData\<close>, in
  one or two calls of \<open>send\<close>, then removes from the front exactly what the system has taken; it is
  defined as long as the \<open>int\<close> counter of the bytes sent has room for what waits.
\<close>

theorem ring_refines_list:
  assumes "ring_ok s" "ring_limits s" "0 \<le> m_sendBytes s" "\<forall>xs \<in> set xss. short_block xs"
  shows "\<exists>oks s'. push_all push_ring s xss = Some (oks, s') \<and> ring_ok s' \<and> length oks = length xss \<and>
    pending s' = pending s @ accepted oks xss \<and>
    (send_load s' < 2 ^ 31 \<longrightarrow> FlushData s' \<noteq> None) \<and>
    (\<forall>s''. FlushData s' = Some s'' \<longrightarrow> ring_ok s'' \<and>
      sent (sys s'') @ pending s'' = sent (sys s') @ pending s' \<and>
      (\<exists>k \<le> length (pending s'). pending s'' = drop k (pending s')))"
proof -
  have "ring_ready s" using assms(1-3) by (simp add: ring_ready_def)
  then obtain oks s' where s': "push_all push_ring s xss = Some (oks, s')" "ring_ready s'" "length oks = length xss"
    "pending s' = pending s @ accepted oks xss"
    using ring.push_all_spec assms(4) by blast
  then have ready: "ring_ok s'" "0 \<le> m_sendBytes s'" by (simp_all add: ring_ready_def)
  note flush = FlushData_spec [OF this]
  have "ring_ok s'' \<and> sent (sys s'') @ pending s'' = sent (sys s') @ pending s' \<and>
      (\<exists>k \<le> length (pending s'). pending s'' = drop k (pending s'))" if "FlushData s' = Some s''" for s''
    using flush that unfolding flushed_def outgoing_def by blast
  with s' ready(1) flush show ?thesis by blast
qed

lemma ring_refines_list_witness:
  "\<exists>oks s'. push_all push_ring (example_session NET_STATE_CONNECTED False []) [[1, 2], [3], []] = Some (oks, s') \<and>
     length oks = 3 \<and> pending s' = accepted oks [[1, 2], [3], []]"
proof -
  have "ring_ok (example_session NET_STATE_CONNECTED False [])"
    using example_session_ok by (rule session_okD)
  moreover have "0 \<le> m_sendBytes (example_session NET_STATE_CONNECTED False [])"
    using example_session_ok by (rule session_okD)
  ultimately show ?thesis
    using ring_refines_list [of "example_session NET_STATE_CONNECTED False []" "[[1, 2], [3], []]"] example_session_room(1)
    by (auto simp: short_block_def)
qed

section \<open>Packets\<close>

text \<open>
  C27: what is written into a packet is read back.  A client that begins a packet and writes
  bytes, shorts, longs, floats, blobs and strings into it, as many as fit, no blob empty and no
  string with a NUL inside (\<open>valid_field\<close>, which also keeps the lengths in a \<open>short\<close>), and a
  receiver that attaches a packet to those bytes, followed by anything, and reads the same kinds in the same
  order gets the same values, and has read everything.  Of an empty blob this is false:
  \<open>WriteBinary\<close> writes it and \<open>ReadBinary\<close> refuses it (\<open>empty_blob_lost\<close>).
\<close>

theorem fields_round_trip:
  assumes "writer p" "\<forall>f \<in> set fs. valid_field f" "fits (BeginWrite p) (length (concat (map enc_field fs)))"
  shows "\<exists>q r. write_fields (BeginWrite p) fs = Some (True, q) \<and>
    read_fields (BeginRead_at r0 (written q @ rest) (GetDataSize q)) (map kind_of fs) = Some (Some fs, r) \<and>
    unread r = []"
proof -
  have start: "writer (BeginWrite p)" "written (BeginWrite p) = []"
    using BeginWrite_writer [OF assms(1)] by (simp_all add: BeginWrite_def written_def)
  from write_fields_fit [OF start(1) assms(2,3)] start(2) obtain q where q:
    "write_fields (BeginWrite p) fs = Some (True, q)" "writer q" "written q = concat (map enc_field fs)"
    by auto
  from q(2) obtain n where n: "m_nLen q = int n" "length (written q) = n" "n \<le> 16384"
    by (rule writerE) auto
  have "reader (BeginRead_at r0 (written q @ rest) (GetDataSize q))"
    "unread (BeginRead_at r0 (written q @ rest) (GetDataSize q)) = concat (map enc_field fs) @ []"
    using BeginRead_at_reader [of n "written q @ rest" r0] n q(3) by (simp_all add: GetDataSize_def)
  from read_fields_some [OF this(1) assms(2) this(2)] q(1) show ?thesis by blast
qed

lemma fields_round_trip_witness:
  "\<exists>q r. write_fields (BeginWrite blank_packet) [FShort 5, FString [104, 105], FLong 70000] = Some (True, q) \<and>
     read_fields (BeginRead_at blank_packet (written q @ [1]) (GetDataSize q))
       (map kind_of [FShort 5, FString [104, 105], FLong 70000]) =
       Some (Some [FShort 5, FString [104, 105], FLong 70000], r)"
proof -
  let ?fs = "[FShort 5, FString [104, 105], FLong 70000]"
  have "\<forall>f \<in> set ?fs. valid_field f" by simp
  moreover have "fits (BeginWrite blank_packet) (length (concat (map enc_field ?fs)))"
    by (simp add: blank_packet_writer(4)) (simp add: fits_def blank_packet_def)
  ultimately show ?thesis using fields_round_trip [OF blank_packet_writer(1)] by blast
qed

text \<open>
  C32: a receiver may read any kinds of fields, in any order and number, from a packet with any
  content: each read succeeds or is refused, none reads or writes outside the bytes of the
  packet, and the read offset stays inside them.
\<close>

theorem reading_is_safe:
  assumes "n \<le> length block" "n < 2 ^ 30"
  shows "\<exists>r q. read_fields (BeginRead_at p block (int n)) ks = Some (r, q) \<and> reader q"
  using read_fields_safe BeginRead_at_reader [OF assms] by blast

lemma reading_is_safe_witness:
  "\<exists>r q. read_fields (BeginRead_at blank_packet [0xFF, 0x7F, 1] (int 3)) [KString, KBinary, KByte] = Some (r, q)"
  using reading_is_safe [of 3 "[0xFF, 0x7F, 1]" blank_packet "[KString, KBinary, KByte]"] by auto

text \<open>
  C21: the header check.  On any bytes, \<open>BeginRead\<close> gives the total size exactly when a whole
  valid frame stands at the front, which the packet then holds.  Of fewer than five bytes it
  looks at none: the result is 0, even if no frame starts with them.  From five on, a whole
  header, the result is 0 when no whole frame stands there but more bytes may make one, and -1
  when no frame starts like this.
\<close>

theorem begin_read_classifies:
  assumes "net_ok p" "n \<le> length block"
  shows "\<exists>r q. NetBeginRead p block (int n) = Some (r, q) \<and> reads p (take n block) r q"
  using assms by (rule BeginRead_reads)

lemma begin_read_classifies_witness:
  "\<exists>r q. NetBeginRead blank_net [0x50, 1, 0, 2, 0, 9, 9, 9] (int 8) = Some (r, q) \<and>
     reads blank_net [0x50, 1, 0, 2, 0, 9, 9, 9] r q"
  using begin_read_classifies [OF blank_net_ok(1), of 8 "[0x50, 1, 0, 2, 0, 9, 9, 9]"] by simp

text \<open>
  C31: \<open>Decrypt\<close> undoes \<open>Encrypt\<close> for the same seed: the packet holds the same data, sequence
  number and flags again, but for the encryption flag, which is cleared.  In between, the
  last five bytes of the data are unchanged: the loop runs to the size of the data and starts
  behind the header.
\<close>

theorem decrypt_undoes_encrypt:
  assumes "holds p flag seq data" "seed \<noteq> []"
  shows "\<exists>q r. Encrypt p seed (int (length seed)) = Some q \<and>
    Decrypt q seed (int (length seed)) = Some r \<and> holds r ((flag OR 1) AND NOT 1) seq data \<and>
    (\<exists>body. holds q (flag OR 1) seq body \<and> length body = length data \<and>
       drop (length data - 5) body = drop (length data - 5) data)"
proof -
  obtain q where q: "Encrypt p seed (int (length seed)) = Some q" "holds q (flag OR 1) seq (cipher seed data)"
    using Encrypt_holds [OF assms] by blast
  obtain r where r: "Decrypt q seed (int (length seed)) = Some r" "holds r ((flag OR 1) AND NOT 1) seq data"
    using Decrypt_holds [OF q(2) assms(2)] unfolding cipher_involution by blast
  show ?thesis using q r cipher_tail [of data seed] length_cipher [of seed data] by blast
qed

lemma decrypt_undoes_encrypt_witness:
  "\<exists>p q r. AddCmdPacket blank_net (small_packet [1, 2, 3, 4, 5, 6, 7]) = Some p \<and>
     Encrypt p [9, 8] (int (length [9, 8 :: byte])) = Some q \<and>
     Decrypt q [9, 8] (int (length [9, 8 :: byte])) = Some r"
proof -
  obtain p seq where p: "AddCmdPacket blank_net (small_packet [1, 2, 3, 4, 5, 6, 7]) = Some p"
    "holds p 0x50 seq [1, 2, 3, 4, 5, 6, 7]"
    using AddCmdPacket_holds [OF blank_net_ok, of "small_packet [1, 2, 3, 4, 5, 6, 7]" "[1, 2, 3, 4, 5, 6, 7]" 7]
    by (auto simp: small_packet_def GetData_def GetDataSize_def)
  from decrypt_undoes_encrypt [OF p(2), of "[9, 8]"] p(1) show ?thesis by blast
qed

text \<open>
  What the cipher does not survive.  A session that has no seed, and receives a frame with
  the encryption flag and more than 21 bytes of data, reads beyond the sixteen bytes of its
  seed: the index into the seed is set back to 0 when it equals the length 0, which it does
  only before the first byte.
\<close>

theorem unseeded_session_overruns:
  assumes "session_ok s" "DefProc s = Some s1" "m_state s1 \<in> {NET_STATE_CONNECTED, NET_STATE_WAITING_SEED}"
    "\<not> seed_ok s1" "unparsed s1 = frame flag seq data @ rest" "valid_frame (frame flag seq data)"
    "flag AND FLAG_ENCRYPT \<noteq> 0" "21 < length data"
  shows "Process s = None"
proof -
  obtain bs where "round_of s bs s1" using DefProc_spec(2) [OF assms(1,2)] by blast
  then have "session_ok s1" by (simp add: round_of_def)
  from RecvPacket_unreadable [OF this _ assms(5,6)] assms(4,7,8) have none: "RecvPacket s1 = None"
    by (simp add: readable_def)
  then have "GetPacket s1 p = None" for p by (subst GetPacket.simps) simp
  with none assms(2,3) show ?thesis
    by (auto simp: Process_def process_waiting_def deliver_loop.simps [of s1])
qed

lemma unseeded_session_overruns_witness:
  "Process (example_session NET_STATE_WAITING_SEED False (frame 0x51 1 (zeros 22))) = None"
proof -
  have len: "frame 0x51 1 (zeros 22) \<noteq> []" "length (frame 0x51 1 (zeros 22)) \<le> 16389"
    by (simp_all add: frame_def)
  obtain s1 where s1: "DefProc (example_session NET_STATE_WAITING_SEED False (frame 0x51 1 (zeros 22))) = Some s1"
    "m_state s1 = NET_STATE_WAITING_SEED" "unparsed s1 = frame 0x51 1 (zeros 22) @ []" "\<not> seed_ok s1"
    using example_reads [OF len, of NET_STATE_WAITING_SEED False] by auto
  have "zeros 22 \<noteq> []" by (simp add: zeros_def)
  then have "valid_frame (frame 0x51 1 (zeros 22))"
    unfolding valid_frame_def by (intro exI conjI) (rule refl, rule protocol_flags, simp_all)
  with unseeded_session_overruns [OF example_session_ok s1(1) _ s1(4,3)] s1(2) show ?thesis
    by (simp add: FLAG_ENCRYPT_def)
qed

text \<open>
  The key a seed stands for.  It has sixteen bytes; no byte of it is 0 when the seed is
  positive, so that the cipher changes every byte it reaches; but a \<open>long\<close> is used up after
  eight divisions by 19, and the last eight bytes are 1 for every seed.
\<close>

theorem seed_key:
  assumes "v \<noteq> 0"
  shows "m_bEncrypt (SetSeed v s) \<and> length (m_seed (SetSeed v s)) = 16 \<and> m_seedLen (SetSeed v s) = 16 \<and>
    drop 8 (m_seed (SetSeed v s)) = replicate 8 1 \<and> (0 \<le> sint v \<longrightarrow> 0 \<notin> set (m_seed (SetSeed v s)))"
proof -
  have "m_seed (SetSeed v s) = seed_bytes 16 (sint v)" "m_bEncrypt (SetSeed v s)" "m_seedLen (SetSeed v s) = 16"
    using assms by (simp_all add: SetSeed_def MAX_NET_SEED_SIZE_def)
  then show ?thesis using seed_bytes_tail [of v] seed_bytes_nonzero [of "sint v" 0 16] by auto
qed

lemma seed_key_witness:
  "drop 8 (m_seed (SetSeed 123456 (example_session NET_STATE_CONNECTED False []))) = replicate 8 1 \<and>
   0 \<notin> set (m_seed (SetSeed 123456 (example_session NET_STATE_CONNECTED False [])))"
  using seed_key [of 123456 "example_session NET_STATE_CONNECTED False []"] by simp

text \<open>
  Sequence numbers.  Whether a packet is accepted or refused, the number of the session
  stays between 1 and 65000; it counts up by one and starts again at 1.
\<close>

theorem sequence_numbers:
  assumes "session_ok s" "m_state s = NET_STATE_CONNECTED" "carries packet data" "unat (m_seq s) \<le> 65000"
    "SendPacket s packet flush sysp = Some (ok, s')"
  shows "1 \<le> unat (m_seq s') \<and> unat (m_seq s') \<le> 65000 \<and>
    unat (m_seq s') = (if unat (m_seq s) = 65000 then 1 else unat (m_seq s) + 1)"
proof -
  have "m_seq s' = next_seq (m_seq s)"
    using SendPacket_ok(2) [OF assms(1,3,5)] assms(2) by (simp add: sent_packet_def)
  with next_seq_range [OF assms(4)] show ?thesis by simp
qed

lemma sequence_numbers_witness:
  "\<exists>ok s'. SendPacket (example_session NET_STATE_CONNECTED False []) (small_packet [7]) False False = Some (ok, s') \<and>
     unat (m_seq s') = 1"
proof -
  have c: "carries (small_packet [7]) [7]" by (simp add: small_packet_carries)
  have "send_safe (example_session NET_STATE_CONNECTED False []) False False [7]"
    using example_session_room(1) by (simp add: send_safe_def)
  from SendPacket_ok(1) [OF example_session_ok c this]
  obtain ok s' where s': "SendPacket (example_session NET_STATE_CONNECTED False []) (small_packet [7]) False False = Some (ok, s')"
    by auto
  from sequence_numbers [OF example_session_ok _ small_packet_carries _ this] s' show ?thesis by auto
qed

section \<open>Socket buffers\<close>

text \<open>
  C28: the socket buffer is a first-in first-out queue of bytes.  Over any history of pushes and
  pops that stays below the gigabyte limit, with memory always available, no call throws or
  touches memory outside the block, however often the content is moved or the block replaced;
  what has come out, followed by what is left, is what was there, followed by what went in.
\<close>

theorem socket_buffer_is_fifo:
  assumes "sockbuf_ok b" "length (pushed ops) \<le> sb_room b"
  shows "\<exists>outs b'. run_queue push_block pop_block sb_content b ops = Some (outs, b') \<and> sockbuf_ok b' \<and>
    sb_content b @ pushed ops = outs @ sb_content b'"
  using assms by (rule sock.run_queue_fifo)

definition example_buffer :: sockbuf where
  "example_buffer = SockBuf_new \<lparr>sb_buf = None, m_size = 0, m_read_index = 0, m_write_index = 0,
     sb_malloc = (\<lambda>_ _. Some (\<lambda>_. 0)), sb_mallocs = 0\<rparr> 4"

lemma example_buffer_ok: "sockbuf_ok example_buffer" "sb_content example_buffer = []"
  "sb_room example_buffer = 1073741819"
proof -
  show "sockbuf_ok example_buffer" "sb_content example_buffer = []"
    unfolding example_buffer_def by (rule SockBuf_new_ok; simp)+
  show "sb_room example_buffer = 1073741819"
    by (simp add: sb_room_def example_buffer_def SockBuf_new_def take_block_def)
qed

lemma socket_buffer_is_fifo_witness:
  "\<exists>outs b'. run_queue push_block pop_block sb_content example_buffer
     [Push [1, 2, 3], Pop 2, Push [4, 5, 6, 7], Pop 9] = Some (outs, b') \<and>
     outs @ sb_content b' = [1, 2, 3, 4, 5, 6, 7]"
  using socket_buffer_is_fifo [OF example_buffer_ok(1), of "[Push [1, 2, 3], Pop 2, Push [4, 5, 6, 7], Pop 9]"]
    example_buffer_ok(2,3) by auto

text \<open>
  Transfers between a socket and a buffer lose nothing: what one read takes from the
  socket is at the end of the buffer, what one write gives to the socket was at its front.
  Neither throws, and neither opens or closes anything.
\<close>

theorem socket_transfers:
  assumes "sockbuf_ok b" "512 \<le> sb_room b"
  shows "(\<exists>r b' w' bs. sockRead b sd w = Some (Inr r, b', w') \<and> sockbuf_ok b' \<and>
      sb_content b' = sb_content b @ bs \<and> arrived w' = (arrived w)(sd := arrived w sd @ bs) \<and>
      (r = 0 \<longleftrightarrow> bs \<noteq> []) \<and> same_system w w') \<and>
    (\<exists>r b' w' bs. sockWrite b sd w = Some (Inr r, b', w') \<and> sockbuf_ok b' \<and>
      sb_content b = bs @ sb_content b' \<and> departed w' = (departed w)(sd := departed w sd @ bs) \<and>
      same_system w w')"
proof (rule conjI)
  obtain r b' w' bs where "sockRead b sd w = Some (Inr r, b', w')" "sockbuf_ok b'"
    "sb_content b' = sb_content b @ bs" "arrived w' = (arrived w)(sd := arrived w sd @ bs)"
    "same_system w w'" "r = 0 \<longleftrightarrow> bs \<noteq> []" using assms by (rule sockRead_ok) blast
  then show "\<exists>r b' w' bs. sockRead b sd w = Some (Inr r, b', w') \<and> sockbuf_ok b' \<and>
      sb_content b' = sb_content b @ bs \<and> arrived w' = (arrived w)(sd := arrived w sd @ bs) \<and>
      (r = 0 \<longleftrightarrow> bs \<noteq> []) \<and> same_system w w'" by blast
next
  obtain r b' w' bs where "sockWrite b sd w = Some (Inr r, b', w')" "sockbuf_ok b'"
    "sb_content b = bs @ sb_content b'" "departed w' = (departed w)(sd := departed w sd @ bs)"
    "same_system w w'" using assms(1) by (rule sockWrite_ok) blast
  then show "\<exists>r b' w' bs. sockWrite b sd w = Some (Inr r, b', w') \<and> sockbuf_ok b' \<and>
      sb_content b = bs @ sb_content b' \<and> departed w' = (departed w)(sd := departed w sd @ bs) \<and>
      same_system w w'" by blast
qed

lemma socket_transfers_witness:
  "\<exists>r b' w'. sockRead example_buffer 3 (example_os [1, 2, 3]) = Some (Inr r, b', w') \<and>
     sb_content b' = arrived w' 3"
proof -
  have "512 \<le> sb_room example_buffer" by (simp add: example_buffer_ok(3))
  from socket_transfers [OF example_buffer_ok(1) this, of 3 "example_os [1, 2, 3]"]
  show ?thesis using example_buffer_ok(2) by (auto simp: example_os_def)
qed

text \<open>
  A packet without room for a blob refuses it and stays well formed, but the two bytes of
  the length have been written: the receiver will take what follows for the blob.
\<close>

theorem blob_refused:
  assumes "writer p" "fits p 2" "\<not> fits p (2 + length bs)" "length bs < 2 ^ 30"
  shows "\<exists>q. WriteBinary p bs (int (length bs)) = Some (False, q) \<and> writer q \<and>
    written q = written p @ enc16 (len16 (length bs))"
  using assms by (rule WriteBinary_partial)

lemma blob_refused_witness:
  "\<exists>q. WriteBinary blank_packet (zeros 16383) (int (length (zeros 16383))) = Some (False, q) \<and>
     length (written q) = 2"
proof -
  have "fits blank_packet 2" "\<not> fits blank_packet (2 + length (zeros 16383))"
    by (simp_all add: fits_def blank_packet_def)
  from blob_refused [OF blank_packet_writer(1) this] show ?thesis
    by (auto simp: blank_packet_writer(2))
qed

end
