(* ===== verification/CmdPool.thy ===== *)
theory CmdPool
  imports Prelude
begin

text \<open>
  The table of console commands of \<open>TestPcNetwork/TestPcNetwork/g_cmdpool.cpp\<close>: a vector to
  which commands are added and in which they are looked up by number or by name.  A lookup
  returns a pointer into the vector, here the index.
\<close>

record SCmd =
  cmd_fun :: nat
  cmd_num :: int
  cmd_str :: string
  cmd_desc :: string

definition AddCmd :: "SCmd list \<Rightarrow> SCmd \<Rightarrow> bool \<times> SCmd list" where
  "AddCmd m_cmdList cmd = (True, m_cmdList @ [cmd])"

text \<open>The loop of both lookups, from index \<open>i\<close> on.\<close>

function find_cmd :: "(SCmd \<Rightarrow> bool) \<Rightarrow> SCmd list \<Rightarrow> nat \<Rightarrow> nat option" where
  "find_cmd p cmds i = (if i < length cmds then if p (cmds ! i) then Some i else find_cmd p cmds (i + 1)
     else None)"
  by pat_completeness auto

termination
  by (relation "measure (\<lambda>(p, cmds, i). length cmds - i)") auto

declare find_cmd.simps [simp del]

definition GetCmdByStr :: "SCmd list \<Rightarrow> string \<Rightarrow> nat option" where
  "GetCmdByStr m_cmdList str = find_cmd (\<lambda>c. cmd_str c = str) m_cmdList 0"

definition GetCmdByNum :: "SCmd list \<Rightarrow> int \<Rightarrow> nat option" where
  "GetCmdByNum m_cmdList num = find_cmd (\<lambda>c. cmd_num c = num) m_cmdList 0"

definition GetCmdCount :: "SCmd list \<Rightarrow> nat" where
  "GetCmdCount m_cmdList = length m_cmdList"

text \<open>The lookups find the command that was added first.\<close>

lemma find_cmd_spec:
  assumes "\<forall>j < i. \<not> p (cmds ! j)" "i \<le> length cmds"
  shows "find_cmd p cmds i = (if \<exists>c \<in> set cmds. p c then Some (LEAST j. j < length cmds \<and> p (cmds ! j)) else None)"
  using assms
proof (induction p cmds i rule: find_cmd.induct)
  case (1 p cmds i)
  consider (found) "i < length cmds" "p (cmds ! i)" | (later) "i < length cmds" "\<not> p (cmds ! i)"
    | (past) "i = length cmds" using "1.prems"(2) by linarith
  then show ?case
  proof cases
    case found
    then have "(LEAST j. j < length cmds \<and> p (cmds ! j)) = i"
      using "1.prems"(1) by (intro Least_equality) (auto intro: leI)
    with found show ?thesis by (subst find_cmd.simps) auto
  next
    case later
    then have "\<forall>j < i + 1. \<not> p (cmds ! j)" using "1.prems"(1) by (auto simp: less_Suc_eq)
    with later "1.IH" show ?thesis by (subst find_cmd.simps) simp
  next
    case past
    with "1.prems"(1) show ?thesis by (subst find_cmd.simps) (auto simp: in_set_conv_nth)
  qed
qed

lemma GetCmdByNum_add:
  "GetCmdByNum (snd (AddCmd cmds c)) n =
     (case GetCmdByNum cmds n of Some i \<Rightarrow> Some i
      | None \<Rightarrow> if cmd_num c = n then Some (GetCmdCount cmds) else None)"
proof (cases "\<exists>d \<in> set cmds. cmd_num d = n")
  case True
  have *: "(LEAST j. j < Suc (length cmds) \<and> cmd_num ((cmds @ [c]) ! j) = n) =
      (LEAST j. j < length cmds \<and> cmd_num (cmds ! j) = n)"
  proof -
    from True obtain k where k: "k < length cmds" "cmd_num (cmds ! k) = n" by (auto simp: in_set_conv_nth)
    let ?P = "\<lambda>j. j < length cmds \<and> cmd_num (cmds ! j) = n"
    have least: "?P (LEAST j. ?P j)" using k by (intro LeastI [of ?P k]) simp
    show ?thesis
      by (rule Least_equality)
        (use least k in \<open>auto simp: nth_append intro: Least_le split: if_splits\<close>)
  qed
  then show ?thesis using True by (simp add: GetCmdByNum_def AddCmd_def find_cmd_spec)
next
  case False
  then have *: "j < length cmds \<Longrightarrow> cmd_num (cmds ! j) \<noteq> n" for j by auto
  have "(LEAST j. j < Suc (length cmds) \<and> cmd_num ((cmds @ [c]) ! j) = n) = length cmds"
    if "cmd_num c = n"
    using that * by (intro Least_equality) (auto simp: nth_append split: if_splits)
  with False show ?thesis by (auto simp: GetCmdByNum_def AddCmd_def find_cmd_spec GetCmdCount_def)
qed

end
