(* ===== verification/PeerService.thy ===== *)
theory PeerService
  imports SockBuf
begin

text \<open>
  The service of \<open>net_select/net_lib/PeerManager.cpp\<close> and \<open>Select_IOService.cpp\<close>: a table of
  peers, each with a socket and two buffers, the list of the peers that are online, and the
  loop that waits for sockets with \<open>select\<close> and serves them.

  The three callbacks belong to the client.  They are parameters, functions that may do to the
  service what they like, since they may call back into it; a delegate that is not set is
  \<open>None\<close>.  Every operation ends in undefined behaviour (a null pointer among others), throws, or
  returns, like those of the buffers.
\<close>

section \<open>Data\<close>

definition MAX_PEER_NUM :: nat where "MAX_PEER_NUM = 1024 * 10"

record peer =
  p_socket :: socket
  local_ip :: "byte list"
  local_port :: c_short
  remote_ip :: "byte list"
  remote_port :: c_short
  serial :: "64 word"
  wsa_send :: bool
  read_buf :: sockbuf
  write_buf :: sockbuf
  write_buf_backup :: sockbuf

record service =
  peer_array :: "peer list"
  s_serial :: "64 word"
  listen_socket :: socket
  online_peer_set :: "nat list"
  read_bak :: "socket list"
  read_use :: "socket list"
  write_bak :: "socket list"
  write_use :: "socket list"
  sv_sys :: os

record callbacks =
  onCon :: "(nat \<Rightarrow> 64 word \<Rightarrow> service \<Rightarrow> (int, service) attempt) option"
  onDis :: "(nat \<Rightarrow> 64 word \<Rightarrow> service \<Rightarrow> (unit, service) attempt) option"
  onRead :: "(nat \<Rightarrow> 64 word \<Rightarrow> service \<Rightarrow> (int, service) attempt) option"

text \<open>
  The sets of \<open>winsock\<close>: an array of at most 64 sockets (\<open>FD_SETSIZE\<close>, which the project does
  not set); a socket that does not fit is dropped.
\<close>

definition FD_SET :: "socket \<Rightarrow> socket list \<Rightarrow> socket list" where
  "FD_SET x fds = (if x \<in> set fds then fds else if length fds < 64 then fds @ [x] else fds)"

definition FD_CLR :: "socket \<Rightarrow> socket list \<Rightarrow> socket list" where
  "FD_CLR x fds = remove1 x fds"

definition FD_ISSET :: "socket \<Rightarrow> socket list \<Rightarrow> bool" where
  "FD_ISSET x fds \<longleftrightarrow> x \<in> set fds"

section \<open>The table of peers\<close>

text \<open>
  A new peer in a piece of memory: three buffers of 100 bytes, no socket.  Addresses are kept as
  the C strings they are.
\<close>

definition peer_new :: "peer \<Rightarrow> peer" where
  "peer_new p =
     p\<lparr>read_buf := SockBuf_new (read_buf p) 100, write_buf := SockBuf_new (write_buf p) 100,
       write_buf_backup := SockBuf_new (write_buf_backup p) 100, wsa_send := False,
       p_socket := INVALID_SOCKET, local_ip := [], local_port := 0, remote_ip := [],
       remote_port := 0, serial := 0\<rparr>"

definition PeerManager_new :: "(nat \<Rightarrow> peer) \<Rightarrow> peer list" where
  "PeerManager_new memory = map (\<lambda>i. peer_new (memory i)) [0..<MAX_PEER_NUM]"

text \<open>The loop of \<open>getFreeIndex\<close>, from index \<open>i\<close> on.\<close>

definition new_peer :: "service \<Rightarrow> nat \<Rightarrow> service" where
  "new_peer s i =
     (let p = (peer_array s ! i)\<lparr>serial := s_serial s\<rparr>;
          p = p\<lparr>read_buf := sb_reset (read_buf p)\<rparr>;
          p = p\<lparr>write_buf := sb_reset (write_buf p)\<rparr>
      in s\<lparr>s_serial := s_serial s + 1, peer_array := (peer_array s)[i := p]\<rparr>)"

function free_index_from :: "service \<Rightarrow> nat \<Rightarrow> 32 word \<times> service" where
  "free_index_from s i =
     (if i < MAX_PEER_NUM
      then if p_socket (peer_array s ! i) \<noteq> - 1 then free_index_from s (i + 1)
           else (of_nat i, new_peer s i)
      else (- 1, s))"
  by pat_completeness auto

termination
  by (relation "measure (\<lambda>(s, i). MAX_PEER_NUM - i)") auto

declare free_index_from.simps [simp del]

definition getFreeIndex :: "service \<Rightarrow> 32 word \<times> service" where
  "getFreeIndex s = free_index_from s 0"

text \<open>A pointer to a peer is its place in the table; \<open>None\<close> is \<open>NULL\<close>.\<close>

definition getPeer :: "service \<Rightarrow> 32 word \<Rightarrow> nat option" where
  "getPeer s index = (if unat index \<ge> MAX_PEER_NUM then None else Some (unat index))"

definition peer_at :: "service \<Rightarrow> nat \<Rightarrow> peer" where
  "peer_at s i = peer_array s ! i"

definition set_peer :: "nat \<Rightarrow> peer \<Rightarrow> service \<Rightarrow> service" where
  "set_peer i p s = s\<lparr>peer_array := (peer_array s)[i := p]\<rparr>"

section \<open>Sockets\<close>

definition CreateSocket :: "service \<Rightarrow> (socket, service) attempt" where
  "CreateSocket s =
     (let (n, w) = next_call (sv_sys s); sock = os_socket w n in
      if sock = INVALID_SOCKET then throws (s\<lparr>sv_sys := w\<rparr>)
      else returns sock (s\<lparr>sv_sys := w\<lparr>opened := sock # opened w\<rparr>\<rparr>))"

definition CloseSocket :: "socket \<Rightarrow> service \<Rightarrow> service" where
  "CloseSocket sock s = s\<lparr>sv_sys := (sv_sys s)\<lparr>closed := sock # closed (sv_sys s)\<rparr>\<rparr>"

text \<open>A call of the system that succeeds or fails.\<close>

definition sv_call :: "service \<Rightarrow> bool \<times> service" where
  "sv_call s = (let (r, w) = system_call (sv_sys s) in (r = Done, s\<lparr>sv_sys := w\<rparr>))"

definition Connect_peer :: "service \<Rightarrow> (socket, service) attempt" where
  "Connect_peer s =
     and_then (CreateSocket s) (\<lambda>sock s.
       let (ok, s) = sv_call s in
       if \<not> ok then returns (- 1) (CloseSocket sock s) else returns sock s)"

section \<open>Operations\<close>

text \<open>The members are constructed first; the table gets 10240 peers.\<close>

definition open_service :: "service \<Rightarrow> int \<times> service" where
  "open_service s =
     (let (r, w) = system_call (sv_sys s) in
      if r \<noteq> Done then (- 1, s\<lparr>sv_sys := w\<rparr>)
      else (0, s\<lparr>sv_sys := w\<lparr>startups := Suc (startups w)\<rparr>\<rparr>))"

definition close_service :: "service \<Rightarrow> int \<times> service" where
  "close_service s = (0, s\<lparr>sv_sys := (sv_sys s)\<lparr>cleanups := Suc (cleanups (sv_sys s))\<rparr>\<rparr>)"

definition SelectIOService_new :: "(nat \<Rightarrow> peer) \<Rightarrow> service \<Rightarrow> service" where
  "SelectIOService_new memory s =
     (let s = s\<lparr>online_peer_set := [], peer_array := PeerManager_new memory\<rparr>;
          s = s\<lparr>listen_socket := INVALID_SOCKET\<rparr>;
          (_, s) = open_service s
      in s\<lparr>read_bak := [], write_bak := [], read_use := [], write_use := []\<rparr>)"

definition listen_service :: "service \<Rightarrow> (unit, service) attempt" where
  "listen_service s =
     (let (n, w) = next_call (sv_sys s); sock = os_socket w n;
          s = s\<lparr>sv_sys := w, listen_socket := sock\<rparr> in
      if sock = INVALID_SOCKET then throws s
      else let (bound, s) = sv_call (s\<lparr>sv_sys := w\<lparr>opened := sock # opened w\<rparr>\<rparr>) in
      if \<not> bound then throws s
      else let (unbuffered, s) = sv_call s in
      if \<not> unbuffered then throws s
      else let (listening, s) = sv_call s in
      if \<not> listening then throws s else returns () s)"

text \<open>The test \<open>p && p->serial != serial || p->socket <= 0\<close> reads the socket of a null pointer.\<close>

definition send_peer :: "service \<Rightarrow> 32 word \<Rightarrow> 64 word \<Rightarrow> byte list \<Rightarrow> 32 word \<Rightarrow> (unit, service) attempt" where
  "send_peer s index ser buf len =
     (case getPeer s index of
        None \<Rightarrow> None
      | Some i \<Rightarrow>
          let p = peer_at s i in
          if serial p \<noteq> ser \<or> p_socket p \<le> 0 then returns () s
          else do {
            (r, b) \<leftarrow> push (write_buf p) buf len;
            let s = set_peer i (p\<lparr>write_buf := b\<rparr>) s;
            case r of
              Inl e \<Rightarrow> Some (Inl e, s)
            | Inr _ \<Rightarrow> returns () (s\<lparr>write_bak := FD_SET (p_socket p) (write_bak s)\<rparr>)
          })"

text \<open>
  The peer is marked as closed first, so the socket that is then closed, and cleared from the
  sets, is \<open>INVALID_SOCKET\<close>.
\<close>

definition drop_peer :: "nat \<Rightarrow> service \<Rightarrow> service" where
  "drop_peer i s =
     (let s = s\<lparr>online_peer_set := remove1 i (online_peer_set s)\<rparr>;
          s = set_peer i ((peer_at s i)\<lparr>p_socket := INVALID_SOCKET\<rparr>) s;
          s = CloseSocket (p_socket (peer_at s i)) s;
          s = s\<lparr>read_bak := FD_CLR (p_socket (peer_at s i)) (read_bak s)\<rparr>
      in s\<lparr>read_use := FD_CLR (p_socket (peer_at s i)) (read_use s)\<rparr>)"

definition closePeer :: "callbacks \<Rightarrow> service \<Rightarrow> 32 word \<Rightarrow> 64 word \<Rightarrow> (unit, service) attempt" where
  "closePeer cb s index ser =
     (case getPeer s index of
        None \<Rightarrow> None
      | Some i \<Rightarrow>
          if serial (peer_at s i) \<noteq> ser \<or> p_socket (peer_at s i) = INVALID_SOCKET then returns () s
          else and_then (case onDis cb of None \<Rightarrow> returns () s | Some f \<Rightarrow> f i ser s)
            (\<lambda>_ s. returns () (drop_peer i s)))"

text \<open>
  The names of the two ends: \<open>getpeername\<close> and \<open>getsockname\<close> are not tested, so a failure leaves
  an address that was never written.
\<close>

definition end_name :: "os \<Rightarrow> ((byte list \<times> c_short) \<times> os) option" where
  "end_name w =
     (let (n, w) = next_call w in
      case os_name w n of
        Some (Some txt, port, _) \<Rightarrow> if length txt < 50 then Some ((txt, port), w) else None
      | _ \<Rightarrow> None)"

definition name_of :: "service \<Rightarrow> ((byte list \<times> c_short) \<times> service) option" where
  "name_of s = map_option (\<lambda>(name, w). (name, s\<lparr>sv_sys := w\<rparr>)) (end_name (sv_sys s))"

definition announce :: "callbacks \<Rightarrow> 32 word \<Rightarrow> nat \<Rightarrow> service \<Rightarrow> (unit, service) attempt" where
  "announce cb index i s =
     and_then (case onCon cb of None \<Rightarrow> returns 0 s | Some f \<Rightarrow> f i (serial (peer_at s i)) s)
       (\<lambda>ret s. if ret < 0 then closePeer cb s index (serial (peer_at s i))
         else returns () (s\<lparr>read_bak := FD_SET (p_socket (peer_at s i)) (read_bak s)\<rparr>))"

definition registerSocket :: "callbacks \<Rightarrow> service \<Rightarrow> socket \<Rightarrow> (unit, service) attempt" where
  "registerSocket cb s sock =
     (let (index, s) = getFreeIndex s in
      case getPeer s index of
        None \<Rightarrow> None
      | Some i \<Rightarrow> do {
          ((rip, rport), s) \<leftarrow> name_of s;
          let s = set_peer i ((peer_at s i)\<lparr>remote_ip := rip, remote_port := rport\<rparr>) s;
          ((lip, lport), s) \<leftarrow> name_of s;
          let s = set_peer i ((peer_at s i)\<lparr>local_ip := lip, local_port := lport, p_socket := sock\<rparr>) s;
          announce cb index i (s\<lparr>online_peer_set := online_peer_set s @ [i]\<rparr>)
        })"

definition connectPeer :: "callbacks \<Rightarrow> service \<Rightarrow> (bool, service) attempt" where
  "connectPeer cb s =
     and_then (Connect_peer s) (\<lambda>sock s.
       if sock = - 1 then returns False s
       else and_then (registerSocket cb s sock) (\<lambda>_ s. returns True s))"

text \<open>\<open>&read_set_\<close> in the first \<open>FD_SET\<close> is the address of the backup set.\<close>

definition initSets :: "service \<Rightarrow> service" where
  "initSets s =
     (let s = s\<lparr>read_use := [], write_use := []\<rparr>;
          s = (if listen_socket s \<noteq> INVALID_SOCKET
               then s\<lparr>read_bak := FD_SET (listen_socket s) (read_bak s)\<rparr> else s)
      in s\<lparr>read_use := read_bak s, write_use := write_bak s\<rparr>)"

text \<open>One socket that may be read: what arrives goes to the client.\<close>

definition after_read :: "callbacks \<Rightarrow> nat \<Rightarrow> int \<Rightarrow> service \<Rightarrow> (bool, service) attempt" where
  "after_read cb i ret s =
     (if ret \<noteq> 0
      then and_then (closePeer cb s (of_nat i) (serial (peer_at s i))) (\<lambda>_ s. returns False s)
      else case onRead cb of
        None \<Rightarrow> None
      | Some f \<Rightarrow> and_then (f i (serial (peer_at s i)) s) (\<lambda>ret s.
          if ret < 0
          then and_then (closePeer cb s (of_nat i) (serial (peer_at s i))) (\<lambda>_ s. returns False s)
          else returns True s))"

definition serve_read :: "callbacks \<Rightarrow> service \<Rightarrow> nat \<Rightarrow> (bool, service) attempt" where
  "serve_read cb s i = do {
     let p = peer_at s i;
     (r, b, w) \<leftarrow> sockRead (read_buf p) (p_socket p) (sv_sys s);
     let s = set_peer i (p\<lparr>read_buf := b\<rparr>) (s\<lparr>sv_sys := w\<rparr>);
     case r of Inl e \<Rightarrow> Some (Inl e, s) | Inr ret \<Rightarrow> after_read cb i ret s
   }"

text \<open>One that may be written: what waits goes out, and the set forgets a socket with nothing left.\<close>

definition after_write :: "callbacks \<Rightarrow> nat \<Rightarrow> int \<Rightarrow> service \<Rightarrow> (unit, service) attempt" where
  "after_write cb i ret s =
     (if ret \<noteq> 0 then closePeer cb s (of_nat i) (serial (peer_at s i))
      else do {
        (r, b) \<leftarrow> readableBytes (write_buf (peer_at s i));
        case r of
          Inl e \<Rightarrow> Some (Inl e, s)
        | Inr n \<Rightarrow>
            if n = 0
            then let sock = p_socket (peer_at s i) in
              returns () (s\<lparr>write_bak := FD_CLR sock (write_bak s), write_use := FD_CLR sock (write_use s)\<rparr>)
            else returns () s
      })"

definition serve_write :: "callbacks \<Rightarrow> service \<Rightarrow> nat \<Rightarrow> (unit, service) attempt" where
  "serve_write cb s i = do {
     let p = peer_at s i;
     (r, b, w) \<leftarrow> sockWrite (write_buf p) (p_socket p) (sv_sys s);
     let s = set_peer i (p\<lparr>write_buf := b\<rparr>) (s\<lparr>sv_sys := w\<rparr>);
     case r of Inl e \<Rightarrow> Some (Inl e, s) | Inr ret \<Rightarrow> after_write cb i ret s
   }"

definition serve_peer :: "callbacks \<Rightarrow> service \<Rightarrow> nat \<Rightarrow> (unit, service) attempt" where
  "serve_peer cb s i =
     and_then (if FD_ISSET (p_socket (peer_at s i)) (read_use s) then serve_read cb s i else returns True s)
       (\<lambda>go_on s.
         if go_on \<and> FD_ISSET (p_socket (peer_at s i)) (write_use s) then serve_write cb s i else returns () s)"

text \<open>The loop over the peers that are online; the list may change under it.\<close>

partial_function (option) serve_loop :: "callbacks \<Rightarrow> service \<Rightarrow> nat \<Rightarrow> (unit, service) attempt" where
  "serve_loop cb s k =
     (if k < length (online_peer_set s)
      then do {
        (r, s) \<leftarrow> (if online_peer_set s ! k < MAX_PEER_NUM then serve_peer cb s (online_peer_set s ! k) else None);
        case r of Inl e \<Rightarrow> Some (Inl e, s) | Inr _ \<Rightarrow> serve_loop cb s (k + 1)
      }
      else returns () s)"

definition accept_peer :: "callbacks \<Rightarrow> service \<Rightarrow> (unit, service) attempt" where
  "accept_peer cb s =
     (if listen_socket s \<noteq> INVALID_SOCKET \<and> FD_ISSET (listen_socket s) (read_use s)
      then let (n, w) = next_call (sv_sys s); sock = os_socket w n; s = s\<lparr>sv_sys := w\<rparr> in
        if sock \<noteq> INVALID_SOCKET
        then registerSocket cb (s\<lparr>sv_sys := w\<lparr>opened := sock # opened w\<rparr>\<rparr>) sock
        else throws s
      else returns () s)"

text \<open>\<open>select\<close> leaves in the sets the sockets that are ready.\<close>

definition eventLoop :: "callbacks \<Rightarrow> service \<Rightarrow> (unit, service) attempt" where
  "eventLoop cb s =
     (let s = initSets s; (n, w) = next_call (sv_sys s); (num, readable, writable) = os_ready w n;
          s = s\<lparr>sv_sys := w, read_use := filter readable (read_use s),
                write_use := filter writable (write_use s)\<rparr> in
      if num > 0 then and_then (accept_peer cb s) (\<lambda>_ s. serve_loop cb s 0)
      else if num = - 1 then throws s
      else returns () s)"

section \<open>The registry\<close>

text \<open>
  The peers with a socket are exactly those on the list, each once, and the list does not leave
  the table.
\<close>

definition registry_ok :: "service \<Rightarrow> bool" where
  "registry_ok s \<longleftrightarrow> length (peer_array s) = MAX_PEER_NUM \<and> distinct (online_peer_set s) \<and>
     (\<forall>i. i \<in> set (online_peer_set s) \<longleftrightarrow> i < MAX_PEER_NUM \<and> p_socket (peer_at s i) \<noteq> - 1)"

text \<open>An attempt that keeps an invariant, whether it returns or throws.\<close>

definition keeps :: "('s \<Rightarrow> bool) \<Rightarrow> ('a, 's) attempt \<Rightarrow> bool" where
  "keeps P m \<longleftrightarrow> (\<forall>r s. m = Some (r, s) \<longrightarrow> P s)"

lemma keeps_simps [simp]:
  "keeps P None" "keeps P (Some (r, s)) \<longleftrightarrow> P s" "keeps P (returns x s) \<longleftrightarrow> P s" "keeps P (throws s) \<longleftrightarrow> P s"
  by (simp_all add: keeps_def returns_def throws_def)

lemma keeps_and_then:
  assumes "keeps P m" "\<And>x s. P s \<Longrightarrow> keeps P (k x s)"
  shows "keeps P (and_then m k)"
  using assms by (auto simp: keeps_def and_then_def split: Option.bind_splits sum.splits prod.splits)

text \<open>An attempt that stays in defined behaviour, and satisfies \<open>Q\<close> if it does not throw.\<close>

definition ends :: "('a \<Rightarrow> 's \<Rightarrow> bool) \<Rightarrow> ('a, 's) attempt \<Rightarrow> bool" where
  "ends Q m \<longleftrightarrow> (\<exists>r s. m = Some (r, s) \<and> (\<forall>x. r = Inr x \<longrightarrow> Q x s))"

lemma ends_simps [simp]: "ends Q (returns x s) \<longleftrightarrow> Q x s" "ends Q (throws s)"
  by (simp_all add: ends_def returns_def throws_def)

lemma ends_and_then:
  assumes "ends Q m" "\<And>x s. Q x s \<Longrightarrow> ends R (k x s)"
  shows "ends R (and_then m k)"
proof -
  obtain r s where m: "m = Some (r, s)" "\<forall>x. r = Inr x \<longrightarrow> Q x s" using assms(1) by (auto simp: ends_def)
  show ?thesis
  proof (cases r)
    case (Inl e)
    then show ?thesis using m by (simp add: and_then_def ends_def)
  next
    case (Inr x)
    then show ?thesis using m assms(2) [of x s] by (simp add: and_then_def)
  qed
qed

lemma ends_weaken: "ends Q m \<Longrightarrow> (\<And>x s. Q x s \<Longrightarrow> R x s) \<Longrightarrow> ends R m"
  by (auto simp: ends_def)

lemma registry_other [simp]:
  "registry_ok (s\<lparr>sv_sys := w\<rparr>) = registry_ok s" "registry_ok (s\<lparr>read_bak := a\<rparr>) = registry_ok s"
  "registry_ok (s\<lparr>read_use := a\<rparr>) = registry_ok s" "registry_ok (s\<lparr>write_bak := a\<rparr>) = registry_ok s"
  "registry_ok (s\<lparr>write_use := a\<rparr>) = registry_ok s" "registry_ok (s\<lparr>listen_socket := x\<rparr>) = registry_ok s"
  "registry_ok (CloseSocket x s) = registry_ok s" "registry_ok (s\<lparr>s_serial := v\<rparr>) = registry_ok s"
  by (simp_all add: registry_ok_def peer_at_def CloseSocket_def)

lemma peer_at_set [simp]:
  "length (peer_array (set_peer i p s)) = length (peer_array s)"
  "i < length (peer_array s) \<Longrightarrow> peer_at (set_peer i p s) j = (if j = i then p else peer_at s j)"
  "online_peer_set (set_peer i p s) = online_peer_set s"
  by (simp_all add: set_peer_def peer_at_def)

lemma peer_at_other [simp]:
  "peer_at (s\<lparr>sv_sys := w\<rparr>) = peer_at s" "peer_at (s\<lparr>read_bak := a\<rparr>) = peer_at s"
  "peer_at (s\<lparr>read_use := a\<rparr>) = peer_at s" "peer_at (s\<lparr>write_bak := a\<rparr>) = peer_at s"
  "peer_at (s\<lparr>write_use := a\<rparr>) = peer_at s" "peer_at (s\<lparr>online_peer_set := l\<rparr>) = peer_at s"
  "peer_at (CloseSocket x s) = peer_at s"
  by (simp_all add: fun_eq_iff peer_at_def CloseSocket_def)

lemma set_peer_outside: "length (peer_array s) \<le> i \<Longrightarrow> set_peer i p s = s"
  by (cases s) (simp add: set_peer_def list_update_beyond)

lemma registry_set_peer:
  assumes "registry_ok s" "p_socket p = p_socket (peer_at s i)"
  shows "registry_ok (set_peer i p s)"
proof (cases "i < length (peer_array s)")
  case True
  with assms show ?thesis by (auto simp: registry_ok_def)
qed (use assms set_peer_outside [of s i p] in simp)

text \<open>A new service has an empty registry.\<close>

lemma SelectIOService_new_registry:
  "registry_ok (SelectIOService_new memory s)"
  "online_peer_set (SelectIOService_new memory s) = []"
  by (simp_all add: SelectIOService_new_def open_service_def Let_def registry_ok_def peer_at_def
      PeerManager_new_def peer_new_def INVALID_SOCKET_def split: prod.split)

lemma sv_call_registry: "sv_call s = (b, s') \<Longrightarrow> registry_ok s' = registry_ok s"
  by (auto simp: sv_call_def split: prod.splits)

lemma listen_service_keeps: "registry_ok s \<Longrightarrow> keeps registry_ok (listen_service s)"
  using sv_call_registry
  by (auto simp: listen_service_def next_call_def Let_def split: prod.split)

lemma send_peer_keeps: "registry_ok s \<Longrightarrow> keeps registry_ok (send_peer s index ser buf len)"
  by (auto simp: send_peer_def keeps_def returns_def Let_def registry_set_peer
      split: option.splits Option.bind_splits sum.splits)

lemma getPeer_some: "getPeer s index = Some i \<longleftrightarrow> unat index = i \<and> i < MAX_PEER_NUM"
  by (auto simp: getPeer_def)

lemma peer_index: "i < MAX_PEER_NUM \<Longrightarrow> unat (of_nat i :: 32 word) = i"
  by (simp add: MAX_PEER_NUM_def unat_of_nat take_bit_eq_mod)

lemma drop_peer_registry:
  assumes "registry_ok s" "i < MAX_PEER_NUM"
  shows "registry_ok (drop_peer i s)"
  using assms
  by (auto simp: drop_peer_def Let_def registry_ok_def set_peer_def peer_at_def CloseSocket_def
      INVALID_SOCKET_def nth_list_update)

text \<open>The first peer without a socket gets the next serial number and empty buffers.\<close>

lemma free_index_from_spec:
  assumes "length (peer_array s) = MAX_PEER_NUM" "i \<le> MAX_PEER_NUM"
    "\<forall>j < i. p_socket (peer_at s j) \<noteq> - 1" "free_index_from s i = (index, s')"
  shows "(\<exists>k < MAX_PEER_NUM. index = of_nat k \<and> p_socket (peer_at s k) = - 1 \<and> s' = new_peer s k) \<or>
    index = - 1 \<and> s' = s \<and> (\<forall>k < MAX_PEER_NUM. p_socket (peer_at s k) \<noteq> - 1)"
  using assms
proof (induction s i rule: free_index_from.induct)
  case (1 s i)
  show ?case
  proof (cases "i < MAX_PEER_NUM \<and> p_socket (peer_array s ! i) \<noteq> - 1")
    case True
    then have "free_index_from s (i + 1) = (index, s')"
      using "1.prems"(4) by (subst (asm) free_index_from.simps) simp
    moreover have "\<forall>j < i + 1. p_socket (peer_at s j) \<noteq> - 1"
      using "1.prems"(3) True by (auto simp: less_Suc_eq peer_at_def)
    ultimately show ?thesis using "1.IH" True "1.prems"(1) by simp
  next
    case False
    then show ?thesis using "1.prems"
      by (subst (asm) free_index_from.simps) (auto simp: peer_at_def split: if_splits)
  qed
qed

lemma new_peer_simps:
  assumes "length (peer_array s) = MAX_PEER_NUM" "k < MAX_PEER_NUM"
  shows "registry_ok (new_peer s k) = registry_ok s" "online_peer_set (new_peer s k) = online_peer_set s"
    "p_socket (peer_at (new_peer s k) j) = p_socket (peer_at s j)"
    "serial (peer_at (new_peer s k) k) = s_serial s"
    "j \<noteq> k \<Longrightarrow> peer_at (new_peer s k) j = peer_at s j"
  using assms by (auto simp: new_peer_def Let_def registry_ok_def peer_at_def nth_list_update)

lemma getFreeIndex_registry:
  assumes "registry_ok s" "getFreeIndex s = (index, s')" "getPeer s' index = Some i"
  shows "i < MAX_PEER_NUM" "p_socket (peer_at s i) = - 1" "s' = new_peer s i" "index = of_nat i"
proof -
  have len: "length (peer_array s) = MAX_PEER_NUM" using assms(1) by (simp add: registry_ok_def)
  from assms(3) have i: "unat index = i" "i < MAX_PEER_NUM" by (simp_all add: getPeer_some)
  have "index \<noteq> - 1" using i by (auto simp: MAX_PEER_NUM_def unsigned_minus_1_eq_mask mask_eq_exp_minus_1)
  with free_index_from_spec [OF len, of 0 index s'] assms(2)
  obtain k where "k < MAX_PEER_NUM" "index = of_nat k" "p_socket (peer_at s k) = - 1" "s' = new_peer s k"
    by (auto simp: getFreeIndex_def)
  with i peer_index [of k] show "i < MAX_PEER_NUM" "p_socket (peer_at s i) = - 1" "s' = new_peer s i"
    "index = of_nat i" by auto
qed

lemma name_of_sys:
  assumes "name_of s = Some (txt, s')"
  obtains w where "s' = s\<lparr>sv_sys := w\<rparr>"
  using assms by (auto simp: name_of_def)

text \<open>
  Closing a peer ends its handle: what is sent or closed with it afterwards changes nothing.  The
  socket itself stays open, and the loop goes on waiting for it.
\<close>

definition quiet_disconnect :: "callbacks \<Rightarrow> bool" where
  "quiet_disconnect cb \<longleftrightarrow> (\<forall>f i ser s. onDis cb = Some f \<longrightarrow> f i ser s = returns () s)"

lemma closePeer_drops:
  assumes "quiet_disconnect cb" "i < MAX_PEER_NUM" "p_socket (peer_at s i) \<noteq> - 1"
  shows "closePeer cb s (of_nat i) (serial (peer_at s i)) = returns () (drop_peer i s)"
proof -
  have "getPeer s (of_nat i) = Some i" using assms(2) by (simp add: getPeer_some peer_index)
  with assms show ?thesis
    by (auto simp: closePeer_def quiet_disconnect_def INVALID_SOCKET_def split: option.split)
qed

lemma drop_peer_simps:
  assumes "length (peer_array s) = MAX_PEER_NUM" "i < MAX_PEER_NUM"
  shows "peer_at (drop_peer i s) j = (if j = i then (peer_at s i)\<lparr>p_socket := - 1\<rparr> else peer_at s j)"
    "online_peer_set (drop_peer i s) = remove1 i (online_peer_set s)"
    "sv_sys (drop_peer i s) = (sv_sys s)\<lparr>closed := INVALID_SOCKET # closed (sv_sys s)\<rparr>"
    "read_bak (drop_peer i s) = remove1 INVALID_SOCKET (read_bak s)"
    "s_serial (drop_peer i s) = s_serial s"
  using assms by (simp_all add: drop_peer_def Let_def set_peer_def peer_at_def CloseSocket_def
      INVALID_SOCKET_def FD_CLR_def nth_list_update)

lemma closed_handle:
  assumes "i < MAX_PEER_NUM" "p_socket (peer_at s i) = - 1"
  shows "send_peer s (of_nat i) ser buf len = returns () s" "closePeer cb s (of_nat i) ser = returns () s"
proof -
  have "getPeer s (of_nat i) = Some i" using assms(1) by (simp add: getPeer_some peer_index)
  with assms(2) show "send_peer s (of_nat i) ser buf len = returns () s"
    "closePeer cb s (of_nat i) ser = returns () s"
    by (simp_all add: send_peer_def closePeer_def INVALID_SOCKET_def Let_def)
qed

section \<open>What the client's callbacks must keep\<close>

text \<open>
  The interface to the client: callbacks that, called on a service whose registry is sound,
  leave it sound.  They may send, close and connect through the service.
\<close>

locale peer_client =
  fixes cb :: callbacks
  assumes con_keeps: "onCon cb = Some f \<Longrightarrow> registry_ok s \<Longrightarrow> keeps registry_ok (f i ser s)"
    and dis_keeps: "onDis cb = Some g \<Longrightarrow> registry_ok s \<Longrightarrow> keeps registry_ok (g i ser s)"
    and read_keeps: "onRead cb = Some h \<Longrightarrow> registry_ok s \<Longrightarrow> keeps registry_ok (h i ser s)"
begin

lemma delegates_keep:
  assumes "registry_ok s"
  shows "keeps registry_ok (case onCon cb of None \<Rightarrow> returns 0 s | Some f \<Rightarrow> f i ser s)"
    "keeps registry_ok (case onDis cb of None \<Rightarrow> returns () s | Some f \<Rightarrow> f i ser s)"
    "keeps registry_ok (case onRead cb of None \<Rightarrow> None | Some f \<Rightarrow> f i ser s)"
  using assms con_keeps dis_keeps read_keeps by (auto split: option.split)

lemma closePeer_keeps:
  assumes "registry_ok s"
  shows "keeps registry_ok (closePeer cb s index ser)"
proof (cases "getPeer s index")
  case (Some i)
  have "i < MAX_PEER_NUM" using Some by (simp add: getPeer_some)
  then have "keeps registry_ok (and_then (case onDis cb of None \<Rightarrow> returns () s | Some f \<Rightarrow> f i ser s)
      (\<lambda>_ s. returns () (drop_peer i s)))"
    by (intro keeps_and_then delegates_keep(2) assms) (simp add: drop_peer_registry)
  with assms Some show ?thesis by (simp add: closePeer_def)
qed (simp add: closePeer_def)

lemma announce_keeps: "registry_ok s \<Longrightarrow> keeps registry_ok (announce cb index i s)"
  unfolding announce_def by (auto intro!: keeps_and_then delegates_keep(1) closePeer_keeps)

lemma registerSocket_keeps:
  assumes "registry_ok s" "sock \<noteq> - 1"
  shows "keeps registry_ok (registerSocket cb s sock)"
proof -
  obtain index s1 where 1: "getFreeIndex s = (index, s1)" by fastforce
  show ?thesis
  proof (cases "getPeer s1 index")
    case None
    then show ?thesis using 1 by (simp add: registerSocket_def)
  next
    case (Some i)
    from getFreeIndex_registry [OF assms(1) 1 Some]
    have i: "i < MAX_PEER_NUM" "p_socket (peer_at s i) = - 1" "s1 = new_peer s i" by simp_all
    have len: "length (peer_array s) = MAX_PEER_NUM" using assms(1) by (simp add: registry_ok_def)
    have s1: "registry_ok s1" "p_socket (peer_at s1 i) = - 1"
      using assms(1) i new_peer_simps [OF len i(1)] by simp_all
    show ?thesis
    proof (cases "name_of s1")
      case None
      then show ?thesis using 1 Some by (simp add: registerSocket_def)
    next
      case n1: (Some a)
      obtain rip rport s2 where a: "a = ((rip, rport), s2)" by (metis surj_pair)
      with n1 obtain w2 where s2: "s2 = s1\<lparr>sv_sys := w2\<rparr>" using name_of_sys by blast
      define s3 where "s3 = set_peer i ((peer_at s2 i)\<lparr>remote_ip := rip, remote_port := rport\<rparr>) s2"
      have "length (peer_array s2) = MAX_PEER_NUM" using s1(1) by (simp add: s2 registry_ok_def)
      then have s3: "registry_ok s3" "p_socket (peer_at s3 i) = - 1"
        using s1 i(1) registry_set_peer [of s2 _ i] by (simp_all add: s3_def s2)
      show ?thesis
      proof (cases "name_of s3")
        case None
        then show ?thesis using 1 Some n1 a by (simp add: registerSocket_def s3_def [symmetric])
      next
        case n3: (Some b)
        obtain lip lport s4 where b: "b = ((lip, lport), s4)" by (metis surj_pair)
        with n3 obtain w4 where s4: "s4 = s3\<lparr>sv_sys := w4\<rparr>" using name_of_sys by blast
        define s5 where "s5 = set_peer i ((peer_at s4 i)\<lparr>local_ip := lip, local_port := lport, p_socket := sock\<rparr>) s4"
        define s6 where "s6 = s5\<lparr>online_peer_set := online_peer_set s4 @ [i]\<rparr>"
        have "registry_ok s6"
          using s3 i(1) assms(2)
          by (auto simp: s6_def s5_def s4 registry_ok_def peer_at_def set_peer_def nth_list_update)
        moreover have "registerSocket cb s sock = announce cb index i s6"
          using 1 Some n1 a n3 b
          by (simp add: registerSocket_def s3_def [symmetric] s5_def [symmetric] s6_def [symmetric])
        ultimately show ?thesis by (simp add: announce_keeps)
      qed
    qed
  qed
qed

lemma connectPeer_keeps:
  assumes "registry_ok s"
  shows "keeps registry_ok (connectPeer cb s)"
proof -
  have "keeps registry_ok (Connect_peer s)"
    unfolding Connect_peer_def
    by (rule keeps_and_then)
      (use assms in \<open>auto simp: CreateSocket_def next_call_def sv_call_def Let_def split: prod.splits\<close>)
  then show ?thesis
    unfolding connectPeer_def
    by (rule keeps_and_then) (auto intro!: keeps_and_then registerSocket_keeps)
qed

lemma after_read_keeps: "registry_ok s \<Longrightarrow> keeps registry_ok (after_read cb i ret s)"
  unfolding after_read_def
  by (auto split: option.split intro!: keeps_and_then closePeer_keeps intro: read_keeps)

lemma after_write_keeps: "registry_ok s \<Longrightarrow> keeps registry_ok (after_write cb i ret s)"
  using closePeer_keeps [of s]
  by (auto simp: after_write_def Let_def readableBytes_def returns_def throws_def)

lemma serve_read_keeps:
  assumes "registry_ok s" "i < MAX_PEER_NUM"
  shows "keeps registry_ok (serve_read cb s i)"
proof (cases "sockRead (read_buf (peer_at s i)) (p_socket (peer_at s i)) (sv_sys s)")
  case (Some a)
  then obtain r b w where a: "a = (r, b, w)" by (metis surj_pair)
  have "registry_ok (set_peer i ((peer_at s i)\<lparr>read_buf := b\<rparr>) (s\<lparr>sv_sys := w\<rparr>))"
    using assms by (intro registry_set_peer) simp_all
  with Some a show ?thesis by (simp add: serve_read_def Let_def after_read_keeps split: sum.split)
qed (simp add: serve_read_def Let_def)

lemma serve_write_keeps:
  assumes "registry_ok s" "i < MAX_PEER_NUM"
  shows "keeps registry_ok (serve_write cb s i)"
proof (cases "sockWrite (write_buf (peer_at s i)) (p_socket (peer_at s i)) (sv_sys s)")
  case (Some a)
  then obtain r b w where a: "a = (r, b, w)" by (metis surj_pair)
  have "registry_ok (set_peer i ((peer_at s i)\<lparr>write_buf := b\<rparr>) (s\<lparr>sv_sys := w\<rparr>))"
    using assms by (intro registry_set_peer) simp_all
  with Some a show ?thesis by (simp add: serve_write_def Let_def after_write_keeps split: sum.split)
qed (simp add: serve_write_def Let_def)

lemma serve_peer_keeps:
  "registry_ok s \<Longrightarrow> i < MAX_PEER_NUM \<Longrightarrow> keeps registry_ok (serve_peer cb s i)"
  unfolding serve_peer_def
  by (intro keeps_and_then) (auto intro: serve_read_keeps serve_write_keeps)

lemma serve_loop_registry:
  assumes "serve_loop cb s k = Some y" "registry_ok s"
  shows "registry_ok (snd y)"
proof -
  have "c = cb \<longrightarrow> registry_ok s \<longrightarrow> registry_ok (snd y)" if "serve_loop c s k = Some y" for c s k y
    using that
  proof (rule serve_loop.raw_induct [rotated])
    fix loop c s k y
    assume IH: "\<And>c s k y. loop c s k = Some y \<Longrightarrow> c = cb \<longrightarrow> registry_ok s \<longrightarrow> registry_ok (snd y)"
      and body: "(if k < length (online_peer_set s)
        then do {
          (r, s) \<leftarrow> (if online_peer_set s ! k < MAX_PEER_NUM then serve_peer c s (online_peer_set s ! k) else None);
          case r of Inl e \<Rightarrow> Some (Inl e, s) | Inr _ \<Rightarrow> loop c s (k + 1)
        }
        else returns () s) = Some y"
    show "c = cb \<longrightarrow> registry_ok s \<longrightarrow> registry_ok (snd y)"
    proof (intro impI)
      assume "c = cb" "registry_ok s"
      show "registry_ok (snd y)"
      proof (cases "k < length (online_peer_set s)")
        case True
        with body obtain r t where "online_peer_set s ! k < MAX_PEER_NUM"
          and t: "serve_peer cb s (online_peer_set s ! k) = Some (r, t)"
          and y: "(case r of Inl e \<Rightarrow> Some (Inl e, t) | Inr _ \<Rightarrow> loop cb t (k + 1)) = Some y"
          using \<open>c = cb\<close> by (auto split: if_splits Option.bind_splits)
        then have "registry_ok t"
          using serve_peer_keeps [OF \<open>registry_ok s\<close>] by (auto simp: keeps_def)
        with y IH show ?thesis by (auto split: sum.splits)
      next
        case False
        with body \<open>registry_ok s\<close> show ?thesis by (auto simp: returns_def)
      qed
    qed
  qed
  with assms show ?thesis by simp
qed

lemma accept_peer_keeps: "registry_ok s \<Longrightarrow> keeps registry_ok (accept_peer cb s)"
  by (auto simp: accept_peer_def next_call_def Let_def INVALID_SOCKET_def intro!: registerSocket_keeps)

lemma initSets_registry: "registry_ok (initSets s) = registry_ok s"
  by (simp add: initSets_def Let_def)

lemma eventLoop_keeps:
  assumes "registry_ok s"
  shows "keeps registry_ok (eventLoop cb s)"
proof -
  have loop: "keeps registry_ok (serve_loop cb s k)" if "registry_ok s" for s k
    using serve_loop_registry that by (auto simp: keeps_def)
  show ?thesis
    using assms initSets_registry [of s]
    by (auto simp: eventLoop_def next_call_def Let_def split: prod.split
        intro!: keeps_and_then accept_peer_keeps loop)
qed

end

section \<open>Histories\<close>

text \<open>
  The states a service can be in: after its construction, and after any operation that the client
  calls from outside the loop, whether it returned or threw.
\<close>

inductive served :: "callbacks \<Rightarrow> service \<Rightarrow> bool" for cb :: callbacks where
  start: "served cb (SelectIOService_new memory s)"
| listens: "served cb s \<Longrightarrow> listen_service s = Some (r, t) \<Longrightarrow> served cb t"
| connects: "served cb s \<Longrightarrow> connectPeer cb s = Some (c, t) \<Longrightarrow> served cb t"
| sends: "served cb s \<Longrightarrow> send_peer s index ser buf len = Some (r, t) \<Longrightarrow> served cb t"
| closes: "served cb s \<Longrightarrow> closePeer cb s index ser = Some (r, t) \<Longrightarrow> served cb t"
| rounds: "served cb s \<Longrightarrow> eventLoop cb s = Some (r, t) \<Longrightarrow> served cb t"

lemma served_registry:
  assumes "peer_client cb" "served cb s"
  shows "registry_ok s"
  using assms(2)
proof induction
  case (start memory s)
  show ?case by (rule SelectIOService_new_registry)
next
  case (listens s r t)
  then show ?case using listen_service_keeps [of s] by (simp add: keeps_def)
next
  case (connects s c t)
  then show ?case using peer_client.connectPeer_keeps [OF assms(1)] by (auto simp: keeps_def)
next
  case (sends s index ser buf len r t)
  then show ?case using send_peer_keeps by (auto simp: keeps_def)
next
  case (closes s index ser r t)
  then show ?case using peer_client.closePeer_keeps [OF assms(1)] by (auto simp: keeps_def)
next
  case (rounds s r t)
  then show ?case using peer_client.eventLoop_keeps [OF assms(1)] by (auto simp: keeps_def)
qed

end
