(* ===== verification/EchoServer.thy ===== *)
theory EchoServer
  imports PeerService
begin

text \<open>
  The echo server \<open>net_select/net_select/main.cpp\<close>, a client of the service: a message is a
  header of four bytes, the length of its body, and the body; the server prints every whole
  message and sends it back.  Its callbacks keep the contract of \<open>peer_client\<close>; and over every
  run of the loop each client gets back exactly what it has sent, by whole messages.
\<close>

section \<open>The code\<close>

definition MSGHEADERLEN :: "32 word" where "MSGHEADERLEN = 4"

text \<open>A call of a method of the buffer that the callback is handed, the read buffer of peer \<open>i\<close>.\<close>

definition on_read_buf ::
    "nat \<Rightarrow> (sockbuf \<Rightarrow> ('a, sockbuf) attempt) \<Rightarrow> service \<Rightarrow> ('a, service) attempt" where
  "on_read_buf i f s = do {
     (r, b) \<leftarrow> f (read_buf (peer_at s i));
     Some (r, set_peer i ((peer_at s i)\<lparr>read_buf := b\<rparr>) s)
   }"

definition net_onCon :: "nat \<Rightarrow> 64 word \<Rightarrow> service \<Rightarrow> (int, service) attempt" where
  "net_onCon index ser s = returns 0 s"

definition net_onDisCon :: "nat \<Rightarrow> 64 word \<Rightarrow> service \<Rightarrow> (unit, service) attempt" where
  "net_onDisCon index ser s = returns () s"

text \<open>
  The length in the header is signed.  A negative one that passes the comparison with the bytes
  there are is at least -4; as the length of a \<open>std::string\<close> it is beyond every block, and the
  constructor throws.
\<close>

definition echo_message :: "nat \<Rightarrow> 64 word \<Rightarrow> 32 word \<Rightarrow> service \<Rightarrow> (int, service) attempt" where
  "echo_message index ser len s =
     and_then (on_read_buf index (\<lambda>b. pop b (len + MSGHEADERLEN)) s) (\<lambda>total_msg s.
       if sint len < 0 then throws s
       else and_then (send_peer s (of_nat index) ser total_msg (MSGHEADERLEN + len)) (\<lambda>_ s. returns 0 s))"

definition net_onRead :: "nat \<Rightarrow> 64 word \<Rightarrow> service \<Rightarrow> (int, service) attempt" where
  "net_onRead index ser s =
     and_then (on_read_buf index readableBytes s) (\<lambda>len s.
       if len \<le> MSGHEADERLEN then returns 0 s
       else and_then (on_read_buf index (\<lambda>b. peek b MSGHEADERLEN) s) (\<lambda>header s.
         let msg_len = dec32 header; total_msg_len = MSGHEADERLEN + msg_len in
         if len < total_msg_len then returns 0 s
         else echo_message index ser msg_len s))"

definition net_event :: callbacks where
  "net_event = \<lparr>onCon = Some net_onCon, onDis = Some net_onDisCon, onRead = Some net_onRead\<rparr>"

text \<open>The loop of \<open>main\<close>, \<open>n\<close> rounds of it.\<close>

fun serve_rounds :: "callbacks \<Rightarrow> nat \<Rightarrow> service \<Rightarrow> (unit, service) attempt" where
  "serve_rounds cb 0 s = returns () s"
| "serve_rounds cb (Suc n) s = and_then (eventLoop cb s) (\<lambda>_ s. serve_rounds cb n s)"

section \<open>The contract of the service\<close>

lemma on_read_buf_keeps: "registry_ok s \<Longrightarrow> keeps registry_ok (on_read_buf i f s)"
  by (auto simp: on_read_buf_def keeps_def registry_set_peer split: Option.bind_splits)

lemma net_onRead_keeps: "registry_ok s \<Longrightarrow> keeps registry_ok (net_onRead i ser s)"
  unfolding net_onRead_def echo_message_def Let_def
  by (auto intro!: keeps_and_then on_read_buf_keeps send_peer_keeps)

interpretation echo: peer_client net_event
  by unfold_locales (auto simp: net_event_def net_onCon_def net_onDisCon_def net_onRead_keeps)

lemma serve_rounds_keeps:
  assumes "peer_client cb"
  shows "registry_ok s \<Longrightarrow> keeps registry_ok (serve_rounds cb n s)"
  by (induction n arbitrary: s) (auto intro!: keeps_and_then peer_client.eventLoop_keeps [OF assms])

section \<open>What has been echoed\<close>

text \<open>
  What the theorems rely on.  Of the system: its sockets are positive and handed out once (the
  service never closes one), and \<open>getpeername\<close> and \<open>getsockname\<close> answer.  And of the run: in all
  of it less than \<open>2 ^ 28\<close> bytes arrive.  The second is no behaviour of the system but a limit on
  the runs the theorems speak of: the buffers count with 32 bits and never shrink.
\<close>

definition sound_system :: "os \<Rightarrow> bool" where
  "sound_system w \<longleftrightarrow>
     (\<forall>n. os_socket w n > 0 \<or> os_socket w n = - 1) \<and>
     (\<forall>m n. os_socket w m = os_socket w n \<longrightarrow> os_socket w m \<noteq> - 1 \<longrightarrow> m = n) \<and>
     (\<forall>n. \<exists>txt port ip. os_name w n = Some (Some txt, port, ip) \<and> length txt < 50)"

definition light_traffic :: "os \<Rightarrow> bool" where
  "light_traffic w \<longleftrightarrow> (\<forall>n. (\<Sum>m<n. offered w m) < 2 ^ 28)"

definition benign :: "os \<Rightarrow> bool" where
  "benign w \<longleftrightarrow> light_traffic w \<and> sound_system w"

lemmas benign_defs = benign_def light_traffic_def sound_system_def

definition echo_msg :: "byte list \<Rightarrow> byte list" where
  "echo_msg body = enc32 (of_nat (length body)) @ body"

text \<open>
  Of what a client has sent, a part has been sent back, a part waits to be sent back, both
  together whole messages, and the rest waits to be read.
\<close>

definition echoed :: "os \<Rightarrow> peer \<Rightarrow> bool" where
  "echoed w p \<longleftrightarrow> (\<exists>msgs. departed w (p_socket p) @ sb_content (write_buf p) = concat (map echo_msg msgs)) \<and>
     arrived w (p_socket p) = departed w (p_socket p) @ sb_content (write_buf p) @ sb_content (read_buf p)"

definition peer_sound :: "peer \<Rightarrow> bool" where
  "peer_sound p \<longleftrightarrow> sockbuf_ok (read_buf p) \<and> unat (m_size (read_buf p)) \<le> 2 ^ 29 + 2048 \<and>
     sockbuf_ok (write_buf p) \<and> unat (m_size (write_buf p)) \<le> 2 ^ 29 + 2048"

definition traffic_ok :: "os \<Rightarrow> bool" where
  "traffic_ok w \<longleftrightarrow> (\<forall>sd. length (arrived w sd) \<le> (\<Sum>m<calls w. offered w m)) \<and>
     (\<forall>sd. \<not> known_socket w sd \<longrightarrow> arrived w sd = [] \<and> departed w sd = [])"

definition echo_inv :: "service \<Rightarrow> bool" where
  "echo_inv s \<longleftrightarrow> registry_ok s \<and> benign (sv_sys s) \<and> traffic_ok (sv_sys s) \<and>
     (\<forall>i < MAX_PEER_NUM. peer_sound (peer_at s i)) \<and>
     (\<forall>i \<in> set (online_peer_set s). echoed (sv_sys s) (peer_at s i) \<and> known_socket (sv_sys s) (p_socket (peer_at s i))) \<and>
     inj_on (\<lambda>i. p_socket (peer_at s i)) (set (online_peer_set s))"

lemma later_os_benign: "later_os w w' \<Longrightarrow> benign w' = benign w"
  using later_os_offered [of w w'] by (simp add: benign_defs later_os_def)

lemma later_os_heard: "later_os w w' \<Longrightarrow> (\<Sum>m<calls w. offered w m) \<le> (\<Sum>m<calls w'. offered w' m)"
  by (simp only: later_os_offered) (rule sum_mono2; auto simp: later_os_def)

text \<open>The invariant after a step that touches peer \<open>i\<close> and the traffic of its socket.\<close>

lemma echo_inv_step:
  assumes inv: "echo_inv s" and i: "i \<in> set (online_peer_set s)"
    and p: "p_socket p = p_socket (peer_at s i)" "echoed w p" "peer_sound p"
    and w: "later_os (sv_sys s) w"
      "\<forall>sd. sd \<noteq> p_socket p \<longrightarrow> arrived w sd = arrived (sv_sys s) sd \<and> departed w sd = departed (sv_sys s) sd"
      "length (arrived w (p_socket p)) \<le> (\<Sum>m<calls w. offered w m)"
  shows "echo_inv (set_peer i p (s\<lparr>sv_sys := w\<rparr>))"
proof -
  have reg: "registry_ok s" using inv by (simp add: echo_inv_def)
  then have len: "length (peer_array s) = MAX_PEER_NUM" "i < MAX_PEER_NUM"
    using i by (simp_all add: registry_ok_def)
  let ?t = "set_peer i p (s\<lparr>sv_sys := w\<rparr>)"
  have at: "peer_at ?t j = (if j = i then p else peer_at s j)" for j using len by simp
  have same: "sv_sys ?t = w" "online_peer_set ?t = online_peer_set s" by (simp_all add: set_peer_def)
  have sock: "p_socket (peer_at ?t j) = p_socket (peer_at s j)" for j using p(1) by (simp add: at)
  have "registry_ok ?t" using reg p(1) by (intro registry_set_peer) simp_all
  moreover have "benign w" using inv later_os_benign [OF w(1)] by (simp add: echo_inv_def)
  moreover have "traffic_ok w"
  proof -
    have "length (arrived w sd) \<le> (\<Sum>m<calls w. offered w m)" for sd
    proof (cases "sd = p_socket p")
      case False
      with w(2) inv have "length (arrived w sd) \<le> (\<Sum>m<calls (sv_sys s). offered (sv_sys s) m)"
        by (simp add: echo_inv_def traffic_ok_def)
      then show ?thesis using later_os_heard [OF w(1)] by linarith
    qed (use w(3) in simp)
    moreover have "arrived w sd = [] \<and> departed w sd = []" if "\<not> known_socket w sd" for sd
    proof -
      have "sd \<noteq> p_socket p" using that later_os_known [OF w(1)] inv i p(1) by (auto simp: echo_inv_def)
      then show ?thesis using that w(2) later_os_known [OF w(1)] inv by (auto simp: echo_inv_def traffic_ok_def)
    qed
    ultimately show ?thesis by (simp add: traffic_ok_def)
  qed
  moreover have "\<forall>j < MAX_PEER_NUM. peer_sound (peer_at ?t j)"
    using inv p(3) by (simp add: at echo_inv_def)
  moreover have "echoed w (peer_at ?t j) \<and> known_socket w (p_socket (peer_at ?t j))"
    if "j \<in> set (online_peer_set s)" for j
  proof (cases "j = i")
    case True
    then show ?thesis using p inv i later_os_known [OF w(1)] by (auto simp: at echo_inv_def)
  next
    case False
    then have "p_socket (peer_at s j) \<noteq> p_socket p"
      using inv i that p(1) by (auto simp: echo_inv_def inj_on_def)
    then show ?thesis using False inv that later_os_known [OF w(1)] w(2)
      by (auto simp: at echo_inv_def echoed_def)
  qed
  moreover have "inj_on (\<lambda>i. p_socket (peer_at ?t i)) (set (online_peer_set s))"
    using inv by (simp only: sock echo_inv_def)
  ultimately show ?thesis by (simp add: echo_inv_def same)
qed

lemma echo_inv_peer:
  assumes "echo_inv s" "i \<in> set (online_peer_set s)" "p_socket p = p_socket (peer_at s i)"
    "echoed (sv_sys s) p" "peer_sound p"
  shows "echo_inv (set_peer i p s)"
  using echo_inv_step [of s i p "sv_sys s"] assms by (simp add: echo_inv_def traffic_ok_def)

lemma echo_inv_other [simp]:
  "echo_inv (s\<lparr>read_bak := a\<rparr>) = echo_inv s" "echo_inv (s\<lparr>read_use := a\<rparr>) = echo_inv s"
  "echo_inv (s\<lparr>write_bak := a\<rparr>) = echo_inv s" "echo_inv (s\<lparr>write_use := a\<rparr>) = echo_inv s"
  "echo_inv (s\<lparr>listen_socket := x\<rparr>) = echo_inv s"
  by (simp_all add: echo_inv_def peer_at_def)

text \<open>A call that transfers nothing.\<close>

lemma echo_inv_sys:
  assumes inv: "echo_inv s" and w: "later_os (sv_sys s) w" "arrived w = arrived (sv_sys s)"
    "departed w = departed (sv_sys s)"
  shows "echo_inv (s\<lparr>sv_sys := w\<rparr>)"
proof -
  have "traffic_ok w"
    using inv w later_os_heard [OF w(1)] later_os_known [OF w(1)]
    by (auto simp: echo_inv_def traffic_ok_def intro: le_trans)
  moreover have "benign w" using inv later_os_benign [OF w(1)] by (simp add: echo_inv_def)
  ultimately show ?thesis
    using inv w later_os_known [OF w(1)] by (auto simp: echo_inv_def echoed_def)
qed

lemma echo_inv_drop:
  assumes "echo_inv s" "i < MAX_PEER_NUM"
  shows "echo_inv (drop_peer i s)"
proof -
  have reg: "registry_ok s" using assms(1) by (simp add: echo_inv_def)
  then have len: "length (peer_array s) = MAX_PEER_NUM" "distinct (online_peer_set s)"
    by (simp_all add: registry_ok_def)
  note simps = drop_peer_simps [OF len(1) assms(2)]
  have known: "known_socket (w\<lparr>closed := xs\<rparr>) = known_socket w" "benign (w\<lparr>closed := xs\<rparr>) = benign w"
    "traffic_ok (w\<lparr>closed := xs\<rparr>) = traffic_ok w" "echoed (w\<lparr>closed := xs\<rparr>) p = echoed w p" for w xs p
    by (simp_all add: known_socket_def benign_defs traffic_ok_def echoed_def offered_def fun_eq_iff)
  have "peer_sound (peer_at (drop_peer i s) j)" if "j < MAX_PEER_NUM" for j
    using assms that by (simp add: simps(1) echo_inv_def peer_sound_def)
  then show ?thesis
    using assms drop_peer_registry [OF reg assms(2)] len(2)
    by (auto simp: echo_inv_def simps known inj_on_def)
qed

text \<open>A loop over the peers that are online lets the list shrink, not grow.\<close>

definition kept :: "service \<Rightarrow> service \<Rightarrow> bool" where
  "kept s t \<longleftrightarrow> echo_inv t \<and> length (online_peer_set t) \<le> length (online_peer_set s)"

lemma kept_trans: "kept s t \<Longrightarrow> kept t u \<Longrightarrow> kept s u"
  by (auto simp: kept_def)

lemma kept_refl: "echo_inv s \<Longrightarrow> kept s s"
  by (simp add: kept_def)

lemma quiet_net_event: "quiet_disconnect net_event"
  by (simp add: quiet_disconnect_def net_event_def net_onDisCon_def)

lemma close_kept:
  assumes "echo_inv s" "i \<in> set (online_peer_set s)"
  shows "ends (\<lambda>_ t. kept s t) (closePeer net_event s (of_nat i) (serial (peer_at s i)))"
proof -
  have "registry_ok s" using assms(1) by (simp add: echo_inv_def)
  then have i: "length (peer_array s) = MAX_PEER_NUM" "i < MAX_PEER_NUM" "p_socket (peer_at s i) \<noteq> - 1"
    using assms(2) by (simp_all add: registry_ok_def)
  then show ?thesis
    using closePeer_drops [OF quiet_net_event i(2,3)] echo_inv_drop [OF assms(1) i(2)]
    by (simp add: kept_def drop_peer_simps length_remove1)
qed

section \<open>One message\<close>

text \<open>What the invariant says of a peer that is online.\<close>

lemma echo_inv_online:
  assumes "echo_inv s" "i \<in> set (online_peer_set s)"
  shows "i < MAX_PEER_NUM" "p_socket (peer_at s i) > 0" "peer_sound (peer_at s i)"
    "echoed (sv_sys s) (peer_at s i)" "length (arrived (sv_sys s) sd) < 2 ^ 28"
    "length (peer_array s) = MAX_PEER_NUM"
proof -
  have inv: "registry_ok s" "benign (sv_sys s)" "traffic_ok (sv_sys s)" "known_socket (sv_sys s) (p_socket (peer_at s i))"
    using assms by (simp_all add: echo_inv_def)
  then show i: "i < MAX_PEER_NUM" "length (peer_array s) = MAX_PEER_NUM"
    using assms(2) by (simp_all add: registry_ok_def)
  have "p_socket (peer_at s i) \<noteq> - 1" using inv(1) assms(2) by (simp add: registry_ok_def)
  with inv(2,4) show "p_socket (peer_at s i) > 0" unfolding benign_defs known_socket_def by metis
  show "peer_sound (peer_at s i)" "echoed (sv_sys s) (peer_at s i)"
    using assms i by (simp_all add: echo_inv_def)
  have "(\<Sum>m<calls (sv_sys s). offered (sv_sys s) m) < 2 ^ 28" using inv(2) unfolding benign_defs by blast
  moreover have "length (arrived (sv_sys s) sd) \<le> (\<Sum>m<calls (sv_sys s). offered (sv_sys s) m)"
    using inv(3) by (simp add: traffic_ok_def)
  ultimately show "length (arrived (sv_sys s) sd) < 2 ^ 28" by linarith
qed

lemma set_peer_same [simp]: "set_peer i (peer_at s i) s = s"
  by (cases s) (simp add: set_peer_def peer_at_def)

lemma set_peer_twice [simp]: "set_peer i q (set_peer i p s) = set_peer i q s"
  by (simp add: set_peer_def)

text \<open>A block that fits goes behind what waits to be sent.\<close>

lemma send_peer_online:
  assumes "i < MAX_PEER_NUM" "p_socket (peer_at s i) > 0" "sockbuf_ok (write_buf (peer_at s i))"
    "length xs \<le> sb_room (write_buf (peer_at s i))"
  obtains b where "send_peer s (of_nat i) (serial (peer_at s i)) xs (of_nat (length xs)) =
      returns () ((set_peer i ((peer_at s i)\<lparr>write_buf := b\<rparr>) s)
        \<lparr>write_bak := FD_SET (p_socket (peer_at s i)) (write_bak s)\<rparr>)"
    "sockbuf_ok b" "sb_content b = sb_content (write_buf (peer_at s i)) @ xs"
    "unat (m_size b) \<le> max (unat (m_size (write_buf (peer_at s i))))
       (length (sb_content (write_buf (peer_at s i))) + 2 * length xs)"
proof -
  obtain b where b: "push (write_buf (peer_at s i)) xs (of_nat (length xs)) = returns () b"
    "sockbuf_ok b" "sb_content b = sb_content (write_buf (peer_at s i)) @ xs"
    "unat (m_size b) \<le> max (unat (m_size (write_buf (peer_at s i))))
       (length (sb_content (write_buf (peer_at s i))) + 2 * length xs)"
    using assms(3,4) by (rule push_ok)
  moreover have "getPeer s (of_nat i) = Some i" using assms(1) by (simp add: getPeer_some peer_index)
  ultimately show ?thesis using assms(2) that [of b]
    by (simp add: send_peer_def Let_def returns_def set_peer_def)
qed

lemma echo_msg_of:
  assumes "4 \<le> length xs" "unat (dec32 (take 4 xs)) = length xs - 4"
  shows "xs = echo_msg (drop 4 xs)"
proof -
  have "enc32 (of_nat (length (drop 4 xs))) = take 4 xs"
    using assms(1) enc32_dec32 [of "take 4 xs"] by (simp flip: assms(2))
  then show ?thesis by (simp add: echo_msg_def)
qed

text \<open>A whole message moves from the read buffer to the write buffer.\<close>

lemma echo_message_moves:
  assumes inv: "echo_inv s" and i: "i \<in> set (online_peer_set s)"
    and len: "len = dec32 (take 4 (sb_content (read_buf (peer_at s i))))"
      "4 < length (sb_content (read_buf (peer_at s i)))"
      "unat (4 + len) \<le> length (sb_content (read_buf (peer_at s i)))"
    and nonneg: "\<not> sint len < 0"
  obtains t where "echo_message i (serial (peer_at s i)) len s = returns 0 t" "echo_inv t"
    "online_peer_set t = online_peer_set s" "sv_sys t = sv_sys s"
    "sb_content (read_buf (peer_at t i)) = drop (4 + unat len) (sb_content (read_buf (peer_at s i)))"
    "sb_content (write_buf (peer_at t i)) =
       sb_content (write_buf (peer_at s i)) @ take (4 + unat len) (sb_content (read_buf (peer_at s i)))"
    "write_bak t = FD_SET (p_socket (peer_at s i)) (write_bak s)"
proof -
  define p where "p = peer_at s i"
  define rest where "rest = sb_content (read_buf p)"
  note online = echo_inv_online [OF inv i, folded p_def]
  from online(3) have sound: "sockbuf_ok (read_buf p)" "sockbuf_ok (write_buf p)"
    "unat (m_size (read_buf p)) \<le> 2 ^ 29 + 2048" "unat (m_size (write_buf p)) \<le> 2 ^ 29 + 2048"
    by (simp_all add: peer_sound_def)
  define xs where "xs = take (unat (4 + len)) rest"
  obtain b where b: "pop (read_buf p) (4 + len) = returns xs b" "sockbuf_ok b"
    "sb_content b = drop (unat (4 + len)) rest" "sb_room b = sb_room (read_buf p)"
    using pop_ok [OF sound(1), of "4 + len"] len(3) unfolding xs_def rest_def p_def by blast
  define s1 where "s1 = set_peer i (p\<lparr>read_buf := b\<rparr>) s"
  have pop: "on_read_buf i (\<lambda>b. pop b (len + MSGHEADERLEN)) s = returns xs s1"
    using b(1) by (simp add: on_read_buf_def MSGHEADERLEN_def add.commute p_def s1_def returns_def)
  from nonneg have total: "unat (4 + len) = 4 + unat len"
    using unat_nonneg [of len] by (subst unat_add_lem [THEN iffD1]) simp_all
  have rest: "len = dec32 (take 4 rest)" "4 + unat len \<le> length rest"
    using len total by (simp_all add: rest_def p_def)
  have "take 4 xs = take 4 rest" "length xs = 4 + unat len"
    using rest(2) by (simp_all add: xs_def total min_absorb1)
  with rest(1) have xs: "length xs = 4 + unat len" "(of_nat (length xs) :: 32 word) = 4 + len"
    "xs = echo_msg (drop 4 xs)"
    using echo_msg_of [of xs] by simp_all
  have arr: "arrived (sv_sys s) (p_socket p) = departed (sv_sys s) (p_socket p) @ sb_content (write_buf p) @ rest"
    using online(4) by (simp add: echoed_def rest_def)
  then have bound: "length (sb_content (write_buf p)) + length rest < 2 ^ 28"
    using online(5) [of "p_socket p"] by simp
  have s1: "peer_at s1 i = p\<lparr>read_buf := b\<rparr>" "sv_sys s1 = sv_sys s" "online_peer_set s1 = online_peer_set s"
    using online(1,6) by (simp_all add: s1_def set_peer_def peer_at_def)
  have "length xs \<le> sb_room (write_buf p)"
    using xs(1) rest(2) bound sound(4) by (simp add: sb_room_def)
  then obtain c where c: "send_peer s1 (of_nat i) (serial p) xs (of_nat (length xs)) =
      returns () ((set_peer i ((p\<lparr>read_buf := b\<rparr>)\<lparr>write_buf := c\<rparr>) s1)
        \<lparr>write_bak := FD_SET (p_socket p) (write_bak s1)\<rparr>)"
    "sockbuf_ok c" "sb_content c = sb_content (write_buf p) @ xs"
    "unat (m_size c) \<le> max (unat (m_size (write_buf p))) (length (sb_content (write_buf p)) + 2 * length xs)"
    using send_peer_online [of i s1 xs] online(1,2) sound(2) s1(1) by auto
  define q where "q = p\<lparr>read_buf := b, write_buf := c\<rparr>"
  have "unat (m_size b) \<le> 2 ^ 29 + 2048"
    using b(4) sound(3) by (simp add: sb_room_def)
  moreover have "length (sb_content (write_buf p)) + 2 * length xs \<le> 2 ^ 29"
    using bound xs(1) rest(2) by simp
  then have "unat (m_size c) \<le> 2 ^ 29 + 2048" using c(4) sound(4) by linarith
  ultimately have "peer_sound q"
    using b(2) c(2) by (simp add: peer_sound_def q_def)
  moreover have "echoed (sv_sys s) q"
  proof -
    obtain msgs where "departed (sv_sys s) (p_socket p) @ sb_content (write_buf p) = concat (map echo_msg msgs)"
      using online(4) by (auto simp: echoed_def)
    then have "departed (sv_sys s) (p_socket p) @ sb_content c = concat (map echo_msg (msgs @ [drop 4 xs]))"
      using c(3) xs(3) by simp
    moreover have "rest = xs @ sb_content b" by (simp add: b(3) xs_def)
    ultimately show ?thesis using arr c(3) by (auto simp: echoed_def q_def simp del: map_append)
  qed
  ultimately have "echo_inv (set_peer i q s)"
    using inv i by (intro echo_inv_peer) (simp_all add: q_def p_def)
  moreover have "peer_at (set_peer i q s) i = q" using online(1,6) by simp
  moreover have "echo_message i (serial p) len s =
      returns 0 ((set_peer i q s)\<lparr>write_bak := FD_SET (p_socket p) (write_bak s)\<rparr>)"
    using pop nonneg c(1) xs(2)
    by (simp add: echo_message_def MSGHEADERLEN_def s1_def q_def set_peer_def)
  ultimately show ?thesis
    using that [of "(set_peer i q s)\<lparr>write_bak := FD_SET (p_socket p) (write_bak s)\<rparr>"] b(3) c(3) total
    by (simp add: p_def q_def rest_def xs_def set_peer_def)
qed

lemma echo_message_ok:
  assumes inv: "echo_inv s" and i: "i \<in> set (online_peer_set s)"
    and len: "len = dec32 (take 4 (sb_content (read_buf (peer_at s i))))"
      "4 < length (sb_content (read_buf (peer_at s i)))"
      "unat (4 + len) \<le> length (sb_content (read_buf (peer_at s i)))"
  shows "ends (\<lambda>x t. x = 0 \<and> kept s t \<and> i \<in> set (online_peer_set t))
    (echo_message i (serial (peer_at s i)) len s)"
proof (cases "sint len < 0")
  case True
  have "sockbuf_ok (read_buf (peer_at s i))" using echo_inv_online(3) [OF inv i] by (simp add: peer_sound_def)
  from pop_ok [OF this len(3)] obtain xs b where "pop (read_buf (peer_at s i)) (4 + len) = returns xs b"
    by blast
  with True show ?thesis
    by (simp add: echo_message_def on_read_buf_def MSGHEADERLEN_def add.commute returns_def and_then_def ends_def throws_def)
next
  case False
  obtain t where "echo_message i (serial (peer_at s i)) len s = returns 0 t" "echo_inv t"
    "online_peer_set t = online_peer_set s"
    using echo_message_moves [OF inv i len False] by blast
  with i show ?thesis by (simp add: kept_def)
qed

lemma on_read_buf_same:
  "f (read_buf (peer_at s i)) = returns x (read_buf (peer_at s i)) \<Longrightarrow> on_read_buf i f s = returns x s"
  by (simp add: on_read_buf_def returns_def)

lemma net_onRead_cases:
  assumes sound: "sockbuf_ok (read_buf (peer_at s i))"
    and rest: "rest = sb_content (read_buf (peer_at s i))"
  shows "net_onRead i ser s =
    (if length rest \<le> 4 \<or> length rest < unat (4 + dec32 (take 4 rest)) then returns 0 s
     else echo_message i ser (dec32 (take 4 rest)) s)"
proof -
  obtain n where n: "readableBytes (read_buf (peer_at s i)) = returns n (read_buf (peer_at s i))"
    "unat n = length rest"
    using readableBytes_ok [OF sound] unfolding rest by blast
  from n(1) have read: "on_read_buf i readableBytes s = returns n s" by (rule on_read_buf_same)
  have small: "n \<le> MSGHEADERLEN \<longleftrightarrow> length rest \<le> 4"
    using n(2) by (simp add: MSGHEADERLEN_def word_le_nat_alt)
  have "on_read_buf i (\<lambda>b. peek b MSGHEADERLEN) s = returns (take 4 rest) s" if "\<not> length rest \<le> 4"
    using that peek_ok [OF sound, of MSGHEADERLEN]
    by (intro on_read_buf_same) (simp add: rest MSGHEADERLEN_def)
  then show ?thesis
    using read small n(2) by (simp add: net_onRead_def Let_def MSGHEADERLEN_def word_less_nat_alt)
qed

lemma net_onRead_ok:
  assumes inv: "echo_inv s" and i: "i \<in> set (online_peer_set s)"
  shows "ends (\<lambda>x t. x = 0 \<and> kept s t \<and> i \<in> set (online_peer_set t))
    (net_onRead i (serial (peer_at s i)) s)"
proof -
  have "sockbuf_ok (read_buf (peer_at s i))" using echo_inv_online(3) [OF inv i] by (simp add: peer_sound_def)
  note cases = net_onRead_cases [OF this refl]
  show ?thesis
    using inv i echo_message_ok [OF inv i refl] by (simp add: cases kept_refl not_less not_le)
qed

text \<open>One whole message, whatever follows it.\<close>

lemma net_onRead_whole:
  assumes inv: "echo_inv s" and i: "i \<in> set (online_peer_set s)"
    and content: "sb_content (read_buf (peer_at s i)) = echo_msg body @ rest" "body \<noteq> [] \<or> rest \<noteq> []"
  obtains t where "net_onRead i (serial (peer_at s i)) s = returns 0 t" "echo_inv t"
    "sv_sys t = sv_sys s" "online_peer_set t = online_peer_set s"
    "sb_content (read_buf (peer_at t i)) = rest"
    "sb_content (write_buf (peer_at t i)) = sb_content (write_buf (peer_at s i)) @ echo_msg body"
    "write_bak t = FD_SET (p_socket (peer_at s i)) (write_bak s)"
proof -
  have "sockbuf_ok (read_buf (peer_at s i))" using echo_inv_online(3) [OF inv i] by (simp add: peer_sound_def)
  note cases = net_onRead_cases [OF this refl]
  have "length (sb_content (read_buf (peer_at s i))) < 2 ^ 28"
    using echo_inv_online(4) [OF inv i] echo_inv_online(5) [OF inv i, of "p_socket (peer_at s i)"]
    by (simp add: echoed_def)
  then have "length body < 2 ^ 28" by (simp add: content(1) echo_msg_def)
  then have len: "unat (of_nat (length body) :: 32 word) = length body"
    by (simp add: unat_of_nat take_bit_eq_mod)
  then have nonneg: "\<not> sint (of_nat (length body) :: 32 word) < 0"
    using \<open>length body < 2 ^ 28\<close> by (simp add: sint_small)
  have four: "unat (4 + of_nat (length body) :: 32 word) = 4 + length body"
    using len \<open>length body < 2 ^ 28\<close> by (subst unat_add_lem [THEN iffD1]) simp_all
  have head: "dec32 (take 4 (echo_msg body @ rest)) = of_nat (length body)" by (simp add: echo_msg_def)
  have long: "\<not> length (echo_msg body @ rest) \<le> 4" using content(2) by (cases body; simp add: echo_msg_def)
  have read: "net_onRead i (serial (peer_at s i)) s = echo_message i (serial (peer_at s i)) (of_nat (length body)) s"
    using long four by (simp add: cases content(1) head) (simp add: echo_msg_def)
  show ?thesis
    by (rule echo_message_moves [OF inv i, of "of_nat (length body)"])
      (use that read head long four nonneg len content(1) in \<open>simp_all add: echo_msg_def\<close>)
qed

text \<open>A beginning of a message stays where it is.\<close>

lemma net_onRead_part:
  assumes inv: "echo_inv s" and i: "i \<in> set (online_peer_set s)"
    and body: "length body < 2 ^ 31 - 4" "echo_msg body = sb_content (read_buf (peer_at s i)) @ xs" "xs \<noteq> []"
  shows "net_onRead i (serial (peer_at s i)) s = returns 0 s"
proof -
  define rest where "rest = sb_content (read_buf (peer_at s i))"
  have "sockbuf_ok (read_buf (peer_at s i))" using echo_inv_online(3) [OF inv i] by (simp add: peer_sound_def)
  note cases = net_onRead_cases [OF this rest_def]
  have all: "echo_msg body = rest @ xs" using body(2) by (simp add: rest_def)
  have len: "length rest < 4 + length body"
    using arg_cong [OF all, of length] body(3) by (simp add: echo_msg_def)
  have "length rest < unat (4 + dec32 (take 4 rest))" if "4 \<le> length rest"
  proof -
    have "take 4 rest = enc32 (of_nat (length body))"
      using arg_cong [OF all, of "take 4"] that by (simp add: echo_msg_def)
    moreover have "unat (4 + of_nat (length body) :: 32 word) = 4 + length body"
      using body(1) by (subst unat_add_lem [THEN iffD1]) (simp_all add: unat_of_nat take_bit_eq_mod)
    ultimately show ?thesis using len by simp
  qed
  then show ?thesis by (cases "4 \<le> length rest") (simp_all add: cases)
qed

section \<open>One round\<close>

lemma close_after:
  assumes "kept s t" "i \<in> set (online_peer_set t)" "\<And>u. kept s u \<Longrightarrow> Q u"
  shows "ends (\<lambda>_ u. Q u) (closePeer net_event t (of_nat i) (serial (peer_at t i)))"
proof -
  have "echo_inv t" using assms(1) by (simp add: kept_def)
  from close_kept [OF this assms(2)] show ?thesis
    by (rule ends_weaken) (metis assms(1,3) kept_trans)
qed

text \<open>A read: the peer is dropped, or what has arrived is behind what waits to be read.\<close>

lemma serve_read_ok:
  assumes inv: "echo_inv s" and i: "i \<in> set (online_peer_set s)"
  shows "ends (\<lambda>go_on t. kept s t \<and> (go_on \<longrightarrow> i \<in> set (online_peer_set t))) (serve_read net_event s i)"
proof -
  define p where "p = peer_at s i"
  note online = echo_inv_online [OF inv i, folded p_def]
  from online(3) have sound: "sockbuf_ok (read_buf p)" "unat (m_size (read_buf p)) \<le> 2 ^ 29 + 2048"
    by (simp_all add: peer_sound_def)
  then have "512 \<le> sb_room (read_buf p)" by (simp add: sb_room_def)
  with sound(1) obtain r b w bs where read: "sockRead (read_buf p) (p_socket p) (sv_sys s) = Some (Inr r, b, w)"
    and b: "sockbuf_ok b" "sb_content b = sb_content (read_buf p) @ bs"
    and w: "arrived w = (arrived (sv_sys s))(p_socket p := arrived (sv_sys s) (p_socket p) @ bs)"
      "departed w = departed (sv_sys s)" "same_system (sv_sys s) w" "calls w = Suc (calls (sv_sys s))"
      "length bs \<le> offered (sv_sys s) (calls (sv_sys s))"
    and b_size: "unat (m_size b) \<le> max (unat (m_size (read_buf p))) (length (sb_content (read_buf p)) + 1024)"
    by (rule sockRead_ok) blast
  define t where "t = set_peer i (p\<lparr>read_buf := b\<rparr>) (s\<lparr>sv_sys := w\<rparr>)"
  have arr: "arrived (sv_sys s) (p_socket p) = departed (sv_sys s) (p_socket p) @ sb_content (write_buf p) @ sb_content (read_buf p)"
    using online(4) by (simp add: echoed_def)
  have "echo_inv t"
    unfolding t_def
  proof (rule echo_inv_step [OF inv i])
    show "echoed w (p\<lparr>read_buf := b\<rparr>)" using online(4) w b(2) by (auto simp: echoed_def)
    have "length (sb_content (read_buf p)) < 2 ^ 28" using online(5) [of "p_socket p"] arr by simp
    then have "unat (m_size b) \<le> 2 ^ 29 + 2048" using b_size sound(2) by (simp add: max_def split: if_splits)
    then show "peer_sound (p\<lparr>read_buf := b\<rparr>)" using online(3) b(1) by (simp add: peer_sound_def)
    show "later_os (sv_sys s) w" using w(3) by (rule same_system_later_os)
    then have same: "offered w = offered (sv_sys s)" by (rule later_os_offered)
    have "length (arrived (sv_sys s) (p_socket p)) \<le> (\<Sum>m<calls (sv_sys s). offered (sv_sys s) m)"
      using inv by (simp add: echo_inv_def traffic_ok_def)
    then show "length (arrived w (p_socket (p\<lparr>read_buf := b\<rparr>))) \<le> (\<Sum>m<calls w. offered w m)"
      using w by (simp add: same)
  qed (use w in \<open>simp_all add: p_def\<close>)
  moreover have t: "online_peer_set t = online_peer_set s" by (simp add: t_def set_peer_def)
  ultimately have kept: "kept s t" "i \<in> set (online_peer_set t)" using i by (simp_all add: kept_def)
  have "ends (\<lambda>go_on t. kept s t \<and> (go_on \<longrightarrow> i \<in> set (online_peer_set t))) (after_read net_event i r t)"
  proof (cases "r = 0")
    case True
    have "ends (\<lambda>x u. x = 0 \<and> kept t u \<and> i \<in> set (online_peer_set u)) (net_onRead i (serial (peer_at t i)) t)"
      using kept by (intro net_onRead_ok) (simp_all add: kept_def)
    then show ?thesis
      using True kept_trans [OF kept(1)]
      by (auto simp: after_read_def net_event_def elim!: ends_and_then)
  next
    case False
    have "ends (\<lambda>_ u. kept s u) (closePeer net_event t (of_nat i) (serial (peer_at t i)))"
      using kept by (intro close_after)
    with False show ?thesis by (auto simp: after_read_def intro: ends_and_then)
  qed
  then show ?thesis using read by (simp add: serve_read_def p_def t_def)
qed

text \<open>A write: the peer is dropped, or what the system has taken was at the front.\<close>

lemma serve_write_ok:
  assumes inv: "echo_inv s" and i: "i \<in> set (online_peer_set s)"
  shows "ends (\<lambda>_ t. kept s t) (serve_write net_event s i)"
proof -
  define p where "p = peer_at s i"
  note online = echo_inv_online [OF inv i, folded p_def]
  from online(3) have "sockbuf_ok (write_buf p)" by (simp add: peer_sound_def)
  then obtain r b w bs where wrote: "sockWrite (write_buf p) (p_socket p) (sv_sys s) = Some (Inr r, b, w)"
    and b: "sockbuf_ok b" "sb_content (write_buf p) = bs @ sb_content b" "m_size b = m_size (write_buf p)"
    and w: "departed w = (departed (sv_sys s))(p_socket p := departed (sv_sys s) (p_socket p) @ bs)"
      "arrived w = arrived (sv_sys s)" "same_system (sv_sys s) w"
    by (rule sockWrite_ok) blast
  define t where "t = set_peer i (p\<lparr>write_buf := b\<rparr>) (s\<lparr>sv_sys := w\<rparr>)"
  have "echo_inv t"
    unfolding t_def
  proof (rule echo_inv_step [OF inv i])
    show "echoed w (p\<lparr>write_buf := b\<rparr>)" using online(4) w b(2) by (auto simp: echoed_def)
    show "peer_sound (p\<lparr>write_buf := b\<rparr>)" using online(3) b by (simp add: peer_sound_def)
    show "later_os (sv_sys s) w" using w(3) by (rule same_system_later_os)
    then have "(\<Sum>m<calls (sv_sys s). offered (sv_sys s) m) \<le> (\<Sum>m<calls w. offered w m)"
      by (rule later_os_heard)
    moreover have "length (arrived (sv_sys s) (p_socket p)) \<le> (\<Sum>m<calls (sv_sys s). offered (sv_sys s) m)"
      using inv by (simp add: echo_inv_def traffic_ok_def)
    ultimately show "length (arrived w (p_socket (p\<lparr>write_buf := b\<rparr>))) \<le> (\<Sum>m<calls w. offered w m)"
      using w by simp
  qed (use w in \<open>simp_all add: p_def\<close>)
  moreover have t: "online_peer_set t = online_peer_set s" by (simp add: t_def set_peer_def)
  ultimately have kept: "kept s t" "i \<in> set (online_peer_set t)" using i by (simp_all add: kept_def)
  have "ends (\<lambda>_ t. kept s t) (after_write net_event i r t)"
  proof (cases "r = 0")
    case True
    have "sockbuf_ok (write_buf (peer_at t i))"
      using kept echo_inv_online(3) [of t i] by (simp add: kept_def peer_sound_def)
    then obtain n where "readableBytes (write_buf (peer_at t i)) = returns n (write_buf (peer_at t i))"
      by (rule readableBytes_ok)
    then show ?thesis using True kept by (simp add: after_write_def returns_def ends_def kept_def Let_def)
  next
    case False
    then show ?thesis using kept by (auto simp: after_write_def intro!: close_after)
  qed
  then show ?thesis using wrote by (simp add: serve_write_def p_def t_def)
qed

lemma serve_peer_ok:
  assumes "echo_inv s" "i \<in> set (online_peer_set s)"
  shows "ends (\<lambda>_ t. kept s t) (serve_peer net_event s i)"
  unfolding serve_peer_def
proof (rule ends_and_then)
  show "ends (\<lambda>go_on t. kept s t \<and> (go_on \<longrightarrow> i \<in> set (online_peer_set t)))
      (if FD_ISSET (p_socket (peer_at s i)) (read_use s) then serve_read net_event s i else returns True s)"
    using assms serve_read_ok by (simp add: kept_refl)
next
  fix go_on t
  assume t: "kept s t \<and> (go_on \<longrightarrow> i \<in> set (online_peer_set t))"
  then have "ends (\<lambda>_ u. kept s u) (serve_write net_event t i)" if go_on
    using that by (intro ends_weaken [OF serve_write_ok kept_trans [of s t]]) (auto simp: kept_def)
  with t show "ends (\<lambda>_ t. kept s t)
      (if go_on \<and> FD_ISSET (p_socket (peer_at t i)) (write_use t) then serve_write net_event t i else returns () t)"
    by simp
qed

text \<open>The loop ends: the list does not grow, and the index does.\<close>

lemma serve_loop_ok:
  assumes "echo_inv s"
  shows "ends (\<lambda>_ t. kept s t) (serve_loop net_event s k)"
  using assms
proof (induction "length (online_peer_set s) - k" arbitrary: s k rule: less_induct)
  case less
  show ?case
  proof (cases "k < length (online_peer_set s)")
    case False
    then show ?thesis using less.prems by (subst serve_loop.simps) (simp add: kept_refl)
  next
    case True
    define i where "i = online_peer_set s ! k"
    have i: "i \<in> set (online_peer_set s)" using True by (simp add: i_def)
    then have "i < MAX_PEER_NUM" using echo_inv_online(1) [OF less.prems] by simp
    then have "serve_loop net_event s k = and_then (serve_peer net_event s i) (\<lambda>_ s. serve_loop net_event s (k + 1))"
      unfolding and_then_def using True by (subst serve_loop.simps) (simp add: i_def)
    moreover have "ends (\<lambda>_ u. kept s u) (serve_loop net_event t (k + 1))" if "kept s t" for t
    proof -
      have "length (online_peer_set t) - (k + 1) < length (online_peer_set s) - k"
        using that True unfolding kept_def by linarith
      then have "ends (\<lambda>_ u. kept t u) (serve_loop net_event t (k + 1))"
        using that by (intro less.hyps) (simp_all add: kept_def)
      then show ?thesis by (rule ends_weaken) (rule kept_trans [OF that])
    qed
    ultimately show ?thesis using serve_peer_ok [OF less.prems i] by (simp add: ends_and_then)
  qed
qed

section \<open>A new peer\<close>

lemma echo_inv_add:
  assumes inv: "echo_inv s" and k: "k < MAX_PEER_NUM" "p_socket (peer_at s k) = - 1"
    and w: "later_os (sv_sys s) (sv_sys t)" "arrived (sv_sys t) = arrived (sv_sys s)"
      "departed (sv_sys t) = departed (sv_sys s)"
    and q: "known_socket (sv_sys t) (p_socket q)" "\<not> known_socket (sv_sys s) (p_socket q)" "p_socket q \<noteq> - 1"
      "peer_sound q" "sb_content (read_buf q) = []" "sb_content (write_buf q) = []"
    and t: "peer_array t = (peer_array s)[k := q]" "online_peer_set t = online_peer_set s @ [k]"
  shows "echo_inv t"
proof -
  have reg: "registry_ok s" using inv by (simp add: echo_inv_def)
  then have len: "length (peer_array s) = MAX_PEER_NUM" by (simp add: registry_ok_def)
  have at: "peer_at t j = (if j = k then q else peer_at s j)" for j
    using len k(1) by (auto simp: peer_at_def t)
  have off: "k \<notin> set (online_peer_set s)" using reg k by (simp add: registry_ok_def)
  have sys: "echo_inv (s\<lparr>sv_sys := sv_sys t\<rparr>)" using inv w by (intro echo_inv_sys)
  have "registry_ok t" using reg k q(3) off by (auto simp: registry_ok_def at t)
  moreover have "echoed (sv_sys t) q"
    using inv q by (auto simp: echoed_def w echo_inv_def traffic_ok_def intro: exI [of _ "[]"])
  moreover have "p_socket (peer_at s j) \<noteq> p_socket q" "p_socket q \<noteq> p_socket (peer_at s j)"
    if "j \<in> set (online_peer_set s)" for j
    using inv that q(2) by (auto simp: echo_inv_def)
  ultimately show ?thesis
    using sys q(1,4) off by (auto simp: echo_inv_def at t inj_on_def)
qed

lemma free_peer:
  assumes "registry_ok s" "length (online_peer_set s) < MAX_PEER_NUM"
  obtains k where "k < MAX_PEER_NUM" "p_socket (peer_at s k) = - 1" "getFreeIndex s = (of_nat k, new_peer s k)"
proof -
  have "\<not> (\<forall>k < MAX_PEER_NUM. p_socket (peer_at s k) \<noteq> - 1)"
  proof
    assume "\<forall>k < MAX_PEER_NUM. p_socket (peer_at s k) \<noteq> - 1"
    then have "set (online_peer_set s) = {..<MAX_PEER_NUM}" using assms(1) by (auto simp: registry_ok_def)
    moreover have "card (set (online_peer_set s)) = length (online_peer_set s)"
      using assms(1) by (simp add: registry_ok_def distinct_card)
    ultimately show False using assms(2) by simp
  qed
  with free_index_from_spec [of s 0 "fst (getFreeIndex s)" "snd (getFreeIndex s)"] assms(1) that
  show ?thesis by (auto simp: getFreeIndex_def registry_ok_def prod_eq_iff)
qed

lemma name_of_benign:
  assumes "benign (sv_sys s)"
  obtains ip port where "name_of s = Some ((ip, port), s\<lparr>sv_sys := (sv_sys s)\<lparr>calls := Suc (calls (sv_sys s))\<rparr>\<rparr>)"
proof -
  obtain ip port num where "os_name (sv_sys s) (calls (sv_sys s)) = Some (Some ip, port, num)" "length ip < 50"
    using assms unfolding benign_defs by blast
  then show ?thesis using that [of ip port] by (simp add: name_of_def end_name_def next_call_def)
qed

lemma benign_calls [simp]: "benign (w\<lparr>calls := n\<rparr>) = benign w" "benign (w\<lparr>opened := xs\<rparr>) = benign w"
  by (simp_all add: benign_defs offered_def fun_eq_iff)

lemma registerSocket_adds:
  assumes reg: "registry_ok s" "length (online_peer_set s) < MAX_PEER_NUM" and w: "benign (sv_sys s)"
  obtains k q t where "registerSocket net_event s sock = returns () t" "k < MAX_PEER_NUM"
    "p_socket (peer_at s k) = - 1" "peer_array t = (peer_array s)[k := q]"
    "online_peer_set t = online_peer_set s @ [k]" "sv_sys t = (sv_sys s)\<lparr>calls := calls (sv_sys s) + 2\<rparr>"
    "p_socket q = sock" "read_buf q = sb_reset (read_buf (peer_at s k))"
    "write_buf q = sb_reset (write_buf (peer_at s k))"
proof -
  obtain k where k: "k < MAX_PEER_NUM" "p_socket (peer_at s k) = - 1"
    "getFreeIndex s = (of_nat k, new_peer s k)"
    using reg by (rule free_peer)
  have len: "k < length (peer_array s)" using reg k(1) by (simp add: registry_ok_def)
  define s1 where "s1 = new_peer s k"
  have s1: "sv_sys s1 = sv_sys s" "online_peer_set s1 = online_peer_set s" "k < length (peer_array s1)"
    using len by (simp_all add: s1_def new_peer_def Let_def)
  obtain rip rport where n1: "name_of s1 = Some ((rip, rport), s1\<lparr>sv_sys := (sv_sys s1)\<lparr>calls := Suc (calls (sv_sys s1))\<rparr>\<rparr>)"
    using name_of_benign [of s1] w s1(1) by auto
  define s2 where "s2 = s1\<lparr>sv_sys := (sv_sys s1)\<lparr>calls := Suc (calls (sv_sys s1))\<rparr>\<rparr>"
  define s3 where "s3 = set_peer k ((peer_at s2 k)\<lparr>remote_ip := rip, remote_port := rport\<rparr>) s2"
  have s3: "sv_sys s3 = (sv_sys s)\<lparr>calls := Suc (calls (sv_sys s))\<rparr>" by (simp add: s3_def s2_def s1 set_peer_def)
  obtain lip lport where n3: "name_of s3 = Some ((lip, lport), s3\<lparr>sv_sys := (sv_sys s3)\<lparr>calls := Suc (calls (sv_sys s3))\<rparr>\<rparr>)"
    using name_of_benign [of s3] w s3 by auto
  define s4 where "s4 = s3\<lparr>sv_sys := (sv_sys s3)\<lparr>calls := Suc (calls (sv_sys s3))\<rparr>\<rparr>"
  define q where "q = (peer_at s4 k)\<lparr>local_ip := lip, local_port := lport, p_socket := sock\<rparr>"
  define s6 where "s6 = (set_peer k q s4)\<lparr>online_peer_set := online_peer_set s4 @ [k]\<rparr>"
  define t where "t = s6\<lparr>read_bak := FD_SET (p_socket (peer_at s6 k)) (read_bak s6)\<rparr>"
  have "getPeer s1 (of_nat k) = Some k" using k(1) by (simp add: getPeer_some peer_index)
  then have "registerSocket net_event s sock = announce net_event (of_nat k) k s6"
    using k(3) n1 n3
    by (simp add: registerSocket_def s1_def [symmetric] s2_def [symmetric] s3_def [symmetric]
        s4_def [symmetric] q_def [symmetric] s6_def [symmetric])
  also have "\<dots> = returns () t" by (simp add: announce_def net_event_def net_onCon_def t_def)
  finally have "registerSocket net_event s sock = returns () t" .
  moreover have "peer_array t = (peer_array s)[k := q]"
    by (simp add: t_def s6_def s4_def s3_def s2_def s1_def set_peer_def new_peer_def Let_def)
  moreover have "p_socket q = sock" "read_buf q = sb_reset (read_buf (peer_at s k))"
    "write_buf q = sb_reset (write_buf (peer_at s k))"
    using len
    by (simp_all add: q_def s4_def s3_def s2_def s1_def set_peer_def new_peer_def Let_def peer_at_def)
  moreover have "online_peer_set t = online_peer_set s @ [k]"
    "sv_sys t = (sv_sys s)\<lparr>calls := calls (sv_sys s) + 2\<rparr>"
    by (simp_all add: t_def s6_def s4_def s3_def s2_def s1 set_peer_def)
  ultimately show ?thesis using that k(1,2) by blast
qed

text \<open>Accepting: at most one peer more.\<close>

lemma accept_peer_ok:
  assumes inv: "echo_inv s" and room: "length (online_peer_set s) < MAX_PEER_NUM"
  shows "ends (\<lambda>_ t. echo_inv t \<and> length (online_peer_set t) \<le> Suc (length (online_peer_set s)))
    (accept_peer net_event s)"
proof -
  define w where "w = sv_sys s"
  define sock where "sock = os_socket w (calls w)"
  define s1 where "s1 = s\<lparr>sv_sys := w\<lparr>calls := Suc (calls w), opened := sock # opened w\<rparr>\<rparr>"
  have ok: "registry_ok s" "benign w" using inv by (simp_all add: echo_inv_def w_def)
  show ?thesis
  proof (cases "listen_socket s \<noteq> INVALID_SOCKET \<and> FD_ISSET (listen_socket s) (read_use s) \<and> sock \<noteq> INVALID_SOCKET")
    case False
    then show ?thesis using inv
      by (auto simp: accept_peer_def next_call_def Let_def sock_def w_def)
  next
    case True
    have "registry_ok s1" "benign (sv_sys s1)" "length (online_peer_set s1) < MAX_PEER_NUM"
      using ok room by (simp_all add: s1_def)
    then obtain k q t where reg: "registerSocket net_event s1 sock = returns () t"
      and k: "k < MAX_PEER_NUM" "p_socket (peer_at s1 k) = - 1"
      and t: "peer_array t = (peer_array s1)[k := q]" "online_peer_set t = online_peer_set s1 @ [k]"
        "sv_sys t = (sv_sys s1)\<lparr>calls := calls (sv_sys s1) + 2\<rparr>"
      and q: "p_socket q = sock" "read_buf q = sb_reset (read_buf (peer_at s1 k))"
        "write_buf q = sb_reset (write_buf (peer_at s1 k))"
      by (metis registerSocket_adds [of s1 sock])
    have "echo_inv t"
    proof (rule echo_inv_add [OF inv k(1)])
      show "p_socket (peer_at s k) = - 1" using k(2) by (simp add: s1_def)
      show "known_socket (sv_sys t) (p_socket q)"
        by (auto simp: known_socket_def t(3) q(1) s1_def sock_def w_def intro: exI [of _ "calls (sv_sys s)"])
      show "\<not> known_socket (sv_sys s) (p_socket q)"
      proof
        assume "known_socket (sv_sys s) (p_socket q)"
        then obtain m where "m < calls w" "os_socket w m = os_socket w (calls w)"
          by (auto simp: known_socket_def q(1) sock_def w_def)
        then show False using ok(2) True unfolding benign_defs sock_def INVALID_SOCKET_def
          by (metis less_irrefl)
      qed
      have "peer_sound (peer_at s k)" using inv k(1) by (simp add: echo_inv_def)
      then show "peer_sound q" "sb_content (read_buf q) = []" "sb_content (write_buf q) = []"
        using sb_reset_ok by (simp_all add: q s1_def peer_sound_def) (simp_all add: sb_reset_def)
    qed (use t True q(1) in \<open>simp_all add: s1_def w_def later_os_def INVALID_SOCKET_def\<close>)
    moreover have "accept_peer net_event s = registerSocket net_event s1 sock"
      using True by (simp add: accept_peer_def next_call_def Let_def sock_def w_def s1_def)
    ultimately show ?thesis using reg t(2) by (simp add: s1_def)
  qed
qed

text \<open>A round stays in defined behaviour, keeps the invariant, and adds at most one peer.\<close>

lemma eventLoop_ok:
  assumes inv: "echo_inv s" and room: "length (online_peer_set s) < MAX_PEER_NUM"
  shows "ends (\<lambda>_ t. echo_inv t \<and> length (online_peer_set t) \<le> Suc (length (online_peer_set s)))
    (eventLoop net_event s)"
proof -
  obtain num readable writable where ready: "os_ready (sv_sys s) (calls (sv_sys s)) = (num, readable, writable)"
    by (metis prod_cases3)
  define s1 where "s1 = (initSets s)\<lparr>sv_sys := (sv_sys s)\<lparr>calls := Suc (calls (sv_sys s))\<rparr>,
    read_use := filter readable (read_use (initSets s)), write_use := filter writable (write_use (initSets s))\<rparr>"
  have init: "sv_sys (initSets s) = sv_sys s" "online_peer_set (initSets s) = online_peer_set s"
    "echo_inv (initSets s) = echo_inv s"
    by (simp_all add: initSets_def Let_def)
  have "echo_inv ((initSets s)\<lparr>sv_sys := (sv_sys s)\<lparr>calls := Suc (calls (sv_sys s))\<rparr>\<rparr>)"
    using inv init by (intro echo_inv_sys) (simp_all add: later_os_def)
  then have s1: "echo_inv s1" "online_peer_set s1 = online_peer_set s" using init by (simp_all add: s1_def)
  have loop: "eventLoop net_event s =
      (if num > 0 then and_then (accept_peer net_event s1) (\<lambda>_ s. serve_loop net_event s 0)
       else if num = - 1 then throws s1 else returns () s1)"
    using ready by (simp add: eventLoop_def next_call_def init s1_def Let_def)
  have "ends (\<lambda>_ t. echo_inv t \<and> length (online_peer_set t) \<le> Suc (length (online_peer_set s)))
      (and_then (accept_peer net_event s1) (\<lambda>_ s. serve_loop net_event s 0))"
  proof (rule ends_and_then [OF accept_peer_ok])
    show "echo_inv s1" "length (online_peer_set s1) < MAX_PEER_NUM" using s1 room by simp_all
    fix t assume t: "echo_inv t \<and> length (online_peer_set t) \<le> Suc (length (online_peer_set s1))"
    then have "ends (\<lambda>_ u. kept t u) (serve_loop net_event t 0)" by (intro serve_loop_ok) simp
    then show "ends (\<lambda>_ t. echo_inv t \<and> length (online_peer_set t) \<le> Suc (length (online_peer_set s)))
        (serve_loop net_event t 0)"
      by (rule ends_weaken) (use t s1(2) in \<open>auto simp: kept_def\<close>)
  qed
  then show ?thesis using s1 by (simp add: loop)
qed

lemma serve_rounds_ok:
  assumes "echo_inv s" "length (online_peer_set s) + n \<le> MAX_PEER_NUM"
  shows "ends (\<lambda>_ t. echo_inv t) (serve_rounds net_event n s)"
  using assms
proof (induction n arbitrary: s)
  case (Suc n)
  have "length (online_peer_set s) < MAX_PEER_NUM" using Suc.prems(2) by simp
  with Suc.prems(1) have "ends (\<lambda>_ t. echo_inv t \<and> length (online_peer_set t) \<le> Suc (length (online_peer_set s)))
      (eventLoop net_event s)" by (rule eventLoop_ok)
  then show ?case using Suc.prems(2) by (auto intro!: Suc.IH elim!: ends_and_then)
qed simp

section \<open>From the start\<close>

text \<open>The memory of the peers, in which \<open>malloc\<close> has a block of every size below a gigabyte.\<close>

definition good_memory :: "(nat \<Rightarrow> peer) \<Rightarrow> bool" where
  "good_memory memory \<longleftrightarrow> (\<forall>i k n. unat n < 2 ^ 30 \<longrightarrow>
     sb_malloc (read_buf (memory i)) k n \<noteq> None \<and> sb_malloc (write_buf (memory i)) k n \<noteq> None)"

definition silent :: "os \<Rightarrow> bool" where
  "silent w \<longleftrightarrow> arrived w = (\<lambda>_. []) \<and> departed w = (\<lambda>_. [])"

lemma SockBuf_new_size: "m_size (SockBuf_new b n) = n"
  by (simp add: SockBuf_new_def take_block_def)

lemma service_new_ok:
  assumes "benign (sv_sys s)" "silent (sv_sys s)" "good_memory memory"
  shows "echo_inv (SelectIOService_new memory s)" "online_peer_set (SelectIOService_new memory s) = []"
proof -
  let ?t = "SelectIOService_new memory s"
  obtain n where sys: "benign (sv_sys ?t)" "arrived (sv_sys ?t) = (\<lambda>_. [])" "departed (sv_sys ?t) = (\<lambda>_. [])"
    using assms(1,2)
    by (auto simp: SelectIOService_new_def open_service_def system_call_def next_call_def silent_def
        Let_def benign_defs offered_def fun_eq_iff)
  have "peer_sound (peer_at ?t i)" if "i < MAX_PEER_NUM" for i
  proof -
    have "peer_at ?t i = peer_new (memory i)"
      using that by (simp add: SelectIOService_new_def open_service_def system_call_def next_call_def
          Let_def peer_at_def PeerManager_new_def)
    then show ?thesis
      using assms(3) SockBuf_new_ok(1) [of "read_buf (memory i)" 100]
        SockBuf_new_ok(1) [of "write_buf (memory i)" 100]
      by (simp add: peer_sound_def peer_new_def SockBuf_new_size good_memory_def)
  qed
  then show "echo_inv ?t" "online_peer_set ?t = []"
    using sys SelectIOService_new_registry by (simp_all add: echo_inv_def traffic_ok_def)
qed

lemma sv_call_echo_inv:
  assumes "echo_inv s" "sv_call s = (b, t)"
  shows "echo_inv t" "online_peer_set t = online_peer_set s"
proof -
  have "t = s\<lparr>sv_sys := (sv_sys s)\<lparr>calls := Suc (calls (sv_sys s))\<rparr>\<rparr>"
    using assms(2) by (simp add: sv_call_def system_call_def next_call_def)
  then show "echo_inv t" "online_peer_set t = online_peer_set s"
    using assms(1) by (simp_all add: echo_inv_sys later_os_def)
qed

lemma listen_service_ok:
  assumes "echo_inv s"
  shows "ends (\<lambda>_ t. echo_inv t \<and> online_peer_set t = online_peer_set s) (listen_service s)"
proof -
  define sock where "sock = os_socket (sv_sys s) (calls (sv_sys s))"
  define s1 where "s1 = s\<lparr>listen_socket := sock,
    sv_sys := (sv_sys s)\<lparr>calls := Suc (calls (sv_sys s)), opened := sock # opened (sv_sys s)\<rparr>\<rparr>"
  have s1: "echo_inv s1" "online_peer_set s1 = online_peer_set s"
    using assms echo_inv_sys [of "s\<lparr>listen_socket := sock\<rparr>"] by (simp_all add: s1_def later_os_def)
  obtain b2 s2 where 2: "sv_call s1 = (b2, s2)" by fastforce
  obtain b3 s3 where 3: "sv_call s2 = (b3, s3)" by fastforce
  obtain b4 s4 where 4: "sv_call s3 = (b4, s4)" by fastforce
  have "echo_inv s4 \<and> online_peer_set s4 = online_peer_set s"
    using sv_call_echo_inv [OF s1(1) 2] sv_call_echo_inv [OF _ 3] sv_call_echo_inv [OF _ 4] s1(2) by simp
  then show ?thesis
    using 2 3 4 by (simp add: listen_service_def next_call_def Let_def s1_def sock_def)
qed

end
