(* ===== verification/ServiceProperties.thy ===== *)
theory ServiceProperties
  imports EchoServer Examples
begin

text \<open>
  The properties of the service and of the echo server, and a small service for their witnesses.
\<close>

section \<open>Example services\<close>

text \<open>A system that hands over one block, the message \<open>[7, 9]\<close> and one byte more, and then nothing.\<close>

definition message_os :: os where
  "message_os = (example_os [])\<lparr>os_name := (\<lambda>_. Some (Some [49], 80, 1)),
     os_recv := (\<lambda>n. if n = 9 then Arrived (echo_msg [7, 9] @ [3]) else RecvFails True)\<rparr>"

definition blank_buf :: sockbuf where
  "blank_buf = \<lparr>sb_buf = None, m_size = 0, m_read_index = 0, m_write_index = 0,
     sb_malloc = (\<lambda>_ _. Some (\<lambda>_. 0)), sb_mallocs = 0\<rparr>"

definition blank_peer :: peer where
  "blank_peer = \<lparr>p_socket = 0, local_ip = [], local_port = 0, remote_ip = [], remote_port = 0,
     serial = 0, wsa_send = False, read_buf = blank_buf, write_buf = blank_buf, write_buf_backup = blank_buf\<rparr>"

definition blank_service :: service where
  "blank_service = \<lparr>peer_array = [], s_serial = 0, listen_socket = 0, online_peer_set = [],
     read_bak = [], read_use = [], write_bak = [], write_use = [], sv_sys = message_os\<rparr>"

definition example_service :: service where
  "example_service = SelectIOService_new (\<lambda>_. blank_peer) blank_service"

lemma message_os_benign: "benign message_os" "silent message_os"
proof -
  have "offered message_os = (\<lambda>m. if m = 9 then 7 else 0)"
    by (simp add: offered_def message_os_def echo_msg_def fun_eq_iff)
  then have "(\<Sum>m<n. offered message_os m) < 2 ^ 28" for n by (simp add: sum.delta)
  then show "benign message_os" by (simp add: benign_defs) (simp add: message_os_def example_os_def)
  show "silent message_os" by (simp add: silent_def message_os_def example_os_def)
qed

lemma blank_memory: "good_memory (\<lambda>_. blank_peer)"
  by (simp add: good_memory_def blank_peer_def blank_buf_def)

lemma example_service_inv: "echo_inv example_service" "online_peer_set example_service = []"
  unfolding example_service_def
  by (rule service_new_ok; simp add: blank_service_def message_os_benign blank_memory)+

text \<open>The same service with one peer that has sent a message and a byte.\<close>

definition one_peer :: peer where
  "one_peer = (peer_new blank_peer)\<lparr>p_socket := 6, read_buf :=
     (SockBuf_new blank_buf 100)\<lparr>sb_buf := Some ((echo_msg [7, 9] @ [3]) @ zeros 93), m_write_index := 7\<rparr>\<rparr>"

definition one_online :: service where
  "one_online = (set_peer 0 one_peer example_service)\<lparr>online_peer_set := [0],
     sv_sys := message_os\<lparr>calls := 10, arrived := (\<lambda>_. [])(6 := echo_msg [7, 9] @ [3])\<rparr>\<rparr>"

lemma length_echo_msg: "length (echo_msg body) = 4 + length body"
  by (simp add: echo_msg_def)

lemma new_buf: "SockBuf_new blank_buf 100 = blank_buf\<lparr>m_size := 100, sb_mallocs := 1, sb_buf := Some (new_bytes (\<lambda>_. 0) 100)\<rparr>"
  "sb_malloc blank_buf k n = Some (\<lambda>_. 0)" "m_read_index blank_buf = 0" "m_write_index blank_buf = 0"
  by (simp_all add: SockBuf_new_def take_block_def blank_buf_def)

lemma one_peer_facts: "p_socket one_peer = 6" "serial one_peer = 0" "peer_sound one_peer"
  "sb_content (read_buf one_peer) = echo_msg [7, 9] @ [3]" "sb_content (write_buf one_peer) = []"
  by (simp_all add: one_peer_def peer_new_def sb_content_def length_echo_msg blank_peer_def new_buf
      peer_sound_def sockbuf_ok_def word_le_nat_alt)

lemma one_online_facts: "echo_inv one_online" "peer_at one_online 0 = one_peer"
  "0 \<in> set (online_peer_set one_online)"
proof -
  define q where "q = one_peer\<lparr>read_buf := SockBuf_new blank_buf 100\<rparr>"
  define t where "t = (set_peer 0 q example_service)
    \<lparr>online_peer_set := [0], sv_sys := message_os\<lparr>calls := 10\<rparr>\<rparr>"
  have ex: "registry_ok example_service" "sv_sys example_service = message_os\<lparr>calls := 1, startups := 2\<rparr>"
    using example_service_inv(1)
    by (simp_all add: echo_inv_def) (simp add: example_service_def SelectIOService_new_def
        open_service_def system_call_def next_call_def blank_service_def message_os_def example_os_def Let_def)
  have len: "length (peer_array example_service) = MAX_PEER_NUM" using ex(1) by (simp add: registry_ok_def)
  have off: "p_socket (peer_at example_service 0) = - 1"
    using ex(1) example_service_inv(2) by (auto simp: registry_ok_def MAX_PEER_NUM_def)
  have q: "peer_sound q" "p_socket q = 6" "sb_content (read_buf q) = []" "sb_content (write_buf q) = []"
    using one_peer_facts
    by (simp_all add: q_def peer_sound_def new_buf sockbuf_ok_def sb_content_def)
  show "peer_at one_online 0 = one_peer"
    using len by (simp add: one_online_def peer_at_def set_peer_def MAX_PEER_NUM_def)
  show on: "0 \<in> set (online_peer_set one_online)" by (simp add: one_online_def)
  have t: "echo_inv t"
  proof (rule echo_inv_add [OF example_service_inv(1) _ off])
    show "known_socket (sv_sys t) (p_socket q)" "\<not> known_socket (sv_sys example_service) (p_socket q)"
      by (auto simp: known_socket_def t_def q(2) ex(2) message_os_def example_os_def intro: exI [of _ 1])
  qed (use q ex(2) in \<open>simp_all add: t_def later_os_def set_peer_def example_service_inv(2) MAX_PEER_NUM_def\<close>)
  define w where "w = message_os\<lparr>calls := 10, arrived := (\<lambda>_. [])(6 := echo_msg [7, 9] @ [3])\<rparr>"
  have "peer_at t 0 = q" using len by (simp add: t_def peer_at_def set_peer_def MAX_PEER_NUM_def)
  have "echo_inv (set_peer 0 one_peer (t\<lparr>sv_sys := w\<rparr>))"
  proof (rule echo_inv_step [OF t])
    show "echoed w one_peer"
      using one_peer_facts message_os_benign(2)
      by (auto simp: echoed_def w_def silent_def intro: exI [of _ "[]"] exI [of _ "[[7, 9]]"])
    have "offered w = (\<lambda>m. if m = 9 then 7 else 0)"
      by (simp add: offered_def w_def message_os_def length_echo_msg fun_eq_iff)
    then show "length (arrived w (p_socket one_peer)) \<le> (\<Sum>m<calls w. offered w m)"
      by (simp add: one_peer_facts w_def length_echo_msg sum.delta)
  qed (use one_peer_facts message_os_benign(2) \<open>peer_at t 0 = q\<close> q in \<open>simp_all add: t_def w_def later_os_def silent_def\<close>)
  moreover have "set_peer 0 one_peer (t\<lparr>sv_sys := w\<rparr>) = one_online"
    by (rule service.equality) (simp_all add: t_def one_online_def w_def set_peer_def)
  ultimately show "echo_inv one_online" by simp
qed

section \<open>Properties\<close>

text \<open>
  C10: whatever the client does, from its callbacks or between the rounds, and whatever the
  network does, the registry stays sound: the peers with a socket are exactly those on the list of
  peers that are online, each once, and the list does not leave the table.
\<close>

theorem registry_stays_sound:
  assumes "peer_client cb" "served cb s"
  shows "length (peer_array s) = MAX_PEER_NUM \<and> distinct (online_peer_set s) \<and>
    (\<forall>i. i \<in> set (online_peer_set s) \<longleftrightarrow> i < MAX_PEER_NUM \<and> p_socket (peer_at s i) \<noteq> INVALID_SOCKET)"
  using served_registry [OF assms] by (simp add: registry_ok_def INVALID_SOCKET_def)

lemma registry_stays_sound_witness: "distinct (online_peer_set example_service)"
proof -
  have "served net_event example_service" unfolding example_service_def by (rule served.start)
  from registry_stays_sound [OF echo.peer_client_axioms this] show ?thesis by simp
qed

text \<open>
  C3: the echo server echoes.  From its construction on, through at most as many rounds as the
  table of peers has places (10240: a round may accept one client, and for one client too many the
  code follows a null pointer), it stays in defined behaviour; and if no call throws, of every
  peer that is online what has arrived is what was sent back, then what waits to be sent back,
  then what waits to be read, and the first two together are whole messages.  Of a run that
  throws nothing more is said.

  This is about the runs in which less than \<open>2 ^ 28\<close> bytes arrive in all (\<open>light_traffic\<close>), on a
  system that gives every socket its own positive number and can name its ends
  (\<open>sound_system\<close>), has exchanged nothing before (\<open>silent\<close>), and has memory for every block
  below a gigabyte (\<open>good_memory\<close>).
\<close>

theorem echo_server_echoes:
  assumes "light_traffic (sv_sys s)" "sound_system (sv_sys s)" "silent (sv_sys s)" "good_memory memory"
    "n \<le> MAX_PEER_NUM"
  shows "\<exists>r t. and_then (listen_service (SelectIOService_new memory s)) (\<lambda>_ s. serve_rounds net_event n s) = Some (r, t) \<and>
    (r = Inr () \<longrightarrow> (\<forall>i \<in> set (online_peer_set t). \<exists>msgs.
      let p = peer_at t i; sd = p_socket p in
      departed (sv_sys t) sd @ sb_content (write_buf p) = concat (map echo_msg msgs) \<and>
      arrived (sv_sys t) sd = concat (map echo_msg msgs) @ sb_content (read_buf p)))"
proof -
  have benign: "benign (sv_sys s)" using assms(1,2) by (simp add: benign_def)
  have "ends (\<lambda>_ t. echo_inv t) (and_then (listen_service (SelectIOService_new memory s))
      (\<lambda>_ s. serve_rounds net_event n s))"
    using listen_service_ok service_new_ok [OF benign assms(3,4)] serve_rounds_ok assms(5)
    by (auto intro!: ends_and_then [OF listen_service_ok])
  then obtain r t where *: "and_then (listen_service (SelectIOService_new memory s))
      (\<lambda>_ s. serve_rounds net_event n s) = Some (r, t)" "r = Inr () \<longrightarrow> echo_inv t"
    by (auto simp: ends_def)
  moreover have "\<exists>msgs. departed (sv_sys t) (p_socket (peer_at t i)) @ sb_content (write_buf (peer_at t i)) = concat (map echo_msg msgs) \<and>
      arrived (sv_sys t) (p_socket (peer_at t i)) = concat (map echo_msg msgs) @ sb_content (read_buf (peer_at t i))"
    if on: "echo_inv t" "i \<in> set (online_peer_set t)" for i
  proof -
    obtain msgs where "departed (sv_sys t) (p_socket (peer_at t i)) @ sb_content (write_buf (peer_at t i)) = concat (map echo_msg msgs)"
      "arrived (sv_sys t) (p_socket (peer_at t i)) = departed (sv_sys t) (p_socket (peer_at t i)) @
         sb_content (write_buf (peer_at t i)) @ sb_content (read_buf (peer_at t i))"
      using echo_inv_online(4) [OF on] by (auto simp: echoed_def)
    then show ?thesis by (metis append_assoc)
  qed
  ultimately show ?thesis by (auto simp: Let_def)
qed

lemma echo_server_echoes_witness:
  "\<exists>r t. and_then (listen_service example_service) (\<lambda>_ s. serve_rounds net_event 3 s) = Some (r, t)"
proof -
  have "light_traffic (sv_sys blank_service)" "sound_system (sv_sys blank_service)" "silent (sv_sys blank_service)"
    using message_os_benign by (simp_all add: blank_service_def benign_def)
  from echo_server_echoes [OF this blank_memory, of 3] show ?thesis
    by (auto simp: example_service_def MAX_PEER_NUM_def)
qed

text \<open>
  One round of the callback takes one whole message: it moves from the front of what was
  read behind what waits to be sent, the socket is put on the list for writing, and nothing
  else changes; a message that is not complete is left where it is.
\<close>

theorem echo_takes_message:
  assumes "echo_inv s" "i \<in> set (online_peer_set s)"
  shows "(\<forall>body rest. sb_content (read_buf (peer_at s i)) = echo_msg body @ rest \<and> (body \<noteq> [] \<or> rest \<noteq> []) \<longrightarrow>
      (\<exists>t. net_onRead i (serial (peer_at s i)) s = returns 0 t \<and> sv_sys t = sv_sys s \<and>
        sb_content (read_buf (peer_at t i)) = rest \<and>
        sb_content (write_buf (peer_at t i)) = sb_content (write_buf (peer_at s i)) @ echo_msg body \<and>
        write_bak t = FD_SET (p_socket (peer_at s i)) (write_bak s))) \<and>
    (\<forall>body xs. length body < 2 ^ 31 - 4 \<and> echo_msg body = sb_content (read_buf (peer_at s i)) @ xs \<and> xs \<noteq> [] \<longrightarrow>
      net_onRead i (serial (peer_at s i)) s = returns 0 s)"
proof (intro conjI allI impI; elim conjE)
  fix body rest
  assume "sb_content (read_buf (peer_at s i)) = echo_msg body @ rest" "body \<noteq> [] \<or> rest \<noteq> []"
  then show "\<exists>t. net_onRead i (serial (peer_at s i)) s = returns 0 t \<and> sv_sys t = sv_sys s \<and>
      sb_content (read_buf (peer_at t i)) = rest \<and>
      sb_content (write_buf (peer_at t i)) = sb_content (write_buf (peer_at s i)) @ echo_msg body \<and>
      write_bak t = FD_SET (p_socket (peer_at s i)) (write_bak s)"
    using net_onRead_whole [OF assms] by metis
next
  fix body xs
  assume "length body < 2 ^ 31 - 4" "echo_msg body = sb_content (read_buf (peer_at s i)) @ xs" "xs \<noteq> []"
  then show "net_onRead i (serial (peer_at s i)) s = returns 0 s" by (rule net_onRead_part [OF assms])
qed

lemma echo_takes_message_witness:
  "\<exists>t. net_onRead 0 0 one_online = returns 0 t \<and> sb_content (read_buf (peer_at t 0)) = [3] \<and>
     sb_content (write_buf (peer_at t 0)) = echo_msg [7, 9]"
  using echo_takes_message [OF one_online_facts(1,3), THEN conjunct1, rule_format, of "[7, 9]" "[3]"]
  by (auto simp: one_online_facts(2) one_peer_facts)

text \<open>
  Closing a peer, when the client's callback does nothing, ends its handle: what is sent or
  closed with it afterwards changes nothing.  But the socket is forgotten before it is closed:
  the call closes \<open>INVALID_SOCKET\<close>, and the loop goes on waiting for the socket.
\<close>

theorem closed_peer_leaks_socket:
  assumes "registry_ok s" "quiet_disconnect cb" "i \<in> set (online_peer_set s)"
  shows "\<exists>t. closePeer cb s (of_nat i) (serial (peer_at s i)) = returns () t \<and>
    set (online_peer_set t) = set (online_peer_set s) - {i} \<and>
    closed (sv_sys t) = INVALID_SOCKET # closed (sv_sys s) \<and>
    (p_socket (peer_at s i) \<in> set (read_bak s) \<longrightarrow> p_socket (peer_at s i) \<in> set (read_bak t)) \<and>
    (\<forall>cb' buf len. send_peer t (of_nat i) (serial (peer_at s i)) buf len = returns () t \<and>
      closePeer cb' t (of_nat i) (serial (peer_at s i)) = returns () t)"
proof -
  have i: "i < MAX_PEER_NUM" "p_socket (peer_at s i) \<noteq> - 1" "length (peer_array s) = MAX_PEER_NUM"
    "distinct (online_peer_set s)"
    using assms(1,3) by (simp_all add: registry_ok_def)
  note drop = drop_peer_simps [OF i(3,1)]
  have "p_socket (peer_at (drop_peer i s) i) = - 1" by (simp add: drop)
  note closed_handle [OF i(1) this]
  then show ?thesis
    using closePeer_drops [OF assms(2) i(1,2)] i(2,4) by (auto simp: drop INVALID_SOCKET_def)
qed

lemma closed_peer_leaks_socket_witness:
  "\<exists>t. closePeer net_event one_online 0 0 = returns () t \<and> online_peer_set t = [] \<and> 6 \<notin> set (closed (sv_sys t))"
proof -
  have reg: "registry_ok one_online" using one_online_facts(1) by (simp add: echo_inv_def)
  have "online_peer_set one_online = [0]" "closed (sv_sys one_online) = []"
    by (simp_all add: one_online_def message_os_def example_os_def)
  moreover obtain t where "closePeer net_event one_online (of_nat 0) (serial (peer_at one_online 0)) = returns () t"
    "set (online_peer_set t) = set (online_peer_set one_online) - {0}"
    "closed (sv_sys t) = INVALID_SOCKET # closed (sv_sys one_online)"
    using closed_peer_leaks_socket [OF reg quiet_net_event one_online_facts(3)] by blast
  ultimately show ?thesis
    by (intro exI [of _ t]) (simp add: one_online_facts(2) one_peer_facts INVALID_SOCKET_def)
qed

end
