(* ===== verification/LibBuffer.thy ===== *)
theory LibBuffer
  imports PeerService
begin

text \<open>
  The socket buffer of \<open>net_libs/libnet\<close> (\<open>sockbuf.cpp\<close>): the code of \<open>net_select\<close>, with \<open>push\<close>
  called \<open>apendBuf\<close> and another allocation: \<open>mpAlloc\<close> throws when \<open>malloc\<close> fails.

  The lemmas assume one thing of \<open>malloc\<close>: the program runs as a process of 32 bits, of whose
  address space Windows gives it two gigabytes, so no block of that size can be had
  (\<open>small_blocks\<close>).  Whatever else it answers, every operation returns with its effect on the
  content, or throws.
\<close>

section \<open>The code\<close>

definition mpAlloc :: "sockbuf \<Rightarrow> 32 word \<Rightarrow> (byte list, sockbuf) attempt" where
  "mpAlloc b n =
     (case take_block b n of (None, b) \<Rightarrow> throws b | (Some p, b) \<Rightarrow> returns p b)"

definition lib_SockBuf_new :: "sockbuf \<Rightarrow> 32 word \<Rightarrow> (unit, sockbuf) attempt" where
  "lib_SockBuf_new b capacity =
     (let b = b\<lparr>m_size := capacity\<rparr> in
      and_then (mpAlloc b (m_size b)) (\<lambda>p b.
        returns () (b\<lparr>sb_buf := Some p, m_read_index := 0, m_write_index := 0\<rparr>)))"

definition lib_makeSpace :: "sockbuf \<Rightarrow> 32 word \<Rightarrow> (unit, sockbuf) attempt" where
  "lib_makeSpace b len =
     and_then (readableBytes b) (\<lambda>readable b.
     and_then (writableBytes b) (\<lambda>writable b.
       if writable + m_read_index b < len
       then and_then (mpAlloc b (m_write_index b + len)) (\<lambda>new b. do {
         let b = b\<lparr>m_size := m_write_index b + len\<rparr>;
         old \<leftarrow> sb_buf b;
         xs \<leftarrow> fetch old (unat (m_read_index b)) (unat readable);
         new \<leftarrow> poke new 0 xs;
         returns () (b\<lparr>m_read_index := 0, m_write_index := readable, sb_buf := Some new\<rparr>)
       })
       else do {
         buf \<leftarrow> sb_buf b;
         xs \<leftarrow> fetch buf (unat (m_read_index b)) (unat readable);
         buf \<leftarrow> poke buf 0 xs;
         returns () (b\<lparr>sb_buf := Some buf, m_read_index := 0, m_write_index := readable\<rparr>)
       }))"

definition lib_ensureWritableBytes :: "sockbuf \<Rightarrow> 32 word \<Rightarrow> (unit, sockbuf) attempt" where
  "lib_ensureWritableBytes b len =
     and_then (writableBytes b) (\<lambda>writable b.
       if writable < len then lib_makeSpace b len else returns () b)"

definition apendBuf :: "sockbuf \<Rightarrow> byte list \<Rightarrow> 32 word \<Rightarrow> (unit, sockbuf) attempt" where
  "apendBuf b buf len =
     and_then (lib_ensureWritableBytes b len) (\<lambda>_ b. do {
       xs \<leftarrow> fetch buf 0 (unat len);
       old \<leftarrow> sb_buf b;
       new \<leftarrow> poke old (unat (m_write_index b)) xs;
       let b = b\<lparr>sb_buf := Some new, m_write_index := m_write_index b + len\<rparr>;
       if m_write_index b > m_size b then throws b else returns () b
     })"

section \<open>The content\<close>

definition small_blocks :: "sockbuf \<Rightarrow> bool" where
  "small_blocks b \<longleftrightarrow> (\<forall>k n. sb_malloc b k n \<noteq> None \<longrightarrow> unat n < 2 ^ 31)"

lemma small_blocks_simps [simp]:
  "small_blocks (b\<lparr>sb_buf := x\<rparr>) = small_blocks b" "small_blocks (b\<lparr>m_size := n\<rparr>) = small_blocks b"
  "small_blocks (b\<lparr>m_read_index := r\<rparr>) = small_blocks b" "small_blocks (b\<lparr>m_write_index := w\<rparr>) = small_blocks b"
  "small_blocks (b\<lparr>sb_mallocs := k\<rparr>) = small_blocks b"
  by (simp_all add: small_blocks_def)

definition lib_ok :: "sockbuf \<Rightarrow> bool" where
  "lib_ok b \<longleftrightarrow> (\<exists>bs. sb_buf b = Some bs \<and> length bs = unat (m_size b)) \<and>
     m_read_index b \<le> m_write_index b \<and> m_write_index b \<le> m_size b \<and> unat (m_size b) < 2 ^ 31 \<and> small_blocks b"

lemma lib_okE:
  assumes "lib_ok b"
  obtains bs r w where "sb_buf b = Some bs" "unat (m_read_index b) = r" "unat (m_write_index b) = w"
    "unat (m_size b) = length bs" "r \<le> w" "w \<le> length bs" "length bs < 2 ^ 31"
    "sb_content b = take (w - r) (drop r bs)" "length (sb_content b) = w - r" "small_blocks b"
  using assms by (auto simp: lib_ok_def sb_content_def word_le_nat_alt)

lemma lib_readable:
  assumes "lib_ok b"
  obtains n where "readableBytes b = returns n b" "unat n = length (sb_content b)"
proof -
  obtain bs r w where *: "sb_buf b = Some bs" "unat (m_read_index b) = r" "unat (m_write_index b) = w"
    "unat (m_size b) = length bs" "r \<le> w" "w \<le> length bs" "length bs < 2 ^ 31"
    "length (sb_content b) = w - r"
    using assms by (rule lib_okE) blast
  then have n: "unat (m_write_index b - m_read_index b) = w - r"
    by (simp add: unat_sub word_le_nat_alt)
  then have "\<not> sint (m_write_index b - m_read_index b) < 0" using * by (simp add: sint_small)
  then show ?thesis using that [of "m_write_index b - m_read_index b"] n *
    by (simp add: readableBytes_def)
qed

lemma lib_writable:
  assumes "lib_ok b"
  obtains n where "writableBytes b = returns n b" "unat n = unat (m_size b) - unat (m_write_index b)"
proof -
  obtain bs r w where *: "sb_buf b = Some bs" "unat (m_read_index b) = r" "unat (m_write_index b) = w"
    "unat (m_size b) = length bs" "r \<le> w" "w \<le> length bs" "length bs < 2 ^ 31"
    using assms by (rule lib_okE) blast
  then have n: "unat (m_size b - m_write_index b) = length bs - w"
    by (simp add: unat_sub word_le_nat_alt)
  then have "\<not> sint (m_size b - m_write_index b) < 0" using * by (simp add: sint_small)
  then show ?thesis using that [of "m_size b - m_write_index b"] n * by (simp add: writableBytes_def)
qed

text \<open>Its block is numbered by the calls of \<open>malloc\<close>; with the same number it has the same size.\<close>

definition same_block :: "sockbuf \<Rightarrow> sockbuf \<Rightarrow> bool" where
  "same_block b b' \<longleftrightarrow> sb_mallocs b \<le> sb_mallocs b' \<and> (sb_mallocs b' = sb_mallocs b \<longrightarrow> m_size b' = m_size b)"

lemma same_block_refl [simp]: "same_block b b"
  by (simp add: same_block_def)

lemma mpAlloc_ends:
  assumes "small_blocks b"
  shows "ends (\<lambda>p b'. length p = unat n \<and> unat n < 2 ^ 31 \<and> b' = b\<lparr>sb_mallocs := Suc (sb_mallocs b)\<rparr>)
    (mpAlloc b n)"
  using assms by (auto simp: mpAlloc_def take_block_def small_blocks_def split: option.splits)

lemma lib_SockBuf_new_ends:
  assumes "small_blocks b"
  shows "ends (\<lambda>_ b'. lib_ok b' \<and> sb_content b' = []) (lib_SockBuf_new b n)"
  unfolding lib_SockBuf_new_def Let_def
  by (rule ends_and_then [OF mpAlloc_ends]) (use assms in \<open>auto simp: lib_ok_def sb_content_def\<close>)

lemma lib_makeSpace_ends:
  assumes ok: "lib_ok b" and len: "unat len < 2 ^ 31"
  shows "ends (\<lambda>_ b'. lib_ok b' \<and> sb_content b' = sb_content b \<and>
    unat len \<le> unat (m_size b') - unat (m_write_index b') \<and> same_block b b') (lib_makeSpace b len)"
proof -
  obtain bs r w where *: "sb_buf b = Some bs" "unat (m_read_index b) = r" "unat (m_write_index b) = w"
    "unat (m_size b) = length bs" "r \<le> w" "w \<le> length bs" "length bs < 2 ^ 31"
    "sb_content b = take (w - r) (drop r bs)" "length (sb_content b) = w - r"
    using ok by (rule lib_okE)
  obtain nr where nr: "readableBytes b = returns nr b" "unat nr = w - r"
    using lib_readable [OF ok] *(9) by metis
  obtain nw where nw: "writableBytes b = returns nw b" "unat nw = length bs - w"
    using lib_writable [OF ok] *(3,4) by metis
  have sum1: "unat (nw + m_read_index b) = length bs - w + r"
    using * nw(2) by (subst unat_add_lem [THEN iffD1]) simp_all
  have sum2: "unat (m_write_index b + len) = w + unat len"
    using * len by (subst unat_add_lem [THEN iffD1]) simp_all
  have content: "fetch bs r (w - r) = Some (sb_content b)" using * by (simp add: fetch_def)
  have small: "small_blocks b" using ok by (simp add: lib_ok_def)
  show ?thesis
  proof (cases "nw + m_read_index b < len")
    case True
    then have less: "w - r \<le> w + unat len" by simp
    show ?thesis
      unfolding lib_makeSpace_def using True
      apply (simp add: nr nw)
      apply (rule ends_and_then [OF mpAlloc_ends [OF small]])
      using * less small by (auto simp: sum2 content poke_def lib_ok_def sb_content_def word_le_nat_alt nr(2) same_block_def)
  next
    case False
    then have less: "unat len \<le> length bs - w + r" by (simp add: word_less_nat_alt sum1)
    then show ?thesis
      unfolding lib_makeSpace_def using False * small
      by (auto simp: nr nw content poke_def lib_ok_def sb_content_def word_le_nat_alt same_block_def)
  qed
qed

text \<open>A buffer in which there is room is left as it is.\<close>

lemma lib_ensure_ends:
  assumes ok: "lib_ok b" and len: "unat len < 2 ^ 31"
  shows "ends (\<lambda>_ b'. lib_ok b' \<and> sb_content b' = sb_content b \<and>
    unat len \<le> unat (m_size b') - unat (m_write_index b') \<and> same_block b b') (lib_ensureWritableBytes b len)"
proof -
  obtain n where n: "writableBytes b = returns n b" "unat n = unat (m_size b) - unat (m_write_index b)"
    using ok by (rule lib_writable)
  then show ?thesis
    using ok lib_makeSpace_ends [OF ok len]
    by (simp add: lib_ensureWritableBytes_def word_less_nat_alt)
qed

lemma lib_fill:
  assumes ok: "lib_ok b" and room: "length xs \<le> unat (m_size b) - unat (m_write_index b)"
  obtains old new b' where "sb_buf b = Some old" "poke old (unat (m_write_index b)) xs = Some new"
    "b' = b\<lparr>sb_buf := Some new, m_write_index := m_write_index b + of_nat (length xs)\<rparr>"
    "\<not> m_write_index b' > m_size b'" "lib_ok b'" "sb_content b' = sb_content b @ xs"
proof -
  obtain bs r w where *: "sb_buf b = Some bs" "unat (m_read_index b) = r" "unat (m_write_index b) = w"
    "unat (m_size b) = length bs" "r \<le> w" "w \<le> length bs" "length bs < 2 ^ 31"
    "sb_content b = take (w - r) (drop r bs)" "length (sb_content b) = w - r" "small_blocks b"
    using ok by (rule lib_okE)
  define new where "new = take w bs @ xs @ drop (w + length xs) bs"
  define b' where "b' = b\<lparr>sb_buf := Some new, m_write_index := m_write_index b + of_nat (length xs)\<rparr>"
  have fits: "w + length xs \<le> length bs" using room * by simp
  then have "unat (of_nat (length xs) :: 32 word) = length xs" using * by (simp add: unat_of_nat take_bit_eq_mod)
  then have w': "unat (m_write_index b + of_nat (length xs)) = w + length xs"
    using * fits by (subst unat_add_lem [THEN iffD1]) simp_all
  have new: "length new = length bs" "take (w + length xs - r) (drop r new) = take (w - r) (drop r bs) @ xs"
    using fits * by (simp_all add: new_def drop_take)
  show ?thesis
  proof (rule that [of bs new b'])
    show "poke bs (unat (m_write_index b)) xs = Some new" using fits * by (simp add: poke_def new_def)
    show "\<not> m_write_index b' > m_size b'" using fits * w' by (simp add: b'_def word_less_nat_alt)
    show "lib_ok b'" using * fits w' new by (simp add: lib_ok_def b'_def word_le_nat_alt)
    show "sb_content b' = sb_content b @ xs" using * w' new by (simp add: sb_content_def b'_def)
  qed (use * in \<open>simp_all add: b'_def\<close>)
qed

lemma apendBuf_ends:
  assumes ok: "lib_ok b" and len: "length xs < 2 ^ 31"
  shows "ends (\<lambda>_ b'. lib_ok b' \<and> sb_content b' = sb_content b @ xs) (apendBuf b xs (of_nat (length xs)))"
proof -
  have un: "unat (of_nat (length xs) :: 32 word) = length xs"
    using len by (simp add: unat_of_nat take_bit_eq_mod)
  have put: "ends (\<lambda>_ b'. lib_ok b' \<and> sb_content b' = sb_content b @ xs)
      (do {
        ys \<leftarrow> fetch xs 0 (unat (of_nat (length xs) :: 32 word));
        old \<leftarrow> sb_buf b1;
        new \<leftarrow> poke old (unat (m_write_index b1)) ys;
        let b' = b1\<lparr>sb_buf := Some new, m_write_index := m_write_index b1 + of_nat (length xs)\<rparr>;
        if m_write_index b' > m_size b' then throws b' else returns () b'
      })"
    if b1: "lib_ok b1" "sb_content b1 = sb_content b" "length xs \<le> unat (m_size b1) - unat (m_write_index b1)"
    for b1
  proof -
    obtain old new b' where "sb_buf b1 = Some old" "poke old (unat (m_write_index b1)) xs = Some new"
      "b' = b1\<lparr>sb_buf := Some new, m_write_index := m_write_index b1 + of_nat (length xs)\<rparr>"
      "\<not> m_write_index b' > m_size b'" "lib_ok b'" "sb_content b' = sb_content b1 @ xs"
      using lib_fill [OF b1(1,3)] by metis
    with b1(2) show ?thesis by (simp add: un fetch_def Let_def)
  qed
  show ?thesis unfolding apendBuf_def
    by (rule ends_and_then [OF lib_ensure_ends [OF ok]]) (use len put un in \<open>auto\<close>)
qed

lemma lib_readMove:
  assumes ok: "lib_ok b" and len: "unat len \<le> length (sb_content b)"
  obtains b' where "readMove b len = returns () b'" "lib_ok b'" "sb_content b' = drop (unat len) (sb_content b)"
    "b' = b\<lparr>m_read_index := m_read_index b + len\<rparr>"
proof -
  obtain bs r w where *: "sb_buf b = Some bs" "unat (m_read_index b) = r" "unat (m_write_index b) = w"
    "unat (m_size b) = length bs" "r \<le> w" "w \<le> length bs" "length bs < 2 ^ 31"
    "sb_content b = take (w - r) (drop r bs)" "length (sb_content b) = w - r" "small_blocks b"
    using ok by (rule lib_okE)
  have sum: "unat (m_read_index b + len) = r + unat len"
    using * len by (subst unat_add_lem [THEN iffD1]) simp_all
  show ?thesis
    using * len
    by (intro that [of "b\<lparr>m_read_index := m_read_index b + len\<rparr>"])
      (auto simp: readMove_def Let_def lib_ok_def sb_content_def word_le_nat_alt word_less_nat_alt sum
        drop_take add.commute [of "unat len"])
qed

text \<open>What the system has stored behind the content becomes content.\<close>

lemma lib_writeMove:
  assumes ok: "lib_ok b" and room: "length xs \<le> unat (m_size b) - unat (m_write_index b)"
    and stored: "sb_buf b = Some bs" "take (length xs) (drop (unat (m_write_index b)) bs) = xs"
  obtains b' where "writeMove b (of_nat (length xs)) = returns () b'" "lib_ok b'"
    "sb_content b' = sb_content b @ xs" "b' = b\<lparr>m_write_index := m_write_index b + of_nat (length xs)\<rparr>"
proof -
  obtain new b' where b': "poke bs (unat (m_write_index b)) xs = Some new"
    "b' = b\<lparr>sb_buf := Some new, m_write_index := m_write_index b + of_nat (length xs)\<rparr>"
    "\<not> m_write_index b' > m_size b'" "lib_ok b'" "sb_content b' = sb_content b @ xs"
    using lib_fill [OF ok room] stored(1) by (metis option.inject)
  have "new = bs" using b'(1) stored(2)
    by (auto simp: poke_def split: if_splits) (metis append_take_drop_id drop_drop add.commute)
  with b' stored(1) have "b' = b\<lparr>m_write_index := m_write_index b + of_nat (length xs)\<rparr>" by simp
  with b' show ?thesis by (intro that [of b']) (auto simp: writeMove_def Let_def)
qed

lemma lib_reset: "lib_ok b \<Longrightarrow> lib_ok (sb_reset b)" "lib_ok b \<Longrightarrow> sb_content (sb_reset b) = []"
  by (auto simp: sb_reset_def lib_ok_def sb_content_def)

end
