(* ===== verification/FreeList.thy ===== *)
theory FreeList
  imports Bytes
begin

text \<open>
  The free list of \<open>net_libs/libbase/export/yy_freelist.h\<close>: nodes that are no longer used are
  linked to a stack and handed out again.  A node is its address; the addresses that \<open>new\<close> has
  not given out yet are those from \<open>fl_fresh\<close> on.
\<close>

record freelist =
  free_list :: "nat list"
  fl_fresh :: nat
  fl_live :: "nat list"

text \<open>\<open>fl_live\<close>: the nodes that \<open>new\<close> has made and \<open>delete\<close> has not been called for.\<close>

definition FreeList_new :: "nat \<Rightarrow> freelist" where
  "FreeList_new a = \<lparr>free_list = [], fl_fresh = a, fl_live = []\<rparr>"

definition allocElem :: "freelist \<Rightarrow> nat \<times> freelist" where
  "allocElem f =
     (case free_list f of
        p # next_node \<Rightarrow> (p, f\<lparr>free_list := next_node\<rparr>)
      | [] \<Rightarrow> (fl_fresh f, f\<lparr>fl_fresh := Suc (fl_fresh f), fl_live := fl_fresh f # fl_live f\<rparr>))"

definition freeElem :: "nat option \<Rightarrow> freelist \<Rightarrow> freelist" where
  "freeElem p f = (case p of None \<Rightarrow> f | Some a \<Rightarrow> f\<lparr>free_list := a # free_list f\<rparr>)"

text \<open>
  The loop of \<open>clear\<close>: it moves on to the next node before it deletes, so what it deletes is the
  node it reads in the next round; deleting \<open>NULL\<close> does nothing.  Reading or deleting a node
  that is not live is undefined.
\<close>

fun clear_loop :: "nat list \<Rightarrow> nat list \<Rightarrow> nat list option" where
  "clear_loop [] live = Some live"
| "clear_loop (t # ps) live =
     (if t \<notin> set live then None
      else case ps of
        [] \<Rightarrow> Some live
      | p # _ \<Rightarrow> if p \<in> set live then clear_loop ps (remove1 p live) else None)"

definition clear :: "freelist \<Rightarrow> freelist option" where
  "clear f = map_option (\<lambda>live. f\<lparr>fl_live := live, free_list := []\<rparr>) (clear_loop (free_list f) (fl_live f))"

section \<open>Elements in use\<close>

text \<open>
  With \<open>used\<close> the elements handed out and not yet given back: an element is handed out to one
  client at a time, and every node that was made is either used or in the list.
\<close>

definition pool_ok :: "freelist \<Rightarrow> nat list \<Rightarrow> bool" where
  "pool_ok f used \<longleftrightarrow> distinct (free_list f @ used) \<and> distinct (fl_live f) \<and>
     set (fl_live f) = set (free_list f) \<union> set used \<and> (\<forall>a \<in> set (fl_live f). a < fl_fresh f)"

lemma pool_ok_new: "pool_ok (FreeList_new a) []"
  by (simp add: pool_ok_def FreeList_new_def)

lemma allocElem_ok:
  assumes "pool_ok f used" "allocElem f = (p, f')"
  shows "pool_ok f' (p # used)" "p \<notin> set used"
  using assms by (auto simp: pool_ok_def allocElem_def less_Suc_eq split: list.splits)

lemma freeElem_ok:
  assumes "pool_ok f (us @ p # vs)"
  shows "pool_ok (freeElem (Some p) f) (us @ vs)"
  using assms by (auto simp: pool_ok_def freeElem_def)

text \<open>An element that its client forgets stays used.\<close>

lemma pool_ok_perm: "pool_ok f us \<Longrightarrow> distinct vs \<Longrightarrow> set vs = set us \<Longrightarrow> pool_ok f vs"
  by (auto simp: pool_ok_def)

text \<open>
  With one node in the list \<open>clear\<close> forgets it without deleting it; with two or more it reads a
  node that it has just deleted.
\<close>

lemma clear_forgets:
  assumes "pool_ok f used" "free_list f = [p]"
  shows "clear f = Some (f\<lparr>free_list := []\<rparr>)" "p \<in> set (fl_live f)"
  using assms by (auto simp: pool_ok_def clear_def)

text \<open>
  Clearing a free list with two or more nodes is undefined behaviour: the loop deletes the
  second node and then reads its link.
\<close>

theorem clear_reads_deleted_node:
  assumes "pool_ok f used" "free_list f = p # q # nodes"
  shows "clear f = None"
  using assms by (auto simp: pool_ok_def clear_def)

theorem clear_reads_deleted_node_witness:
  "clear (freeElem (Some 1) (freeElem (Some 0) (snd (allocElem (snd (allocElem (FreeList_new 0))))))) = None"
  by (rule clear_reads_deleted_node [of _ "[]" 1 0 "[]"])
    (auto simp: pool_ok_def freeElem_def allocElem_def FreeList_new_def)

end
