(* ===== verification/IocpService.thy ===== *)
theory IocpService
  imports LibBuffer FreeList
begin

text \<open>
  The service of \<open>net_libs/libnet\<close> on a completion port (\<open>Win_IOCP_io_service.cpp\<close>,
  \<open>peer_manager.cpp\<close>, \<open>socket_wrap.h\<close>, \<open>sockbuf.cpp\<close>): requests to send and to receive are
  posted, and the loop takes their completions.  While a request is posted the system reads or
  writes the memory of a buffer, which must stay where it is: bytes to be sent wait in a second
  buffer until the request that is under way has been answered.

  A posted request is an entry of \<open>io_requests\<close>; which of them the system completes next, and
  with how many bytes, is its answer to \<open>GetQueuedCompletionStatus\<close>.
\<close>

section \<open>Data\<close>

definition LIB_PEER_NUM :: nat where "LIB_PEER_NUM = 1024 * 5"

datatype IO_OPERATION = ClientIoUnknown | ClientIoRead | ClientIoWrite

text \<open>
  What the system has been asked to do: to store what arrives at a place of a block (the number
  of the block, the offset and the room), to send bytes, or only to notify.
\<close>

datatype transfer = Receive nat "32 word" "32 word" | Transmit "byte list" | Notify

record io_request =
  rq_context :: nat
  rq_key :: nat
  rq_socket :: socket
  rq_transfer :: transfer

text \<open>
  An answer of \<open>GetQueuedCompletionStatus\<close>: the time is up, another error, the request at a
  place has failed with \<open>ERROR_NETNAME_DELETED\<close>, or it has succeeded, with the bytes that have
  arrived or the number of bytes that were sent.
\<close>

datatype completion = TimeUp | OtherError | Deleted nat | Success nat "byte list" nat

record iocp =
  io_peers :: "peer list"
  io_serial :: "64 word"
  io_listen :: socket
  io_pool :: freelist
  io_operation :: "nat \<Rightarrow> IO_OPERATION"
  io_requests :: "io_request list"
  io_answer :: "nat \<Rightarrow> completion"
  io_sys :: os

record io_callbacks =
  ioCon :: "(nat \<Rightarrow> 64 word \<Rightarrow> iocp \<Rightarrow> (unit, iocp) attempt) option"
  ioDis :: "(nat \<Rightarrow> 64 word \<Rightarrow> iocp \<Rightarrow> (unit, iocp) attempt) option"
  ioRead :: "(nat \<Rightarrow> 64 word \<Rightarrow> iocp \<Rightarrow> (int, iocp) attempt) option"

definition io_peer :: "iocp \<Rightarrow> nat \<Rightarrow> peer" where
  "io_peer s i = io_peers s ! i"

definition put_peer :: "nat \<Rightarrow> peer \<Rightarrow> iocp \<Rightarrow> iocp" where
  "put_peer i p s = s\<lparr>io_peers := (io_peers s)[i := p]\<rparr>"

text \<open>A call of a method of one of the buffers of peer \<open>i\<close>.\<close>

definition on_buf :: "(peer \<Rightarrow> sockbuf) \<Rightarrow> (sockbuf \<Rightarrow> peer \<Rightarrow> peer) \<Rightarrow> nat \<Rightarrow>
    (sockbuf \<Rightarrow> ('a, sockbuf) attempt) \<Rightarrow> iocp \<Rightarrow> ('a, iocp) attempt" where
  "on_buf get put i f s = do {
     (r, b) \<leftarrow> f (get (io_peer s i));
     Some (r, put_peer i (put b (io_peer s i)) s)
   }"

abbreviation on_rbuf :: "nat \<Rightarrow> (sockbuf \<Rightarrow> ('a, sockbuf) attempt) \<Rightarrow> iocp \<Rightarrow> ('a, iocp) attempt" where
  "on_rbuf \<equiv> on_buf read_buf (\<lambda>b p. p\<lparr>read_buf := b\<rparr>)"

abbreviation on_wbuf :: "nat \<Rightarrow> (sockbuf \<Rightarrow> ('a, sockbuf) attempt) \<Rightarrow> iocp \<Rightarrow> ('a, iocp) attempt" where
  "on_wbuf \<equiv> on_buf write_buf (\<lambda>b p. p\<lparr>write_buf := b\<rparr>)"

abbreviation on_backup :: "nat \<Rightarrow> (sockbuf \<Rightarrow> ('a, sockbuf) attempt) \<Rightarrow> iocp \<Rightarrow> ('a, iocp) attempt" where
  "on_backup \<equiv> on_buf write_buf_backup (\<lambda>b p. p\<lparr>write_buf_backup := b\<rparr>)"

section \<open>The table of peers\<close>

text \<open>The constructor of a peer in a piece of memory: an exception of a buffer is \<open>None\<close>.\<close>

definition lib_buf :: "sockbuf \<Rightarrow> sockbuf option" where
  "lib_buf b = (case lib_SockBuf_new b 100 of Some (Inr _, b) \<Rightarrow> Some b | _ \<Rightarrow> None)"

definition lib_peer_new :: "peer \<Rightarrow> peer option" where
  "lib_peer_new p = do {
     r \<leftarrow> lib_buf (read_buf p);
     w \<leftarrow> lib_buf (write_buf p);
     k \<leftarrow> lib_buf (write_buf_backup p);
     Some (p\<lparr>read_buf := r, write_buf := w, write_buf_backup := k, wsa_send := False,
       p_socket := INVALID_SOCKET, local_ip := [], local_port := 0, remote_ip := [],
       remote_port := 0, serial := 0\<rparr>)
   }"

definition lib_PeerManager_new :: "(nat \<Rightarrow> peer) \<Rightarrow> peer list option" where
  "lib_PeerManager_new memory = those (map (\<lambda>i. lib_peer_new (memory i)) [0..<LIB_PEER_NUM])"

definition fresh_peer :: "iocp \<Rightarrow> nat \<Rightarrow> iocp" where
  "fresh_peer s i =
     put_peer i ((io_peer s i)\<lparr>serial := io_serial s, p_socket := INVALID_SOCKET,
         read_buf := sb_reset (read_buf (io_peer s i)), write_buf := sb_reset (write_buf (io_peer s i)),
         write_buf_backup := sb_reset (write_buf_backup (io_peer s i)), wsa_send := False,
         local_ip := [], local_port := 0, remote_ip := [], remote_port := 0\<rparr>)
       (s\<lparr>io_serial := io_serial s + 1\<rparr>)"

function newPeer_from :: "iocp \<Rightarrow> nat \<Rightarrow> 32 word \<times> iocp" where
  "newPeer_from s i =
     (if i < LIB_PEER_NUM
      then if p_socket (io_peer s i) \<noteq> INVALID_SOCKET then newPeer_from s (i + 1)
           else (of_nat i, fresh_peer s i)
      else (- 1, s))"
  by pat_completeness auto

termination
  by (relation "measure (\<lambda>(s, i). LIB_PEER_NUM - i)") auto

declare newPeer_from.simps [simp del]

definition newPeer :: "iocp \<Rightarrow> 32 word \<times> iocp" where
  "newPeer s = newPeer_from s 0"

definition lib_getPeer :: "32 word \<Rightarrow> iocp \<Rightarrow> (nat, iocp) attempt" where
  "lib_getPeer index s = (if unat index \<ge> LIB_PEER_NUM then throws s else returns (unat index) s)"

definition deletePeer :: "32 word \<Rightarrow> iocp \<Rightarrow> (unit, iocp) attempt" where
  "deletePeer index s = and_then (lib_getPeer index s)
     (\<lambda>i s. returns () (put_peer i ((io_peer s i)\<lparr>p_socket := INVALID_SOCKET\<rparr>) s))"

section \<open>Requests\<close>

definition io_call :: "iocp \<Rightarrow> call_answer \<times> iocp" where
  "io_call s = (let (r, w) = system_call (io_sys s) in (r, s\<lparr>io_sys := w\<rparr>))"

definition newIOCxt :: "IO_OPERATION \<Rightarrow> iocp \<Rightarrow> nat \<times> iocp" where
  "newIOCxt type s =
     (let (a, f) = allocElem (io_pool s) in
      (a, s\<lparr>io_pool := f, io_operation := (io_operation s)(a := type)\<rparr>))"

definition deleteIOCxt :: "nat option \<Rightarrow> iocp \<Rightarrow> iocp" where
  "deleteIOCxt cxt s = s\<lparr>io_pool := freeElem cxt (io_pool s)\<rparr>"

definition io_closePeer :: "io_callbacks \<Rightarrow> 32 word \<Rightarrow> 64 word \<Rightarrow> iocp \<Rightarrow> (unit, iocp) attempt" where
  "io_closePeer cb index ser s =
     and_then (lib_getPeer index s) (\<lambda>i s.
       if serial (io_peer s i) \<noteq> ser \<or> p_socket (io_peer s i) = INVALID_SOCKET then returns () s
       else and_then (case ioDis cb of None \<Rightarrow> returns () s | Some f \<Rightarrow> f i ser s) (\<lambda>_ s.
         deletePeer index
           (s\<lparr>io_sys := (io_sys s)\<lparr>closed := p_socket (io_peer s i) # closed (io_sys s)\<rparr>\<rparr>)))"

definition post_request :: "io_request \<Rightarrow> iocp \<Rightarrow> iocp" where
  "post_request rq s = s\<lparr>io_requests := io_requests s @ [rq]\<rparr>"

text \<open>
  \<open>WSARecv\<close> and \<open>WSASend\<close>: they succeed, or fail with \<open>ERROR_IO_PENDING\<close> (both post the request)
  or with another error.
\<close>

definition wsa_call :: "io_callbacks \<Rightarrow> 32 word \<Rightarrow> 64 word \<Rightarrow> io_request \<Rightarrow> iocp \<Rightarrow> (unit, iocp) attempt" where
  "wsa_call cb index ser rq s =
     (let (r, s) = io_call s in
      if r = Fails False then io_closePeer cb index ser s else returns () (post_request rq s))"

definition start_receive :: "io_callbacks \<Rightarrow> 32 word \<Rightarrow> 64 word \<Rightarrow> nat \<Rightarrow> iocp \<Rightarrow> (unit, iocp) attempt" where
  "start_receive cb index ser i s =
     (let (cxt, s) = newIOCxt ClientIoRead s in
      and_then (on_rbuf i (\<lambda>b. lib_ensureWritableBytes b 512) s) (\<lambda>_ s.
      and_then (on_rbuf i writableBytes s) (\<lambda>room s.
        let b = read_buf (io_peer s i) in
        wsa_call cb index ser \<lparr>rq_context = cxt, rq_key = i, rq_socket = p_socket (io_peer s i),
            rq_transfer = Receive (sb_mallocs b) (m_write_index b) room\<rparr> s)))"

definition postRecvRequest :: "io_callbacks \<Rightarrow> 32 word \<Rightarrow> 64 word \<Rightarrow> iocp \<Rightarrow> (unit, iocp) attempt" where
  "postRecvRequest cb index ser s =
     and_then (lib_getPeer index s) (\<lambda>i s.
       if serial (io_peer s i) \<noteq> ser \<or> p_socket (io_peer s i) = INVALID_SOCKET then returns () s
       else start_receive cb index ser i s)"

definition start_send :: "io_callbacks \<Rightarrow> 32 word \<Rightarrow> 64 word \<Rightarrow> nat \<Rightarrow> iocp \<Rightarrow> (unit, iocp) attempt" where
  "start_send cb index ser i s =
     (let s = put_peer i ((io_peer s i)\<lparr>wsa_send := True\<rparr>) s; (cxt, s) = newIOCxt ClientIoWrite s in
      and_then (on_wbuf i readableBytes s) (\<lambda>len s. do {
        let b = write_buf (io_peer s i);
        buf \<leftarrow> sb_buf b;
        xs \<leftarrow> fetch buf (unat (m_read_index b)) (unat len);
        wsa_call cb index ser \<lparr>rq_context = cxt, rq_key = i, rq_socket = p_socket (io_peer s i),
          rq_transfer = Transmit xs\<rparr> s
      }))"

definition postSendRequest :: "io_callbacks \<Rightarrow> 32 word \<Rightarrow> 64 word \<Rightarrow> iocp \<Rightarrow> (unit, iocp) attempt" where
  "postSendRequest cb index ser s =
     and_then (lib_getPeer index s) (\<lambda>i s.
       if serial (io_peer s i) \<noteq> ser \<or> p_socket (io_peer s i) = INVALID_SOCKET then returns () s
       else start_send cb index ser i s)"

text \<open>If nothing is being sent, \<open>send\<close> posts a notification, which makes the loop start.\<close>

definition wake :: "nat \<Rightarrow> iocp \<Rightarrow> (unit, iocp) attempt" where
  "wake i s =
     (if wsa_send (io_peer s i) then returns () s
      else let s = put_peer i ((io_peer s i)\<lparr>wsa_send := True\<rparr>) s;
               (cxt, s) = newIOCxt ClientIoWrite s; (r, s) = io_call s in
        if r \<noteq> Done then throws s
        else returns () (post_request \<lparr>rq_context = cxt, rq_key = i, rq_socket = p_socket (io_peer s i),
          rq_transfer = Notify\<rparr> s))"

definition io_send :: "32 word \<Rightarrow> 64 word \<Rightarrow> byte list \<Rightarrow> 32 word \<Rightarrow> iocp \<Rightarrow> (unit, iocp) attempt" where
  "io_send index ser buf len s =
     and_then (lib_getPeer index s) (\<lambda>i s.
       if serial (io_peer s i) \<noteq> ser \<or> p_socket (io_peer s i) = INVALID_SOCKET then returns () s
       else and_then (on_backup i (\<lambda>b. apendBuf b buf len) s) (\<lambda>_ s. wake i s))"

section \<open>Connections\<close>

text \<open>The constructor: the table, \<open>WSAStartup\<close>, and the port.\<close>

definition IOCP_new :: "(nat \<Rightarrow> peer) \<Rightarrow> iocp \<Rightarrow> (unit, iocp) attempt" where
  "IOCP_new memory s =
     (case lib_PeerManager_new memory of
        None \<Rightarrow> throws s
      | Some ps \<Rightarrow>
          let s = s\<lparr>io_peers := ps, io_serial := 0, io_listen := INVALID_SOCKET, io_pool := FreeList_new 0,
            io_requests := []\<rparr>; (started, s) = io_call s in
          if started \<noteq> Done then throws s
          else let (port, s) = io_call s in if port \<noteq> Done then throws s else returns () s)"

definition updateCompletionPort :: "iocp \<Rightarrow> (unit, iocp) attempt" where
  "updateCompletionPort s = (let (r, s) = io_call s in if r = Done then returns () s else throws s)"

definition set_names :: "nat \<Rightarrow> iocp \<Rightarrow> iocp option" where
  "set_names i s = do {
     ((rip, rport), w) \<leftarrow> end_name (io_sys s);
     let s = put_peer i ((io_peer s i)\<lparr>remote_ip := rip, remote_port := rport\<rparr>) (s\<lparr>io_sys := w\<rparr>);
     ((lip, lport), w) \<leftarrow> end_name (io_sys s);
     Some (put_peer i ((io_peer s i)\<lparr>local_ip := lip, local_port := lport\<rparr>) (s\<lparr>io_sys := w\<rparr>))
   }"

definition io_registerSocket :: "io_callbacks \<Rightarrow> socket \<Rightarrow> iocp \<Rightarrow> (unit, iocp) attempt" where
  "io_registerSocket cb sd s =
     (let (index, s) = newPeer s in
      and_then (lib_getPeer index s) (\<lambda>i s.
      and_then (updateCompletionPort s) (\<lambda>_ s. do {
        s \<leftarrow> set_names i s;
        let s = put_peer i ((io_peer s i)\<lparr>p_socket := sd\<rparr>) s;
        and_then (case ioCon cb of None \<Rightarrow> returns () s | Some f \<Rightarrow> f i (serial (io_peer s i)) s)
          (\<lambda>_ s. postRecvRequest cb index (serial (io_peer s i)) s)
      })))"

definition io_CreateSocket :: "iocp \<Rightarrow> (socket, iocp) attempt" where
  "io_CreateSocket s =
     (let (n, w) = next_call (io_sys s); sock = os_socket w n in
      if sock = INVALID_SOCKET then throws (s\<lparr>io_sys := w\<rparr>)
      else returns sock (s\<lparr>io_sys := w\<lparr>opened := sock # opened w\<rparr>\<rparr>))"

text \<open>\<open>ListenSocket\<close>: whether the socket is set to non-blocking is not tested.\<close>

definition ListenSocket :: "iocp \<Rightarrow> (unit, iocp) attempt" where
  "ListenSocket s =
     and_then (io_CreateSocket s) (\<lambda>sd s.
       let s = s\<lparr>io_listen := sd\<rparr>; (bound, s) = io_call s in
       if bound \<noteq> Done then throws s
       else let (_, s) = io_call s; (listening, s) = io_call s in
         if listening \<noteq> Done then throws s else returns () s)"

definition ConnectSocket :: "iocp \<Rightarrow> (socket, iocp) attempt" where
  "ConnectSocket s =
     and_then (io_CreateSocket s) (\<lambda>sd s.
       let (r, s) = io_call s in
       if r \<noteq> Done
       then returns INVALID_SOCKET (s\<lparr>io_sys := (io_sys s)\<lparr>closed := sd # closed (io_sys s)\<rparr>\<rparr>)
       else let (nonblocking, s) = io_call s in if nonblocking \<noteq> Done then throws s else returns sd s)"

text \<open>\<open>accept\<close> gives a socket, or fails with \<open>WSAEWOULDBLOCK\<close> or another error.\<close>

definition AcceptSocket :: "iocp \<Rightarrow> (socket option, iocp) attempt" where
  "AcceptSocket s =
     (let (n, w) = next_call (io_sys s); sd = os_socket w n in
      if sd = INVALID_SOCKET
      then if os_call w n = Fails True then returns None (s\<lparr>io_sys := w\<rparr>) else throws (s\<lparr>io_sys := w\<rparr>)
      else let (nonblocking, s) = io_call (s\<lparr>io_sys := w\<lparr>opened := sd # opened w\<rparr>\<rparr>) in
        if nonblocking \<noteq> Done then throws s else returns (Some sd) s)"

definition io_connectPeer :: "io_callbacks \<Rightarrow> iocp \<Rightarrow> (bool, iocp) attempt" where
  "io_connectPeer cb s =
     and_then (ConnectSocket s) (\<lambda>sd s.
       if sd = INVALID_SOCKET then returns False s
       else and_then (io_registerSocket cb sd s) (\<lambda>_ s. returns True s))"

definition io_listen_on :: "iocp \<Rightarrow> (unit, iocp) attempt" where
  "io_listen_on s = ListenSocket s"

definition onAcceptTick :: "io_callbacks \<Rightarrow> iocp \<Rightarrow> (unit, iocp) attempt" where
  "onAcceptTick cb s =
     (if io_listen s = INVALID_SOCKET then throws s
      else let (n, w) = next_call (io_sys s); (num, readable, _) = os_ready w n; s = s\<lparr>io_sys := w\<rparr> in
        if num = - 1 then throws s
        else if num > 0 \<and> readable (io_listen s)
        then and_then (AcceptSocket s)
          (\<lambda>sd s. case sd of None \<Rightarrow> returns () s | Some sd \<Rightarrow> io_registerSocket cb sd s)
        else returns () s)"

section \<open>Completions\<close>

text \<open>
  The result of \<open>GetQueuedCompletionStatus\<close>: the number of bytes, the key and the context of a
  request.  A request that fills a block which has been replaced since writes freed memory,
  unless its socket was closed before: then the bytes had come in while the block was there.
\<close>

datatype port_status =
  PortTimeout | PortError | PortDeleted nat nat | PortDone "32 word" nat nat

definition transfer_done :: "io_request \<Rightarrow> byte list \<Rightarrow> nat \<Rightarrow> iocp \<Rightarrow> (32 word \<times> iocp) option" where
  "transfer_done rq bs n s =
     (case rq_transfer rq of
        Notify \<Rightarrow> Some (0, s)
      | Transmit xs \<Rightarrow>
          let out = take n xs; w = io_sys s in
          Some (of_nat (length out),
            s\<lparr>io_sys := w\<lparr>departed := (departed w)(rq_socket rq := departed w (rq_socket rq) @ out)\<rparr>\<rparr>)
      | Receive block off room \<Rightarrow>
          let got = take (unat room) bs; w = io_sys s; p = io_peer s (rq_key rq); b = read_buf p in
          if got = [] then Some (0, s)
          else if sb_mallocs b \<noteq> block
          then if p_socket p = rq_socket rq then None else Some (of_nat (length got), s)
          else do {
            old \<leftarrow> sb_buf b;
            new \<leftarrow> poke old (unat off) got;
            Some (of_nat (length got),
              put_peer (rq_key rq) (p\<lparr>read_buf := b\<lparr>sb_buf := Some new\<rparr>\<rparr>)
                (s\<lparr>io_sys := w\<lparr>arrived := (arrived w)(rq_socket rq := arrived w (rq_socket rq) @ got)\<rparr>\<rparr>))
          })"

text \<open>The answer names one of the requests by a number, modulo how many there are.\<close>

definition chosen :: "nat \<Rightarrow> iocp \<Rightarrow> nat" where
  "chosen k s = k mod length (io_requests s)"

definition without :: "nat \<Rightarrow> iocp \<Rightarrow> iocp" where
  "without j s = s\<lparr>io_requests := take j (io_requests s) @ drop (Suc j) (io_requests s)\<rparr>"

definition GetQueuedCompletionStatus :: "iocp \<Rightarrow> (port_status \<times> iocp) option" where
  "GetQueuedCompletionStatus s =
     (let (n, w) = next_call (io_sys s); s = s\<lparr>io_sys := w\<rparr> in
      case io_answer s n of
        TimeUp \<Rightarrow> Some (PortTimeout, s)
      | OtherError \<Rightarrow> Some (PortError, s)
      | Deleted k \<Rightarrow>
          if io_requests s = [] then Some (PortTimeout, s)
          else let rq = io_requests s ! chosen k s in
            Some (PortDeleted (rq_key rq) (rq_context rq), without (chosen k s) s)
      | Success k bs m \<Rightarrow>
          if io_requests s = [] then Some (PortTimeout, s)
          else let rq = io_requests s ! chosen k s in do {
            (sz, s) \<leftarrow> transfer_done rq bs m (without (chosen k s) s);
            Some (PortDone sz (rq_key rq) (rq_context rq), s)
          })"

definition refill :: "nat \<Rightarrow> iocp \<Rightarrow> (unit, iocp) attempt" where
  "refill i s =
     and_then (on_backup i readableBytes s) (\<lambda>send_bytes s.
       if send_bytes > 0
       then do {
         let b = write_buf_backup (io_peer s i);
         buf \<leftarrow> sb_buf b;
         xs \<leftarrow> fetch buf (unat (m_read_index b)) (unat send_bytes);
         and_then (on_wbuf i (\<lambda>b. apendBuf b xs send_bytes) s)
           (\<lambda>_ s. on_backup i (\<lambda>b. readMove b send_bytes) s)
       }
       else returns () s)"

definition processWrite :: "io_callbacks \<Rightarrow> 32 word \<Rightarrow> 32 word \<Rightarrow> iocp \<Rightarrow> (unit, iocp) attempt" where
  "processWrite cb index sz s =
     and_then (lib_getPeer index s) (\<lambda>i s.
       if p_socket (io_peer s i) = INVALID_SOCKET then returns () s
       else let s = put_peer i ((io_peer s i)\<lparr>wsa_send := False\<rparr>) s in
         and_then (on_wbuf i (\<lambda>b. readMove b sz) s) (\<lambda>_ s.
         and_then (refill i s) (\<lambda>_ s.
         and_then (on_wbuf i readableBytes s) (\<lambda>len s.
           if len > 0 then postSendRequest cb index (serial (io_peer s i)) s else returns () s))))"

definition processRead :: "io_callbacks \<Rightarrow> 32 word \<Rightarrow> 32 word \<Rightarrow> iocp \<Rightarrow> (unit, iocp) attempt" where
  "processRead cb index sz s =
     and_then (lib_getPeer index s) (\<lambda>i s.
       if p_socket (io_peer s i) = INVALID_SOCKET then returns () s
       else and_then (on_rbuf i (\<lambda>b. writeMove b sz) s) (\<lambda>_ s.
         and_then (case ioRead cb of None \<Rightarrow> returns 0 s | Some f \<Rightarrow> f i (serial (io_peer s i)) s) (\<lambda>ret s.
           if ret < 0 then io_closePeer cb index (serial (io_peer s i)) s
           else postRecvRequest cb index (serial (io_peer s i)) s)))"

text \<open>
  The completion of a request: the peer at the place of the key, whatever connection it now is.
  The context of a request whose peer has been closed is not given back.
\<close>

definition on_completion :: "io_callbacks \<Rightarrow> 32 word \<Rightarrow> 32 word \<Rightarrow> nat \<Rightarrow> iocp \<Rightarrow> (bool, iocp) attempt" where
  "on_completion cb index sz cxt s =
     and_then (lib_getPeer index s) (\<lambda>i s.
       if p_socket (io_peer s i) = INVALID_SOCKET then returns True s
       else and_then
         (case io_operation s cxt of
            ClientIoRead \<Rightarrow>
              if sz = 0 then io_closePeer cb index (serial (io_peer s i)) s else processRead cb index sz s
          | ClientIoWrite \<Rightarrow> processWrite cb index sz s
          | ClientIoUnknown \<Rightarrow> throws s)
         (\<lambda>_ s. returns True (deleteIOCxt (Some cxt) s)))"

definition onEventTick :: "io_callbacks \<Rightarrow> iocp \<Rightarrow> (bool, iocp) attempt" where
  "onEventTick cb s = do {
     (status, s) \<leftarrow> GetQueuedCompletionStatus s;
     case status of
       PortTimeout \<Rightarrow> returns False s
     | PortError \<Rightarrow> throws s
     | PortDeleted key cxt \<Rightarrow>
         and_then (lib_getPeer (of_nat key) s) (\<lambda>i s.
         and_then (io_closePeer cb (of_nat key) (serial (io_peer s i)) s)
           (\<lambda>_ s. returns True (deleteIOCxt (Some cxt) s)))
     | PortDone sz key cxt \<Rightarrow> on_completion cb (of_nat key) sz cxt s
   }"

fun io_eventLoop :: "io_callbacks \<Rightarrow> nat \<Rightarrow> iocp \<Rightarrow> (unit, iocp) attempt" where
  "io_eventLoop cb 0 s = returns () s"
| "io_eventLoop cb (Suc n) s =
     and_then (if io_listen s \<noteq> INVALID_SOCKET then onAcceptTick cb s else returns () s) (\<lambda>_ s.
     and_then (onEventTick cb s) (\<lambda>go_on s.
       if go_on then io_eventLoop cb n s else returns () s))"

end
