(* ===== verification/IocpOrder.thy ===== *)
theory IocpOrder
  imports IocpService "HOL-Library.Sublist"
begin

text \<open>
  What the service on a completion port keeps: at most one request to send and one to receive is
  under way for a connection, the bytes of the first are the content of the buffer that must not
  move, and what has been sent goes out in order, none of it lost.
\<close>

section \<open>The table\<close>

definition live :: "iocp \<Rightarrow> nat \<Rightarrow> bool" where
  "live s i \<longleftrightarrow> i < LIB_PEER_NUM \<and> p_socket (io_peer s i) \<noteq> INVALID_SOCKET"

lemma io_peer_put [simp]:
  "length (io_peers (put_peer i p s)) = length (io_peers s)"
  "i < length (io_peers s) \<Longrightarrow> io_peer (put_peer i p s) j = (if j = i then p else io_peer s j)"
  "put_peer i q (put_peer i p s) = put_peer i q s"
  by (simp_all add: put_peer_def io_peer_def)

lemma put_peer_fields [simp]:
  "io_serial (put_peer i p s) = io_serial s" "io_listen (put_peer i p s) = io_listen s"
  "io_pool (put_peer i p s) = io_pool s" "io_operation (put_peer i p s) = io_operation s"
  "io_requests (put_peer i p s) = io_requests s" "io_answer (put_peer i p s) = io_answer s"
  "io_sys (put_peer i p s) = io_sys s"
  by (simp_all add: put_peer_def)

lemma io_peer_fields [simp]:
  "io_peer (s\<lparr>io_serial := a\<rparr>) = io_peer s" "io_peer (s\<lparr>io_listen := b\<rparr>) = io_peer s"
  "io_peer (s\<lparr>io_pool := c\<rparr>) = io_peer s" "io_peer (s\<lparr>io_operation := d\<rparr>) = io_peer s"
  "io_peer (s\<lparr>io_requests := e\<rparr>) = io_peer s" "io_peer (s\<lparr>io_sys := f\<rparr>) = io_peer s"
  by (simp_all add: fun_eq_iff io_peer_def)

section \<open>The invariant\<close>

definition is_send :: "io_request \<Rightarrow> bool" where
  "is_send rq \<longleftrightarrow> (case rq_transfer rq of Receive _ _ _ \<Rightarrow> False | _ \<Rightarrow> True)"

text \<open>The requests of the connection a slot of the table holds.\<close>

definition own :: "iocp \<Rightarrow> nat \<Rightarrow> io_request list" where
  "own s i = filter (\<lambda>rq. rq_key rq = i \<and> rq_socket rq = p_socket (io_peer s i)) (io_requests s)"

definition own_sends :: "iocp \<Rightarrow> nat \<Rightarrow> io_request list" where
  "own_sends s i = filter is_send (own s i)"

definition own_reads :: "iocp \<Rightarrow> nat \<Rightarrow> io_request list" where
  "own_reads s i = filter (\<lambda>rq. \<not> is_send rq) (own s i)"

text \<open>
  While nothing is being sent both buffers are empty; otherwise one request is under way, with
  all bytes of the first buffer.
\<close>

definition send_state :: "io_request list \<Rightarrow> peer \<Rightarrow> bool" where
  "send_state rs p \<longleftrightarrow>
     (if wsa_send p
      then \<exists>rq. rs = [rq] \<and> (rq_transfer rq = Transmit (sb_content (write_buf p)) \<or>
        rq_transfer rq = Notify \<and> sb_content (write_buf p) = [])
      else rs = [] \<and> sb_content (write_buf p) = [] \<and> sb_content (write_buf_backup p) = [])"

text \<open>At most one request stores bytes, behind the content of a block that has not been replaced.\<close>

definition recv_state :: "io_request list \<Rightarrow> peer \<Rightarrow> bool" where
  "recv_state rs p \<longleftrightarrow> rs = [] \<or> (\<exists>rq room. rs = [rq] \<and>
     rq_transfer rq = Receive (sb_mallocs (read_buf p)) (m_write_index (read_buf p)) room)"

definition bufs_ok :: "peer \<Rightarrow> bool" where
  "bufs_ok p \<longleftrightarrow> lib_ok (read_buf p) \<and> lib_ok (write_buf p) \<and> lib_ok (write_buf_backup p)"

text \<open>A request that stores bytes does not leave its block.\<close>

definition fits_block :: "iocp \<Rightarrow> io_request \<Rightarrow> bool" where
  "fits_block s rq \<longleftrightarrow>
     (case rq_transfer rq of
        Receive block off room \<Rightarrow> block \<le> sb_mallocs (read_buf (io_peer s (rq_key rq))) \<and>
          (block = sb_mallocs (read_buf (io_peer s (rq_key rq))) \<longrightarrow>
            unat off + unat room \<le> unat (m_size (read_buf (io_peer s (rq_key rq)))))
      | _ \<Rightarrow> True)"

definition request_ok :: "iocp \<Rightarrow> io_request \<Rightarrow> bool" where
  "request_ok s rq \<longleftrightarrow> rq_key rq < LIB_PEER_NUM \<and> rq_socket rq \<noteq> INVALID_SOCKET \<and>
     known_socket (io_sys s) (rq_socket rq) \<and>
     (\<forall>j. live s j \<longrightarrow> p_socket (io_peer s j) = rq_socket rq \<longrightarrow> j = rq_key rq) \<and>
     io_operation s (rq_context rq) = (if is_send rq then ClientIoWrite else ClientIoRead) \<and>
     fits_block s rq"

text \<open>
  What is asked of the system: a socket is handed out once (a name for the connection), and the
  addresses of its ends are known.
\<close>

definition names_ok :: "os \<Rightarrow> bool" where
  "names_ok w \<longleftrightarrow> (\<forall>m n. os_socket w m = os_socket w n \<longrightarrow> os_socket w m \<noteq> INVALID_SOCKET \<longrightarrow> m = n) \<and>
     (\<forall>n. \<exists>txt port ip. os_name w n = Some (Some txt, port, ip) \<and> length txt < 50)"

text \<open>The contexts that are in use, those of the requests and those in \<open>H\<close>, are all different.\<close>

definition contexts_ok :: "nat list \<Rightarrow> iocp \<Rightarrow> bool" where
  "contexts_ok H s \<longleftrightarrow> distinct (H @ map rq_context (io_requests s)) \<and>
     (\<exists>used. pool_ok (io_pool s) used \<and> set H \<union> rq_context ` set (io_requests s) \<subseteq> set used)"

text \<open>The slots in \<open>X\<close> are between two requests to send.\<close>

definition iocp_ok :: "nat set \<Rightarrow> nat list \<Rightarrow> iocp \<Rightarrow> bool" where
  "iocp_ok X H s \<longleftrightarrow> length (io_peers s) = LIB_PEER_NUM \<and>
     (\<forall>i < LIB_PEER_NUM. bufs_ok (io_peer s i)) \<and>
     (\<forall>i. live s i \<longrightarrow> known_socket (io_sys s) (p_socket (io_peer s i))) \<and>
     (\<forall>i j. live s i \<longrightarrow> live s j \<longrightarrow> p_socket (io_peer s i) = p_socket (io_peer s j) \<longrightarrow> i = j) \<and>
     (\<forall>i. live s i \<longrightarrow> i \<notin> X \<longrightarrow> send_state (own_sends s i) (io_peer s i)) \<and>
     (\<forall>i. live s i \<longrightarrow> recv_state (own_reads s i) (io_peer s i)) \<and>
     (\<forall>rq \<in> set (io_requests s). request_ok s rq) \<and> contexts_ok H s \<and> names_ok (io_sys s)"

section \<open>What has been sent\<close>

text \<open>What a connection has sent or will send, in this order.\<close>

definition sent_stream :: "iocp \<Rightarrow> nat \<Rightarrow> byte list" where
  "sent_stream s i = departed (io_sys s) (p_socket (io_peer s i)) @ sb_content (write_buf (io_peer s i)) @
     sb_content (write_buf_backup (io_peer s i))"

text \<open>
  From one state to a later one, a slot holds the same connection, which has at most sent more,
  or no connection, or one with a new socket, from \<open>K\<close>.
\<close>

definition moves :: "socket set \<Rightarrow> iocp \<Rightarrow> iocp \<Rightarrow> bool" where
  "moves K s t \<longleftrightarrow> later_os (io_sys s) (io_sys t) \<and>
     (\<forall>i. live t i \<longrightarrow> p_socket (io_peer t i) \<notin> K \<longrightarrow>
        p_socket (io_peer t i) = p_socket (io_peer s i) \<and> prefix (sent_stream s i) (sent_stream t i))"

definition advances :: "iocp \<Rightarrow> iocp \<Rightarrow> bool" where
  "advances s t \<longleftrightarrow> moves {sd. \<not> known_socket (io_sys s) sd} s t"

text \<open>What a callback may do: no new connection, and what is to be read stays where it is.\<close>

definition serves :: "iocp \<Rightarrow> iocp \<Rightarrow> bool" where
  "serves s t \<longleftrightarrow> moves {} s t \<and>
     filter (\<lambda>rq. \<not> is_send rq) (io_requests t) = filter (\<lambda>rq. \<not> is_send rq) (io_requests s)"

lemma moves_refl [simp]: "moves K s s"
  by (simp add: moves_def)

lemma moves_trans:
  assumes "moves K s t" "moves K t u"
  shows "moves K s u"
  unfolding moves_def
proof (intro conjI allI impI)
  show "later_os (io_sys s) (io_sys u)"
    using assms later_os_trans by (auto simp: moves_def)
  fix i assume i: "live u i" "p_socket (io_peer u i) \<notin> K"
  with assms(2) have u: "p_socket (io_peer u i) = p_socket (io_peer t i)" "prefix (sent_stream t i) (sent_stream u i)"
    by (auto simp: moves_def)
  with i have "live t i" "p_socket (io_peer t i) \<notin> K" by (auto simp: live_def)
  with assms(1) u show "p_socket (io_peer u i) = p_socket (io_peer s i)" "prefix (sent_stream s i) (sent_stream u i)"
    by (auto simp: moves_def)
qed

lemma moves_mono: "moves K s t \<Longrightarrow> K \<subseteq> L \<Longrightarrow> moves L s t"
  by (auto simp: moves_def)

lemma serves_refl [simp]: "serves s s"
  by (simp add: serves_def)

lemma serves_trans: "serves s t \<Longrightarrow> serves t u \<Longrightarrow> serves s u"
  using moves_trans by (auto simp: serves_def)

lemma advances_refl [simp]: "advances s s"
  by (simp add: advances_def)

lemma moves_advances: "moves {} s t \<Longrightarrow> advances s t"
  unfolding advances_def by (rule moves_mono) auto

lemma advances_trans:
  assumes "advances s t" "advances t u" "\<And>i. live s i \<Longrightarrow> known_socket (io_sys s) (p_socket (io_peer s i))"
  shows "advances s u"
proof -
  have "{sd. \<not> known_socket (io_sys t) sd} \<subseteq> {sd. \<not> known_socket (io_sys s) sd}"
    using assms(1) later_os_known by (auto simp: advances_def moves_def)
  then show ?thesis
    using assms(1,2) moves_trans moves_mono unfolding advances_def by blast
qed

section \<open>Steps of the state\<close>

lemma own_put [simp]:
  "i < length (io_peers s) \<Longrightarrow> j \<noteq> i \<Longrightarrow> own_sends (put_peer i p s) j = own_sends s j"
  "i < length (io_peers s) \<Longrightarrow> j \<noteq> i \<Longrightarrow> own_reads (put_peer i p s) j = own_reads s j"
  "i < length (io_peers s) \<Longrightarrow> p_socket p = p_socket (io_peer s i) \<Longrightarrow> own_sends (put_peer i p s) i = own_sends s i"
  "i < length (io_peers s) \<Longrightarrow> p_socket p = p_socket (io_peer s i) \<Longrightarrow> own_reads (put_peer i p s) i = own_reads s i"
  by (simp_all add: own_sends_def own_reads_def own_def)

lemma own_other [simp]:
  "own_sends (s\<lparr>io_sys := w\<rparr>) = own_sends s" "own_reads (s\<lparr>io_sys := w\<rparr>) = own_reads s"
  "own_sends (s\<lparr>io_pool := f\<rparr>) = own_sends s" "own_reads (s\<lparr>io_pool := f\<rparr>) = own_reads s"
  "own_sends (s\<lparr>io_operation := g\<rparr>) = own_sends s" "own_reads (s\<lparr>io_operation := g\<rparr>) = own_reads s"
  "own_sends (s\<lparr>io_listen := x\<rparr>) = own_sends s" "own_reads (s\<lparr>io_listen := x\<rparr>) = own_reads s"
  "own_sends (s\<lparr>io_serial := v\<rparr>) = own_sends s" "own_reads (s\<lparr>io_serial := v\<rparr>) = own_reads s"
  by (simp_all add: fun_eq_iff own_sends_def own_reads_def own_def)

lemma live_put [simp]:
  "length (io_peers s) = LIB_PEER_NUM \<Longrightarrow> i < LIB_PEER_NUM \<Longrightarrow>
    live (put_peer i p s) j = (if j = i then p_socket p \<noteq> INVALID_SOCKET else live s j)"
  by (simp add: live_def)

lemma live_other [simp]:
  "live (s\<lparr>io_sys := w\<rparr>) = live s" "live (s\<lparr>io_pool := f\<rparr>) = live s"
  "live (s\<lparr>io_operation := g\<rparr>) = live s" "live (s\<lparr>io_requests := r\<rparr>) = live s"
  "live (s\<lparr>io_listen := x\<rparr>) = live s" "live (s\<lparr>io_serial := v\<rparr>) = live s"
  by (simp_all add: fun_eq_iff live_def)

text \<open>A socket that no slot and no request of the past has.\<close>

definition new_socket :: "iocp \<Rightarrow> socket \<Rightarrow> bool" where
  "new_socket s sd \<longleftrightarrow> known_socket (io_sys s) sd \<and> (\<forall>j. live s j \<longrightarrow> p_socket (io_peer s j) \<noteq> sd) \<and>
     (\<forall>rq \<in> set (io_requests s). rq_socket rq \<noteq> sd)"

lemma fits_block_put:
  assumes "fits_block s rq" "i < length (io_peers s)" "same_block (read_buf (io_peer s i)) (read_buf p)"
  shows "fits_block (put_peer i p s) rq"
  using assms by (auto simp: fits_block_def same_block_def split: transfer.splits)

lemma iocp_ok_put:
  assumes ok: "iocp_ok X H s" and i: "i < LIB_PEER_NUM" and bufs: "bufs_ok p"
    and block: "same_block (read_buf (io_peer s i)) (read_buf p)" and X: "X \<subseteq> insert i X'"
    and socket: "p_socket p \<noteq> INVALID_SOCKET \<Longrightarrow>
      p_socket p = p_socket (io_peer s i) \<or> new_socket s (p_socket p)"
    and sends: "p_socket p \<noteq> INVALID_SOCKET \<Longrightarrow> i \<notin> X' \<Longrightarrow> send_state (own_sends (put_peer i p s) i) p"
    and reads: "p_socket p \<noteq> INVALID_SOCKET \<Longrightarrow> recv_state (own_reads (put_peer i p s) i) p"
  shows "iocp_ok X' H (put_peer i p s)"
proof -
  have len: "length (io_peers s) = LIB_PEER_NUM" using ok by (simp add: iocp_ok_def)
  have old: "live s i" if "p_socket p \<noteq> INVALID_SOCKET" "p_socket p = p_socket (io_peer s i)"
    using that i by (simp add: live_def)
  have req: "request_ok (put_peer i p s) rq" if "rq \<in> set (io_requests s)" for rq
  proof -
    have r: "request_ok s rq" using ok that by (simp add: iocp_ok_def)
    then have "fits_block (put_peer i p s) rq"
      using fits_block_put [of s rq i p] len i block by (simp add: request_ok_def)
    moreover have "j = rq_key rq" if "live (put_peer i p s) j" "p_socket (io_peer (put_peer i p s) j) = rq_socket rq" for j
      using that r len i socket old \<open>rq \<in> set (io_requests s)\<close>
      by (auto simp: request_ok_def new_socket_def split: if_splits)
    ultimately show ?thesis using r by (simp add: request_ok_def)
  qed
  show ?thesis
    unfolding iocp_ok_def
    using ok len i bufs X socket sends reads old req
    by (auto simp: iocp_ok_def new_socket_def contexts_ok_def)
qed

lemma fits_block_other [simp]:
  "fits_block (s\<lparr>io_sys := w\<rparr>) = fits_block s" "fits_block (s\<lparr>io_pool := f\<rparr>) = fits_block s"
  "fits_block (s\<lparr>io_operation := g\<rparr>) = fits_block s" "fits_block (s\<lparr>io_requests := r\<rparr>) = fits_block s"
  "fits_block (s\<lparr>io_listen := x\<rparr>) = fits_block s" "fits_block (s\<lparr>io_serial := v\<rparr>) = fits_block s"
  by (simp_all add: fun_eq_iff fits_block_def cong: transfer.case_cong)

lemma iocp_ok_sys:
  assumes "iocp_ok X H s" "later_os (io_sys s) w"
  shows "iocp_ok X H (s\<lparr>io_sys := w\<rparr>)"
  using assms later_os_known [OF assms(2)]
  by (auto simp: iocp_ok_def request_ok_def contexts_ok_def names_ok_def later_os_def)

lemma iocp_ok_same [simp]:
  "iocp_ok X H (s\<lparr>io_listen := x\<rparr>) = iocp_ok X H s" "iocp_ok X H (s\<lparr>io_serial := v\<rparr>) = iocp_ok X H s"
  by (simp_all add: iocp_ok_def request_ok_def contexts_ok_def)

lemma iocp_ok_mono: "iocp_ok X H s \<Longrightarrow> X \<subseteq> Y \<Longrightarrow> iocp_ok Y H s"
  by (auto simp: iocp_ok_def)

text \<open>Contexts: taking one, giving it back, or forgetting it.\<close>

lemma newIOCxt_ok:
  assumes ok: "iocp_ok X H s" and new: "newIOCxt type s = (c, s')"
  shows "iocp_ok X (c # H) s'" "io_operation s' c = type" "io_peers s' = io_peers s"
    "io_requests s' = io_requests s" "io_sys s' = io_sys s"
proof -
  obtain f where f: "allocElem (io_pool s) = (c, f)"
    "s' = s\<lparr>io_pool := f, io_operation := (io_operation s)(c := type)\<rparr>"
    using new by (auto simp: newIOCxt_def Let_def split: prod.splits)
  then show "io_operation s' c = type" "io_peers s' = io_peers s" "io_requests s' = io_requests s"
    "io_sys s' = io_sys s" by simp_all
  obtain used where used: "pool_ok (io_pool s) used" "set H \<union> rq_context ` set (io_requests s) \<subseteq> set used"
    using ok by (auto simp: iocp_ok_def contexts_ok_def)
  have new: "pool_ok f (c # used)" "c \<notin> set used" using allocElem_ok [OF used(1) f(1)] by blast+
  have other: "c \<noteq> rq_context rq" if "rq \<in> set (io_requests s)" for rq
    using that used(2) new(2) by auto
  have "contexts_ok (c # H) s'"
    using ok f new used(2) by (auto simp: iocp_ok_def contexts_ok_def intro!: exI [of _ "c # used"])
  moreover have "request_ok s' rq" if "rq \<in> set (io_requests s)" for rq
    using ok that other [OF that] f(2) by (auto simp: iocp_ok_def request_ok_def)
  ultimately show "iocp_ok X (c # H) s'" using ok f(2) by (simp add: iocp_ok_def)
qed

lemma deleteIOCxt_ok:
  assumes "iocp_ok X (c # H) s"
  shows "iocp_ok X H (deleteIOCxt (Some c) s)"
proof -
  obtain used where used: "pool_ok (io_pool s) used" "set (c # H) \<union> rq_context ` set (io_requests s) \<subseteq> set used"
    using assms by (auto simp: iocp_ok_def contexts_ok_def)
  then obtain us vs where split: "used = us @ c # vs" by (metis insert_subset list.simps(15) split_list sup.bounded_iff)
  have "pool_ok (freeElem (Some c) (io_pool s)) (us @ vs)"
    using used(1) split by (auto intro: freeElem_ok)
  moreover have "c \<notin> set H \<union> rq_context ` set (io_requests s)"
    using assms by (auto simp: iocp_ok_def contexts_ok_def)
  ultimately have "contexts_ok H (deleteIOCxt (Some c) s)"
    using assms used(2) split
    by (auto simp: iocp_ok_def contexts_ok_def deleteIOCxt_def intro!: exI [of _ "us @ vs"])
  with assms show ?thesis by (simp add: iocp_ok_def deleteIOCxt_def request_ok_def)
qed

lemma iocp_ok_forget: "iocp_ok X (c # H) s \<Longrightarrow> iocp_ok X H s"
  by (auto simp: iocp_ok_def contexts_ok_def)

lemma own_post:
  "own_sends (post_request rq s) i = own_sends s i @
     (if is_send rq \<and> rq_key rq = i \<and> rq_socket rq = p_socket (io_peer s i) then [rq] else [])"
  "own_reads (post_request rq s) i = own_reads s i @
     (if \<not> is_send rq \<and> rq_key rq = i \<and> rq_socket rq = p_socket (io_peer s i) then [rq] else [])"
  by (simp_all add: own_sends_def own_reads_def own_def post_request_def)

lemma post_request_ok:
  assumes ok: "iocp_ok X (c # H) s" and rq: "request_ok s rq" "rq_context rq = c" "rq_key rq = i"
      "rq_socket rq = p_socket (io_peer s i)" and X: "X \<subseteq> insert i X'"
    and sends: "i \<notin> X' \<Longrightarrow> send_state (own_sends (post_request rq s) i) (io_peer s i)"
    and reads: "recv_state (own_reads (post_request rq s) i) (io_peer s i)"
  shows "iocp_ok X' H (post_request rq s)"
proof -
  have same: "io_peers (post_request rq s) = io_peers s" "io_sys (post_request rq s) = io_sys s"
    "io_peer (post_request rq s) = io_peer s" "live (post_request rq s) = live s"
    "io_requests (post_request rq s) = io_requests s @ [rq]" "io_pool (post_request rq s) = io_pool s"
    by (simp_all add: post_request_def)
  have "request_ok (post_request rq s) = request_ok s"
    by (simp add: fun_eq_iff request_ok_def post_request_def)
  moreover have "send_state (own_sends (post_request rq s) j) (io_peer s j)" if "live s j" "j \<notin> X'" for j
  proof (cases "j = i")
    case False
    then have "own_sends (post_request rq s) j = own_sends s j" using rq by (simp add: own_post)
    then show ?thesis using that ok X False by (auto simp: iocp_ok_def)
  qed (use that sends in simp)
  moreover have "recv_state (own_reads (post_request rq s) j) (io_peer s j)" if "live s j" for j
  proof (cases "j = i")
    case False
    then have "own_reads (post_request rq s) j = own_reads s j" using rq by (simp add: own_post)
    then show ?thesis using that ok by (auto simp: iocp_ok_def)
  qed (use that reads in simp)
  moreover have "contexts_ok H (post_request rq s)"
    using ok rq(2) by (auto simp: iocp_ok_def contexts_ok_def same)
  ultimately show ?thesis
    unfolding iocp_ok_def same using ok rq(1) by (auto simp: iocp_ok_def)
qed

lemma sent_stream_put [simp]:
  "i < length (io_peers s) \<Longrightarrow> j \<noteq> i \<Longrightarrow> sent_stream (put_peer i p s) j = sent_stream s j"
  "i < length (io_peers s) \<Longrightarrow> sent_stream (put_peer i p s) i =
    departed (io_sys s) (p_socket p) @ sb_content (write_buf p) @ sb_content (write_buf_backup p)"
  by (simp_all add: sent_stream_def)

lemma moves_put:
  assumes "length (io_peers s) = LIB_PEER_NUM" "i < LIB_PEER_NUM"
    "p_socket p \<noteq> INVALID_SOCKET \<Longrightarrow> p_socket p \<notin> K \<Longrightarrow> p_socket p = p_socket (io_peer s i) \<and>
      prefix (sb_content (write_buf (io_peer s i)) @ sb_content (write_buf_backup (io_peer s i)))
        (sb_content (write_buf p) @ sb_content (write_buf_backup p))"
  shows "moves K s (put_peer i p s)"
  using assms by (auto simp: moves_def sent_stream_def [of s i])

lemma moves_same:
  assumes "io_peers t = io_peers s" "later_os (io_sys s) (io_sys t)" "departed (io_sys t) = departed (io_sys s)"
  shows "moves K s t"
  using assms by (simp add: moves_def sent_stream_def live_def io_peer_def)

lemma serves_put:
  assumes "length (io_peers s) = LIB_PEER_NUM" "i < LIB_PEER_NUM"
    "p_socket p \<noteq> INVALID_SOCKET \<Longrightarrow> p_socket p = p_socket (io_peer s i) \<and>
      prefix (sb_content (write_buf (io_peer s i)) @ sb_content (write_buf_backup (io_peer s i)))
        (sb_content (write_buf p) @ sb_content (write_buf_backup p))"
  shows "serves s (put_peer i p s)"
  using moves_put [OF assms(1,2), of p "{}"] assms(3) by (simp add: serves_def)

lemma serves_same:
  assumes "io_peers t = io_peers s" "later_os (io_sys s) (io_sys t)" "departed (io_sys t) = departed (io_sys s)"
    "filter (\<lambda>rq. \<not> is_send rq) (io_requests t) = filter (\<lambda>rq. \<not> is_send rq) (io_requests s)"
  shows "serves s t"
  using moves_same [OF assms(1-3)] assms(4) by (simp add: serves_def)

text \<open>What a callback leaves: the requests to receive of a connection that is still there.\<close>

lemma own_reads_alt: "own_reads s i = filter (\<lambda>rq. rq_key rq = i \<and> rq_socket rq = p_socket (io_peer s i))
    (filter (\<lambda>rq. \<not> is_send rq) (io_requests s))"
  by (simp add: own_reads_def own_def conj_commute)

lemma serves_reads:
  assumes "serves s t" "live t i"
  shows "own_reads t i = own_reads s i"
  using assms by (simp add: serves_def moves_def own_reads_alt)

section \<open>Operations\<close>

lemma getPeer_ends:
  assumes "\<And>i. unat index = i \<Longrightarrow> i < LIB_PEER_NUM \<Longrightarrow> ends Q (k i s)"
  shows "ends Q (and_then (lib_getPeer index s) k)"
  using assms by (simp add: lib_getPeer_def)

lemma on_buf_ends:
  assumes "ends Q (f (get (io_peer s i)))"
  shows "ends (\<lambda>r t. \<exists>b. Q r b \<and> t = put_peer i (put b (io_peer s i)) s) (on_buf get put i f s)"
proof -
  obtain r b where "f (get (io_peer s i)) = Some (r, b)" "\<forall>x. r = Inr x \<longrightarrow> Q x b"
    using assms by (auto simp: ends_def)
  then show ?thesis unfolding ends_def on_buf_def by auto
qed

lemma on_rbuf_ends:
  "ends Q (f (read_buf (io_peer s i))) \<Longrightarrow>
    ends (\<lambda>r t. \<exists>b. Q r b \<and> t = put_peer i ((io_peer s i)\<lparr>read_buf := b\<rparr>) s) (on_rbuf i f s)"
  by (rule on_buf_ends)

lemma on_wbuf_ends:
  "ends Q (f (write_buf (io_peer s i))) \<Longrightarrow>
    ends (\<lambda>r t. \<exists>b. Q r b \<and> t = put_peer i ((io_peer s i)\<lparr>write_buf := b\<rparr>) s) (on_wbuf i f s)"
  by (rule on_buf_ends)

lemma on_backup_ends:
  "ends Q (f (write_buf_backup (io_peer s i))) \<Longrightarrow>
    ends (\<lambda>r t. \<exists>b. Q r b \<and> t = put_peer i ((io_peer s i)\<lparr>write_buf_backup := b\<rparr>) s) (on_backup i f s)"
  by (rule on_buf_ends)

lemma io_call_cases:
  assumes "io_call s = (r, t)"
  shows "io_peers t = io_peers s" "later_os (io_sys s) (io_sys t)" "departed (io_sys t) = departed (io_sys s)"
    "io_requests t = io_requests s" "t = s\<lparr>io_sys := io_sys t\<rparr>"
  using assms by (auto simp: io_call_def system_call_def next_call_def Let_def later_os_def)

lemma io_call_ok: "io_call s = (r, t) \<Longrightarrow> iocp_ok X H s \<Longrightarrow> iocp_ok X H t"
  using iocp_ok_sys io_call_cases by metis

lemma io_call_serves: "io_call s = (r, t) \<Longrightarrow> serves s t"
  using serves_same io_call_cases by metis

lemma put_peer_same: "put_peer i (io_peer s i) s = s"
  by (simp add: put_peer_def io_peer_def)

lemma on_rbuf_asks:
  "f (read_buf (io_peer s i)) = returns r (read_buf (io_peer s i)) \<Longrightarrow> on_rbuf i f s = returns r s"
  by (simp add: on_buf_def returns_def put_peer_same)

lemma on_wbuf_asks:
  "f (write_buf (io_peer s i)) = returns r (write_buf (io_peer s i)) \<Longrightarrow> on_wbuf i f s = returns r s"
  by (simp add: on_buf_def returns_def put_peer_same)

lemma on_backup_asks:
  "f (write_buf_backup (io_peer s i)) = returns r (write_buf_backup (io_peer s i)) \<Longrightarrow>
    on_backup i f s = returns r s"
  by (simp add: on_buf_def returns_def put_peer_same)

lemma request_ok_sys:
  "request_ok s rq \<Longrightarrow> later_os (io_sys s) w \<Longrightarrow> request_ok (s\<lparr>io_sys := w\<rparr>) rq"
  using later_os_known by (auto simp: request_ok_def)

lemma request_ok_new:
  assumes "iocp_ok X H s" "live s (rq_key rq)" "rq_socket rq = p_socket (io_peer s (rq_key rq))"
    "io_operation s (rq_context rq) = (if is_send rq then ClientIoWrite else ClientIoRead)" "fits_block s rq"
  shows "request_ok s rq"
proof -
  have "j = rq_key rq" if "live s j" "p_socket (io_peer s j) = rq_socket rq" for j
    using assms(1-3) that unfolding iocp_ok_def by metis
  moreover have "known_socket (io_sys s) (rq_socket rq)" using assms(1-3) by (simp add: iocp_ok_def)
  ultimately show ?thesis using assms(2-5) unfolding request_ok_def live_def by auto
qed

lemma iocp_ok_bufs: "iocp_ok X H s \<Longrightarrow> i < LIB_PEER_NUM \<Longrightarrow> bufs_ok (io_peer s i)"
  by (simp add: iocp_ok_def)

lemma iocp_ok_length: "iocp_ok X H s \<Longrightarrow> length (io_peers s) = LIB_PEER_NUM"
  by (simp add: iocp_ok_def)

text \<open>The client: its callbacks keep the invariant, and start no connection.\<close>

locale io_client =
  fixes cb :: io_callbacks
  assumes con: "ioCon cb = Some f \<Longrightarrow> iocp_ok X H s \<Longrightarrow> live s i \<Longrightarrow>
      ends (\<lambda>_ t. iocp_ok X H t \<and> serves s t) (f i ser s)"
    and dis: "ioDis cb = Some f \<Longrightarrow> iocp_ok X H s \<Longrightarrow> live s i \<Longrightarrow>
      ends (\<lambda>_ t. iocp_ok X H t \<and> serves s t) (f i ser s)"
    and rd: "ioRead cb = Some g \<Longrightarrow> iocp_ok X H s \<Longrightarrow> live s i \<Longrightarrow> own_reads s i = [] \<Longrightarrow>
      ends (\<lambda>_ t. iocp_ok X H t \<and> serves s t) (g i ser s)"
begin

lemma closePeer_at:
  assumes ok: "iocp_ok X H s" and i: "i = unat index" "serial (io_peer s i) = ser"
  shows "ends (\<lambda>_ t. iocp_ok (X - {i}) H t \<and> serves s t) (io_closePeer cb index ser s)"
  unfolding io_closePeer_def
proof (rule getPeer_ends)
  fix j assume j: "unat index = j" "j < LIB_PEER_NUM"
  then have ji: "j = i" using i by simp
  have closing: "ends (\<lambda>_ u. iocp_ok (X - {i}) H u \<and> serves t u) (deletePeer index (t\<lparr>io_sys := w\<rparr>))"
    if t: "iocp_ok X H t" and w: "later_os (io_sys t) w" "departed w = departed (io_sys t)" for t w
    unfolding deletePeer_def
  proof (rule getPeer_ends)
    fix k assume "unat index = k" "k < LIB_PEER_NUM"
    then have [simp]: "k = i" and ilt: "i < LIB_PEER_NUM" using i by simp_all
    let ?u = "t\<lparr>io_sys := w\<rparr>" let ?p = "(io_peer ?u i)\<lparr>p_socket := INVALID_SOCKET\<rparr>"
    have u: "iocp_ok X H ?u" "serves t ?u" "length (io_peers ?u) = LIB_PEER_NUM"
      using iocp_ok_sys [OF t w(1)] serves_same [of ?u t] w t by (simp_all add: iocp_ok_def)
    have "iocp_ok (X - {i}) H (put_peer i ?p ?u)"
      using iocp_ok_put [OF u(1) ilt, of ?p "X - {i}"] u(1) ilt
      by (auto simp: iocp_ok_def bufs_ok_def)
    moreover have "serves ?u (put_peer i ?p ?u)" using serves_put [OF u(3) ilt, of ?p] by simp
    ultimately show "ends (\<lambda>_ u. iocp_ok (X - {i}) H u \<and> serves t u)
        (returns () (put_peer k ((io_peer ?u k)\<lparr>p_socket := INVALID_SOCKET\<rparr>) ?u))"
      using u(2) serves_trans by auto
  qed
  show "ends (\<lambda>_ t. iocp_ok (X - {i}) H t \<and> serves s t)
      (if serial (io_peer s j) \<noteq> ser \<or> p_socket (io_peer s j) = INVALID_SOCKET then returns () s
       else and_then (case ioDis cb of None \<Rightarrow> returns () s | Some f \<Rightarrow> f j ser s) (\<lambda>_ s.
         deletePeer index
           (s\<lparr>io_sys := (io_sys s)\<lparr>closed := p_socket (io_peer s j) # closed (io_sys s)\<rparr>\<rparr>)))"
  proof (cases "p_socket (io_peer s i) = INVALID_SOCKET")
    case True
    then have "iocp_ok (X - {i}) H s" using ok by (auto simp: iocp_ok_def live_def)
    with True show ?thesis by (simp add: ji)
  next
    case False
    then have "live s i" using j ji by (simp add: live_def)
    then have "ends (\<lambda>_ t. iocp_ok X H t \<and> serves s t)
        (case ioDis cb of None \<Rightarrow> returns () s | Some f \<Rightarrow> f i ser s)"
      using dis ok by (simp split: option.split)
    then show ?thesis unfolding ji using False i(2)
      by (auto intro!: ends_and_then [where Q = "\<lambda>_ t. iocp_ok X H t \<and> serves s t"]
          ends_weaken [OF closing] intro: serves_trans simp: later_os_def)
  qed
qed

lemma closePeer_ends:
  assumes ok: "iocp_ok X H s"
  shows "ends (\<lambda>_ t. iocp_ok X H t \<and> serves s t) (io_closePeer cb index ser s)"
proof (cases "serial (io_peer s (unat index)) = ser")
  case True
  show ?thesis by (rule ends_weaken [OF closePeer_at [OF ok refl True]]) (auto intro: iocp_ok_mono)
next
  case False
  then show ?thesis using ok by (auto simp: io_closePeer_def intro!: getPeer_ends)
qed

lemma wsa_call_ends:
  assumes ok: "iocp_ok X (c # H) s" and i: "i = unat index" "live s i" "serial (io_peer s i) = ser"
    and rq: "request_ok s rq" "rq_context rq = c" "rq_key rq = i" "rq_socket rq = p_socket (io_peer s i)"
    and sends: "send_state (own_sends (post_request rq s) i) (io_peer s i)"
    and reads: "recv_state (own_reads (post_request rq s) i) (io_peer s i)"
  shows "ends (\<lambda>_ t. iocp_ok (X - {i}) H t \<and> moves {} s t) (wsa_call cb index ser rq s)"
proof -
  obtain r t where t: "io_call s = (r, t)" by fastforce
  note same = io_call_cases [OF t]
  define w where "w = io_sys t"
  have tw: "t = s\<lparr>io_sys := w\<rparr>" and w: "later_os (io_sys s) w" using same by (simp_all add: w_def)
  have t_ok: "iocp_ok X (c # H) t" and t_serves: "serves s t"
    using io_call_ok [OF t ok] io_call_serves [OF t] by simp_all
  have closes: "ends (\<lambda>_ u. iocp_ok (X - {i}) H u \<and> moves {} s u) (io_closePeer cb index ser t)"
  proof (rule ends_weaken [OF closePeer_at [OF t_ok i(1)]])
    show "serial (io_peer t i) = ser" using i(3) by (simp add: tw)
  qed (use t_serves serves_trans iocp_ok_forget in \<open>auto simp: serves_def intro: moves_trans\<close>)
  have "iocp_ok (X - {i}) H (post_request rq t)"
    by (rule post_request_ok [OF t_ok, of rq i])
      (use rq request_ok_sys [OF rq(1) w] sends reads in \<open>auto simp: tw own_post\<close>)
  moreover have "moves {} s (post_request rq t)"
    by (rule moves_same) (use same in \<open>simp_all add: post_request_def\<close>)
  ultimately show ?thesis using closes by (simp add: wsa_call_def t)
qed

lemma start_receive_ends:
  assumes ok: "iocp_ok X H s" and i: "i = unat index" "i \<notin> X" "live s i" "serial (io_peer s i) = ser"
    and none: "own_reads s i = []"
  shows "ends (\<lambda>_ t. iocp_ok X H t \<and> moves {} s t) (start_receive cb index ser i s)"
proof -
  let ?post = "\<lambda>c room s. let b = read_buf (io_peer s i) in
    wsa_call cb index ser \<lparr>rq_context = c, rq_key = i, rq_socket = p_socket (io_peer s i),
      rq_transfer = Receive (sb_mallocs b) (m_write_index b) room\<rparr> s"
  obtain c s1 where new: "newIOCxt ClientIoRead s = (c, s1)" by fastforce
  note n = newIOCxt_ok [OF ok new]
  have [simp]: "io_peer s1 = io_peer s" using n(3) by (simp add: fun_eq_iff io_peer_def)
  have len: "length (io_peers s1) = LIB_PEER_NUM" using n(1) by (rule iocp_ok_length)
  have ilt: "i < LIB_PEER_NUM" using i(3) by (simp add: live_def)
  have si1: "live s1 i" "own_reads s1 i = []" using i(3) none n by (simp_all add: live_def own_reads_def own_def)
  have lib: "lib_ok (read_buf (io_peer s1 i))" using iocp_ok_bufs [OF n(1) ilt] by (simp add: bufs_ok_def)
  have sends: "send_state (own_sends s1 i) (io_peer s1 i)" using n(1) si1 i(2) by (simp add: iocp_ok_def)
  have step: "ends (\<lambda>_ t. iocp_ok X H t \<and> moves {} s t) (and_then (on_rbuf i writableBytes s2) (?post c))"
    if b: "lib_ok b" "same_block (read_buf (io_peer s1 i)) b"
      and s2: "s2 = put_peer i ((io_peer s1 i)\<lparr>read_buf := b\<rparr>) s1" for b s2
  proof -
    have put: "io_peer s2 i = (io_peer s1 i)\<lparr>read_buf := b\<rparr>" using len ilt by (simp add: s2)
    have sends': "send_state (own_sends s1 i) ((io_peer s1 i)\<lparr>read_buf := b\<rparr>)" using sends by (simp add: send_state_def)
    have s2_ok: "iocp_ok X (c # H) s2" unfolding s2
      by (rule iocp_ok_put [OF n(1) ilt]) (use iocp_ok_bufs [OF n(1) ilt] b sends' si1 len ilt in
          \<open>auto simp: bufs_ok_def recv_state_def\<close>)
    have moved: "moves {} s s2" unfolding s2
      by (rule moves_trans [OF moves_same moves_put]) (use n len ilt in auto)
    obtain room where room: "writableBytes b = returns room b" "unat room = unat (m_size b) - unat (m_write_index b)"
      using lib_writable [OF b(1)] .
    have asks: "on_rbuf i writableBytes s2 = returns room s2" by (rule on_rbuf_asks) (simp add: put room)
    have idx: "unat (m_write_index b) \<le> unat (m_size b)" using b(1) by (auto elim: lib_okE)
    define rq where "rq = \<lparr>rq_context = c, rq_key = i, rq_socket = p_socket (io_peer s i),
      rq_transfer = Receive (sb_mallocs b) (m_write_index b) room\<rparr>"
    have live2: "live s2 i" using i(3) ilt len by (simp add: s2 live_def)
    have rq_ok: "request_ok s2 rq"
    proof (rule request_ok_new [OF s2_ok])
      show "fits_block s2 rq" using room idx put by (simp add: fits_block_def rq_def)
      show "io_operation s2 (rq_context rq) = (if is_send rq then ClientIoWrite else ClientIoRead)"
        using n(2) by (simp add: rq_def is_send_def s2)
    qed (use live2 put in \<open>simp_all add: rq_def\<close>)
    have "ends (\<lambda>_ t. iocp_ok (X - {i}) H t \<and> moves {} s2 t) (wsa_call cb index ser rq s2)"
      by (rule wsa_call_ends [OF s2_ok i(1) live2 _ rq_ok])
        (use put i si1 len ilt s2 sends' in \<open>simp_all add: rq_def own_post is_send_def recv_state_def\<close>)
    then have "ends (\<lambda>_ t. iocp_ok X H t \<and> moves {} s t) (wsa_call cb index ser rq s2)"
      using i(2) moved by (auto intro: moves_trans ends_weaken)
    then show ?thesis by (simp add: asks put rq_def)
  qed
  have "ends (\<lambda>_ b. lib_ok b \<and> same_block (read_buf (io_peer s1 i)) b)
      (lib_ensureWritableBytes (read_buf (io_peer s1 i)) 512)"
    by (rule ends_weaken [OF lib_ensure_ends [OF lib]]) simp_all
  note ensure = on_rbuf_ends [of _ "\<lambda>b. lib_ensureWritableBytes b 512", OF this]
  show ?thesis unfolding start_receive_def new Let_def prod.case
    by (rule ends_and_then [OF ensure]) (use step in \<open>unfold Let_def, blast\<close>)
qed

lemma postRecvRequest_ends:
  assumes "iocp_ok X H s" "i = unat index" "i \<notin> X" "live s i \<Longrightarrow> own_reads s i = []"
  shows "ends (\<lambda>_ t. iocp_ok X H t \<and> moves {} s t) (postRecvRequest cb index ser s)"
  unfolding postRecvRequest_def
  by (rule getPeer_ends) (use assms start_receive_ends in \<open>auto simp: live_def\<close>)

text \<open>All bytes of the first buffer are handed to the system.\<close>

lemma start_send_ends:
  assumes ok: "iocp_ok X H s" and i: "i = unat index" "live s i" "serial (io_peer s i) = ser"
    and none: "own_sends s i = []"
  shows "ends (\<lambda>_ t. iocp_ok (X - {i}) H t \<and> moves {} s t) (start_send cb index ser i s)"
proof -
  define p where "p = (io_peer s i)\<lparr>wsa_send := True\<rparr>"
  define s1 where "s1 = put_peer i p s"
  obtain c s2 where new: "newIOCxt ClientIoWrite s1 = (c, s2)" by fastforce
  have ilt: "i < LIB_PEER_NUM" using i(2) by (simp add: live_def)
  have len: "length (io_peers s) = LIB_PEER_NUM" using ok by (rule iocp_ok_length)
  have s1: "io_peer s1 i = p" "live s1 i" "own_sends s1 i = []" "own_reads s1 i = own_reads s i"
    using len ilt i(2) none by (simp_all add: s1_def p_def live_def)
  have reads: "recv_state (own_reads s i) p" using ok i(2) by (simp add: iocp_ok_def p_def recv_state_def)
  have s1_ok: "iocp_ok (insert i X) H s1" unfolding s1_def
    by (rule iocp_ok_put [OF ok ilt])
      (use iocp_ok_bufs [OF ok ilt] reads len ilt in \<open>auto simp: p_def bufs_ok_def\<close>)
  note n = newIOCxt_ok [OF s1_ok new]
  have peer2: "io_peer s2 = io_peer s1" using n(3) by (simp add: fun_eq_iff io_peer_def)
  have s2: "live s2 i" "own_sends s2 i = []" "own_reads s2 i = own_reads s i"
    using s1 n peer2 by (simp_all add: live_def own_sends_def own_reads_def own_def)
  define b where "b = write_buf (io_peer s i)"
  have b: "write_buf (io_peer s2 i) = b" by (simp add: peer2 s1 b_def p_def)
  have lib: "lib_ok b" using iocp_ok_bufs [OF ok ilt] by (simp add: b_def bufs_ok_def)
  obtain num where num: "readableBytes b = returns num b" "unat num = length (sb_content b)"
    using lib_readable [OF lib] .
  obtain bs where buf: "sb_buf b = Some bs"
      "fetch bs (unat (m_read_index b)) (unat num) = Some (sb_content b)"
    using lib num(2) by (elim lib_okE) (simp add: fetch_def)
  have asks: "on_wbuf i readableBytes s2 = returns num s2" by (rule on_wbuf_asks) (simp add: b num)
  define rq where "rq = \<lparr>rq_context = c, rq_key = i, rq_socket = p_socket (io_peer s i),
    rq_transfer = Transmit (sb_content b)\<rparr>"
  have rq_ok: "request_ok s2 rq"
    by (rule request_ok_new [OF n(1)])
      (use n(2) s2 peer2 s1 in \<open>simp_all add: rq_def is_send_def fits_block_def p_def\<close>)
  have moved: "moves {} s s2"
    by (rule moves_trans [OF moves_put [OF len ilt, of p] moves_same]) (use n in \<open>auto simp: s1_def p_def\<close>)
  have "ends (\<lambda>_ t. iocp_ok (insert i X - {i}) H t \<and> moves {} s2 t) (wsa_call cb index ser rq s2)"
    by (rule wsa_call_ends [OF n(1) i(1) s2(1) _ rq_ok])
      (use i s1 s2 peer2 reads in \<open>simp_all add: rq_def own_post is_send_def send_state_def b_def p_def\<close>)
  then have "ends (\<lambda>_ t. iocp_ok (X - {i}) H t \<and> moves {} s t) (wsa_call cb index ser rq s2)"
    using moved by (auto intro: moves_trans ends_weaken)
  then show ?thesis unfolding start_send_def p_def [symmetric] s1_def [symmetric] new Let_def prod.case
    by (simp add: asks b buf) (simp add: rq_def peer2 s1 p_def)
qed

lemma postSendRequest_ends:
  assumes ok: "iocp_ok X H s" and i: "i = unat index" "serial (io_peer s i) = ser" and none: "own_sends s i = []"
  shows "ends (\<lambda>_ t. iocp_ok (X - {i}) H t \<and> moves {} s t) (postSendRequest cb index ser s)"
  unfolding postSendRequest_def
proof (rule getPeer_ends)
  fix j assume "unat index = j" "j < LIB_PEER_NUM"
  moreover have "iocp_ok (X - {i}) H s" if "p_socket (io_peer s i) = INVALID_SOCKET"
    using ok that by (auto simp: iocp_ok_def live_def)
  ultimately show "ends (\<lambda>_ t. iocp_ok (X - {i}) H t \<and> moves {} s t)
      (if serial (io_peer s j) \<noteq> ser \<or> p_socket (io_peer s j) = INVALID_SOCKET then returns () s
       else start_send cb index ser j s)"
    using start_send_ends [OF ok i(1)] i none by (auto simp: live_def)
qed

end

section \<open>Sending\<close>

lemma apendBuf_part:
  assumes "lib_ok b" "unat len \<le> length buf" "unat len < 2 ^ 31"
  shows "ends (\<lambda>_ b'. lib_ok b' \<and> sb_content b' = sb_content b @ take (unat len) buf) (apendBuf b buf len)"
proof -
  have "apendBuf b buf len = apendBuf b (take (unat len) buf) (of_nat (length (take (unat len) buf)))"
    using assms(2) by (simp add: apendBuf_def fetch_def)
  then show ?thesis using apendBuf_ends [OF assms(1), of "take (unat len) buf"] assms(2,3) by simp
qed

text \<open>A call adds its bytes behind all that has been sent before, whatever is under way.\<close>

definition sends_of :: "nat \<Rightarrow> 64 word \<Rightarrow> byte list \<Rightarrow> iocp \<Rightarrow> iocp \<Rightarrow> bool" where
  "sends_of i ser xs s t \<longleftrightarrow> (live s i \<longrightarrow> serial (io_peer s i) = ser \<longrightarrow>
     live t i \<and> p_socket (io_peer t i) = p_socket (io_peer s i) \<and> sent_stream t i = sent_stream s i @ xs)"

lemma wake_ends:
  assumes ok: "iocp_ok X H s" and li: "live s i" and idle: "\<not> wsa_send (io_peer s i)"
    and b: "lib_ok b" "prefix (sb_content (write_buf_backup (io_peer s i))) (sb_content b)"
    and s1: "s1 = put_peer i ((io_peer s i)\<lparr>write_buf_backup := b\<rparr>) s"
  shows "ends (\<lambda>_ t. iocp_ok X H t \<and> serves s t \<and> sent_stream t i = sent_stream s1 i \<and>
    io_peer t i = (io_peer s1 i)\<lparr>wsa_send := True\<rparr>) (wake i s1)"
proof -
  define p where "p = (io_peer s i)\<lparr>write_buf_backup := b, wsa_send := True\<rparr>"
  define s2 where "s2 = put_peer i p s"
  obtain c s3 where s3: "newIOCxt ClientIoWrite s2 = (c, s3)" by fastforce
  obtain r s4 where s4: "io_call s3 = (r, s4)" by fastforce
  define rq where "rq = \<lparr>rq_context = c, rq_key = i, rq_socket = p_socket (io_peer s i), rq_transfer = Notify\<rparr>"
  have i: "i < LIB_PEER_NUM" and leng: "length (io_peers s) = LIB_PEER_NUM"
    using li iocp_ok_length [OF ok] by (simp_all add: live_def)
  have reads: "recv_state (own_reads s i) p" using ok li by (simp add: iocp_ok_def p_def recv_state_def)
  have sends: "i \<notin> X \<Longrightarrow> send_state (own_sends s i) (io_peer s i)" using ok li by (simp add: iocp_ok_def)
  have s2_ok: "iocp_ok (insert i X) H s2" unfolding s2_def
    by (rule iocp_ok_put [OF ok i])
      (use iocp_ok_bufs [OF ok i] b(1) reads leng i in \<open>auto simp: bufs_ok_def p_def\<close>)
  note n = newIOCxt_ok [OF s2_ok s3] note c = io_call_cases [OF s4]
  have s4_ok: "iocp_ok (insert i X) (c # H) s4" using io_call_ok [OF s4 n(1)] .
  have peers4: "io_peers s4 = io_peers s2" using c n by simp
  have "io_peer s4 = io_peer s2" by (simp add: fun_eq_iff io_peer_def peers4)
  moreover have "io_peer s2 i = p" "io_peer s1 i = (io_peer s i)\<lparr>write_buf_backup := b\<rparr>"
    using leng i by (simp_all add: s2_def s1)
  ultimately have peer: "io_peer s4 = io_peer s2" "io_peer s2 i = p"
    "io_peer s1 i = (io_peer s i)\<lparr>write_buf_backup := b\<rparr>" by simp_all
  have live4: "live s4 i" using li by (simp add: live_def peer) (simp add: p_def)
  have own4: "own_sends s4 i = own_sends s i" "own_reads s4 i = own_reads s i"
    using c(4) n(4) peer by (simp_all add: own_sends_def own_reads_def own_def p_def s2_def)
  have op: "io_operation s4 c = ClientIoWrite"
    using c(5) n(2) by (metis iocp.select_convs(5) iocp.surjective iocp.update_convs(8))
  have rq_ok: "request_ok s4 rq"
    by (rule request_ok_new [OF s4_ok])
      (use live4 op in \<open>simp_all add: rq_def is_send_def fits_block_def peer p_def\<close>)
  have posted: "iocp_ok X H (post_request rq s4)"
    by (rule post_request_ok [OF s4_ok rq_ok])
      (use reads sends idle own4 in
        \<open>auto simp: rq_def peer p_def own_post is_send_def send_state_def recv_state_def\<close>)
  have "serves s s2" unfolding s2_def by (rule serves_put [OF leng i]) (simp add: p_def b(2))
  moreover have "serves s2 (post_request rq s4)"
    by (rule serves_same) (use c n peers4 in \<open>simp_all add: post_request_def rq_def is_send_def\<close>)
  ultimately have "serves s (post_request rq s4)" by (rule serves_trans)
  moreover have same: "io_peer (post_request rq s4) i = p" by (simp add: post_request_def peer)
  moreover have "sent_stream (post_request rq s4) i = sent_stream s1 i"
    using c(3) n(5) by (simp add: sent_stream_def same peer) (simp add: post_request_def p_def s2_def s1)
  moreover have "put_peer i ((io_peer s1 i)\<lparr>wsa_send := True\<rparr>) s1 = s2"
    unfolding peer by (simp add: s1 s2_def p_def leng i)
  ultimately show ?thesis
    using idle posted unfolding wake_def by (simp add: s3 s4 Let_def peer) (simp add: rq_def p_def)
qed

lemma send_append:
  assumes ok: "iocp_ok X H s" and li: "live s i"
    and b: "lib_ok b" "sb_content b = sb_content (write_buf_backup (io_peer s i)) @ xs"
    and s1: "s1 = put_peer i ((io_peer s i)\<lparr>write_buf_backup := b\<rparr>) s"
  shows "ends (\<lambda>_ t. iocp_ok X H t \<and> serves s t \<and> sends_of i ser xs s t) (wake i s1)"
proof -
  have i: "i < LIB_PEER_NUM" "p_socket (io_peer s i) \<noteq> INVALID_SOCKET" and leng: "length (io_peers s) = LIB_PEER_NUM"
    using li iocp_ok_length [OF ok] by (simp_all add: live_def)
  have peer1: "io_peer s1 i = (io_peer s i)\<lparr>write_buf_backup := b\<rparr>"
    and out: "sent_stream s1 i = sent_stream s i @ xs"
    using leng i b(2) by (simp_all add: s1 sent_stream_def [of s])
  show ?thesis
  proof (cases "wsa_send (io_peer s i)")
    case True
    have "recv_state (own_reads s i) (io_peer s i)" "i \<notin> X \<Longrightarrow> send_state (own_sends s i) (io_peer s i)"
      using ok li by (simp_all add: iocp_ok_def)
    then have "iocp_ok X H s1" unfolding s1
      by (intro iocp_ok_put [OF ok i(1)])
        (use iocp_ok_bufs [OF ok i(1)] b True leng i in \<open>auto simp: bufs_ok_def recv_state_def send_state_def\<close>)
    moreover have "serves s s1" unfolding s1 by (rule serves_put [OF leng i(1)]) (simp add: b(2))
    ultimately show ?thesis using True i out by (simp add: wake_def peer1 sends_of_def live_def)
  next
    case False
    have pre: "prefix (sb_content (write_buf_backup (io_peer s i))) (sb_content b)" by (simp add: b(2))
    show ?thesis
      by (rule ends_weaken [OF wake_ends [OF ok li False b(1) pre s1]])
        (use i out in \<open>simp add: sends_of_def live_def peer1\<close>)
  qed
qed

lemma io_send_ends:
  assumes ok: "iocp_ok X H s" and len: "unat len \<le> length buf" "unat len < 2 ^ 31"
  shows "ends (\<lambda>_ t. iocp_ok X H t \<and> serves s t \<and> sends_of (unat index) ser (take (unat len) buf) s t)
    (io_send index ser buf len s)"
  unfolding io_send_def
proof (rule getPeer_ends)
  fix i assume i: "unat index = i" "i < LIB_PEER_NUM"
  let ?Q = "\<lambda>t. iocp_ok X H t \<and> serves s t \<and> sends_of i ser (take (unat len) buf) s t"
  have "ends (\<lambda>_ b. lib_ok b \<and> sb_content b = sb_content (write_buf_backup (io_peer s i)) @ take (unat len) buf)
      (apendBuf (write_buf_backup (io_peer s i)) buf len)"
    using iocp_ok_bufs [OF ok i(2)] apendBuf_part len by (simp add: bufs_ok_def)
  note append = on_backup_ends [of _ "\<lambda>b. apendBuf b buf len", OF this]
  have "ends (\<lambda>_. ?Q) (and_then (on_backup i (\<lambda>b. apendBuf b buf len) s) (\<lambda>_ s. wake i s))" if "live s i"
    by (rule ends_and_then [OF append]) (use send_append [OF ok that] in blast)
  then show "ends (\<lambda>_ t. iocp_ok X H t \<and> serves s t \<and> sends_of (unat index) ser (take (unat len) buf) s t)
      (if serial (io_peer s i) \<noteq> ser \<or> p_socket (io_peer s i) = INVALID_SOCKET then returns () s
       else and_then (on_backup i (\<lambda>b. apendBuf b buf len) s) (\<lambda>_ s. wake i s))"
    using ok i by (auto simp: sends_of_def live_def)
qed

end
