(* ===== verification/IocpLoop.thy ===== *)
theory IocpLoop
  imports IocpOrder
begin

text \<open>
  The loop of the service on a completion port: taking a completion, going on with the request
  after it, and accepting a connection keep the invariant and lose no byte.
\<close>

section \<open>A request is taken\<close>

lemma iocp_ok_settle:
  assumes "iocp_ok X H s" "live s i \<Longrightarrow> send_state (own_sends s i) (io_peer s i)"
  shows "iocp_ok (X - {i}) H s"
  using assms by (auto simp: iocp_ok_def)

lemma without_split:
  assumes "j < length (io_requests s)"
  obtains us vs where "io_requests s = us @ io_requests s ! j # vs" "io_requests (without j s) = us @ vs"
  using that [of "take j (io_requests s)" "drop (Suc j) (io_requests s)"] id_take_nth_drop [OF assms]
  by (simp add: without_def)

lemma without_fields [simp]:
  "io_peers (without j s) = io_peers s" "io_peer (without j s) = io_peer s" "live (without j s) = live s"
  "io_sys (without j s) = io_sys s" "io_pool (without j s) = io_pool s" "fits_block (without j s) = fits_block s"
  "io_operation (without j s) = io_operation s"
  by (simp_all add: without_def)

lemma without_ok:
  assumes ok: "iocp_ok {} H s" and j: "j < length (io_requests s)" and rq: "rq = io_requests s ! j"
  shows "iocp_ok {rq_key rq} (rq_context rq # H) (without j s)"
    and "\<not> is_send rq \<or> rq_socket rq \<noteq> p_socket (io_peer s (rq_key rq)) \<Longrightarrow>
      iocp_ok {} (rq_context rq # H) (without j s)"
    and "live s (rq_key rq) \<Longrightarrow> rq_socket rq = p_socket (io_peer s (rq_key rq)) \<Longrightarrow> is_send rq \<Longrightarrow>
      own_sends s (rq_key rq) = [rq] \<and> own_sends (without j s) (rq_key rq) = []"
    and "live s (rq_key rq) \<Longrightarrow> rq_socket rq = p_socket (io_peer s (rq_key rq)) \<Longrightarrow> \<not> is_send rq \<Longrightarrow>
      own_reads s (rq_key rq) = [rq] \<and> own_reads (without j s) (rq_key rq) = []"
proof -
  obtain us vs where r: "io_requests s = us @ rq # vs" "io_requests (without j s) = us @ vs"
    using without_split [OF j] rq by metis
  have sends: "own_sends s i = filter is_send (filter P us) @ (if P rq \<and> is_send rq then [rq] else []) @ filter is_send (filter P vs)"
    "own_sends (without j s) i = filter is_send (filter P us) @ filter is_send (filter P vs)"
    and reads: "own_reads s i = filter (\<lambda>q. \<not> is_send q) (filter P us) @ (if P rq \<and> \<not> is_send rq then [rq] else []) @
      filter (\<lambda>q. \<not> is_send q) (filter P vs)"
    "own_reads (without j s) i = filter (\<lambda>q. \<not> is_send q) (filter P us) @ filter (\<lambda>q. \<not> is_send q) (filter P vs)"
    if "P = (\<lambda>q. rq_key q = i \<and> rq_socket q = p_socket (io_peer s i))" for P i
    using that r by (simp_all add: own_sends_def own_reads_def own_def)
  have recv_state: "recv_state (own_reads (without j s) i) (io_peer s i)" if "live s i" for i
  proof -
    have "recv_state (own_reads s i) (io_peer s i)" using ok that by (simp add: iocp_ok_def)
    then show ?thesis unfolding reads [OF refl]
      by (auto simp: recv_state_def append_eq_Cons_conv Cons_eq_append_conv split: if_splits)
  qed
  have send_state: "send_state (own_sends (without j s) i) (io_peer s i)"
    if "live s i" "i \<noteq> rq_key rq \<or> \<not> is_send rq \<or> rq_socket rq \<noteq> p_socket (io_peer s (rq_key rq))" for i
  proof -
    have "send_state (own_sends s i) (io_peer s i)" using ok that by (simp add: iocp_ok_def)
    moreover have "own_sends (without j s) i = own_sends s i" using that(2) unfolding sends [OF refl] by auto
    ultimately show ?thesis by simp
  qed
  have "contexts_ok (rq_context rq # H) (without j s)"
    using ok r by (auto simp: iocp_ok_def contexts_ok_def)
  moreover have "request_ok (without j s) = request_ok s" by (simp add: fun_eq_iff request_ok_def)
  ultimately show "iocp_ok {rq_key rq} (rq_context rq # H) (without j s)"
    "\<not> is_send rq \<or> rq_socket rq \<noteq> p_socket (io_peer s (rq_key rq)) \<Longrightarrow>
      iocp_ok {} (rq_context rq # H) (without j s)"
    using ok r recv_state send_state by (auto simp: iocp_ok_def)
  let ?i = "rq_key rq"
  show "own_sends s ?i = [rq] \<and> own_sends (without j s) ?i = []"
    if "live s ?i" "rq_socket rq = p_socket (io_peer s ?i)" "is_send rq"
  proof -
    have "send_state (own_sends s ?i) (io_peer s ?i)" using ok that by (simp add: iocp_ok_def)
    then show ?thesis using that unfolding sends [OF refl]
      by (auto simp: send_state_def append_eq_Cons_conv Cons_eq_append_conv split: if_splits)
  qed
  show "own_reads s ?i = [rq] \<and> own_reads (without j s) ?i = []"
    if "live s ?i" "rq_socket rq = p_socket (io_peer s ?i)" "\<not> is_send rq"
  proof -
    have "recv_state (own_reads s ?i) (io_peer s ?i)" using ok that by (simp add: iocp_ok_def)
    then show ?thesis using that unfolding reads [OF refl]
      by (auto simp: recv_state_def append_eq_Cons_conv Cons_eq_append_conv split: if_splits)
  qed
qed

text \<open>A request whose connection has been closed has no effect on the others.\<close>

lemma stored_ok:
  assumes ok: "iocp_ok X H s" and rq: "request_ok s rq"
    and t: "rq_transfer rq = Receive (sb_mallocs (read_buf (io_peer s (rq_key rq)))) off room"
  obtains old new where "sb_buf (read_buf (io_peer s (rq_key rq))) = Some old"
    "poke old (unat off) (take (unat room) bs) = Some new" "length new = length old"
    "new = take (unat off) old @ take (unat room) bs @ drop (unat off + length (take (unat room) bs)) old"
proof -
  have "lib_ok (read_buf (io_peer s (rq_key rq)))"
    using ok rq by (simp add: iocp_ok_def request_ok_def bufs_ok_def)
  then obtain old where old: "sb_buf (read_buf (io_peer s (rq_key rq))) = Some old"
    "length old = unat (m_size (read_buf (io_peer s (rq_key rq))))"
    by (auto simp: lib_ok_def)
  have "unat off + unat room \<le> length old" using rq t old by (simp add: request_ok_def fits_block_def)
  then have "unat off + length (take (unat room) bs) \<le> length old" by simp
  then show ?thesis using that [OF old(1)] by (simp add: poke_def)
qed

lemma departed_ok:
  assumes "iocp_ok X H s"
  shows "iocp_ok X H (s\<lparr>io_sys := (io_sys s)\<lparr>departed := d\<rparr>\<rparr>)" "iocp_ok X H (s\<lparr>io_sys := (io_sys s)\<lparr>arrived := d\<rparr>\<rparr>)"
  using assms by (auto intro!: iocp_ok_sys simp: later_os_def)

lemma bufs_ok_stored:
  assumes "bufs_ok p" "sb_buf (read_buf p) = Some old" "length new = length old"
  shows "bufs_ok (p\<lparr>read_buf := (read_buf p)\<lparr>sb_buf := Some new\<rparr>\<rparr>)"
  using assms by (simp add: bufs_ok_def lib_ok_def)

lemma transfer_done_closed:
  assumes ok: "iocp_ok X H s" and rq: "request_ok s rq" and gone: "\<not> live s (rq_key rq)"
  obtains sz t where "transfer_done rq bs m s = Some (sz, t)" "iocp_ok X H t" "moves {} s t"
    "live t = live s" "io_operation t = io_operation s"
proof -
  let ?i = "rq_key rq" let ?w = "io_sys s"
  have len: "length (io_peers s) = LIB_PEER_NUM" using ok by (rule iocp_ok_length)
  have i: "?i < LIB_PEER_NUM" "p_socket (io_peer s ?i) = INVALID_SOCKET" "rq_socket rq \<noteq> INVALID_SOCKET"
    using rq gone by (auto simp: request_ok_def live_def)
  show ?thesis
  proof (cases "rq_transfer rq")
    case Notify
    then show ?thesis using ok by (intro that [of 0 s]) (simp_all add: transfer_done_def)
  next
    case (Transmit xs)
    let ?t = "s\<lparr>io_sys := ?w\<lparr>departed := (departed ?w)(rq_socket rq := departed ?w (rq_socket rq) @ take m xs)\<rparr>\<rparr>"
    have "p_socket (io_peer s j) \<noteq> rq_socket rq" if "live s j" for j
      using rq gone that by (auto simp: request_ok_def)
    then have "moves {} s ?t" by (auto simp: moves_def later_os_def sent_stream_def)
    then show ?thesis using departed_ok [OF ok] Transmit
      by (intro that [of "of_nat (length (take m xs))" ?t]) (simp_all add: transfer_done_def Let_def)
  next
    case (Receive block off room)
    let ?got = "take (unat room) bs" let ?b = "read_buf (io_peer s ?i)"
    show ?thesis
    proof (cases "?got = [] \<or> sb_mallocs ?b \<noteq> block")
      case True
      then show ?thesis using ok i Receive
        by (intro that [of "of_nat (length ?got)" s]) (auto simp: transfer_done_def Let_def)
    next
      case False
      then have blk: "block = sb_mallocs ?b" by simp
      obtain old new where new: "sb_buf ?b = Some old" "poke old (unat off) ?got = Some new" "length new = length old"
        using stored_ok [OF ok rq Receive [unfolded blk]] by metis
      define u where "u = s\<lparr>io_sys := ?w\<lparr>arrived := (arrived ?w)(rq_socket rq := arrived ?w (rq_socket rq) @ ?got)\<rparr>\<rparr>"
      define p where "p = (io_peer s ?i)\<lparr>read_buf := ?b\<lparr>sb_buf := Some new\<rparr>\<rparr>"
      have u: "iocp_ok X H u" "length (io_peers u) = LIB_PEER_NUM" "io_peer u = io_peer s"
        using departed_ok [OF ok] len by (simp_all add: u_def)
      have p: "bufs_ok p" "p_socket p = INVALID_SOCKET" "same_block ?b (read_buf p)"
        using bufs_ok_stored [OF iocp_ok_bufs [OF ok i(1)] new(1,3)] i(2) by (simp_all add: p_def same_block_def)
      have "iocp_ok X H (put_peer ?i p u)"
        by (rule iocp_ok_put [OF u(1) i(1) p(1)]) (use p u in auto)
      moreover have "moves {} s (put_peer ?i p u)"
        by (rule moves_trans [OF moves_same moves_put [OF u(2) i(1)]]) (use p in \<open>auto simp: u_def later_os_def\<close>)
      moreover have "live (put_peer ?i p u) = live s" using u i p(2) by (auto simp: fun_eq_iff live_def)
      moreover have "transfer_done rq bs m s = Some (of_nat (length ?got), put_peer ?i p u)"
        using False Receive new by (simp add: transfer_done_def Let_def u_def p_def)
      ultimately show ?thesis using that by (simp add: u_def)
    qed
  qed
qed

section \<open>What has been sent leaves the buffer\<close>

text \<open>The bytes of the second buffer move to the first, which no request uses now.\<close>

lemma refill_ends:
  assumes ok: "iocp_ok {i} H s" and li: "live s i"
  shows "ends (\<lambda>_ t. iocp_ok {i} H t \<and> moves {} s t \<and> live t i \<and> own_sends t i = own_sends s i \<and>
    wsa_send (io_peer t i) = wsa_send (io_peer s i) \<and> sb_content (write_buf_backup (io_peer t i)) = [])
    (refill i s)"
proof -
  have i: "i < LIB_PEER_NUM" and len: "length (io_peers s) = LIB_PEER_NUM"
    using li iocp_ok_length [OF ok] by (simp_all add: live_def)
  define wb where "wb = write_buf (io_peer s i)" define bk where "bk = write_buf_backup (io_peer s i)"
  have lib: "lib_ok wb" "lib_ok bk" using iocp_ok_bufs [OF ok i] by (simp_all add: bufs_ok_def wb_def bk_def)
  have reads: "recv_state (own_reads s i) (io_peer s i)" using ok li by (simp add: iocp_ok_def)
  obtain num where num: "readableBytes bk = returns num bk" "unat num = length (sb_content bk)"
    using lib_readable [OF lib(2)] .
  have asks: "on_backup i readableBytes s = returns num s"
    by (rule on_backup_asks) (simp add: bk_def [symmetric] num)
  obtain bs where bs: "sb_buf bk = Some bs" "fetch bs (unat (m_read_index bk)) (unat num) = Some (sb_content bk)"
    using lib(2) num(2) by (elim lib_okE) (simp add: fetch_def)
  have small: "length (sb_content bk) < 2 ^ 31" using lib(2) by (elim lib_okE) simp
  have num_eq: "num = of_nat (length (sb_content bk))" unfolding num(2) [symmetric] by simp
  obtain bk' where bk': "readMove bk num = returns () bk'" "lib_ok bk'" "sb_content bk' = []"
    using lib_readMove [OF lib(2), of num] num(2) by auto
  have moved: "ends (\<lambda>_ t. iocp_ok {i} H t \<and> moves {} s t \<and> live t i \<and> own_sends t i = own_sends s i \<and>
      wsa_send (io_peer t i) = wsa_send (io_peer s i) \<and> sb_content (write_buf_backup (io_peer t i)) = [])
      (on_backup i (\<lambda>b. readMove b num) t)"
    if t: "lib_ok b" "sb_content b = sb_content wb @ sb_content bk" "t = put_peer i ((io_peer s i)\<lparr>write_buf := b\<rparr>) s"
    for b t
  proof -
    define p where "p = (io_peer s i)\<lparr>write_buf := b, write_buf_backup := bk'\<rparr>"
    have "on_backup i (\<lambda>b. readMove b num) t = returns () (put_peer i p s)"
      using t(3) i len bk'(1) by (simp add: on_buf_def returns_def bk_def p_def)
    moreover have "iocp_ok {i} H (put_peer i p s)"
      by (rule iocp_ok_put [OF ok i]) (use lib t bk' reads i len iocp_ok_bufs [OF ok i] in
          \<open>auto simp: p_def bufs_ok_def recv_state_def\<close>)
    moreover have "moves {} s (put_peer i p s)"
      by (rule moves_put [OF len i]) (simp add: p_def t(2) bk'(3) wb_def bk_def)
    ultimately show ?thesis using i len li bk'(3) by (simp add: p_def live_def)
  qed
  show ?thesis
  proof (cases "num > 0")
    case False
    then have "sb_content bk = []" using num(2) by (simp add: word_gt_0)
    then show ?thesis using False ok li unfolding refill_def by (simp add: asks bk_def)
  next
    case True
    have "ends (\<lambda>_ b. lib_ok b \<and> sb_content b = sb_content wb @ sb_content bk)
        (apendBuf (write_buf (io_peer s i)) (sb_content bk) num)"
      using apendBuf_ends [OF lib(1) small] by (simp add: num_eq wb_def)
    note append = on_wbuf_ends [of _ "\<lambda>b. apendBuf b (sb_content bk) num", OF this]
    have "ends (\<lambda>_ t. iocp_ok {i} H t \<and> moves {} s t \<and> live t i \<and> own_sends t i = own_sends s i \<and>
        wsa_send (io_peer t i) = wsa_send (io_peer s i) \<and> sb_content (write_buf_backup (io_peer t i)) = [])
      (and_then (on_wbuf i (\<lambda>b. apendBuf b (sb_content bk) num) s) (\<lambda>_ s. on_backup i (\<lambda>b. readMove b num) s))"
      by (rule ends_and_then [OF append]) (use moved in blast)
    then show ?thesis using True unfolding refill_def
      by (simp add: asks bk_def [symmetric] bs)
  qed
qed

lemma sent_leaves:
  assumes ok: "iocp_ok {i} H s" and li: "live s i"
    and buf: "sb_content (write_buf (io_peer s i)) = out @ rest" "sz = of_nat (length out)"
  obtains p where "on_wbuf i (\<lambda>b. readMove b sz) (put_peer i ((io_peer s i)\<lparr>wsa_send := False\<rparr>) s) =
      returns () (put_peer i p s)"
    "p_socket p = p_socket (io_peer s i)" "\<not> wsa_send p" "sb_content (write_buf p) = rest"
    "write_buf_backup p = write_buf_backup (io_peer s i)" "iocp_ok {i} H (put_peer i p s)"
proof -
  have i: "i < LIB_PEER_NUM" and len: "length (io_peers s) = LIB_PEER_NUM"
    using li iocp_ok_length [OF ok] by (simp_all add: live_def)
  define wb where "wb = write_buf (io_peer s i)"
  have lib: "lib_ok wb" using iocp_ok_bufs [OF ok i] by (simp add: bufs_ok_def wb_def)
  then have "length out < 2 ^ 31" using buf(1) by (elim lib_okE) (simp add: wb_def [symmetric])
  then have sz: "unat sz = length out" by (simp add: buf(2) unat_of_nat take_bit_eq_mod)
  obtain wb' where wb': "readMove wb sz = returns () wb'" "lib_ok wb'" "sb_content wb' = rest"
    using lib_readMove [OF lib, of sz] buf(1) sz by (auto simp: wb_def)
  define p where "p = (io_peer s i)\<lparr>wsa_send := False, write_buf := wb'\<rparr>"
  have "recv_state (own_reads s i) (io_peer s i)" using ok li by (simp add: iocp_ok_def)
  then have "iocp_ok {i} H (put_peer i p s)"
    by (intro iocp_ok_put [OF ok i])
      (use wb' i len iocp_ok_bufs [OF ok i] in \<open>auto simp: p_def bufs_ok_def recv_state_def\<close>)
  moreover have "on_wbuf i (\<lambda>b. readMove b sz) (put_peer i ((io_peer s i)\<lparr>wsa_send := False\<rparr>) s) =
      returns () (put_peer i p s)"
    using i len wb'(1) by (simp add: on_buf_def returns_def p_def wb_def)
  ultimately show ?thesis using that [of p] wb'(3) by (simp add: p_def)
qed

context io_client
begin

lemma processWrite_ends:
  assumes ok: "iocp_ok {i} H s" and i: "i = unat index" "live s i" and none: "own_sends s i = []"
    and buf: "sb_content (write_buf (io_peer s i)) = out @ rest" "sz = of_nat (length out)"
    and mv: "\<And>p. p_socket p = p_socket (io_peer s i) \<Longrightarrow> sb_content (write_buf p) = rest \<Longrightarrow>
      write_buf_backup p = write_buf_backup (io_peer s i) \<Longrightarrow> moves {} s0 (put_peer i p s)"
  shows "ends (\<lambda>_ t. iocp_ok {} H t \<and> moves {} s0 t) (processWrite cb index sz s)"
  unfolding processWrite_def
proof (rule getPeer_ends)
  fix j assume "unat index = j" "j < LIB_PEER_NUM"
  then have ji: "j = i" and ilt: "i < LIB_PEER_NUM" using i by simp_all
  have len: "length (io_peers s) = LIB_PEER_NUM" using ok by (rule iocp_ok_length)
  obtain p where p: "on_wbuf i (\<lambda>b. readMove b sz) (put_peer i ((io_peer s i)\<lparr>wsa_send := False\<rparr>) s) =
      returns () (put_peer i p s)"
    "p_socket p = p_socket (io_peer s i)" "\<not> wsa_send p" "sb_content (write_buf p) = rest"
    "write_buf_backup p = write_buf_backup (io_peer s i)" "iocp_ok {i} H (put_peer i p s)"
    using sent_leaves [OF ok i(2) buf] by metis
  have u: "live (put_peer i p s) i" "own_sends (put_peer i p s) i = []" "moves {} s0 (put_peer i p s)"
    using i(2) ilt len p(2) none mv [OF p(2,4,5)] by (simp_all add: live_def)
  have goes_on: "ends (\<lambda>_ v. iocp_ok {} H v \<and> moves {} s0 v) (and_then (on_wbuf i readableBytes t) (\<lambda>len s.
      if len > 0 then postSendRequest cb index (serial (io_peer s i)) s else returns () s))"
    if t: "iocp_ok {i} H t" "moves {} (put_peer i p s) t" "live t i" "own_sends t i = []"
      "\<not> wsa_send (io_peer t i)" "sb_content (write_buf_backup (io_peer t i)) = []" for t
  proof -
    have st: "moves {} s0 t" using u(3) t(2) by (rule moves_trans)
    have "lib_ok (write_buf (io_peer t i))" using iocp_ok_bufs [OF t(1) ilt] by (simp add: bufs_ok_def)
    then obtain n where n: "readableBytes (write_buf (io_peer t i)) = returns n (write_buf (io_peer t i))"
      "unat n = length (sb_content (write_buf (io_peer t i)))"
      by (rule lib_readable)
    have asks: "on_wbuf i readableBytes t = returns n t" by (rule on_wbuf_asks) (rule n(1))
    show ?thesis
    proof (cases "n > 0")
      case True
      have "ends (\<lambda>_ v. iocp_ok ({i} - {i}) H v \<and> moves {} t v)
          (postSendRequest cb index (serial (io_peer t i)) t)"
        by (rule postSendRequest_ends [OF t(1) i(1) refl t(4)])
      then show ?thesis using True st by (auto simp: asks intro: ends_weaken moves_trans)
    next
      case False
      then have "sb_content (write_buf (io_peer t i)) = []" using n(2) by (simp add: word_gt_0)
      then have "iocp_ok ({i} - {i}) H t"
        by (intro iocp_ok_settle [OF t(1)]) (use t in \<open>simp add: send_state_def\<close>)
      then show ?thesis using False st by (simp add: asks)
    qed
  qed
  have "ends (\<lambda>_ v. iocp_ok {} H v \<and> moves {} s0 v) (and_then (refill i (put_peer i p s)) (\<lambda>_ s.
      and_then (on_wbuf i readableBytes s) (\<lambda>len s.
        if len > 0 then postSendRequest cb index (serial (io_peer s i)) s else returns () s)))"
    by (rule ends_and_then [OF refill_ends [OF p(6) u(1)]], rule goes_on) (use u ilt len p(3) in auto)
  then show "ends (\<lambda>_ t. iocp_ok {} H t \<and> moves {} s0 t)
     (if p_socket (io_peer s j) = INVALID_SOCKET then returns () s
      else let s = put_peer j ((io_peer s j)\<lparr>wsa_send := False\<rparr>) s in
        and_then (on_wbuf j (\<lambda>b. readMove b sz) s) (\<lambda>_ s.
        and_then (refill j s) (\<lambda>_ s.
        and_then (on_wbuf j readableBytes s) (\<lambda>len s.
          if len > 0 then postSendRequest cb index (serial (io_peer s j)) s else returns () s))))"
    using i(2) unfolding ji Let_def p(1) by (simp add: live_def)
qed

lemma processRead_ends:
  assumes ok: "iocp_ok {} H s" and i: "i = unat index" and none: "live s i \<Longrightarrow> own_reads s i = []"
    and room: "live s i \<Longrightarrow> unat sz \<le> unat (m_size (read_buf (io_peer s i))) - unat (m_write_index (read_buf (io_peer s i)))"
  shows "ends (\<lambda>_ t. iocp_ok {} H t \<and> moves {} s t) (processRead cb index sz s)"
  unfolding processRead_def
proof (rule getPeer_ends)
  fix j assume "unat index = j" "j < LIB_PEER_NUM"
  then have ji: "j = i" and ilt: "i < LIB_PEER_NUM" using i by simp_all
  have len: "length (io_peers s) = LIB_PEER_NUM" using ok by (rule iocp_ok_length)
  define rb where "rb = read_buf (io_peer s i)"
  have lib: "lib_ok rb" using iocp_ok_bufs [OF ok ilt] by (simp add: bufs_ok_def rb_def)
  have reads: "ends (\<lambda>_ t. iocp_ok {} H t \<and> moves {} s t)
      (and_then (on_rbuf i (\<lambda>b. writeMove b sz) s) (\<lambda>_ s.
       and_then (case ioRead cb of None \<Rightarrow> returns 0 s | Some f \<Rightarrow> f i (serial (io_peer s i)) s) (\<lambda>ret s.
         if ret < 0 then io_closePeer cb index (serial (io_peer s i)) s
         else postRecvRequest cb index (serial (io_peer s i)) s)))"
    if li: "live s i"
  proof -
    obtain bs where bs: "sb_buf rb = Some bs" "length bs = unat (m_size rb)" using lib by (auto simp: lib_ok_def)
    define xs where "xs = take (unat sz) (drop (unat (m_write_index rb)) bs)"
    have xs: "length xs = unat sz" using room [OF li] bs(2) by (simp add: xs_def rb_def)
    obtain rb' where rb': "writeMove rb (of_nat (length xs)) = returns () rb'" "lib_ok rb'" "sb_content rb' = sb_content rb @ xs"
      "rb' = rb\<lparr>m_write_index := m_write_index rb + of_nat (length xs)\<rparr>"
      by (rule lib_writeMove [OF lib _ bs(1), of xs]) (use xs room [OF li] in \<open>auto simp: xs_def rb_def\<close>)
    define p where "p = (io_peer s i)\<lparr>read_buf := rb'\<rparr>" define u where "u = put_peer i p s"
    have moved: "on_rbuf i (\<lambda>b. writeMove b sz) s = returns () u"
      using rb'(1) by (simp add: on_buf_def returns_def xs u_def p_def rb_def)
    have sends: "send_state (own_sends s i) p" using ok li by (simp add: iocp_ok_def p_def send_state_def)
    have block: "same_block (read_buf (io_peer s i)) (read_buf p)"
      using rb'(4) by (simp add: p_def same_block_def rb_def)
    have u: "iocp_ok {} H u" unfolding u_def
      by (rule iocp_ok_put [OF ok ilt _ block])
        (use rb' sends none [OF li] ilt len iocp_ok_bufs [OF ok ilt] in \<open>auto simp: p_def bufs_ok_def recv_state_def\<close>)
    have su: "moves {} s u" unfolding u_def by (rule moves_put [OF len ilt]) (simp add: p_def)
    have uu: "live u i" "own_reads u i = []" using li none [OF li] len ilt by (simp_all add: u_def p_def live_def)
    have called: "ends (\<lambda>_ t. iocp_ok {} H t \<and> serves u t)
        (case ioRead cb of None \<Rightarrow> returns 0 u | Some f \<Rightarrow> f i (serial (io_peer u i)) u)"
      using rd [OF _ u uu] u by (auto split: option.split)
    have goes_on: "ends (\<lambda>_ v. iocp_ok {} H v \<and> moves {} s v)
        (if ret < 0 then io_closePeer cb index (serial (io_peer t i)) t
         else postRecvRequest cb index (serial (io_peer t i)) t)"
      if t: "iocp_ok {} H t" "serves u t" for t and ret :: int
    proof -
      have st: "moves {} s t" using su t(2) moves_trans by (auto simp: serves_def)
      have "ends (\<lambda>_ v. iocp_ok {} H v \<and> moves {} t v) (postRecvRequest cb index (serial (io_peer t i)) t)"
        by (rule postRecvRequest_ends [OF t(1) i]) (use serves_reads [OF t(2)] uu(2) in auto)
      moreover have "ends (\<lambda>_ v. iocp_ok {} H v \<and> moves {} t v) (io_closePeer cb index (serial (io_peer t i)) t)"
        by (rule ends_weaken [OF closePeer_ends [OF t(1)]]) (simp add: serves_def)
      ultimately show ?thesis using st by (auto intro: ends_weaken moves_trans)
    qed
    show ?thesis unfolding moved attempt_simps
      by (rule ends_and_then [OF called]) (use goes_on in blast)
  qed
  show "ends (\<lambda>_ t. iocp_ok {} H t \<and> moves {} s t)
      (if p_socket (io_peer s j) = INVALID_SOCKET then returns () s
       else and_then (on_rbuf j (\<lambda>b. writeMove b sz) s) (\<lambda>_ s.
         and_then (case ioRead cb of None \<Rightarrow> returns 0 s | Some f \<Rightarrow> f j (serial (io_peer s j)) s) (\<lambda>ret s.
           if ret < 0 then io_closePeer cb index (serial (io_peer s j)) s
           else postRecvRequest cb index (serial (io_peer s j)) s)))"
    unfolding ji using ok reads ilt by (cases "live s i") (simp_all add: live_def)
qed

end

section \<open>A completion\<close>

text \<open>
  A request that has succeeded was one of the connection in its slot, unless that has been closed
  since: the requests of a closed socket are answered before its slot is taken again.  This is
  an assumption on the answers of the completion port, which the code does not check and Windows
  does not promise; the lemmas on whole runs are about the runs in which it holds.
\<close>

definition timely :: "iocp \<Rightarrow> bool" where
  "timely s \<longleftrightarrow> (case io_answer s (calls (io_sys s)) of
     Success k bs m \<Rightarrow> io_requests s = [] \<or>
       (let rq = io_requests s ! chosen k s in
        p_socket (io_peer s (rq_key rq)) = rq_socket rq \<or> p_socket (io_peer s (rq_key rq)) = INVALID_SOCKET)
   | _ \<Rightarrow> True)"

lemma moves_delete: "moves K s t \<Longrightarrow> moves K s (deleteIOCxt c t)"
  by (erule moves_trans) (rule moves_same, simp_all add: deleteIOCxt_def)

lemma key_index: "i < LIB_PEER_NUM \<Longrightarrow> unat (of_nat i :: 32 word) = i"
  by (simp add: LIB_PEER_NUM_def unat_of_nat take_bit_eq_mod)

lemma moves_sent:
  assumes ok: "iocp_ok {} H s" and li: "live s i"
    and t: "io_peers t = io_peers s" "later_os (io_sys s) (io_sys t)"
      "departed (io_sys t) = (departed (io_sys s))(p_socket (io_peer s i) := departed (io_sys s) (p_socket (io_peer s i)) @ out)"
    and buf: "sb_content (write_buf (io_peer s i)) = out @ rest"
    and p: "p_socket p = p_socket (io_peer s i)" "sb_content (write_buf p) = rest"
      "write_buf_backup p = write_buf_backup (io_peer s i)"
  shows "moves {} s (put_peer i p t)"
  unfolding moves_def
proof (intro conjI allI impI)
  have i: "i < LIB_PEER_NUM" "length (io_peers t) = LIB_PEER_NUM" and peer: "io_peer t = io_peer s"
    using li iocp_ok_length [OF ok] t(1) by (simp_all add: live_def io_peer_def fun_eq_iff)
  show "later_os (io_sys s) (io_sys (put_peer i p t))" using t(2) by simp
  fix j assume j: "live (put_peer i p t) j" "p_socket (io_peer (put_peer i p t) j) \<notin> {}"
  show "p_socket (io_peer (put_peer i p t) j) = p_socket (io_peer s j)"
    using i p(1) by (simp add: peer)
  show "prefix (sent_stream s j) (sent_stream (put_peer i p t) j)"
  proof (cases "j = i")
    case True
    then show ?thesis using i p t(3) buf by (simp add: sent_stream_def)
  next
    case False
    then have "live s j" using j i by (simp add: peer live_def)
    then have "p_socket (io_peer s j) \<noteq> p_socket (io_peer s i)" using ok li False by (auto simp: iocp_ok_def)
    then show ?thesis using False i t(3) by (simp add: sent_stream_def peer)
  qed
qed

context io_client
begin

lemma write_done:
  assumes ok: "iocp_ok {} H s" and li: "live s i" and t_ok: "iocp_ok {i} (c # H) t" and none: "own_sends t i = []"
    and t: "io_peers t = io_peers s" "later_os (io_sys s) (io_sys t)"
      "departed (io_sys t) = (departed (io_sys s))(p_socket (io_peer s i) := departed (io_sys s) (p_socket (io_peer s i)) @ out)"
    and buf: "sb_content (write_buf (io_peer s i)) = out @ rest" and op: "io_operation t c = ClientIoWrite"
  shows "ends (\<lambda>_ u. iocp_ok {} H u \<and> moves {} s u) (on_completion cb (of_nat i) (of_nat (length out)) c t)"
  unfolding on_completion_def
proof (rule getPeer_ends)
  fix j assume j: "unat (of_nat i :: 32 word) = j" "j < LIB_PEER_NUM"
  have ilt: "i < LIB_PEER_NUM" using li by (simp add: live_def)
  with j have ji: "j = i" by (simp add: key_index)
  have peer: "io_peer t = io_peer s" using t(1) by (simp add: fun_eq_iff io_peer_def)
  have lt: "live t i" using li by (simp add: live_def peer)
  have "ends (\<lambda>_ u. iocp_ok {} (c # H) u \<and> moves {} s u) (processWrite cb (of_nat i) (of_nat (length out)) t)"
  proof (rule processWrite_ends [OF t_ok _ lt none _ refl])
    show "sb_content (write_buf (io_peer t i)) = out @ rest" using buf by (simp add: peer)
    show "moves {} s (put_peer i p t)" if "p_socket p = p_socket (io_peer t i)" "sb_content (write_buf p) = rest"
      "write_buf_backup p = write_buf_backup (io_peer t i)" for p
      using moves_sent [OF ok li t buf] that by (simp add: peer)
  qed (simp add: key_index ilt)
  then have "ends (\<lambda>_ u. iocp_ok {} H u \<and> moves {} s u)
      (and_then (processWrite cb (of_nat i) (of_nat (length out)) t) (\<lambda>_ s. returns True (deleteIOCxt (Some c) s)))"
    by (rule ends_and_then) (simp add: deleteIOCxt_ok moves_delete)
  then show "ends (\<lambda>_ u. iocp_ok {} H u \<and> moves {} s u)
      (if p_socket (io_peer t j) = INVALID_SOCKET then returns True t
       else and_then
         (case io_operation t c of
            ClientIoRead \<Rightarrow>
              if of_nat (length out) = (0 :: 32 word) then io_closePeer cb (of_nat i) (serial (io_peer t j)) t
              else processRead cb (of_nat i) (of_nat (length out)) t
          | ClientIoWrite \<Rightarrow> processWrite cb (of_nat i) (of_nat (length out)) t
          | ClientIoUnknown \<Rightarrow> throws t)
         (\<lambda>_ s. returns True (deleteIOCxt (Some c) s)))"
    using lt op unfolding ji by (simp add: live_def)
qed

lemma read_done:
  assumes ok: "iocp_ok {} (c # H) t" and i: "i < LIB_PEER_NUM" and none: "live t i \<Longrightarrow> own_reads t i = []"
    and room: "unat sz \<le> unat (m_size (read_buf (io_peer t i))) - unat (m_write_index (read_buf (io_peer t i)))"
    and op: "io_operation t c = ClientIoRead"
  shows "ends (\<lambda>_ u. iocp_ok {} H u \<and> moves {} t u) (on_completion cb (of_nat i) sz c t)"
  unfolding on_completion_def
proof (rule getPeer_ends)
  fix j assume j: "unat (of_nat i :: 32 word) = j" "j < LIB_PEER_NUM"
  with i have ji: "j = i" by (simp add: key_index)
  have "ends (\<lambda>_ u. iocp_ok {} (c # H) u \<and> moves {} t u) (processRead cb (of_nat i) sz t)"
    by (rule processRead_ends [OF ok]) (use none room i in \<open>auto simp: key_index\<close>)
  moreover have "ends (\<lambda>_ u. iocp_ok {} (c # H) u \<and> moves {} t u) (io_closePeer cb (of_nat i) ser t)" for ser
    by (rule ends_weaken [OF closePeer_ends [OF ok]]) (simp add: serves_def)
  ultimately have "ends (\<lambda>_ u. iocp_ok {} (c # H) u \<and> moves {} t u)
      (if sz = 0 then io_closePeer cb (of_nat i) (serial (io_peer t i)) t else processRead cb (of_nat i) sz t)"
    by simp
  then have "ends (\<lambda>_ u. iocp_ok {} H u \<and> moves {} t u)
      (and_then (if sz = 0 then io_closePeer cb (of_nat i) (serial (io_peer t i)) t else processRead cb (of_nat i) sz t)
        (\<lambda>_ s. returns True (deleteIOCxt (Some c) s)))"
    by (rule ends_and_then) (simp add: deleteIOCxt_ok moves_delete)
  then show "ends (\<lambda>_ u. iocp_ok {} H u \<and> moves {} t u)
      (if p_socket (io_peer t j) = INVALID_SOCKET then returns True t
       else and_then
         (case io_operation t c of
            ClientIoRead \<Rightarrow>
              if sz = 0 then io_closePeer cb (of_nat i) (serial (io_peer t j)) t
              else processRead cb (of_nat i) sz t
          | ClientIoWrite \<Rightarrow> processWrite cb (of_nat i) sz t
          | ClientIoUnknown \<Rightarrow> throws t)
         (\<lambda>_ s. returns True (deleteIOCxt (Some c) s)))"
    using op iocp_ok_forget [OF ok] unfolding ji by simp
qed

lemma success_closed:
  assumes ok: "iocp_ok {} H s" and j: "j < length (io_requests s)" and rq: "rq = io_requests s ! j"
    and dead: "\<not> live s (rq_key rq)"
  obtains sz t where "transfer_done rq bs m (without j s) = Some (sz, t)"
    "ends (\<lambda>_ u. iocp_ok {} H u \<and> moves {} s u) (on_completion cb (of_nat (rq_key rq)) sz (rq_context rq) t)"
proof -
  let ?i = "rq_key rq" let ?c = "rq_context rq" let ?s = "without j s"
  have rq_ok: "request_ok s rq" "request_ok ?s rq"
    using ok j rq by (auto simp: iocp_ok_def request_ok_def)
  then have i: "?i < LIB_PEER_NUM" by (simp add: request_ok_def)
  have "p_socket (io_peer s ?i) = INVALID_SOCKET" using i dead by (simp add: live_def)
  then have "iocp_ok {} (?c # H) ?s" using without_ok(2) [OF ok j rq] rq_ok by (simp add: request_ok_def)
  then obtain sz t where t: "transfer_done rq bs m ?s = Some (sz, t)" "iocp_ok {} (?c # H) t" "moves {} ?s t"
    "live t = live ?s"
    using transfer_done_closed rq_ok(2) dead by (metis without_fields(3))
  have "\<not> live t ?i" using t(4) dead by simp
  then have "on_completion cb (of_nat ?i) sz ?c t = returns True t"
    using i by (simp add: on_completion_def lib_getPeer_def key_index live_def)
  moreover have "moves {} s ?s" by (rule moves_same) simp_all
  ultimately show ?thesis using that [OF t(1)] iocp_ok_forget [OF t(2)] moves_trans t(3) by simp
qed

lemma success_send:
  assumes ok: "iocp_ok {} H s" and j: "j < length (io_requests s)" and rq: "rq = io_requests s ! j"
    and li: "live s (rq_key rq)" and own: "rq_socket rq = p_socket (io_peer s (rq_key rq))" and snd: "is_send rq"
  obtains sz t where "transfer_done rq bs m (without j s) = Some (sz, t)"
    "ends (\<lambda>_ u. iocp_ok {} H u \<and> moves {} s u) (on_completion cb (of_nat (rq_key rq)) sz (rq_context rq) t)"
proof -
  let ?i = "rq_key rq" let ?c = "rq_context rq" let ?s = "without j s" let ?w = "io_sys s"
  let ?buf = "sb_content (write_buf (io_peer s ?i))"
  note w = without_ok(1) [OF ok j rq] and o = without_ok(3) [OF ok j rq li own snd]
  have op: "io_operation s ?c = ClientIoWrite"
    using ok j rq snd by (auto simp: iocp_ok_def request_ok_def)
  have state: "send_state (own_sends s ?i) (io_peer s ?i)" using ok li by (simp add: iocp_ok_def)
  have fin: "ends (\<lambda>_ u. iocp_ok {} H u \<and> moves {} s u) (on_completion cb (of_nat ?i) (of_nat (length out)) ?c t)"
    if "iocp_ok {?i} (?c # H) t" "own_sends t ?i = []" "io_peers t = io_peers s" "later_os ?w (io_sys t)"
      "departed (io_sys t) = (departed ?w)(p_socket (io_peer s ?i) := departed ?w (p_socket (io_peer s ?i)) @ out)"
      "?buf = out @ rest" "io_operation t ?c = ClientIoWrite" for out rest t
    using write_done [OF ok li that(1-5) that(6,7)] .
  show ?thesis
  proof (cases "rq_transfer rq")
    case Notify
    then have "?buf = []" using state o by (auto simp: send_state_def split: if_splits)
    then have "ends (\<lambda>_ u. iocp_ok {} H u \<and> moves {} s u) (on_completion cb (of_nat ?i) (of_nat (length ([] :: byte list))) ?c ?s)"
      by (intro fin [of _ "[]" "[]"]) (use w o op in simp_all)
    then show ?thesis using Notify by (intro that [of 0 ?s]) (simp_all add: transfer_done_def)
  next
    case (Transmit xs)
    then have xs: "?buf = take m xs @ drop m xs" using state o by (auto simp: send_state_def split: if_splits)
    define t where "t = ?s\<lparr>io_sys := ?w\<lparr>departed := (departed ?w)(rq_socket rq := departed ?w (rq_socket rq) @ take m xs)\<rparr>\<rparr>"
    have "iocp_ok {?i} (?c # H) t" using departed_ok(1) [OF w] by (simp add: t_def)
    then have "ends (\<lambda>_ u. iocp_ok {} H u \<and> moves {} s u)
        (on_completion cb (of_nat ?i) (of_nat (length (take m xs))) ?c t)"
      by (rule fin [OF _ _ _ _ _ xs]) (use o own op in \<open>simp_all add: t_def later_os_def\<close>)
    then show ?thesis using Transmit
      by (intro that [of "of_nat (length (take m xs))" t]) (simp_all add: transfer_done_def Let_def t_def)
  qed (use snd in \<open>simp add: is_send_def\<close>)
qed

lemma success_read:
  assumes ok: "iocp_ok {} H s" and j: "j < length (io_requests s)" and rq: "rq = io_requests s ! j"
    and li: "live s (rq_key rq)" and own: "rq_socket rq = p_socket (io_peer s (rq_key rq))" and rcv: "\<not> is_send rq"
  obtains sz t where "transfer_done rq bs m (without j s) = Some (sz, t)"
    "ends (\<lambda>_ u. iocp_ok {} H u \<and> moves {} s u) (on_completion cb (of_nat (rq_key rq)) sz (rq_context rq) t)"
proof -
  let ?i = "rq_key rq" let ?c = "rq_context rq" let ?s = "without j s" let ?w = "io_sys s"
  let ?b = "read_buf (io_peer s ?i)"
  note o = without_ok(4) [OF ok j rq li own rcv]
  have s_ok: "iocp_ok {} (?c # H) ?s" using without_ok(2) [OF ok j rq] rcv by simp
  have rq_ok: "request_ok s rq" using ok j rq by (auto simp: iocp_ok_def)
  have i: "?i < LIB_PEER_NUM" and op: "io_operation s ?c = ClientIoRead"
    using rq_ok rcv by (simp_all add: request_ok_def)
  have sw: "moves {} s ?s" by (rule moves_same) simp_all
  have "recv_state (own_reads s ?i) (io_peer s ?i)" using ok li by (simp add: iocp_ok_def)
  then obtain room where tr: "rq_transfer rq = Receive (sb_mallocs ?b) (m_write_index ?b) room"
    using o by (auto simp: recv_state_def)
  let ?got = "take (unat room) bs"
  show ?thesis
  proof (cases "?got = []")
    case True
    have "ends (\<lambda>_ u. iocp_ok {} H u \<and> moves {} ?s u) (on_completion cb (of_nat ?i) 0 ?c ?s)"
      by (rule read_done [OF s_ok i]) (use o op in simp_all)
    then show ?thesis using True tr sw
      by (intro that [of 0 ?s]) (auto simp: transfer_done_def intro: ends_weaken moves_trans)
  next
    case nonempty: False
    obtain old new where new: "sb_buf ?b = Some old" "poke old (unat (m_write_index ?b)) ?got = Some new" "length new = length old"
      using stored_ok [OF ok rq_ok tr] by metis
    define u where "u = ?s\<lparr>io_sys := ?w\<lparr>arrived := (arrived ?w)(rq_socket rq := arrived ?w (rq_socket rq) @ ?got)\<rparr>\<rparr>"
    define p where "p = (io_peer s ?i)\<lparr>read_buf := ?b\<lparr>sb_buf := Some new\<rparr>\<rparr>"
    define t where "t = put_peer ?i p u"
    have u: "iocp_ok {} (?c # H) u" "length (io_peers u) = LIB_PEER_NUM" "io_peer u = io_peer s"
      using departed_ok(2) [OF s_ok] iocp_ok_length [OF ok] by (simp_all add: u_def)
    have p: "bufs_ok p" "p_socket p = p_socket (io_peer s ?i)" "same_block (read_buf (io_peer u ?i)) (read_buf p)"
      using bufs_ok_stored [OF iocp_ok_bufs [OF ok i] new(1,3)] u(3) by (simp_all add: p_def same_block_def)
    have "send_state (own_sends u ?i) (io_peer u ?i)" using u(1,3) li by (simp add: iocp_ok_def u_def)
    then have snd: "send_state (own_sends u ?i) p" by (simp add: send_state_def p_def u(3))
    have t_ok: "iocp_ok {} (?c # H) t" unfolding t_def
      by (rule iocp_ok_put [OF u(1) i p(1,3)])
        (use p snd u i o in \<open>auto simp: recv_state_def\<close>, simp add: u_def)
    have st: "moves {} s t" unfolding t_def
      by (rule moves_trans [OF moves_same moves_put [OF u(2) i]])
        (use p u in \<open>auto simp: u_def later_os_def\<close>, simp_all add: p_def)
    have "ends (\<lambda>_ v. iocp_ok {} H v \<and> moves {} t v) (on_completion cb (of_nat ?i) (of_nat (length ?got)) ?c t)"
    proof (rule read_done [OF t_ok i])
      show "own_reads t ?i = []" using u i o p by (simp add: t_def) (simp add: u_def)
      have "unat (m_write_index ?b) + unat room \<le> unat (m_size ?b)"
        using rq_ok tr by (simp add: request_ok_def fits_block_def)
      then show "unat (of_nat (length ?got) :: 32 word) \<le>
          unat (m_size (read_buf (io_peer t ?i))) - unat (m_write_index (read_buf (io_peer t ?i)))"
        using unsigned_less [of room] u i by (simp add: t_def p_def unat_of_nat take_bit_eq_mod)
      show "io_operation t ?c = ClientIoRead" using op by (simp add: t_def u_def)
    qed
    moreover have "transfer_done rq bs m ?s = Some (of_nat (length ?got), t)"
      using nonempty tr new by (simp add: transfer_done_def Let_def t_def u_def p_def)
    ultimately show ?thesis using that st by (auto intro: ends_weaken moves_trans)
  qed
qed

lemma success_ends:
  assumes ok: "iocp_ok {} H s" and j: "j < length (io_requests s)" and rq: "rq = io_requests s ! j"
    and time: "p_socket (io_peer s (rq_key rq)) = rq_socket rq \<or> p_socket (io_peer s (rq_key rq)) = INVALID_SOCKET"
  obtains sz t where "transfer_done rq bs m (without j s) = Some (sz, t)"
    "ends (\<lambda>_ u. iocp_ok {} H u \<and> moves {} s u) (on_completion cb (of_nat (rq_key rq)) sz (rq_context rq) t)"
  using success_closed [OF ok j rq] success_send [OF ok j rq] success_read [OF ok j rq] time
  unfolding live_def by metis

lemma onEventTick_ends:
  assumes ok: "iocp_ok {} H s" and time: "timely s"
  shows "ends (\<lambda>_ t. iocp_ok {} H t \<and> moves {} s t) (onEventTick cb s)"
proof -
  define w where "w = (io_sys s)\<lparr>calls := Suc (calls (io_sys s))\<rparr>"
  define u where "u = s\<lparr>io_sys := w\<rparr>"
  have later: "later_os (io_sys s) w" by (simp add: w_def later_os_def)
  have u: "iocp_ok {} H u" "io_requests u = io_requests s" "io_peer u = io_peer s"
    using iocp_ok_sys [OF ok later] by (simp_all add: u_def)
  have su: "moves {} s u" by (rule moves_same) (use later in \<open>simp_all add: u_def w_def\<close>)
  have stays: "ends (\<lambda>_ t. iocp_ok {} H t \<and> moves {} s t) (returns x u)" for x :: bool
    using u su by simp
  have chosen: "chosen k u = chosen k s" "io_requests s \<noteq> [] \<Longrightarrow> chosen k s < length (io_requests s)" for k
    by (simp_all add: chosen_def u_def)
  show ?thesis
  proof (cases "io_answer s (calls (io_sys s))")
    case (Deleted k)
    show ?thesis
    proof (cases "io_requests s = []")
      case True
      then show ?thesis using stays Deleted u_def w_def
        by (simp add: onEventTick_def GetQueuedCompletionStatus_def next_call_def)
    next
      case False
      define j where "j = chosen k s" define rq where "rq = io_requests s ! j"
      have j: "j < length (io_requests u)" "rq = io_requests u ! j" using chosen(2) False by (simp_all add: j_def rq_def u)
      note closing = without_ok(1) [OF u(1) j]
      have key: "rq_key rq < LIB_PEER_NUM" using u(1) j nth_mem by (auto simp: iocp_ok_def request_ok_def)
      let ?v = "without j u"
      have "ends (\<lambda>_ t. iocp_ok ({rq_key rq} - {rq_key rq}) (rq_context rq # H) t \<and> serves ?v t)
          (io_closePeer cb (of_nat (rq_key rq)) (serial (io_peer ?v (rq_key rq))) ?v)"
        by (rule closePeer_at [OF closing]) (simp_all add: key_index key)
      then have "ends (\<lambda>_ t. iocp_ok {} H t \<and> moves {} s t)
          (and_then (io_closePeer cb (of_nat (rq_key rq)) (serial (io_peer ?v (rq_key rq))) ?v)
            (\<lambda>_ s. returns True (deleteIOCxt (Some (rq_context rq)) s)))"
      proof (rule ends_and_then)
        fix x t assume t: "iocp_ok ({rq_key rq} - {rq_key rq}) (rq_context rq # H) t \<and> serves ?v t"
        have "moves {} s ?v" using su by (rule moves_trans) (simp add: moves_same)
        with t show "ends (\<lambda>_ t. iocp_ok {} H t \<and> moves {} s t) (returns True (deleteIOCxt (Some (rq_context rq)) t))"
          by (auto simp: serves_def intro: deleteIOCxt_ok moves_delete moves_trans)
      qed
      then show ?thesis using Deleted False chosen(1) key
        by (simp add: onEventTick_def GetQueuedCompletionStatus_def next_call_def Let_def w_def [symmetric]
            u_def [symmetric] j_def [symmetric] rq_def [symmetric] u lib_getPeer_def key_index)
    qed
  next
    case (Success k bs m)
    show ?thesis
    proof (cases "io_requests s = []")
      case True
      then show ?thesis using stays Success u_def w_def
        by (simp add: onEventTick_def GetQueuedCompletionStatus_def next_call_def)
    next
      case False
      define j where "j = chosen k s" define rq where "rq = io_requests s ! j"
      have j: "j < length (io_requests u)" "rq = io_requests u ! j" using chosen(2) False by (simp_all add: j_def rq_def u)
      have "p_socket (io_peer u (rq_key rq)) = rq_socket rq \<or> p_socket (io_peer u (rq_key rq)) = INVALID_SOCKET"
        using time Success False by (simp add: timely_def Let_def j_def rq_def u)
      then obtain sz t where t: "transfer_done rq bs m (without j u) = Some (sz, t)"
        "ends (\<lambda>_ v. iocp_ok {} H v \<and> moves {} u v) (on_completion cb (of_nat (rq_key rq)) sz (rq_context rq) t)"
        using success_ends [OF u(1) j] by metis
      from t(2) have "ends (\<lambda>_ v. iocp_ok {} H v \<and> moves {} s v)
          (on_completion cb (of_nat (rq_key rq)) sz (rq_context rq) t)"
        by (rule ends_weaken) (use su moves_trans in blast)
      then show ?thesis using Success False chosen(1) t(1)
        by (simp add: onEventTick_def GetQueuedCompletionStatus_def next_call_def Let_def w_def [symmetric]
            u_def [symmetric] j_def [symmetric] rq_def [symmetric] u)
    qed
  qed (use stays u_def w_def in
      \<open>simp_all add: onEventTick_def GetQueuedCompletionStatus_def next_call_def\<close>)
qed

end

section \<open>A new connection\<close>

lemma newPeer_from_cases:
  "newPeer_from s i = (- 1, s) \<or> (\<exists>k. newPeer_from s i = (of_nat k, fresh_peer s k) \<and> k < LIB_PEER_NUM \<and>
    p_socket (io_peer s k) = INVALID_SOCKET)"
proof (induction s i rule: newPeer_from.induct)
  case (1 s i)
  then show ?case by (cases "i < LIB_PEER_NUM \<and> p_socket (io_peer s i) \<noteq> INVALID_SOCKET")
    (auto simp: newPeer_from.simps [of s i])
qed

text \<open>What is written to a slot without a connection matters to no connection.\<close>

definition idle_step :: "nat \<Rightarrow> nat set \<Rightarrow> nat list \<Rightarrow> iocp \<Rightarrow> iocp \<Rightarrow> bool" where
  "idle_step i X H s t \<longleftrightarrow> iocp_ok X H t \<and> moves {} s t \<and> live t = live s \<and> io_requests t = io_requests s \<and>
     (\<forall>j. p_socket (io_peer t j) = p_socket (io_peer s j))"

lemma idle_step_refl: "iocp_ok X H s \<Longrightarrow> idle_step i X H s s"
  by (simp add: idle_step_def)

lemma idle_step_trans: "idle_step i X H s t \<Longrightarrow> idle_step i X H t u \<Longrightarrow> idle_step i X H s u"
  using moves_trans by (auto simp: idle_step_def)

lemma idle_step_ok: "idle_step i X H s t \<Longrightarrow> iocp_ok X H t"
  by (simp add: idle_step_def)

lemma idle_put:
  assumes ok: "iocp_ok X H s" and i: "i < LIB_PEER_NUM" "p_socket (io_peer s i) = INVALID_SOCKET"
    and p: "p_socket p = INVALID_SOCKET" "bufs_ok p" "same_block (read_buf (io_peer s i)) (read_buf p)"
  shows "idle_step i X H s (put_peer i p s)"
proof -
  have len: "length (io_peers s) = LIB_PEER_NUM" using ok by (rule iocp_ok_length)
  have "iocp_ok X H (put_peer i p s)" by (rule iocp_ok_put [OF ok i(1) p(2,3)]) (use p in auto)
  moreover have "moves {} s (put_peer i p s)" by (rule moves_put [OF len i(1)]) (use p in simp)
  ultimately show ?thesis using len i p by (auto simp: idle_step_def fun_eq_iff live_def)
qed

lemma idle_sys:
  assumes "iocp_ok X H s" "later_os (io_sys s) w" "departed w = departed (io_sys s)"
  shows "idle_step i X H s (s\<lparr>io_sys := w\<rparr>)"
  using iocp_ok_sys [OF assms(1,2)] moves_same [of "s\<lparr>io_sys := w\<rparr>" s] assms by (simp add: idle_step_def)

lemma end_name_ok:
  assumes "iocp_ok X H s"
  obtains ip port w where "end_name (io_sys s) = Some ((ip, port), w)" "idle_step i X H s (s\<lparr>io_sys := w\<rparr>)"
proof -
  obtain str port num where "os_name (io_sys s) (calls (io_sys s)) = Some (Some str, port, num)" "length str < 50"
    using assms unfolding iocp_ok_def names_ok_def by blast
  then show ?thesis using idle_sys [OF assms]
    by (intro that [of str port]) (auto simp: end_name_def next_call_def later_os_def)
qed

lemma set_names_ok:
  assumes ok: "iocp_ok X H s" and i: "i < LIB_PEER_NUM" "p_socket (io_peer s i) = INVALID_SOCKET"
  obtains t rip rport lip lport where "set_names i s = Some t" "idle_step i X H s t"
    "io_peer t i = (io_peer s i)\<lparr>remote_ip := rip, remote_port := rport, local_ip := lip, local_port := lport\<rparr>"
proof -
  have len: "length (io_peers s) = LIB_PEER_NUM" using ok by (rule iocp_ok_length)
  have bufs: "bufs_ok (io_peer s i)" using iocp_ok_bufs [OF ok i(1)] .
  obtain rip rport w where r: "end_name (io_sys s) = Some ((rip, rport), w)" "idle_step i X H s (s\<lparr>io_sys := w\<rparr>)"
    using end_name_ok [OF ok] .
  define p where "p = (io_peer s i)\<lparr>remote_ip := rip, remote_port := rport\<rparr>"
  define u where "u = put_peer i p (s\<lparr>io_sys := w\<rparr>)"
  have "idle_step i X H (s\<lparr>io_sys := w\<rparr>) u" unfolding u_def
    by (rule idle_put [OF idle_step_ok [OF r(2)] i(1)]) (use i bufs in \<open>auto simp: p_def bufs_ok_def\<close>)
  then have su: "idle_step i X H s u" using r(2) idle_step_trans by blast
  have u: "io_peer u i = p" "length (io_peers u) = LIB_PEER_NUM" using len i by (simp_all add: u_def)
  obtain lip lport v where l: "end_name (io_sys u) = Some ((lip, lport), v)" "idle_step i X H u (u\<lparr>io_sys := v\<rparr>)"
    using end_name_ok [OF idle_step_ok [OF su]] .
  define q where "q = p\<lparr>local_ip := lip, local_port := lport\<rparr>"
  have "idle_step i X H (u\<lparr>io_sys := v\<rparr>) (put_peer i q (u\<lparr>io_sys := v\<rparr>))"
    by (rule idle_put [OF idle_step_ok [OF l(2)] i(1)]) (use i bufs u in \<open>auto simp: p_def q_def bufs_ok_def\<close>)
  then have "idle_step i X H s (put_peer i q (u\<lparr>io_sys := v\<rparr>))" using su l(2) idle_step_trans by blast
  moreover have "set_names i s = Some (put_peer i q (u\<lparr>io_sys := v\<rparr>))"
    using r(1) l(1) u(1) by (simp add: set_names_def Let_def u_def p_def q_def)
  moreover have "io_peer (put_peer i q (u\<lparr>io_sys := v\<rparr>)) i = q" using u(2) i by simp
  ultimately show ?thesis using that by (simp add: p_def q_def)
qed

lemma fresh_peer_ok:
  assumes ok: "iocp_ok X H s" and i: "i < LIB_PEER_NUM" "p_socket (io_peer s i) = INVALID_SOCKET"
  shows "idle_step i X H s (fresh_peer s i)" "sb_content (write_buf (io_peer (fresh_peer s i) i)) = []"
    "sb_content (write_buf_backup (io_peer (fresh_peer s i) i)) = []" "\<not> wsa_send (io_peer (fresh_peer s i) i)"
proof -
  let ?s = "s\<lparr>io_serial := io_serial s + 1\<rparr>"
  have len: "length (io_peers s) = LIB_PEER_NUM" using ok by (rule iocp_ok_length)
  have bufs: "bufs_ok (io_peer s i)" using iocp_ok_bufs [OF ok i(1)] .
  have "idle_step i X H s ?s" using ok by (simp add: idle_step_def moves_same)
  moreover have "idle_step i X H ?s (fresh_peer s i)" unfolding fresh_peer_def
    by (rule idle_put) (use ok i bufs lib_reset in \<open>auto simp: bufs_ok_def sb_reset_def same_block_def\<close>)
  ultimately show "idle_step i X H s (fresh_peer s i)" by (rule idle_step_trans)
  show "sb_content (write_buf (io_peer (fresh_peer s i) i)) = []"
    "sb_content (write_buf_backup (io_peer (fresh_peer s i) i)) = []" "\<not> wsa_send (io_peer (fresh_peer s i) i)"
    using len i bufs lib_reset(2) by (simp_all add: fresh_peer_def bufs_ok_def)
qed

lemma idle_new_socket: "idle_step i X H s t \<Longrightarrow> new_socket s sd \<Longrightarrow> new_socket t sd"
  using later_os_known by (auto simp: idle_step_def new_socket_def moves_def)

lemma new_peer_ok:
  assumes ok: "iocp_ok {} H s" and i: "i < LIB_PEER_NUM" "p_socket (io_peer s i) = INVALID_SOCKET"
    and p: "sb_content (write_buf (io_peer s i)) = []" "sb_content (write_buf_backup (io_peer s i)) = []"
      "\<not> wsa_send (io_peer s i)"
    and sd: "new_socket s sd" "sd \<noteq> INVALID_SOCKET"
  shows "iocp_ok {} H (put_peer i ((io_peer s i)\<lparr>p_socket := sd\<rparr>) s)"
    "moves {sd} s (put_peer i ((io_peer s i)\<lparr>p_socket := sd\<rparr>) s)"
    "live (put_peer i ((io_peer s i)\<lparr>p_socket := sd\<rparr>) s) i"
    "own_reads (put_peer i ((io_peer s i)\<lparr>p_socket := sd\<rparr>) s) i = []"
proof -
  let ?p = "(io_peer s i)\<lparr>p_socket := sd\<rparr>" let ?t = "put_peer i ?p s"
  have len: "length (io_peers s) = LIB_PEER_NUM" using ok by (rule iocp_ok_length)
  have own: "own_sends ?t i = []" "own_reads ?t i = []"
    using sd(1) len i by (auto simp: own_sends_def own_reads_def own_def new_socket_def filter_empty_conv)
  show "iocp_ok {} H ?t"
    by (rule iocp_ok_put [OF ok i(1)])
      (use iocp_ok_bufs [OF ok i(1)] sd p own in \<open>auto simp: bufs_ok_def send_state_def recv_state_def\<close>)
  show "moves {sd} s ?t" by (rule moves_put [OF len i(1)]) simp
  show "live ?t i" "own_reads ?t i = []" using sd(2) len i own by (simp_all add: live_def)
qed

context io_client
begin

lemma registerSocket_ends:
  assumes ok: "iocp_ok {} H s" and sd: "new_socket s sd" "sd \<noteq> INVALID_SOCKET"
  shows "ends (\<lambda>_ t. iocp_ok {} H t \<and> moves {sd} s t) (io_registerSocket cb sd s)"
proof -
  consider "newPeer s = (- 1, s)"
    | k where "newPeer s = (of_nat k, fresh_peer s k)" "k < LIB_PEER_NUM" "p_socket (io_peer s k) = INVALID_SOCKET"
    using newPeer_from_cases [of s 0] by (auto simp: newPeer_def)
  then show ?thesis
  proof cases
    case 1
    then show ?thesis by (simp add: io_registerSocket_def lib_getPeer_def LIB_PEER_NUM_def unsigned_minus_1_eq_mask
        mask_eq_exp_minus_1)
  next
    case (2 i)
    note fresh = fresh_peer_ok [OF ok 2(2,3)]
    obtain r u where call: "io_call (fresh_peer s i) = (r, u)" by fastforce
    note c = io_call_cases [OF call]
    have step: "idle_step i {} H (fresh_peer s i) u"
      using io_call_ok [OF call idle_step_ok [OF fresh(1)]] c moves_same [OF c(1-3)]
      by (simp add: idle_step_def live_def io_peer_def fun_eq_iff)
    have su: "idle_step i {} H s u" using fresh(1) step by (rule idle_step_trans)
    have peer: "io_peer u i = io_peer (fresh_peer s i) i" using c(1) by (simp add: io_peer_def)
    have dead: "p_socket (io_peer u i) = INVALID_SOCKET" using su 2(3) by (simp add: idle_step_def)
    obtain t rip rport lip lport where t: "set_names i u = Some t" "idle_step i {} H u t"
      "io_peer t i = (io_peer u i)\<lparr>remote_ip := rip, remote_port := rport, local_ip := lip, local_port := lport\<rparr>"
      using set_names_ok [OF idle_step_ok [OF su] 2(2) dead] .
    have st: "idle_step i {} H s t" using su t(2) by (rule idle_step_trans)
    define v where "v = put_peer i ((io_peer t i)\<lparr>p_socket := sd\<rparr>) t"
    have "new_socket t sd" using st sd(1) by (rule idle_new_socket)
    then have v: "iocp_ok {} H v" "moves {sd} t v" "live v i" "own_reads v i = []"
      unfolding v_def using new_peer_ok [OF idle_step_ok [OF st] 2(2)] dead fresh sd(2) t(3) peer by simp_all
    have sv: "moves {sd} s v"
      using st v(2) by (auto simp: idle_step_def intro: moves_trans moves_mono)
    have called: "ends (\<lambda>_ x. iocp_ok {} H x \<and> serves v x)
        (case ioCon cb of None \<Rightarrow> returns () v | Some f \<Rightarrow> f i (serial (io_peer v i)) v)"
      using con [OF _ v(1,3)] v(1) by (auto split: option.split)
    have goes_on: "ends (\<lambda>_ y. iocp_ok {} H y \<and> moves {sd} s y) (postRecvRequest cb (of_nat i) ser x)"
      if x: "iocp_ok {} H x" "serves v x" for x ser
    proof -
      have "moves {sd} s x" using sv x(2) by (auto simp: serves_def intro: moves_trans moves_mono)
      moreover have "ends (\<lambda>_ y. iocp_ok {} H y \<and> moves {} x y) (postRecvRequest cb (of_nat i) ser x)"
        by (rule postRecvRequest_ends [OF x(1), of i])
          (use serves_reads [OF x(2)] v(4) 2(2) in \<open>simp_all add: key_index\<close>)
      ultimately show ?thesis by (auto elim!: ends_weaken intro: moves_trans moves_mono)
    qed
    have "ends (\<lambda>_ y. iocp_ok {} H y \<and> moves {sd} s y)
      (and_then (case ioCon cb of None \<Rightarrow> returns () v | Some f \<Rightarrow> f i (serial (io_peer v i)) v)
        (\<lambda>_ s. postRecvRequest cb (of_nat i) (serial (io_peer s i)) s))"
      by (rule ends_and_then [OF called]) (use goes_on in blast)
    then show ?thesis using 2(1,2) t(1) unfolding v_def
      by (simp add: io_registerSocket_def lib_getPeer_def key_index updateCompletionPort_def call Let_def)
  qed
qed

end

lemma socket_is_new:
  assumes ok: "iocp_ok X H s" and sd: "sd = os_socket (io_sys s) (calls (io_sys s))" "sd \<noteq> INVALID_SOCKET"
    and t: "io_peers t = io_peers s" "io_requests t = io_requests s" "later_os (io_sys s) (io_sys t)"
      "calls (io_sys s) < calls (io_sys t)"
  shows "new_socket t sd" "\<not> known_socket (io_sys s) sd"
proof -
  show unknown: "\<not> known_socket (io_sys s) sd"
    using ok sd unfolding iocp_ok_def names_ok_def known_socket_def by (metis less_irrefl)
  have "io_peer t = io_peer s" using t(1) by (simp add: fun_eq_iff io_peer_def)
  then have "live t = live s" "\<And>j. live s j \<Longrightarrow> p_socket (io_peer t j) \<noteq> sd"
    using ok unknown by (auto simp: fun_eq_iff live_def iocp_ok_def)
  moreover have "\<forall>rq \<in> set (io_requests t). rq_socket rq \<noteq> sd"
    using ok unknown t(2) by (auto simp: iocp_ok_def request_ok_def)
  moreover have "known_socket (io_sys t) sd" using sd(1) t(3,4) by (auto simp: known_socket_def later_os_def)
  ultimately show "new_socket t sd" by (simp add: new_socket_def)
qed

lemma iocp_ok_peers:
  assumes "iocp_ok X H s" "io_peers t = io_peers s" "io_requests t = io_requests s" "io_pool t = io_pool s"
    "io_operation t = io_operation s" "later_os (io_sys s) (io_sys t)"
  shows "iocp_ok X H t"
proof -
  have "t = (s\<lparr>io_sys := io_sys t\<rparr>)\<lparr>io_listen := io_listen t, io_serial := io_serial t, io_answer := io_answer t\<rparr>"
    using assms by simp
  moreover have "iocp_ok X H (s\<lparr>io_sys := io_sys t\<rparr>)" using assms by (intro iocp_ok_sys)
  moreover have "iocp_ok X H (u\<lparr>io_answer := f\<rparr>) = iocp_ok X H u" for u f
  proof -
    have "io_peer (u\<lparr>io_answer := f\<rparr>) = io_peer u" by (simp add: fun_eq_iff io_peer_def)
    moreover from this have "live (u\<lparr>io_answer := f\<rparr>) = live u" "fits_block (u\<lparr>io_answer := f\<rparr>) = fits_block u"
      by (simp_all add: fun_eq_iff live_def fits_block_def cong: transfer.case_cong)
    ultimately show ?thesis
      by (simp add: iocp_ok_def request_ok_def contexts_ok_def own_sends_def own_reads_def own_def)
  qed
  ultimately show ?thesis by (metis iocp_ok_same)
qed

text \<open>Only what has been asked of the system changes, and more of its answers have been used.\<close>

definition asked :: "iocp \<Rightarrow> iocp \<Rightarrow> bool" where
  "asked s t \<longleftrightarrow> io_peers t = io_peers s \<and> io_requests t = io_requests s \<and> io_pool t = io_pool s \<and>
     io_operation t = io_operation s \<and> later_os (io_sys s) (io_sys t) \<and> departed (io_sys t) = departed (io_sys s)"

lemma asked_refl [simp]: "asked s s"
  by (simp add: asked_def)

lemma asked_ok: "asked s t \<Longrightarrow> iocp_ok X H s \<Longrightarrow> iocp_ok X H t"
  using iocp_ok_peers by (simp add: asked_def)

lemma asked_moves: "asked s t \<Longrightarrow> moves K s t"
  using moves_same by (simp add: asked_def)

lemma asked_trans: "asked s t \<Longrightarrow> asked t u \<Longrightarrow> asked s u"
  using later_os_trans by (auto simp: asked_def)

lemma io_call_asked:
  assumes "io_call s = (r, t)"
  shows "asked s t" "calls (io_sys s) < calls (io_sys t)"
  using assms by (auto simp: io_call_def system_call_def next_call_def Let_def asked_def later_os_def)

lemma registered_advances:
  assumes "asked s t" "\<not> known_socket (io_sys s) sd" "moves {sd} t u"
  shows "advances s u"
  unfolding advances_def
  by (rule moves_trans [OF asked_moves [OF assms(1)] moves_mono [OF assms(3)]]) (use assms(2) in simp)

lemma advances_asked: "asked s t \<Longrightarrow> advances s t"
  by (simp add: asked_moves moves_advances)

text \<open>A socket the system has just made, or none.\<close>

lemma AcceptSocket_ends:
  assumes ok: "iocp_ok X H s"
  shows "ends (\<lambda>r t. asked s t \<and> (\<forall>sd. r = Some sd \<longrightarrow>
    sd \<noteq> INVALID_SOCKET \<and> new_socket t sd \<and> \<not> known_socket (io_sys s) sd)) (AcceptSocket s)"
proof -
  define sd where "sd = os_socket (io_sys s) (calls (io_sys s))"
  define u where "u = s\<lparr>io_sys := (io_sys s)\<lparr>calls := Suc (calls (io_sys s)), opened := sd # opened (io_sys s)\<rparr>\<rparr>"
  obtain r t where t: "io_call u = (r, t)" by fastforce
  have "asked s u" "calls (io_sys s) < calls (io_sys u)" by (simp_all add: u_def asked_def later_os_def)
  with io_call_asked [OF t] have a: "asked s t" "calls (io_sys s) < calls (io_sys t)" using asked_trans by auto
  have "new_socket t sd \<and> \<not> known_socket (io_sys s) sd" if "sd \<noteq> INVALID_SOCKET"
    using socket_is_new [OF ok sd_def that, of t] a by (simp add: asked_def)
  moreover have "asked s (s\<lparr>io_sys := (io_sys s)\<lparr>calls := Suc (calls (io_sys s))\<rparr>\<rparr>)"
    by (simp add: asked_def later_os_def)
  ultimately show ?thesis using a(1) t
    by (simp add: AcceptSocket_def next_call_def Let_def sd_def [symmetric] u_def [symmetric])
qed

lemma CreateSocket_ends:
  assumes ok: "iocp_ok X H s"
  shows "ends (\<lambda>sd t. asked s t \<and> sd \<noteq> INVALID_SOCKET \<and> new_socket t sd \<and> \<not> known_socket (io_sys s) sd) (io_CreateSocket s)"
proof -
  define sd where "sd = os_socket (io_sys s) (calls (io_sys s))"
  define u where "u = s\<lparr>io_sys := (io_sys s)\<lparr>calls := Suc (calls (io_sys s)), opened := sd # opened (io_sys s)\<rparr>\<rparr>"
  have a: "asked s u" "calls (io_sys s) < calls (io_sys u)" by (simp_all add: u_def asked_def later_os_def)
  have "new_socket u sd \<and> \<not> known_socket (io_sys s) sd" if "sd \<noteq> INVALID_SOCKET"
    using socket_is_new [OF ok sd_def that, of u] a by (simp add: asked_def)
  then show ?thesis using a(1)
    by (simp add: io_CreateSocket_def next_call_def Let_def sd_def [symmetric] u_def [symmetric])
qed

lemma asked_new_socket:
  assumes "asked s t" "new_socket s sd"
  shows "new_socket t sd"
proof -
  have "io_peer t = io_peer s" using assms(1) by (simp add: asked_def fun_eq_iff io_peer_def)
  then show ?thesis using assms later_os_known by (auto simp: new_socket_def asked_def live_def)
qed

lemma ConnectSocket_ends:
  assumes ok: "iocp_ok X H s"
  shows "ends (\<lambda>sd t. asked s t \<and> (sd \<noteq> INVALID_SOCKET \<longrightarrow> new_socket t sd \<and> \<not> known_socket (io_sys s) sd))
    (ConnectSocket s)"
  unfolding ConnectSocket_def
proof (rule ends_and_then [OF CreateSocket_ends [OF ok]])
  fix sd t assume t: "asked s t \<and> sd \<noteq> INVALID_SOCKET \<and> new_socket t sd \<and> \<not> known_socket (io_sys s) sd"
  obtain r u where u: "io_call t = (r, u)" by fastforce
  obtain q v where v: "io_call u = (q, v)" by fastforce
  have tu: "asked t u" "asked u v" using io_call_asked u v by auto
  then have tv: "asked t v" using asked_trans by blast
  have "asked u (u\<lparr>io_sys := (io_sys u)\<lparr>closed := sd # closed (io_sys u)\<rparr>\<rparr>)" by (simp add: asked_def later_os_def)
  then have closed: "asked s (u\<lparr>io_sys := (io_sys u)\<lparr>closed := sd # closed (io_sys u)\<rparr>\<rparr>)"
    using t tu(1) asked_trans by blast
  have "asked s v" "new_socket v sd" using t tv asked_trans asked_new_socket by blast+
  then show "ends (\<lambda>sd t. asked s t \<and> (sd \<noteq> INVALID_SOCKET \<longrightarrow> new_socket t sd \<and> \<not> known_socket (io_sys s) sd))
      (let (r, s) = io_call t in
       if r \<noteq> Done
       then returns INVALID_SOCKET (s\<lparr>io_sys := (io_sys s)\<lparr>closed := sd # closed (io_sys s)\<rparr>\<rparr>)
       else let (nonblocking, s) = io_call s in if nonblocking \<noteq> Done then throws s else returns sd s)"
    using t closed by (simp add: u v)
qed

lemma ListenSocket_ends:
  assumes ok: "iocp_ok X H s"
  shows "ends (\<lambda>_ t. asked s t) (ListenSocket s)"
  unfolding ListenSocket_def
proof (rule ends_and_then [OF CreateSocket_ends [OF ok]])
  fix sd t assume t: "asked s t \<and> sd \<noteq> INVALID_SOCKET \<and> new_socket t sd \<and> \<not> known_socket (io_sys s) sd"
  let ?t = "t\<lparr>io_listen := sd\<rparr>"
  obtain r u where u: "io_call ?t = (r, u)" by fastforce
  obtain q v where v: "io_call u = (q, v)" by fastforce
  obtain p x where x: "io_call v = (p, x)" by fastforce
  have "asked t ?t" by (simp add: asked_def)
  then have "asked s x" using t io_call_asked(1) u v x asked_trans by metis
  then show "ends (\<lambda>_ t. asked s t)
      (let s = t\<lparr>io_listen := sd\<rparr>; (bound, s) = io_call s in
       if bound \<noteq> Done then throws s
       else let (_, s) = io_call s; (listening, s) = io_call s in
         if listening \<noteq> Done then throws s else returns () s)"
    by (simp add: u v x)
qed

context io_client
begin

lemma onAcceptTick_ends:
  assumes ok: "iocp_ok {} H s"
  shows "ends (\<lambda>_ t. iocp_ok {} H t \<and> advances s t) (onAcceptTick cb s)"
proof -
  obtain num rs ws where answer: "os_ready (io_sys s) (calls (io_sys s)) = (num, rs, ws)" by (metis surj_pair)
  define u where "u = s\<lparr>io_sys := (io_sys s)\<lparr>calls := Suc (calls (io_sys s))\<rparr>\<rparr>"
  have su: "asked s u" by (simp add: u_def asked_def later_os_def)
  have u: "iocp_ok {} H u" using asked_ok [OF su ok] .
  have stays: "iocp_ok {} H t \<and> advances s t" if "asked s t" for t
    using asked_ok [OF that ok] advances_asked [OF that] by simp
  have "ends (\<lambda>_ t. iocp_ok {} H t \<and> advances s t)
      (case r of None \<Rightarrow> returns () t | Some sd \<Rightarrow> io_registerSocket cb sd t)"
    if t: "asked u t \<and> (\<forall>sd. r = Some sd \<longrightarrow>
      sd \<noteq> INVALID_SOCKET \<and> new_socket t sd \<and> \<not> known_socket (io_sys u) sd)" for r t
  proof -
    have st: "asked s t" using su t asked_trans by blast
    show ?thesis
    proof (cases r)
      case None
      then show ?thesis using stays [OF st] by simp
    next
      case (Some sd)
      with t have sd: "sd \<noteq> INVALID_SOCKET" "new_socket t sd" "\<not> known_socket (io_sys u) sd" by auto
      then have "\<not> known_socket (io_sys s) sd" using su later_os_known by (auto simp: asked_def)
      then show ?thesis
        using ends_weaken [OF registerSocket_ends [OF asked_ok [OF st ok] sd(2,1)]] registered_advances [OF st] Some
        by simp
    qed
  qed
  then have "ends (\<lambda>_ t. iocp_ok {} H t \<and> advances s t)
      (and_then (AcceptSocket u) (\<lambda>sd s. case sd of None \<Rightarrow> returns () s | Some sd \<Rightarrow> io_registerSocket cb sd s))"
    by (intro ends_and_then [OF AcceptSocket_ends [OF u]])
  then show ?thesis using stays [OF su] answer
    by (simp add: onAcceptTick_def next_call_def u_def [symmetric])
qed

lemma connectPeer_ends:
  assumes ok: "iocp_ok {} H s"
  shows "ends (\<lambda>_ t. iocp_ok {} H t \<and> advances s t) (io_connectPeer cb s)"
  unfolding io_connectPeer_def
proof (rule ends_and_then [OF ConnectSocket_ends [OF ok]])
  fix sd t assume t: "asked s t \<and> (sd \<noteq> INVALID_SOCKET \<longrightarrow> new_socket t sd \<and> \<not> known_socket (io_sys s) sd)"
  then have t_ok: "iocp_ok {} H t" using asked_ok ok by blast
  have "ends (\<lambda>_ t. iocp_ok {} H t \<and> advances s t) (and_then (io_registerSocket cb sd t) (\<lambda>_ s. returns True s))"
    if "sd \<noteq> INVALID_SOCKET"
    by (rule ends_and_then [OF registerSocket_ends [OF t_ok _ that]]) (use t that registered_advances in auto)
  then show "ends (\<lambda>_ t. iocp_ok {} H t \<and> advances s t)
      (if sd = INVALID_SOCKET then returns False t
       else and_then (io_registerSocket cb sd t) (\<lambda>_ s. returns True s))"
    using t t_ok advances_asked by simp
qed

end

end
