(* ===== verification/IocpServer.thy ===== *)
theory IocpServer
  imports IocpLoop
begin

text \<open>
  The program \<open>net_libs/libnet/main.cpp\<close> on the service with a completion port, and what holds in
  all of its runs: the two buffers of a connection lose no byte and keep the order, and no buffer
  is touched outside its block or while the system uses it.
\<close>

section \<open>The program\<close>

text \<open>
  Its callbacks print; \<open>onRead\<close> takes a whole message from the buffer.  The length in the header is
  signed; a negative one that passes the comparison makes the constructor of the body throw.
\<close>

definition lib_onCon :: "nat \<Rightarrow> 64 word \<Rightarrow> iocp \<Rightarrow> (unit, iocp) attempt" where
  "lib_onCon index ser s = returns () s"

definition lib_onDisCon :: "nat \<Rightarrow> 64 word \<Rightarrow> iocp \<Rightarrow> (unit, iocp) attempt" where
  "lib_onDisCon index ser s = returns () s"

definition lib_message :: "32 word \<Rightarrow> sockbuf \<Rightarrow> (int, sockbuf) attempt" where
  "lib_message len buf = do {
     begin \<leftarrow> sb_buf buf;
     header \<leftarrow> fetch begin (unat (m_read_index buf)) 4;
     let msg_len = dec32 header; total_msg_len = 4 + msg_len in
     if len < total_msg_len then returns 0 buf
     else do {
       str_msg \<leftarrow> fetch begin (unat (m_read_index buf)) (unat total_msg_len);
       if sint msg_len < 0 then throws buf
       else do {
         str_msg_body \<leftarrow> fetch begin (unat (m_read_index buf) + 4) (unat msg_len);
         and_then (readMove buf total_msg_len) (\<lambda>_ buf. returns 0 buf)
       }
     }
   }"

definition lib_onRead :: "nat \<Rightarrow> 64 word \<Rightarrow> iocp \<Rightarrow> (int, iocp) attempt" where
  "lib_onRead index ser s =
     on_rbuf index (\<lambda>buf. and_then (readableBytes buf) (\<lambda>len buf.
       if len \<le> 4 then returns 0 buf else lib_message len buf)) s"

definition lib_event :: io_callbacks where
  "lib_event = \<lparr>ioCon = Some lib_onCon, ioDis = Some lib_onDisCon, ioRead = Some lib_onRead\<rparr>"

section \<open>Its contract\<close>

lemma lib_message_ends:
  assumes ok: "lib_ok b" and len: "unat len = length (sb_content b)" "\<not> len \<le> 4"
  shows "ends (\<lambda>_ b'. lib_ok b' \<and> same_block b b' \<and> m_write_index b' = m_write_index b) (lib_message len b)"
proof -
  obtain bs r w where b: "sb_buf b = Some bs" "unat (m_read_index b) = r" "unat (m_write_index b) = w"
    "unat (m_size b) = length bs" "r \<le> w" "w \<le> length bs" "length bs < 2 ^ 31"
    "sb_content b = take (w - r) (drop r bs)" "length (sb_content b) = w - r"
    using ok by (rule lib_okE)
  have four: "4 < w - r" using len b(9) by (simp add: word_le_nat_alt)
  define header where "header = take 4 (drop r bs)"
  define total_len where "total_len = 4 + dec32 header"
  have hdr: "fetch bs r 4 = Some header" using four b by (simp add: fetch_def header_def)
  show ?thesis
  proof (cases "len < total_len")
    case True
    then show ?thesis using b ok hdr by (simp add: lib_message_def Let_def total_len_def)
  next
    case False
    then have tot: "unat total_len \<le> w - r" using len(1) b(9) by (simp add: word_less_nat_alt)
    then have msg: "fetch bs r (unat total_len) = Some (take (unat total_len) (drop r bs))"
      using b by (simp add: fetch_def)
    show ?thesis
    proof (cases "sint (dec32 header) < 0")
      case True
      then show ?thesis using False b hdr msg by (simp add: lib_message_def Let_def total_len_def)
    next
      case nonneg: False
      then have "unat (dec32 header) < 2 ^ 31" by (rule unat_nonneg)
      then have sum: "unat total_len = 4 + unat (dec32 header)"
        unfolding total_len_def by (subst unat_add_lem [THEN iffD1]) simp_all
      have body: "fetch bs (r + 4) (unat (dec32 header)) = Some (take (unat (dec32 header)) (drop (r + 4) bs))"
        using tot sum b by (simp add: fetch_def)
      obtain b' where "readMove b total_len = returns () b'" "lib_ok b'"
        "b' = b\<lparr>m_read_index := m_read_index b + total_len\<rparr>"
        using lib_readMove [OF ok, of total_len] tot b(9) by metis
      then show ?thesis using False nonneg b hdr msg body
        by (simp add: lib_message_def Let_def total_len_def same_block_def)
    qed
  qed
qed

interpretation lib: io_client lib_event
proof unfold_locales
  fix f X H s i ser
  assume "ioCon lib_event = Some f" "iocp_ok X H s"
  then show "ends (\<lambda>_ t. iocp_ok X H t \<and> serves s t) (f i ser s)"
    by (auto simp: lib_event_def lib_onCon_def)
next
  fix f X H s i ser
  assume "ioDis lib_event = Some f" "iocp_ok X H s"
  then show "ends (\<lambda>_ t. iocp_ok X H t \<and> serves s t) (f i ser s)"
    by (auto simp: lib_event_def lib_onDisCon_def)
next
  fix g X H s i ser
  assume g: "ioRead lib_event = Some g" and ok: "iocp_ok X H s" and li: "live s i" and none: "own_reads s i = []"
  have i: "i < LIB_PEER_NUM" and len: "length (io_peers s) = LIB_PEER_NUM"
    using li iocp_ok_length [OF ok] by (simp_all add: live_def)
  define b where "b = read_buf (io_peer s i)"
  have lib: "lib_ok b" using iocp_ok_bufs [OF ok i] by (simp add: bufs_ok_def b_def)
  obtain n where n: "readableBytes b = returns n b" "unat n = length (sb_content b)" using lib_readable [OF lib] .
  have "ends (\<lambda>_ b'. lib_ok b' \<and> same_block b b') (and_then (readableBytes b) (\<lambda>len buf.
      if len \<le> 4 then returns 0 buf else lib_message len buf))"
    using n lib by (auto intro: ends_weaken [OF lib_message_ends])
  note read = on_rbuf_ends [of _ "\<lambda>buf. and_then (readableBytes buf) (\<lambda>len buf.
      if len \<le> 4 then returns 0 buf else lib_message len buf)", OF this [unfolded b_def]]
  have "iocp_ok X H (put_peer i ((io_peer s i)\<lparr>read_buf := b'\<rparr>) s) \<and>
      serves s (put_peer i ((io_peer s i)\<lparr>read_buf := b'\<rparr>) s)"
    if b': "lib_ok b'" "same_block (read_buf (io_peer s i)) b'" for b'
  proof -
    have "i \<notin> X \<Longrightarrow> send_state (own_sends s i) (io_peer s i)" using ok li by (simp add: iocp_ok_def)
    then have "iocp_ok X H (put_peer i ((io_peer s i)\<lparr>read_buf := b'\<rparr>) s)"
      by (intro iocp_ok_put [OF ok i])
        (use iocp_ok_bufs [OF ok i] b' none len i in \<open>auto simp: bufs_ok_def recv_state_def send_state_def\<close>)
    moreover have "serves s (put_peer i ((io_peer s i)\<lparr>read_buf := b'\<rparr>) s)" by (rule serves_put [OF len i]) simp
    ultimately show ?thesis by simp
  qed
  then have "ends (\<lambda>_ t. iocp_ok X H t \<and> serves s t) (lib_onRead i ser s)"
    unfolding lib_onRead_def by (intro ends_weaken [OF read]) blast
  then show "ends (\<lambda>_ t. iocp_ok X H t \<and> serves s t) (g i ser s)"
    using g by (simp add: lib_event_def)
qed

section \<open>Runs\<close>

text \<open>
  What happens to a service whose client calls it from the thread of the loop, in any order: the
  calls of its client, the acceptance of a connection, and completions that come in time; a call
  that throws ends the run.  That they come in time is an assumption on the run and nothing that
  Windows promises or the program checks: without it the second slot of the same number loses
  the bytes of the first, or its connection.  The thread of the console, which \<open>main.cpp\<close> starts
  and which calls \<open>send\<close> without a lock, is no part of such a run.
\<close>

inductive timely_run :: "io_callbacks \<Rightarrow> iocp \<Rightarrow> iocp \<Rightarrow> bool" for cb :: io_callbacks and s :: iocp where
  stay: "timely_run cb s s"
| listens: "timely_run cb s t \<Longrightarrow> io_listen_on t = Some (Inr (), u) \<Longrightarrow> timely_run cb s u"
| connects: "timely_run cb s t \<Longrightarrow> io_connectPeer cb t = Some (Inr ok, u) \<Longrightarrow> timely_run cb s u"
| accepts: "timely_run cb s t \<Longrightarrow> onAcceptTick cb t = Some (Inr (), u) \<Longrightarrow> timely_run cb s u"
| takes: "timely_run cb s t \<Longrightarrow> timely t \<Longrightarrow> onEventTick cb t = Some (Inr go_on, u) \<Longrightarrow> timely_run cb s u"
| closes: "timely_run cb s t \<Longrightarrow> io_closePeer cb index ser t = Some (Inr (), u) \<Longrightarrow> timely_run cb s u"
| sends: "timely_run cb s t \<Longrightarrow> unat len \<le> length buf \<Longrightarrow> unat len < 2 ^ 31 \<Longrightarrow>
    io_send index ser buf len t = Some (Inr (), u) \<Longrightarrow> timely_run cb s u"

text \<open>All completions of \<open>n\<close> rounds of the loop come in time.\<close>

fun on_time :: "io_callbacks \<Rightarrow> nat \<Rightarrow> iocp \<Rightarrow> bool" where
  "on_time cb 0 s \<longleftrightarrow> True"
| "on_time cb (Suc n) s \<longleftrightarrow>
     (case (if io_listen s \<noteq> INVALID_SOCKET then onAcceptTick cb s else returns () s) of
        Some (Inr _, s) \<Rightarrow> timely s \<and>
          (case onEventTick cb s of Some (Inr True, s) \<Rightarrow> on_time cb n s | _ \<Rightarrow> True)
      | _ \<Rightarrow> True)"

lemma ends_result: "ends Q m \<Longrightarrow> m = Some (Inr x, s) \<Longrightarrow> Q x s"
  by (simp add: ends_def)

lemma ends_bound:
  assumes "ends Q m" "\<And>x s. m = Some (Inr x, s) \<Longrightarrow> Q x s \<Longrightarrow> ends R (k x s)"
  shows "ends R (and_then m k)"
proof -
  have "ends (\<lambda>x s. Q x s \<and> m = Some (Inr x, s)) m" using assms(1) by (auto simp: ends_def)
  then show ?thesis by (rule ends_and_then) (use assms(2) in blast)
qed

lemma ends_defined: "ends Q m \<Longrightarrow> m \<noteq> None"
  by (auto simp: ends_def)

lemma iocp_ok_live: "iocp_ok X H s \<Longrightarrow> live s i \<Longrightarrow> known_socket (io_sys s) (p_socket (io_peer s i))"
  by (simp add: iocp_ok_def)

context io_client
begin

lemma step_result:
  assumes "ends (\<lambda>_ t. iocp_ok {} H t \<and> advances s t) m" "m = Some (Inr x, t)"
  shows "iocp_ok {} H t \<and> advances s t"
  using ends_result [OF assms] .

lemma run_keeps:
  assumes "timely_run cb s t" "iocp_ok {} H s"
  shows "iocp_ok {} H t \<and> advances s t"
  using assms
proof (induction rule: timely_run.induct)
  case (listens t u)
  then have t: "iocp_ok {} H t" "advances s t" by simp_all
  have "asked t u" using ends_result [OF ListenSocket_ends [OF t(1)]] listens(2) by (simp add: io_listen_on_def)
  with t show ?case
    using asked_ok advances_asked advances_trans iocp_ok_live [OF listens.prems] by blast
next
  case (connects t ok u)
  then have t: "iocp_ok {} H t" "advances s t" by simp_all
  from step_result [OF connectPeer_ends [OF t(1)] connects(2)] t show ?case
    using advances_trans iocp_ok_live [OF connects.prems] by blast
next
  case (accepts t u)
  then have t: "iocp_ok {} H t" "advances s t" by simp_all
  from step_result [OF onAcceptTick_ends [OF t(1)] accepts(2)] t show ?case
    using advances_trans iocp_ok_live [OF accepts.prems] by blast
next
  case (takes t go_on u)
  then have t: "iocp_ok {} H t" "advances s t" by simp_all
  have "iocp_ok {} H u \<and> moves {} t u" using ends_result [OF onEventTick_ends [OF t(1) takes(2)] takes(3)] .
  with t show ?case using moves_advances advances_trans iocp_ok_live [OF takes.prems] by blast
next
  case (closes t index ser u)
  then have t: "iocp_ok {} H t" "advances s t" by simp_all
  have "iocp_ok {} H u \<and> serves t u" using ends_result [OF closePeer_ends [OF t(1)] closes(2)] .
  with t show ?case
    using moves_advances advances_trans iocp_ok_live [OF closes.prems] unfolding serves_def by blast
next
  case (sends t len buf index ser u)
  then have t: "iocp_ok {} H t" "advances s t" by simp_all
  have "iocp_ok {} H u \<and> serves t u"
    using ends_result [OF io_send_ends [OF t(1) sends(2,3)] sends(4)] by simp
  with t show ?case
    using moves_advances advances_trans iocp_ok_live [OF sends.prems] unfolding serves_def by blast
qed simp

lemma eventLoop_ends:
  assumes "iocp_ok {} H s" "on_time cb n s"
  shows "ends (\<lambda>_ t. iocp_ok {} H t \<and> advances s t) (io_eventLoop cb n s)"
  using assms
proof (induction n arbitrary: s)
  case (Suc n)
  let ?accept = "if io_listen s \<noteq> INVALID_SOCKET then onAcceptTick cb s else returns () s"
  have accept: "ends (\<lambda>_ t. iocp_ok {} H t \<and> advances s t) ?accept"
    using onAcceptTick_ends [OF Suc.prems(1)] Suc.prems(1) by simp
  show ?case unfolding io_eventLoop.simps
  proof (rule ends_bound [OF accept], elim conjE)
    fix x t assume t: "?accept = Some (Inr x, t)" "iocp_ok {} H t" "advances s t"
    with Suc.prems(2) have time: "timely t" "\<And>u. onEventTick cb t = Some (Inr True, u) \<Longrightarrow> on_time cb n u"
      by auto
    show "ends (\<lambda>_ t. iocp_ok {} H t \<and> advances s t)
        (and_then (onEventTick cb t) (\<lambda>go_on s. if go_on then io_eventLoop cb n s else returns () s))"
    proof (rule ends_bound [OF onEventTick_ends [OF t(2) time(1)]], elim conjE)
      fix go_on u assume u: "onEventTick cb t = Some (Inr go_on, u)" "iocp_ok {} H u" "moves {} t u"
      then have su: "advances s u"
        using t(3) moves_advances advances_trans iocp_ok_live [OF Suc.prems(1)] by blast
      have "ends (\<lambda>_ v. iocp_ok {} H v \<and> advances s v) (io_eventLoop cb n u)" if go_on
      proof (rule ends_weaken [OF Suc.IH [OF u(2)]])
        show "on_time cb n u" using time(2) u(1) that by simp
        show "iocp_ok {} H v \<and> advances s v" if "iocp_ok {} H v \<and> advances u v" for v
          using that advances_trans [OF su] iocp_ok_live [OF Suc.prems(1)] by blast
      qed
      then show "ends (\<lambda>_ v. iocp_ok {} H v \<and> advances s v) (if go_on then io_eventLoop cb n u else returns () u)"
        using u(2) su by simp
    qed
  qed
qed simp

end

section \<open>The beginning\<close>

text \<open>The memory of the peers, whose buffers take their blocks in a process of 32 bits.\<close>

definition small_memory :: "(nat \<Rightarrow> peer) \<Rightarrow> bool" where
  "small_memory memory \<longleftrightarrow> (\<forall>i. small_blocks (read_buf (memory i)) \<and> small_blocks (write_buf (memory i)) \<and>
     small_blocks (write_buf_backup (memory i)))"

lemma lib_buf_ok: "small_blocks b \<Longrightarrow> lib_buf b = Some b' \<Longrightarrow> lib_ok b'"
  using lib_SockBuf_new_ends [of b 100]
  by (auto simp: lib_buf_def ends_def split: option.splits sum.splits prod.splits)

lemma lib_peer_new_ok:
  "small_blocks (read_buf m) \<Longrightarrow> small_blocks (write_buf m) \<Longrightarrow> small_blocks (write_buf_backup m) \<Longrightarrow>
    lib_peer_new m = Some p \<Longrightarrow> bufs_ok p \<and> p_socket p = INVALID_SOCKET"
  by (auto simp: lib_peer_new_def bufs_ok_def lib_buf_ok split: Option.bind_splits)

lemma those_nth: "those xs = Some ys \<Longrightarrow> length ys = length xs \<and> (\<forall>i < length xs. xs ! i = Some (ys ! i))"
proof (induction xs arbitrary: ys)
  case (Cons x xs)
  then show ?case by (auto simp: nth_Cons split: option.splits nat.splits)
qed simp

lemma lib_PeerManager_new_ok:
  assumes "lib_PeerManager_new memory = Some ps" "small_memory memory"
  shows "length ps = LIB_PEER_NUM" "i < LIB_PEER_NUM \<Longrightarrow> bufs_ok (ps ! i) \<and> p_socket (ps ! i) = INVALID_SOCKET"
proof -
  have ps: "length ps = LIB_PEER_NUM" "\<And>i. i < LIB_PEER_NUM \<Longrightarrow> lib_peer_new (memory i) = Some (ps ! i)"
    using those_nth [of "map (\<lambda>i. lib_peer_new (memory i)) [0..<LIB_PEER_NUM]" ps] assms(1)
    by (simp_all add: lib_PeerManager_new_def)
  then show "length ps = LIB_PEER_NUM" by simp
  show "bufs_ok (ps ! i) \<and> p_socket (ps ! i) = INVALID_SOCKET" if "i < LIB_PEER_NUM"
    using assms(2) ps(2) [OF that] lib_peer_new_ok [of "memory i"] by (simp add: small_memory_def)
qed

lemma IOCP_new_ok:
  assumes names: "names_ok (io_sys w)" and small: "small_memory memory" and new: "IOCP_new memory w = Some (Inr (), s)"
  shows "iocp_ok {} [] s"
proof -
  obtain ps where ps: "lib_PeerManager_new memory = Some ps"
    using new by (auto simp: IOCP_new_def throws_def split: option.splits)
  define a where "a = w\<lparr>io_peers := ps, io_serial := 0, io_listen := INVALID_SOCKET, io_pool := FreeList_new 0, io_requests := []\<rparr>"
  have dead: "\<not> live a i" for i
    using lib_PeerManager_new_ok(2) [OF ps small, of i] by (auto simp: live_def io_peer_def a_def)
  have "iocp_ok {} [] a"
    using lib_PeerManager_new_ok [OF ps small] dead names pool_ok_new [of 0]
    by (auto simp: iocp_ok_def contexts_ok_def io_peer_def a_def)
  moreover have "asked a s"
  proof -
    obtain r b where b: "io_call a = (r, b)" by fastforce
    obtain q c where c: "io_call b = (q, c)" by fastforce
    have "s = c" using new ps b c by (simp add: IOCP_new_def a_def [symmetric] returns_def throws_def split: if_splits)
    then show ?thesis using io_call_asked(1) [OF b] io_call_asked(1) [OF c] asked_trans by blast
  qed
  ultimately show ?thesis using asked_ok by blast
qed

end
