(* ===== verification/IocpProperties.thy ===== *)
theory IocpProperties
  imports IocpServer ServiceProperties
begin

text \<open>
  The properties of the service on a completion port and of its program, each with a run in which
  it is applied: the program connects, sends, and takes the two completions that follow.
\<close>

section \<open>A run\<close>


definition port_os :: os where
  "port_os = (example_os [])\<lparr>os_name := (\<lambda>_. Some (Some [49], 80, 1))\<rparr>"

definition port_answers :: "nat \<Rightarrow> completion" where
  "port_answers n = Success 1 [] 3"

definition blank_port :: iocp where
  "blank_port = \<lparr>io_peers = [], io_serial = 0, io_listen = 0, io_pool = FreeList_new 0,
     io_operation = (\<lambda>_. ClientIoUnknown), io_requests = [], io_answer = port_answers, io_sys = port_os\<rparr>"

definition small_malloc :: "nat \<Rightarrow> 32 word \<Rightarrow> (nat \<Rightarrow> byte) option" where
  "small_malloc k n = (if unat n < 2 ^ 31 then Some (\<lambda>_. 0) else None)"

definition port_buf :: "nat \<Rightarrow> byte list \<Rightarrow> sockbuf" where
  "port_buf n xs = \<lparr>sb_buf = Some (xs @ replicate (n - length xs) 0), m_size = of_nat n, m_read_index = 0,
     m_write_index = of_nat (length xs), sb_malloc = small_malloc, sb_mallocs = 1\<rparr>"

definition port_block :: sockbuf where
  "port_block = blank_buf\<lparr>sb_malloc := small_malloc\<rparr>"

definition port_memory :: peer where
  "port_memory = blank_peer\<lparr>read_buf := port_block, write_buf := port_block, write_buf_backup := port_block\<rparr>"

definition port_peer :: peer where
  "port_peer = blank_peer\<lparr>p_socket := INVALID_SOCKET, read_buf := port_buf 100 [],
     write_buf := port_buf 100 [], write_buf_backup := port_buf 100 []\<rparr>"

text \<open>
  The states of the run: the connection in the first slot, and the system after \<open>n\<close> calls, having
  sent \<open>xs\<close> on its socket.
\<close>

definition port_w :: "nat \<Rightarrow> byte list \<Rightarrow> os" where
  "port_w n xs = port_os\<lparr>calls := n, opened := [7], departed := (\<lambda>sd. if sd = 7 then xs else [])\<rparr>"

definition port_state :: "peer \<Rightarrow> 64 word \<Rightarrow> freelist \<Rightarrow> (nat \<Rightarrow> IO_OPERATION) \<Rightarrow> io_request list \<Rightarrow> os \<Rightarrow> iocp" where
  "port_state p ser f op rs w = \<lparr>io_peers = p # replicate 5119 port_peer, io_serial = ser,
     io_listen = INVALID_SOCKET, io_pool = f, io_operation = op, io_requests = rs, io_answer = port_answers,
     io_sys = w\<rparr>"

definition port_conn :: "bool \<Rightarrow> sockbuf \<Rightarrow> sockbuf \<Rightarrow> sockbuf \<Rightarrow> peer" where
  "port_conn busy r w k = \<lparr>p_socket = 7, local_ip = [49], local_port = 80, remote_ip = [49],
     remote_port = 80, serial = 0, wsa_send = busy, read_buf = r, write_buf = w, write_buf_backup = k\<rparr>"

definition port0 :: iocp where
  "port0 = port_state port_peer 0 (FreeList_new 0) (\<lambda>_. ClientIoUnknown) [] (port_os\<lparr>calls := 2\<rparr>)"

lemma port_state_simps [simp]:
  "io_peer (port_state p ser f op rs w) 0 = p" "io_peers (port_state p ser f op rs w) = p # replicate 5119 port_peer"
  "put_peer 0 q (port_state p ser f op rs w) = port_state q ser f op rs w"
  "io_serial (port_state p ser f op rs w) = ser" "io_listen (port_state p ser f op rs w) = INVALID_SOCKET"
  "io_pool (port_state p ser f op rs w) = f" "io_operation (port_state p ser f op rs w) = op"
  "io_requests (port_state p ser f op rs w) = rs" "io_answer (port_state p ser f op rs w) = port_answers"
  "io_sys (port_state p ser f op rs w) = w"
  "(port_state p ser f op rs w)\<lparr>io_serial := ser'\<rparr> = port_state p ser' f op rs w"
  "(port_state p ser f op rs w)\<lparr>io_pool := f'\<rparr> = port_state p ser f' op rs w"
  "(port_state p ser f op rs w)\<lparr>io_operation := op'\<rparr> = port_state p ser f op' rs w"
  "(port_state p ser f op rs w)\<lparr>io_requests := rs'\<rparr> = port_state p ser f op rs' w"
  "(port_state p ser f op rs w)\<lparr>io_sys := w'\<rparr> = port_state p ser f op rs w'"
  by (simp_all add: port_state_def put_peer_def io_peer_def)

lemma port_conn_simps [simp]:
  "p_socket (port_conn b r w k) = 7" "serial (port_conn b r w k) = 0" "wsa_send (port_conn b r w k) = b"
  "read_buf (port_conn b r w k) = r" "write_buf (port_conn b r w k) = w" "write_buf_backup (port_conn b r w k) = k"
  "(port_conn b r w k)\<lparr>wsa_send := b'\<rparr> = port_conn b' r w k"
  "(port_conn b r w k)\<lparr>read_buf := r'\<rparr> = port_conn b r' w k"
  "(port_conn b r w k)\<lparr>write_buf := w'\<rparr> = port_conn b r w' k"
  "(port_conn b r w k)\<lparr>write_buf_backup := k'\<rparr> = port_conn b r w k'"
  "(port_conn b r w k)\<lparr>remote_ip := [49], remote_port := 80, local_ip := [49], local_port := 80, p_socket := 7\<rparr> =
    port_conn b r w k"
  by (simp_all add: port_conn_def)

lemma port_w_simps [simp]:
  "calls (port_w n xs) = n" "os_call (port_w n xs) k = Done" "os_name (port_w n xs) k = Some (Some [49], 80, 1)"
  "departed (port_w n xs) 7 = xs" "next_call (port_w n xs) = (n, port_w (Suc n) xs)"
  "(port_w n xs)\<lparr>departed := (departed (port_w n xs))(7 := ys)\<rparr> = port_w n ys"
  by (simp_all add: port_w_def port_os_def example_os_def next_call_def fun_eq_iff)

lemma port_call [simp]: "io_call (port_state p ser f op rs (port_w n xs)) = (Done, port_state p ser f op rs (port_w (Suc n) xs))"
  by (simp add: io_call_def system_call_def)

lemma port_index [simp]: "lib_getPeer 0 s = returns 0 s"
  by (simp add: lib_getPeer_def LIB_PEER_NUM_def)

lemma port_names: "names_ok port_os"
  by (simp add: names_ok_def port_os_def example_os_def)

lemma new_bytes_zero: "new_bytes (\<lambda>_. 0) n = replicate n 0"
  by (simp add: new_bytes_def map_replicate_const)

lemma port_new: "IOCP_new (\<lambda>_. port_memory) blank_port = Some (Inr (), port0)"
proof -
  have "lib_buf port_block = Some (port_buf 100 [])"
    by (simp add: lib_buf_def lib_SockBuf_new_def mpAlloc_def take_block_def port_block_def blank_buf_def port_buf_def
        small_malloc_def Let_def returns_def new_bytes_zero and_then_def)
  then have "lib_peer_new port_memory = Some port_peer"
    by (simp add: lib_peer_new_def port_peer_def port_memory_def blank_peer_def)
  moreover have "those (map (\<lambda>_. Some p) xs) = Some (replicate (length xs) p)" for p :: peer and xs :: "nat list"
    by (induction xs) auto
  ultimately have "lib_PeerManager_new (\<lambda>_. port_memory) = Some (replicate (Suc 5119) port_peer)"
    by (simp add: lib_PeerManager_new_def LIB_PEER_NUM_def)
  then show ?thesis
    unfolding replicate_Suc
    by (simp add: IOCP_new_def port0_def blank_port_def io_call_def system_call_def next_call_def Let_def
        port_os_def example_os_def returns_def port_state_def)
qed

section \<open>The connection\<close>

abbreviation port_read :: sockbuf where
  "port_read \<equiv> (port_buf 512 [])\<lparr>sb_mallocs := Suc (Suc 0)\<rparr>"

abbreviation port_receive :: io_request where
  "port_receive \<equiv> \<lparr>rq_context = 0, rq_key = 0, rq_socket = 7, rq_transfer = Receive (Suc (Suc 0)) 0 512\<rparr>"

definition port1 :: iocp where
  "port1 = port_state (port_conn False port_read (port_buf 100 []) (port_buf 100 [])) 1
     \<lparr>free_list = [], fl_fresh = 1, fl_live = [0]\<rparr> ((\<lambda>_. ClientIoUnknown)(0 := ClientIoRead))
     [port_receive] (port_w 9 [])"

lemma port_socket: "ConnectSocket port0 = returns 7 (port0\<lparr>io_sys := port_w 5 []\<rparr>)"
  by (simp add: ConnectSocket_def io_CreateSocket_def next_call_def io_call_def system_call_def Let_def
      port0_def port_os_def example_os_def INVALID_SOCKET_def port_w_def)

lemma port_reset: "sb_reset (port_buf n []) = port_buf n []"
  by (simp add: sb_reset_def port_buf_def)

lemma port_makes_space: "lib_ensureWritableBytes (port_buf 100 []) 512 = returns () port_read"
  by (simp add: lib_ensureWritableBytes_def lib_makeSpace_def writableBytes_def readableBytes_def mpAlloc_def
      take_block_def port_buf_def small_malloc_def fetch_def poke_def new_bytes_zero Let_def)

lemma port_room: "writableBytes port_read = returns 512 port_read"
  by (simp add: writableBytes_def port_buf_def)

lemma port_fresh:
  "fresh_peer (port_state port_peer 0 f op rs w) 0 = port_state ((port_conn False (port_buf 100 []) (port_buf 100 [])
    (port_buf 100 []))\<lparr>p_socket := INVALID_SOCKET, local_ip := [], local_port := 0, remote_ip := [], remote_port := 0\<rparr>) 1 f op rs w"
  by (simp add: fresh_peer_def) (simp add: port_peer_def port_conn_def port_reset)

lemma port_set_names:
  "set_names 0 (port_state p ser f op rs (port_w n xs)) = Some (port_state (p\<lparr>remote_ip := [49], remote_port := 80,
    local_ip := [49], local_port := 80\<rparr>) ser f op rs (port_w (Suc (Suc n)) xs))"
  by (simp add: set_names_def end_name_def Let_def)

lemma port_start: "start_receive cb 0 0 0 (port_state (port_conn b (port_buf 100 []) w k) ser (FreeList_new 0) op [] (port_w n xs)) =
    returns () (port_state (port_conn b port_read w k) ser \<lparr>free_list = [], fl_fresh = 1, fl_live = [0]\<rparr>
      (op(0 := ClientIoRead)) [port_receive] (port_w (Suc n) xs))"
proof -
  have "on_rbuf 0 (\<lambda>b. lib_ensureWritableBytes b 512) (port_state (port_conn b (port_buf 100 []) w k) ser f op rs v) =
      returns () (port_state (port_conn b port_read w k) ser f op rs v)" for f op rs v
    using port_makes_space by (simp add: on_buf_def returns_def)
  moreover have "on_rbuf 0 writableBytes (port_state (port_conn b port_read w k) ser f op rs v) =
      returns 512 (port_state (port_conn b port_read w k) ser f op rs v)" for f op rs v
    by (rule on_rbuf_asks) (use port_room in simp)
  ultimately show ?thesis
    by (simp add: start_receive_def newIOCxt_def allocElem_def FreeList_new_def wsa_call_def Let_def post_request_def)
      (simp add: port_buf_def)
qed

lemma port_connects: "io_connectPeer lib_event port0 = Some (Inr True, port1)"
proof -
  define s where "s = port0\<lparr>io_sys := port_w 5 []\<rparr>"
  have "p_socket port_peer = INVALID_SOCKET" by (simp add: port_peer_def)
  then have new: "newPeer s = (0, fresh_peer s 0)"
    unfolding newPeer_def newPeer_from.simps [of s 0] by (simp add: LIB_PEER_NUM_def s_def port0_def)
  have "io_registerSocket lib_event 7 s = returns () port1"
    unfolding io_registerSocket_def new
    unfolding s_def port0_def
    by (simp add: port_fresh updateCompletionPort_def Let_def port_set_names lib_event_def lib_onCon_def
        postRecvRequest_def)
      (simp add: port_conn_def [symmetric] INVALID_SOCKET_def port_start port1_def)
  then show ?thesis
    by (simp add: io_connectPeer_def port_socket s_def [symmetric] INVALID_SOCKET_def) (simp add: returns_def)
qed

section \<open>Three bytes are sent\<close>

abbreviation port_bytes :: sockbuf where
  "port_bytes \<equiv> port_buf 100 [1, 2, 3]"

abbreviation port_moved :: sockbuf where
  "port_moved \<equiv> port_bytes\<lparr>m_read_index := 3\<rparr>"

definition port_ops :: "nat \<Rightarrow> IO_OPERATION" where
  "port_ops = (\<lambda>_. ClientIoUnknown)(0 := ClientIoRead, 1 := ClientIoWrite)"

definition port2 :: iocp where
  "port2 = port_state (port_conn True port_read (port_buf 100 []) port_bytes) 1
     \<lparr>free_list = [], fl_fresh = 2, fl_live = [1, 0]\<rparr> port_ops
     [port_receive, \<lparr>rq_context = 1, rq_key = 0, rq_socket = 7, rq_transfer = Notify\<rparr>] (port_w 10 [])"

definition port3 :: iocp where
  "port3 = port_state (port_conn True port_read port_bytes port_moved) 1
     \<lparr>free_list = [1], fl_fresh = 3, fl_live = [2, 1, 0]\<rparr> (port_ops(2 := ClientIoWrite))
     [port_receive, \<lparr>rq_context = 2, rq_key = 0, rq_socket = 7, rq_transfer = Transmit [1, 2, 3]\<rparr>] (port_w 12 [])"

definition port4 :: iocp where
  "port4 = port_state (port_conn False port_read port_moved port_moved) 1
     \<lparr>free_list = [2, 1], fl_fresh = 3, fl_live = [2, 1, 0]\<rparr> (port_ops(2 := ClientIoWrite))
     [port_receive] (port_w 13 [1, 2, 3])"

lemma port_buf_ops:
  "apendBuf (port_buf 100 []) [1, 2, 3] 3 = returns () port_bytes"
  "readMove (port_buf 100 []) 0 = returns () (port_buf 100 [])"
  "readableBytes port_bytes = returns 3 port_bytes" "readableBytes port_moved = returns 0 port_moved"
  "readMove port_bytes 3 = returns () port_moved"
  "sb_buf port_bytes = Some (1 # 2 # 3 # replicate 97 0)" "m_read_index port_bytes = 0"
  "fetch (1 # 2 # 3 # replicate 97 (0 :: byte)) 0 3 = Some [1, 2, 3]"
  by (simp_all add: apendBuf_def lib_ensureWritableBytes_def writableBytes_def readableBytes_def readMove_def
      port_buf_def fetch_def poke_def Let_def)

lemma port_sends: "io_send 0 0 [1, 2, 3] 3 port1 = Some (Inr (), port2)"
proof -
  have "on_backup 0 (\<lambda>b. apendBuf b [1, 2, 3] 3) port1 = returns () (put_peer 0
      (port_conn False port_read (port_buf 100 []) port_bytes) port1)"
    using port_buf_ops(1) by (simp add: on_buf_def port1_def returns_def)
  then show ?thesis
    by (simp add: io_send_def port1_def wake_def newIOCxt_def allocElem_def Let_def post_request_def
        INVALID_SOCKET_def)
      (simp add: returns_def port2_def port_ops_def numeral_2_eq_2 [symmetric])
qed

lemma port_timely: "timely port2" "timely port3"
  by (simp_all add: timely_def port2_def port3_def port_answers_def chosen_def Let_def)

lemma port_on_wbuf:
  "on_wbuf 0 f (port_state (port_conn b r w k) ser fl op rs v) =
    and_then (Some (Inr (), port_state (port_conn b r w k) ser fl op rs v)) (\<lambda>_ _. do {
      (x, w) \<leftarrow> f w; Some (x, port_state (port_conn b r w k) ser fl op rs v) })"
  by (simp add: on_buf_def and_then_def)

lemma port_on_backup:
  "on_backup 0 f (port_state (port_conn b r w k) ser fl op rs v) =
    and_then (Some (Inr (), port_state (port_conn b r w k) ser fl op rs v)) (\<lambda>_ _. do {
      (x, k) \<leftarrow> f k; Some (x, port_state (port_conn b r w k) ser fl op rs v) })"
  by (simp add: on_buf_def and_then_def)

lemmas port_eval = port_on_wbuf port_on_backup and_then_def returns_def port_buf_ops [unfolded returns_def]

lemma port_writes: "processWrite cb 0 0 (port_state (port_conn True port_read (port_buf 100 []) port_bytes) 1
      \<lparr>free_list = [], fl_fresh = 2, fl_live = [Suc 0, 0]\<rparr> port_ops [port_receive] (port_w 11 [])) =
    returns () (port_state (port_conn True port_read port_bytes port_moved) 1
      \<lparr>free_list = [], fl_fresh = 3, fl_live = [2, Suc 0, 0]\<rparr> (port_ops(2 := ClientIoWrite))
      [port_receive, \<lparr>rq_context = 2, rq_key = 0, rq_socket = 7, rq_transfer = Transmit [1, 2, 3]\<rparr>] (port_w 12 []))"
  by (simp add: processWrite_def refill_def postSendRequest_def start_send_def newIOCxt_def allocElem_def
      wsa_call_def post_request_def Let_def INVALID_SOCKET_def port_eval lib_getPeer_def LIB_PEER_NUM_def)

lemma port_written: "processWrite cb 0 3 (port_state (port_conn True port_read port_bytes port_moved) 1
      f op rs v) = returns () (port_state (port_conn False port_read port_moved port_moved) 1 f op rs v)"
  by (simp add: processWrite_def refill_def Let_def INVALID_SOCKET_def port_eval lib_getPeer_def LIB_PEER_NUM_def)

lemma port_ops_at [simp]: "port_ops (Suc 0) = ClientIoWrite"
  by (simp add: port_ops_def)

lemma port_notified: "onEventTick lib_event port2 = Some (Inr True, port3)"
  by (simp add: onEventTick_def GetQueuedCompletionStatus_def port2_def port_answers_def chosen_def Let_def
      without_def transfer_done_def on_completion_def INVALID_SOCKET_def port_writes deleteIOCxt_def freeElem_def)
    (simp add: returns_def port3_def)

lemma port_sent: "onEventTick lib_event port3 = Some (Inr True, port4)"
  by (simp add: onEventTick_def GetQueuedCompletionStatus_def port3_def port_answers_def chosen_def Let_def
      without_def transfer_done_def on_completion_def INVALID_SOCKET_def port_written deleteIOCxt_def freeElem_def)
    (simp add: returns_def port4_def)

lemma port_runs: "timely_run lib_event port0 port1" "timely_run lib_event port0 port2" "timely_run lib_event port0 port4"
  "timely_run lib_event port2 port4"
proof -
  show run1: "timely_run lib_event port0 port1" by (rule connects [OF stay port_connects])
  show run2: "timely_run lib_event port0 port2" by (rule sends [OF run1 _ _ port_sends]) simp_all
  show "timely_run lib_event port0 port4"
    by (rule takes [OF takes [OF run2 port_timely(1) port_notified] port_timely(2) port_sent])
  show "timely_run lib_event port2 port4"
    by (rule takes [OF takes [OF stay port_timely(1) port_notified] port_timely(2) port_sent])
qed

lemma port_blank: "names_ok (io_sys blank_port)" "small_memory (\<lambda>_. port_memory)"
  by (simp_all add: blank_port_def port_names small_memory_def port_memory_def port_block_def
      small_blocks_def small_malloc_def)

lemma port_live: "live port1 0" "live port2 0"
  by (simp_all add: live_def port1_def port2_def LIB_PEER_NUM_def INVALID_SOCKET_def)

section \<open>What holds in every run\<close>

text \<open>
  C11: From its start, in every run of the program that one thread drives, in which no completion
  of a closed connection's request comes after its slot has been taken again (\<open>timely_run\<close>), a
  connection has at most one request to receive under way, which stores behind the content of a
  block that is still the buffer's, and at most one request to send, which has all bytes of the
  buffer that must not move; bytes wait only while such a request is under way.  As long as the
  completions go on coming in time (\<open>on_time\<close>), the loop does not leave defined behaviour.  Both
  are assumptions on the run: neither Windows nor the code sees to it.  Two more: every socket has
  a name of its own, and its addresses can be asked for (\<open>names_ok\<close>); and \<open>malloc\<close>, in a process
  of 32 bits, has no block of two gigabytes (\<open>small_memory\<close>).
\<close>

theorem requests_stay_sound:
  assumes "names_ok (io_sys w)" "small_memory memory" "IOCP_new memory w = Some (Inr (), s)"
    "timely_run lib_event s t"
  shows "(\<forall>i. live t i \<longrightarrow> send_state (own_sends t i) (io_peer t i) \<and> recv_state (own_reads t i) (io_peer t i)) \<and>
    (\<forall>n. on_time lib_event n t \<longrightarrow> io_eventLoop lib_event n t \<noteq> None)"
proof -
  have t: "iocp_ok {} [] t" using lib.run_keeps [OF assms(4)] IOCP_new_ok [OF assms(1-3)] by simp
  then have "\<forall>i. live t i \<longrightarrow> send_state (own_sends t i) (io_peer t i) \<and> recv_state (own_reads t i) (io_peer t i)"
    by (simp add: iocp_ok_def)
  moreover have "io_eventLoop lib_event n t \<noteq> None" if "on_time lib_event n t" for n
    using lib.eventLoop_ends [OF t that] by (rule ends_defined)
  ultimately show ?thesis by blast
qed

theorem requests_stay_sound_witness:
  "live port2 0 \<and> send_state (own_sends port2 0) (io_peer port2 0) \<and> recv_state (own_reads port2 0) (io_peer port2 0)"
  using requests_stay_sound [OF port_blank port_new port_runs(2)] port_live(2) by blast

text \<open>
  C5: In a run of the program that one thread drives, in which no completion of a closed
  connection's request comes after its slot has been taken again (\<open>timely_run\<close>: an assumption on
  the run, which neither Windows nor the code ensures), what a call of \<open>send\<close> has taken goes out
  behind all that was sent before on the connection and before all that is sent later: as long
  as the connection is there, what has departed and what waits are together everything sent, in
  order, and once no request is under way all of it has departed.  Assumed besides: every socket
  has a name of its own, and its addresses can be asked for (\<open>names_ok\<close>); and \<open>malloc\<close>, in a
  process of 32 bits, has no block of two gigabytes (\<open>small_memory\<close>).
\<close>

theorem sent_in_order:
  assumes "names_ok (io_sys w)" "small_memory memory" "IOCP_new memory w = Some (Inr (), s0)"
    "timely_run lib_event s0 s"
    "live s (unat index)" "serial (io_peer s (unat index)) = ser"
    "unat len \<le> length buf" "unat len < 2 ^ 31" "io_send index ser buf len s = Some (Inr (), t)"
    "timely_run lib_event t u" "p_socket (io_peer u (unat index)) = p_socket (io_peer s (unat index))"
  shows "\<exists>rest. sent_stream u (unat index) = sent_stream s (unat index) @ take (unat len) buf @ rest \<and>
    (\<not> wsa_send (io_peer u (unat index)) \<longrightarrow>
      departed (io_sys u) (p_socket (io_peer u (unat index))) = sent_stream s (unat index) @ take (unat len) buf @ rest)"
proof -
  let ?i = "unat index"
  have s: "iocp_ok {} [] s" using lib.run_keeps [OF assms(4)] IOCP_new_ok [OF assms(1-3)] by simp
  have t: "iocp_ok {} [] t" "sends_of ?i ser (take (unat len) buf) s t"
    using ends_result [OF io_send_ends [OF s assms(7,8)] assms(9)] by simp_all
  then have ti: "live t ?i" "p_socket (io_peer t ?i) = p_socket (io_peer s ?i)"
    "sent_stream t ?i = sent_stream s ?i @ take (unat len) buf"
    using assms(5,6) by (simp_all add: sends_of_def)
  have u: "iocp_ok {} [] u" "advances t u" using lib.run_keeps [OF assms(10) t(1)] by simp_all
  have lu: "live u ?i" using assms(5,11) by (simp add: live_def)
  then have "prefix (sent_stream t ?i) (sent_stream u ?i)"
    using u(2) iocp_ok_live [OF t(1) ti(1)] ti(2) assms(11) by (auto simp: advances_def moves_def)
  then obtain rest where out: "sent_stream u ?i = sent_stream s ?i @ take (unat len) buf @ rest"
    using ti(3) by (auto simp: prefix_def)
  have "send_state (own_sends u ?i) (io_peer u ?i)" using u(1) lu by (simp add: iocp_ok_def)
  then have "sent_stream u ?i = departed (io_sys u) (p_socket (io_peer u ?i))" if "\<not> wsa_send (io_peer u ?i)"
    using that by (simp add: send_state_def sent_stream_def)
  then show ?thesis using out by metis
qed

theorem sent_in_order_witness:
  "\<exists>rest. sent_stream port4 0 = sent_stream port1 0 @ [1, 2, 3] @ rest \<and> departed (io_sys port4) 7 = sent_stream port1 0 @ [1, 2, 3] @ rest"
proof -
  have "\<exists>rest. sent_stream port4 (unat (0 :: 32 word)) = sent_stream port1 (unat (0 :: 32 word)) @ take (unat (3 :: 32 word)) [1, 2, 3] @ rest \<and>
    (\<not> wsa_send (io_peer port4 (unat (0 :: 32 word))) \<longrightarrow>
      departed (io_sys port4) (p_socket (io_peer port4 (unat (0 :: 32 word)))) =
        sent_stream port1 (unat (0 :: 32 word)) @ take (unat (3 :: 32 word)) [1, 2, 3] @ rest)"
    by (rule sent_in_order [OF port_blank port_new port_runs(1) _ _ _ _ port_sends port_runs(4)])
      (simp_all add: port_live, simp_all add: port1_def port4_def)
  then show ?thesis by (simp add: port4_def)
qed

text \<open>
  C40: A request of a closed socket that fails after its slot has been taken closes the
  connection that now holds the slot: the completion names only the slot.
\<close>

theorem stale_completion_closes:
  assumes "length (io_peers s) = LIB_PEER_NUM" "io_answer s (calls (io_sys s)) = Deleted k" "io_requests s \<noteq> []"
    and "rq = io_requests s ! chosen k s" "live s (rq_key rq)" "rq_socket rq \<noteq> p_socket (io_peer s (rq_key rq))"
  shows "\<exists>t. onEventTick lib_event s = Some (Inr True, t) \<and> \<not> live t (rq_key rq) \<and>
    p_socket (io_peer s (rq_key rq)) \<in> set (closed (io_sys t))"
proof -
  have key: "rq_key rq < LIB_PEER_NUM" "p_socket (io_peer s (rq_key rq)) \<noteq> INVALID_SOCKET"
    using assms(5) by (simp_all add: live_def)
  have chosen: "chosen k (s\<lparr>io_sys := w\<rparr>) = chosen k s" for w by (simp add: chosen_def)
  show ?thesis using assms key
    by (auto simp: onEventTick_def GetQueuedCompletionStatus_def next_call_def Let_def chosen lib_getPeer_def
        key_index io_closePeer_def lib_event_def lib_onDisCon_def deletePeer_def returns_def and_then_def
        deleteIOCxt_def without_def live_def)
qed

definition stale_port :: iocp where
  "stale_port = port1\<lparr>io_answer := (\<lambda>_. Deleted 0), io_requests := [port_receive\<lparr>rq_socket := 6\<rparr>]\<rparr>"

theorem stale_completion_closes_witness:
  "\<exists>t. onEventTick lib_event stale_port = Some (Inr True, t) \<and> \<not> live t 0 \<and> 7 \<in> set (closed (io_sys t))"
proof -
  define rq where "rq = port_receive\<lparr>rq_socket := 6\<rparr>"
  have "\<exists>t. onEventTick lib_event stale_port = Some (Inr True, t) \<and> \<not> live t (rq_key rq) \<and>
      p_socket (io_peer stale_port (rq_key rq)) \<in> set (closed (io_sys t))"
    by (rule stale_completion_closes [of _ 0])
      (simp_all add: stale_port_def rq_def port1_def LIB_PEER_NUM_def chosen_def live_def io_peer_def port_state_def
        INVALID_SOCKET_def)
  then show ?thesis by (simp add: rq_def stale_port_def port1_def io_peer_def port_state_def)
qed

end
