(* ===== verification/Md5.thy ===== *)
theory Md5
  imports Bytes
begin

text \<open>
  The MD5 digest of \<open>net_libs/libbase/export/md5/MD5lq.cpp\<close>.  \<open>unsigned long\<close> is a word of 32
  bits.  First the functions of the file in their order, bottom up; then the transformation
  against the numbered steps of RFC 1321, and the chunked update against the padded message.
\<close>

section \<open>The transformation\<close>

definition md5_F :: "c_long \<Rightarrow> c_long \<Rightarrow> c_long \<Rightarrow> c_long" where
  "md5_F x y z = or (and x y) (and (not x) z)"

definition md5_G :: "c_long \<Rightarrow> c_long \<Rightarrow> c_long \<Rightarrow> c_long" where
  "md5_G x y z = or (and x z) (and y (not z))"

definition md5_H :: "c_long \<Rightarrow> c_long \<Rightarrow> c_long \<Rightarrow> c_long" where
  "md5_H x y z = xor (xor x y) z"

definition md5_I :: "c_long \<Rightarrow> c_long \<Rightarrow> c_long \<Rightarrow> c_long" where
  "md5_I x y z = xor y (or x (not z))"

definition ROTATE_LEFT :: "c_long \<Rightarrow> nat \<Rightarrow> c_long" where
  "ROTATE_LEFT x n = or (push_bit n x) (drop_bit (32 - n) x)"

text \<open>The macros assign to the variable that is their first argument.\<close>

datatype reg = Ra | Rb | Rc | Rd

type_synonym regs = "reg \<Rightarrow> c_long"

definition md5_macro ::
  "(c_long \<Rightarrow> c_long \<Rightarrow> c_long \<Rightarrow> c_long) \<Rightarrow> reg \<Rightarrow> reg \<Rightarrow> reg \<Rightarrow> reg \<Rightarrow> c_long \<Rightarrow> nat \<Rightarrow> c_long \<Rightarrow> regs \<Rightarrow> regs"
  where
  "md5_macro f a b c d x s ac r0 =
     (let r1 = r0(a := r0 a + (f (r0 b) (r0 c) (r0 d) + x + ac));
          r2 = r1(a := ROTATE_LEFT (r1 a) s)
      in r2(a := r2 a + r2 b))"

definition FF :: "reg \<Rightarrow> reg \<Rightarrow> reg \<Rightarrow> reg \<Rightarrow> c_long \<Rightarrow> nat \<Rightarrow> c_long \<Rightarrow> regs \<Rightarrow> regs" where
  "FF = md5_macro md5_F"

definition GG :: "reg \<Rightarrow> reg \<Rightarrow> reg \<Rightarrow> reg \<Rightarrow> c_long \<Rightarrow> nat \<Rightarrow> c_long \<Rightarrow> regs \<Rightarrow> regs" where
  "GG = md5_macro md5_G"

definition HH :: "reg \<Rightarrow> reg \<Rightarrow> reg \<Rightarrow> reg \<Rightarrow> c_long \<Rightarrow> nat \<Rightarrow> c_long \<Rightarrow> regs \<Rightarrow> regs" where
  "HH = md5_macro md5_H"

definition II :: "reg \<Rightarrow> reg \<Rightarrow> reg \<Rightarrow> reg \<Rightarrow> c_long \<Rightarrow> nat \<Rightarrow> c_long \<Rightarrow> regs \<Rightarrow> regs" where
  "II = md5_macro md5_I"

definition md5_round1 :: "c_long list \<Rightarrow> regs \<Rightarrow> regs" where
  "md5_round1 x r0 = fold (\<lambda>step. step)
     [FF Ra Rb Rc Rd (x ! 0) 7 0xd76aa478,
      FF Rd Ra Rb Rc (x ! 1) 12 0xe8c7b756,
      FF Rc Rd Ra Rb (x ! 2) 17 0x242070db,
      FF Rb Rc Rd Ra (x ! 3) 22 0xc1bdceee,
      FF Ra Rb Rc Rd (x ! 4) 7 0xf57c0faf,
      FF Rd Ra Rb Rc (x ! 5) 12 0x4787c62a,
      FF Rc Rd Ra Rb (x ! 6) 17 0xa8304613,
      FF Rb Rc Rd Ra (x ! 7) 22 0xfd469501,
      FF Ra Rb Rc Rd (x ! 8) 7 0x698098d8,
      FF Rd Ra Rb Rc (x ! 9) 12 0x8b44f7af,
      FF Rc Rd Ra Rb (x ! 10) 17 0xffff5bb1,
      FF Rb Rc Rd Ra (x ! 11) 22 0x895cd7be,
      FF Ra Rb Rc Rd (x ! 12) 7 0x6b901122,
      FF Rd Ra Rb Rc (x ! 13) 12 0xfd987193,
      FF Rc Rd Ra Rb (x ! 14) 17 0xa679438e,
      FF Rb Rc Rd Ra (x ! 15) 22 0x49b40821] r0"

definition md5_round2 :: "c_long list \<Rightarrow> regs \<Rightarrow> regs" where
  "md5_round2 x r0 = fold (\<lambda>step. step)
     [GG Ra Rb Rc Rd (x ! 1) 5 0xf61e2562,
      GG Rd Ra Rb Rc (x ! 6) 9 0xc040b340,
      GG Rc Rd Ra Rb (x ! 11) 14 0x265e5a51,
      GG Rb Rc Rd Ra (x ! 0) 20 0xe9b6c7aa,
      GG Ra Rb Rc Rd (x ! 5) 5 0xd62f105d,
      GG Rd Ra Rb Rc (x ! 10) 9 0x2441453,
      GG Rc Rd Ra Rb (x ! 15) 14 0xd8a1e681,
      GG Rb Rc Rd Ra (x ! 4) 20 0xe7d3fbc8,
      GG Ra Rb Rc Rd (x ! 9) 5 0x21e1cde6,
      GG Rd Ra Rb Rc (x ! 14) 9 0xc33707d6,
      GG Rc Rd Ra Rb (x ! 3) 14 0xf4d50d87,
      GG Rb Rc Rd Ra (x ! 8) 20 0x455a14ed,
      GG Ra Rb Rc Rd (x ! 13) 5 0xa9e3e905,
      GG Rd Ra Rb Rc (x ! 2) 9 0xfcefa3f8,
      GG Rc Rd Ra Rb (x ! 7) 14 0x676f02d9,
      GG Rb Rc Rd Ra (x ! 12) 20 0x8d2a4c8a] r0"

definition md5_round3 :: "c_long list \<Rightarrow> regs \<Rightarrow> regs" where
  "md5_round3 x r0 = fold (\<lambda>step. step)
     [HH Ra Rb Rc Rd (x ! 5) 4 0xfffa3942,
      HH Rd Ra Rb Rc (x ! 8) 11 0x8771f681,
      HH Rc Rd Ra Rb (x ! 11) 16 0x6d9d6122,
      HH Rb Rc Rd Ra (x ! 14) 23 0xfde5380c,
      HH Ra Rb Rc Rd (x ! 1) 4 0xa4beea44,
      HH Rd Ra Rb Rc (x ! 4) 11 0x4bdecfa9,
      HH Rc Rd Ra Rb (x ! 7) 16 0xf6bb4b60,
      HH Rb Rc Rd Ra (x ! 10) 23 0xbebfbc70,
      HH Ra Rb Rc Rd (x ! 13) 4 0x289b7ec6,
      HH Rd Ra Rb Rc (x ! 0) 11 0xeaa127fa,
      HH Rc Rd Ra Rb (x ! 3) 16 0xd4ef3085,
      HH Rb Rc Rd Ra (x ! 6) 23 0x4881d05,
      HH Ra Rb Rc Rd (x ! 9) 4 0xd9d4d039,
      HH Rd Ra Rb Rc (x ! 12) 11 0xe6db99e5,
      HH Rc Rd Ra Rb (x ! 15) 16 0x1fa27cf8,
      HH Rb Rc Rd Ra (x ! 2) 23 0xc4ac5665] r0"

definition md5_round4 :: "c_long list \<Rightarrow> regs \<Rightarrow> regs" where
  "md5_round4 x r0 = fold (\<lambda>step. step)
     [II Ra Rb Rc Rd (x ! 0) 6 0xf4292244,
      II Rd Ra Rb Rc (x ! 7) 10 0x432aff97,
      II Rc Rd Ra Rb (x ! 14) 15 0xab9423a7,
      II Rb Rc Rd Ra (x ! 5) 21 0xfc93a039,
      II Ra Rb Rc Rd (x ! 12) 6 0x655b59c3,
      II Rd Ra Rb Rc (x ! 3) 10 0x8f0ccc92,
      II Rc Rd Ra Rb (x ! 10) 15 0xffeff47d,
      II Rb Rc Rd Ra (x ! 1) 21 0x85845dd1,
      II Ra Rb Rc Rd (x ! 8) 6 0x6fa87e4f,
      II Rd Ra Rb Rc (x ! 15) 10 0xfe2ce6e0,
      II Rc Rd Ra Rb (x ! 6) 15 0xa3014314,
      II Rb Rc Rd Ra (x ! 13) 21 0x4e0811a1,
      II Ra Rb Rc Rd (x ! 4) 6 0xf7537e82,
      II Rd Ra Rb Rc (x ! 11) 10 0xbd3af235,
      II Rc Rd Ra Rb (x ! 2) 15 0x2ad7d2bb,
      II Rb Rc Rd Ra (x ! 9) 21 0xeb86d391] r0"

text \<open>\<open>Encode\<close> and \<open>Decode\<close> on whole words; their length is a multiple of four.\<close>

definition Encode :: "c_long list \<Rightarrow> byte list" where
  "Encode words = concat (map (\<lambda>w. [ucast (and w 0xff), ucast (and (drop_bit 8 w) 0xff),
     ucast (and (drop_bit 16 w) 0xff), ucast (and (drop_bit 24 w) 0xff)]) words)"

definition Decode :: "byte list \<Rightarrow> nat \<Rightarrow> c_long list" where
  "Decode input len = map (\<lambda>i. or (or (or (ucast (input ! (4 * i)))
     (push_bit 8 (ucast (input ! (4 * i + 1))))) (push_bit 16 (ucast (input ! (4 * i + 2)))))
     (push_bit 24 (ucast (input ! (4 * i + 3))))) [0..<len div 4]"

text \<open>The caller sees only the sum; that the block is cleared afterwards leaves no trace.\<close>

definition MD5Transform :: "c_long list \<Rightarrow> byte list \<Rightarrow> c_long list" where
  "MD5Transform state block =
     (let x = Decode block 64;
          start = (\<lambda>r. case r of Ra \<Rightarrow> state ! 0 | Rb \<Rightarrow> state ! 1 | Rc \<Rightarrow> state ! 2 | Rd \<Rightarrow> state ! 3);
          r = md5_round4 x (md5_round3 x (md5_round2 x (md5_round1 x start)))
      in [state ! 0 + r Ra, state ! 1 + r Rb, state ! 2 + r Rc, state ! 3 + r Rd])"

section \<open>The context\<close>

record md5ctx =
  md5_state :: "c_long list"
  md5_count0 :: c_long
  md5_count1 :: c_long
  md5_buffer :: "byte list"

definition PADDING :: "byte list" where
  "PADDING = 0x80 # replicate 63 0"

definition MD5Init :: "md5ctx \<Rightarrow> c_long \<Rightarrow> c_long \<Rightarrow> c_long \<Rightarrow> c_long \<Rightarrow> md5ctx" where
  "MD5Init context p1 p2 p3 p4 =
     context\<lparr>md5_count0 := 0, md5_count1 := 0, md5_state := [p1, p2, p3, p4]\<rparr>"

text \<open>
  \<open>MD5MemCpy\<close> from offset \<open>j\<close> of one block to offset \<open>i\<close> of another.  The loop over whole blocks
  computes \<open>i + 63\<close> in 32 bits, so with an input close to four gigabytes it would go round for ever.
\<close>

definition MD5MemCpy :: "byte list \<Rightarrow> c_long \<Rightarrow> byte list \<Rightarrow> c_long \<Rightarrow> c_long \<Rightarrow> byte list option" where
  "MD5MemCpy output i input j len = do {
     xs \<leftarrow> fetch input (unat j) (unat len);
     poke output (unat i) xs
   }"

partial_function (option) update_blocks ::
  "byte list \<Rightarrow> c_long \<Rightarrow> c_long \<Rightarrow> c_long list \<Rightarrow> (c_long \<times> c_long list) option" where
  "update_blocks input inputLen i state =
     (if i + 63 < inputLen then do {
        block \<leftarrow> fetch input (unat i) 64;
        update_blocks input inputLen (i + 64) (MD5Transform state block)
      } else Some (i, state))"

definition count_bits :: "c_long \<Rightarrow> md5ctx \<Rightarrow> md5ctx" where
  "count_bits inputLen context =
     (let c0 = md5_count0 context + push_bit 3 inputLen;
          c1 = (if c0 < push_bit 3 inputLen then md5_count1 context + 1 else md5_count1 context)
      in context\<lparr>md5_count0 := c0, md5_count1 := c1 + drop_bit 29 inputLen\<rparr>)"

definition MD5Update :: "md5ctx \<Rightarrow> byte list \<Rightarrow> c_long \<Rightarrow> md5ctx option" where
  "MD5Update context input inputLen = (
     let index = and (drop_bit 3 (md5_count0 context)) 0x3F;
         context = count_bits inputLen context;
         partLen = 64 - index
     in do {
       (index, i, context) \<leftarrow>
         (if inputLen \<ge> partLen then do {
            buf \<leftarrow> MD5MemCpy (md5_buffer context) index input 0 partLen;
            (i, state) \<leftarrow> update_blocks input inputLen partLen (MD5Transform (md5_state context) buf);
            Some (0, i, context\<lparr>md5_buffer := buf, md5_state := state\<rparr>)
          } else Some (index, 0, context));
       buf \<leftarrow> MD5MemCpy (md5_buffer context) index input i (inputLen - i);
       Some (context\<lparr>md5_buffer := buf\<rparr>)
     })"

definition MD5Final :: "md5ctx \<Rightarrow> (byte list \<times> md5ctx) option" where
  "MD5Final context = (
     let bits = Encode [md5_count0 context, md5_count1 context];
         index = and (drop_bit 3 (md5_count0 context)) 0x3f;
         padLen = (if index < 56 then 56 - index else 120 - index)
     in do {
       context \<leftarrow> MD5Update context PADDING padLen;
       context \<leftarrow> MD5Update context bits 8;
       Some (Encode (md5_state context),
             \<lparr>md5_state = replicate 4 0, md5_count0 = 0, md5_count1 = 0, md5_buffer = replicate 64 0\<rparr>)
     })"

section \<open>The digest as text\<close>

text \<open>\<open>sprintf\<close> with \<open>%02X\<close>: two hexadecimal digits and a NUL; each call overwrites the last NUL.\<close>

definition hex_digit :: "byte \<Rightarrow> byte" where
  "hex_digit n = (if n < 10 then 48 + n else 55 + n)"

definition hex2 :: "byte \<Rightarrow> byte list" where
  "hex2 b = [hex_digit (drop_bit 4 b), hex_digit (and b 0xF)]"

fun print_digits :: "byte list \<Rightarrow> nat \<Rightarrow> byte list \<Rightarrow> byte list option" where
  "print_digits [] pos out = Some out"
| "print_digits (b # bs) pos out = do {
     out \<leftarrow> poke out pos (hex2 b @ [0]);
     print_digits bs (pos + 2) out
   }"

definition MD5Print :: "byte list \<Rightarrow> byte list \<Rightarrow> byte list option" where
  "MD5Print digest pbyResult = print_digits digest 0 pbyResult"

text \<open>
  The four parameters are passed by reference; \<open>fresh\<close> and \<open>junk_ctx\<close> are the contents of the local
  variables before they are set.
\<close>

definition MD5 ::
  "(nat \<Rightarrow> byte) \<Rightarrow> md5ctx \<Rightarrow> byte list \<Rightarrow> byte list \<Rightarrow> c_long \<Rightarrow> bool \<Rightarrow> c_long list \<Rightarrow>
   (bool \<times> byte list \<times> c_long list) option"
  where
  "MD5 fresh junk_ctx lpszSource lpszTarget nSize bParamType params = (
     let params = (if \<not> bParamType then [0x67452301, 0xEFCDAB89, 0x98BADCFE, 0x10325476] else params);
         context = MD5Init junk_ctx (params ! 0) (params ! 1) (params ! 2) (params ! 3)
     in do {
       context \<leftarrow> MD5Update context lpszSource nSize;
       (byDigest, context) \<leftarrow> MD5Final context;
       byResults \<leftarrow> MD5Print byDigest (new_bytes fresh 37);
       text_of \<leftarrow> fetch byResults 0 32;
       lpszTarget \<leftarrow> poke lpszTarget 0 text_of;
       Some (True, lpszTarget, params)
     })"

section \<open>The steps of RFC 1321\<close>

text \<open>
  The reference numbers the 64 steps, and lets the four variables move on by one place after
  each of them instead of naming them in turn.
\<close>

definition md5_K :: "c_long list" where
  "md5_K =
     [0xd76aa478, 0xe8c7b756, 0x242070db, 0xc1bdceee, 0xf57c0faf, 0x4787c62a, 0xa8304613, 0xfd469501,
      0x698098d8, 0x8b44f7af, 0xffff5bb1, 0x895cd7be, 0x6b901122, 0xfd987193, 0xa679438e, 0x49b40821,
      0xf61e2562, 0xc040b340, 0x265e5a51, 0xe9b6c7aa, 0xd62f105d, 0x2441453, 0xd8a1e681, 0xe7d3fbc8,
      0x21e1cde6, 0xc33707d6, 0xf4d50d87, 0x455a14ed, 0xa9e3e905, 0xfcefa3f8, 0x676f02d9, 0x8d2a4c8a,
      0xfffa3942, 0x8771f681, 0x6d9d6122, 0xfde5380c, 0xa4beea44, 0x4bdecfa9, 0xf6bb4b60, 0xbebfbc70,
      0x289b7ec6, 0xeaa127fa, 0xd4ef3085, 0x4881d05, 0xd9d4d039, 0xe6db99e5, 0x1fa27cf8, 0xc4ac5665,
      0xf4292244, 0x432aff97, 0xab9423a7, 0xfc93a039, 0x655b59c3, 0x8f0ccc92, 0xffeff47d, 0x85845dd1,
      0x6fa87e4f, 0xfe2ce6e0, 0xa3014314, 0x4e0811a1, 0xf7537e82, 0xbd3af235, 0x2ad7d2bb, 0xeb86d391]"

definition md5_shift :: "nat \<Rightarrow> nat" where
  "md5_shift i = ([[7, 12, 17, 22], [5, 9, 14, 20], [4, 11, 16, 23], [6, 10, 15, 21]] ! (i div 16)) ! (i mod 4)"

definition md5_index :: "nat \<Rightarrow> nat" where
  "md5_index i = (if i < 16 then i else if i < 32 then 5 * i + 1 else if i < 48 then 3 * i + 5 else 7 * i) mod 16"

definition md5_mix :: "nat \<Rightarrow> c_long \<Rightarrow> c_long \<Rightarrow> c_long \<Rightarrow> c_long" where
  "md5_mix i = (if i < 16 then md5_F else if i < 32 then md5_G else if i < 48 then md5_H else md5_I)"

type_synonym quad = "c_long \<times> c_long \<times> c_long \<times> c_long"

definition md5_rot :: "(c_long \<Rightarrow> c_long \<Rightarrow> c_long \<Rightarrow> c_long) \<Rightarrow> c_long \<Rightarrow> nat \<Rightarrow> c_long \<Rightarrow> quad \<Rightarrow> quad" where
  "md5_rot f x s k = (\<lambda>(a, b, c, d). (d, ROTATE_LEFT (a + (f b c d + x + k)) s + b, b, c))"

definition md5_step :: "c_long list \<Rightarrow> nat \<Rightarrow> quad \<Rightarrow> quad" where
  "md5_step x i = md5_rot (md5_mix i) (x ! md5_index i) (md5_shift i) (md5_K ! i)"

definition md5_steps :: "c_long list \<Rightarrow> quad \<Rightarrow> quad" where
  "md5_steps x = fold (md5_step x) [0..<64]"

definition view :: "reg \<Rightarrow> reg \<Rightarrow> reg \<Rightarrow> reg \<Rightarrow> regs \<Rightarrow> quad" where
  "view a b c d r = (r a, r b, r c, r d)"

lemma view_macro:
  assumes "distinct [a, b, c, d]"
  shows "view d a b c (md5_macro f a b c d x s k r) = md5_rot f x s k (view a b c d r)"
  using assms unfolding view_def md5_macro_def md5_rot_def Let_def by (simp add: not_sym)

lemma view_macros:
  "view Rd Ra Rb Rc (md5_macro f Ra Rb Rc Rd x s k r) = md5_rot f x s k (view Ra Rb Rc Rd r)"
  "view Rc Rd Ra Rb (md5_macro f Rd Ra Rb Rc x s k r) = md5_rot f x s k (view Rd Ra Rb Rc r)"
  "view Rb Rc Rd Ra (md5_macro f Rc Rd Ra Rb x s k r) = md5_rot f x s k (view Rc Rd Ra Rb r)"
  "view Ra Rb Rc Rd (md5_macro f Rb Rc Rd Ra x s k r) = md5_rot f x s k (view Rb Rc Rd Ra r)"
  by (simp_all add: view_macro)

lemma steps_of_rounds:
  "[0..<16] = [0,1,2,3,4,5,6,7,8,9,10,11,12,13,14,15::nat]"
  "[16..<32] = [16,17,18,19,20,21,22,23,24,25,26,27,28,29,30,31::nat]"
  "[32..<48] = [32,33,34,35,36,37,38,39,40,41,42,43,44,45,46,47::nat]"
  "[48..<64] = [48,49,50,51,52,53,54,55,56,57,58,59,60,61,62,63::nat]"
  by (simp_all add: upt_rec)

lemmas md5_tables = md5_step_def md5_K_def md5_shift_def md5_index_def md5_mix_def

lemma round1_steps: "view Ra Rb Rc Rd (md5_round1 x r) = fold (md5_step x) [0..<16] (view Ra Rb Rc Rd r)"
  unfolding md5_round1_def steps_of_rounds FF_def by (simp add: view_macros md5_tables)

lemma round2_steps: "view Ra Rb Rc Rd (md5_round2 x r) = fold (md5_step x) [16..<32] (view Ra Rb Rc Rd r)"
  unfolding md5_round2_def steps_of_rounds GG_def by (simp add: view_macros md5_tables)

lemma round3_steps: "view Ra Rb Rc Rd (md5_round3 x r) = fold (md5_step x) [32..<48] (view Ra Rb Rc Rd r)"
  unfolding md5_round3_def steps_of_rounds HH_def by (simp add: view_macros md5_tables)

lemma round4_steps: "view Ra Rb Rc Rd (md5_round4 x r) = fold (md5_step x) [48..<64] (view Ra Rb Rc Rd r)"
  unfolding md5_round4_def steps_of_rounds II_def by (simp add: view_macros md5_tables)

lemma steps_split:
  "md5_steps x s = fold (md5_step x) [48..<64] (fold (md5_step x) [32..<48]
     (fold (md5_step x) [16..<32] (fold (md5_step x) [0..<16] s)))"
proof -
  have "[0..<64] = [0..<16] @ [16..<32] @ [32..<48] @ [48..<64::nat]" by (simp add: upt_rec)
  then show ?thesis by (simp add: md5_steps_def)
qed

lemma rounds_steps:
  "view Ra Rb Rc Rd (md5_round4 x (md5_round3 x (md5_round2 x (md5_round1 x r)))) =
   md5_steps x (view Ra Rb Rc Rd r)"
  by (simp add: steps_split round1_steps round2_steps round3_steps round4_steps)

text \<open>The transformation with the words of a block read as little-endian numbers.\<close>

fun words_of :: "byte list \<Rightarrow> c_long list" where
  "words_of (a # b # c # d # bs) = dec32 [a, b, c, d] # words_of bs"
| "words_of bs = []"

definition md5_compress :: "c_long list \<Rightarrow> byte list \<Rightarrow> c_long list" where
  "md5_compress state block =
     (case md5_steps (words_of block) (state ! 0, state ! 1, state ! 2, state ! 3) of
        (a, b, c, d) \<Rightarrow> [state ! 0 + a, state ! 1 + b, state ! 2 + c, state ! 3 + d])"

lemma or_digits:
  "or (or (or (ucast a) (push_bit 8 (ucast b))) (push_bit 16 (ucast c))) (push_bit 24 (ucast d)) =
   dec32 [a, b, c, d]" for a b c d :: byte
proof -
  have 1: "or (ucast a) (push_bit 8 (ucast b)) = (ucast a + push_bit 8 (ucast b) :: c_long)"
    by (rule disjunctive_add [symmetric]) (auto simp: bit_simps dest: bit_imp_le_length)
  have 2: "or (ucast a + push_bit 8 (ucast b)) (push_bit 16 (ucast c)) =
      (ucast a + push_bit 8 (ucast b) + push_bit 16 (ucast c) :: c_long)"
    unfolding 1 [symmetric]
    by (rule disjunctive_add [symmetric]) (auto simp: bit_simps dest: bit_imp_le_length)
  have 3: "or (ucast a + push_bit 8 (ucast b) + push_bit 16 (ucast c)) (push_bit 24 (ucast d)) =
      (ucast a + push_bit 8 (ucast b) + push_bit 16 (ucast c) + push_bit 24 (ucast d) :: c_long)"
    unfolding 2 [symmetric] unfolding 1 [symmetric]
    by (rule disjunctive_add [symmetric]) (auto simp: bit_simps dest: bit_imp_le_length)
  show ?thesis by (simp add: dec32_def 1 2 3)
qed

lemma words_of_nth: "i < length bs div 4 \<Longrightarrow>
  words_of bs ! i = dec32 [bs ! (4 * i), bs ! (4 * i + 1), bs ! (4 * i + 2), bs ! (4 * i + 3)]"
proof (induction bs arbitrary: i rule: words_of.induct)
  case (1 a b c d bs)
  show ?case
  proof (cases i)
    case (Suc j)
    then have "words_of bs ! j = dec32 [bs ! (4 * j), bs ! (4 * j + 1), bs ! (4 * j + 2), bs ! (4 * j + 3)]"
      using 1 by simp
    with Suc show ?thesis by (simp add: numeral_eq_Suc)
  qed simp
qed auto

lemma length_words_of [simp]: "length (words_of bs) = length bs div 4"
  by (induction bs rule: words_of.induct) auto

lemma Decode_words: "length bs = n \<Longrightarrow> Decode bs n = words_of bs"
  by (rule nth_equalityI) (simp_all add: Decode_def or_digits words_of_nth)

lemma MD5Transform_compress:
  assumes "length block = 64"
  shows "MD5Transform state block = md5_compress state block"
proof -
  define start where "start = (\<lambda>r. case r of Ra \<Rightarrow> state ! 0 | Rb \<Rightarrow> state ! 1 | Rc \<Rightarrow> state ! 2 | Rd \<Rightarrow> state ! 3)"
  define x where "x = words_of block"
  define r where "r = md5_round4 x (md5_round3 x (md5_round2 x (md5_round1 x start)))"
  have "md5_steps x (state ! 0, state ! 1, state ! 2, state ! 3) = view Ra Rb Rc Rd r"
    unfolding r_def rounds_steps by (simp add: view_def start_def)
  moreover have "MD5Transform state block = [state ! 0 + r Ra, state ! 1 + r Rb, state ! 2 + r Rc, state ! 3 + r Rd]"
    unfolding MD5Transform_def Decode_words [OF assms] Let_def r_def start_def x_def ..
  ultimately show ?thesis by (simp add: md5_compress_def view_def x_def [symmetric])
qed

lemma length_compress [simp]: "length (md5_compress st b) = 4"
  by (simp add: md5_compress_def split: prod.split)

section \<open>The update\<close>

text \<open>Whole blocks of a message, and what is left of it.\<close>

fun md5_absorb :: "c_long list \<Rightarrow> byte list \<Rightarrow> c_long list" where
  "md5_absorb st bs = (if length bs < 64 then st else md5_absorb (md5_compress st (take 64 bs)) (drop 64 bs))"

declare md5_absorb.simps [simp del]

lemma absorb_short [simp]: "length bs < 64 \<Longrightarrow> md5_absorb st bs = st"
  by (simp add: md5_absorb.simps)

lemma absorb_block: "length b = 64 \<Longrightarrow> md5_absorb st (b @ bs) = md5_absorb (md5_compress st b) bs"
  by (simp add: md5_absorb.simps [of st "b @ bs"])

lemma absorb_append:
  "64 dvd length xs \<Longrightarrow> md5_absorb st (xs @ ys) = md5_absorb (md5_absorb st xs) ys"
proof (induction st xs rule: md5_absorb.induct)
  case (1 st xs)
  show ?case
  proof (cases "length xs < 64")
    case True
    then have "xs = []" using 1(2) by (auto simp: dvd_def)
    then show ?thesis by simp
  next
    case False
    then have "64 dvd length (drop 64 xs)" using 1(2) by (simp add: dvd_diff_nat)
    with 1(1) False have IH: "md5_absorb (md5_compress st (take 64 xs)) (drop 64 xs @ ys) =
        md5_absorb (md5_absorb (md5_compress st (take 64 xs)) (drop 64 xs)) ys" by blast
    show ?thesis using False
      by (simp add: md5_absorb.simps [of st "xs @ ys"] md5_absorb.simps [of st xs] IH)
  qed
qed

text \<open>
  The context has taken in the message \<open>xs\<close>: the state is that of its whole blocks, the buffer
  begins with the rest, and the two counters hold its length in bits modulo \<open>2\<^sup>6\<^sup>4\<close>.
\<close>

definition rest_of :: "byte list \<Rightarrow> byte list" where
  "rest_of xs = drop (length xs - length xs mod 64) xs"

definition absorbed :: "c_long list \<Rightarrow> byte list \<Rightarrow> md5ctx \<Rightarrow> bool" where
  "absorbed iv xs context \<longleftrightarrow>
     md5_state context = md5_absorb iv xs \<and>
     length (md5_buffer context) = 64 \<and> take (length xs mod 64) (md5_buffer context) = rest_of xs \<and>
     unat (md5_count0 context) = 8 * length xs mod 2 ^ 32 \<and>
     unat (md5_count1 context) = 8 * length xs div 2 ^ 32 mod 2 ^ 32"

lemma blocks_and_rest:
  obtains full where "xs = full @ rest_of xs" "64 dvd length full" "length (rest_of xs) = length xs mod 64"
proof
  show "xs = take (length xs - length xs mod 64) xs @ rest_of xs" by (simp add: rest_of_def)
  show "64 dvd length (take (length xs - length xs mod 64) xs)" by (simp add: dvd_minus_mod min.absorb2)
  show "length (rest_of xs) = length xs mod 64" by (simp add: rest_of_def)
qed

lemma rest_of_unique: "64 dvd length full \<Longrightarrow> length r < 64 \<Longrightarrow> rest_of (full @ r) = r"
  by (auto simp: rest_of_def dvd_def)

lemma absorbed_Init:
  "length (md5_buffer context) = 64 \<Longrightarrow> absorbed [p1, p2, p3, p4] [] (MD5Init context p1 p2 p3 p4)"
  by (simp add: absorbed_def MD5Init_def rest_of_def)

lemma unat_index: "unat (and (drop_bit 3 c) 0x3F :: c_long) = unat c div 8 mod 64"
proof -
  have "(0x3F :: c_long) = mask 6" by (simp add: mask_eq_exp_minus_1)
  then have eq: "and (drop_bit 3 c) 0x3F = take_bit 6 (drop_bit 3 c)" by (simp only: take_bit_eq_mask)
  show ?thesis
    unfolding eq unsigned_take_bit_eq unat_drop_bit_div by (simp add: take_bit_eq_mod)
qed

lemma carry_div:
  assumes "0 < (m :: nat)"
  shows "(x + y) div m = x div m + y div m + (if m \<le> x mod m + y mod m then 1 else 0)"
proof -
  have "x mod m + y mod m < m + m" using assms by (simp add: add_strict_mono)
  then have "(x mod m + y mod m) div m = (if m \<le> x mod m + y mod m then 1 else 0)"
    by (auto simp: div_if)
  then show ?thesis by (simp add: div_add1_eq [of x y])
qed

lemma wraps_iff:
  assumes "(a :: nat) < m" "b < m"
  shows "(a + b) mod m < b \<longleftrightarrow> m \<le> a + b"
  using assms by (auto simp: mod_if)

text \<open>The two counters as one number, for any width.\<close>

lemma two_digit_count:
  assumes "a = x mod m" "b = x div m mod m" "0 < (m :: nat)"
  shows "(a + y mod m) mod m = (x + y) mod m"
    "((if (a + y mod m) mod m < y mod m then b + 1 else b) + y div m) mod m = (x + y) div m mod m"
proof -
  show "(a + y mod m) mod m = (x + y) mod m" by (simp add: assms mod_simps)
  have "(a + y mod m) mod m < y mod m \<longleftrightarrow> m \<le> x mod m + y mod m"
    using wraps_iff [of a m "y mod m"] assms by simp
  moreover have "(x + y) div m mod m =
      (x div m mod m + y div m + (if m \<le> x mod m + y mod m then 1 else 0)) mod m"
    unfolding carry_div [OF assms(3), of x y] add.assoc by (rule mod_add_left_eq [symmetric])
  ultimately show "((if (a + y mod m) mod m < y mod m then b + 1 else b) + y div m) mod m = (x + y) div m mod m"
    by (simp add: assms ac_simps)
qed

lemma count_bits_counts:
  assumes "unat (md5_count0 context) = 8 * l mod 2 ^ 32" "unat (md5_count1 context) = 8 * l div 2 ^ 32 mod 2 ^ 32"
  shows "unat (md5_count0 (count_bits n context)) = 8 * (l + unat n) mod 2 ^ 32"
    "unat (md5_count1 (count_bits n context)) = 8 * (l + unat n) div 2 ^ 32 mod 2 ^ 32"
proof -
  have p: "unat (push_bit 3 n) = 8 * unat n mod 2 ^ 32" by (simp add: unat_push_bit_mult mult.commute)
  have d: "unat (drop_bit 29 n) = 8 * unat n div 2 ^ 32" by (simp add: unat_drop_bit_div)
  have sum: "unat (md5_count0 context + push_bit 3 n) =
      (unat (md5_count0 context) + 8 * unat n mod 2 ^ 32) mod 2 ^ 32"
    by (simp only: unat_word_ariths p) simp
  note t = two_digit_count [OF assms, of "8 * unat n", simplified]
  show "unat (md5_count0 (count_bits n context)) = 8 * (l + unat n) mod 2 ^ 32"
    using sum t(1) by (simp add: count_bits_def Let_def distrib_left)
  have "unat (md5_count1 (count_bits n context)) =
      ((if md5_count0 context + push_bit 3 n < push_bit 3 n then unat (md5_count1 context) + 1
        else unat (md5_count1 context)) + 8 * unat n div 2 ^ 32) mod 2 ^ 32"
    by (simp add: count_bits_def Let_def unat_word_ariths d mod_simps)
  then show "unat (md5_count1 (count_bits n context)) = 8 * (l + unat n) div 2 ^ 32 mod 2 ^ 32"
    using t(2) by (simp add: word_less_nat_alt sum p distrib_left)
qed

lemma update_blocks_absorbs:
  assumes "unat n \<le> length input" "unat n + 64 \<le> 2 ^ 32" "unat i \<le> unat n"
  shows "\<exists>w. update_blocks input n i st = Some (w, md5_absorb st (drop (unat i) (take (unat n) input))) \<and>
    unat w = unat n - (unat n - unat i) mod 64"
  using assms
proof (induction "unat n - unat i" arbitrary: i st rule: less_induct)
  case less
  have s: "unat (i + 63) = unat i + 63" "unat i + 64 \<le> unat n \<Longrightarrow> unat (i + 64) = unat i + 64"
    using less.prems by (simp_all add: unat_word_ariths)
  show ?case
  proof (cases "unat i + 64 \<le> unat n")
    case False
    then have "\<not> i + 63 < n" by (simp add: word_less_nat_alt s)
    moreover have "unat n - unat i < 64" using False by linarith
    ultimately show ?thesis using less.prems
      by (subst update_blocks.simps) (simp add: mod_less)
  next
    case True
    then have go: "i + 63 < n" by (simp add: word_less_nat_alt s)
    have f: "fetch input (unat i) 64 = Some (take 64 (drop (unat i) (take (unat n) input)))"
      using True less.prems by (simp add: fetch_def take_drop)
    have len: "length (take 64 (drop (unat i) (take (unat n) input))) = 64"
      using True less.prems by simp
    have "unat n - unat (i + 64) < unat n - unat i" "unat (i + 64) \<le> unat n"
      using True s(2) by auto
    from less.hyps [OF this(1) less.prems(1,2) this(2)] obtain w where
      w: "update_blocks input n (i + 64) (md5_compress st (take 64 (drop (unat i) (take (unat n) input)))) =
        Some (w, md5_absorb (md5_compress st (take 64 (drop (unat i) (take (unat n) input))))
          (drop (unat (i + 64)) (take (unat n) input)))"
        "unat w = unat n - (unat n - unat (i + 64)) mod 64" by blast
    have "md5_absorb st (drop (unat i) (take (unat n) input)) =
        md5_absorb (md5_compress st (take 64 (drop (unat i) (take (unat n) input))))
          (drop (unat (i + 64)) (take (unat n) input))"
      using absorb_block [OF len, of st "drop 64 (drop (unat i) (take (unat n) input))",
          unfolded append_take_drop_id]
      by (simp add: s(2) [OF True] add.commute)
    moreover have "(unat n - unat (i + 64)) mod 64 = (unat n - unat i) mod 64"
      using True s(2) [OF True] by (simp add: le_mod_geq [of 64 "unat n - unat i"])
    ultimately show ?thesis
      using w by (subst update_blocks.simps) (simp add: go f MD5Transform_compress [OF len])
  qed
qed


lemma unat_64_minus: "unat index < 64 \<Longrightarrow> unat (64 - index :: c_long) = 64 - unat index"
  by (simp add: unat_sub word_le_nat_alt)

lemma MemCpy_some:
  "unat j + unat n \<le> length input \<Longrightarrow> unat i + unat n \<le> length output \<Longrightarrow>
   MD5MemCpy output i input j n = Some (take (unat i) output @ take (unat n) (drop (unat j) input) @
     drop (unat i + unat n) output)"
  by (simp add: MD5MemCpy_def block_simps)

lemma count_index: "8 * l mod 2 ^ 32 div 8 mod 64 = (l :: nat) mod 64"
proof -
  have "8 * l mod 2 ^ 32 = 8 * (l mod 2 ^ 29)" by (simp add: mult_mod_right)
  then have "8 * l mod 2 ^ 32 div 8 mod 64 = l mod 2 ^ 29 mod 64" by simp
  also have "\<dots> = l mod 64" by (rule mod_mod_cancel) simp
  finally show ?thesis .
qed

text \<open>What a context must be after the update, when the message is split at whole blocks.\<close>

lemma absorbedI:
  assumes "zs = full @ r" "64 dvd length full" "length r < 64" "md5_state c = md5_absorb iv full"
    "length (md5_buffer c) = 64" "take (length r) (md5_buffer c) = r"
    "unat (md5_count0 c) = 8 * length zs mod 2 ^ 32" "unat (md5_count1 c) = 8 * length zs div 2 ^ 32 mod 2 ^ 32"
  shows "absorbed iv zs c"
proof -
  have "length zs mod 64 = length r" using assms(1-3) by (auto simp: dvd_def)
  then show ?thesis
    using assms by (simp add: absorbed_def rest_of_unique absorb_append)
qed

lemma absorbedE:
  assumes "absorbed iv xs c"
  obtains full r where "xs = full @ r" "64 dvd length full" "length r < 64" "md5_state c = md5_absorb iv full"
    "length (md5_buffer c) = 64" "take (length r) (md5_buffer c) = r"
    "unat (and (drop_bit 3 (md5_count0 c)) 0x3F) = length r"
    "unat (md5_count0 c) = 8 * length xs mod 2 ^ 32" "unat (md5_count1 c) = 8 * length xs div 2 ^ 32 mod 2 ^ 32"
proof -
  obtain full where full: "xs = full @ rest_of xs" "64 dvd length full" "length (rest_of xs) = length xs mod 64"
    by (rule blocks_and_rest)
  define r where "r = rest_of xs"
  have xs: "xs = full @ r" and r: "length r = length xs mod 64" using full(1,3) by (simp_all add: r_def)
  have absorb: "md5_absorb iv xs = md5_absorb iv full"
    unfolding xs by (simp add: absorb_append full(2) r)
  have index: "unat (and (drop_bit 3 (md5_count0 c)) 0x3F) = length r"
    using assms unfolding absorbed_def unat_index r by (simp only: count_index)
  show ?thesis
    by (rule that [OF xs full(2) _ _ _ _ index])
      (use assms absorb r in \<open>simp_all add: absorbed_def r_def\<close>)
qed

text \<open>
  The update takes in the first \<open>n\<close> bytes of its input, whatever the context has taken in before;
  it returns for every input up to 64 bytes below four gigabytes.
\<close>

lemma update_short:
  assumes abs: "absorbed iv xs context" and len: "unat n \<le> length input"
    and short: "\<not> 64 - and (drop_bit 3 (md5_count0 context)) 0x3F \<le> n"
  shows "\<exists>context'. MD5Update context input n = Some context' \<and> absorbed iv (xs @ take (unat n) input) context'"
proof -
  define ys where "ys = take (unat n) input"
  define index where "index = and (drop_bit 3 (md5_count0 context)) 0x3F"
  obtain full r where c: "xs = full @ r" "64 dvd length full" "length r < 64" "md5_state context = md5_absorb iv full"
    "length (md5_buffer context) = 64" "take (length r) (md5_buffer context) = r" "unat index = length r"
    "unat (md5_count0 context) = 8 * length xs mod 2 ^ 32"
    "unat (md5_count1 context) = 8 * length xs div 2 ^ 32 mod 2 ^ 32"
    using absorbedE [OF abs, folded index_def] by metis
  have fits: "length r + unat n < 64"
    using short c(3,7) by (simp add: index_def [symmetric] word_le_nat_alt unat_64_minus)
  define context' where "context' = (count_bits n context)
    \<lparr>md5_buffer := r @ ys @ drop (length r + unat n) (md5_buffer context)\<rparr>"
  have keep: "md5_buffer (count_bits n context) = md5_buffer context"
    "md5_state (count_bits n context) = md5_state context"
    by (simp_all add: count_bits_def Let_def)
  have "MD5Update context input n = Some context'"
    using short fits len c(3,5-7)
    by (simp add: MD5Update_def Let_def index_def [symmetric] MemCpy_some keep context'_def ys_def)
  moreover have "absorbed iv (xs @ ys) context'"
  proof (rule absorbedI [where full = full and r = "r @ ys"])
    show "length (r @ ys) < 64" using fits len by (simp add: ys_def)
    then show "take (length (r @ ys)) (md5_buffer context') = r @ ys" "length (md5_buffer context') = 64"
      using c(3,5) len fits by (simp_all add: context'_def ys_def)
    show "unat (md5_count0 context') = 8 * length (xs @ ys) mod 2 ^ 32"
      "unat (md5_count1 context') = 8 * length (xs @ ys) div 2 ^ 32 mod 2 ^ 32"
      using count_bits_counts [OF c(8,9), of n] len by (simp_all add: context'_def ys_def min.absorb2)
  qed (simp_all add: c(1,2,4) context'_def keep)
  ultimately show ?thesis by (auto simp: ys_def)
qed

lemma update_long:
  assumes abs: "absorbed iv xs context" and len: "unat n \<le> length input" "unat n + 64 \<le> 2 ^ 32"
    and long: "64 - and (drop_bit 3 (md5_count0 context)) 0x3F \<le> n"
  shows "\<exists>context'. MD5Update context input n = Some context' \<and> absorbed iv (xs @ take (unat n) input) context'"
proof -
  define ys where "ys = take (unat n) input"
  define index where "index = and (drop_bit 3 (md5_count0 context)) 0x3F"
  obtain full r where c: "xs = full @ r" "64 dvd length full" "length r < 64" "md5_state context = md5_absorb iv full"
    "length (md5_buffer context) = 64" "take (length r) (md5_buffer context) = r" "unat index = length r"
    "unat (md5_count0 context) = 8 * length xs mod 2 ^ 32"
    "unat (md5_count1 context) = 8 * length xs div 2 ^ 32 mod 2 ^ 32"
    using absorbedE [OF abs, folded index_def] by metis
  have p: "unat (64 - index) = 64 - length r" using c(3,7) by (simp add: unat_64_minus)
  have enough: "64 - length r \<le> unat n" using long p by (simp add: index_def [symmetric] word_le_nat_alt)
  define b where "b = r @ take (64 - length r) ys"
  have b: "length b = 64" using enough len c(3) by (simp add: b_def ys_def)
  have keep: "md5_buffer (count_bits n context) = md5_buffer context"
    "md5_state (count_bits n context) = md5_state context"
    by (simp_all add: count_bits_def Let_def)
  have copy1: "MD5MemCpy (md5_buffer (count_bits n context)) index input 0 (64 - index) = Some b"
    using c(3,5-7) p len enough by (simp add: MemCpy_some keep b_def ys_def)
  define st where "st = md5_absorb (md5_compress (md5_state context) b) (drop (64 - length r) ys)"
  define q where "q = (unat n - (64 - length r)) mod 64"
  obtain w where w: "update_blocks input n (64 - index) (MD5Transform (md5_state context) b) = Some (w, st)"
    "unat w = unat n - q"
    using update_blocks_absorbs [OF len, of "64 - index" "MD5Transform (md5_state context) b"] p enough
    by (auto simp: MD5Transform_compress [OF b] st_def ys_def q_def)
  have "q \<le> unat n - (64 - length r)" unfolding q_def by (rule mod_less_eq_dividend)
  then have q: "q < 64" "q \<le> unat n" by (simp_all add: q_def)
  then have wn: "unat (n - w) = q" using w(2) by (simp add: unat_sub word_le_nat_alt)
  define context' where "context' = (count_bits n context)
    \<lparr>md5_state := st, md5_buffer := drop (unat n - q) ys @ drop q b\<rparr>"
  have copy2: "MD5MemCpy b 0 input w (n - w) = Some (drop (unat n - q) ys @ drop q b)"
    using q w(2) wn len b by (simp add: MemCpy_some ys_def drop_take)
  have "MD5Update context input n = Some context'"
    using long by (simp add: MD5Update_def Let_def index_def [symmetric] copy1 [unfolded keep] keep w(1) copy2 context'_def)
  moreover have "absorbed iv (xs @ ys) context'"
  proof (rule absorbedI [where full = "full @ b @ take (unat n - (64 - length r) - q) (drop (64 - length r) ys)"
        and r = "drop (unat n - q) ys"])
    have lys: "length ys = unat n" using len by (simp add: ys_def)
    have split: "drop (64 - length r) ys =
        take (unat n - (64 - length r) - q) (drop (64 - length r) ys) @ drop (unat n - q) ys"
      using \<open>q \<le> unat n - (64 - length r)\<close> enough
        append_take_drop_id [of "unat n - (64 - length r) - q" "drop (64 - length r) ys"]
      by (simp add: add.commute)
    have blocks: "64 dvd unat n - (64 - length r) - q" unfolding q_def by (rule dvd_minus_mod)
    show "xs @ ys = (full @ b @ take (unat n - (64 - length r) - q) (drop (64 - length r) ys)) @ drop (unat n - q) ys"
      using split append_take_drop_id [of "64 - length r" ys] by (simp add: c(1) b_def)
    show "64 dvd length (full @ b @ take (unat n - (64 - length r) - q) (drop (64 - length r) ys))"
      using blocks c(2) b lys by simp
    show "length (drop (unat n - q) ys) < 64" using q lys by simp
    then have "md5_absorb st' (drop (64 - length r) ys) =
        md5_absorb st' (take (unat n - (64 - length r) - q) (drop (64 - length r) ys))" for st'
      using absorb_append [of "take (unat n - (64 - length r) - q) (drop (64 - length r) ys)" st' "drop (unat n - q) ys"]
        blocks lys unfolding split [symmetric] by simp
    then show "md5_state context' =
        md5_absorb iv (full @ b @ take (unat n - (64 - length r) - q) (drop (64 - length r) ys))"
      by (simp add: context'_def st_def c(4) absorb_append [OF c(2)] absorb_block [OF b])
    show "length (md5_buffer context') = 64" "take (length (drop (unat n - q) ys)) (md5_buffer context') = drop (unat n - q) ys"
      using b q lys by (simp_all add: context'_def)
    show "unat (md5_count0 context') = 8 * length (xs @ ys) mod 2 ^ 32"
      "unat (md5_count1 context') = 8 * length (xs @ ys) div 2 ^ 32 mod 2 ^ 32"
      using count_bits_counts [OF c(8,9), of n] lys by (simp_all add: context'_def)
  qed
  ultimately show ?thesis by (auto simp: ys_def)
qed

lemma MD5Update_absorbs:
  assumes "absorbed iv xs context" "unat n \<le> length input" "unat n + 64 \<le> 2 ^ 32"
  shows "\<exists>context'. MD5Update context input n = Some context' \<and> absorbed iv (xs @ take (unat n) input) context'"
  using update_short [OF assms(1,2)] update_long [OF assms] by blast

section \<open>The digest\<close>

text \<open>The message padded as RFC 1321 demands, and its digest as sixteen bytes.\<close>

definition md5_pad :: "byte list \<Rightarrow> byte list" where
  "md5_pad xs = xs @ 0x80 # replicate ((119 - length xs mod 64) mod 64) 0 @
     enc32 (of_nat (8 * length xs)) @ enc32 (of_nat (8 * length xs div 2 ^ 32))"

definition md5_digest :: "c_long list \<Rightarrow> byte list \<Rightarrow> byte list" where
  "md5_digest iv xs = concat (map enc32 (md5_absorb iv (md5_pad xs)))"

definition md5_text :: "c_long list \<Rightarrow> byte list \<Rightarrow> byte list" where
  "md5_text iv xs = concat (map hex2 (md5_digest iv xs))"

lemma Encode_enc32: "Encode ws = concat (map enc32 ws)"
proof -
  have "ucast (and v 0xff :: c_long) = (ucast v :: byte)" for v
  proof -
    have "(0xff :: c_long) = mask 8" by (simp add: mask_eq_exp_minus_1)
    then have low: "and v 0xff = take_bit 8 v" by (simp only: take_bit_eq_mask)
    show ?thesis unfolding low by (rule bit_word_eqI) (simp add: bit_simps)
  qed
  then show ?thesis by (simp add: Encode_def enc32_def [abs_def])
qed

lemma length_digest [simp]: "length iv = 4 \<Longrightarrow> length (md5_absorb iv xs) = 4"
  by (induction iv xs rule: md5_absorb.induct) (subst md5_absorb.simps, simp)

lemma length_md5_digest [simp]: "length iv = 4 \<Longrightarrow> length (md5_digest iv xs) = 16"
  by (simp add: md5_digest_def length_concat o_def sum_list_triv)

lemma length_concat_hex2 [simp]: "length (concat (map hex2 bs)) = 2 * length bs"
  by (induction bs) (simp_all add: hex2_def)

lemma length_md5_text [simp]: "length iv = 4 \<Longrightarrow> length (md5_text iv xs) = 32"
  by (simp add: md5_text_def)

lemma pad_amount: "(119 - l) mod 64 = (if l < 56 then 55 - l else 119 - l)" if "l < 64" for l :: nat
proof (cases "l < 56")
  case True
  then have "119 - l = 64 + (55 - l)" by simp
  then have "(119 - l) mod 64 = (55 - l) mod 64" by (simp only: mod_add_self1)
  then show ?thesis using True by simp
qed (use that in simp)

lemma length_pad: "64 dvd length (md5_pad xs)"
proof -
  define q l where "q = length xs div 64" and "l = length xs mod 64"
  have l: "l < 64" "length xs = 64 * q + l" by (simp_all add: q_def l_def)
  have "length (md5_pad xs) = length xs + (119 - l) mod 64 + 9"
    by (simp add: md5_pad_def l_def)
  also have "\<dots> = 64 * (if l < 56 then q + 1 else q + 2)"
    unfolding pad_amount [OF l(1)] using l by simp
  finally show ?thesis by simp
qed

lemma word_of_count: "unat w = k mod 2 ^ 32 \<Longrightarrow> w = (of_nat k :: c_long)"
  by (rule unsigned_word_eqI [where ?'a = nat]) (simp add: unsigned_of_nat take_bit_eq_mod)

lemma MD5Final_digests:
  assumes abs: "absorbed iv xs context"
  shows "\<exists>context'. MD5Final context = Some (md5_digest iv xs, context')"
proof -
  define index where "index = and (drop_bit 3 (md5_count0 context)) 0x3F"
  define padLen where "padLen = (if index < 56 then 56 - index else 120 - index)"
  have index: "unat index = length xs mod 64"
    using abs by (simp add: index_def absorbed_def unat_index count_index del: power_numeral)
  have lt: "length xs mod 64 < 64" by simp
  have pad: "unat padLen = Suc ((119 - length xs mod 64) mod 64)"
    unfolding pad_amount [OF lt] using lt
    by (simp add: padLen_def word_less_nat_alt unat_sub word_le_nat_alt index) linarith
  then have "unat padLen \<le> length PADDING" "unat padLen + 64 \<le> 2 ^ 32"
    using mod_less_divisor [of 64 "119 - length xs mod 64"] by (simp_all add: PADDING_def Suc_le_eq)
  from MD5Update_absorbs [OF abs this] obtain c1 where
    c1: "MD5Update context PADDING padLen = Some c1" "absorbed iv (xs @ take (unat padLen) PADDING) c1" by blast
  define bits where "bits = Encode [md5_count0 context, md5_count1 context]"
  have "length bits = 8" by (simp add: bits_def Encode_enc32)
  then obtain c2 where c2: "MD5Update c1 bits 8 = Some c2"
      "absorbed iv ((xs @ take (unat padLen) PADDING) @ take (unat (8 :: c_long)) bits) c2"
    using MD5Update_absorbs [OF c1(2), of 8 bits] by auto
  have counters: "md5_count0 context = of_nat (8 * length xs)" "md5_count1 context = of_nat (8 * length xs div 2 ^ 32)"
    using abs unfolding absorbed_def by (blast intro: word_of_count)+
  have "xs @ take (unat padLen) PADDING @ bits = md5_pad xs"
    using mod_less_divisor [of 64 "119 - length xs mod 64"]
    by (simp add: md5_pad_def PADDING_def pad bits_def Encode_enc32 counters min_def less_Suc_eq_le)
  then have "absorbed iv (md5_pad xs) c2" using c2(2) \<open>length bits = 8\<close> by simp
  then have "Encode (md5_state c2) = md5_digest iv xs"
    by (simp add: absorbed_def md5_digest_def Encode_enc32)
  then show ?thesis
    using c1(1) c2(1) by (simp add: MD5Final_def Let_def index_def [symmetric] padLen_def [symmetric] bits_def [symmetric])
qed

lemma print_digits_text:
  "pos + 2 * length bs < length out \<Longrightarrow>
   \<exists>out'. print_digits bs pos out = Some out' \<and> length out' = length out \<and>
     take (pos + 2 * length bs) out' = take pos out @ concat (map hex2 bs)"
proof (induction bs arbitrary: pos out)
  case (Cons b bs)
  have l: "length (hex2 b) = 2" by (simp add: hex2_def)
  define out1 where "out1 = take pos out @ (hex2 b @ [0]) @ drop (pos + 3) out"
  have out1: "poke out pos (hex2 b @ [0]) = Some out1" "length out1 = length out"
    "take (pos + 2) out1 = take pos out @ hex2 b"
    using Cons.prems l by (simp_all add: poke_def out1_def)
  then show ?case using Cons.IH [of "pos + 2" out1] Cons.prems by (auto simp: l)
qed simp

definition md5_params :: "bool \<Rightarrow> c_long list \<Rightarrow> c_long list" where
  "md5_params given params = (if given then params else [0x67452301, 0xEFCDAB89, 0x98BADCFE, 0x10325476])"

lemma MD5_digests:
  assumes "unat nSize \<le> length src" "unat nSize + 64 \<le> 2 ^ 32" "32 \<le> length target"
    "length (md5_buffer junk_ctx) = 64" "length params = 4"
  shows "MD5 fresh junk_ctx src target nSize given params =
    Some (True, md5_text (md5_params given params) (take (unat nSize) src) @ drop 32 target, md5_params given params)"
proof -
  define ps where "ps = md5_params given params"
  have ps: "length ps = 4" using assms(5) by (simp add: ps_def md5_params_def)
  then have list: "ps = [ps ! 0, ps ! 1, ps ! 2, ps ! 3]" by (auto simp: numeral_eq_Suc length_Suc_conv)
  have "absorbed ps [] (MD5Init junk_ctx (ps ! 0) (ps ! 1) (ps ! 2) (ps ! 3))"
    by (subst list) (rule absorbed_Init [OF assms(4)])
  from MD5Update_absorbs [OF this assms(1,2)] obtain c1 where
    c1: "MD5Update (MD5Init junk_ctx (ps ! 0) (ps ! 1) (ps ! 2) (ps ! 3)) src nSize = Some c1"
      "absorbed ps (take (unat nSize) src) c1" by auto
  obtain c2 where c2: "MD5Final c1 = Some (md5_digest ps (take (unat nSize) src), c2)"
    using MD5Final_digests [OF c1(2)] by blast
  obtain res where res: "MD5Print (md5_digest ps (take (unat nSize) src)) (new_bytes fresh 37) = Some res"
      "length res = 37" "take 32 res = md5_text ps (take (unat nSize) src)"
    using print_digits_text [of 0 "md5_digest ps (take (unat nSize) src)" "new_bytes fresh 37"] ps
    by (auto simp: MD5Print_def md5_text_def)
  have f: "fetch res 0 32 = Some (md5_text ps (take (unat nSize) src))" using res by (simp add: fetch_def)
  have sel: "(if \<not> given then [0x67452301, 0xEFCDAB89, 0x98BADCFE, 0x10325476] else params) = ps"
    by (simp add: ps_def md5_params_def)
  show ?thesis
    unfolding MD5_def Let_def ps_def [symmetric] sel c1(1)
    using assms(3) ps by (simp add: c2 res f poke_def)
qed

text \<open>Evaluation of the steps on numbers.\<close>

lemma md5_rot_simp: "md5_rot f x s k (a, b, c, d) = (d, ROTATE_LEFT (a + (f b c d + x + k)) s + b, b, c)"
  by (simp add: md5_rot_def)

lemmas md5_eval = md5_tables md5_rot_simp md5_F_def md5_G_def md5_H_def md5_I_def ROTATE_LEFT_def

section \<open>Properties\<close>

fun updates :: "md5ctx \<Rightarrow> byte list list \<Rightarrow> md5ctx option" where
  "updates context [] = Some context"
| "updates context (xs # xss) = do {
     context \<leftarrow> MD5Update context xs (of_nat (length xs));
     updates context xss
   }"

lemma updates_absorb:
  assumes "absorbed iv xs c" "list_all (\<lambda>ys. length ys + 64 \<le> 2 ^ 32) yss"
  shows "\<exists>c'. updates c yss = Some c' \<and> absorbed iv (xs @ concat yss) c'"
  using assms
proof (induction yss arbitrary: xs c)
  case (Cons ys yss)
  have n: "unat (of_nat (length ys) :: c_long) = length ys"
    using Cons.prems(2) by (simp add: unsigned_of_nat take_bit_eq_mod)
  obtain c1 where "MD5Update c ys (of_nat (length ys)) = Some c1" "absorbed iv (xs @ ys) c1"
    using MD5Update_absorbs [OF Cons.prems(1), of "of_nat (length ys)" ys] Cons.prems(2) unfolding n by auto
  moreover obtain c2 where "updates c1 yss = Some c2" "absorbed iv ((xs @ ys) @ concat yss) c2"
    using Cons.IH [OF calculation(2)] Cons.prems(2) by auto
  ultimately show ?case by simp
qed simp

text \<open>
  However a message is cut into pieces, the digest of the context that took them in is that of
  the message.
\<close>

lemma md5_streams:
  assumes "list_all (\<lambda>ys. length ys + 64 \<le> 2 ^ 32) yss" "length (md5_buffer context) = 64"
  shows "\<exists>c c'. updates (MD5Init context p1 p2 p3 p4) yss = Some c \<and>
    MD5Final c = Some (md5_digest [p1, p2, p3, p4] (concat yss), c')"
proof -
  obtain c where "updates (MD5Init context p1 p2 p3 p4) yss = Some c" "absorbed [p1, p2, p3, p4] (concat yss) c"
    using updates_absorb [OF absorbed_Init [OF assms(2), of p1 p2 p3 p4] assms(1)] by auto
  then show ?thesis using MD5Final_digests by blast
qed

lemma one_block:
  assumes "length (md5_pad xs) = 64" "words_of (md5_pad xs) = w" "md5_steps w (a, b, c, d) = (a', b', c', d')"
  shows "md5_digest [a, b, c, d] xs = enc32 (a + a') @ enc32 (b + b') @ enc32 (c + c') @ enc32 (d + d')"
  using absorb_block [OF assms(1), of "[a, b, c, d]" "[]"] assms(2,3)
  by (simp add: md5_digest_def md5_compress_def)

text \<open>The digests of the empty message and of \<open>abc\<close>, from the test suite of RFC 1321.\<close>

definition ascii :: "string \<Rightarrow> byte list" where
  "ascii = map of_char"

lemma steps_empty:
  "md5_steps [0x80,0,0,0,0,0,0,0,0,0,0,0,0,0,0,0] (0x67452301, 0xEFCDAB89, 0x98BADCFE, 0x10325476) =
     (0xd98c1dd4 - 0x67452301, 0x04b2008f - 0xEFCDAB89, 0x980980e9 - 0x98BADCFE, 0x7e42f8ec - 0x10325476)"
  unfolding steps_split steps_of_rounds by (simp add: md5_eval)

lemma steps_abc:
  "md5_steps [0x80636261,0,0,0,0,0,0,0,0,0,0,0,0,0,24,0] (0x67452301, 0xEFCDAB89, 0x98BADCFE, 0x10325476) =
     (0x98500190 - 0x67452301, 0xb04fd23c - 0xEFCDAB89, 0x7d3f96d6 - 0x98BADCFE, 0x727fe128 - 0x10325476)"
  unfolding steps_split steps_of_rounds by (simp add: md5_eval)

lemma test_suite:
  "md5_text (md5_params False []) [] = ascii ''D41D8CD98F00B204E9800998ECF8427E''"
  "md5_text (md5_params False []) (ascii ''abc'') = ascii ''900150983CD24FB0D6963F7D28E17F72''"
proof -
  have z: "replicate 55 (0 :: byte) = replicate 7 0 @ concat (replicate 12 [0, 0, 0, 0])"
    "replicate 52 (0 :: byte) = replicate 4 0 @ concat (replicate 12 [0, 0, 0, 0])"
    by (simp_all add: numeral_eq_Suc)
  have w: "words_of (md5_pad []) = [0x80,0,0,0,0,0,0,0,0,0,0,0,0,0,0,0]"
    "words_of (md5_pad (ascii ''abc'')) = [0x80636261,0,0,0,0,0,0,0,0,0,0,0,0,0,24,0]"
    by (simp_all add: md5_pad_def enc32_def ascii_def z) (simp_all add: numeral_eq_Suc, simp_all add: dec32_def)
  have l: "length (md5_pad []) = 64" "length (md5_pad (ascii ''abc'')) = 64"
    by (simp_all add: md5_pad_def ascii_def)
  show "md5_text (md5_params False []) [] = ascii ''D41D8CD98F00B204E9800998ECF8427E''"
    "md5_text (md5_params False []) (ascii ''abc'') = ascii ''900150983CD24FB0D6963F7D28E17F72''"
    using one_block [OF l(1) w(1) steps_empty] one_block [OF l(2) w(2) steps_abc]
    by (simp_all add: md5_params_def md5_text_def ascii_def enc32_def hex2_def hex_digit_def)
qed

text \<open>
  C14: \<open>MD5\<close> writes the 32 hexadecimal digits of the digest of RFC 1321: the 64 numbered steps, over
  the padded message, from the standard start values or the caller's own.  It returns for every
  source up to 64 bytes below four gigabytes, and what the local variables held does not matter.
\<close>

theorem md5_is_rfc1321:
  assumes "unat nSize \<le> length src" "unat nSize + 64 \<le> 2 ^ 32" "32 \<le> length target"
    "length (md5_buffer junk_ctx) = 64" "length params = 4"
  shows "MD5 fresh junk_ctx src target nSize given params =
    Some (True, md5_text (md5_params given params) (take (unat nSize) src) @ drop 32 target, md5_params given params)"
  using assms by (rule MD5_digests)

definition unset_ctx :: md5ctx where
  "unset_ctx = \<lparr>md5_state = replicate 4 7, md5_count0 = 7, md5_count1 = 7, md5_buffer = replicate 64 7\<rparr>"

theorem md5_is_rfc1321_witness:
  "MD5 (\<lambda>_. 9) unset_ctx (ascii ''abc'') (replicate 32 0) 3 False [0, 0, 0, 0] =
     Some (True, ascii ''900150983CD24FB0D6963F7D28E17F72'', [0x67452301, 0xEFCDAB89, 0x98BADCFE, 0x10325476]) \<and>
   MD5 (\<lambda>_. 9) unset_ctx [] (replicate 33 1) 0 False [0, 0, 0, 0] =
     Some (True, ascii ''D41D8CD98F00B204E9800998ECF8427E'' @ [1], [0x67452301, 0xEFCDAB89, 0x98BADCFE, 0x10325476])"
  using md5_is_rfc1321 [of 3 "ascii ''abc''" "replicate 32 0" unset_ctx "[0, 0, 0, 0]" "\<lambda>_. 9" False]
    md5_is_rfc1321 [of 0 "[]" "replicate 33 1" unset_ctx "[0, 0, 0, 0]" "\<lambda>_. 9" False] test_suite
  by (simp_all add: unset_ctx_def md5_params_def) (simp_all add: ascii_def)

end
