(* ===== verification/Md5Files.thy ===== *)
theory Md5Files
  imports Md5
begin

text \<open>
  Digests of memory and of files, \<open>net_libs/libbase/export/md5/MD5lqUtils.cpp\<close>: the input is cut
  into blocks of ten megabytes, and the digest of each block is hashed together with the digest
  so far.  \<open>fresh\<close> and \<open>junk_ctx\<close> are the unset local variables of \<open>MD5\<close>.
\<close>

section \<open>The code\<close>

definition BLOCK_SIZE :: c_long where "BLOCK_SIZE = 10 * 1024 * 1024"

definition GetMD5 ::
  "(nat \<Rightarrow> byte) \<Rightarrow> md5ctx \<Rightarrow> byte list \<Rightarrow> c_long \<Rightarrow> byte list \<Rightarrow> (bool \<times> byte list) option" where
  "GetMD5 fresh junk_ctx src sz md5 = do {
     (ok, md5, param) \<leftarrow> MD5 fresh junk_ctx src md5 sz True [0x10325476, 0xEFCDAB89, 0x67452301, 0x98BADCFE];
     Some (ok, md5)
   }"

definition ReadMemBuffer ::
  "c_long \<Rightarrow> c_long \<Rightarrow> byte list \<Rightarrow> byte list \<Rightarrow> c_long \<Rightarrow> c_long \<Rightarrow> (bool \<times> byte list \<times> c_long) option" where
  "ReadMemBuffer nStartReadPos nEndReadPos lpMem lpBuffer nNumberOfBytesToRead numberRead =
     (if nStartReadPos > nEndReadPos then Some (False, lpBuffer, numberRead)
      else do {
        lpBuffer \<leftarrow> poke lpBuffer 0 (replicate (unat nNumberOfBytesToRead) 0);
        let nDeffReadPos = nEndReadPos - nStartReadPos;
        (if nDeffReadPos \<le> nNumberOfBytesToRead then do {
           xs \<leftarrow> fetch lpMem (unat nStartReadPos) (unat nDeffReadPos);
           lpBuffer \<leftarrow> poke lpBuffer 0 xs;
           Some (True, lpBuffer, nDeffReadPos)
         } else do {
           xs \<leftarrow> fetch lpMem (unat nStartReadPos) (unat nNumberOfBytesToRead);
           lpBuffer \<leftarrow> poke lpBuffer 0 xs;
           Some (True, lpBuffer, nNumberOfBytesToRead)
         })
      })"

text \<open>What both loops do with a block: hash it, append the digest so far, hash again.\<close>

definition mix_block ::
  "(nat \<Rightarrow> byte) \<Rightarrow> md5ctx \<Rightarrow> byte list \<Rightarrow> c_long \<Rightarrow> byte list \<Rightarrow> byte list \<Rightarrow> (byte list \<times> byte list) option" where
  "mix_block fresh junk_ctx buffer sz md5 bufMD5 = do {
     (_, md5) \<leftarrow> GetMD5 fresh junk_ctx buffer sz md5;
     old \<leftarrow> fetch bufMD5 0 32;
     md5 \<leftarrow> poke md5 32 old;
     (_, bufMD5) \<leftarrow> GetMD5 fresh junk_ctx md5 64 bufMD5;
     Some (md5, bufMD5)
   }"

text \<open>The loops start with \<open>size == BLOCK_SIZE\<close>, so their body runs at least once.\<close>

partial_function (option) mem_loop ::
  "(nat \<Rightarrow> byte) \<Rightarrow> md5ctx \<Rightarrow> byte list \<Rightarrow> c_long \<Rightarrow> c_long \<Rightarrow> c_long \<Rightarrow> byte list \<Rightarrow> byte list \<Rightarrow> byte list \<Rightarrow>
   (bool \<times> byte list) option"
  where
  "mem_loop fresh junk_ctx lpMem dwSize sz start_pos buffer md5 bufMD5 =
     (if sz \<noteq> BLOCK_SIZE then Some (True, bufMD5)
      else do {
        (ok, buffer, sz) \<leftarrow> ReadMemBuffer start_pos dwSize lpMem buffer BLOCK_SIZE sz;
        (if \<not> ok then Some (False, bufMD5)
         else do {
           (md5, bufMD5) \<leftarrow> mix_block fresh junk_ctx buffer sz md5 bufMD5;
           mem_loop fresh junk_ctx lpMem dwSize sz (start_pos + BLOCK_SIZE) buffer md5 bufMD5
         })
      })"

definition GenerateMemInfo ::
  "(nat \<Rightarrow> byte) \<Rightarrow> md5ctx \<Rightarrow> byte list option \<Rightarrow> c_long \<Rightarrow> byte list \<Rightarrow> (bool \<times> byte list) option" where
  "GenerateMemInfo fresh junk_ctx lpMem dwSize bufMD5 =
     (case lpMem of
        None \<Rightarrow> Some (False, bufMD5)
      | Some mem \<Rightarrow> do {
          bufMD5 \<leftarrow> poke bufMD5 0 [0];
          buffer \<leftarrow> poke (new_bytes fresh (unat BLOCK_SIZE)) 0 [0];
          mem_loop fresh junk_ctx mem dwSize BLOCK_SIZE 0 buffer (replicate 65 0) bufMD5
        })"

text \<open>
  A file is what \<open>fread\<close> delivers of it from the current position on; the call reads as much as there
  is, up to the size asked for.
\<close>

definition fread :: "byte list \<Rightarrow> c_long \<Rightarrow> byte list \<Rightarrow> (c_long \<times> byte list \<times> byte list) option" where
  "fread buffer n file = do {
     let xs = take (unat n) file;
     buffer \<leftarrow> poke buffer 0 xs;
     Some (of_nat (length xs), buffer, drop (unat n) file)
   }"

partial_function (option) file_loop ::
  "(nat \<Rightarrow> byte) \<Rightarrow> md5ctx \<Rightarrow> byte list \<Rightarrow> c_long \<Rightarrow> byte list \<Rightarrow> byte list \<Rightarrow> byte list \<Rightarrow>
   (bool \<times> byte list) option"
  where
  "file_loop fresh junk_ctx file sz buffer md5 bufMD5 =
     (if sz \<noteq> BLOCK_SIZE then Some (True, bufMD5)
      else do {
        (sz, buffer, file) \<leftarrow> fread buffer BLOCK_SIZE file;
        (if sz = 0 then Some (False, bufMD5)
         else do {
           (md5, bufMD5) \<leftarrow> mix_block fresh junk_ctx buffer sz md5 bufMD5;
           file_loop fresh junk_ctx file sz buffer md5 bufMD5
         })
      })"

definition GenerateFileInfo ::
  "(nat \<Rightarrow> byte) \<Rightarrow> md5ctx \<Rightarrow> byte list option \<Rightarrow> byte list \<Rightarrow> (bool \<times> byte list) option" where
  "GenerateFileInfo fresh junk_ctx file bufMD5 =
     (case file of
        None \<Rightarrow> Some (False, bufMD5)
      | Some content \<Rightarrow> do {
          bufMD5 \<leftarrow> poke bufMD5 0 [0];
          buffer \<leftarrow> poke (new_bytes fresh (unat BLOCK_SIZE)) 0 [0];
          file_loop fresh junk_ctx content BLOCK_SIZE buffer (replicate 65 0) bufMD5
        })"

text \<open>\<open>opened\<close>: what \<open>fopen_s\<close> found under the name.\<close>

definition GetMD5FromFile ::
  "(nat \<Rightarrow> byte) \<Rightarrow> md5ctx \<Rightarrow> byte list option \<Rightarrow> byte list \<Rightarrow> (bool \<times> byte list) option" where
  "GetMD5FromFile fresh junk_ctx opened bufMD5 =
     (case opened of
        None \<Rightarrow> Some (False, bufMD5)
      | Some content \<Rightarrow> do {
          bufMD5 \<leftarrow> poke bufMD5 0 (replicate 32 0);
          (ok, bufMD5) \<leftarrow> GenerateFileInfo fresh junk_ctx (Some content) bufMD5;
          (if \<not> ok then Some (False, bufMD5) else Some (True, bufMD5))
        })"

section \<open>What they compute\<close>

definition game_seed :: "c_long list" where
  "game_seed = [0x10325476, 0xEFCDAB89, 0x67452301, 0x98BADCFE]"

definition chain_digest :: "byte list \<Rightarrow> byte list \<Rightarrow> byte list" where
  "chain_digest h chunk = md5_text game_seed (md5_text game_seed chunk @ h)"

lemma block_size: "unat BLOCK_SIZE = 10485760"
  by (simp add: BLOCK_SIZE_def)

lemma length_chain [simp]: "length (chain_digest h chunk) = 32"
  by (simp add: chain_digest_def game_seed_def)

lemma GetMD5_digests:
  assumes "unat sz \<le> length src" "unat sz + 64 \<le> 2 ^ 32" "32 \<le> length md5" "length (md5_buffer junk_ctx) = 64"
  shows "GetMD5 fresh junk_ctx src sz md5 = Some (True, md5_text game_seed (take (unat sz) src) @ drop 32 md5)"
  using MD5_digests [OF assms, of game_seed fresh True]
  by (simp add: GetMD5_def game_seed_def md5_params_def)

lemma mix_block_chains:
  assumes "unat sz \<le> length buffer" "unat sz + 64 \<le> 2 ^ 32" "length md5 = 65" "length (md5_buffer junk_ctx) = 64"
    "length h = 32"
  shows "\<exists>md5'. length md5' = 65 \<and> mix_block fresh junk_ctx buffer sz md5 (h @ rest) =
    Some (md5', chain_digest h (take (unat sz) buffer) @ rest)"
proof -
  define t where "t = md5_text game_seed (take (unat sz) buffer)"
  have t: "length t = 32" by (simp add: t_def game_seed_def)
  have "GetMD5 fresh junk_ctx buffer sz md5 = Some (True, t @ drop 32 md5)"
    using GetMD5_digests [OF assms(1,2)] assms by (simp add: t_def)
  moreover have "poke (t @ drop 32 md5) 32 h = Some (t @ h @ drop 64 md5)"
    using assms t by (simp add: poke_def)
  moreover have "GetMD5 fresh junk_ctx (t @ h @ drop 64 md5) 64 (h @ rest) =
      Some (True, md5_text game_seed (t @ h) @ rest)"
    using GetMD5_digests [of 64 "t @ h @ drop 64 md5" "h @ rest" junk_ctx fresh] assms t by simp
  ultimately show ?thesis
    using assms t by (simp add: mix_block_def fetch_def chain_digest_def t_def)
qed

text \<open>The chained digest of a memory area, and of a file, which is refused when it ends in a whole block.\<close>

function mem_digest :: "byte list \<Rightarrow> byte list \<Rightarrow> byte list" where
  "mem_digest h xs =
     (let h' = chain_digest h (take (unat BLOCK_SIZE) xs)
      in if length xs < unat BLOCK_SIZE then h' else mem_digest h' (drop (unat BLOCK_SIZE) xs))"
  by pat_completeness auto
termination
  by (relation "measure (\<lambda>(h, xs). length xs)") (auto simp: block_size)

function file_digest :: "byte list \<Rightarrow> byte list \<Rightarrow> bool \<times> byte list" where
  "file_digest h xs =
     (if xs = [] then (False, h)
      else let h' = chain_digest h (take (unat BLOCK_SIZE) xs)
           in if length xs < unat BLOCK_SIZE then (True, h') else file_digest h' (drop (unat BLOCK_SIZE) xs))"
  by pat_completeness auto
termination
  by (relation "measure (\<lambda>(h, xs). length xs)") (auto simp: block_size)

declare mem_digest.simps [simp del] file_digest.simps [simp del]

lemma file_digest_refuses: "fst (file_digest h xs) \<longleftrightarrow> \<not> unat BLOCK_SIZE dvd length xs"
proof (induction h xs rule: file_digest.induct)
  case (1 h xs)
  consider "xs = []" | "xs \<noteq> []" "length xs < unat BLOCK_SIZE" | "xs \<noteq> []" "\<not> length xs < unat BLOCK_SIZE"
    by blast
  then show ?case
  proof cases
    case 2
    then have "\<not> unat BLOCK_SIZE dvd length xs" by (auto dest: dvd_imp_le)
    with 2 show ?thesis by (simp add: file_digest.simps [of h xs])
  next
    case 3
    then have "fst (file_digest h xs) \<longleftrightarrow> \<not> unat BLOCK_SIZE dvd length xs - unat BLOCK_SIZE"
      using 1 [OF 3(1) refl 3(2)] by (simp add: file_digest.simps [of h xs])
    then show ?thesis using 3 by (simp add: dvd_minus_self)
  qed (simp add: file_digest.simps)
qed

lemma file_digest_mem: "\<not> unat BLOCK_SIZE dvd length xs \<Longrightarrow> file_digest h xs = (True, mem_digest h xs)"
proof (induction h xs rule: file_digest.induct)
  case (1 h xs)
  then have "xs \<noteq> []" by auto
  show ?case
  proof (cases "length xs < unat BLOCK_SIZE")
    case True
    then show ?thesis using \<open>xs \<noteq> []\<close>
      by (simp add: file_digest.simps [of h xs] mem_digest.simps [of h xs] Let_def)
  next
    case False
    then have "\<not> unat BLOCK_SIZE dvd length (drop (unat BLOCK_SIZE) xs)"
      using 1(2) by (simp add: dvd_minus_self)
    from 1(1) [OF \<open>xs \<noteq> []\<close> refl False this] show ?thesis using False \<open>xs \<noteq> []\<close>
      by (simp add: file_digest.simps [of h xs] mem_digest.simps [of h xs] Let_def)
  qed
qed

lemma length_mem_digest [simp]: "length (mem_digest h xs) = 32"
  by (induction h xs rule: mem_digest.induct) (subst mem_digest.simps, simp add: Let_def)

lemma ReadMemBuffer_reads:
  assumes "unat i \<le> unat n" "unat n \<le> length mem" "length buffer = unat BLOCK_SIZE"
  obtains buffer' k where "ReadMemBuffer i n mem buffer BLOCK_SIZE sz = Some (True, buffer', k)"
    "length buffer' = unat BLOCK_SIZE" "unat k = min (unat n - unat i) (unat BLOCK_SIZE)"
    "take (unat k) buffer' = take (unat BLOCK_SIZE) (drop (unat i) (take (unat n) mem))"
proof (cases "unat n - unat i \<le> unat BLOCK_SIZE")
  case True
  define xs where "xs = drop (unat i) (take (unat n) mem)"
  have xs: "length xs = unat n - unat i" using assms by (simp add: xs_def)
  have d: "unat (n - i) = unat n - unat i" using assms by (simp add: unat_sub word_le_nat_alt)
  have "ReadMemBuffer i n mem buffer BLOCK_SIZE sz =
      Some (True, xs @ drop (length xs) (replicate (unat BLOCK_SIZE) 0), n - i)"
    using True assms xs
    by (simp add: ReadMemBuffer_def word_less_nat_alt word_le_nat_alt d poke_def fetch_def xs_def drop_take)
  then show ?thesis
    by (rule that) (use True xs d in \<open>simp_all add: xs_def [symmetric] min_def\<close>)
next
  case False
  define xs where "xs = take (unat BLOCK_SIZE) (drop (unat i) (take (unat n) mem))"
  have xs: "length xs = unat BLOCK_SIZE" using assms False by (simp add: xs_def)
  have d: "unat (n - i) = unat n - unat i" using assms by (simp add: unat_sub word_le_nat_alt)
  have "ReadMemBuffer i n mem buffer BLOCK_SIZE sz = Some (True, xs, BLOCK_SIZE)"
    using False assms xs
    by (simp add: ReadMemBuffer_def word_less_nat_alt word_le_nat_alt d poke_def fetch_def xs_def drop_take
        min.absorb2)
  then show ?thesis
    by (rule that) (use False xs in \<open>simp_all add: xs_def [symmetric]\<close>)
qed

lemma loops_end:
  assumes "sz \<noteq> BLOCK_SIZE"
  shows "mem_loop fresh junk_ctx mem n sz i buffer md5 h = Some (True, h)"
    "file_loop fresh junk_ctx f sz buffer md5 h = Some (True, h)"
  by (subst mem_loop.simps, simp add: assms) (subst file_loop.simps, simp add: assms)

lemma mem_loop_digests:
  assumes "unat i \<le> unat n" "unat n \<le> length mem" "length buffer = unat BLOCK_SIZE" "length md5 = 65"
    "length h = 32" "length (md5_buffer junk_ctx) = 64"
  shows "mem_loop fresh junk_ctx mem n BLOCK_SIZE i buffer md5 (h @ rest) =
    Some (True, mem_digest h (drop (unat i) (take (unat n) mem)) @ rest)"
  using assms
proof (induction "unat n - unat i" arbitrary: i buffer md5 h rule: less_induct)
  case less
  obtain buffer' k where k: "ReadMemBuffer i n mem buffer BLOCK_SIZE BLOCK_SIZE = Some (True, buffer', k)"
    "length buffer' = unat BLOCK_SIZE" "unat k = min (unat n - unat i) (unat BLOCK_SIZE)"
    "take (unat k) buffer' = take (unat BLOCK_SIZE) (drop (unat i) (take (unat n) mem))"
    using ReadMemBuffer_reads [OF less.prems(1-3)] by metis
  have "unat k \<le> length buffer'" "unat k + 64 \<le> 2 ^ 32" using k(2,3) by (simp_all add: block_size)
  from mix_block_chains [OF this less.prems(4,6,5), of fresh rest] obtain md5' where
    m: "length md5' = 65" "mix_block fresh junk_ctx buffer' k md5 (h @ rest) =
      Some (md5', chain_digest h (take (unat BLOCK_SIZE) (drop (unat i) (take (unat n) mem))) @ rest)"
    unfolding k(4) by blast
  show ?case
  proof (cases "unat n - unat i < unat BLOCK_SIZE")
    case True
    then have "unat k \<noteq> unat BLOCK_SIZE" using k(3) by simp
    then have "k \<noteq> BLOCK_SIZE" by auto
    then show ?thesis using True less.prems(2)
      by (subst mem_loop.simps) (simp add: loops_end k(1) m(2) mem_digest.simps)
  next
    case False
    then have kb: "k = BLOCK_SIZE" using k(3) by (simp add: word_unat_eq_iff)
    have "unat n < 2 ^ 32" using unsigned_less [of n] by simp
    then have "unat i + unat BLOCK_SIZE < 2 ^ 32" using False less.prems(1) by linarith
    then have nxt: "unat (i + BLOCK_SIZE) = unat i + unat BLOCK_SIZE" by (simp add: unat_word_ariths)
    let ?h = "chain_digest h (take (unat BLOCK_SIZE) (drop (unat i) (take (unat n) mem)))"
    have "mem_loop fresh junk_ctx mem n BLOCK_SIZE (i + BLOCK_SIZE) buffer' md5' (?h @ rest) =
        Some (True, mem_digest ?h (drop (unat (i + BLOCK_SIZE)) (take (unat n) mem)) @ rest)"
      by (rule less.hyps) (use False less.prems k(2) m(1) nxt block_size in simp_all)
    then show ?thesis using False less.prems(2)
      by (subst mem_loop.simps) (simp add: k(1) m(2) [unfolded kb] kb nxt mem_digest.simps [of h] Let_def add.commute [of "unat i"])
  qed
qed

lemma file_loop_digests:
  assumes "length buffer = unat BLOCK_SIZE" "length md5 = 65" "length h = 32" "length (md5_buffer junk_ctx) = 64"
  shows "file_loop fresh junk_ctx f BLOCK_SIZE buffer md5 (h @ rest) =
    Some (fst (file_digest h f), snd (file_digest h f) @ rest)"
  using assms
proof (induction h f arbitrary: buffer md5 rule: file_digest.induct)
  case (1 h xs)
  define k where "k = (of_nat (min (length xs) (unat BLOCK_SIZE)) :: c_long)"
  have k: "unat k = min (length xs) (unat BLOCK_SIZE)"
    by (simp add: k_def unsigned_of_nat take_bit_eq_mod block_size)
  define buffer' where "buffer' = take (unat BLOCK_SIZE) xs @ drop (min (length xs) (unat BLOCK_SIZE)) buffer"
  have read: "fread buffer BLOCK_SIZE xs = Some (k, buffer', drop (unat BLOCK_SIZE) xs)"
    using 1(2) by (simp add: fread_def poke_def k_def buffer'_def)
  have lb: "length buffer' = unat BLOCK_SIZE" using 1(2) by (simp add: buffer'_def)
  have chunk: "take (unat k) buffer' = take (unat BLOCK_SIZE) xs"
    by (simp add: k buffer'_def min_def)
  have "unat k \<le> length buffer'" "unat k + 64 \<le> 2 ^ 32" using lb k by (simp_all add: block_size)
  from mix_block_chains [OF this 1(3,5,4), of fresh rest] obtain md5' where
    m: "length md5' = 65" "mix_block fresh junk_ctx buffer' k md5 (h @ rest) =
      Some (md5', chain_digest h (take (unat BLOCK_SIZE) xs) @ rest)"
    unfolding chunk by blast
  consider "xs = []" | "xs \<noteq> []" "length xs < unat BLOCK_SIZE" | "xs \<noteq> []" "\<not> length xs < unat BLOCK_SIZE"
    by blast
  then show ?case
  proof cases
    case 1
    then have "k = 0" by (simp add: k_def)
    then show ?thesis using 1 read by (subst file_loop.simps) (simp add: file_digest.simps)
  next
    case 2
    then have "unat k \<noteq> unat BLOCK_SIZE" "unat k \<noteq> unat (0 :: c_long)" using k by simp_all
    then have "k \<noteq> BLOCK_SIZE" "k \<noteq> 0" by auto
    then show ?thesis using 2
      by (subst file_loop.simps) (simp add: loops_end read m(2) file_digest.simps [of h xs] Let_def)
  next
    case 3
    then have kb: "k = BLOCK_SIZE" using k by (simp add: word_unat_eq_iff)
    have nz: "BLOCK_SIZE \<noteq> 0" by (simp add: BLOCK_SIZE_def)
    from 1(1) [OF 3(1) refl 3(2) lb m(1) _ 1(5)] show ?thesis using 3 nz
      by (subst file_loop.simps) (simp add: read m(2) [unfolded kb] kb file_digest.simps [of h xs] Let_def)
  qed
qed

lemma GenerateMemInfo_digests:
  assumes "length xs = unat n" "length (md5_buffer junk_ctx) = 64" "length h = 32"
  shows "GenerateMemInfo fresh junk_ctx (Some xs) n (h @ rest) = Some (True, mem_digest (0 # tl h) xs @ rest)"
proof -
  have b: "0 < unat BLOCK_SIZE" by (simp add: block_size)
  have p: "poke (h @ rest) 0 [0] = Some ((0 # tl h) @ rest)"
    using assms(3) by (cases h) (simp_all add: poke_def)
  define buffer where "buffer = 0 # drop 1 (new_bytes fresh (unat BLOCK_SIZE))"
  have "poke (new_bytes fresh (unat BLOCK_SIZE)) 0 [0] = Some buffer" "length buffer = unat BLOCK_SIZE"
    using b by (simp_all add: poke_def buffer_def)
  then show ?thesis
    using mem_loop_digests [of 0 n xs buffer "replicate 65 0" "0 # tl h" junk_ctx fresh rest] assms
    by (simp add: GenerateMemInfo_def p)
qed

lemma GetMD5FromFile_digests:
  assumes "length (md5_buffer junk_ctx) = 64" "length h = 32"
  shows "GetMD5FromFile fresh junk_ctx (Some xs) (h @ rest) =
    Some (fst (file_digest (replicate 32 0) xs), snd (file_digest (replicate 32 0) xs) @ rest)"
proof -
  have b: "0 < unat BLOCK_SIZE" by (simp add: block_size)
  have z: "poke (h @ rest) 0 (replicate 32 0) = Some (replicate 32 0 @ rest)"
    using assms(2) by (simp add: poke_def)
  have "poke (replicate 32 0 @ rest) 0 [0] = Some (replicate 32 (0 :: byte) @ rest)"
    by (simp add: poke_def) (simp add: numeral_eq_Suc)
  moreover define buffer where "buffer = 0 # drop 1 (new_bytes fresh (unat BLOCK_SIZE))"
  have "poke (new_bytes fresh (unat BLOCK_SIZE)) 0 [0] = Some buffer" "length buffer = unat BLOCK_SIZE"
    using b by (simp_all add: poke_def buffer_def)
  ultimately show ?thesis
    using file_loop_digests [of buffer "replicate 65 0" "replicate 32 0" junk_ctx fresh xs rest] assms
    by (simp add: GetMD5FromFile_def GenerateFileInfo_def z)
qed

text \<open>
  C33: The digest of a file is the digest of its bytes in memory, computed into a zeroed buffer,
  whatever the caller's buffer and the local variables held, as long as the size of the file is not a
  multiple of ten megabytes; the loop over the blocks returns.
\<close>

theorem files_digest_like_memory:
  assumes "length xs = unat n" "length (md5_buffer junk_ctx) = 64" "length h = 32"
    "length xs mod 10485760 \<noteq> 0"
  shows "\<exists>digest. length digest = 32 \<and>
    GetMD5FromFile fresh junk_ctx (Some xs) (h @ rest) = Some (True, digest @ rest) \<and>
    GenerateMemInfo fresh junk_ctx (Some xs) n (replicate 32 0 @ rest) = Some (True, digest @ rest)"
proof -
  have "\<not> unat BLOCK_SIZE dvd length xs" using assms(4) by (simp add: block_size dvd_eq_mod_eq_0)
  then have f: "file_digest (replicate 32 0) xs = (True, mem_digest (replicate 32 0) xs)"
    by (rule file_digest_mem)
  have "0 # tl (replicate 32 0) = replicate 32 (0 :: byte)" by (simp add: numeral_eq_Suc)
  then have m: "GenerateMemInfo fresh junk_ctx (Some xs) n (replicate 32 0 @ rest) =
      Some (True, mem_digest (replicate 32 0) xs @ rest)"
    using GenerateMemInfo_digests [OF assms(1,2), of "replicate 32 0" fresh rest] by simp
  show ?thesis
    using GetMD5FromFile_digests [OF assms(2,3), of fresh xs rest] m unfolding f by auto
qed

theorem files_digest_like_memory_witness:
  "\<exists>digest. length digest = 32 \<and>
    GetMD5FromFile (\<lambda>_. 9) unset_ctx (Some (ascii ''abc'')) (replicate 32 5 @ [1]) = Some (True, digest @ [1]) \<and>
    GenerateMemInfo (\<lambda>_. 9) unset_ctx (Some (ascii ''abc'')) 3 (replicate 32 0 @ [1]) = Some (True, digest @ [1])"
  by (rule files_digest_like_memory) (simp_all add: ascii_def unset_ctx_def)

text \<open>
  A file whose size is a multiple of ten megabytes, an empty one among them, is refused,
  although the same bytes in memory have a digest.
\<close>

theorem whole_blocks_are_refused:
  assumes "length xs = unat n" "length (md5_buffer junk_ctx) = 64" "length h = 32"
    "length xs mod 10485760 = 0"
  shows "\<exists>h' digest. GetMD5FromFile fresh junk_ctx (Some xs) (h @ rest) = Some (False, h' @ rest) \<and>
    GenerateMemInfo fresh junk_ctx (Some xs) n (h @ rest) = Some (True, digest @ rest)"
proof -
  have "\<not> fst (file_digest (replicate 32 0) xs)"
    using assms(4) by (simp add: file_digest_refuses block_size mod_eq_0_iff_dvd)
  then show ?thesis
    using GetMD5FromFile_digests [OF assms(2,3), of fresh xs rest]
      GenerateMemInfo_digests [OF assms(1-3), of fresh rest] by auto
qed

theorem whole_blocks_are_refused_witness:
  "\<exists>h' digest. GetMD5FromFile (\<lambda>_. 9) unset_ctx (Some (replicate 10485760 3)) (replicate 32 5 @ [1]) =
      Some (False, h' @ [1]) \<and>
    GenerateMemInfo (\<lambda>_. 9) unset_ctx (Some (replicate 10485760 3)) 10485760 (replicate 32 5 @ [1]) =
      Some (True, digest @ [1])"
  by (rule whole_blocks_are_refused) (simp_all add: unset_ctx_def)

end
