(* ===== verification/HashMap.thy ===== *)
theory HashMap
  imports Bytes
begin

text \<open>
  The hash map of \<open>net_libs/libbase/export/yy_algorithm.h\<close>: a fixed number of nodes, handed out one
  after the other, that are linked into a table of 1024 chains and into one list of all of
  them.  A node is its index in the array of nodes; a key is the characters before its NUL.
\<close>

section \<open>The code\<close>

definition VAR_SIZE :: nat where "VAR_SIZE = 1024"

record cvar_t =
  cv_key :: "char list"
  cv_value :: "char list"
  hash_next :: "nat option"
  cv_next :: "nat option"

record hash_map =
  m_table :: "nat option list"
  m_nodes :: "cvar_t list"
  m_node_head :: "nat option"
  m_size :: nat
  m_capacity :: nat
  m_node_index :: nat

text \<open>
  \<open>tolower\<close> in the C locale; for a negative \<open>char\<close> it is undefined.  The sum is a \<open>long\<close>, so a
  key of several thousand characters would overflow it.
\<close>

definition c_tolower :: "char \<Rightarrow> int option" where
  "c_tolower c = (let n = (of_char c :: int) in
     if 128 \<le> n then None else if 65 \<le> n \<and> n \<le> 90 then Some (n + 32) else Some n)"

fun hash_loop :: "string \<Rightarrow> int \<Rightarrow> int \<Rightarrow> int option" where
  "hash_loop [] i hash = Some hash"
| "hash_loop (c # cs) i hash = do {
     letter \<leftarrow> c_tolower c;
     hash \<leftarrow> int_add hash (letter * (i + 119));
     hash_loop cs (i + 1) hash
   }"

definition generateHashValue :: "string \<Rightarrow> nat option" where
  "generateHashValue fname = do {
     hash \<leftarrow> hash_loop fname 0 0;
     Some (nat (and hash (int VAR_SIZE - 1)))
   }"

definition HashMap_new :: "(nat \<Rightarrow> cvar_t) \<Rightarrow> hash_map" where
  "HashMap_new fresh =
     \<lparr>m_table = replicate VAR_SIZE None, m_nodes = map fresh [0..<VAR_SIZE], m_node_head = None,
      m_size = 0, m_capacity = VAR_SIZE, m_node_index = 0\<rparr>"

partial_function (option) find_loop :: "hash_map \<Rightarrow> string \<Rightarrow> nat option \<Rightarrow> nat option option" where
  "find_loop h key kn =
     (case kn of
        None \<Rightarrow> Some None
      | Some n \<Rightarrow>
          if length (m_nodes h) \<le> n then None
          else if c_string (cv_key (m_nodes h ! n)) = key then Some (Some n)
          else find_loop h key (hash_next (m_nodes h ! n)))"

definition HashMap_find :: "hash_map \<Rightarrow> string \<Rightarrow> nat option option" where
  "HashMap_find h key = do {
     hash \<leftarrow> generateHashValue key;
     find_loop h key (m_table h ! hash)
   }"

text \<open>The two assertions: the key fits a node, and there is a node left.\<close>

definition HashMap_get :: "hash_map \<Rightarrow> string \<Rightarrow> (nat \<times> hash_map) option" where
  "HashMap_get h key =
     (if length key \<ge> 100 then None
      else do {
        kn \<leftarrow> HashMap_find h key;
        (case kn of
           Some n \<Rightarrow> Some (n, h)
         | None \<Rightarrow>
             if m_node_index h \<ge> m_capacity h then None
             else do {
               let kn_new = m_node_index h;
               h \<leftarrow> Some (h\<lparr>m_node_index := kn_new + 1\<rparr>);
               k \<leftarrow> poke (cv_key (m_nodes h ! kn_new)) 0 (key @ [NUL]);
               hash \<leftarrow> generateHashValue key;
               let node = (m_nodes h ! kn_new)\<lparr>cv_key := k, hash_next := m_table h ! hash, cv_next := m_node_head h\<rparr>;
               Some (kn_new, h\<lparr>m_nodes := (m_nodes h)[kn_new := node],
                 m_table := (m_table h)[hash := Some kn_new], m_node_head := Some kn_new\<rparr>)
             })
      })"

definition isExist :: "hash_map \<Rightarrow> string \<Rightarrow> bool option" where
  "isExist h key = do {
     kn \<leftarrow> HashMap_find h key;
     Some (kn \<noteq> None)
   }"

section \<open>Keys and their hash\<close>

text \<open>A key that \<open>get\<close> takes, and its slot.\<close>

definition good_key :: "string \<Rightarrow> bool" where
  "good_key key \<longleftrightarrow> length key < 100 \<and> list_all (\<lambda>c. c \<noteq> NUL \<and> (of_char c :: int) < 128) key"

definition slot :: "string \<Rightarrow> nat" where
  "slot key = the (generateHashValue key)"

lemma tolower_some:
  assumes "(of_char c :: int) < 128"
  shows "\<exists>l. c_tolower c = Some l \<and> 0 \<le> l \<and> l \<le> 127"
proof -
  define a where "a = (of_char c :: int)"
  have "a = int (of_char c)" by (simp only: a_def of_nat_of_char)
  then have "0 \<le> a" by simp
  then show ?thesis using assms by (simp add: c_tolower_def Let_def a_def [symmetric])
qed

lemma hash_loop_some:
  assumes "list_all (\<lambda>c. (of_char c :: int) < 128) key" "0 \<le> i" "0 \<le> hash"
    "hash + 127 * int (length key) * (i + int (length key) + 119) < 2 ^ 31"
  shows "\<exists>v. hash_loop key i hash = Some v \<and> 0 \<le> v"
  using assms
proof (induction key arbitrary: i hash)
  case (Cons c cs)
  obtain l where l: "c_tolower c = Some l" "0 \<le> l" "l \<le> 127"
    using tolower_some [of c] Cons.prems(1) by auto
  define n where "n = int (length cs)"
  have n: "0 \<le> n" by (simp add: n_def)
  have "l * (i + 119) \<le> 127 * (i + 119)" using l Cons.prems(2) by (intro mult_right_mono) auto
  moreover have "0 \<le> l * (i + 119)" using l Cons.prems(2) by simp
  moreover have "hash + 127 * (i + 119) + 127 * n * ((i + 1) + n + 119) \<le>
      hash + 127 * (n + 1) * (i + (n + 1) + 119)"
    using n Cons.prems(2) by (simp add: algebra_simps)
  moreover have "hash + 127 * (n + 1) * (i + (n + 1) + 119) < 2147483648"
    using Cons.prems(4) by (simp add: n_def add.commute)
  moreover have "0 \<le> 127 * n * ((i + 1) + n + 119)" using n Cons.prems(2) by simp
  ultimately have "int_add hash (l * (i + 119)) = Some (hash + l * (i + 119))"
      "hash + l * (i + 119) + 127 * n * ((i + 1) + n + 119) < 2 ^ 31" "0 \<le> hash + l * (i + 119)"
    using Cons.prems(3) by (simp_all add: int_add_def)
  then show ?case
    using Cons.IH [of "i + 1" "hash + l * (i + 119)"] Cons.prems l by (simp add: n_def)
qed simp

lemma hash_in_table:
  assumes "good_key key"
  shows "generateHashValue key = Some (slot key)" "slot key < VAR_SIZE"
proof -
  define n where "n = int (length key)"
  have n: "0 \<le> n" "n \<le> 99" using assms by (auto simp: good_key_def n_def)
  then have "127 * n * (0 + n + 119) \<le> 127 * 99 * (0 + 99 + 119)" by (intro mult_mono) auto
  then have "0 + 127 * int (length key) * (0 + int (length key) + 119) < 2 ^ 31" by (simp add: n_def)
  moreover have "list_all (\<lambda>c. (of_char c :: int) < 128) key"
    using assms by (auto simp: good_key_def list_all_iff)
  ultimately obtain v where v: "hash_loop key 0 0 = Some v" "0 \<le> v"
    using hash_loop_some [of key 0 0] by auto
  have "(1023 :: int) = mask 10" by (simp add: mask_eq_exp_minus_1)
  then have "and v 1023 = take_bit 10 v" by (simp only: take_bit_eq_mask)
  then have "and v 1023 = v mod 1024" by (simp add: take_bit_eq_mod)
  with v show "generateHashValue key = Some (slot key)" "slot key < VAR_SIZE"
    by (simp_all add: slot_def generateHashValue_def VAR_SIZE_def nat_less_iff)
qed

section \<open>The chains\<close>

text \<open>A list linked by \<open>f\<close> that runs through the given nodes.\<close>

fun chain :: "(nat \<Rightarrow> nat option) \<Rightarrow> nat option \<Rightarrow> nat list \<Rightarrow> bool" where
  "chain f p [] \<longleftrightarrow> p = None"
| "chain f p (n # ns) \<longleftrightarrow> p = Some n \<and> chain f (f n) ns"

lemma chain_cong: "chain f p ns \<Longrightarrow> (\<And>n. n \<in> set ns \<Longrightarrow> f n = g n) \<Longrightarrow> chain g p ns"
  by (induction f p ns rule: chain.induct) auto

text \<open>
  The map holds the keys \<open>ks\<close>, in the order in which \<open>get\<close> made them: node \<open>i\<close> has the \<open>i\<close>-th key,
  a slot chains the nodes of its keys, newest first, and the list of all of them is complete.
\<close>

definition nodes_in :: "string list \<Rightarrow> nat \<Rightarrow> nat list" where
  "nodes_in ks s = rev (filter (\<lambda>i. slot (ks ! i) = s) [0..<length ks])"

definition map_holds :: "hash_map \<Rightarrow> string list \<Rightarrow> bool" where
  "map_holds h ks \<longleftrightarrow>
     m_capacity h = VAR_SIZE \<and> length (m_table h) = VAR_SIZE \<and> length (m_nodes h) = VAR_SIZE \<and>
     m_node_index h = length ks \<and> length ks \<le> VAR_SIZE \<and> distinct ks \<and> list_all good_key ks \<and>
     list_all (\<lambda>node. length (cv_key node) = 100) (m_nodes h) \<and>
     (\<forall>i < length ks. c_string (cv_key (m_nodes h ! i)) = ks ! i) \<and>
     (\<forall>s < VAR_SIZE. chain (\<lambda>n. hash_next (m_nodes h ! n)) (m_table h ! s) (nodes_in ks s)) \<and>
     chain (\<lambda>n. cv_next (m_nodes h ! n)) (m_node_head h) (rev [0..<length ks])"

lemma holds_new: "(\<And>i. length (cv_key (fresh i)) = 100) \<Longrightarrow> map_holds (HashMap_new fresh) []"
  by (simp add: map_holds_def HashMap_new_def nodes_in_def list_all_iff)

lemma nodes_in_bound: "n \<in> set (nodes_in ks s) \<longleftrightarrow> n < length ks \<and> slot (ks ! n) = s"
  by (auto simp: nodes_in_def)

lemma find_loop_chain:
  assumes "chain (\<lambda>n. hash_next (m_nodes h ! n)) p ns" "list_all (\<lambda>n. n < length (m_nodes h)) ns"
  shows "find_loop h key p = Some (List.find (\<lambda>n. c_string (cv_key (m_nodes h ! n)) = key) ns)"
  using assms
proof (induction ns arbitrary: p)
  case Nil
  then show ?case by (subst find_loop.simps) simp
next
  case (Cons n ns)
  then show ?case by (subst find_loop.simps) auto
qed

lemma find_finds:
  assumes h: "map_holds h ks" and k: "good_key key"
  shows "key \<notin> set ks \<Longrightarrow> HashMap_find h key = Some None"
    "i < length ks \<Longrightarrow> ks ! i = key \<Longrightarrow> HashMap_find h key = Some (Some i)"
proof -
  let ?ns = "nodes_in ks (slot key)"
  have slot: "slot key < VAR_SIZE" using hash_in_table [OF k] by simp
  have b: "list_all (\<lambda>n. n < length (m_nodes h)) ?ns"
    using h by (auto simp: list_all_iff nodes_in_bound map_holds_def)
  have "chain (\<lambda>n. hash_next (m_nodes h ! n)) (m_table h ! slot key) ?ns"
    using h slot by (simp add: map_holds_def)
  from find_loop_chain [OF this b, of key]
  have f: "HashMap_find h key = Some (List.find (\<lambda>n. c_string (cv_key (m_nodes h ! n)) = key) ?ns)"
    by (simp add: HashMap_find_def hash_in_table [OF k])
  have keys: "c_string (cv_key (m_nodes h ! n)) = ks ! n" if "n \<in> set ?ns" for n
    using that h by (simp add: nodes_in_bound map_holds_def)
  show "HashMap_find h key = Some None" if "key \<notin> set ks"
    unfolding f using that keys by (auto simp: find_None_iff nodes_in_bound)
  show "HashMap_find h key = Some (Some i)" if i: "i < length ks" "ks ! i = key"
  proof -
    have "i \<in> set ?ns" using i by (simp add: nodes_in_bound)
    then obtain n where n: "List.find (\<lambda>n. c_string (cv_key (m_nodes h ! n)) = key) ?ns = Some n"
      using keys i(2) by (cases "List.find (\<lambda>n. c_string (cv_key (m_nodes h ! n)) = key) ?ns")
        (auto simp: find_None_iff)
    then have "n \<in> set ?ns" "c_string (cv_key (m_nodes h ! n)) = key" by (auto simp: find_Some_iff)
    then have "ks ! n = ks ! i" "n < length ks" using keys i(2) by (auto simp: nodes_in_bound)
    then have "n = i" using h i(1) by (simp add: map_holds_def nth_eq_iff_index_eq)
    then show ?thesis unfolding f n by simp
  qed
qed

lemma get_present:
  assumes "map_holds h ks" "good_key (ks ! i)" "i < length ks"
  shows "HashMap_get h (ks ! i) = Some (i, h)"
  using find_finds(2) [OF assms(1,2,3) refl] assms(2) by (simp add: HashMap_get_def good_key_def)

lemma nodes_in_append:
  "nodes_in (ks @ [k]) s = (if slot k = s then length ks # nodes_in ks s else nodes_in ks s)"
  by (auto simp: nodes_in_def nth_append intro!: filter_cong)

lemma get_new:
  assumes h: "map_holds h ks" and k: "good_key key" "key \<notin> set ks" and room: "length ks < VAR_SIZE"
  obtains h' where "HashMap_get h key = Some (length ks, h')" "map_holds h' (ks @ [key])"
    "\<And>i. i < length ks \<Longrightarrow> m_nodes h' ! i = (m_nodes h ! i)"
    "m_table h' = (m_table h)[slot key := Some (length ks)]"
proof -
  note slot = hash_in_table [OF k(1)]
  define n where "n = length ks"
  define buf where "buf = cv_key (m_nodes h ! n)"
  have buf: "length buf = 100" using h room by (simp add: buf_def n_def map_holds_def list_all_length)
  define k' where "k' = key @ [NUL] @ drop (length key + 1) buf"
  have k': "poke buf 0 (key @ [NUL]) = Some k'" "length k' = 100"
    using buf k(1) by (auto simp: poke_def k'_def good_key_def)
  have "NUL \<notin> set key" using k(1) by (auto simp: good_key_def list_all_iff)
  then have str: "c_string k' = key" by (simp add: k'_def c_string_append)
  define node where "node = (m_nodes h ! n)\<lparr>cv_key := k', hash_next := m_table h ! slot key, cv_next := m_node_head h\<rparr>"
  define h' where "h' = h\<lparr>m_node_index := n + 1, m_nodes := (m_nodes h)[n := node],
    m_table := (m_table h)[slot key := Some n], m_node_head := Some n\<rparr>"
  have idx: "m_node_index h = n" "m_capacity h = VAR_SIZE" using h by (simp_all add: map_holds_def n_def)
  have get: "HashMap_get h key = Some (n, h')"
    using find_finds(1) [OF h k] k(1) room k'(1) slot(1)
    by (simp add: HashMap_get_def good_key_def idx n_def [symmetric] Let_def buf_def [symmetric] node_def h'_def)
  have len: "length (m_nodes h) = VAR_SIZE" "length (m_table h) = VAR_SIZE" using h by (simp_all add: map_holds_def)
  have chains: "chain (\<lambda>i. hash_next (m_nodes h' ! i)) (m_table h' ! s) (nodes_in (ks @ [key]) s)"
    if s: "s < VAR_SIZE" for s
  proof -
    have "chain (\<lambda>i. hash_next (m_nodes h ! i)) (m_table h ! s) (nodes_in ks s)"
      using h s by (simp add: map_holds_def)
    then have "chain (\<lambda>i. hash_next (m_nodes h' ! i)) (m_table h ! s) (nodes_in ks s)"
      by (rule chain_cong) (auto simp: h'_def nodes_in_bound n_def)
    then show ?thesis
      using s slot(2) len room by (auto simp: nodes_in_append h'_def n_def node_def nth_list_update)
  qed
  have "chain (\<lambda>i. cv_next (m_nodes h ! i)) (m_node_head h) (rev [0..<n])"
    using h by (simp add: map_holds_def n_def)
  then have "chain (\<lambda>i. cv_next (m_nodes h' ! i)) (m_node_head h) (rev [0..<n])"
    by (rule chain_cong) (auto simp: h'_def)
  then have all: "chain (\<lambda>i. cv_next (m_nodes h' ! i)) (m_node_head h') (rev [0..<length (ks @ [key])])"
    using len room by (simp add: h'_def node_def n_def)
  have keys: "c_string (cv_key (m_nodes h' ! i)) = (ks @ [key]) ! i" if "i < length (ks @ [key])" for i
    using that h len room str by (auto simp: h'_def n_def node_def nth_append nth_list_update map_holds_def less_Suc_eq)
  have hundred: "list_all (\<lambda>node. length (cv_key node) = 100) (m_nodes h')"
    using h k'(2) room by (auto simp: h'_def n_def node_def list_all_length nth_list_update map_holds_def)
  have "map_holds h' (ks @ [key])"
    unfolding map_holds_def using chains all keys hundred h k room
    by (auto simp: h'_def n_def map_holds_def)
  then show ?thesis
    using that [of h'] get by (simp add: h'_def n_def)
qed

section \<open>Any sequence of calls\<close>

fun gets :: "hash_map \<Rightarrow> string list \<Rightarrow> (nat list \<times> hash_map) option" where
  "gets h [] = Some ([], h)"
| "gets h (key # keys) = do {
     (p, h) \<leftarrow> HashMap_get h key;
     (ps, h) \<leftarrow> gets h keys;
     Some (p # ps, h)
   }"

text \<open>The keys in the order of their first use.\<close>

fun first_uses :: "string list \<Rightarrow> string list \<Rightarrow> string list" where
  "first_uses ks [] = ks"
| "first_uses ks (key # keys) = first_uses (if key \<in> set ks then ks else ks @ [key]) keys"

lemma set_first_uses [simp]: "set (first_uses ks keys) = set ks \<union> set keys"
  by (induction ks keys rule: first_uses.induct) auto

lemma distinct_first_uses: "distinct ks \<Longrightarrow> distinct (first_uses ks keys)"
  by (induction ks keys rule: first_uses.induct) auto

lemma first_uses_prefix: "\<exists>more. first_uses ks keys = ks @ more"
proof (induction keys arbitrary: ks)
  case (Cons key keys)
  then obtain more where "first_uses (if key \<in> set ks then ks else ks @ [key]) keys =
      (if key \<in> set ks then ks else ks @ [key]) @ more" by blast
  then show ?case by simp
qed simp

lemma length_first_uses: "distinct ks \<Longrightarrow> length (first_uses ks keys) = card (set ks \<union> set keys)"
  using distinct_card [OF distinct_first_uses, of ks keys] by simp

lemma gets_hold:
  assumes "map_holds h ks" "list_all good_key keys" "card (set ks \<union> set keys) \<le> VAR_SIZE"
  shows "\<exists>ps h'. gets h keys = Some (ps, h') \<and> map_holds h' (first_uses ks keys) \<and>
    length ps = length keys \<and>
    (\<forall>i < length keys. ps ! i < length (first_uses ks keys) \<and> first_uses ks keys ! (ps ! i) = keys ! i)"
  using assms
proof (induction keys arbitrary: h ks)
  case (Cons key keys)
  have k: "good_key key" "list_all good_key keys" using Cons.prems(2) by simp_all
  have d: "distinct ks" using Cons.prems(1) by (simp add: map_holds_def)
  define ks' where "ks' = (if key \<in> set ks then ks else ks @ [key])"
  have set': "set ks' \<union> set keys = set ks \<union> set (key # keys)" by (auto simp: ks'_def)
  obtain p h1 where p: "HashMap_get h key = Some (p, h1)" "map_holds h1 ks'" "p < length ks'" "ks' ! p = key"
  proof (cases "key \<in> set ks")
    case True
    then obtain i where i: "i < length ks" "ks ! i = key" by (auto simp: in_set_conv_nth)
    show ?thesis
      by (rule that [of i h]) (use get_present [OF Cons.prems(1)] i k True Cons.prems(1) in \<open>auto simp: ks'_def\<close>)
  next
    case False
    have "card (set (ks @ [key])) \<le> card (set ks \<union> set (key # keys))" by (rule card_mono) auto
    then have "card (set (ks @ [key])) \<le> VAR_SIZE" using Cons.prems(3) by (rule le_trans)
    then have room: "length ks < VAR_SIZE" using d False distinct_card [of "ks @ [key]"] by simp
    from get_new [OF Cons.prems(1) k(1) False room] show ?thesis
      using that False by (metis ks'_def length_append_singleton lessI nth_append_length)
  qed
  have card': "card (set ks' \<union> set keys) \<le> VAR_SIZE" using Cons.prems(3) unfolding set' .
  obtain ps h2 where rest: "gets h1 keys = Some (ps, h2)" "map_holds h2 (first_uses ks' keys)" "length ps = length keys"
    "\<forall>i < length keys. ps ! i < length (first_uses ks' keys) \<and> first_uses ks' keys ! (ps ! i) = keys ! i"
    using Cons.IH [OF p(2) k(2) card'] by blast
  obtain more where "first_uses ks' keys = ks' @ more" using first_uses_prefix by blast
  then have "p < length (first_uses ks' keys)" "first_uses ks' keys ! p = key"
    using p(3,4) by (simp_all add: nth_append)
  moreover have "first_uses ks (key # keys) = first_uses ks' keys" by (simp add: ks'_def)
  ultimately show ?case using p(1) rest
    by (auto simp: nth_Cons less_Suc_eq_0_disj)
qed (auto simp: map_holds_def)

lemma get_full:
  assumes h: "map_holds h ks" and k: "good_key key" "key \<notin> set ks" and full: "length ks = VAR_SIZE"
  shows "HashMap_get h key = None"
  using find_finds(1) [OF h k] h full by (simp add: HashMap_get_def map_holds_def)

lemma get_holds:
  assumes h: "map_holds h ks" and k: "good_key key" and get: "HashMap_get h key = Some (p, h')"
  shows "map_holds h' (if key \<in> set ks then ks else ks @ [key])"
proof (cases "key \<in> set ks")
  case True
  then obtain i where "i < length ks" "ks ! i = key" by (auto simp: in_set_conv_nth)
  then show ?thesis using get_present [OF h, of i] k get h True by simp
next
  case False
  have "length ks \<le> VAR_SIZE" using h by (simp add: map_holds_def)
  moreover have "length ks \<noteq> VAR_SIZE" using get_full [OF h k False] get by auto
  ultimately have "length ks < VAR_SIZE" by simp
  then obtain h'' where "HashMap_get h key = Some (length ks, h'')" "map_holds h'' (ks @ [key])"
    by (rule get_new [OF h k False])
  then show ?thesis using get False by simp
qed

section \<open>Properties\<close>

text \<open>
  C20: \<open>get\<close> gives every key a node of its own: after any sequence of calls for keys that fit, with at
  most 1024 different ones, two calls returned the same node exactly when their keys were
  equal, and \<open>isExist\<close> answers for the keys used so far.
\<close>

theorem get_interns:
  assumes "\<And>i. length (cv_key (fresh i)) = 100" "list_all good_key keys" "card (set keys) \<le> VAR_SIZE"
  shows "\<exists>ps h. gets (HashMap_new fresh) keys = Some (ps, h) \<and> length ps = length keys \<and>
    (\<forall>i < length keys. \<forall>j < length keys. ps ! i = ps ! j \<longleftrightarrow> keys ! i = keys ! j) \<and>
    (\<forall>key. good_key key \<longrightarrow> isExist h key = Some (key \<in> set keys))"
proof -
  let ?ks = "first_uses [] keys"
  obtain ps h where g: "gets (HashMap_new fresh) keys = Some (ps, h)" "map_holds h ?ks" "length ps = length keys"
    "\<forall>i < length keys. ps ! i < length ?ks \<and> ?ks ! (ps ! i) = keys ! i"
    using gets_hold [OF holds_new [of fresh, OF assms(1)] assms(2)] assms(3) by auto
  have d: "distinct ?ks" by (simp add: distinct_first_uses)
  have same: "ps ! i = ps ! j \<longleftrightarrow> keys ! i = keys ! j" if "i < length keys" "j < length keys" for i j
    using g(4) that nth_eq_iff_index_eq [OF d, of "ps ! i" "ps ! j"] by metis
  have exist: "isExist h key = Some (key \<in> set keys)" if "good_key key" for key
  proof (cases "key \<in> set ?ks")
    case True
    then obtain i where "i < length ?ks" "?ks ! i = key" unfolding in_set_conv_nth by blast
    then show ?thesis using find_finds(2) [OF g(2) that] True by (simp add: isExist_def)
  qed (use find_finds(1) [OF g(2) that] in \<open>simp add: isExist_def\<close>)
  from g(1,3) same exist show ?thesis by blast
qed

definition unset_node :: "nat \<Rightarrow> cvar_t" where
  "unset_node i = \<lparr>cv_key = replicate 100 CHR ''x'', cv_value = [], hash_next = Some 7, cv_next = Some 7\<rparr>"

theorem get_interns_witness:
  "\<exists>ps h. gets (HashMap_new unset_node) [''hp'', ''HP'', ''mp'', ''hp''] = Some (ps, h) \<and> length ps = 4 \<and>
    ps ! 0 = ps ! 3 \<and> ps ! 0 \<noteq> ps ! 1 \<and> ps ! 1 \<noteq> ps ! 2 \<and>
    isExist h ''mp'' = Some True \<and> isExist h ''xp'' = Some False"
proof -
  have "\<exists>ps h. gets (HashMap_new unset_node) [''hp'', ''HP'', ''mp'', ''hp''] = Some (ps, h) \<and>
      length ps = length [''hp'', ''HP'', ''mp'', ''hp''] \<and>
      (\<forall>i < length [''hp'', ''HP'', ''mp'', ''hp'']. \<forall>j < length [''hp'', ''HP'', ''mp'', ''hp'']. ps ! i = ps ! j \<longleftrightarrow>
        [''hp'', ''HP'', ''mp'', ''hp''] ! i = [''hp'', ''HP'', ''mp'', ''hp''] ! j) \<and>
      (\<forall>key. good_key key \<longrightarrow> isExist h key = Some (key \<in> set [''hp'', ''HP'', ''mp'', ''hp'']))"
    by (rule get_interns) (simp_all add: unset_node_def good_key_def VAR_SIZE_def card_insert_if)
  then obtain ps h where g: "gets (HashMap_new unset_node) [''hp'', ''HP'', ''mp'', ''hp''] = Some (ps, h)" "length ps = 4"
    and same: "\<forall>i < 4. \<forall>j < 4. ps ! i = ps ! j \<longleftrightarrow> [''hp'', ''HP'', ''mp'', ''hp''] ! i = [''hp'', ''HP'', ''mp'', ''hp''] ! j"
    and exist: "\<forall>key. good_key key \<longrightarrow> isExist h key = Some (key \<in> set [''hp'', ''HP'', ''mp'', ''hp''])"
    by auto
  have "ps ! 0 = ps ! 3" "ps ! 0 \<noteq> ps ! 1" "ps ! 1 \<noteq> ps ! 2"
    using same [rule_format, of 0 3] same [rule_format, of 0 1] same [rule_format, of 1 2] by simp_all
  moreover have "isExist h ''mp'' = Some True" "isExist h ''xp'' = Some False"
    using exist by (simp_all add: good_key_def)
  ultimately show ?thesis using g by blast
qed

text \<open>
  C34: Every map that calls of \<open>get\<close> produce is well formed: its nodes are the keys in the order of their
  first use, each slot chains exactly the nodes of its keys, without a cycle, and the list of
  all nodes is complete.
\<close>

theorem maps_well_formed:
  assumes "\<And>i. length (cv_key (fresh i)) = 100" "list_all good_key keys"
    "gets (HashMap_new fresh) keys = Some (ps, h)"
  shows "map_holds h (first_uses [] keys)"
proof -
  have "map_holds h (first_uses ks keys)"
    if "map_holds h0 ks" "list_all good_key keys" "gets h0 keys = Some (ps, h)" for h0 ks keys ps
    using that
  proof (induction keys arbitrary: h0 ks ps)
    case (Cons key keys)
    then obtain p h1 ps' where p: "HashMap_get h0 key = Some (p, h1)" "gets h1 keys = Some (ps', h)"
      by (auto simp: bind_eq_Some_conv)
    have k: "good_key key" "list_all good_key keys" using Cons.prems(2) by simp_all
    show ?case
      using Cons.IH [OF get_holds [OF Cons.prems(1) k(1) p(1)] k(2) p(2)] by simp
  qed simp
  then show ?thesis using holds_new [of fresh] assms by blast
qed

theorem maps_well_formed_witness:
  "\<exists>ps h. gets (HashMap_new unset_node) [''a'', ''b'', ''A''] = Some (ps, h) \<and> map_holds h [''a'', ''b'', ''A'']"
proof -
  obtain ps h where "gets (HashMap_new unset_node) [''a'', ''b'', ''A''] = Some (ps, h)"
    using gets_hold [OF holds_new, of unset_node "[''a'', ''b'', ''A'']"]
    by (auto simp: unset_node_def good_key_def VAR_SIZE_def card_insert_if)
  with maps_well_formed [of unset_node "[''a'', ''b'', ''A'']" ps h] show ?thesis
    by (simp add: unset_node_def good_key_def)
qed

text \<open>
  For an ASCII key, the assertions of \<open>get\<close> fail exactly when the key has a hundred characters
  or more, or when it is new and the 1024 nodes are used up.
\<close>

theorem get_asserts:
  assumes "map_holds h ks" "list_all (\<lambda>c. c \<noteq> NUL \<and> (of_char c :: int) < 128) key"
  shows "HashMap_get h key = None \<longleftrightarrow> 100 \<le> length key \<or> key \<notin> set ks \<and> length ks = VAR_SIZE"
proof (cases "100 \<le> length key")
  case False
  with assms(2) have k: "good_key key" by (simp add: good_key_def)
  show ?thesis
  proof (cases "key \<in> set ks")
    case True
    then obtain i where "i < length ks" "ks ! i = key" by (auto simp: in_set_conv_nth)
    then show ?thesis using get_present [OF assms(1), of i] k True False by simp
  next
    case new: False
    have "length ks = VAR_SIZE \<or> length ks < VAR_SIZE" using assms(1) by (auto simp: map_holds_def)
    then show ?thesis
    proof
      assume "length ks < VAR_SIZE"
      then obtain h' where "HashMap_get h key = Some (length ks, h')" by (rule get_new [OF assms(1) k new])
      then show ?thesis using \<open>length ks < VAR_SIZE\<close> False by simp
    qed (use get_full [OF assms(1) k new] new in simp)
  qed
qed (simp add: HashMap_get_def)

theorem get_asserts_witness:
  "HashMap_get (HashMap_new unset_node) (replicate 100 CHR ''k'') = None"
  "HashMap_get (HashMap_new unset_node) (replicate 99 CHR ''k'') \<noteq> None"
  using get_asserts [OF holds_new, of unset_node "replicate 100 CHR ''k''"]
    get_asserts [OF holds_new, of unset_node "replicate 99 CHR ''k''"]
  by (simp_all add: unset_node_def list_all_iff VAR_SIZE_def)

end
