(* ===== verification/MsgQueue.thy ===== *)
theory MsgQueue
  imports Main
begin

text \<open>
  The message queue between threads, \<open>net_libs/libbase/export/yy_queue.h\<close>: an array behind a mutex, and
  a semaphore that counts its elements.  The calls of Windows and the copies are one step each, and
  the steps of all threads interleave; a thread is a number.

  The numbers the code passes as time limits do not matter here: a wait may time out whenever it
  cannot succeed at once.  No thread ends while it holds the mutex.
\<close>

section \<open>The code\<close>

text \<open>Where a thread is in \<open>append\<close> or \<open>remove\<close>; what it copies is part of it.\<close>

datatype 'a at =
    Idle
  | AppendWait 'a
  | AppendLocked 'a
  | AppendCopy 'a nat
  | AppendUnlock 'a
  | AppendFull
  | RemoveWait
  | RemoveLocked
  | RemoveMove 'a
  | RemoveUnlock 'a

text \<open>How a call ended, with what it appended or returned, or the message it threw.\<close>

datatype 'a outcome = Appended 'a | Removed 'a | Exception string

record 'a msg_queue =
  mutex_owner :: "nat option"
  semaphore :: nat
  m_max_size :: nat
  m_queue :: "'a list"
  thread_at :: "nat \<Rightarrow> 'a at"
  outcomes :: "(nat \<times> 'a outcome) list"

text \<open>
  \<open>outcomes\<close> is the history of the calls in the order in which they ended; no step reads it.
  \<open>junk\<close>: the contents of new memory.
\<close>

definition MsgQueue_new :: "nat \<Rightarrow> (nat \<Rightarrow> 'a) \<Rightarrow> 'a msg_queue" where
  "MsgQueue_new max_size junk =
     \<lparr>mutex_owner = None, semaphore = 0, m_max_size = max_size, m_queue = map junk [0..<max_size],
      thread_at = (\<lambda>_. Idle), outcomes = []\<rparr>"

definition goes :: "nat \<Rightarrow> 'a at \<Rightarrow> 'a msg_queue \<Rightarrow> 'a msg_queue" where
  "goes t p s = s\<lparr>thread_at := (thread_at s)(t := p)\<rparr>"

definition ends_with :: "nat \<Rightarrow> 'a outcome \<Rightarrow> 'a msg_queue \<Rightarrow> 'a msg_queue" where
  "ends_with t r s = goes t Idle (s\<lparr>outcomes := outcomes s @ [(t, r)]\<rparr>)"

definition append_step :: "nat \<Rightarrow> 'a msg_queue \<Rightarrow> 'a msg_queue option" where
  "append_step t s =
     (case thread_at s t of
        AppendWait d \<Rightarrow>
          if mutex_owner s = None then Some (goes t (AppendLocked d) (s\<lparr>mutex_owner := Some t\<rparr>)) else None
      | AppendLocked d \<Rightarrow>
          if semaphore s < m_max_size s
          then Some (goes t (AppendCopy d (semaphore s))
            (s\<lparr>semaphore := semaphore s + 1\<rparr>))
          else Some (goes t AppendFull s)
      | AppendFull \<Rightarrow> Some (ends_with t (Exception ''append to queue error, the queue is full'') (s\<lparr>mutex_owner := None\<rparr>))
      | AppendCopy d prev_count \<Rightarrow>
          if prev_count < length (m_queue s)
          then Some (goes t (AppendUnlock d) (s\<lparr>m_queue := (m_queue s)[prev_count := d]\<rparr>)) else None
      | AppendUnlock d \<Rightarrow> Some (ends_with t (Appended d) (s\<lparr>mutex_owner := None\<rparr>))
      | _ \<Rightarrow> None)"

definition remove_step :: "nat \<Rightarrow> 'a msg_queue \<Rightarrow> 'a msg_queue option" where
  "remove_step t s =
     (case thread_at s t of
        RemoveWait \<Rightarrow>
          if mutex_owner s = None \<and> 0 < semaphore s
          then Some (goes t RemoveLocked (s\<lparr>mutex_owner := Some t, semaphore := semaphore s - 1\<rparr>)) else None
      | RemoveLocked \<Rightarrow>
          (case m_queue s of
             [] \<Rightarrow> None
           | d # _ \<Rightarrow> Some (goes t (RemoveMove d) s))
      | RemoveMove d \<Rightarrow> Some (goes t (RemoveUnlock d) (s\<lparr>m_queue := tl (m_queue s) @ [last (m_queue s)]\<rparr>))
      | RemoveUnlock d \<Rightarrow> Some (ends_with t (Removed d) (s\<lparr>mutex_owner := None\<rparr>))
      | _ \<Rightarrow> None)"

definition timeout_step :: "nat \<Rightarrow> 'a msg_queue \<Rightarrow> 'a msg_queue option" where
  "timeout_step t s =
     (case thread_at s t of
        AppendWait d \<Rightarrow>
          if mutex_owner s \<noteq> None then Some (ends_with t (Exception ''append to queue timeout.'') s) else None
      | RemoveWait \<Rightarrow>
          if mutex_owner s \<noteq> None \<or> semaphore s = 0
          then Some (ends_with t (Exception ''remove from queue timeout'') s) else None
      | _ \<Rightarrow> None)"

text \<open>Threads call the two functions at any time, and their steps interleave in any order.\<close>

inductive queue_run :: "'a msg_queue \<Rightarrow> 'a msg_queue \<Rightarrow> bool" for s :: "'a msg_queue" where
  begin_run: "queue_run s s"
| call_append: "queue_run s u \<Longrightarrow> thread_at u t = Idle \<Longrightarrow> queue_run s (goes t (AppendWait d) u)"
| call_remove: "queue_run s u \<Longrightarrow> thread_at u t = Idle \<Longrightarrow> queue_run s (goes t RemoveWait u)"
| append_steps: "queue_run s u \<Longrightarrow> append_step t u = Some v \<Longrightarrow> queue_run s v"
| remove_steps: "queue_run s u \<Longrightarrow> remove_step t u = Some v \<Longrightarrow> queue_run s v"
| times_out: "queue_run s u \<Longrightarrow> timeout_step t u = Some v \<Longrightarrow> queue_run s v"

section \<open>The invariant\<close>

fun holding :: "'a at \<Rightarrow> bool" where
  "holding Idle = False"
| "holding (AppendWait d) = False"
| "holding RemoveWait = False"
| "holding p = True"

definition appended :: "(nat \<times> 'a outcome) list \<Rightarrow> 'a list" where
  "appended rs = concat (map (\<lambda>(t, r). case r of Appended d \<Rightarrow> [d] | _ \<Rightarrow> []) rs)"

definition removed :: "(nat \<times> 'a outcome) list \<Rightarrow> 'a list" where
  "removed rs = concat (map (\<lambda>(t, r). case r of Removed d \<Rightarrow> [d] | _ \<Rightarrow> []) rs)"

text \<open>
  What the array and the history must be, by the place where the owner of the mutex is.
\<close>

fun queue_fits :: "'a list \<Rightarrow> 'a list \<Rightarrow> nat \<Rightarrow> 'a list \<Rightarrow> 'a at \<Rightarrow> bool" where
  "queue_fits ins outs k q (AppendCopy d i) \<longleftrightarrow> k = Suc i \<and> ins = outs @ take i q"
| "queue_fits ins outs k q (AppendUnlock d) \<longleftrightarrow> 0 < k \<and> ins @ [d] = outs @ take k q"
| "queue_fits ins outs k q RemoveLocked \<longleftrightarrow> k < length q \<and> ins = outs @ take (Suc k) q"
| "queue_fits ins outs k q (RemoveMove d) \<longleftrightarrow> k < length q \<and> ins = outs @ take (Suc k) q \<and> d = hd q"
| "queue_fits ins outs k q (RemoveUnlock d) \<longleftrightarrow> k < length q \<and> ins = outs @ d # take k q"
| "queue_fits ins outs k q p \<longleftrightarrow> ins = outs @ take k q"

fun owner_at :: "nat option \<Rightarrow> (nat \<Rightarrow> 'a at) \<Rightarrow> 'a at" where
  "owner_at None f = Idle"
| "owner_at (Some t) f = f t"

definition queue_ok :: "'a msg_queue \<Rightarrow> bool" where
  "queue_ok s \<longleftrightarrow>
     length (m_queue s) = m_max_size s \<and> semaphore s \<le> m_max_size s \<and>
     (\<forall>t. holding (thread_at s t) \<longleftrightarrow> mutex_owner s = Some t) \<and>
     queue_fits (appended (outcomes s)) (removed (outcomes s)) (semaphore s) (m_queue s)
       (owner_at (mutex_owner s) (thread_at s))"

lemma history_snoc [simp]:
  "appended (rs @ [(t, r)]) = appended rs @ (case r of Appended d \<Rightarrow> [d] | _ \<Rightarrow> [])"
  "removed (rs @ [(t, r)]) = removed rs @ (case r of Removed d \<Rightarrow> [d] | _ \<Rightarrow> [])"
  by (simp_all add: appended_def removed_def)

lemma queue_ok_new: "queue_ok (MsgQueue_new n junk)"
  by (simp add: queue_ok_def MsgQueue_new_def appended_def removed_def)

text \<open>A thread that does not hold the mutex may move on among such places.\<close>

lemma queue_ok_goes:
  assumes "queue_ok s" "\<not> holding (thread_at s t)" "\<not> holding p"
  shows "queue_ok (goes t p s)"
proof -
  have "mutex_owner s \<noteq> Some t" using assms by (auto simp: queue_ok_def)
  moreover from this have "owner_at (mutex_owner s) ((thread_at s)(t := p)) = owner_at (mutex_owner s) (thread_at s)"
    by (cases "mutex_owner s") auto
  ultimately show ?thesis using assms by (simp add: queue_ok_def goes_def)
qed

lemma queue_ok_timeout:
  assumes "queue_ok s" "timeout_step t s = Some s'"
  shows "queue_ok s'"
proof -
  have ok: "queue_ok (s\<lparr>outcomes := outcomes s @ [(t, Exception m)]\<rparr>)" for m
    using assms(1) unfolding queue_ok_def by simp
  have "\<not> holding (thread_at s t)" using assms(2) by (auto simp: timeout_step_def split: at.splits)
  then show ?thesis
    using queue_ok_goes [where t = t and p = Idle, OF ok] assms(2)
    by (auto simp: timeout_step_def ends_with_def split: at.splits if_splits)
qed

text \<open>A step of the owner, or one that makes its thread the owner.\<close>

lemma queue_okI:
  assumes "\<And>u. u \<noteq> t \<Longrightarrow> \<not> holding (thread_at s u)"
    "length (m_queue s') = m_max_size s'" "semaphore s' \<le> m_max_size s'"
    "thread_at s' = (thread_at s)(t := p)" "mutex_owner s' = (if holding p then Some t else None)"
    "queue_fits (appended (outcomes s')) (removed (outcomes s')) (semaphore s') (m_queue s') p"
  shows "queue_ok s'"
proof -
  have "holding (thread_at s' u) \<longleftrightarrow> mutex_owner s' = Some u" for u
    using assms(1) [of u] assms(4,5) by auto
  moreover have "queue_fits (appended (outcomes s')) (removed (outcomes s')) (semaphore s') (m_queue s')
      (owner_at (mutex_owner s') (thread_at s'))"
    using assms(4-6) by (cases p) auto
  ultimately show ?thesis using assms(2,3) by (simp add: queue_ok_def)
qed

lemma others_wait:
  assumes "queue_ok s" "mutex_owner s = None \<or> mutex_owner s = Some t" "u \<noteq> t"
  shows "\<not> holding (thread_at s u)"
  using assms by (auto simp: queue_ok_def)

lemma queue_ok_append:
  assumes ok: "queue_ok s" and step: "append_step t s = Some s'"
  shows "queue_ok s'"
proof -
  note sizes = ok [unfolded queue_ok_def]
  show ?thesis
  proof (cases "thread_at s t")
    case (AppendWait d)
    then have free: "mutex_owner s = None" "s' = goes t (AppendLocked d) (s\<lparr>mutex_owner := Some t\<rparr>)"
      using step by (auto simp: append_step_def split: if_splits)
    show ?thesis
      by (rule queue_okI [where p = "AppendLocked d" and t = t and s = s])
        (use others_wait [OF ok] sizes free in \<open>auto simp: goes_def\<close>)
  next
    case (AppendLocked d)
    then have own: "mutex_owner s = Some t" using sizes by (metis holding.simps(4))
    show ?thesis
    proof (cases "semaphore s < m_max_size s")
      case True
      then have s': "s' = goes t (AppendCopy d (semaphore s)) (s\<lparr>semaphore := semaphore s + 1\<rparr>)"
        using step AppendLocked by (simp add: append_step_def)
      show ?thesis
        by (rule queue_okI [where p = "AppendCopy d (semaphore s)" and t = t and s = s])
          (use others_wait [OF ok] sizes own AppendLocked True in \<open>auto simp: goes_def s'\<close>)
    next
      case False
      then have s': "s' = goes t AppendFull s" using step AppendLocked by (simp add: append_step_def)
      show ?thesis
        by (rule queue_okI [where p = AppendFull and t = t and s = s])
          (use others_wait [OF ok] sizes own AppendLocked in \<open>auto simp: goes_def s'\<close>)
    qed
  next
    case (AppendCopy d i)
    then have own: "mutex_owner s = Some t" using sizes by (metis holding.simps(5))
    have s': "i < length (m_queue s)" "s' = goes t (AppendUnlock d) (s\<lparr>m_queue := (m_queue s)[i := d]\<rparr>)"
      using step AppendCopy by (auto simp: append_step_def split: if_splits)
    show ?thesis
      by (rule queue_okI [where p = "AppendUnlock d" and t = t and s = s])
        (use others_wait [OF ok] sizes own AppendCopy s' in \<open>auto simp: goes_def take_Suc_conv_app_nth\<close>)
  next
    case (AppendUnlock d)
    then have own: "mutex_owner s = Some t" using sizes by (metis holding.simps(6))
    have s': "s' = ends_with t (Appended d) (s\<lparr>mutex_owner := None\<rparr>)"
      using step AppendUnlock by (simp add: append_step_def)
    show ?thesis
      by (rule queue_okI [where p = Idle and t = t and s = s])
        (use others_wait [OF ok] sizes own AppendUnlock in \<open>auto simp: goes_def ends_with_def s'\<close>)
  next
    case AppendFull
    then have own: "mutex_owner s = Some t" using sizes by (metis holding.simps(7))
    have s': "s' = ends_with t (Exception ''append to queue error, the queue is full'') (s\<lparr>mutex_owner := None\<rparr>)"
      using step AppendFull by (simp add: append_step_def)
    show ?thesis
      by (rule queue_okI [where p = Idle and t = t and s = s])
        (use others_wait [OF ok] sizes own AppendFull in \<open>auto simp: goes_def ends_with_def s'\<close>)
  qed (use step in \<open>simp_all add: append_step_def\<close>)
qed

lemma queue_ok_remove:
  assumes ok: "queue_ok s" and step: "remove_step t s = Some s'"
  shows "queue_ok s'"
proof -
  note sizes = ok [unfolded queue_ok_def]
  show ?thesis
  proof (cases "thread_at s t")
    case RemoveWait
    then have free: "mutex_owner s = None" "0 < semaphore s"
        "s' = goes t RemoveLocked (s\<lparr>mutex_owner := Some t, semaphore := semaphore s - 1\<rparr>)"
      using step by (auto simp: remove_step_def split: if_splits)
    show ?thesis
      by (rule queue_okI [where p = RemoveLocked and t = t and s = s])
        (use others_wait [OF ok] sizes free in \<open>auto simp: goes_def\<close>)
  next
    case RemoveLocked
    then have own: "mutex_owner s = Some t" using sizes by (metis holding.simps(8))
    obtain d q where q: "m_queue s = d # q" "s' = goes t (RemoveMove d) s"
      using step RemoveLocked by (auto simp: remove_step_def split: list.splits)
    show ?thesis
      by (rule queue_okI [where p = "RemoveMove d" and t = t and s = s])
        (use others_wait [OF ok] sizes own RemoveLocked q in \<open>auto simp: goes_def\<close>)
  next
    case (RemoveMove d)
    then have own: "mutex_owner s = Some t" using sizes by (metis holding.simps(9))
    have s': "s' = goes t (RemoveUnlock d) (s\<lparr>m_queue := tl (m_queue s) @ [last (m_queue s)]\<rparr>)"
      using step RemoveMove by (simp add: remove_step_def)
    have f: "semaphore s < length (m_queue s)" "d = hd (m_queue s)"
      "appended (outcomes s) = removed (outcomes s) @ take (Suc (semaphore s)) (m_queue s)"
      using sizes own RemoveMove by simp_all
    then obtain q where q: "m_queue s = d # q" by (cases "m_queue s") auto
    have len: "length (m_queue s) = m_max_size s" using sizes by blast
    show ?thesis
    proof (rule queue_okI [where p = "RemoveUnlock d" and t = t and s = s])
      show "\<not> holding (thread_at s u)" if "u \<noteq> t" for u using others_wait [OF ok _ that] own by blast
      show "queue_fits (appended (outcomes s')) (removed (outcomes s')) (semaphore s') (m_queue s') (RemoveUnlock d)"
        using f(1,3) by (simp add: s' goes_def q)
    qed (use len f(1) own in \<open>simp_all add: s' goes_def q\<close>)
  next
    case (RemoveUnlock d)
    then have own: "mutex_owner s = Some t" using sizes by (metis holding.simps(10))
    have s': "s' = ends_with t (Removed d) (s\<lparr>mutex_owner := None\<rparr>)"
      using step RemoveUnlock by (simp add: remove_step_def)
    show ?thesis
      by (rule queue_okI [where p = Idle and t = t and s = s])
        (use others_wait [OF ok] sizes own RemoveUnlock in \<open>auto simp: goes_def ends_with_def s'\<close>)
  qed (use step in \<open>simp_all add: remove_step_def\<close>)
qed

lemma steps_keep_size:
  "append_step t s = Some s' \<Longrightarrow> m_max_size s' = m_max_size s"
  "remove_step t s = Some s' \<Longrightarrow> m_max_size s' = m_max_size s"
  "timeout_step t s = Some s' \<Longrightarrow> m_max_size s' = m_max_size s"
  by (auto simp: append_step_def remove_step_def timeout_step_def goes_def ends_with_def
      split: at.splits if_splits list.splits)

lemma queue_run_ok: "queue_run s u \<Longrightarrow> queue_ok s \<Longrightarrow> queue_ok u \<and> m_max_size u = m_max_size s"
proof (induction rule: queue_run.induct)
  case (call_append u t d)
  then show ?case using queue_ok_goes [of u t "AppendWait d"] by (simp add: goes_def)
next
  case (call_remove u t)
  then show ?case using queue_ok_goes [of u t RemoveWait] by (simp add: goes_def)
next
  case (append_steps u t v)
  then show ?case using queue_ok_append steps_keep_size(1) by metis
next
  case (remove_steps u t v)
  then show ?case using queue_ok_remove steps_keep_size(2) by metis
next
  case (times_out u t v)
  then show ?case using queue_ok_timeout steps_keep_size(3) by metis
qed simp

text \<open>A schedule, for running the queue on concrete calls.\<close>

datatype 'a event = CallAppend nat 'a | CallRemove nat | Step nat | TimeOut nat

definition own_step :: "nat \<Rightarrow> 'a msg_queue \<Rightarrow> 'a msg_queue option" where
  "own_step t s = (case append_step t s of Some s' \<Rightarrow> Some s' | None \<Rightarrow> remove_step t s)"

fun event_step :: "'a event \<Rightarrow> 'a msg_queue \<Rightarrow> 'a msg_queue option" where
  "event_step (CallAppend t d) s = (if holding (thread_at s t) then None else
     case thread_at s t of Idle \<Rightarrow> Some (goes t (AppendWait d) s) | _ \<Rightarrow> None)"
| "event_step (CallRemove t) s = (if holding (thread_at s t) then None else
     case thread_at s t of Idle \<Rightarrow> Some (goes t RemoveWait s) | _ \<Rightarrow> None)"
| "event_step (Step t) s = own_step t s"
| "event_step (TimeOut t) s = timeout_step t s"

fun play :: "'a event list \<Rightarrow> 'a msg_queue \<Rightarrow> 'a msg_queue option" where
  "play [] s = Some s"
| "play (e # es) s = (case event_step e s of None \<Rightarrow> None | Some s' \<Rightarrow> play es s')"

lemma own_step_run: "queue_run s u \<Longrightarrow> own_step t u = Some v \<Longrightarrow> queue_run s v"
  by (auto simp: own_step_def split: option.splits intro: queue_run.intros)

lemma play_run: "play es u = Some v \<Longrightarrow> queue_run s u \<Longrightarrow> queue_run s v"
proof (induction es arbitrary: u)
  case (Cons e es)
  then obtain w where w: "event_step e u = Some w" "play es w = Some v" by (auto split: option.splits)
  have "queue_run s w"
    using w(1) Cons.prems(2) own_step_run
    by (cases e) (auto split: at.splits if_splits intro: queue_run.intros)
  with Cons.IH w(2) show ?case by blast
qed simp

section \<open>Properties\<close>

lemma fits_waiting:
  assumes "queue_fits ins outs k q p" "k \<le> length q"
  shows "\<exists>waiting. ins = outs @ waiting \<and> length waiting \<le> length q \<and> (\<not> holding p \<longrightarrow> waiting = take k q)"
proof (cases p)
  case (AppendUnlock d)
  then obtain i where "k = Suc i" "ins @ [d] = (outs @ take i q) @ [q ! i]"
    using assms by (cases k) (auto simp: take_Suc_conv_app_nth)
  then show ?thesis using AppendUnlock assms(2) by auto
qed (use assms in auto)

text \<open>
  C13: Whatever threads append and remove, and however their steps interleave, messages come out in the
  order in which they went in, none lost and none twice: the messages appended so far are those
  removed so far followed by at most \<open>max_size\<close> waiting ones, which lie at the front of the array
  whenever no thread holds the mutex.
\<close>

theorem messages_in_order:
  assumes "queue_run (MsgQueue_new max_size junk) s"
  shows "\<exists>waiting. appended (outcomes s) = removed (outcomes s) @ waiting \<and> length waiting \<le> max_size \<and>
    (mutex_owner s = None \<longrightarrow> waiting = take (semaphore s) (m_queue s))"
proof -
  have "queue_ok s" "m_max_size s = max_size"
    using queue_run_ok [OF assms queue_ok_new] by (simp_all add: MsgQueue_new_def)
  then have f: "queue_fits (appended (outcomes s)) (removed (outcomes s)) (semaphore s) (m_queue s)
      (owner_at (mutex_owner s) (thread_at s))" "semaphore s \<le> length (m_queue s)" "length (m_queue s) = max_size"
    by (simp_all add: queue_ok_def)
  from fits_waiting [OF f(1,2)] f(3) show ?thesis by (cases "mutex_owner s") auto
qed

definition two_producers :: "int event list" where
  "two_producers = [CallAppend 1 10, CallAppend 2 20, CallRemove 3, Step 2, TimeOut 1, Step 2, Step 2, Step 2,
     Step 3, Step 3, CallAppend 1 30, Step 3, Step 3, Step 1, Step 1, Step 1, Step 1]"

theorem messages_in_order_witness:
  "\<exists>s. play two_producers (MsgQueue_new 4 (\<lambda>_. 0)) = Some s \<and> appended (outcomes s) = [20, 30] \<and>
    removed (outcomes s) = [20] \<and>
    (\<exists>waiting. [20, 30] = [20] @ waiting \<and> length waiting \<le> 4 \<and> waiting = take (semaphore s) (m_queue s))"
proof -
  obtain s where s: "play two_producers (MsgQueue_new 4 (\<lambda>_. 0)) = Some s"
    "appended (outcomes s) = [20, 30]" "removed (outcomes s) = [20]" "mutex_owner s = None"
    by (simp add: two_producers_def MsgQueue_new_def own_step_def append_step_def remove_step_def timeout_step_def
        goes_def ends_with_def appended_def removed_def upt_rec)
  from messages_in_order [OF play_run [OF s(1) queue_run.begin_run], unfolded s(2,3)] s(4)
  have "\<exists>waiting. [20, 30] = [20] @ waiting \<and> length waiting \<le> 4 \<and> waiting = take (semaphore s) (m_queue s)" by blast
  with s(1-3) show ?thesis by blast
qed

fun own_steps :: "nat \<Rightarrow> nat \<Rightarrow> 'a msg_queue \<Rightarrow> 'a msg_queue option" where
  "own_steps 0 t s = Some s"
| "own_steps (Suc k) t s = (case own_step t s of None \<Rightarrow> None | Some s' \<Rightarrow> own_steps k t s')"

text \<open>
  C19: The mutex is always released: whichever thread holds it, at most three steps of its own give
  it back, whatever the others do, and no other thread is past the mutex meanwhile.
\<close>

theorem mutex_is_released:
  assumes "queue_run (MsgQueue_new max_size junk) s" "mutex_owner s = Some t"
  shows "\<exists>k s'. k \<le> 3 \<and> own_steps k t s = Some s' \<and> mutex_owner s' = None \<and> thread_at s' t = Idle \<and>
    (\<forall>u. u \<noteq> t \<longrightarrow> \<not> holding (thread_at s u))"
proof -
  have ok: "queue_ok s" using queue_run_ok [OF assms(1) queue_ok_new] by simp
  then have f: "holding (thread_at s t)" "length (m_queue s) = m_max_size s" "semaphore s \<le> m_max_size s"
    "queue_fits (appended (outcomes s)) (removed (outcomes s)) (semaphore s) (m_queue s) (thread_at s t)"
    "\<forall>u. u \<noteq> t \<longrightarrow> \<not> holding (thread_at s u)"
    using assms(2) by (auto simp: queue_ok_def)
  note defs = own_step_def append_step_def remove_step_def goes_def ends_with_def numeral_eq_Suc
  have "\<exists>k s'. k \<le> 3 \<and> own_steps k t s = Some s' \<and> mutex_owner s' = None \<and> thread_at s' t = Idle"
  proof (cases "thread_at s t")
    case (AppendLocked d)
    show ?thesis
    proof (cases "semaphore s < m_max_size s")
      case True
      then show ?thesis using AppendLocked f(2) by (intro exI [of _ 3]) (simp add: defs)
    next
      case False
      then show ?thesis using AppendLocked by (intro exI [of _ 2]) (simp add: defs)
    qed
  next
    case (AppendCopy d i)
    then show ?thesis using f(2-4) by (intro exI [of _ 2]) (simp add: defs)
  next
    case RemoveLocked
    then show ?thesis using f(4) by (intro exI [of _ 3]) (cases "m_queue s"; simp add: defs)
  next
    case (RemoveMove d)
    then show ?thesis by (intro exI [of _ 2]) (simp add: defs)
  qed (use f(1) in \<open>auto simp: defs intro!: exI [of _ 1]\<close>)
  with f(5) show ?thesis by blast
qed

theorem mutex_is_released_witness:
  "\<exists>s k s'. play [CallAppend 1 (5 :: int), Step 1] (MsgQueue_new 4 (\<lambda>_. 0)) = Some s \<and> mutex_owner s = Some 1 \<and>
    k \<le> 3 \<and> own_steps k 1 s = Some s' \<and> mutex_owner s' = None"
proof -
  obtain s where s: "play [CallAppend 1 (5 :: int), Step 1] (MsgQueue_new 4 (\<lambda>_. 0)) = Some s" "mutex_owner s = Some 1"
    by (simp add: MsgQueue_new_def own_step_def append_step_def goes_def)
  from mutex_is_released [OF play_run [OF s(1) queue_run.begin_run] s(2)] s show ?thesis by blast
qed

end
