(* ===== verification/SearchTree.thy ===== *)
theory SearchTree
  imports Main "HOL-Library.Tree" "HOL-Library.Monad_Syntax"
begin

text \<open>
  The binary search tree \<open>CBsTree\<close> of \<open>net_libs/libbase/export/yy_bstree.h\<close>: nodes linked in both
  directions, greater keys to the left.  A node is its address; reading or deleting one that is
  not in the heap is undefined.  \<open>remove\<close> calls a function that does not exist, so it cannot be
  used.
\<close>

section \<open>The code\<close>

record ('k, 'v) bs_node =
  bs_key :: 'k
  bs_val :: 'v
  bs_parent :: "nat option"
  bs_left :: "nat option"
  bs_right :: "nat option"

type_synonym ('k, 'v) bs_heap = "nat \<Rightarrow> ('k, 'v) bs_node option"

text \<open>\<open>bs_fresh\<close>: the address that the next \<open>new\<close> returns.\<close>

record ('k, 'v) bs_tree =
  m_pRoot :: "nat option"
  bs_heap :: "('k, 'v) bs_heap"
  bs_fresh :: nat

definition CBsTree_new :: "('k, 'v) bs_tree" where
  "CBsTree_new = \<lparr>m_pRoot = None, bs_heap = (\<lambda>_. None), bs_fresh = 0\<rparr>"

definition new_node :: "'k \<Rightarrow> 'v \<Rightarrow> nat option \<Rightarrow> ('k, 'v) bs_node" where
  "new_node k v par = \<lparr>bs_key = k, bs_val = v, bs_parent = par, bs_left = None, bs_right = None\<rparr>"

text \<open>\<open>CmpFunc\<close> is \<open>less\<close> by default, the only one in the repository.\<close>

partial_function (option) insert_loop ::
  "nat \<Rightarrow> 'k :: linorder \<Rightarrow> 'v \<Rightarrow> nat \<Rightarrow> ('k, 'v) bs_heap \<Rightarrow> ('k, 'v) bs_heap option" where
  "insert_loop new k v tmp h = do {
     node \<leftarrow> h tmp;
     (if bs_key node < k then
        (case bs_left node of
           None \<Rightarrow> Some (h(tmp \<mapsto> node\<lparr>bs_left := Some new\<rparr>, new \<mapsto> new_node k v (Some tmp)))
         | Some l \<Rightarrow> insert_loop new k v l h)
      else
        (case bs_right node of
           None \<Rightarrow> Some (h(tmp \<mapsto> node\<lparr>bs_right := Some new\<rparr>, new \<mapsto> new_node k v (Some tmp)))
         | Some r \<Rightarrow> insert_loop new k v r h))
   }"

definition bs_insert :: "('k :: linorder, 'v) bs_tree \<Rightarrow> 'k \<Rightarrow> 'v \<Rightarrow> ('k, 'v) bs_tree option" where
  "bs_insert T k v =
     (case m_pRoot T of
        None \<Rightarrow> Some (T\<lparr>m_pRoot := Some (bs_fresh T), bs_heap := (bs_heap T)(bs_fresh T \<mapsto> new_node k v None),
          bs_fresh := bs_fresh T + 1\<rparr>)
      | Some root \<Rightarrow> do {
          h \<leftarrow> insert_loop (bs_fresh T) k v root (bs_heap T);
          Some (T\<lparr>bs_heap := h, bs_fresh := bs_fresh T + 1\<rparr>)
        })"

partial_function (option) search_loop ::
  "'k :: linorder \<Rightarrow> ('k, 'v) bs_heap \<Rightarrow> nat option \<Rightarrow> nat option option" where
  "search_loop k h tmp =
     (case tmp of
        None \<Rightarrow> Some None
      | Some a \<Rightarrow> do {
          node \<leftarrow> h a;
          (if bs_key node = k then Some (Some a)
           else if bs_key node < k then search_loop k h (bs_left node)
           else search_loop k h (bs_right node))
        })"

definition searchNode :: "('k :: linorder, 'v) bs_tree \<Rightarrow> 'k \<Rightarrow> nat option option" where
  "searchNode T k = search_loop k (bs_heap T) (m_pRoot T)"

text \<open>
  \<open>get\<close> returns a reference: into a node, or, for a new key, to its own local variable, which is gone
  when it returns.  \<open>junk\<close> is the unset value of that variable.
\<close>

datatype bs_ref = Into nat | Dangling

definition bs_get :: "'v \<Rightarrow> ('k :: linorder, 'v) bs_tree \<Rightarrow> 'k \<Rightarrow> (bs_ref \<times> ('k, 'v) bs_tree) option" where
  "bs_get junk T k = do {
     tmp \<leftarrow> searchNode T k;
     (case tmp of
        Some a \<Rightarrow> Some (Into a, T)
      | None \<Rightarrow> do {
          T \<leftarrow> bs_insert T k junk;
          Some (Dangling, T)
        })
   }"

text \<open>\<open>clear\<close> of a node: its subtrees, then itself.\<close>

partial_function (option) clear_node :: "nat \<Rightarrow> ('k, 'v) bs_heap \<Rightarrow> ('k, 'v) bs_heap option" where
  "clear_node a h = do {
     node \<leftarrow> h a;
     h \<leftarrow> (case bs_left node of None \<Rightarrow> Some h | Some l \<Rightarrow> clear_node l h);
     node \<leftarrow> h a;
     h \<leftarrow> (case bs_right node of None \<Rightarrow> Some h | Some r \<Rightarrow> clear_node r h);
     node \<leftarrow> h a;
     Some (h(a := None))
   }"

definition bs_clear :: "('k, 'v) bs_tree \<Rightarrow> ('k, 'v) bs_tree option" where
  "bs_clear T =
     (case m_pRoot T of
        None \<Rightarrow> Some T
      | Some root \<Rightarrow> do {
          h \<leftarrow> clear_node root (bs_heap T);
          Some (T\<lparr>bs_heap := h\<rparr>)
        })"

section \<open>Linked nodes as a tree\<close>

fun links :: "('k, 'v) bs_heap \<Rightarrow> nat option \<Rightarrow> nat option \<Rightarrow> nat tree \<Rightarrow> bool" where
  "links h par p Leaf \<longleftrightarrow> p = None"
| "links h par p (Node l a r) \<longleftrightarrow> p = Some a \<and>
     (\<exists>node. h a = Some node \<and> bs_parent node = par \<and>
        links h (Some a) (bs_left node) l \<and> links h (Some a) (bs_right node) r)"

text \<open>Each node is in the tree once, and the heap has no others.\<close>

definition bs_ok :: "('k, 'v) bs_tree \<Rightarrow> nat tree \<Rightarrow> bool" where
  "bs_ok T t \<longleftrightarrow> links (bs_heap T) None (m_pRoot T) t \<and> distinct (inorder t) \<and>
     dom (bs_heap T) = set_tree t \<and> (\<forall>a \<in> set_tree t. a < bs_fresh T)"

lemma links_cong: "(\<And>a. a \<in> set_tree t \<Longrightarrow> h a = h' a) \<Longrightarrow> links h par p t \<longleftrightarrow> links h' par p t"
proof (induction t arbitrary: par p)
  case (Node l a r)
  have "links h par p l \<longleftrightarrow> links h' par p l" "links h par p r \<longleftrightarrow> links h' par p r" for par p
    using Node.IH Node.prems by auto
  then show ?case using Node.prems by simp
qed simp

lemma links_update [simp]: "a \<notin> set_tree t \<Longrightarrow> links (h(a := n)) par p t \<longleftrightarrow> links h par p t"
  by (rule links_cong) auto

lemma links_dom: "links h par p t \<Longrightarrow> set_tree t \<subseteq> dom h"
  by (induction t arbitrary: par p) (auto, blast+)

section \<open>Insertion and search\<close>

fun tree_insert :: "(nat \<Rightarrow> 'k :: linorder) \<Rightarrow> nat \<Rightarrow> 'k \<Rightarrow> nat tree \<Rightarrow> nat tree" where
  "tree_insert key new k Leaf = Node Leaf new Leaf"
| "tree_insert key new k (Node l a r) =
     (if key a < k then Node (tree_insert key new k l) a r else Node l a (tree_insert key new k r))"

fun tree_search :: "(nat \<Rightarrow> 'k :: linorder) \<Rightarrow> 'k \<Rightarrow> nat tree \<Rightarrow> nat option" where
  "tree_search key k Leaf = None"
| "tree_search key k (Node l a r) =
     (if key a = k then Some a else if key a < k then tree_search key k l else tree_search key k r)"

definition key_at :: "('k, 'v) bs_heap \<Rightarrow> nat \<Rightarrow> 'k" where
  "key_at h a = bs_key (the (h a))"

definition val_at :: "('k, 'v) bs_heap \<Rightarrow> nat \<Rightarrow> 'v" where
  "val_at h a = bs_val (the (h a))"

lemma search_loop_tree: "links h par p t \<Longrightarrow> search_loop k h p = Some (tree_search (key_at h) k t)"
proof (induction t arbitrary: par p)
  case Leaf
  then show ?case by (subst search_loop.simps) simp
next
  case (Node l a r)
  then show ?case by (subst search_loop.simps) (auto simp: key_at_def [of h a])
qed

lemma set_tree_insert [simp]: "set_tree (tree_insert key new k t) = Set.insert new (set_tree t)"
  by (induction t) auto

lemma distinct_tree_insert:
  "new \<notin> set_tree t \<Longrightarrow> distinct (inorder t) \<Longrightarrow> distinct (inorder (tree_insert key new k t))"
  by (induction t) auto

lemma tree_search_insert:
  assumes "key new = k" "new \<notin> set_tree t"
  shows "tree_search key k' (tree_insert key new k t) =
    (case tree_search key k' t of Some a \<Rightarrow> Some a | None \<Rightarrow> if k' = k then Some new else None)"
  using assms by (induction t) (auto split: option.splits)

lemma tree_cong:
  "(\<And>a. a \<in> set_tree t \<Longrightarrow> key a = key' a) \<Longrightarrow>
   tree_insert key new k t = tree_insert key' new k t \<and> tree_search key k t = tree_search key' k t"
  by (induction t) auto

lemma tree_search_in: "tree_search key k t = Some a \<Longrightarrow> a \<in> set_tree t \<and> key a = k"
  by (induction t) (auto split: if_splits)

text \<open>What one insertion does to the heap: \<open>S\<close> are the nodes whose links may change.\<close>

definition grows :: "('k, 'v) bs_heap \<Rightarrow> nat \<Rightarrow> 'k \<Rightarrow> 'v \<Rightarrow> nat set \<Rightarrow> ('k, 'v) bs_heap \<Rightarrow> bool" where
  "grows h new k v S h' \<longleftrightarrow> dom h' = Set.insert new (dom h) \<and> (\<forall>a. a \<notin> S \<and> a \<noteq> new \<longrightarrow> h' a = h a) \<and>
     (\<forall>a \<in> S. key_at h' a = key_at h a \<and> val_at h' a = val_at h a) \<and> key_at h' new = k \<and> val_at h' new = v"

lemma grows_mono: "grows h new k v S h' \<Longrightarrow> S \<subseteq> S' \<Longrightarrow> new \<notin> S' \<Longrightarrow> grows h new k v S' h'"
  by (auto simp: grows_def key_at_def val_at_def)

lemma grows_links:
  "grows h new k v S h' \<Longrightarrow> S \<inter> set_tree t = {} \<Longrightarrow> new \<notin> set_tree t \<Longrightarrow> links h' par p t \<longleftrightarrow> links h par p t"
  by (rule links_cong) (auto simp: grows_def)

lemma insert_loop_tree:
  assumes "links h par (Some p) t" "distinct (inorder t)" "new \<notin> set_tree t"
  shows "\<exists>h'. insert_loop new k v p h = Some h' \<and> links h' par (Some p) (tree_insert (key_at h) new k t) \<and>
    grows h new k v (set_tree t) h'"
  using assms
proof (induction t arbitrary: par p)
  case (Node l a r)
  obtain node where n: "h a = Some node" "bs_parent node = par" "p = a"
      "links h (Some a) (bs_left node) l" "links h (Some a) (bs_right node) r"
    using Node.prems(1) by auto
  have apart: "a \<notin> set_tree l" "a \<notin> set_tree r" "set_tree l \<inter> set_tree r = {}" "new \<noteq> a"
      "new \<notin> set_tree l" "new \<notin> set_tree r" "distinct (inorder l)" "distinct (inorder r)"
    using Node.prems(2,3) by auto
  have new: "new \<notin> set_tree (Node l a r)" using Node.prems(3) .
  have key: "key_at h a = bs_key node" by (simp add: key_at_def n(1))
  show ?case
  proof (cases "bs_key node < k")
    case less: True
    show ?thesis
    proof (cases "bs_left node")
      case None
      then have "l = Leaf" using n(4) by (cases l) auto
      then show ?thesis using less n apart None
        by (subst insert_loop.simps) (auto simp: grows_def key_at_def val_at_def new_node_def)
    next
      case (Some b)
      from Node.IH(1) [OF n(4) [unfolded Some] apart(7,5)] obtain h' where
        h': "insert_loop new k v b h = Some h'" "links h' (Some a) (Some b) (tree_insert (key_at h) new k l)"
          "grows h new k v (set_tree l) h'" by blast
      have "h' a = Some node" using h'(3) apart n(1) by (auto simp: grows_def)
      moreover have "links h' (Some a) (bs_right node) r"
        using grows_links [OF h'(3) apart(3,6)] n(5) by blast
      ultimately show ?thesis using less n Some h'(1,2) grows_mono [OF h'(3) _ new] key
        by (subst insert_loop.simps) auto
    qed
  next
    case geq: False
    show ?thesis
    proof (cases "bs_right node")
      case None
      then have "r = Leaf" using n(5) by (cases r) auto
      then show ?thesis using geq n apart None
        by (subst insert_loop.simps) (auto simp: grows_def key_at_def val_at_def new_node_def)
    next
      case (Some b)
      from Node.IH(2) [OF n(5) [unfolded Some] apart(8,6)] obtain h' where
        h': "insert_loop new k v b h = Some h'" "links h' (Some a) (Some b) (tree_insert (key_at h) new k r)"
          "grows h new k v (set_tree r) h'" by blast
      have "h' a = Some node" using h'(3) apart n(1) by (auto simp: grows_def)
      moreover have "set_tree r \<inter> set_tree l = {}" using apart(3) by blast
      then have "links h' (Some a) (bs_left node) l"
        using grows_links [OF h'(3) _ apart(5)] n(4) by blast
      ultimately show ?thesis using geq n Some h'(1,2) grows_mono [OF h'(3) _ new] key
        by (subst insert_loop.simps) auto
    qed
  qed
qed simp

text \<open>Insertion into a whole tree.\<close>

lemma insert_ok:
  assumes T: "bs_ok T t"
  shows "\<exists>T'. bs_insert T k v = Some T' \<and> bs_ok T' (tree_insert (key_at (bs_heap T)) (bs_fresh T) k t) \<and>
    grows (bs_heap T) (bs_fresh T) k v (set_tree t) (bs_heap T') \<and> bs_fresh T \<notin> set_tree t"
proof (cases "m_pRoot T")
  case None
  then have "t = Leaf" using T by (cases t) (auto simp: bs_ok_def)
  then show ?thesis using T None
    by (auto simp: bs_ok_def bs_insert_def grows_def key_at_def val_at_def new_node_def)
next
  case (Some root)
  let ?new = "bs_fresh T"
  have new: "?new \<notin> set_tree t" using T by (auto simp: bs_ok_def)
  obtain h' where h': "insert_loop ?new k v root (bs_heap T) = Some h'"
      "links h' None (Some root) (tree_insert (key_at (bs_heap T)) ?new k t)"
      "grows (bs_heap T) ?new k v (set_tree t) h'"
    using insert_loop_tree [of "bs_heap T" None root t ?new k v] T new Some by (auto simp: bs_ok_def)
  have "dom h' = Set.insert ?new (set_tree t)" using h'(3) T by (simp add: grows_def bs_ok_def)
  moreover have "distinct (inorder (tree_insert (key_at (bs_heap T)) ?new k t))"
    using distinct_tree_insert [OF new] T by (simp add: bs_ok_def)
  ultimately show ?thesis using T Some h' new
    by (auto simp: bs_insert_def bs_ok_def less_Suc_eq)
qed

text \<open>What a search reads: the value in the node found.\<close>

definition bs_lookup :: "('k :: linorder, 'v) bs_tree \<Rightarrow> 'k \<Rightarrow> 'v option option" where
  "bs_lookup T k = do {
     p \<leftarrow> searchNode T k;
     Some (map_option (val_at (bs_heap T)) p)
   }"

lemma lookup_tree:
  "bs_ok T t \<Longrightarrow> bs_lookup T k = Some (map_option (val_at (bs_heap T)) (tree_search (key_at (bs_heap T)) k t))"
  using search_loop_tree [of "bs_heap T" None "m_pRoot T" t k] by (simp add: bs_lookup_def searchNode_def bs_ok_def)

lemma lookup_insert:
  assumes T: "bs_ok T t" and m: "\<And>k. bs_lookup T k = Some (m k)"
  shows "\<exists>T' t'. bs_insert T k v = Some T' \<and> bs_ok T' t' \<and> (\<forall>k'. bs_lookup T' k' = Some ((Map.empty(k \<mapsto> v) ++ m) k'))"
proof -
  let ?h = "bs_heap T" and ?new = "bs_fresh T"
  obtain T' where T': "bs_insert T k v = Some T'" "bs_ok T' (tree_insert (key_at ?h) ?new k t)"
      "grows ?h ?new k v (set_tree t) (bs_heap T')" "?new \<notin> set_tree t"
    using insert_ok [OF T] by blast
  let ?h' = "bs_heap T'"
  have same: "key_at ?h' a = key_at ?h a" "val_at ?h' a = val_at ?h a" if "a \<in> set_tree t" for a
    using T'(3) that by (simp_all add: grows_def)
  have new: "key_at ?h' ?new = k" "val_at ?h' ?new = v" using T'(3) by (simp_all add: grows_def)
  have "tree_insert (key_at ?h) ?new k t = tree_insert (key_at ?h') ?new k t"
    using tree_cong [of t "key_at ?h'" "key_at ?h"] same by simp
  then have ok: "bs_ok T' (tree_insert (key_at ?h') ?new k t)" using T'(2) by simp
  have "bs_lookup T' k' = Some ((Map.empty(k \<mapsto> v) ++ m) k')" for k'
  proof -
    have s: "tree_search (key_at ?h') k' t = tree_search (key_at ?h) k' t"
      using tree_cong [of t "key_at ?h'" "key_at ?h"] same by simp
    have old: "m k' = map_option (val_at ?h) (tree_search (key_at ?h) k' t)"
      using m [of k'] lookup_tree [OF T, of k'] by simp
    show ?thesis
      unfolding lookup_tree [OF ok] tree_search_insert [of "key_at ?h'", OF new(1) T'(4)] s map_add_def old
      using new(2) same(2) tree_search_in [of "key_at ?h" k' t]
      by (auto split: option.split)
  qed
  with T'(1) ok show ?thesis by blast
qed

section \<open>Clearing\<close>

lemma clear_node_tree:
  assumes "links h par (Some p) t" "distinct (inorder t)"
  shows "clear_node p h = Some (\<lambda>a. if a \<in> set_tree t then None else h a)"
  using assms
proof (induction t arbitrary: h par p)
  case (Node l a r)
  obtain node where n: "h a = Some node" "p = a"
      "links h (Some a) (bs_left node) l" "links h (Some a) (bs_right node) r"
    using Node.prems(1) by auto
  have apart: "a \<notin> set_tree l" "a \<notin> set_tree r" "set_tree l \<inter> set_tree r = {}"
      "distinct (inorder l)" "distinct (inorder r)"
    using Node.prems(2) by auto
  define h1 where "h1 = (\<lambda>a. if a \<in> set_tree l then None else h a)"
  define h2 where "h2 = (\<lambda>a. if a \<in> set_tree r then None else h1 a)"
  have left: "(case bs_left node of None \<Rightarrow> Some h | Some b \<Rightarrow> clear_node b h) = Some h1"
    using n(3) Node.IH(1) [OF _ apart(4)] by (cases l) (auto simp: h1_def split: option.split)
  have "links h1 (Some a) (bs_right node) r \<longleftrightarrow> links h (Some a) (bs_right node) r"
    by (rule links_cong) (use apart(3) in \<open>auto simp: h1_def\<close>)
  with n(4) have r: "links h1 (Some a) (bs_right node) r" by blast
  have right: "(case bs_right node of None \<Rightarrow> Some h1 | Some b \<Rightarrow> clear_node b h1) = Some h2"
    using r Node.IH(2) [OF _ apart(5)] by (cases r) (auto simp: h2_def split: option.split)
  have stay: "h1 a = Some node" "h2 a = Some node" using n(1) apart(1,2) by (simp_all add: h1_def h2_def)
  have "h2(a := None) = (\<lambda>b. if b \<in> set_tree (Node l a r) then None else h b)"
    by (auto simp: h2_def h1_def)
  then show ?case
    by (subst clear_node.simps) (simp add: n(1,2) left stay right)
qed simp

section \<open>Properties\<close>

fun bs_inserts :: "('k :: linorder, 'v) bs_tree \<Rightarrow> ('k \<times> 'v) list \<Rightarrow> ('k, 'v) bs_tree option" where
  "bs_inserts T [] = Some T"
| "bs_inserts T ((k, v) # kvs) = do {
     T \<leftarrow> bs_insert T k v;
     bs_inserts T kvs
   }"

lemma inserts_lookup:
  assumes "bs_ok T t" "\<And>k. bs_lookup T k = Some (m k)"
  shows "\<exists>T' t'. bs_inserts T kvs = Some T' \<and> bs_ok T' t' \<and> (\<forall>k. bs_lookup T' k = Some ((map_of kvs ++ m) k))"
  using assms
proof (induction kvs arbitrary: T t m)
  case (Cons kv kvs)
  obtain k v where kv: "kv = (k, v)" by (cases kv)
  obtain T1 t1 where T1: "bs_insert T k v = Some T1" "bs_ok T1 t1"
      "\<And>k'. bs_lookup T1 k' = Some ((Map.empty(k \<mapsto> v) ++ m) k')"
    using lookup_insert [OF Cons.prems, of k v] by blast
  have "map_of (kv # kvs) ++ m = map_of kvs ++ (Map.empty(k \<mapsto> v) ++ m)"
    by (rule ext) (simp add: kv map_add_def split: option.split)
  then have "\<exists>T' t'. bs_inserts T1 kvs = Some T' \<and> bs_ok T' t' \<and> (\<forall>k. bs_lookup T' k = Some ((map_of (kv # kvs) ++ m) k))"
    using Cons.IH [OF T1(2,3)] by (simp only:)
  moreover have "bs_inserts T (kv # kvs) = bs_inserts T1 kvs" by (simp add: kv T1(1))
  ultimately show ?case by (simp only:)
qed auto

lemma bs_ok_new: "bs_ok CBsTree_new Leaf" "bs_lookup CBsTree_new k = Some None"
  by (simp_all add: bs_ok_def CBsTree_new_def bs_lookup_def searchNode_def search_loop.simps)

lemma inserts_new:
  "\<exists>T t. bs_inserts CBsTree_new kvs = Some T \<and> bs_ok T t \<and> (\<forall>k. bs_lookup T k = Some (map_of kvs k))"
  using inserts_lookup [where m = "\<lambda>_. None" and kvs = kvs, OF bs_ok_new] by simp

text \<open>
  C35: A search tree filled by any sequence of insertions is a map: the loops end, and a search finds the
  value that was inserted first under its key, or no node when there is none.
\<close>

theorem search_finds_first_insert:
  "\<exists>T. bs_inserts CBsTree_new kvs = Some T \<and> (\<forall>k. bs_lookup T k = Some (map_of kvs k))"
  using inserts_new by blast

text \<open>
  \<open>clear\<close> deletes every node of a filled tree but keeps the pointer to its root, so the next insertion,
  a second \<open>clear\<close> and the destructor, which calls it, all read a deleted node.
\<close>

theorem cleared_tree_dangles:
  assumes "kvs \<noteq> []" "bs_inserts CBsTree_new kvs = Some T"
  shows "\<exists>T'. bs_clear T = Some T' \<and> bs_heap T' = (\<lambda>_. None) \<and> bs_insert T' k v = None \<and> bs_clear T' = None"
proof -
  obtain t where t: "bs_ok T t" "\<And>k. bs_lookup T k = Some (map_of kvs k)"
    using inserts_new [of kvs] assms(2) by auto
  have "t \<noteq> Leaf"
  proof
    assume "t = Leaf"
    then have "bs_lookup T (fst (hd kvs)) = Some None" using lookup_tree [OF t(1)] by simp
    then have "map_of kvs (fst (hd kvs)) = None" using t(2) by simp
    then show False using assms(1) by (cases kvs) (auto split: if_splits)
  qed
  then obtain root where root: "m_pRoot T = Some root" using t(1) by (cases t) (auto simp: bs_ok_def)
  have "clear_node root (bs_heap T) = Some (\<lambda>a. if a \<in> set_tree t then None else bs_heap T a)"
    using clear_node_tree [of "bs_heap T" None root t] t(1) root by (simp add: bs_ok_def)
  moreover have "(\<lambda>a. if a \<in> set_tree t then None else bs_heap T a) = (\<lambda>_. None)"
    using t(1) by (intro ext) (auto simp: bs_ok_def dom_def)
  ultimately show ?thesis
    using root by (simp add: bs_clear_def bs_insert_def insert_loop.simps clear_node.simps)
qed

theorem cleared_tree_dangles_witness:
  "\<exists>T T'. bs_inserts CBsTree_new [(3 :: int, ''three''), (5, ''five''), (3, ''again'')] = Some T \<and> bs_clear T = Some T' \<and>
    bs_insert T' 4 ''four'' = None \<and> bs_clear T' = None"
proof -
  obtain T where T: "bs_inserts CBsTree_new [(3 :: int, ''three''), (5, ''five''), (3, ''again'')] = Some T"
    using inserts_new by blast
  from cleared_tree_dangles [OF _ T, of 4 "''four''"] T show ?thesis by blast
qed

text \<open>A new key makes \<open>get\<close> return a reference to its dead local variable; the node it inserts is unset.\<close>

lemma get_new_key_dangles:
  assumes "bs_inserts CBsTree_new kvs = Some T" "map_of kvs k = None"
  shows "\<exists>T'. bs_get junk T k = Some (Dangling, T') \<and> bs_lookup T' k = Some (Some junk)"
proof -
  obtain t where t: "bs_ok T t" "\<And>k. bs_lookup T k = Some (map_of kvs k)"
    using inserts_new [of kvs] assms(1) by auto
  then have "searchNode T k = Some None"
    using assms(2) t(2) [of k] by (auto simp: bs_lookup_def bind_eq_Some_conv)
  moreover obtain T' where "bs_insert T k junk = Some T'" "\<forall>k'. bs_lookup T' k' = Some ((Map.empty(k \<mapsto> junk) ++ map_of kvs) k')"
    using lookup_insert [OF t, of k junk] by blast
  ultimately show ?thesis using assms(2) by (auto simp: bs_get_def map_add_def)
qed

end
