(* ===== verification/LibUtility.thy ===== *)
theory LibUtility
  imports Bytes "HOL-Library.Sublist"
begin

text \<open>
  The string helpers of \<open>net_libs/libbase/src/yy_utility.cpp\<close> that work on characters.
\<close>

section \<open>Replacing\<close>

text \<open>\<open>std::string::find\<close>: the first position at which the text occurs.\<close>

fun find_sub :: "'a list \<Rightarrow> 'a list \<Rightarrow> nat option" where
  "find_sub old [] = (if old = [] then Some 0 else None)"
| "find_sub old (c # cs) = (if prefix old (c # cs) then Some 0 else map_option Suc (find_sub old cs))"

text \<open>\<open>StringReplace\<close> goes on as long as the old text occurs, also in what it has put in.\<close>

partial_function (option) StringReplace :: "string \<Rightarrow> string \<Rightarrow> string \<Rightarrow> string option" where
  "StringReplace str old_value new_value =
     (case find_sub old_value str of
        None \<Rightarrow> Some str
      | Some pos \<Rightarrow>
          StringReplace (take pos str @ new_value @ drop (pos + length old_value) str) old_value new_value)"

text \<open>A null pointer and a text of 2048 characters or more throw, which is \<open>Inl\<close> here.\<close>

definition SlashTrim :: "string option \<Rightarrow> string + string" where
  "SlashTrim pVal =
     (case pVal of
        None \<Rightarrow> Inl ''param is null.''
      | Some s \<Rightarrow>
          if length s \<ge> 2048 then Inl ''buffer is too long.''
          else Inr (map (\<lambda>tmp. if tmp = BACKSLASH then CHR ''/'' else tmp) s))"

lemma find_sub_None: "find_sub old s = None \<longleftrightarrow> \<not> sublist old s"
  by (induction s) (auto simp: sublist_Cons_right)

lemma find_sub_Some:
  "find_sub old s = Some pos \<Longrightarrow> s = take pos s @ old @ drop (pos + length old) s \<and> pos + length old \<le> length s"
proof (induction s arbitrary: pos)
  case (Cons c cs)
  show ?case
  proof (cases "prefix old (c # cs)")
    case True
    then obtain rest where rest: "c # cs = old @ rest" by (auto simp: prefix_def)
    have "pos = 0" using Cons.prems True by simp
    then show ?thesis unfolding rest by simp
  next
    case False
    then obtain p where "pos = Suc p" "find_sub old cs = Some p" using Cons.prems by auto
    with Cons.IH show ?thesis by simp
  qed
qed (auto split: if_splits)

text \<open>A replacement of single characters, as for the colons in the name of a log file.\<close>

lemma replace_character:
  assumes "a \<noteq> b"
  shows "StringReplace s [a] [b] = Some (map (\<lambda>c. if c = a then b else c) s)"
proof (induction "length (filter (\<lambda>c. c = a) s)" arbitrary: s rule: less_induct)
  case less
  show ?case
  proof (cases "find_sub [a] s")
    case None
    then have "a \<notin> set s" by (auto simp: find_sub_None sublist_def in_set_conv_decomp)
    then have "map (\<lambda>c. if c = a then b else c) s = s" by (intro map_idI) auto
    then show ?thesis using None by (subst StringReplace.simps) simp
  next
    case (Some pos)
    define xs ys where "xs = take pos s" and "ys = drop (Suc pos) s"
    have s: "s = xs @ [a] @ ys" using find_sub_Some [OF Some] by (simp add: xs_def ys_def)
    have "length (filter (\<lambda>c. c = a) (xs @ [b] @ ys)) < length (filter (\<lambda>c. c = a) s)"
      using assms by (simp add: s)
    from less.hyps [OF this] show ?thesis
      using assms unfolding StringReplace.simps [of s] Some
      by (simp add: xs_def [symmetric] ys_def [symmetric]) (simp add: s)
  qed
qed

text \<open>If the new text contains the old one, the loop never ends once it has found it.\<close>

lemma replace_hangs:
  assumes "sublist old_value new_value" "sublist old_value s"
  shows "StringReplace s old_value new_value = None"
proof -
  have "sublist old_value new_value \<longrightarrow> \<not> sublist old_value s" if "StringReplace s old_value new_value = Some r" for r
  proof (rule StringReplace.raw_induct [OF _ that])
    fix replace :: "string \<Rightarrow> string \<Rightarrow> string \<Rightarrow> string option" and s old new r
    assume IH: "\<And>s old new r. replace s old new = Some r \<Longrightarrow> sublist old new \<longrightarrow> \<not> sublist old s"
      and run: "(case find_sub old s of None \<Rightarrow> Some s
        | Some pos \<Rightarrow> replace (take pos s @ new @ drop (pos + length old) s) old new) = Some r"
    show "sublist old new \<longrightarrow> \<not> sublist old s"
    proof (cases "find_sub old s")
      case (Some pos)
      have "sublist old (take pos s @ new @ drop (pos + length old) s)" if sub: "sublist old new"
      proof -
        obtain p q where "new = p @ old @ q" using sub by (auto simp: sublist_def)
        then have "take pos s @ new @ drop (pos + length old) s =
            (take pos s @ p) @ old @ (q @ drop (pos + length old) s)" by simp
        then show ?thesis unfolding sublist_def by blast
      qed
      then show ?thesis using IH run Some by auto
    qed (simp add: find_sub_None)
  qed
  then show ?thesis using assms by (cases "StringReplace s old_value new_value") auto
qed

text \<open>
  \<open>StringReplace\<close> replaces every occurrence of a character by a different one, but it never
  returns when the new text contains the old one and the old one occurs.
\<close>

theorem replace_ends_or_hangs:
  assumes "a \<noteq> b" "sublist old_value new_value" "sublist old_value s"
  shows "StringReplace text [a] [b] = Some (map (\<lambda>c. if c = a then b else c) text) \<and>
    StringReplace s old_value new_value = None"
  using replace_character [OF assms(1)] replace_hangs [OF assms(2,3)] by blast

theorem replace_ends_or_hangs_witness:
  "StringReplace ''12:30:45'' '':'' ''_'' = Some ''12_30_45'' \<and> StringReplace ''a/b'' ''/'' ''//'' = None"
  using replace_ends_or_hangs [of "CHR '':''" "CHR ''_''" "''/''" "''//''" "''a/b''" "''12:30:45''"]
  by (simp add: sublist_Cons_right)

end
