(* ===== verification/LibTimer.thy ===== *)
theory LibTimer
  imports Bytes
begin

text \<open>
  The timers of \<open>net_libs/libbase/src/yy_time.cpp\<close>: ten places, each with a callback, the time it was
  last called and an interval in seconds.  Times are microseconds, in 64 bits; what the clock says
  is an argument.
\<close>

section \<open>The code\<close>

record timer_info =
  tm_func :: "nat option"
  time_stamp :: "64 word"
  time_interval :: "32 word"

type_synonym timers = "timer_info list"

definition no_timer :: timer_info where
  "no_timer = \<lparr>tm_func = None, time_stamp = 0, time_interval = 0\<rparr>"

definition Timer_new :: timers where
  "Timer_new = replicate 10 no_timer"

text \<open>
  The loop has no \<open>break\<close>, so it takes the last free place.  With none, it writes through a null
  pointer: \<open>None\<close>.  \<open>Inl\<close> is an exception.
\<close>

definition registerTimer ::
  "nat option \<Rightarrow> 32 word \<Rightarrow> 64 word \<Rightarrow> timers \<Rightarrow> (string + nat \<times> timers) option" where
  "registerTimer onTime interval now tms =
     (if onTime = None \<or> interval = 0 then Some (Inl ''parameter error.'')
      else case fold (\<lambda>i found. if tm_func (tms ! i) = None then Some i else found) [0..<10] None of
        None \<Rightarrow> None
      | Some index \<Rightarrow>
          Some (Inr (index, tms[index := \<lparr>tm_func = onTime, time_stamp = now, time_interval = interval\<rparr>])))"

definition unRegisterTimer :: "nat \<Rightarrow> timers \<Rightarrow> timers option" where
  "unRegisterTimer timer_id tms = (if timer_id < 10 then Some (tms[timer_id := no_timer]) else None)"

text \<open>
  A callback, by its number, may register and unregister timers; it answers whether it wants to be
  called again.  The product of the interval is one of 32 bits.
\<close>

type_synonym timer_calls = "nat \<Rightarrow> timers \<Rightarrow> bool \<times> timers"

definition is_due :: "64 word \<Rightarrow> timer_info \<Rightarrow> bool" where
  "is_due now tm \<longleftrightarrow> \<not> (tm_func tm = None \<or> time_stamp tm = 0) \<and>
     ucast (time_interval tm * 1000 * 1000) \<le> now - time_stamp tm"

fun run_places :: "timer_calls \<Rightarrow> 64 word \<Rightarrow> nat list \<Rightarrow> timers \<Rightarrow> nat list \<times> timers" where
  "run_places call now [] tms = ([], tms)"
| "run_places call now (i # ix) tms =
     (if \<not> is_due now (tms ! i) then run_places call now ix tms
      else let f = the (tm_func (tms ! i));
               (again, tms) = call f tms;
               tms = (if again then tms[i := (tms ! i)\<lparr>time_stamp := now\<rparr>] else tms[i := no_timer]);
               (fs, tms) = run_places call now ix tms
           in (f # fs, tms))"

text \<open>
  \<open>last_time_stamp\<close> is a static variable, set when \<open>run\<close> is first called, to its own reading of the
  clock.  The result has the callbacks called, in order.
\<close>

definition run_timers ::
  "timer_calls \<Rightarrow> 64 word option \<Rightarrow> 64 word \<Rightarrow> 64 word \<Rightarrow> timers \<Rightarrow> 64 word option \<times> nat list \<times> timers" where
  "run_timers call last_time_stamp first_reading now tms =
     (let last = (case last_time_stamp of None \<Rightarrow> first_reading | Some l \<Rightarrow> l)
      in if 1000 * 1000 > now - last then (Some last, [], tms)
         else (Some last, run_places call now [0..<10] tms))"

section \<open>What a run calls\<close>

definition after_call :: "(nat \<Rightarrow> bool) \<Rightarrow> 64 word \<Rightarrow> timer_info \<Rightarrow> timer_info" where
  "after_call again now tm =
     (if is_due now tm then if again (the (tm_func tm)) then tm\<lparr>time_stamp := now\<rparr> else no_timer else tm)"

lemma run_places_calls:
  assumes "\<And>f tms. call f tms = (again f, tms)" "distinct ix" "list_all (\<lambda>i. i < length tms) ix"
  shows "run_places call now ix tms =
    (map (\<lambda>i. the (tm_func (tms ! i))) (filter (\<lambda>i. is_due now (tms ! i)) ix),
     fold (\<lambda>i ts. ts[i := after_call again now (tms ! i)]) ix tms)"
  using assms(2,3)
proof (induction ix arbitrary: tms)
  case (Cons i ix)
  define tms1 where "tms1 = tms[i := after_call again now (tms ! i)]"
  have same: "tms1 ! j = tms ! j" if "j \<in> set ix" for j
  proof -
    have "i \<noteq> j" using Cons.prems(1) that by auto
    then show ?thesis by (simp add: tms1_def)
  qed
  have IH: "run_places call now ix tms1 =
      (map (\<lambda>i. the (tm_func (tms1 ! i))) (filter (\<lambda>i. is_due now (tms1 ! i)) ix),
       fold (\<lambda>i ts. ts[i := after_call again now (tms1 ! i)]) ix tms1)"
    using Cons.IH [of tms1] Cons.prems by (auto simp: tms1_def list_all_iff)
  have calls: "map (\<lambda>i. the (tm_func (tms1 ! i))) (filter (\<lambda>i. is_due now (tms1 ! i)) ix) =
      map (\<lambda>i. the (tm_func (tms ! i))) (filter (\<lambda>i. is_due now (tms ! i)) ix)"
    using same by (auto intro!: map_cong filter_cong)
  have table: "fold (\<lambda>i ts. ts[i := after_call again now (tms1 ! i)]) ix tms1 =
      fold (\<lambda>i ts. ts[i := after_call again now (tms ! i)]) ix tms1"
    using same by (intro fold_cong) auto
  show ?case
  proof (cases "is_due now (tms ! i)")
    case True
    then have "run_places call now (i # ix) tms =
        (the (tm_func (tms ! i)) # fst (run_places call now ix tms1), snd (run_places call now ix tms1))"
      using assms(1) by (simp add: tms1_def after_call_def split_beta Let_def)
    then show ?thesis using True IH calls table by (simp add: tms1_def)
  next
    case False
    then have "tms1 = tms" by (simp add: tms1_def after_call_def)
    then show ?thesis using False IH by (simp add: after_call_def)
  qed
qed simp

lemma fold_places:
  assumes "length tms = n"
  shows "fold (\<lambda>i ts. ts[i := g (tms ! i)]) [0..<n] tms = map g tms"
proof -
  have "length (fold (\<lambda>i ts. ts[i := g (tms ! i)]) [0..<k] tms) = n \<and>
      (\<forall>j < n. fold (\<lambda>i ts. ts[i := g (tms ! i)]) [0..<k] tms ! j = (if j < k then g (tms ! j) else tms ! j))"
    if "k \<le> n" for k
    using that assms by (induction k) (auto simp: nth_list_update)
  from this [of n] show ?thesis using assms by (auto intro: nth_equalityI)
qed

text \<open>
  The product wraps: it is the number of microseconds only up to 4294 seconds.
\<close>

lemma unat_micros: "unat (ucast (w * 1000 * 1000 :: 32 word) :: 64 word) = unat w * 1000000 mod 2 ^ 32"
proof -
  have "unat (w * 1000 * 1000) = unat w * 1000000 mod 2 ^ 32"
    by (simp add: unat_word_ariths mod_simps mult.assoc)
  moreover have "unat (w * 1000 * 1000) < 2 ^ 32" using unsigned_less [of "w * 1000 * 1000"] by simp
  ultimately show ?thesis by (simp add: unsigned_ucast_eq take_bit_eq_mod)
qed

lemma is_due_wraps:
  assumes "tm_func tm = Some f" "time_stamp tm \<noteq> 0" "time_stamp tm \<le> now"
  shows "is_due now tm \<longleftrightarrow> unat (time_interval tm) * 1000000 mod 2 ^ 32 \<le> unat now - unat (time_stamp tm)"
proof -
  have "unat (now - time_stamp tm) = unat now - unat (time_stamp tm)"
    using assms(3) by (simp add: unat_sub word_le_nat_alt)
  then show ?thesis
    unfolding is_due_def word_le_nat_alt unat_micros using assms(1,2) by simp
qed

text \<open>A timer of 4295 seconds fires after 33 milliseconds.\<close>

lemma long_interval_fires_early:
  assumes "tm_func tm = Some f" "time_stamp tm \<noteq> 0" "time_stamp tm \<le> now" "time_interval tm = 4295"
  shows "is_due now tm \<longleftrightarrow> 32704 \<le> unat now - unat (time_stamp tm)"
  using is_due_wraps [OF assms(1-3)] assms(4) by simp

text \<open>The static variable never moves on, so it holds back only the calls in the first second.\<close>

lemma run_keeps_first_reading:
  "fst (run_timers call (Some l) r now tms) = Some l"
  "now - l < 1000000 \<Longrightarrow> run_timers call (Some l) r now tms = (Some l, [], tms)"
  "1000000 \<le> now - l \<Longrightarrow> run_timers call (Some l) r now tms = (Some l, run_places call now [0..<10] tms)"
  by (auto simp: run_timers_def Let_def)

text \<open>
  C36: As long as the callbacks do not touch the table of timers themselves (one that registers or
  removes a timer changes what the rest of the run sees), the intervals are at most 4294
  seconds and the clock has not been set back, a run of the timers a second or more after the first one calls exactly the callbacks
  whose interval has passed since they were last called, in the order of their places, restarts
  those that ask for it and drops the others.  Within the first second nothing is called
  (\<open>run_keeps_first_reading\<close>).
\<close>

theorem timers_fire_when_due:
  assumes "length tms = 10" "\<And>f tms. call f tms = (again f, tms)"
    "list_all (\<lambda>tm. unat (time_interval tm) \<le> 4294 \<and> time_stamp tm \<le> now \<and> (tm_func tm \<noteq> None \<longrightarrow> time_stamp tm \<noteq> 0)) tms"
    "1000000 \<le> now - l"
  shows "run_timers call (Some l) r now tms = (Some l,
    map (\<lambda>tm. the (tm_func tm)) (filter (\<lambda>tm. tm_func tm \<noteq> None \<and>
      unat (time_interval tm) * 1000000 \<le> unat now - unat (time_stamp tm)) tms),
    map (\<lambda>tm. if tm_func tm \<noteq> None \<and> unat (time_interval tm) * 1000000 \<le> unat now - unat (time_stamp tm)
      then if again (the (tm_func tm)) then tm\<lparr>time_stamp := now\<rparr> else no_timer else tm) tms)"
proof -
  have due: "is_due now tm \<longleftrightarrow> tm_func tm \<noteq> None \<and> unat (time_interval tm) * 1000000 \<le> unat now - unat (time_stamp tm)"
    if "tm \<in> set tms" for tm
  proof -
    have "unat (time_interval tm) \<le> 4294" "time_stamp tm \<le> now" "tm_func tm \<noteq> None \<longrightarrow> time_stamp tm \<noteq> 0"
      using assms(3) that by (auto simp: list_all_iff)
    then show ?thesis
      using is_due_wraps [of tm _ now] by (cases "tm_func tm") (auto simp: is_due_def)
  qed
  have places: "map (\<lambda>i. the (tm_func (tms ! i))) (filter (\<lambda>i. is_due now (tms ! i)) [0..<10]) =
      map (\<lambda>tm. the (tm_func tm)) (filter (is_due now) tms)"
  proof -
    have "filter (is_due now) tms = filter (is_due now) (map ((!) tms) [0..<10])"
      using map_nth [of tms] assms(1) by simp
    then show ?thesis by (simp only: filter_map map_map o_def)
  qed
  have "run_places call now [0..<10] tms =
      (map (\<lambda>tm. the (tm_func tm)) (filter (is_due now) tms), map (after_call again now) tms)"
    using run_places_calls [where ix = "[0..<10]" and tms = tms and now = now, OF assms(2)] fold_places [where g = "after_call again now", OF assms(1)] assms(1)
    by (simp only: places distinct_upt) (simp add: list_all_iff)
  moreover have "filter (is_due now) tms = filter (\<lambda>tm. tm_func tm \<noteq> None \<and>
      unat (time_interval tm) * 1000000 \<le> unat now - unat (time_stamp tm)) tms"
    by (rule filter_cong) (simp_all add: due)
  moreover have "map (after_call again now) tms =
      map (\<lambda>tm. if tm_func tm \<noteq> None \<and> unat (time_interval tm) * 1000000 \<le> unat now - unat (time_stamp tm)
        then if again (the (tm_func tm)) then tm\<lparr>time_stamp := now\<rparr> else no_timer else tm) tms"
    by (rule map_cong) (simp_all add: after_call_def due)
  ultimately show ?thesis using run_keeps_first_reading(3) [OF assms(4), of call r tms] by simp
qed

definition three_timers :: timers where
  "three_timers = replicate 7 no_timer @
     [\<lparr>tm_func = Some 1, time_stamp = 5000000, time_interval = 2\<rparr>,
      \<lparr>tm_func = Some 2, time_stamp = 5000000, time_interval = 60\<rparr>,
      \<lparr>tm_func = Some 3, time_stamp = 5000000, time_interval = 3\<rparr>]"

theorem timers_fire_when_due_witness:
  "fst (snd (run_timers (\<lambda>f tms. (f = 1, tms)) (Some 5000000) 0 8000000 three_timers)) = [1, 3]"
  using timers_fire_when_due [of three_timers "\<lambda>f tms. (f = 1, tms)" "\<lambda>f. f = 1" 8000000 5000000 0]
  by (simp add: three_timers_def no_timer_def list_all_iff)

end
