(* ===== verification/ObjectMatrix.thy ===== *)
theory ObjectMatrix
  imports Bytes
begin

text \<open>
  The list of game objects, \<open>TestPcNetwork/TestPcNetwork/Matrix.cpp\<close> and \<open>Object.cpp\<close>: objects get
  running numbers and are found by them.  An object is its address; using one that has been deleted
  is undefined.  No constructor sets the type of an object, so it is whatever the memory held.
\<close>

record cobject =
  m_uid :: int
  m_obType :: int

record matrix =
  m_obList :: "nat list"
  m_seq :: int
  objects :: "nat \<Rightarrow> cobject option"
  ob_fresh :: nat

definition OTYPE_ITEM :: int where "OTYPE_ITEM = 1"
definition OTYPE_HUMAN :: int where "OTYPE_HUMAN = 2"

definition CMatrix :: matrix where
  "CMatrix = \<lparr>m_obList = [], m_seq = 1, objects = (\<lambda>_. None), ob_fresh = 0\<rparr>"

text \<open>\<open>unset\<close>: the type in the memory of the new object.\<close>

definition CreateObject :: "int \<Rightarrow> int \<Rightarrow> matrix \<Rightarrow> (nat option \<times> matrix) option" where
  "CreateObject unset type_of M =
     (if type_of = OTYPE_ITEM \<or> type_of = OTYPE_HUMAN then do {
        next_seq \<leftarrow> int_add (m_seq M) 1;
        Some (Some (ob_fresh M),
          M\<lparr>m_seq := next_seq, m_obList := m_obList M @ [ob_fresh M], ob_fresh := ob_fresh M + 1,
            objects := (objects M)(ob_fresh M \<mapsto> \<lparr>m_uid = m_seq M, m_obType = unset\<rparr>)\<rparr>)
      } else Some (None, M))"

text \<open>\<open>list::remove\<close> takes out every entry; \<open>delete\<close> of a null pointer does nothing.\<close>

definition DestroyObject :: "nat option \<Rightarrow> matrix \<Rightarrow> matrix option" where
  "DestroyObject ob M =
     (case ob of
        None \<Rightarrow> Some M
      | Some a \<Rightarrow>
          if objects M a = None then None
          else Some (M\<lparr>m_obList := removeAll a (m_obList M), objects := (objects M)(a := None)\<rparr>))"

definition GetObjectCount :: "matrix \<Rightarrow> nat" where
  "GetObjectCount M = length (m_obList M)"

fun find_object :: "(nat \<Rightarrow> cobject option) \<Rightarrow> int \<Rightarrow> nat list \<Rightarrow> nat option option" where
  "find_object h uid [] = Some None"
| "find_object h uid (a # as) = do {
     ob \<leftarrow> h a;
     (if m_uid ob = uid then Some (Some a) else find_object h uid as)
   }"

definition FindObject :: "int \<Rightarrow> matrix \<Rightarrow> nat option option" where
  "FindObject uid M = find_object (objects M) uid (m_obList M)"

text \<open>The objects in the list are those that live, each with a number of its own below the next one.\<close>

definition matrix_ok :: "matrix \<Rightarrow> bool" where
  "matrix_ok M \<longleftrightarrow> distinct (m_obList M) \<and> dom (objects M) = set (m_obList M) \<and> 1 \<le> m_seq M \<and>
     (\<forall>a \<in> set (m_obList M). a < ob_fresh M) \<and>
     (\<forall>a ob. objects M a = Some ob \<longrightarrow> 1 \<le> m_uid ob \<and> m_uid ob < m_seq M) \<and>
     (\<forall>a b x y. objects M a = Some x \<longrightarrow> objects M b = Some y \<longrightarrow> m_uid x = m_uid y \<longrightarrow> a = b)"

lemma matrix_ok_new: "matrix_ok CMatrix"
  by (simp add: matrix_ok_def CMatrix_def)

lemma matrix_fresh: "matrix_ok M \<Longrightarrow> objects M (ob_fresh M) = None"
  by (auto simp: matrix_ok_def dom_def)

lemma matrix_ok_create:
  assumes "matrix_ok M" "CreateObject unset t M = Some (ob, M')"
  shows "matrix_ok M'"
proof (cases "t = OTYPE_ITEM \<or> t = OTYPE_HUMAN")
  case True
  then have M': "M' = M\<lparr>m_seq := m_seq M + 1, m_obList := m_obList M @ [ob_fresh M], ob_fresh := ob_fresh M + 1,
      objects := (objects M)(ob_fresh M \<mapsto> \<lparr>m_uid = m_seq M, m_obType = unset\<rparr>)\<rparr>"
    using assms(2) by (auto simp: CreateObject_def int_add_def bind_eq_Some_conv split: if_splits)
  have old: "1 \<le> m_uid x \<and> m_uid x < m_seq M" if "objects M a = Some x" for a x
    using assms(1) that by (auto simp: matrix_ok_def)
  have same: "a = b" if "objects M a = Some x" "objects M b = Some y" "m_uid x = m_uid y" for a b x y
    using assms(1) that unfolding matrix_ok_def by blast
  have "distinct (m_obList M)" "dom (objects M) = set (m_obList M)" "\<forall>a \<in> set (m_obList M). a < ob_fresh M" "1 \<le> m_seq M"
    using assms(1) by (simp_all add: matrix_ok_def)
  then show ?thesis
    unfolding matrix_ok_def M' using old same
    by (auto simp: less_Suc_eq split: if_splits) (fastforce dest: old)+
next
  case False
  then show ?thesis using assms by (simp add: CreateObject_def)
qed

lemma matrix_ok_destroy:
  assumes "matrix_ok M" "DestroyObject ob M = Some M'"
  shows "matrix_ok M'"
proof (cases ob)
  case (Some a)
  then have M': "M' = M\<lparr>m_obList := removeAll a (m_obList M), objects := (objects M)(a := None)\<rparr>"
    using assms(2) by (auto simp: DestroyObject_def split: if_splits)
  have "dom ((objects M)(a := None)) = set (removeAll a (m_obList M))"
    using assms(1) by (simp add: matrix_ok_def)
  then show ?thesis using assms(1) unfolding matrix_ok_def M' by (auto simp: distinct_removeAll)
qed (use assms in \<open>simp add: DestroyObject_def\<close>)

lemma find_object_finds:
  assumes "set as \<subseteq> dom h"
  shows "(\<And>b y. b \<in> set as \<Longrightarrow> h b = Some y \<Longrightarrow> m_uid y = m_uid ob \<Longrightarrow> b = a) \<Longrightarrow> a \<in> set as \<Longrightarrow> h a = Some ob \<Longrightarrow>
      find_object h (m_uid ob) as = Some (Some a)"
    and "\<forall>b y. b \<in> set as \<longrightarrow> h b = Some y \<longrightarrow> m_uid y \<noteq> uid \<Longrightarrow> find_object h uid as = Some None"
proof -
  show "find_object h (m_uid ob) as = Some (Some a)"
    if "\<And>b y. b \<in> set as \<Longrightarrow> h b = Some y \<Longrightarrow> m_uid y = m_uid ob \<Longrightarrow> b = a" "a \<in> set as" "h a = Some ob"
    using assms that
  proof (induction as)
    case (Cons b bs)
    obtain y where y: "h b = Some y" using Cons.prems(1) by auto
    show ?case
    proof (cases "m_uid y = m_uid ob")
      case True
      then have "b = a" using Cons.prems(2) [of b y] y by simp
      then show ?thesis using y True by simp
    next
      case False
      then have "a \<in> set bs" using Cons.prems(3,4) y by auto
      then have "find_object h (m_uid ob) bs = Some (Some a)"
        using Cons.IH Cons.prems(1,2,4) by (meson list.set_intros(2) order_trans set_subset_Cons)
      then show ?thesis using y False by simp
    qed
  qed simp
  show "find_object h uid as = Some None" if "\<forall>b y. b \<in> set as \<longrightarrow> h b = Some y \<longrightarrow> m_uid y \<noteq> uid"
    using assms that by (induction as) auto
qed

text \<open>
  After any creations and deletions, an object is found by its number exactly while it lives:
  \<open>FindObject\<close> returns the only living object with that number, or none if there is none.
\<close>

inductive matrix_run :: "matrix \<Rightarrow> bool" where
  starts: "matrix_run CMatrix"
| creates: "matrix_run M \<Longrightarrow> CreateObject unset t M = Some (ob, M') \<Longrightarrow> matrix_run M'"
| destroys: "matrix_run M \<Longrightarrow> DestroyObject ob M = Some M' \<Longrightarrow> matrix_run M'"

lemma matrix_run_ok: "matrix_run M \<Longrightarrow> matrix_ok M"
  by (induction rule: matrix_run.induct) (auto intro: matrix_ok_new matrix_ok_create matrix_ok_destroy)

lemma living_objects_found:
  assumes "matrix_run M"
  shows "objects M a = Some ob \<Longrightarrow> FindObject (m_uid ob) M = Some (Some a)"
    "\<forall>a ob. objects M a = Some ob \<longrightarrow> m_uid ob \<noteq> uid \<Longrightarrow> FindObject uid M = Some None"
proof -
  have ok: "set (m_obList M) = dom (objects M)"
    "\<And>a b x y. objects M a = Some x \<Longrightarrow> objects M b = Some y \<Longrightarrow> m_uid x = m_uid y \<Longrightarrow> a = b"
    using matrix_run_ok [OF assms] unfolding matrix_ok_def by blast+
  have sub: "set (m_obList M) \<subseteq> dom (objects M)" using ok(1) by simp
  show "FindObject (m_uid ob) M = Some (Some a)" if a: "objects M a = Some ob"
    unfolding FindObject_def
  proof (rule find_object_finds(1) [OF sub])
    show "a \<in> set (m_obList M)" using ok(1) a by auto
    show "b = a" if "objects M b = Some y" "m_uid y = m_uid ob" for b y using ok(2) [OF that(1) a that(2)] .
  qed (use a in simp)
  show "FindObject uid M = Some None" if "\<forall>a ob. objects M a = Some ob \<longrightarrow> m_uid ob \<noteq> uid"
    unfolding FindObject_def by (rule find_object_finds(2) [OF sub]) (use that in blast)
qed

end
