(* ===== verification/Spec2Isabelle.thy ===== *)
theory Spec2Isabelle
  imports JsonDocument JsonText JsonSaxy NetProperties CmdPool ServiceProperties IocpProperties
    FreeList Md5Files HashMap MsgQueue SearchTree LibUtility LibTimer ObjectMatrix
begin

text \<open>
  ExamplePcNetwork is a collection of C and C++ network code for Windows: a JSON library
  (\<open>net_libs/libbase/src/json.c\<close>), a game-style TCP session library
  (\<open>TestPcNetwork/TestPcNetwork\<close>), a \<open>select\<close> service with an echo server (\<open>net_select\<close>), a
  service over completion ports (\<open>net_libs/libnet\<close>), and a base library
  (\<open>net_libs/libbase\<close>).  This development models them and proves what makes them correct.

  How to read it.  A function of the model has the name of the C function; a result type
  \<open>option\<close> means that \<open>None\<close> is undefined behaviour (memory outside a block, a null or dangling
  pointer, a failed assertion, signed overflow), which the theorems exclude or exhibit: some say that
  a call is defined, under what it needs for that, others what it has done whenever it is.  The
  theorems named in the manifest carry an id C1, C2, ... in the text before them, and each one
  with hypotheses is followed by a witness, an application at a concrete input.

  \<^bold>\<open>Foundations.\<close>  \<open>Prelude\<close>: pointers, the allocator, C strings, character classes.  \<open>Bytes\<close>:
  blocks of bytes, little-endian layout, \<open>int\<close> arithmetic.  \<open>ByteQueue\<close>: the contracts of the
  buffers as locales, \<open>byte_buffer\<close>, \<open>byte_sink\<close> and \<open>byte_queue\<close>, with what a client may
  conclude from them.

  \<^bold>\<open>JSON\<close> (\<open>json.c\<close>, \<open>json.h\<close>).  \<open>Rcstring\<close> is the growing string all of it writes to.
  \<open>JsonLexer\<close> is the function \<open>lexer\<close>, \<open>JsonToken\<close> what it recognises (grammars of strings
  and numbers, comments, white space, and that a call suspended at the end of a buffer goes on in
  the next one).  \<open>JsonTree\<close> is the linked document with \<open>json_new_...\<close>, \<open>json_insert_child\<close>,
  \<open>json_free_value\<close>, the lookups; \<open>JsonHeap\<close> relates it to finite trees.  \<open>JsonParser\<close> is
  \<open>json_parse_fragment\<close> and \<open>json_parse_document\<close>; \<open>JsonParse\<close> shows that it follows an
  abstract machine over tokens and trees, \<open>JsonDocument\<close> draws the conclusions about whole
  documents.  \<open>JsonPrint\<close> is \<open>json_tree_to_string\<close> and the recursive reference it refines;
  \<open>JsonText\<close> is \<open>json_escape\<close>, \<open>json_unescape\<close>, \<open>json_strip_white_spaces\<close> and
  \<open>json_format_string\<close>; \<open>JsonSaxy\<close> is \<open>json_saxy_parse\<close>.

  \<^bold>\<open>Sessions\<close> (\<open>g_cmdpacket\<close>, \<open>g_netpacket\<close>, \<open>g_netsocket\<close>, \<open>g_tcpsession\<close>, \<open>g_tcplistener\<close>,
  \<open>g_cmdpool\<close>).  \<open>CmdPacket\<close> packs and unpacks fields; \<open>NetPacket\<close> puts a header around a
  command packet and encrypts it; \<open>NetSocket\<close> is the socket wrapper, over a record of the
  operating system; \<open>TcpSession\<close> is the whole session class.  \<open>SessionBuffers\<close> proves the ring
  of outgoing bytes and the window of incoming ones correct, \<open>SessionReceive\<close> the reading of
  frames, \<open>SessionLife\<close> the life cycle, and \<open>SessionHistory\<close> puts operations in any order
  together into histories (\<open>reachable\<close>) and connects two sessions.  The invariant \<open>session_ok\<close> is
  about the structure of a session: buffers, indices, packets, the memory of the seed.  It holds
  after any history of the public operations, none of them guarded, calls from callbacks included,
  which come in as steps between the pieces of a round.  Not part of it are a seed for a session
  that encrypts (\<open>reattached_session_overruns\<close>: closing and attaching loses it) and room in the
  counters; the theorems about definedness have these as hypotheses (\<open>send_safe\<close>, \<open>round_room\<close>).  \<open>Listener\<close> accepts
  sessions; \<open>CmdPool\<close> is the table of console commands.  \<open>NetProperties\<close> has the properties,
  \<open>Examples\<close> the concrete sessions of their witnesses.

  \<^bold>\<open>Service\<close> (\<open>net_select\<close>).  \<open>SockBuf\<close> is the socket buffer, an instance of \<open>byte_queue\<close>.
  \<open>PeerService\<close> is the table of peers and the \<open>select\<close> loop, over callbacks of the client that
  may call back into the service; the locale \<open>peer_client\<close> states what they must keep.
  \<open>EchoServer\<close> is the echo server \<open>main.cpp\<close>, an instance of \<open>peer_client\<close>.
  \<open>ServiceProperties\<close> has the properties.

  \<^bold>\<open>Completion ports\<close> (\<open>net_libs/libnet\<close>).  \<open>LibBuffer\<close> is the buffer of \<open>sockbuf.cpp\<close>, which shares
  operations with \<open>SockBuf\<close>.  \<open>IocpService\<close> is the code of \<open>peer_manager.cpp\<close>, \<open>socket_wrap.h\<close>
  and \<open>Win_IOCP_io_service.cpp\<close>: connections with a buffer to receive and two to send, and the
  requests that are with the system, as a list; the completion the system reports next is one of its
  answers.  \<open>IocpOrder\<close> has the invariant \<open>iocp_ok\<close> (at most one request to receive and one to send
  for a connection, and bytes wait only while one is under way), what each operation does to the
  bytes of a connection (\<open>sent_stream\<close>), and the locale \<open>io_client\<close> of the callbacks; \<open>IocpLoop\<close>
  follows the completions, \<open>registerSocket\<close> and the accepting and connecting; \<open>IocpServer\<close> is the
  server \<open>main.cpp\<close>, an instance of \<open>io_client\<close>, with the runs \<open>timely_run\<close>; \<open>IocpProperties\<close> has
  the properties and an example run.  The service keys a request by the slot of its connection only, so
  a request of a closed connection can complete when the slot has a new one.  \<open>timely\<close> says that
  the next completion is not such a one.  It is an assumption on the run, which neither Windows
  nor the code ensures: the properties are about the runs in which it holds (\<open>timely_run\<close>,
  \<open>on_time\<close>), and \<open>stale_completion_closes\<close> shows what happens otherwise.  The runs are those of
  one thread; the console thread of \<open>main.cpp\<close>, which calls \<open>send\<close> beside it without a lock, is
  not in them.  Every socket has a name of its own, and the addresses of its ends can be asked for
  and fit their buffers (\<open>names_ok\<close>); \<open>malloc\<close> may fail at any call, and has no block of two
  gigabytes, since the process is one of 32 bits (\<open>small_memory\<close>).

  \<^bold>\<open>Base library\<close> (\<open>net_libs/libbase\<close>).  \<open>FreeList\<close> is \<open>yy_freelist.h\<close>.  \<open>Md5\<close> is \<open>MD5lq.cpp\<close>: the
  transformation equals the 64 numbered steps of RFC 1321, the update takes in a message in any
  pieces (\<open>absorbed\<close>), and two digests of the test suite are evaluated; \<open>Md5Files\<close> is
  \<open>MD5lqUtils.cpp\<close>, which chains the digests of blocks.  \<open>HashMap\<close> is the map of
  \<open>yy_algorithm.h\<close>, related to the list of keys in the order of their first use (\<open>map_holds\<close>).
  \<open>MsgQueue\<close> is the queue of \<open>yy_queue.h\<close> between threads, whose calls are cut into steps that
  interleave freely (\<open>queue_run\<close>); the invariant relates the array to the history of the calls by
  the place where the owner of the mutex is.  \<open>SearchTree\<close> is \<open>yy_bstree.h\<close>, linked nodes related
  to finite trees (\<open>links\<close>) and these to maps.  \<open>LibTimer\<close> is the class \<open>Timer\<close> of
  \<open>yy_time.cpp\<close>, \<open>LibUtility\<close> two functions of \<open>yy_utility.cpp\<close>.  \<open>ObjectMatrix\<close> is the list of
  game objects of \<open>TestPcNetwork/TestPcNetwork/Matrix.cpp\<close>.

  \<^bold>\<open>Parameters.\<close>  The allocator (\<open>grants\<close>, \<open>junk\<close>) and the contents of new memory are unknown
  functions, quantified over in every theorem; so are the answers of the operating system, one
  for each call (record \<open>os\<close>: what \<open>recv\<close> hands over, how much \<open>send\<close> takes, which sockets
  \<open>select\<close> or the completion port reports), the numbers of \<open>rand\<close>, and the callbacks.  Time is
  what the system says.

  \<^bold>\<open>Widths.\<close>  The model follows the Windows build: \<open>int\<close> and \<open>long\<close> of 32 bits, \<open>short\<close> of 16,
  little-endian memory, unaligned access allowed.  Unsigned arithmetic wraps and is on words.  The
  \<open>int\<close> counters of a session (\<open>m_sendBytes\<close>, \<open>m_recvBytes\<close>) and the sizes of its ring are
  integers with checked addition and multiplication (\<open>int_add\<close>, \<open>int_mul\<close>), whose overflow is
  \<open>None\<close>: the theorems state the room they need.  The sizes of \<open>json.c\<close> are natural numbers.

  \<^bold>\<open>Limits on runs.\<close>  The echo server is followed through as many rounds as the table has places
  and through less than \<open>2 ^ 28\<close> bytes arriving in all (\<open>light_traffic\<close>), with memory for every block
  below a gigabyte (\<open>good_memory\<close>); sockets that are their own and can name their ends are what
  the system provides (\<open>sound_system\<close>).

  \<^bold>\<open>Loops and fuel.\<close>  A loop over the input is structural or has a measure.  The loops whose
  end depends on callbacks or on the system (\<open>GetPacket\<close>, \<open>deliver_loop\<close>, \<open>serve_loop\<close>) are
  \<open>partial_function\<close>s, and that they return is proved (\<open>rounds_return\<close>, \<open>echo_server_echoes\<close>), and
  so it is for the loops over words and pointers of the base library (\<open>md5_is_rfc1321\<close>,
  \<open>files_digest_like_memory\<close>, \<open>get_interns\<close>, \<open>search_finds_first_insert\<close>).  \<open>io_eventLoop\<close> takes
  the number of rounds as fuel, since the program's loop has no other end; each property holds for
  every number.
  The walks over a linked document recurse along pointers: they take fuel, and the theorems
  give an amount that is enough, two for each node, and every larger one as well.

  \<^bold>\<open>Interfaces.\<close>  \<open>byte_buffer\<close>, \<open>byte_sink\<close> and \<open>byte_queue\<close> are interpreted on the command
  packet, the ring of a session and the socket buffer; \<open>peer_client\<close> on the echo server, \<open>io_client\<close>
  on the server of \<open>libnet\<close>.

  \<^bold>\<open>Not modelled.\<close>  Logging and printing; threads outside the message queue (the rest of the modelled
  code is used from one thread); float formatting; the Linux branches.  TinyXML, Lua, FastDelegate
  and lua_tinker are vendored.  \<open>YYVar.cpp\<close>, \<open>YYTask.h\<close>, the select service of
  \<open>net_libs/libnet\<close> and \<open>TestPcNetwork/netlib\<close> do not compile as they are.  \<open>CBsTree::remove\<close> calls
  a function that does not exist.  The wrappers around Windows calls (files, processes, shared
  memory, threads) and the conversions of strings by the C library have no state of their own.
\<close>

section \<open>Escaped texts\<close>

lemma string_body_escape_char: "c \<noteq> NUL \<Longrightarrow> string_body (escape_char c @ x) = string_body x"
  by (simp add: escape_char_def is_escape_def)

lemma string_body_escaped: "NUL \<notin> set cs \<Longrightarrow> string_body (escaped cs)"
  by (induction cs) (auto simp: string_body_escape_char)

section \<open>Concrete documents for the witnesses\<close>

definition empty_store :: store where
  "empty_store = \<lparr>nodes = (\<lambda>_. None), fresh = 0, mem = plenty\<rparr>"

text \<open>The tree of the text \<open>{"a":[1]}\<close>, and a heap that holds nothing else.\<close>

definition example_tree :: jtree where
  "example_tree = JNode 0 JSON_OBJECT None
     [JNode 1 JSON_STRING (Some ''a'') [JNode 2 JSON_ARRAY None [JNode 3 JSON_NUMBER (Some ''1'') []]]]"

definition example_store :: store where
  "example_store = \<lparr>nodes = map_of (tree_cells NULL NULL NULL example_tree), fresh = 4, mem = plenty\<rparr>"

lemma empty_store_ok: "store_ok empty_store" "generous (mem empty_store)"
  by (simp_all add: empty_store_def store_ok_def)

lemma example_store_ok: "store_ok example_store" "generous (mem example_store)"
  by (simp_all add: example_store_def example_tree_def store_ok_def)

lemma example_holds: "holds_doc (nodes example_store) example_tree"
  by (simp add: example_store_def example_tree_def holds_doc_def holds_tree_def)

lemma example_wf: "wf_val True (erase example_tree)" "is_container (erase example_tree)"
proof -
  have "is_number ''1''"
    using number_run [of "''1''"] by (simp add: accepts_number_def text_step_simps char_simps)
  then show "wf_val True (erase example_tree)"
    by (simp add: example_tree_def text_ok_True)
  show "is_container (erase example_tree)"
    by (simp add: example_tree_def is_container_def)
qed

text \<open>A lexer between two tokens.\<close>

definition idle_lexer :: "string \<Rightarrow> lexer_st" where
  "idle_lexer cs = \<lparr>lx_p = Some cs, lx_state = 0, lx_text = RcsNull, lx_mem = plenty\<rparr>"

lemma idle_lexer_ok: "lex_idle (idle_lexer cs) cs"
  by (simp add: idle_lexer_def lex_idle_def)

section \<open>Parsing documents\<close>

text \<open>
  C2: every text that spells a well-formed document (an object or array whose strings and
  numbers follow the JSON grammar), with any white space between the tokens, is accepted by
  \<open>json_parse_document\<close>, and the tree built at fresh heap cells is that document; no other
  cell changes.
\<close>

theorem parse_accepts_renderings:
  assumes "store_ok st" and "generous (mem st)" and "wf_val True k" and "is_container k"
    and "renders (toks k) src"
  shows "\<exists>t st'. json_parse_document src st = Some (JSON_OK, jt_ptr t, st') \<and> erase t = k \<and>
    new_doc st st' t"
  using json_parse_document_complete [OF assms] by metis

theorem parse_accepts_renderings_witness:
  "\<exists>t st'. json_parse_document (toks_text (toks (erase example_tree))) empty_store =
      Some (JSON_OK, jt_ptr t, st') \<and> erase t = erase example_tree \<and> new_doc empty_store st' t"
  using parse_accepts_renderings [OF empty_store_ok example_wf document_renders [OF example_wf]] .

text \<open>
  C4: on every text and whatever the allocator does, \<open>json_parse_document\<close> returns one of
  \<open>JSON_OK\<close>, \<open>JSON_MALFORMED_DOCUMENT\<close>, \<open>JSON_INCOMPLETE_DOCUMENT\<close> and \<open>JSON_MEMORY\<close> without
  leaving defined behaviour (so neither an assertion fails nor are \<open>JSON_UNKNOWN_PROBLEM\<close> and
  \<open>JSON_BAD_TREE_STRUCTURE\<close> ever seen); the root pointer is null on an error, \<open>JSON_MEMORY\<close> is
  returned only where a request was refused, and an accepted document is well formed.
\<close>

theorem parse_document_safe:
  assumes "store_ok st"
  shows "\<exists>e p st'. json_parse_document src st = Some (e, p, st') \<and>
    e \<in> {JSON_OK, JSON_MALFORMED_DOCUMENT, JSON_INCOMPLETE_DOCUMENT, JSON_MEMORY} \<and>
    (e \<noteq> JSON_OK \<longrightarrow> p = NULL) \<and> (generous (mem st) \<longrightarrow> e \<noteq> JSON_MEMORY) \<and>
    (e = JSON_OK \<longrightarrow> (\<exists>t. p = jt_ptr t \<and> new_doc st st' t \<and>
       wf_val (generous (mem st)) (erase t) \<and> is_container (erase t)))"
  using json_parse_document_safe [OF assms, of src] by metis

theorem parse_document_safe_witness:
  "\<exists>e p st'. json_parse_document ''[1,'' empty_store = Some (e, p, st') \<and> e \<noteq> JSON_MEMORY \<and>
    (e \<noteq> JSON_OK \<longrightarrow> p = NULL)"
  using parse_document_safe [OF empty_store_ok(1), of "''[1,''"] empty_store_ok(2) by metis

text \<open>
  C7: printing a well-formed document and parsing the text gives back the document: the second
  tree has the same shape, types and texts, lies at fresh addresses, and leaves the first
  untouched.
\<close>

theorem print_parse_round_trip:
  assumes "holds_doc (nodes st) t" and "store_ok st" and "generous (mem st)"
    and "wf_val True (erase t)" and "is_container (erase t)" and "2 * tree_size t \<le> fuel"
  shows "\<exists>src st1 u st2. json_tree_to_string fuel (jt_ptr t) old st = Some (JSON_OK, Some src, st1) \<and>
    json_parse_document src st1 = Some (JSON_OK, jt_ptr u, st2) \<and> erase u = erase t \<and>
    new_doc st st2 u"
  using print_parse_document [OF assms, of old] by metis

theorem print_parse_round_trip_witness:
  "\<exists>src st1 u st2. json_tree_to_string 8 (jt_ptr example_tree) None example_store =
      Some (JSON_OK, Some src, st1) \<and>
    json_parse_document src st1 = Some (JSON_OK, jt_ptr u, st2) \<and> erase u = erase example_tree \<and>
    new_doc example_store st2 u"
  by (rule print_parse_round_trip [OF example_holds example_store_ok example_wf])
    (simp add: example_tree_def)

text \<open>
  C9: pieces that are accepted are accepted as a whole.  When \<open>json_parse_fragment\<close>, called on
  non-empty buffers one after the other for as long as it asks for more, ends with a complete
  document (\<open>JSON_WAITING_FOR_EOF\<close>) or asking for still more, wherever the text was cut, one call
  on the concatenation gives the same code, parser state, tree and heap.  Of pieces that are
  refused nothing is said, and there the two differ: an escape cut after its second hexadecimal
  digit is refused, while the same text in one piece is accepted (\<open>lexer_split_escape\<close>).
\<close>

theorem parse_fragments:
  assumes "feed bs json_jpi_init st = Some (e, r)" and "store_ok st"
    and "e \<in> {JSON_INCOMPLETE_DOCUMENT, JSON_WAITING_FOR_EOF}"
    and "\<forall>b \<in> set bs. b \<noteq> [] \<and> NUL \<notin> set b"
  shows "json_parse_fragment (concat bs) json_jpi_init st = Some (e, r)"
  using feed_concat [OF assms(1,3) in_progress_init [OF assms(2), of False, simplified] assms(4)] .

lemma example_feed:
  "map_option fst (feed [''{ '', QUOTE # ''a'', QUOTE # '':[tr'', ''ue]}''] json_jpi_init empty_store) =
    Some JSON_WAITING_FOR_EOF"
  by code_simp

theorem parse_fragments_witness:
  "\<exists>r. json_parse_fragment (concat [''{ '', QUOTE # ''a'', QUOTE # '':[tr'', ''ue]}'']) json_jpi_init
    empty_store = Some (JSON_WAITING_FOR_EOF, r)"
proof -
  obtain r where "feed [''{ '', QUOTE # ''a'', QUOTE # '':[tr'', ''ue]}''] json_jpi_init empty_store =
      Some (JSON_WAITING_FOR_EOF, r)"
    using example_feed by auto
  then show ?thesis
    using parse_fragments [OF _ empty_store_ok(1)] by fastforce
qed

text \<open>
  C18: the lexer always returns, whatever the buffer, the state it was suspended in and the
  allocator: a token with its text in the grammar of strings or numbers and the lexer back in
  state 0, \<open>LEX_MORE\<close> with a state that can be resumed, \<open>LEX_INVALID_CHARACTER\<close>, or
  \<open>LEX_MEMORY\<close> where a request was refused; never \<open>LEX_ERROR\<close>.
\<close>

theorem lexer_total:
  assumes "lex_inv s"
  shows "\<exists>v s'. lexer buffer s = Some (v, s') \<and> call_ok s v s'"
proof -
  let ?s = "if lx_p s = None then s\<lparr>lx_p := Some buffer\<rparr> else s"
  have "lex_inv ?s" "lx_p ?s \<noteq> None" "lx_mem ?s = lx_mem s"
    using assms by (auto simp: lex_inv_def)
  then obtain v s' where "lexer_loop ?s = Some (v, s')" "call_ok ?s v s'"
    using lexer_loop_ok [of ?s] by blast
  with \<open>lx_mem ?s = lx_mem s\<close> have "lexer buffer s = Some (v, s') \<and> call_ok s v s'"
    by (simp add: lexer_def call_ok_def)
  then show ?thesis by blast
qed

theorem lexer_total_witness:
  "\<exists>v s'. lexer ''tr'' (idle_lexer []) = Some (v, s') \<and> call_ok (idle_lexer []) v s'"
  by (rule lexer_total) (simp add: idle_lexer_def lex_inv_def)

text \<open>
  C23: an idle lexer in front of a quoted text whose inside follows the JSON grammar of strings
  (two-character escapes, \<open>\u\<close> with four hexadecimal digits, no bare quote, backslash or NUL)
  returns \<open>LEX_STRING\<close>, leaves that text in the buffer string, and stands behind the closing
  quote, ready for the next token.
\<close>

theorem lexer_strings:
  assumes "lex_idle s (QUOTE # u @ QUOTE # rest)" and "string_body u"
  shows "\<exists>s'. lexer buffer s = Some (LEX_STRING, s') \<and> lex_idle s' rest \<and> rcs_holds (lx_text s') u"
proof -
  have "lexer buffer s = lexer_loop s"
    using assms(1) by (simp add: lexer_def lex_idle_def)
  then show ?thesis
    using lexer_string_token [OF assms] by metis
qed

theorem lexer_strings_witness:
  "\<exists>s'. lexer [] (idle_lexer (QUOTE # (BACKSLASH # ''u00e9x'') @ QUOTE # ''],'')) =
      Some (LEX_STRING, s') \<and>
    lex_idle s' ''],'' \<and> rcs_holds (lx_text s') (BACKSLASH # ''u00e9x'')"
  by (rule lexer_strings) (simp_all add: idle_lexer_ok is_hex_def is_escape_def)

text \<open>
  C24: an idle lexer in front of a number of the JSON grammar (sign, integer part without
  leading zero, fraction, exponent) that is followed by white space, a closing bracket, a closing
  brace or a comma returns \<open>LEX_NUMBER\<close> with exactly the characters of the number as its text.
  A bracket, brace or comma is left for the next call; a white space is consumed.
\<close>

theorem lexer_numbers:
  assumes "lex_idle s (u @ c # rest)" and "is_number u" and "ends_number c"
  shows "\<exists>s'. lexer buffer s = Some (LEX_NUMBER, s') \<and>
    lex_idle s' (if is_ws c then rest else c # rest) \<and> rcs_holds (lx_text s') u"
proof -
  have "lexer buffer s = lexer_loop s"
    using assms(1) by (simp add: lexer_def lex_idle_def)
  then show ?thesis
    using lexer_number_token [OF assms] by metis
qed

lemma example_number: "is_number ''-10.5e+3''"
  using number_run [of "''-10.5e+3''"] by (simp add: accepts_number_def text_step_simps char_simps)

theorem lexer_numbers_witness:
  "\<exists>s'. lexer [] (idle_lexer (''-10.5e+3'' @ CHR '']'' # '','')) = Some (LEX_NUMBER, s') \<and>
    lex_idle s' ''],'' \<and> rcs_holds (lx_text s') ''-10.5e+3''"
  using lexer_numbers [OF idle_lexer_ok example_number, where c = "CHR '']''" and rest = "'',''"
    and buffer = "[]"] by (simp add: ends_number_def is_ws_def)

text \<open>
  C25: a call of the lexer that runs out of input (\<open>LEX_MORE\<close>) can be continued: the next call
  on the next buffer returns what one call on both buffers together returns; and a call that
  has found a token finds the same one in the longer buffer, leaving the additional characters
  unread.
\<close>

theorem lexer_resumes:
  assumes "lexer cs s = Some (v, s')" and "lx_p s = None" and "v = LEX_MORE \<or> is_token v"
    and "NUL \<notin> set cs"
  shows "lexer (cs @ ds) s =
    (if v = LEX_MORE then lexer ds s' else Some (v, s'\<lparr>lx_p := map_option (\<lambda>r. r @ ds) (lx_p s')\<rparr>))"
proof -
  let ?s = "s\<lparr>lx_p := Some cs\<rparr>"
  have loop: "lexer_loop ?s = Some (v, s')"
    using assms(1,2) by (simp add: lexer_def)
  have "v = LEX_MORE \<Longrightarrow> lx_p s' = None"
    using loop by (rule lexer_loop_more)
  then show ?thesis
    using lexer_loop_fragment [OF loop assms(3) _ assms(4), of ds] assms(2)
    by (simp add: extend_def lexer_def)
qed

lemma example_lexer:
  "lexer ''tr'' ((idle_lexer [])\<lparr>lx_p := None\<rparr>) = Some (LEX_MORE, (idle_lexer [])\<lparr>lx_p := None, lx_state := 8\<rparr>)"
  by (simp add: lexer_def lexer_loop_Cons idle_lexer_def lex_step_def lex_root_def is_ws_def
      lex_goto_def lex_literal_def lex_expect_def Let_def)

theorem lexer_resumes_witness:
  "lexer (''tr'' @ ''ue'') ((idle_lexer [])\<lparr>lx_p := None\<rparr>) =
    lexer ''ue'' ((idle_lexer [])\<lparr>lx_p := None, lx_state := 8\<rparr>)"
  using lexer_resumes [OF example_lexer, of "''ue''"] by simp

section \<open>Trees\<close>

text \<open>
  C26: \<open>json_tree_to_string\<close>, called on any node of a document in the heap, prints the
  subtree under it in document order, with the brackets, commas and colons of JSON, or returns
  \<open>JSON_BAD_TREE_STRUCTURE\<close> and keeps the caller's text exactly where a label has no value;
  the walk over the parent and sibling pointers takes at most two turns per node.
\<close>

theorem tree_to_string_prints:
  assumes "holds_doc (nodes st) (plug t fs)" and "has_texts t" and "generous (mem st)"
    and "2 * tree_size t \<le> fuel"
  shows "\<exists>m. json_tree_to_string fuel (jt_ptr t) old st =
    (case tree_text (is_label_place (hole_parent fs) st) t of
       None \<Rightarrow> Some (JSON_BAD_TREE_STRUCTURE, old, st\<lparr>mem := m\<rparr>)
     | Some x \<Rightarrow> Some (JSON_OK, Some x, st\<lparr>mem := m\<rparr>))"
  using json_tree_to_string_spec [OF assms, of old] by metis

lemma example_texts:
  "has_texts example_tree"
  "tree_text True example_tree = Some (CHR ''{'' # QUOTE # ''a'' @ QUOTE # '':[1]}'')"
  by (simp_all add: example_tree_def open_text_def close_text_def visits_kids_def)

theorem tree_to_string_prints_witness:
  "\<exists>m. json_tree_to_string 8 (jt_ptr example_tree) None example_store =
    Some (JSON_OK, Some (CHR ''{'' # QUOTE # ''a'' @ QUOTE # '':[1]}''), example_store\<lparr>mem := m\<rparr>)"
proof -
  have "2 * tree_size example_tree \<le> 8" "is_label_place (hole_parent []) example_store"
    by (simp_all add: example_tree_def is_label_place_def)
  then show ?thesis
    using tree_to_string_prints [of example_store example_tree "[]" 8 None] example_holds
      example_store_ok(2) example_texts by simp
qed

text \<open>
  C29: \<open>json_free_value\<close> on the root of a document removes exactly the nodes of the document,
  each once, and changes no other cell; its recursion takes at most two calls per node.
\<close>

theorem free_value_frees_document:
  assumes "holds_doc (nodes st) t" and "2 * tree_size t \<le> fuel"
  shows "json_free_value fuel (jt_ptr t) st =
    Some (st\<lparr>nodes := (\<lambda>a. if a \<in> set (tree_addrs t) then None else nodes st a)\<rparr>)"
  using free_doc [OF assms] .

theorem free_value_frees_document_witness:
  "json_free_value 8 (Ptr 0) example_store = Some (example_store\<lparr>nodes := (\<lambda>_. None)\<rparr>)"
proof -
  have "2 * tree_size example_tree \<le> 8" "jt_ptr example_tree = Ptr 0"
    by (simp_all add: example_tree_def)
  moreover have "(\<lambda>a. if a \<in> set (tree_addrs example_tree) then None else nodes example_store a) =
      (\<lambda>_. None)"
    by (auto simp: example_tree_def example_store_def)
  ultimately show ?thesis
    using free_value_frees_document [OF example_holds, of 8] by simp
qed

text \<open>
  C30: \<open>json_insert_child\<close> appends a document, as its last child, to a node that may hold it
  (an object holds labels; an array and a label hold containers and childless values); the
  other nodes keep their place and no cell outside the two documents changes.
\<close>

theorem insert_child_appends:
  assumes "holds_doc (nodes st) (plug (JNode a ty s ts) fs)" and "holds_doc (nodes st) tc"
    and "set (tree_addrs (plug (JNode a ty s ts) fs)) \<inter> set (tree_addrs tc) = {}"
    and "may_hold ty tc"
  shows "\<exists>st'. json_insert_child (Ptr a) (jt_ptr tc) st = Some (JSON_OK, st') \<and>
    holds_doc (nodes st') (plug (JNode a ty s (ts @ [tc])) fs) \<and>
    (\<forall>x. x \<notin> set (tree_addrs (plug (JNode a ty s ts) fs)) \<longrightarrow> x \<notin> set (tree_addrs tc) \<longrightarrow>
      nodes st' x = nodes st x)"
  using insert_child_ok [OF assms] by metis

text \<open>The example document and, beside it, a null value and an array.\<close>

definition pair_store :: store where
  "pair_store = example_store\<lparr>nodes := (nodes example_store)(7 \<mapsto> blank_value JSON_NULL None,
     8 \<mapsto> blank_value JSON_ARRAY None)\<rparr>"

definition example_frames :: "frame list" where
  "example_frames = [Frame 1 JSON_STRING (Some ''a'') [] [], Frame 0 JSON_OBJECT None [] []]"

lemma pair_store_holds:
  "holds_doc (nodes pair_store) (plug (JNode 2 JSON_ARRAY None [JNode 3 JSON_NUMBER (Some ''1'') []])
    example_frames)"
  "holds_doc (nodes pair_store) example_tree"
  "holds_doc (nodes pair_store) (JNode 7 JSON_NULL None [])"
  "holds_doc (nodes pair_store) (JNode 8 JSON_ARRAY None [])"
  by (simp_all add: pair_store_def example_store_def example_tree_def example_frames_def
      holds_doc_def holds_tree_def blank_value_cell)

theorem insert_child_appends_witness:
  "\<exists>st'. json_insert_child (Ptr 2) (Ptr 7) pair_store = Some (JSON_OK, st') \<and>
    holds_doc (nodes st') (plug (JNode 2 JSON_ARRAY None
      [JNode 3 JSON_NUMBER (Some ''1'') [], JNode 7 JSON_NULL None []]) example_frames)"
  using insert_child_appends [OF pair_store_holds(1,3)]
  by (simp add: example_frames_def may_hold_def) blast

text \<open>
  An insertion that would break the structure, such as a value directly under an object
  or anything under a number, is refused with \<open>JSON_BAD_TREE_STRUCTURE\<close> and changes nothing.
\<close>

theorem insert_child_refuses:
  assumes "holds_doc (nodes st) (plug (JNode a ty s ts) fs)" and "holds_doc (nodes st) tc"
    and "a \<noteq> jt_addr tc" and "\<not> may_hold ty tc"
  shows "json_insert_child (Ptr a) (jt_ptr tc) st = Some (JSON_BAD_TREE_STRUCTURE, st)"
  using insert_child_bad [OF assms] .

theorem insert_child_refuses_witness:
  "json_insert_child (Ptr 0) (Ptr 8) pair_store = Some (JSON_BAD_TREE_STRUCTURE, pair_store)"
  using insert_child_refuses [of pair_store 0 JSON_OBJECT None
    "jt_kids example_tree" "[]" "JNode 8 JSON_ARRAY None []"] pair_store_holds(2,4)
  by (simp add: example_tree_def may_hold_def)

text \<open>
  \<open>json_find_first_label\<close> returns the first label of the object with exactly the given
  text, null where there is none; \<open>json_find_first_label_ignore_case\<close> the first one that
  agrees up to the case of the ASCII letters.
\<close>

theorem find_first_label_finds:
  assumes "holds_doc (nodes st) (plug (JNode a JSON_OBJECT s ts) fs)"
    and "\<forall>t \<in> set ts. jt_text t \<noteq> None" and "length ts < fuel"
  shows "json_find_first_label fuel (Ptr a) (Some lbl) st = Some (first_label (\<lambda>s l. s = l) lbl ts) \<and>
    json_find_first_label_ignore_case fuel (Ptr a) (Some lbl) st =
      Some (first_label (\<lambda>s l. map lower_c s = map lower_c l) lbl ts)"
  using find_first_label_spec [OF assms(1) _ assms(3)] assms(2) by blast

lemma lower_c_example: "lower_c (CHR ''A'') = CHR ''a''" "lower_c (CHR ''a'') = CHR ''a''"
  by code_simp+

theorem find_first_label_finds_witness:
  "json_find_first_label 2 (Ptr 0) (Some ''A'') example_store = Some NULL \<and>
   json_find_first_label_ignore_case 2 (Ptr 0) (Some ''A'') example_store = Some (Ptr 1)"
  using find_first_label_finds [of example_store 0 None "jt_kids example_tree" "[]" 2 "''A''"] example_holds
  by (simp add: example_tree_def first_label_def lower_c_example)

section \<open>Texts\<close>

text \<open>
  C37: \<open>json_escape\<close> followed by \<open>json_unescape\<close> gives back the text, and what \<open>json_escape\<close>
  returns may stand between quotes in a JSON document.
\<close>

theorem escape_unescape:
  assumes "generous m" and "NUL \<notin> set src"
  shows "\<exists>x m1 m2. json_escape src m = Some (Some x, m1) \<and> string_body x \<and>
    json_unescape x m1 = Some (Some src, m2)"
proof -
  obtain m1 where m1: "json_escape src m = Some (Some (escaped src), m1)" "generous m1"
    using json_escape_spec [OF assms] .
  obtain m2 where "json_unescape (escaped src) m1 = Some (Some src, m2)"
    using json_unescape_spec [OF m1(2) assms(2)] .
  then show ?thesis
    using m1(1) string_body_escaped [OF assms(2)] by blast
qed

theorem escape_unescape_witness:
  "\<exists>x m1 m2. json_escape (QUOTE # ''a/b'' @ [BACKSLASH]) plenty = Some (Some x, m1) \<and> string_body x \<and>
    json_unescape x m1 = Some (Some (QUOTE # ''a/b'' @ [BACKSLASH]), m2)"
  by (rule escape_unescape) simp_all

text \<open>
  \<open>json_strip_white_spaces\<close>, which works in place with two indices, computes the filter
  that drops white space outside string literals and keeps everything else; it stays within the
  buffer.
\<close>

theorem strip_white_spaces_filters:
  assumes "NUL \<notin> set src"
  shows "\<exists>buf. json_strip_white_spaces (src @ NUL # rest) = Some buf \<and>
    c_string buf = stripped False NUL src \<and> length buf = length (src @ NUL # rest)"
  using json_strip_white_spaces_spec [OF assms, of rest] by metis

theorem strip_white_spaces_filters_witness:
  "\<exists>buf. json_strip_white_spaces ((''[ '' @ QUOTE # ''a b'' @ QUOTE # '' ]'') @ NUL # []) = Some buf \<and>
    c_string buf = ''['' @ QUOTE # ''a b'' @ QUOTE # '']''"
  using strip_white_spaces_filters [of "''[ '' @ QUOTE # ''a b'' @ QUOTE # '' ]''" "[]"]
  by (auto simp: is_ws_def)

text \<open>
  \<open>json_format_string\<close> changes only white space outside string literals: the formatted
  text and the text it was given strip to the same string (for texts without a backslash).
\<close>

theorem format_keeps_content:
  assumes "generous m" and "NUL \<notin> set src" and "BACKSLASH \<notin> set src"
  shows "\<exists>res m'. json_format_string src m = Some (Some res, m') \<and>
    stripped False NUL res = stripped False NUL src"
  using json_format_string_spec [OF assms] by metis

theorem format_keeps_content_witness:
  "\<exists>res m'. json_format_string ''{[1,true ]}'' plenty = Some (Some res, m') \<and>
    stripped False NUL res = stripped False NUL ''{[1,true ]}''"
  by (rule format_keeps_content) simp_all

text \<open>
  C38: appending to a growing string (\<open>rcs_catcs\<close>) never writes outside its buffer, for every
  buffer that satisfies the invariant, every text and every allocator: either the text is
  appended and the invariant holds again, or \<open>RS_MEMORY\<close> is returned because the allocator
  refused, and the caller's pointer dangles: its struct has been freed (the block of the text has
  not, and leaks, which the model does not count).
\<close>

theorem rcs_catcs_appends:
  assumes "rcs_holds p s" and "length pos = n"
  shows "(\<exists>p' m'. rcs_catcs p pos n m = Some (RS_OK, p', m') \<and> rcs_holds p' (s @ c_string pos)) \<or>
    (\<exists>m'. rcs_catcs p pos n m = Some (RS_MEMORY, RcsDangling, m') \<and> \<not> generous m)"
  by (cases rule: rcs_catcs_spec [OF assms, of m]) auto

theorem rcs_catcs_appends_witness:
  "\<exists>p' m'. rcs_catcs (Rcs \<lparr>rcs_text = ''ab'' @ [NUL], rcs_max = 2\<rparr>) ''cdef'' 4 plenty =
      Some (RS_OK, p', m') \<and> rcs_holds p' ''abcdef''"
  using rcs_catcs_appends [of "Rcs \<lparr>rcs_text = ''ab'' @ [NUL], rcs_max = 2\<rparr>" "''ab''" "''cdef''" 4 plenty]
  by (simp add: rcs_ok_def c_string_def)

section \<open>Comments\<close>

text \<open>
  Between two tokens the lexer skips a comment, \<open>/* u */\<close> where \<open>u\<close> has no star, and
  \<open>// u\<close> up to a line end: the call goes on behind it.
\<close>

theorem lexer_skips_comments:
  assumes "NUL \<notin> set u"
  shows "(CHR ''*'' \<notin> set u \<longrightarrow> lex_idle s (''/*'' @ u @ ''*/'' @ cs) \<longrightarrow>
      (\<exists>s'. lexer b s = lexer b s' \<and> lex_idle s' cs)) \<and>
    (CHR 0x0A \<notin> set u \<longrightarrow> CHR 0x0D \<notin> set u \<longrightarrow> e \<in> {CHR 0x0A, CHR 0x0D} \<longrightarrow>
      lex_idle s (''//'' @ u @ e # cs) \<longrightarrow> (\<exists>s'. lexer b s = lexer b s' \<and> lex_idle s' cs))"
proof -
  have run: "lexer b s = lexer_loop s" if "lex_idle s w" for s w
    using that by (simp add: lexer_def lex_idle_def)
  have "\<exists>s'. lexer b s = lexer b s' \<and> lex_idle s' cs"
    if "CHR ''*'' \<notin> set u" and idle: "lex_idle s (''/*'' @ u @ ''*/'' @ cs)"
    using lexer_block_comment [OF idle assms that(1)] run run [OF idle] by metis
  moreover have "\<exists>s'. lexer b s = lexer b s' \<and> lex_idle s' cs"
    if "CHR 0x0A \<notin> set u" "CHR 0x0D \<notin> set u" "e \<in> {CHR 0x0A, CHR 0x0D}"
      and idle: "lex_idle s (''//'' @ u @ e # cs)"
    using lexer_line_comment [OF idle _ assms that(1,2)] that(3) run run [OF idle] by (metis insertE singletonD)
  ultimately show ?thesis by blast
qed

theorem lexer_skips_comments_witness:
  "\<exists>s'. lexer [] (idle_lexer (''/*'' @ ''a b'' @ ''*/'' @ ''[1]'')) = lexer [] s' \<and> lex_idle s' ''[1]''"
  using lexer_skips_comments [of "''a b''" "idle_lexer (''/*'' @ ''a b'' @ ''*/'' @ ''[1]'')" "''[1]''" "[]"]
    idle_lexer_ok by simp

section \<open>The event parser\<close>

text \<open>
  On a text without quotes, \<open>json_saxy_parse\<close>, called character by character until an
  error, never leaves defined behaviour (no null callback is called, no freed or null string is
  used) and ends with \<open>JSON_OK\<close> or \<open>JSON_ILLEGAL_CHARACTER\<close>; every number it reports is a
  non-empty text of digits, signs, points and exponents; the string it holds is either null or,
  in the number states only, live.
\<close>

theorem saxy_safe_without_strings:
  assumes "generous m" and "complete_functions jsf" and "QUOTE \<notin> set cs"
  shows "\<exists>e s. saxy_run jsf cs (saxy_start m) = Some (e, s) \<and>
    e \<in> {JSON_OK, JSON_ILLEGAL_CHARACTER} \<and> saxy_inv s"
proof -
  have "saxy_inv (saxy_start m)"
    using assms(1) by (simp add: saxy_inv_def saxy_start_def plain_states_def)
  then show ?thesis
    using saxy_run_ok [OF _ assms(2,3)] unfolding saxy_ok_def by blast
qed

theorem saxy_safe_without_strings_witness:
  "\<exists>e s. saxy_run all_functions ''[-1.5e3, x'' (saxy_start plenty) = Some (e, s) \<and>
    e \<in> {JSON_OK, JSON_ILLEGAL_CHARACTER} \<and> saxy_inv s"
  by (rule saxy_safe_without_strings) (simp_all add: complete_functions_def all_functions_def)

text \<open>
  C39: for every document built from literals, empty objects and non-empty arrays, nested at
  will and with any white space between the tokens, the event parser makes exactly the
  callbacks of the document, in document order, leaving out those that are not set.
\<close>

theorem saxy_reports_events:
  assumes "spread (saxy_toks d) cs"
  shows "\<exists>s. saxy_run jsf cs (saxy_start m) = Some (JSON_OK, s) \<and>
    sx_events s = filter (wants jsf) (doc_events d)"
  using saxy_events_run [OF _ assms, of "saxy_start m" jsf] by (simp add: saxy_start_def moved_def)

lemma example_spread: "spread (saxy_toks (SArray STrue [SEmptyObject])) '' [true, {} ]''"
proof -
  have ws: "is_ws (CHR '' '')"
    by (simp add: is_ws_def)
  have "spread [TCloseArray] '' ]''"
    by (rule spread_gap [OF ws], rule spread_tok [of "[]" "[]"]) simp_all
  then have "spread [TOpenObject, TCloseObject, TCloseArray] '' {} ]''"
    by - (rule spread_gap [OF ws], rule spread_tok, rule spread_tok, assumption, rule refl, simp)
  then have "spread [TTrue, TComma, TOpenObject, TCloseObject, TCloseArray] ''true, {} ]''"
    by - (rule spread_tok, rule spread_tok, assumption, rule refl, simp)
  then have "spread (TOpenArray # [TTrue, TComma, TOpenObject, TCloseObject, TCloseArray]) '' [true, {} ]''"
    by - (rule spread_gap [OF ws], rule spread_tok, assumption, simp)
  then show ?thesis by simp
qed

theorem saxy_reports_events_witness:
  "\<exists>s. saxy_run all_functions '' [true, {} ]'' (saxy_start plenty) = Some (JSON_OK, s) \<and>
    sx_events s = [OpenArray, NewTrue, SiblingSeparator, OpenObject, CloseObject, CloseArray]"
  using saxy_reports_events [OF example_spread, of all_functions plenty] by (simp add: all_functions_def)

end
